(* ===== verification/Prelude.thy ===== *)
theory Prelude
  imports Main "HOL-Library.Word" "HOL-Library.Monad_Syntax"
begin

unbundle bit_operations_syntax

text \<open>
  Shared material of the development: the names of the machine integer types, Rust's checked and
  saturating arithmetic, byte memory with out-of-range accesses as \<^const>\<open>None\<close>, the byte orders,
  the outcome of an atomic compare-and-exchange, and the two generic interfaces the components
  instantiate (a packed word codec and a transition system with an invariant).
\<close>

section \<open>Machine integers\<close>

type_synonym u8 = "8 word"
type_synonym u16 = "16 word"
type_synonym u32 = "32 word"
type_synonym u64 = "64 word"

named_theorems layout_simps \<open>sizes and offsets of the packed layouts\<close>
named_theorems mem_simps \<open>reading back what was stored in a byte memory\<close>

definition checked_add :: "'a::len word \<Rightarrow> 'a word \<Rightarrow> 'a word option" where
  "checked_add a b = (if unat a + unat b < 2 ^ LENGTH('a) then Some (a + b) else None)"

definition checked_mul :: "'a::len word \<Rightarrow> 'a word \<Rightarrow> 'a word option" where
  "checked_mul a b = (if unat a * unat b < 2 ^ LENGTH('a) then Some (a * b) else None)"

definition saturating_add :: "'a::len word \<Rightarrow> 'a word \<Rightarrow> 'a word" where
  "saturating_add a b = (if unat a + unat b < 2 ^ LENGTH('a) then a + b else - 1)"

definition saturating_sub :: "'a::len word \<Rightarrow> 'a word \<Rightarrow> 'a word" where
  "saturating_sub a b = (if b \<le> a then a - b else 0)"

lemma checked_add_Some_iff:
  "checked_add a b = Some c \<longleftrightarrow> unat c = unat a + unat b" for a :: "'a::len word"
  by (auto simp: checked_add_def unat_word_ariths word_unat_eq_iff)
     (metis unsigned_less)

lemma checked_mul_Some_iff:
  "checked_mul a b = Some c \<longleftrightarrow> unat c = unat a * unat b" for a :: "'a::len word"
  by (auto simp: checked_mul_def unat_word_ariths word_unat_eq_iff)
     (metis unsigned_less)

lemma checked_add_None_iff:
  "checked_add a b = None \<longleftrightarrow> 2 ^ LENGTH('a) \<le> unat a + unat b" for a :: "'a::len word"
  by (auto simp: checked_add_def)

lemma checked_mul_None_iff:
  "checked_mul a b = None \<longleftrightarrow> 2 ^ LENGTH('a) \<le> unat a * unat b" for a :: "'a::len word"
  by (auto simp: checked_mul_def)

lemma unat_saturating_sub: "unat (saturating_sub a b) = unat a - unat b"
  by (simp add: saturating_sub_def unat_sub word_le_nat_alt)

lemma unat_saturating_add:
  "unat (saturating_add a b) = min (unat a + unat b) (2 ^ LENGTH('a) - 1)" for a :: "'a::len word"
proof (cases "unat a + unat b < 2 ^ LENGTH('a)")
  case True
  then show ?thesis by (simp add: saturating_add_def unat_word_ariths)
next
  case False
  then show ?thesis by (simp add: saturating_add_def unsigned_minus_1_eq_mask mask_eq_exp_minus_1)
qed

lemma unat_bound: "unat w < 2 ^ LENGTH('a)" for w :: "'a::len word"
  by (rule unsigned_less)

lemma le_saturating_add: "a \<le> saturating_add a b" for a :: "'a::len word"
  using unat_bound [of a] by (simp add: word_le_nat_alt unat_saturating_add le_diff_conv2 Suc_le_eq)

lemma unat_ucast_up:
  "LENGTH('b) \<le> LENGTH('a) \<Longrightarrow> unat (ucast w :: 'a::len word) = unat w" for w :: "'b::len word"
  by (simp add: unsigned_ucast_eq take_bit_nat_eq_self_iff order.strict_trans2 [OF unsigned_less])

lemma unat_take_bit: "unat (take_bit n w) = unat w mod 2 ^ n" for w :: "'a::len word"
  by (simp only: unsigned_take_bit_eq) (simp add: take_bit_eq_mod)

section \<open>Results with a flag\<close>

lemma ex_flag [simp]:
  "(\<exists>b. b \<and> P b) \<longleftrightarrow> P True" "(\<exists>b. \<not> b \<and> P b) \<longleftrightarrow> P False" "\<exists>b. b" "\<exists>b. \<not> b"
  by metis+

section \<open>Byte memory\<close>

text \<open>
  A Rust allocation is its list of bytes. An access that leaves the allocation, or a slice index that
  panics, is \<^const>\<open>None\<close>: a fault the source would turn into a panic or into undefined behaviour.
\<close>

definition load_bytes :: "u8 list \<Rightarrow> nat \<Rightarrow> nat \<Rightarrow> u8 list option" where
  "load_bytes m off n = (if off + n \<le> length m then Some (take n (drop off m)) else None)"

definition load_byte :: "u8 list \<Rightarrow> nat \<Rightarrow> u8 option" where
  "load_byte m off = (if off < length m then Some (m ! off) else None)"

definition store_bytes :: "u8 list \<Rightarrow> nat \<Rightarrow> u8 list \<Rightarrow> u8 list option" where
  "store_bytes m off bs =
     (if off + length bs \<le> length m then Some (take off m @ bs @ drop (off + length bs) m) else None)"

lemma store_bytes_length:
  "store_bytes m off bs = Some m' \<Longrightarrow> length m' = length m"
  by (auto simp: store_bytes_def split: if_splits)

lemma store_bytes_Some_iff:
  "(\<exists>m'. store_bytes m off bs = Some m') \<longleftrightarrow> off + length bs \<le> length m"
  by (simp add: store_bytes_def)

lemma load_store_same:
  "store_bytes m off bs = Some m' \<Longrightarrow> n = length bs \<Longrightarrow> load_bytes m' off n = Some bs"
  by (auto simp: store_bytes_def load_bytes_def split: if_splits)

lemma load_bytes_eqI:
  assumes "length m' = length m"
    and "\<And>i. off \<le> i \<Longrightarrow> i < off + n \<Longrightarrow> m' ! i = m ! i"
  shows "load_bytes m' off n = load_bytes m off n"
proof (cases "off + n \<le> length m")
  case True
  have "take n (drop off m') = take n (drop off m)"
    by (rule nth_equalityI) (use True assms in auto)
  with True assms(1) show ?thesis by (simp add: load_bytes_def)
next
  case False
  with assms(1) show ?thesis by (simp add: load_bytes_def)
qed

lemma store_bytes_nth:
  assumes "store_bytes m off bs = Some m'" and "i < length m"
  shows "m' ! i = (if off \<le> i \<and> i < off + length bs then bs ! (i - off) else m ! i)"
  using assms by (auto simp: store_bytes_def nth_append min_def split: if_splits)

lemma load_store_disjoint:
  assumes st: "store_bytes m off bs = Some m'"
    and "o' + n \<le> off \<or> off + length bs \<le> o'"
  shows "load_bytes m' o' n = load_bytes m o' n"
proof (cases "o' + n \<le> length m")
  case True
  with assms(2) show ?thesis
    by (intro load_bytes_eqI store_bytes_length [OF st]) (auto simp: store_bytes_nth [OF st])
next
  case False
  with store_bytes_length [OF st] show ?thesis by (simp add: load_bytes_def)
qed

lemma store_bytes_append:
  "off = length pre \<Longrightarrow> length old = length bs \<Longrightarrow>
   store_bytes (pre @ old @ post) off bs = Some (pre @ bs @ post)"
  by (simp add: store_bytes_def)

lemma load_bytes_append:
  "off = length pre \<Longrightarrow> n = length bs \<Longrightarrow> load_bytes (pre @ bs @ post) off n = Some bs"
  by (simp add: load_bytes_def)

text \<open>A memory cut at an offset into what precedes it, a block of given length, and the rest.\<close>

lemma memory_split:
  assumes "off + n \<le> length m"
  obtains pre old post where "m = pre @ old @ post" "length pre = off" "length old = n"
proof
  show "m = take off m @ take n (drop off m) @ drop (off + n) m"
    by (metis add.commute append_take_drop_id drop_drop)
qed (use assms in auto)

lemma store_within:
  assumes "off + length bs \<le> length b"
  shows "store_bytes (pre @ b @ post) (length pre + off) bs
    = Some (pre @ (take off b @ bs @ drop (off + length bs) b) @ post)"
  using assms by (simp add: store_bytes_def)

section \<open>Byte order\<close>

primrec le_bytes :: "nat \<Rightarrow> 'a::len word \<Rightarrow> u8 list" where
  "le_bytes 0 w = []"
| "le_bytes (Suc n) w = ucast w # le_bytes n (drop_bit 8 w)"

primrec le_word :: "u8 list \<Rightarrow> 'a::len word" where
  "le_word [] = 0"
| "le_word (b # bs) = ucast b OR push_bit 8 (le_word bs)"

definition be_bytes :: "nat \<Rightarrow> 'a::len word \<Rightarrow> u8 list" where
  "be_bytes n w = rev (le_bytes n w)"

definition be_word :: "u8 list \<Rightarrow> 'a::len word" where
  "be_word bs = le_word (rev bs)"

lemma length_le_bytes [simp]: "length (le_bytes n w) = n"
  by (induction n arbitrary: w) auto

lemma length_be_bytes [simp]: "length (be_bytes n w) = n"
  by (simp add: be_bytes_def)

lemma le_word_le_bytes: "le_word (le_bytes n w) = take_bit (8 * n) w"
proof (induction n arbitrary: w)
  case 0
  show ?case by simp
next
  case (Suc n)
  show ?case
    unfolding le_bytes.simps le_word.simps Suc.IH
    by (rule bit_eqI) (auto simp: bit_simps not_less)
qed

lemma le_word_le_bytes_id [mem_simps]:
  "LENGTH('a) \<le> 8 * n \<Longrightarrow> le_word (le_bytes n w) = w" for w :: "'a::len word"
  by (simp add: le_word_le_bytes take_bit_word_eq_self)

lemma be_word_be_bytes_id [mem_simps]:
  "LENGTH('a) \<le> 8 * n \<Longrightarrow> be_word (be_bytes n w) = w" for w :: "'a::len word"
  by (simp add: be_word_def be_bytes_def le_word_le_bytes_id)

section \<open>Loops\<close>

text \<open>
  A loop that may not end: the repetition of a step until it gives a result. \<^const>\<open>None\<close> is a step that faults or a loop
  without end.
\<close>

partial_function (option) iterate :: "('s \<Rightarrow> ('r + 's) option) \<Rightarrow> 's \<Rightarrow> 'r option" where
  [code]: "iterate step s = do {
     r \<leftarrow> step s;
     (case r of Inl x \<Rightarrow> Some x | Inr s \<Rightarrow> iterate step s) }"

lemma iterate_unfold:
  "iterate step s = (case step s of None \<Rightarrow> None | Some (Inl x) \<Rightarrow> Some x | Some (Inr s') \<Rightarrow> iterate step s')"
  by (subst iterate.simps) (auto split: option.split sum.split)

section \<open>Atomic words\<close>

text \<open>
  The outcome of \<^verbatim>\<open>compare_exchange\<close>: the result (the previous value, or the value observed instead)
  and what the word holds afterwards.
\<close>

definition compare_exchange :: "'a \<Rightarrow> 'a \<Rightarrow> 'a \<Rightarrow> ('a + 'a) \<times> 'a" where
  "compare_exchange cur expected new = (if cur = expected then (Inr cur, new) else (Inl cur, cur))"

lemma compare_exchange_same [simp]: "compare_exchange w w new = (Inr w, new)"
  by (simp add: compare_exchange_def)

lemma compare_exchange_Inr_iff:
  "compare_exchange cur expected new = (Inr p, w) \<longleftrightarrow> cur = expected \<and> p = cur \<and> w = new"
  by (auto simp: compare_exchange_def)

section \<open>Interfaces\<close>

text \<open>A value packed into a machine word: unpacking a packed valid value gives it back.\<close>

locale packed_codec =
  fixes valid :: "'v \<Rightarrow> bool"
    and pack :: "'v \<Rightarrow> 'w"
    and unpack :: "'w \<Rightarrow> 'v"
  assumes unpack_pack: "valid v \<Longrightarrow> unpack (pack v) = v"
begin

lemma pack_eq_iff: "valid v \<Longrightarrow> valid v' \<Longrightarrow> pack v = pack v' \<longleftrightarrow> v = v'"
  by (metis unpack_pack)

lemma inj_on_pack: "inj_on pack {v. valid v}"
  by (rule inj_onI) (simp add: pack_eq_iff)

end

text \<open>A transition system with an inductive invariant: the invariant holds in every reachable state.\<close>

locale invariant_system =
  fixes init :: "'s \<Rightarrow> bool"
    and step :: "'s \<Rightarrow> 's \<Rightarrow> bool"
    and inv :: "'s \<Rightarrow> bool"
  assumes inv_init: "init s \<Longrightarrow> inv s"
    and inv_step: "inv s \<Longrightarrow> step s t \<Longrightarrow> inv t"
begin

lemma inv_steps: "step\<^sup>*\<^sup>* s t \<Longrightarrow> inv s \<Longrightarrow> inv t"
  by (induction rule: rtranclp_induct) (auto intro: inv_step)

lemma inv_reachable: "init s \<Longrightarrow> step\<^sup>*\<^sup>* s t \<Longrightarrow> inv t"
  by (blast intro: inv_init inv_steps)

end

end
