(* ===== verification/KeyValue.thy ===== *)
theory KeyValue
  imports Prelude
begin

unbundle bit_operations_syntax

text \<open>
  The value types of the \<^verbatim>\<open>keyvalue\<close> crate (\<^verbatim>\<open>value.rs\<close>, \<^verbatim>\<open>lib.rs\<close>) and the detection of
  simple numeric byte strings (\<^verbatim>\<open>numeric.rs\<close>). The parser is characterised exactly: it accepts the
  canonical decimal renderings of the 64-bit unsigned integers and nothing else.
\<close>

section \<open>Values\<close>

datatype cache_value = Bytes "u8 list" | U64 u64

datatype owned_value = OwnedBytes "u8 list" | OwnedU64 u64

datatype not_numeric_error = NotNumericError

fun value_len :: "cache_value \<Rightarrow> nat" where
  "value_len (Bytes v) = length v"
| "value_len (U64 _) = 8"

fun to_owned :: "cache_value \<Rightarrow> owned_value" where
  "to_owned (Bytes v) = OwnedBytes v"
| "to_owned (U64 v) = OwnedU64 v"

fun as_value :: "owned_value \<Rightarrow> cache_value" where
  "as_value (OwnedBytes v) = Bytes v"
| "as_value (OwnedU64 v) = U64 v"

fun size_of_value :: "cache_value \<Rightarrow> nat" where
  "size_of_value (Bytes v) = length v"
| "size_of_value (U64 _) = 8"

text \<open>The \<^verbatim>\<open>PartialEq\<close> instances that compare a value with a byte slice and with an integer.\<close>

fun value_eq_bytes :: "cache_value \<Rightarrow> u8 list \<Rightarrow> bool" where
  "value_eq_bytes (Bytes v) rhs = (v = rhs)"
| "value_eq_bytes (U64 _) rhs = False"

fun value_eq_u64 :: "cache_value \<Rightarrow> u64 \<Rightarrow> bool" where
  "value_eq_u64 (U64 v) rhs = (v = rhs)"
| "value_eq_u64 (Bytes _) rhs = False"

lemma as_value_to_owned [simp]: "as_value (to_owned v) = v"
  by (cases v) simp_all

section \<open>Simple numeric byte strings\<close>

definition is_ascii_digit :: "u8 \<Rightarrow> bool" where
  "is_ascii_digit b \<longleftrightarrow> 48 \<le> b \<and> b \<le> 57"

fun parse_digits :: "u64 \<Rightarrow> u8 list \<Rightarrow> u64 option" where
  "parse_digits v [] = Some v"
| "parse_digits v (b # bs) =
     (if \<not> is_ascii_digit b then None
      else case checked_mul v 10 of
        None \<Rightarrow> None
      | Some m \<Rightarrow> (case checked_add m (ucast (b - 48)) of
          None \<Rightarrow> None
        | Some s \<Rightarrow> parse_digits s bs))"

definition parse_simple_numeric :: "u8 list \<Rightarrow> u64 option" where
  "parse_simple_numeric bs =
     (if bs = [] then None
      else if length bs > 1 \<and> bs ! 0 = 48 then None
      else parse_digits 0 bs)"

text \<open>The reference: what \<^verbatim>\<open>u64::to_string\<close> prints, as bytes.\<close>

fun decimal :: "nat \<Rightarrow> u8 list" where
  "decimal n =
     (if n < 10 then [48 + of_nat n] else decimal (n div 10) @ [48 + of_nat (n mod 10)])"

declare decimal.simps [simp del]

definition digit_val :: "u8 \<Rightarrow> nat" where
  "digit_val b = unat (b - 48)"

definition digits_val :: "nat \<Rightarrow> u8 list \<Rightarrow> nat" where
  "digits_val a bs = foldl (\<lambda>acc b. acc * 10 + digit_val b) a bs"

lemma digits_val_simps [simp]:
  "digits_val a [] = a"
  "digits_val a (b # bs) = digits_val (a * 10 + digit_val b) bs"
  "digits_val a (bs @ [b]) = digits_val a bs * 10 + digit_val b"
  by (simp_all add: digits_val_def)

lemma digits_val_mono: "a \<le> digits_val a bs"
proof (induction bs arbitrary: a)
  case Nil
  show ?case by simp
next
  case (Cons b bs)
  have "a \<le> a * 10 + digit_val b" by simp
  also have "\<dots> \<le> digits_val (a * 10 + digit_val b) bs" by (rule Cons.IH)
  finally show ?case by simp
qed

lemma is_ascii_digit_unat: "is_ascii_digit b \<longleftrightarrow> 48 \<le> unat b \<and> unat b \<le> 57"
  by (simp add: is_ascii_digit_def word_le_nat_alt)

lemma digit_val_less: "is_ascii_digit b \<Longrightarrow> digit_val b < 10"
  by (auto simp: is_ascii_digit_unat digit_val_def unat_sub word_le_nat_alt)

lemma digit_of_val: "is_ascii_digit b \<Longrightarrow> 48 + of_nat (digit_val b) = b"
  by (simp add: digit_val_def)

lemma digit_byte:
  assumes "n < 10"
  shows "is_ascii_digit (48 + of_nat n)" and "digit_val (48 + of_nat n) = n"
proof -
  have n: "unat (of_nat n :: u8) = n"
    using assms by (simp add: unat_of_nat)
  then have "unat (48 + of_nat n :: u8) = 48 + n"
    using assms by (simp add: unat_word_ariths)
  then show "is_ascii_digit (48 + of_nat n)"
    using assms by (simp add: is_ascii_digit_unat)
  show "digit_val (48 + of_nat n) = n"
    using n by (simp add: digit_val_def)
qed

text \<open>The loop succeeds exactly on digit strings whose value fits in 64 bits, and returns that value.\<close>

lemma parse_digits_iff:
  "parse_digits v bs = Some w \<longleftrightarrow>
     list_all is_ascii_digit bs \<and> unat w = digits_val (unat v) bs"
proof (induction bs arbitrary: v)
  case Nil
  show ?case by (auto simp: word_unat_eq_iff)
next
  case (Cons b bs)
  have dv: "unat (ucast (b - 48) :: u64) = digit_val b"
    by (simp add: digit_val_def unat_ucast_up)
  show ?case
  proof (cases "is_ascii_digit b")
    case False
    then show ?thesis by simp
  next
    case digit: True
    show ?thesis
    proof (cases "unat v * 10 + digit_val b < 2 ^ 64")
      case True
      then have m: "checked_mul v 10 = Some (v * 10)"
        by (simp add: checked_mul_def)
      have um: "unat (v * 10) = unat v * 10"
        using True by (simp add: unat_word_ariths)
      have a: "checked_add (v * 10) (ucast (b - 48)) = Some (v * 10 + ucast (b - 48))"
        using True um dv by (simp add: checked_add_def)
      have "unat (v * 10 + ucast (b - 48)) = unat v * 10 + digit_val b"
        using True um dv by (simp add: unat_word_ariths)
      with digit m a Cons.IH [of "v * 10 + ucast (b - 48)"] show ?thesis by simp
    next
      case False
      have "parse_digits v (b # bs) = None"
        using False digit dv
        by (auto simp: checked_mul_Some_iff checked_add_def split: option.split)
      moreover have "unat w \<noteq> digits_val (unat v) (b # bs)"
        using False digits_val_mono [of "unat v * 10 + digit_val b" bs] unat_bound [of w] by simp
      ultimately show ?thesis by simp
    qed
  qed
qed

lemma decimal_not_Nil [simp]: "decimal n \<noteq> []"
  by (subst decimal.simps) simp

lemma decimal_digits: "list_all is_ascii_digit (decimal n)"
proof (induction n rule: decimal.induct)
  case (1 n)
  then show ?case by (subst decimal.simps) (auto simp: digit_byte)
qed

lemma digits_val_decimal [simp]: "digits_val 0 (decimal n) = n"
proof (induction n rule: decimal.induct)
  case (1 n)
  then show ?case by (subst decimal.simps) (auto simp: digit_byte)
qed

lemma decimal_hd: "n \<noteq> 0 \<Longrightarrow> decimal n ! 0 \<noteq> 48"
proof (induction n rule: decimal.induct)
  case (1 n)
  show ?case
  proof (cases "n < 10")
    case True
    with digit_byte(2) [of n] "1.prems" show ?thesis
      by (subst decimal.simps) (auto simp: digit_val_def)
  next
    case False
    with 1 have "decimal (n div 10) ! 0 \<noteq> 48" by auto
    with False show ?thesis by (subst decimal.simps) (simp add: nth_append)
  qed
qed

lemma decimal_length_1: "length (decimal n) = 1 \<longleftrightarrow> n < 10"
proof -
  have "0 < length (decimal (n div 10))" by simp
  then show ?thesis by (subst decimal.simps) auto
qed

text \<open>A digit string without a leading zero is the rendering of its value.\<close>

lemma decimal_digits_val:
  "bs \<noteq> [] \<Longrightarrow> list_all is_ascii_digit bs \<Longrightarrow> (length bs > 1 \<longrightarrow> bs ! 0 \<noteq> 48)
   \<Longrightarrow> decimal (digits_val 0 bs) = bs"
proof (induction bs rule: rev_induct)
  case Nil
  then show ?case by simp
next
  case (snoc b bs)
  have b: "is_ascii_digit b" and db: "digit_val b < 10"
    using snoc.prems(2) by (auto intro: digit_val_less)
  show ?case
  proof (cases "bs = []")
    case True
    with b db show ?thesis by (subst decimal.simps) (simp add: digit_of_val)
  next
    case False
    then have hd: "bs ! 0 \<noteq> 48"
      using snoc.prems(3) by (auto simp: nth_append)
    have IH: "decimal (digits_val 0 bs) = bs"
      using snoc False hd by (auto simp: nth_append)
    have "digits_val 0 bs \<noteq> 0"
    proof
      assume z: "digits_val 0 bs = 0"
      have "decimal 0 = [48]" by (subst decimal.simps) simp
      with IH z have "bs = [48]" by simp
      with hd show False by simp
    qed
    then have "\<not> digits_val 0 bs * 10 + digit_val b < 10" by simp
    with IH b db show ?thesis
      by (subst decimal.simps) (simp add: digit_of_val)
  qed
qed

text \<open>
  C34. \<^verbatim>\<open>parse_simple_numeric\<close> returns an integer exactly for the bytes that \<^verbatim>\<open>u64::to_string\<close> prints for
  it: empty input, leading zeros, signs, blanks, other bytes and values past 64 bits are all refused.
\<close>

theorem parse_simple_numeric_iff:
  "parse_simple_numeric bs = Some v \<longleftrightarrow> bs = decimal (unat v)"
proof
  assume l: "parse_simple_numeric bs = Some v"
  then have "bs \<noteq> []" and z: "length bs > 1 \<longrightarrow> bs ! 0 \<noteq> 48" and "parse_digits 0 bs = Some v"
    by (auto simp: parse_simple_numeric_def split: if_splits)
  then have "list_all is_ascii_digit bs" and "unat v = digits_val 0 bs"
    by (auto simp: parse_digits_iff)
  with decimal_digits_val [OF \<open>bs \<noteq> []\<close> _ z] show "bs = decimal (unat v)" by simp
next
  assume r: "bs = decimal (unat v)"
  have "\<not> (length bs > 1 \<and> bs ! 0 = 48)"
    using decimal_hd [of "unat v"] decimal_length_1 [of "unat v"] unfolding r by auto
  moreover have "parse_digits 0 bs = Some v"
    by (simp add: r parse_digits_iff decimal_digits)
  ultimately show "parse_simple_numeric bs = Some v"
    by (simp add: parse_simple_numeric_def r)
qed

end
