(* ===== verification/TinyItem.thy ===== *)
theory TinyItem
  imports KeyValue
begin

unbundle bit_operations_syntax

text \<open>
  The compact item of \<^verbatim>\<open>keyvalue/src/tiny.rs\<close>: a six-byte header (expiry, key length, value length),
  then the key and the value, at an offset of a byte memory. \<^verbatim>\<open>TinyItem\<close> wraps a raw pointer, so
  every access is a load or a store at an offset, and one that leaves the memory is \<^const>\<open>None\<close>. The
  header's \<^verbatim>\<open>u32\<close> is stored in the target's byte order, little-endian on the supported targets.
\<close>

section \<open>Header\<close>

definition TINY_ITEM_HDR_SIZE :: nat where
  "TINY_ITEM_HDR_SIZE = 6"

lemmas [layout_simps] = TINY_ITEM_HDR_SIZE_def

record tiny_item_header =
  th_expire :: u32
  th_klen :: u8
  th_vlen :: u8

definition tiny_value_len :: "tiny_item_header \<Rightarrow> nat" where
  "tiny_value_len h = (if th_vlen h = 0 then 8 else unat (th_vlen h))"

definition tiny_header :: "u8 list \<Rightarrow> nat \<Rightarrow> tiny_item_header option" where
  "tiny_header m off = do {
     bs \<leftarrow> load_bytes m off TINY_ITEM_HDR_SIZE;
     Some \<lparr>th_expire = le_word (take 4 bs), th_klen = bs ! 4, th_vlen = bs ! 5\<rparr> }"

definition set_tiny_header :: "u8 list \<Rightarrow> nat \<Rightarrow> tiny_item_header \<Rightarrow> u8 list option" where
  "set_tiny_header m off h = store_bytes m off (le_bytes 4 (th_expire h) @ [th_klen h, th_vlen h])"

text \<open>\<^verbatim>\<open>set_expire\<close> of the header.\<close>

definition tiny_set_expire :: "u32 \<Rightarrow> tiny_item_header \<Rightarrow> tiny_item_header" where
  "tiny_set_expire e h = h\<lparr>th_expire := e\<rparr>"

section \<open>Accessors\<close>

definition tiny_expire :: "u8 list \<Rightarrow> nat \<Rightarrow> u32 option" where
  "tiny_expire m off = map_option th_expire (tiny_header m off)"

definition tiny_klen :: "u8 list \<Rightarrow> nat \<Rightarrow> u8 option" where
  "tiny_klen m off = map_option th_klen (tiny_header m off)"

definition tiny_key :: "u8 list \<Rightarrow> nat \<Rightarrow> u8 list option" where
  "tiny_key m off = do {
     klen \<leftarrow> tiny_klen m off;
     load_bytes m (off + TINY_ITEM_HDR_SIZE) (unat klen) }"

definition tiny_value :: "u8 list \<Rightarrow> nat \<Rightarrow> cache_value option" where
  "tiny_value m off = do {
     h \<leftarrow> tiny_header m off;
     let voff = off + TINY_ITEM_HDR_SIZE + unat (th_klen h);
     if th_vlen h = 0
     then do { bytes \<leftarrow> load_bytes m voff 8; Some (U64 (be_word bytes)) }
     else do { bytes \<leftarrow> load_bytes m voff (unat (th_vlen h)); Some (Bytes bytes) } }"

section \<open>Writing an item\<close>

text \<open>
  \<^verbatim>\<open>define\<close> casts both lengths with \<^verbatim>\<open>as u8\<close>, so they are kept modulo 256.
\<close>

definition tiny_define ::
  "u8 list \<Rightarrow> nat \<Rightarrow> u8 list \<Rightarrow> cache_value \<Rightarrow> u32 \<Rightarrow> u8 list option" where
  "tiny_define m off key v expire = do {
     h \<leftarrow> tiny_header m off;
     m \<leftarrow> set_tiny_header m off (h\<lparr>th_expire := expire, th_klen := of_nat (length key)\<rparr>);
     m \<leftarrow> store_bytes m (off + TINY_ITEM_HDR_SIZE) key;
     let val_off = off + TINY_ITEM_HDR_SIZE + length key;
     h \<leftarrow> tiny_header m off;
     case v of
       Bytes bs \<Rightarrow> do {
         m \<leftarrow> set_tiny_header m off (h\<lparr>th_vlen := of_nat (length bs)\<rparr>);
         store_bytes m val_off bs }
     | U64 w \<Rightarrow> do {
         m \<leftarrow> set_tiny_header m off (h\<lparr>th_vlen := 0\<rparr>);
         store_bytes m val_off (be_bytes 8 w) } }"

definition tiny_update ::
  "(u64 \<Rightarrow> u64) \<Rightarrow> u8 list \<Rightarrow> nat \<Rightarrow> (not_numeric_error + u8 list) option" where
  "tiny_update f m off = do {
     v \<leftarrow> tiny_value m off;
     case v of
       U64 w \<Rightarrow> do {
         klen \<leftarrow> tiny_klen m off;
         m \<leftarrow> store_bytes m (off + TINY_ITEM_HDR_SIZE + unat klen) (be_bytes 8 (f w));
         Some (Inr m) }
     | Bytes _ \<Rightarrow> Some (Inl NotNumericError) }"

definition tiny_wrapping_add ::
  "u8 list \<Rightarrow> nat \<Rightarrow> u64 \<Rightarrow> (not_numeric_error + u8 list) option" where
  "tiny_wrapping_add m off rhs = tiny_update (\<lambda>v. v + rhs) m off"

definition tiny_saturating_sub ::
  "u8 list \<Rightarrow> nat \<Rightarrow> u64 \<Rightarrow> (not_numeric_error + u8 list) option" where
  "tiny_saturating_sub m off rhs = tiny_update (\<lambda>v. saturating_sub v rhs) m off"

section \<open>The slot as a parsed block\<close>

text \<open>
  An item inside a block of bytes of its own: the reference view the accessors are proved against.
\<close>

definition blk_header :: "u8 list \<Rightarrow> tiny_item_header" where
  "blk_header bs = \<lparr>th_expire = le_word (take 4 bs), th_klen = bs ! 4, th_vlen = bs ! 5\<rparr>"

definition blk_key :: "u8 list \<Rightarrow> u8 list" where
  "blk_key bs = take (unat (th_klen (blk_header bs))) (drop TINY_ITEM_HDR_SIZE bs)"

definition blk_value :: "u8 list \<Rightarrow> cache_value" where
  "blk_value bs =
     (let voff = TINY_ITEM_HDR_SIZE + unat (th_klen (blk_header bs)) in
      if th_vlen (blk_header bs) = 0 then U64 (be_word (take 8 (drop voff bs)))
      else Bytes (take (unat (th_vlen (blk_header bs))) (drop voff bs)))"

text \<open>The bytes an item needs: header, key and stored value.\<close>

definition blk_need :: "u8 list \<Rightarrow> nat" where
  "blk_need bs = TINY_ITEM_HDR_SIZE + unat (th_klen (blk_header bs)) + tiny_value_len (blk_header bs)"

definition encode_value :: "cache_value \<Rightarrow> u8 list" where
  "encode_value v = (case v of Bytes bs \<Rightarrow> bs | U64 w \<Rightarrow> be_bytes 8 w)"

definition value_vlen :: "cache_value \<Rightarrow> u8" where
  "value_vlen v = (case v of Bytes bs \<Rightarrow> of_nat (length bs) | U64 _ \<Rightarrow> 0)"

definition encode_item :: "u8 list \<Rightarrow> cache_value \<Rightarrow> u32 \<Rightarrow> u8 list" where
  "encode_item key v expire =
     le_bytes 4 expire @ [of_nat (length key), value_vlen v] @ key @ encode_value v"

text \<open>The inputs that \<^verbatim>\<open>define\<close> can represent: a key of at most 255 bytes, and a byte value of 1 to 255.\<close>

definition tiny_representable :: "u8 list \<Rightarrow> cache_value \<Rightarrow> bool" where
  "tiny_representable key v \<longleftrightarrow>
     length key < 256 \<and> (case v of Bytes bs \<Rightarrow> bs \<noteq> [] \<and> length bs < 256 | U64 _ \<Rightarrow> True)"

lemma length_encode_value [simp]: "length (encode_value v) = size_of_value v"
  by (cases v) (simp_all add: encode_value_def)

lemma length_encode_item [simp]:
  "length (encode_item key v e) = TINY_ITEM_HDR_SIZE + length key + size_of_value v"
  by (simp add: encode_item_def layout_simps)

lemma size_of_value_eq_len: "size_of_value v = value_len v"
  by (cases v) simp_all

lemma blk_header_encode:
  "blk_header (encode_item key v e @ rest) =
     \<lparr>th_expire = e, th_klen = of_nat (length key), th_vlen = value_vlen v\<rparr>"
  by (simp add: blk_header_def encode_item_def nth_append le_word_le_bytes_id)

lemma of_nat_u8_inverse: "n < 256 \<Longrightarrow> unat (of_nat n :: u8) = n"
  by (simp add: unat_of_nat)

lemma of_nat_u8_eq_0: "n < 256 \<Longrightarrow> (of_nat n :: u8) = 0 \<longleftrightarrow> n = 0"
  using of_nat_u8_inverse [of n] by (auto simp: word_unat_eq_iff)

lemma drop_encode_hdr:
  "drop TINY_ITEM_HDR_SIZE (encode_item key v e @ rest) = key @ encode_value v @ rest"
  by (simp add: encode_item_def layout_simps)

lemma drop_encode_item:
  "drop (TINY_ITEM_HDR_SIZE + length key) (encode_item key v e @ rest) = encode_value v @ rest"
  by (simp add: encode_item_def layout_simps)

lemma blk_key_encode:
  "length key < 256 \<Longrightarrow> blk_key (encode_item key v e @ rest) = key"
  unfolding blk_key_def blk_header_encode drop_encode_hdr by (simp add: of_nat_u8_inverse)

lemma blk_value_encode:
  assumes "tiny_representable key v"
  shows "blk_value (encode_item key v e @ rest) = v"
proof -
  from assms have k: "unat (of_nat (length key) :: u8) = length key"
    by (simp add: tiny_representable_def of_nat_u8_inverse)
  have split: "blk_value (encode_item key v e @ rest) =
     (if value_vlen v = 0 then U64 (be_word (take 8 (encode_value v @ rest)))
      else Bytes (take (unat (value_vlen v)) (encode_value v @ rest)))"
    unfolding blk_value_def blk_header_encode
    by (simp only: tiny_item_header.simps k Let_def drop_encode_item)
  show ?thesis
    using assms unfolding split
    by (cases v) (auto simp: tiny_representable_def value_vlen_def encode_value_def
        of_nat_u8_inverse of_nat_u8_eq_0 be_word_be_bytes_id)
qed

lemma blk_need_encode:
  assumes "tiny_representable key v"
  shows "blk_need (encode_item key v e @ rest) = TINY_ITEM_HDR_SIZE + length key + size_of_value v"
  using assms
  by (cases v) (auto simp: blk_need_def blk_header_encode tiny_value_len_def value_vlen_def
      tiny_representable_def of_nat_u8_inverse of_nat_u8_eq_0)

section \<open>Accessors against the parsed block\<close>

lemma tiny_header_blk:
  assumes "off + n \<le> length m" and "TINY_ITEM_HDR_SIZE \<le> n"
  shows "tiny_header m off = Some (blk_header (take n (drop off m)))"
  using assms by (simp add: tiny_header_def load_bytes_def blk_header_def layout_simps min_def)

lemma tiny_expire_blk:
  assumes "off + n \<le> length m" and "TINY_ITEM_HDR_SIZE \<le> n"
  shows "tiny_expire m off = Some (th_expire (blk_header (take n (drop off m))))"
  using tiny_header_blk [OF assms] by (simp add: tiny_expire_def)

lemma tiny_key_blk:
  assumes "off + n \<le> length m"
    and "TINY_ITEM_HDR_SIZE + unat (th_klen (blk_header (take n (drop off m)))) \<le> n"
  shows "tiny_key m off = Some (blk_key (take n (drop off m)))"
proof -
  have "tiny_klen m off = Some (th_klen (blk_header (take n (drop off m))))"
    using assms by (simp add: tiny_klen_def tiny_header_blk)
  with assms show ?thesis
    by (simp add: tiny_key_def load_bytes_def blk_key_def drop_take add.commute min_def)
qed

lemma tiny_value_blk:
  assumes "off + n \<le> length m" and "blk_need (take n (drop off m)) \<le> n"
  shows "tiny_value m off = Some (blk_value (take n (drop off m)))"
proof -
  have "tiny_header m off = Some (blk_header (take n (drop off m)))"
    using assms by (intro tiny_header_blk) (simp_all add: blk_need_def)
  then show ?thesis
    using assms
    by (cases "th_vlen (blk_header (take n (drop off m))) = 0")
       (simp_all add: tiny_value_def blk_value_def blk_need_def tiny_value_len_def load_bytes_def
        drop_take min_absorb1 ac_simps Let_def)
qed

lemma blk_header_old_vlen [simp]:
  "length hb = 6 \<Longrightarrow> tiny_header (pre @ hb @ post) (length pre) = Some (blk_header hb)"
  by (simp add: tiny_header_def load_bytes_append blk_header_def layout_simps)

lemma tiny_define_fits:
  "tiny_define m off key v e = Some m' \<Longrightarrow> off + length (encode_item key v e) \<le> length m"
  by (cases v) (auto simp: tiny_define_def set_tiny_header_def store_bytes_def tiny_header_def
      load_bytes_def layout_simps Let_def split: if_splits Option.bind_splits)

text \<open>\<^verbatim>\<open>define\<close> is one store of the encoded item, and faults exactly when that store would.\<close>

lemma tiny_define_store:
  "tiny_define m off key v e = store_bytes m off (encode_item key v e)"
proof (cases "off + length (encode_item key v e) \<le> length m")
  case True
  obtain pre old post where m: "m = pre @ old @ post" and off: "length pre = off"
    and old: "length old = length (encode_item key v e)"
    using memory_split [OF True] .
  obtain hb kb vb where o: "old = hb @ kb @ vb" and len: "length hb = 6" "length kb = length key"
      "length vb = size_of_value v"
  proof
    show "old = take 6 old @ take (length key) (drop 6 old) @ drop (6 + length key) old"
      by (metis add.commute append_take_drop_id drop_drop)
  qed (use old in \<open>auto simp: layout_simps\<close>)
  define h where "h = blk_header hb"
  have sh: "set_tiny_header (pre @ hb' @ post') off h' =
      Some (pre @ (le_bytes 4 (th_expire h') @ [th_klen h', th_vlen h']) @ post')"
    if "length hb' = 6" for hb' post' h'
    unfolding set_tiny_header_def by (rule store_bytes_append) (use that off in auto)
  have sk: "store_bytes (pre @ hb' @ kb @ post') (off + 6) key = Some (pre @ hb' @ key @ post')"
    if "length hb' = 6" for hb' post'
    using store_bytes_append [of "off + 6" "pre @ hb'" kb key post'] that off len by simp
  have sv: "store_bytes (pre @ hb' @ key @ vb @ post) (off + 6 + length key) (encode_value v)
      = Some (pre @ hb' @ key @ encode_value v @ post)"
    if "length hb' = 6" for hb'
    using store_bytes_append [of "off + 6 + length key" "pre @ hb' @ key" vb "encode_value v" post]
      that off len by simp
  have hd: "tiny_header (pre @ hb' @ post') off = Some (blk_header hb')" if "length hb' = 6"
    for hb' post'
    using that off by auto
  define H1 where "H1 = le_bytes 4 e @ [of_nat (length key), hb ! 5]"
  define H2 where "H2 = le_bytes 4 e @ [of_nat (length key), value_vlen v]"
  have lenH: "length H1 = 6" "length H2 = 6"
    by (simp_all add: H1_def H2_def)
  have w1: "set_tiny_header m off (h\<lparr>th_expire := e, th_klen := of_nat (length key)\<rparr>)
      = Some (pre @ H1 @ kb @ vb @ post)"
    unfolding m o append_assoc using sh [OF len(1)] by (simp add: H1_def h_def blk_header_def)
  have w2: "set_tiny_header (pre @ H1 @ key @ vb @ post) off ((blk_header H1)\<lparr>th_vlen := value_vlen v\<rparr>)
      = Some (pre @ H2 @ key @ vb @ post)"
    using sh [OF lenH(1)] by (simp add: H1_def H2_def blk_header_def le_word_le_bytes_id nth_append)
  have h0: "tiny_header m off = Some h"
    unfolding m o append_assoc h_def by (rule hd [OF len(1)])
  have "tiny_define m off key v e = Some (pre @ H2 @ key @ encode_value v @ post)"
    using h0 w1 sk [OF lenH(1)] hd [OF lenH(1)] w2 sv [OF lenH(2)]
    by (cases v) (simp_all add: tiny_define_def layout_simps encode_value_def value_vlen_def)
  then have "tiny_define m off key v e = Some (pre @ encode_item key v e @ post)"
    by (simp add: H2_def encode_item_def)
  moreover have "store_bytes m off (encode_item key v e) = Some (pre @ encode_item key v e @ post)"
    unfolding m by (rule store_bytes_append) (use off old in auto)
  ultimately show ?thesis by simp
next
  case False
  then have "store_bytes m off (encode_item key v e) = None"
    by (simp add: store_bytes_def)
  moreover have "tiny_define m off key v e = None"
    using False tiny_define_fits [of m off key v e] by (cases "tiny_define m off key v e") auto
  ultimately show ?thesis by simp
qed

section \<open>Properties\<close>

lemma take_drop_store:
  assumes "store_bytes m off bs = Some m'" and "length bs \<le> n" and "off + n \<le> length m"
  shows "take n (drop off m') = bs @ drop (length bs) (take n (drop off m))"
  using assms by (auto simp: store_bytes_def drop_take add.commute split: if_splits)

text \<open>
  C35. Writing a representable item into a block that holds it succeeds, and reading the block back
  gives the expiry, the key and the value that were written.
\<close>

theorem tiny_define_roundtrip:
  assumes "tiny_representable key v"
    and "TINY_ITEM_HDR_SIZE + length key + size_of_value v \<le> n"
    and "off + n \<le> length m"
  shows "\<exists>m'. tiny_define m off key v e = Some m' \<and> length m' = length m
    \<and> tiny_expire m' off = Some e \<and> tiny_key m' off = Some key \<and> tiny_value m' off = Some v"
proof -
  let ?enc = "encode_item key v e"
  obtain m' where st: "store_bytes m off ?enc = Some m'"
    using assms(2,3) by (auto simp: store_bytes_def)
  then have len: "length m' = length m" by (rule store_bytes_length)
  obtain rest where blk: "take n (drop off m') = ?enc @ rest"
    using take_drop_store [OF st] assms by auto
  have n: "off + n \<le> length m'" using assms(3) len by simp
  have k: "length key < 256" using assms(1) by (simp add: tiny_representable_def)
  have "tiny_expire m' off = Some e"
    using tiny_expire_blk [OF n] assms(2) by (simp add: blk blk_header_encode)
  moreover have "tiny_key m' off = Some key"
    using tiny_key_blk [OF n] assms(2) k
    by (simp add: blk blk_header_encode of_nat_u8_inverse blk_key_encode)
  moreover have "tiny_value m' off = Some v"
    using tiny_value_blk [OF n] assms(2)
    by (simp add: blk blk_need_encode [OF assms(1)] blk_value_encode [OF assms(1)])
  ultimately show ?thesis using st len by (simp add: tiny_define_store)
qed

theorem tiny_define_roundtrip_witness:
  "\<exists>m'. tiny_define (replicate 32 0) 8 [107, 49] (Bytes [1, 2, 3]) 7 = Some m'
    \<and> length m' = length (replicate 32 (0 :: u8))
    \<and> tiny_expire m' 8 = Some 7 \<and> tiny_key m' 8 = Some [107, 49]
    \<and> tiny_value m' 8 = Some (Bytes [1, 2, 3])"
  by (rule tiny_define_roundtrip [where n = 24])
     (simp_all add: tiny_representable_def TINY_ITEM_HDR_SIZE_def)

text \<open>
  A byte value of length zero is not representable: its zero length byte is the mark of an integer,
  so the value read back is the eight bytes that follow the key, whatever they belong to, and the read
  faults when the memory ends before them.
\<close>

theorem tiny_define_empty_value:
  assumes "tiny_define m off key (Bytes []) e = Some m'" and "length key < 256"
  shows "tiny_value m' off =
    map_option (\<lambda>bs. U64 (be_word bs)) (load_bytes m (off + TINY_ITEM_HDR_SIZE + length key) 8)"
proof -
  let ?enc = "encode_item key (Bytes []) e"
  from assms(1) have st: "store_bytes m off ?enc = Some m'"
    by (simp add: tiny_define_store)
  then have fit: "off + length ?enc \<le> length m"
    by (auto simp: store_bytes_def split: if_splits)
  then have n: "off + length ?enc \<le> length m'"
    using store_bytes_length [OF st] by simp
  have blk: "take (length ?enc) (drop off m') = ?enc"
    using take_drop_store [OF st order_refl fit] fit by simp
  have h: "tiny_header m' off = Some (blk_header ?enc)"
    using tiny_header_blk [OF n] blk by simp
  have "load_bytes m' (off + TINY_ITEM_HDR_SIZE + length key) 8
      = load_bytes m (off + TINY_ITEM_HDR_SIZE + length key) 8"
    by (rule load_store_disjoint [OF st]) simp
  then show ?thesis
    using h assms(2) blk_header_encode [of key "Bytes []" e "[]"]
    by (simp add: tiny_value_def value_vlen_def of_nat_u8_inverse Let_def
        split: Option.bind_splits)
qed

theorem tiny_define_empty_value_witness:
  "\<exists>m'. tiny_define [0,0,0,0,0,0,0] 0 [107] (Bytes []) 7 = Some m' \<and> tiny_value m' 0 = None"
proof -
  obtain m' where m': "tiny_define [0,0,0,0,0,0,0] 0 [107] (Bytes []) 7 = Some m'"
    by (simp add: tiny_define_store store_bytes_def TINY_ITEM_HDR_SIZE_def)
  from tiny_define_empty_value [OF this] have "tiny_value m' 0 = None"
    by (simp add: load_bytes_def TINY_ITEM_HDR_SIZE_def)
  with m' show ?thesis by blast
qed

end
