(* ===== verification/Cuckoo.thy ===== *)
theory Cuckoo
  imports TinyItem
begin

text \<open>
  The cuckoo cache (\<^verbatim>\<open>crates/cuckoo/src\<close>): a flat byte array of fixed-size slots, each a
  \<^verbatim>\<open>TinyItem\<close>, with four candidate slots per key. Every operation is written on the byte array in the
  option monad; \<^const>\<open>None\<close> is an access outside the array (a panic or undefined behaviour of the source).

  Code outside the repository enters as data: the four keyed hashers are a field of the cache, the coarse
  clock is the argument \<open>el\<close> (seconds since the cache was created, read once per operation), and the
  random draw of the eviction policy is the argument \<open>rnd\<close>. The model is that of a release build with the
  default \<^verbatim>\<open>metrics\<close> feature: \<^verbatim>\<open>debug_assert!\<close> is not executed, and the process-wide counters and gauges
  are a record of the state.
\<close>

section \<open>State\<close>

datatype cuckoo_policy = Random | Expire

definition D :: nat where
  "D = 4"

definition SEEDS :: "u64 list list" where
  "SEEDS =
    [[0x3ac5d673, 0x6d7839d0, 0x2b581cf5, 0x4dd2be0a],
     [0x9e3779b9, 0x517cc1b7, 0x27d4eb2f, 0x3c6ef372],
     [0xdeadbeef, 0xcafebabe, 0x12345678, 0xfeedface],
     [0xa0761d64, 0xe7037ed1, 0x8ebc6af0, 0x589965cd]]"

record cuckoo_metrics =
  CUCKOO_GET :: nat
  CUCKOO_GET_KEY_HIT :: nat
  CUCKOO_GET_KEY_MISS :: nat
  CUCKOO_INSERT :: nat
  CUCKOO_INSERT_EX :: nat
  CUCKOO_UPDATE :: nat
  CUCKOO_DELETE :: nat
  CUCKOO_DISPLACE :: nat
  ITEM_EXPIRE :: nat
  ITEM_EVICT :: nat
  ITEM_CURRENT :: int
  ITEM_KEY_BYTE :: int
  ITEM_VAL_BYTE :: int
  ITEM_DATA_BYTE :: int

definition metrics_zero :: cuckoo_metrics where
  "metrics_zero = \<lparr>CUCKOO_GET = 0, CUCKOO_GET_KEY_HIT = 0, CUCKOO_GET_KEY_MISS = 0,
     CUCKOO_INSERT = 0, CUCKOO_INSERT_EX = 0, CUCKOO_UPDATE = 0, CUCKOO_DELETE = 0,
     CUCKOO_DISPLACE = 0, ITEM_EXPIRE = 0, ITEM_EVICT = 0, ITEM_CURRENT = 0, ITEM_KEY_BYTE = 0,
     ITEM_VAL_BYTE = 0, ITEM_DATA_BYTE = 0\<rparr>"

record cuckoo_cache =
  ck_data :: "u8 list"
  ck_hashers :: "(u8 list \<Rightarrow> u64) list"
  ck_item_size :: nat
  ck_nitem :: nat
  ck_max_displace :: nat
  ck_max_ttl :: u32
  ck_policy :: cuckoo_policy
  ck_metrics :: cuckoo_metrics

datatype cuckoo_error = ItemOversized nat nat | NotFound | NotNumeric

section \<open>Builder\<close>

record cuckoo_builder =
  b_item_size :: nat
  b_nitem :: nat
  b_max_displace :: nat
  b_policy :: cuckoo_policy
  b_max_ttl :: u32

definition default_builder :: cuckoo_builder where
  "default_builder = \<lparr>b_item_size = 64, b_nitem = 1024, b_max_displace = 2, b_policy = Random,
     b_max_ttl = 2592000\<rparr>"

definition builder_item_size :: "nat \<Rightarrow> cuckoo_builder \<Rightarrow> cuckoo_builder" where
  "builder_item_size bytes b = b\<lparr>b_item_size := bytes\<rparr>"

definition builder_nitem :: "nat \<Rightarrow> cuckoo_builder \<Rightarrow> cuckoo_builder" where
  "builder_nitem n b = b\<lparr>b_nitem := n\<rparr>"

definition builder_max_displace :: "nat \<Rightarrow> cuckoo_builder \<Rightarrow> cuckoo_builder" where
  "builder_max_displace depth b = b\<lparr>b_max_displace := depth\<rparr>"

definition builder_policy :: "cuckoo_policy \<Rightarrow> cuckoo_builder \<Rightarrow> cuckoo_builder" where
  "builder_policy p b = b\<lparr>b_policy := p\<rparr>"

definition builder_max_ttl :: "u32 \<Rightarrow> cuckoo_builder \<Rightarrow> cuckoo_builder" where
  "builder_max_ttl seconds b = b\<lparr>b_max_ttl := seconds\<rparr>"

text \<open>
  \<^verbatim>\<open>from_builder\<close>: the two assertions and the checked multiplication panic. The keyed hasher
  \<^verbatim>\<open>RandomState::with_seeds\<close> is the argument \<open>with_seeds\<close>.
\<close>

definition cuckoo_from_builder ::
  "(u64 \<Rightarrow> u64 \<Rightarrow> u64 \<Rightarrow> u64 \<Rightarrow> u8 list \<Rightarrow> u64) \<Rightarrow> cuckoo_builder \<Rightarrow> cuckoo_cache option" where
  "cuckoo_from_builder with_seeds b =
     (if \<not> b_item_size b > TINY_ITEM_HDR_SIZE then None
      else if \<not> b_nitem b > 0 then None
      else if \<not> b_item_size b * b_nitem b < 2 ^ 64 then None
      else Some \<lparr>ck_data = replicate (b_item_size b * b_nitem b) 0,
        ck_hashers = map (\<lambda>s. with_seeds (s ! 0) (s ! 1) (s ! 2) (s ! 3)) SEEDS,
        ck_item_size = b_item_size b, ck_nitem = b_nitem b, ck_max_displace = b_max_displace b,
        ck_max_ttl = b_max_ttl b, ck_policy = b_policy b, ck_metrics = metrics_zero\<rparr>)"

section \<open>Slot access\<close>

definition slot_offset :: "cuckoo_cache \<Rightarrow> nat \<Rightarrow> nat" where
  "slot_offset c index = index * ck_item_size c"

definition slot_expire :: "cuckoo_cache \<Rightarrow> nat \<Rightarrow> u32 option" where
  "slot_expire c index = tiny_expire (ck_data c) (slot_offset c index)"

definition slot_key :: "cuckoo_cache \<Rightarrow> nat \<Rightarrow> u8 list option" where
  "slot_key c index = tiny_key (ck_data c) (slot_offset c index)"

definition slot_is_empty :: "cuckoo_cache \<Rightarrow> nat \<Rightarrow> bool option" where
  "slot_is_empty c index = do { e \<leftarrow> slot_expire c index; Some (e = 0) }"

definition slot_is_expired :: "u32 \<Rightarrow> cuckoo_cache \<Rightarrow> nat \<Rightarrow> bool option" where
  "slot_is_expired el c index = do {
     e \<leftarrow> slot_expire c index;
     Some (if e = 0 \<or> e = - 1 then False else el > e) }"

definition clear_slot :: "cuckoo_cache \<Rightarrow> nat \<Rightarrow> cuckoo_cache option" where
  "clear_slot c index = do {
     d \<leftarrow> store_bytes (ck_data c) (slot_offset c index) (replicate (ck_item_size c) 0);
     Some (c\<lparr>ck_data := d\<rparr>) }"

definition move_slot :: "cuckoo_cache \<Rightarrow> nat \<Rightarrow> nat \<Rightarrow> cuckoo_cache option" where
  "move_slot c src dst = do {
     let from_off = slot_offset c src;
     let to_off = slot_offset c dst;
     bytes \<leftarrow> load_bytes (ck_data c) from_off (ck_item_size c);
     d \<leftarrow> store_bytes (ck_data c) to_off bytes;
     d \<leftarrow> store_bytes d from_off (replicate (ck_item_size c) 0);
     Some (c\<lparr>ck_data := d\<rparr>) }"

definition write_slot ::
  "cuckoo_cache \<Rightarrow> nat \<Rightarrow> u8 list \<Rightarrow> cache_value \<Rightarrow> u32 \<Rightarrow> cuckoo_cache option" where
  "write_slot c index key v expire = do {
     c \<leftarrow> clear_slot c index;
     d \<leftarrow> tiny_define (ck_data c) (slot_offset c index) key v expire;
     Some (c\<lparr>ck_data := d\<rparr>) }"

definition positions :: "cuckoo_cache \<Rightarrow> u8 list \<Rightarrow> nat list" where
  "positions c key = map (\<lambda>i. unat ((ck_hashers c ! i) key) mod ck_nitem c) [0..<D]"

text \<open>A \<^verbatim>\<open>Duration\<close> is its whole seconds and its nanoseconds.\<close>

type_synonym duration = "u64 \<times> u32"

definition compute_expire :: "u32 \<Rightarrow> cuckoo_cache \<Rightarrow> duration \<Rightarrow> u32" where
  "compute_expire el c ttl =
     (if ttl = (0, 0) then - 1
      else let secs = ucast (min (fst ttl) (ucast (ck_max_ttl c))) :: u32 in saturating_add el secs)"

section \<open>Metrics, expiration and eviction\<close>

definition ck_count :: "(cuckoo_metrics \<Rightarrow> cuckoo_metrics) \<Rightarrow> cuckoo_cache \<Rightarrow> cuckoo_cache" where
  "ck_count f c = c\<lparr>ck_metrics := f (ck_metrics c)\<rparr>"

definition add_item_gauges :: "int \<Rightarrow> int \<Rightarrow> int \<Rightarrow> cuckoo_metrics \<Rightarrow> cuckoo_metrics" where
  "add_item_gauges n klen vlen m =
     m\<lparr>ITEM_CURRENT := ITEM_CURRENT m + n, ITEM_KEY_BYTE := ITEM_KEY_BYTE m + klen,
       ITEM_VAL_BYTE := ITEM_VAL_BYTE m + vlen, ITEM_DATA_BYTE := ITEM_DATA_BYTE m + (klen + vlen)\<rparr>"

definition decrement_item_metrics :: "cuckoo_cache \<Rightarrow> nat \<Rightarrow> cuckoo_cache option" where
  "decrement_item_metrics c index = do {
     h \<leftarrow> tiny_header (ck_data c) (slot_offset c index);
     let klen = int (unat (th_klen h));
     let vlen = int (tiny_value_len h);
     Some (ck_count (add_item_gauges (- 1) (- klen) (- vlen)) c) }"

definition increment_item_metrics :: "cuckoo_cache \<Rightarrow> nat \<Rightarrow> cuckoo_cache option" where
  "increment_item_metrics c index = do {
     h \<leftarrow> tiny_header (ck_data c) (slot_offset c index);
     let klen = int (unat (th_klen h));
     let vlen = int (tiny_value_len h);
     Some (ck_count (add_item_gauges 1 klen vlen) c) }"

definition handle_expired :: "cuckoo_cache \<Rightarrow> nat \<Rightarrow> cuckoo_cache option" where
  "handle_expired c index = do {
     let c = ck_count (\<lambda>m. m\<lparr>ITEM_EXPIRE := ITEM_EXPIRE m + 1\<rparr>) c;
     c \<leftarrow> decrement_item_metrics c index;
     clear_slot c index }"

definition evict_at :: "cuckoo_cache \<Rightarrow> nat \<Rightarrow> cuckoo_cache option" where
  "evict_at c index = do {
     let c = ck_count (\<lambda>m. m\<lparr>ITEM_EVICT := ITEM_EVICT m + 1\<rparr>) c;
     c \<leftarrow> decrement_item_metrics c index;
     clear_slot c index }"

section \<open>Displacement\<close>

text \<open>
  \<^verbatim>\<open>displace_from\<close>: its two loops are recursions over the candidate list, and the recursion is on the
  depth still allowed, \<^verbatim>\<open>max_displace - depth\<close>. The first component of a result is the returned flag.
\<close>

definition displaced :: "cuckoo_cache \<Rightarrow> nat \<Rightarrow> nat \<Rightarrow> (bool \<times> cuckoo_cache) option" where
  "displaced c pos alt = do {
     c \<leftarrow> move_slot c pos alt;
     Some (True, ck_count (\<lambda>m. m\<lparr>CUCKOO_DISPLACE := CUCKOO_DISPLACE m + 1\<rparr>) c) }"

fun displace_direct ::
  "u32 \<Rightarrow> cuckoo_cache \<Rightarrow> nat \<Rightarrow> nat list \<Rightarrow> (bool \<times> cuckoo_cache) option" where
  "displace_direct el c pos [] = Some (False, c)"
| "displace_direct el c pos (alt # alts) =
     (if alt = pos then displace_direct el c pos alts
      else do {
        empty \<leftarrow> slot_is_empty c alt;
        if empty then displaced c pos alt
        else do {
          expired \<leftarrow> slot_is_expired el c alt;
          if expired then do { c \<leftarrow> handle_expired c alt; displaced c pos alt }
          else displace_direct el c pos alts } })"

fun displace_via ::
  "(cuckoo_cache \<Rightarrow> nat \<Rightarrow> (bool \<times> cuckoo_cache) option) \<Rightarrow> cuckoo_cache \<Rightarrow> nat \<Rightarrow> nat list
   \<Rightarrow> (bool \<times> cuckoo_cache) option" where
  "displace_via rec c pos [] = Some (False, c)"
| "displace_via rec c pos (alt # alts) =
     (if alt = pos then displace_via rec c pos alts
      else do {
        (freed, c) \<leftarrow> rec c alt;
        if freed then displaced c pos alt else displace_via rec c pos alts })"

primrec displace_within ::
  "nat \<Rightarrow> u32 \<Rightarrow> cuckoo_cache \<Rightarrow> nat \<Rightarrow> (bool \<times> cuckoo_cache) option" where
  "displace_within 0 el c pos = do {
     empty \<leftarrow> slot_is_empty c pos;
     if empty then Some (True, c)
     else do {
       expired \<leftarrow> slot_is_expired el c pos;
       if expired then do { c \<leftarrow> handle_expired c pos; Some (True, c) }
       else Some (False, c) } }"
| "displace_within (Suc r) el c pos = do {
     empty \<leftarrow> slot_is_empty c pos;
     if empty then Some (True, c)
     else do {
       expired \<leftarrow> slot_is_expired el c pos;
       if expired then do { c \<leftarrow> handle_expired c pos; Some (True, c) }
       else do {
         key_buf \<leftarrow> slot_key c pos;
         let alts = positions c key_buf;
         (done, c) \<leftarrow> displace_direct el c pos alts;
         if done then Some (True, c)
         else displace_via (displace_within r el) c pos alts } } }"

definition displace_from ::
  "u32 \<Rightarrow> cuckoo_cache \<Rightarrow> nat \<Rightarrow> nat \<Rightarrow> (bool \<times> cuckoo_cache) option" where
  "displace_from el c pos depth = displace_within (ck_max_displace c - depth) el c pos"

fun try_displace_loop ::
  "u32 \<Rightarrow> cuckoo_cache \<Rightarrow> nat \<Rightarrow> nat list \<Rightarrow> (nat option \<times> cuckoo_cache) option" where
  "try_displace_loop el c idx [] = Some (None, c)"
| "try_displace_loop el c idx (pos # ps) = do {
     (freed, c) \<leftarrow> displace_from el c pos 0;
     if freed then Some (Some idx, c) else try_displace_loop el c (idx + 1) ps }"

definition try_displace ::
  "u32 \<Rightarrow> cuckoo_cache \<Rightarrow> nat list \<Rightarrow> (nat option \<times> cuckoo_cache) option" where
  "try_displace el c candidates = try_displace_loop el c 0 candidates"

fun soonest :: "cuckoo_cache \<Rightarrow> nat \<Rightarrow> nat \<Rightarrow> u32 \<Rightarrow> nat list \<Rightarrow> nat option" where
  "soonest c i best best_expire [] = Some best"
| "soonest c i best best_expire (pos # ps) = do {
     expire \<leftarrow> slot_expire c pos;
     if expire < best_expire then soonest c (i + 1) i expire ps
     else soonest c (i + 1) best best_expire ps }"

definition select_victim :: "u64 \<Rightarrow> cuckoo_cache \<Rightarrow> nat list \<Rightarrow> nat option" where
  "select_victim rnd c candidates =
     (case ck_policy c of
        Random \<Rightarrow> Some (unat rnd mod D)
      | Expire \<Rightarrow> soonest c 0 0 (- 1) candidates)"

section \<open>Insertion\<close>

text \<open>A \<^verbatim>\<open>for\<close> loop over the candidates that stops at the first one passing its test.\<close>

fun find_first :: "(nat \<Rightarrow> bool option) \<Rightarrow> nat list \<Rightarrow> nat option option" where
  "find_first test [] = Some None"
| "find_first test (pos # ps) = do {
     b \<leftarrow> test pos;
     if b then Some (Some pos) else find_first test ps }"

definition live_key_at :: "u32 \<Rightarrow> cuckoo_cache \<Rightarrow> u8 list \<Rightarrow> nat \<Rightarrow> bool option" where
  "live_key_at el c key pos = do {
     empty \<leftarrow> slot_is_empty c pos;
     if empty then Some False
     else do {
       expired \<leftarrow> slot_is_expired el c pos;
       if expired then Some False
       else do { k \<leftarrow> slot_key c pos; Some (k = key) } } }"

definition key_at :: "cuckoo_cache \<Rightarrow> u8 list \<Rightarrow> nat \<Rightarrow> bool option" where
  "key_at c key pos = do {
     empty \<leftarrow> slot_is_empty c pos;
     if empty then Some False else do { k \<leftarrow> slot_key c pos; Some (k = key) } }"

definition find_slot_for_insert ::
  "u32 \<Rightarrow> u64 \<Rightarrow> cuckoo_cache \<Rightarrow> u8 list \<Rightarrow> nat list \<Rightarrow> ((nat \<times> bool) \<times> cuckoo_cache) option" where
  "find_slot_for_insert el rnd c key ps = do {
     p1 \<leftarrow> find_first (live_key_at el c key) ps;
     case p1 of Some pos \<Rightarrow> Some ((pos, True), c)
     | None \<Rightarrow> do {
     p2 \<leftarrow> find_first (slot_is_empty c) ps;
     case p2 of Some pos \<Rightarrow> Some ((pos, False), c)
     | None \<Rightarrow> do {
     p3 \<leftarrow> find_first (slot_is_expired el c) ps;
     case p3 of Some pos \<Rightarrow> do { c \<leftarrow> handle_expired c pos; Some ((pos, False), c) }
     | None \<Rightarrow> do {
     (p4, c) \<leftarrow> try_displace el c ps;
     case p4 of Some freed_idx \<Rightarrow> Some ((ps ! freed_idx, False), c)
     | None \<Rightarrow> do {
     victim_idx \<leftarrow> select_victim rnd c ps;
     let pos = ps ! victim_idx;
     c \<leftarrow> evict_at c pos;
     Some ((pos, False), c) } } } } }"

definition cuckoo_insert ::
  "u32 \<Rightarrow> u64 \<Rightarrow> cuckoo_cache \<Rightarrow> u8 list \<Rightarrow> cache_value \<Rightarrow> duration
   \<Rightarrow> ((cuckoo_error + unit) \<times> cuckoo_cache) option" where
  "cuckoo_insert el rnd c key v ttl =
     (let required = TINY_ITEM_HDR_SIZE + length key + size_of_value v in
      if required > ck_item_size c
      then Some (Inl (ItemOversized required (ck_item_size c)),
                 ck_count (\<lambda>m. m\<lparr>CUCKOO_INSERT_EX := CUCKOO_INSERT_EX m + 1\<rparr>) c)
      else do {
        let c = ck_count (\<lambda>m. m\<lparr>CUCKOO_INSERT := CUCKOO_INSERT m + 1\<rparr>) c;
        let expire = compute_expire el c ttl;
        let ps = positions c key;
        ((pos, is_update), c) \<leftarrow> find_slot_for_insert el rnd c key ps;
        c \<leftarrow> (if is_update
              then decrement_item_metrics (ck_count (\<lambda>m. m\<lparr>CUCKOO_UPDATE := CUCKOO_UPDATE m + 1\<rparr>) c) pos
              else Some c);
        c \<leftarrow> write_slot c pos key v expire;
        c \<leftarrow> increment_item_metrics c pos;
        Some (Inr (), c) })"

section \<open>Lookup, deletion and arithmetic\<close>

text \<open>An \<^verbatim>\<open>Item\<close> is a pointer to its slot: the model returns the slot's index.\<close>

definition cuckoo_get :: "u32 \<Rightarrow> cuckoo_cache \<Rightarrow> u8 list \<Rightarrow> (nat option \<times> cuckoo_cache) option" where
  "cuckoo_get el c key = do {
     let c = ck_count (\<lambda>m. m\<lparr>CUCKOO_GET := CUCKOO_GET m + 1\<rparr>) c;
     found \<leftarrow> find_first (key_at c key) (positions c key);
     case found of
       Some pos \<Rightarrow> do {
         expired \<leftarrow> slot_is_expired el c pos;
         if expired then do {
           c \<leftarrow> handle_expired c pos;
           Some (None, ck_count (\<lambda>m. m\<lparr>CUCKOO_GET_KEY_MISS := CUCKOO_GET_KEY_MISS m + 1\<rparr>) c) }
         else Some (Some pos, ck_count (\<lambda>m. m\<lparr>CUCKOO_GET_KEY_HIT := CUCKOO_GET_KEY_HIT m + 1\<rparr>) c) }
     | None \<Rightarrow> Some (None, ck_count (\<lambda>m. m\<lparr>CUCKOO_GET_KEY_MISS := CUCKOO_GET_KEY_MISS m + 1\<rparr>) c) }"

definition cuckoo_delete :: "u32 \<Rightarrow> cuckoo_cache \<Rightarrow> u8 list \<Rightarrow> (bool \<times> cuckoo_cache) option" where
  "cuckoo_delete el c key = do {
     let c = ck_count (\<lambda>m. m\<lparr>CUCKOO_DELETE := CUCKOO_DELETE m + 1\<rparr>) c;
     found \<leftarrow> find_first (key_at c key) (positions c key);
     case found of
       Some pos \<Rightarrow> do {
         expired \<leftarrow> slot_is_expired el c pos;
         if expired then do { c \<leftarrow> handle_expired c pos; Some (False, c) }
         else do { c \<leftarrow> decrement_item_metrics c pos; c \<leftarrow> clear_slot c pos; Some (True, c) } }
     | None \<Rightarrow> Some (False, c) }"

definition cuckoo_clear :: "cuckoo_cache \<Rightarrow> cuckoo_cache" where
  "cuckoo_clear c = c\<lparr>ck_data := replicate (length (ck_data c)) 0\<rparr>"

text \<open>\<^verbatim>\<open>wrapping_add\<close> and \<^verbatim>\<open>saturating_sub\<close> differ only in the item method they call.\<close>

definition numeric_op ::
  "(u8 list \<Rightarrow> nat \<Rightarrow> u64 \<Rightarrow> (not_numeric_error + u8 list) option) \<Rightarrow> u32 \<Rightarrow> cuckoo_cache
   \<Rightarrow> u8 list \<Rightarrow> u64 \<Rightarrow> ((cuckoo_error + nat) \<times> cuckoo_cache) option" where
  "numeric_op item_op el c key rhs = do {
     found \<leftarrow> find_first (live_key_at el c key) (positions c key);
     case found of
       Some pos \<Rightarrow> do {
         r \<leftarrow> item_op (ck_data c) (slot_offset c pos) rhs;
         case r of
           Inl _ \<Rightarrow> Some (Inl NotNumeric, c)
         | Inr d \<Rightarrow> Some (Inr pos, c\<lparr>ck_data := d\<rparr>) }
     | None \<Rightarrow> Some (Inl NotFound, c) }"

definition cuckoo_wrapping_add ::
  "u32 \<Rightarrow> cuckoo_cache \<Rightarrow> u8 list \<Rightarrow> u64 \<Rightarrow> ((cuckoo_error + nat) \<times> cuckoo_cache) option" where
  "cuckoo_wrapping_add = numeric_op tiny_wrapping_add"

definition cuckoo_saturating_sub ::
  "u32 \<Rightarrow> cuckoo_cache \<Rightarrow> u8 list \<Rightarrow> u64 \<Rightarrow> ((cuckoo_error + nat) \<times> cuckoo_cache) option" where
  "cuckoo_saturating_sub = numeric_op tiny_saturating_sub"

definition cuckoo_items :: "u32 \<Rightarrow> cuckoo_cache \<Rightarrow> nat option" where
  "cuckoo_items el c = do {
     flags \<leftarrow> those (map (\<lambda>i. do { e \<leftarrow> slot_is_empty c i; x \<leftarrow> slot_is_expired el c i;
                              Some (\<not> e \<and> \<not> x) }) [0..<ck_nitem c]);
     Some (length (filter id flags)) }"

section \<open>Item\<close>

definition item_key :: "cuckoo_cache \<Rightarrow> nat \<Rightarrow> u8 list option" where
  "item_key c index = tiny_key (ck_data c) (slot_offset c index)"

definition item_value :: "cuckoo_cache \<Rightarrow> nat \<Rightarrow> cache_value option" where
  "item_value c index = tiny_value (ck_data c) (slot_offset c index)"

definition item_expire :: "cuckoo_cache \<Rightarrow> nat \<Rightarrow> u32 option" where
  "item_expire c index = tiny_expire (ck_data c) (slot_offset c index)"

definition item_wrapping_add ::
  "cuckoo_cache \<Rightarrow> nat \<Rightarrow> u64 \<Rightarrow> ((cuckoo_error + unit) \<times> cuckoo_cache) option" where
  "item_wrapping_add c index rhs = do {
     r \<leftarrow> tiny_wrapping_add (ck_data c) (slot_offset c index) rhs;
     case r of Inl _ \<Rightarrow> Some (Inl NotNumeric, c) | Inr d \<Rightarrow> Some (Inr (), c\<lparr>ck_data := d\<rparr>) }"

definition item_saturating_sub ::
  "cuckoo_cache \<Rightarrow> nat \<Rightarrow> u64 \<Rightarrow> ((cuckoo_error + unit) \<times> cuckoo_cache) option" where
  "item_saturating_sub c index rhs = do {
     r \<leftarrow> tiny_saturating_sub (ck_data c) (slot_offset c index) rhs;
     case r of Inl _ \<Rightarrow> Some (Inl NotNumeric, c) | Inr d \<Rightarrow> Some (Inr (), c\<lparr>ck_data := d\<rparr>) }"

end
