(* ===== verification/CuckooSlots.thy ===== *)
theory CuckooSlots
  imports Cuckoo "HOL-Library.Multiset"
begin

text \<open>
  The cuckoo cache seen as a list of slots: every byte-level helper of \<^verbatim>\<open>cuckoo.rs\<close> is shown to read one
  block of the list or to replace one block, and never to fault on a well-formed cache. The proofs about
  the operations use only this view.
\<close>

section \<open>Blocks\<close>

definition blk_empty :: "u8 list \<Rightarrow> bool" where
  "blk_empty b \<longleftrightarrow> th_expire (blk_header b) = 0"

definition blk_expired :: "u32 \<Rightarrow> u8 list \<Rightarrow> bool" where
  "blk_expired el b \<longleftrightarrow>
     (let e = th_expire (blk_header b) in e \<noteq> 0 \<and> e \<noteq> - 1 \<and> e < el)"

definition blk_live :: "u32 \<Rightarrow> u8 list \<Rightarrow> bool" where
  "blk_live el b \<longleftrightarrow> \<not> blk_empty b \<and> \<not> blk_expired el b"

definition zero_block :: "cuckoo_cache \<Rightarrow> u8 list" where
  "zero_block c = replicate (ck_item_size c) 0"

definition cuckoo_slots :: "cuckoo_cache \<Rightarrow> u8 list list" where
  "cuckoo_slots c =
     map (\<lambda>i. take (ck_item_size c) (drop (i * ck_item_size c) (ck_data c))) [0..<ck_nitem c]"

text \<open>The shape of a cache, and the slots whose items lie within their slot.\<close>

definition cuckoo_shape :: "cuckoo_cache \<Rightarrow> bool" where
  "cuckoo_shape c \<longleftrightarrow> TINY_ITEM_HDR_SIZE < ck_item_size c \<and> 0 < ck_nitem c
     \<and> length (ck_data c) = ck_item_size c * ck_nitem c \<and> length (ck_hashers c) = D"

definition blk_fits :: "cuckoo_cache \<Rightarrow> u8 list \<Rightarrow> bool" where
  "blk_fits c b \<longleftrightarrow> blk_empty b \<or> blk_need b \<le> ck_item_size c"

definition cuckoo_wf :: "cuckoo_cache \<Rightarrow> bool" where
  "cuckoo_wf c \<longleftrightarrow> cuckoo_shape c \<and> list_all (blk_fits c) (cuckoo_slots c)"

text \<open>Replacing a block.\<close>

definition set_slot :: "cuckoo_cache \<Rightarrow> nat \<Rightarrow> u8 list \<Rightarrow> cuckoo_cache" where
  "set_slot c i b = c\<lparr>ck_data := take (i * ck_item_size c) (ck_data c) @ b
     @ drop (i * ck_item_size c + ck_item_size c) (ck_data c)\<rparr>"

section \<open>The slot view of the memory\<close>

lemma slot_fits:
  assumes "cuckoo_shape c" and "i < ck_nitem c"
  shows "i * ck_item_size c + ck_item_size c \<le> length (ck_data c)"
proof -
  have "Suc i * ck_item_size c \<le> ck_nitem c * ck_item_size c"
    using assms(2) by (intro mult_le_mono1) simp
  with assms(1) show ?thesis by (simp add: cuckoo_shape_def mult.commute)
qed

lemma length_cuckoo_slots [simp]: "length (cuckoo_slots c) = ck_nitem c"
  by (simp add: cuckoo_slots_def)

lemma cuckoo_slots_nth:
  "i < ck_nitem c \<Longrightarrow>
   cuckoo_slots c ! i = take (ck_item_size c) (drop (i * ck_item_size c) (ck_data c))"
  by (simp add: cuckoo_slots_def)

lemma length_slot:
  assumes "cuckoo_shape c" and "i < ck_nitem c"
  shows "length (cuckoo_slots c ! i) = ck_item_size c"
  using slot_fits [OF assms] assms(2) by (simp add: cuckoo_slots_nth)

lemma blk_need_fits: "cuckoo_wf c \<Longrightarrow> i < ck_nitem c \<Longrightarrow> \<not> blk_empty (cuckoo_slots c ! i)
   \<Longrightarrow> blk_need (cuckoo_slots c ! i) \<le> ck_item_size c"
  by (auto simp: cuckoo_wf_def list_all_length blk_fits_def)

lemma cuckoo_wf_shape: "cuckoo_wf c \<Longrightarrow> cuckoo_shape c"
  by (simp add: cuckoo_wf_def)

lemma store_slot:
  assumes "cuckoo_shape c" and "i < ck_nitem c" and "length b = ck_item_size c"
  shows "store_bytes (ck_data c) (i * ck_item_size c) b = Some (ck_data (set_slot c i b))"
  using slot_fits [OF assms(1,2)] assms(3) by (simp add: store_bytes_def set_slot_def)

lemma set_slot_fields [simp]:
  "ck_hashers (set_slot c i b) = ck_hashers c"
  "ck_item_size (set_slot c i b) = ck_item_size c"
  "ck_nitem (set_slot c i b) = ck_nitem c"
  "ck_max_displace (set_slot c i b) = ck_max_displace c"
  "ck_max_ttl (set_slot c i b) = ck_max_ttl c"
  "ck_policy (set_slot c i b) = ck_policy c"
  "ck_metrics (set_slot c i b) = ck_metrics c"
  by (simp_all add: set_slot_def)

lemma set_slot_data: "c\<lparr>ck_data := ck_data (set_slot c i b)\<rparr> = set_slot c i b"
  by (simp add: set_slot_def)

lemma set_slot_shape [simp]:
  assumes "cuckoo_shape c" and "i < ck_nitem c" and "length b = ck_item_size c"
  shows "cuckoo_shape (set_slot c i b)"
  using store_bytes_length [OF store_slot [OF assms]] assms(1) by (simp add: cuckoo_shape_def)

lemma cuckoo_slots_set_slot:
  assumes "cuckoo_shape c" and "i < ck_nitem c" and "length b = ck_item_size c"
  shows "cuckoo_slots (set_slot c i b) = (cuckoo_slots c)[i := b]"
proof (rule nth_equalityI)
  show "length (cuckoo_slots (set_slot c i b)) = length ((cuckoo_slots c)[i := b])" by simp
next
  fix j
  assume "j < length (cuckoo_slots (set_slot c i b))"
  then have j: "j < ck_nitem c" by simp
  let ?n = "ck_item_size c" and ?d' = "ck_data (set_slot c i b)"
  have st: "store_bytes (ck_data c) (i * ?n) b = Some ?d'" by (rule store_slot [OF assms])
  have fit': "j * ?n + ?n \<le> length ?d'" and fit: "j * ?n + ?n \<le> length (ck_data c)"
    using slot_fits [OF assms(1) j] store_bytes_length [OF st] by simp_all
  have "take ?n (drop (j * ?n) ?d') = (if j = i then b else take ?n (drop (j * ?n) (ck_data c)))"
  proof (cases "j = i")
    case True
    with load_store_same [OF st, of ?n] assms(3) fit' show ?thesis by (simp add: load_bytes_def)
  next
    case False
    then have "j * ?n + ?n \<le> i * ?n \<or> i * ?n + length b \<le> j * ?n"
      using assms(3) by (metis add.commute linorder_neqE_nat mult_Suc mult_le_mono1 Suc_leI)
    from load_store_disjoint [OF st this] fit fit' False show ?thesis by (simp add: load_bytes_def)
  qed
  with j show "cuckoo_slots (set_slot c i b) ! j = (cuckoo_slots c)[i := b] ! j"
    by (simp add: cuckoo_slots_nth nth_list_update)
qed

text \<open>The counters do not touch the slots.\<close>

lemma ck_count_fields [simp]:
  "ck_data (ck_count f c) = ck_data c"
  "ck_hashers (ck_count f c) = ck_hashers c"
  "ck_item_size (ck_count f c) = ck_item_size c"
  "ck_nitem (ck_count f c) = ck_nitem c"
  "ck_max_displace (ck_count f c) = ck_max_displace c"
  "ck_max_ttl (ck_count f c) = ck_max_ttl c"
  "ck_policy (ck_count f c) = ck_policy c"
  "ck_metrics (ck_count f c) = f (ck_metrics c)"
  by (simp_all add: ck_count_def)

lemma ck_count_view [simp]:
  "cuckoo_slots (ck_count f c) = cuckoo_slots c"
  "cuckoo_shape (ck_count f c) = cuckoo_shape c"
  "blk_fits (ck_count f c) = blk_fits c"
  "positions (ck_count f c) = positions c"
  "zero_block (ck_count f c) = zero_block c"
  by (simp_all add: cuckoo_slots_def cuckoo_shape_def blk_fits_def positions_def zero_block_def
      fun_eq_iff)

lemma ck_count_wf [simp]: "cuckoo_wf (ck_count f c) = cuckoo_wf c"
  by (simp add: cuckoo_wf_def)

lemma set_slot_view [simp]:
  "positions (set_slot c i b) = positions c"
  "zero_block (set_slot c i b) = zero_block c"
  "blk_fits (set_slot c i b) = blk_fits c"
  by (simp_all add: positions_def zero_block_def blk_fits_def fun_eq_iff)

lemma length_zero_block [simp]: "length (zero_block c) = ck_item_size c"
  by (simp add: zero_block_def)

lemma le_word_zero: "le_word (replicate n 0) = 0"
  by (induction n) simp_all

lemma blk_empty_zero_block:
  assumes "cuckoo_shape c"
  shows "blk_empty (zero_block c)"
proof -
  have "take 4 (zero_block c) = replicate 4 0"
    using assms by (simp add: zero_block_def cuckoo_shape_def layout_simps min_def)
  then show ?thesis by (simp add: blk_empty_def blk_header_def le_word_zero)
qed

section \<open>The helpers on the slot view\<close>

lemma slot_expire_view:
  assumes "cuckoo_shape c" and "i < ck_nitem c"
  shows "slot_expire c i = Some (th_expire (blk_header (cuckoo_slots c ! i)))"
  using tiny_expire_blk [OF slot_fits [OF assms]] assms
  by (simp add: slot_expire_def slot_offset_def cuckoo_slots_nth cuckoo_shape_def)

lemma slot_is_empty_view:
  assumes "cuckoo_shape c" and "i < ck_nitem c"
  shows "slot_is_empty c i = Some (blk_empty (cuckoo_slots c ! i))"
  by (simp add: slot_is_empty_def slot_expire_view [OF assms] blk_empty_def)

lemma slot_is_expired_view:
  assumes "cuckoo_shape c" and "i < ck_nitem c"
  shows "slot_is_expired el c i = Some (blk_expired el (cuckoo_slots c ! i))"
  by (simp add: slot_is_expired_def slot_expire_view [OF assms] blk_expired_def Let_def)

lemma slot_key_view:
  assumes "cuckoo_wf c" and "i < ck_nitem c" and "\<not> blk_empty (cuckoo_slots c ! i)"
  shows "slot_key c i = Some (blk_key (cuckoo_slots c ! i))"
proof -
  have "TINY_ITEM_HDR_SIZE + unat (th_klen (blk_header (cuckoo_slots c ! i))) \<le> ck_item_size c"
    using blk_need_fits [OF assms] by (simp add: blk_need_def)
  then show ?thesis
    using tiny_key_blk [OF slot_fits [OF cuckoo_wf_shape [OF assms(1)] assms(2)]] assms(2)
    by (simp add: slot_key_def slot_offset_def cuckoo_slots_nth)
qed

lemma item_value_view:
  assumes "cuckoo_wf c" and "i < ck_nitem c" and "\<not> blk_empty (cuckoo_slots c ! i)"
  shows "item_value c i = Some (blk_value (cuckoo_slots c ! i))"
  using tiny_value_blk [OF slot_fits [OF cuckoo_wf_shape [OF assms(1)] assms(2)]]
    blk_need_fits [OF assms] assms(2)
  by (simp add: item_value_def slot_offset_def cuckoo_slots_nth)

lemma clear_slot_view:
  assumes "cuckoo_shape c" and "i < ck_nitem c"
  shows "clear_slot c i = Some (set_slot c i (zero_block c))"
  using store_slot [OF assms, of "zero_block c"]
  by (simp add: clear_slot_def slot_offset_def set_slot_data zero_block_def)

lemma move_slot_view:
  assumes "cuckoo_shape c" and "i < ck_nitem c" and "j < ck_nitem c"
  shows "move_slot c i j = Some (set_slot (set_slot c j (cuckoo_slots c ! i)) i (zero_block c))"
proof -
  let ?c = "set_slot c j (cuckoo_slots c ! i)"
  have ld: "load_bytes (ck_data c) (i * ck_item_size c) (ck_item_size c) = Some (cuckoo_slots c ! i)"
    using slot_fits [OF assms(1,2)] assms(2) by (simp add: load_bytes_def cuckoo_slots_nth)
  have st: "store_bytes (ck_data c) (j * ck_item_size c) (cuckoo_slots c ! i) = Some (ck_data ?c)"
    by (rule store_slot) (use assms in \<open>simp_all add: length_slot\<close>)
  have "store_bytes (ck_data ?c) (i * ck_item_size ?c) (zero_block c) =
      Some (ck_data (set_slot ?c i (zero_block c)))"
    by (rule store_slot) (use assms in \<open>simp_all add: length_slot\<close>)
  then have st2: "store_bytes (ck_data ?c) (i * ck_item_size c) (replicate (ck_item_size c) 0) =
      Some (ck_data (set_slot ?c i (zero_block c)))"
    by (simp add: zero_block_def)
  show ?thesis
    by (simp add: move_slot_def slot_offset_def ld st st2)
qed

definition item_block :: "cuckoo_cache \<Rightarrow> u8 list \<Rightarrow> cache_value \<Rightarrow> u32 \<Rightarrow> u8 list" where
  "item_block c key v e = encode_item key v e
     @ replicate (ck_item_size c - (TINY_ITEM_HDR_SIZE + length key + size_of_value v)) 0"

lemma set_slot_set_slot:
  assumes "cuckoo_shape c" and "i < ck_nitem c" and "length b = ck_item_size c"
  shows "set_slot (set_slot c i b) i b' = set_slot c i b'"
  using slot_fits [OF assms(1,2)] assms(3) by (simp add: set_slot_def)

lemma write_slot_view:
  assumes "cuckoo_shape c" and "i < ck_nitem c"
    and fit: "TINY_ITEM_HDR_SIZE + length key + size_of_value v \<le> ck_item_size c"
  shows "write_slot c i key v e = Some (set_slot c i (item_block c key v e))"
proof -
  let ?c = "set_slot c i (zero_block c)" and ?enc = "encode_item key v e"
  have sh: "cuckoo_shape ?c" and i: "i < ck_nitem ?c" using assms by simp_all
  have off: "i * ck_item_size c + length ?enc \<le> length (ck_data ?c)"
    using slot_fits [OF sh i] fit by simp
  then have "store_bytes (ck_data ?c) (i * ck_item_size c) ?enc
      = Some (ck_data (set_slot ?c i (item_block c key v e)))"
    using slot_fits [OF assms(1,2)] fit
    by (simp add: store_bytes_def set_slot_def item_block_def zero_block_def)
  then show ?thesis
    by (simp add: write_slot_def clear_slot_view [OF assms(1,2)] tiny_define_store slot_offset_def
        set_slot_data set_slot_set_slot assms)
qed

section \<open>Occupied slots and gauges\<close>

text \<open>The items of a cache with their multiplicity, and those not expired.\<close>

definition occupied :: "cuckoo_cache \<Rightarrow> u8 list multiset" where
  "occupied c = filter_mset (\<lambda>b. \<not> blk_empty b) (mset (cuckoo_slots c))"

definition live_items :: "u32 \<Rightarrow> cuckoo_cache \<Rightarrow> u8 list multiset" where
  "live_items el c = filter_mset (blk_live el) (occupied c)"

definition blk_klen :: "u8 list \<Rightarrow> int" where
  "blk_klen b = int (unat (th_klen (blk_header b)))"

definition blk_vlen :: "u8 list \<Rightarrow> int" where
  "blk_vlen b = int (tiny_value_len (blk_header b))"

text \<open>The four gauges count the occupied slots, their key bytes, their value bytes and both.\<close>

definition gauges_ok :: "cuckoo_cache \<Rightarrow> bool" where
  "gauges_ok c \<longleftrightarrow>
     ITEM_CURRENT (ck_metrics c) = int (size (occupied c))
     \<and> ITEM_KEY_BYTE (ck_metrics c) = sum_mset (image_mset blk_klen (occupied c))
     \<and> ITEM_VAL_BYTE (ck_metrics c) = sum_mset (image_mset blk_vlen (occupied c))
     \<and> ITEM_DATA_BYTE (ck_metrics c) =
         sum_mset (image_mset blk_klen (occupied c)) + sum_mset (image_mset blk_vlen (occupied c))"

lemma occupied_count [simp]: "occupied (ck_count f c) = occupied c"
  by (simp add: occupied_def)

lemma occupied_set_slot:
  assumes "cuckoo_shape c" and "i < ck_nitem c" and "length b = ck_item_size c"
  shows "occupied (set_slot c i b) =
    (if blk_empty b then {#} else {#b#})
    + (occupied c - (if blk_empty (cuckoo_slots c ! i) then {#} else {#cuckoo_slots c ! i#}))"
  using assms by (simp add: occupied_def cuckoo_slots_set_slot mset_update)

lemma slot_in_occupied:
  "i < ck_nitem c \<Longrightarrow> \<not> blk_empty (cuckoo_slots c ! i) \<Longrightarrow> cuckoo_slots c ! i \<in># occupied c"
  by (simp add: occupied_def)

lemma in_occupied_iff:
  "b \<in># occupied c \<longleftrightarrow> (\<exists>i < ck_nitem c. cuckoo_slots c ! i = b) \<and> \<not> blk_empty b"
  by (auto simp: occupied_def in_set_conv_nth)

lemma slot_header_view:
  assumes "cuckoo_shape c" and "i < ck_nitem c"
  shows "tiny_header (ck_data c) (slot_offset c i) = Some (blk_header (cuckoo_slots c ! i))"
  using tiny_header_blk [OF slot_fits [OF assms]] assms
  by (simp add: slot_offset_def cuckoo_slots_nth cuckoo_shape_def)

lemma decrement_item_metrics_view:
  assumes "cuckoo_shape c" and "i < ck_nitem c"
  shows "decrement_item_metrics c i = Some (ck_count (add_item_gauges (- 1)
    (- blk_klen (cuckoo_slots c ! i)) (- blk_vlen (cuckoo_slots c ! i))) c)"
  by (simp add: decrement_item_metrics_def slot_header_view [OF assms] blk_klen_def blk_vlen_def)

lemma increment_item_metrics_view:
  assumes "cuckoo_shape c" and "i < ck_nitem c"
  shows "increment_item_metrics c i = Some (ck_count (add_item_gauges 1
    (blk_klen (cuckoo_slots c ! i)) (blk_vlen (cuckoo_slots c ! i))) c)"
  by (simp add: increment_item_metrics_def slot_header_view [OF assms] blk_klen_def blk_vlen_def)

text \<open>Taking the item out of a slot, with its gauges; \<open>f\<close> counts why.\<close>

definition remove_item ::
  "(cuckoo_metrics \<Rightarrow> cuckoo_metrics) \<Rightarrow> cuckoo_cache \<Rightarrow> nat \<Rightarrow> cuckoo_cache" where
  "remove_item f c i = set_slot (ck_count (\<lambda>m. add_item_gauges (- 1)
     (- blk_klen (cuckoo_slots c ! i)) (- blk_vlen (cuckoo_slots c ! i)) (f m)) c) i (zero_block c)"

lemma ck_count_ck_count [simp]: "ck_count g (ck_count f c) = ck_count (\<lambda>m. g (f m)) c"
  by (simp add: ck_count_def)

definition expire_slot :: "cuckoo_cache \<Rightarrow> nat \<Rightarrow> cuckoo_cache" where
  "expire_slot = remove_item (\<lambda>m. m\<lparr>ITEM_EXPIRE := ITEM_EXPIRE m + 1\<rparr>)"

definition evict_slot :: "cuckoo_cache \<Rightarrow> nat \<Rightarrow> cuckoo_cache" where
  "evict_slot = remove_item (\<lambda>m. m\<lparr>ITEM_EVICT := ITEM_EVICT m + 1\<rparr>)"

lemma handle_expired_view:
  assumes "cuckoo_shape c" and "i < ck_nitem c"
  shows "handle_expired c i = Some (expire_slot c i)"
  using assms
  by (simp add: handle_expired_def expire_slot_def decrement_item_metrics_view clear_slot_view remove_item_def)

lemma evict_at_view:
  assumes "cuckoo_shape c" and "i < ck_nitem c"
  shows "evict_at c i = Some (evict_slot c i)"
  using assms
  by (simp add: evict_at_def evict_slot_def decrement_item_metrics_view clear_slot_view remove_item_def)

text \<open>A counter update that leaves the gauges alone.\<close>

definition gauge_neutral :: "(cuckoo_metrics \<Rightarrow> cuckoo_metrics) \<Rightarrow> bool" where
  "gauge_neutral f \<longleftrightarrow> (\<forall>m. ITEM_CURRENT (f m) = ITEM_CURRENT m \<and> ITEM_KEY_BYTE (f m) = ITEM_KEY_BYTE m
     \<and> ITEM_VAL_BYTE (f m) = ITEM_VAL_BYTE m \<and> ITEM_DATA_BYTE (f m) = ITEM_DATA_BYTE m)"

lemma gauge_neutral_counters [simp]:
  "gauge_neutral (\<lambda>m. m\<lparr>ITEM_EXPIRE := g m\<rparr>)"
  "gauge_neutral (\<lambda>m. m\<lparr>ITEM_EVICT := g m\<rparr>)"
  "gauge_neutral (\<lambda>m. m\<lparr>CUCKOO_DISPLACE := g m\<rparr>)"
  "gauge_neutral (\<lambda>m. m\<lparr>CUCKOO_UPDATE := g m\<rparr>)"
  "gauge_neutral (\<lambda>m. m\<lparr>CUCKOO_INSERT := g m\<rparr>)"
  "gauge_neutral (\<lambda>m. m\<lparr>CUCKOO_INSERT_EX := g m\<rparr>)"
  "gauge_neutral (\<lambda>m. m\<lparr>CUCKOO_GET := g m\<rparr>)"
  "gauge_neutral (\<lambda>m. m\<lparr>CUCKOO_GET_KEY_HIT := g m\<rparr>)"
  "gauge_neutral (\<lambda>m. m\<lparr>CUCKOO_GET_KEY_MISS := g m\<rparr>)"
  "gauge_neutral (\<lambda>m. m\<lparr>CUCKOO_DELETE := g m\<rparr>)"
  "gauge_neutral id" "gauge_neutral (\<lambda>m. m)"
  by (simp_all add: gauge_neutral_def)

lemma gauges_ok_count [simp]: "gauge_neutral f \<Longrightarrow> gauges_ok (ck_count f c) = gauges_ok c"
  by (simp add: gauges_ok_def gauge_neutral_def)

lemma remove_item_fields [simp]:
  "ck_hashers (remove_item f c i) = ck_hashers c"
  "ck_item_size (remove_item f c i) = ck_item_size c"
  "ck_nitem (remove_item f c i) = ck_nitem c"
  "ck_max_displace (remove_item f c i) = ck_max_displace c"
  "ck_max_ttl (remove_item f c i) = ck_max_ttl c"
  "ck_policy (remove_item f c i) = ck_policy c"
  "positions (remove_item f c i) = positions c"
  "zero_block (remove_item f c i) = zero_block c"
  "blk_fits (remove_item f c i) = blk_fits c"
  by (simp_all add: remove_item_def)

lemma remove_item_shape [simp]:
  "cuckoo_shape c \<Longrightarrow> i < ck_nitem c \<Longrightarrow> cuckoo_shape (remove_item f c i)"
  by (simp add: remove_item_def)

lemma cuckoo_slots_remove_item:
  "cuckoo_shape c \<Longrightarrow> i < ck_nitem c \<Longrightarrow>
   cuckoo_slots (remove_item f c i) = (cuckoo_slots c)[i := zero_block c]"
  by (simp add: remove_item_def cuckoo_slots_set_slot)

lemma occupied_remove_item:
  assumes "cuckoo_shape c" and "i < ck_nitem c" and "\<not> blk_empty (cuckoo_slots c ! i)"
  shows "occupied (remove_item f c i) = occupied c - {#cuckoo_slots c ! i#}"
  using assms by (simp add: remove_item_def occupied_set_slot blk_empty_zero_block)

lemma gauges_ok_remove_item:
  assumes "cuckoo_shape c" and "i < ck_nitem c" and "\<not> blk_empty (cuckoo_slots c ! i)"
    and "gauge_neutral f" and "gauges_ok c"
  shows "gauges_ok (remove_item f c i)"
proof -
  obtain M where M: "occupied c = add_mset (cuckoo_slots c ! i) M"
    using slot_in_occupied [OF assms(2,3)] by (metis multi_member_split)
  show ?thesis
    using assms(4,5)
    by (simp add: gauges_ok_def occupied_remove_item [OF assms(1-3)] M)
       (simp add: remove_item_def add_item_gauges_def gauge_neutral_def)
qed

lemma wf_set_slot:
  assumes "cuckoo_wf c" and "i < ck_nitem c" and "length b = ck_item_size c" and "blk_fits c b"
  shows "cuckoo_wf (set_slot c i b)"
  using assms by (auto simp: cuckoo_wf_def cuckoo_slots_set_slot list_all_iff
      dest: set_update_subset_insert [THEN subsetD])

lemma blk_fits_zero_block: "cuckoo_shape c \<Longrightarrow> blk_fits c (zero_block c)"
  by (simp add: blk_fits_def blk_empty_zero_block)

lemma wf_remove_item: "cuckoo_wf c \<Longrightarrow> i < ck_nitem c \<Longrightarrow> cuckoo_wf (remove_item f c i)"
  unfolding remove_item_def
  by (rule wf_set_slot) (simp_all add: blk_fits_zero_block cuckoo_wf_shape)

lemma blk_fits_slot: "cuckoo_wf c \<Longrightarrow> i < ck_nitem c \<Longrightarrow> blk_fits c (cuckoo_slots c ! i)"
  by (auto simp: cuckoo_wf_def list_all_length)

end
