(* ===== verification/CuckooDisplace.thy ===== *)
theory CuckooDisplace
  imports CuckooSlots
begin

text \<open>
  The displacement search of the cuckoo cache (\<^verbatim>\<open>displace_from\<close>, \<^verbatim>\<open>try_displace\<close>). For every depth
  limit it never faults, frees the requested slot or changes nothing, and keeps every unexpired item with
  its multiplicity. Up to a depth limit of four it also keeps every item in one of its own candidate
  slots.
\<close>

section \<open>Housekeeping steps\<close>

text \<open>
  What displacement and expiry may do to a cache: the configuration stays, no live item is lost or added,
  nothing appears that was not there, and exact gauges stay exact.
\<close>

definition same_config :: "cuckoo_cache \<Rightarrow> cuckoo_cache \<Rightarrow> bool" where
  "same_config c c' \<longleftrightarrow> ck_hashers c' = ck_hashers c \<and> ck_item_size c' = ck_item_size c
     \<and> ck_nitem c' = ck_nitem c \<and> ck_max_displace c' = ck_max_displace c
     \<and> ck_max_ttl c' = ck_max_ttl c \<and> ck_policy c' = ck_policy c"

definition tidies :: "u32 \<Rightarrow> cuckoo_cache \<Rightarrow> cuckoo_cache \<Rightarrow> bool" where
  "tidies el c c' \<longleftrightarrow> same_config c c' \<and> cuckoo_wf c' \<and> live_items el c' = live_items el c
     \<and> occupied c' \<subseteq># occupied c \<and> (gauges_ok c \<longrightarrow> gauges_ok c')"

lemma same_config_refl [simp]: "same_config c c"
  by (simp add: same_config_def)

lemma same_config_positions: "same_config c c' \<Longrightarrow> positions c' = positions c"
  by (simp add: same_config_def positions_def fun_eq_iff)

lemma tidies_refl: "cuckoo_wf c \<Longrightarrow> tidies el c c"
  by (simp add: tidies_def)

lemma tidies_trans: "tidies el c c' \<Longrightarrow> tidies el c' c'' \<Longrightarrow> tidies el c c''"
  by (auto simp: tidies_def same_config_def intro: subset_mset.order_trans)

lemma tidies_wf: "tidies el c c' \<Longrightarrow> cuckoo_wf c'"
  by (simp add: tidies_def)

lemma tidies_nitem: "tidies el c c' \<Longrightarrow> ck_nitem c' = ck_nitem c"
  by (simp add: tidies_def same_config_def)

lemma tidies_positions: "tidies el c c' \<Longrightarrow> positions c' = positions c"
  by (auto simp: tidies_def same_config_positions)

lemma tidies_count: "cuckoo_wf c \<Longrightarrow> gauge_neutral f \<Longrightarrow> tidies el c (ck_count f c)"
  by (simp add: tidies_def same_config_def live_items_def)

lemma tidies_remove_expired:
  assumes "cuckoo_wf c" and "i < ck_nitem c" and "blk_expired el (cuckoo_slots c ! i)"
    and "gauge_neutral f"
  shows "tidies el c (remove_item f c i)"
proof -
  have ne: "\<not> blk_empty (cuckoo_slots c ! i)"
    using assms(3) by (auto simp: blk_expired_def blk_empty_def Let_def)
  note sh = cuckoo_wf_shape [OF assms(1)]
  have "live_items el (remove_item f c i) = live_items el c"
    using assms(3) by (simp add: live_items_def occupied_remove_item [OF sh assms(2) ne]
        blk_live_def)
  with assms ne sh show ?thesis
    by (simp add: tidies_def same_config_def wf_remove_item occupied_remove_item
        gauges_ok_remove_item)
qed

text \<open>Moving a slot into an empty one keeps the items.\<close>

definition moved :: "cuckoo_cache \<Rightarrow> nat \<Rightarrow> nat \<Rightarrow> cuckoo_cache" where
  "moved c i j = ck_count (\<lambda>m. m\<lparr>CUCKOO_DISPLACE := CUCKOO_DISPLACE m + 1\<rparr>)
     (set_slot (set_slot c j (cuckoo_slots c ! i)) i (zero_block c))"

lemma displaced_view:
  "cuckoo_shape c \<Longrightarrow> i < ck_nitem c \<Longrightarrow> j < ck_nitem c \<Longrightarrow>
   displaced c i j = Some (True, moved c i j)"
  by (simp add: displaced_def move_slot_view moved_def)

lemma cuckoo_slots_moved:
  "cuckoo_shape c \<Longrightarrow> i < ck_nitem c \<Longrightarrow> j < ck_nitem c \<Longrightarrow>
   cuckoo_slots (moved c i j) = (cuckoo_slots c)[j := cuckoo_slots c ! i, i := zero_block c]"
  by (simp add: moved_def cuckoo_slots_set_slot length_slot)

lemma tidies_moved:
  assumes "cuckoo_wf c" and "i < ck_nitem c" and "j < ck_nitem c" and "i \<noteq> j"
    and "blk_empty (cuckoo_slots c ! j)"
  shows "tidies el c (moved c i j)"
proof -
  note sh = cuckoo_wf_shape [OF assms(1)]
  let ?c1 = "set_slot c j (cuckoo_slots c ! i)"
  have len: "length (cuckoo_slots c ! i) = ck_item_size c" by (rule length_slot [OF sh assms(2)])
  have wf1: "cuckoo_wf ?c1" and sh1: "cuckoo_shape ?c1"
    using assms len sh by (simp_all add: wf_set_slot blk_fits_slot)
  have at: "cuckoo_slots ?c1 ! i = cuckoo_slots c ! i"
    using assms len sh by (simp add: cuckoo_slots_set_slot)
  have "occupied (moved c i j) = occupied c"
    using assms len sh sh1 at slot_in_occupied [OF assms(2)]
    by (simp add: moved_def occupied_set_slot blk_empty_zero_block)
  moreover have "cuckoo_wf (moved c i j)"
    unfolding moved_def ck_count_wf
    by (rule wf_set_slot [OF wf1]) (use assms sh in \<open>simp_all add: blk_fits_zero_block\<close>)
  ultimately show ?thesis
    by (simp add: tidies_def same_config_def live_items_def gauges_ok_def moved_def)
qed

lemma moved_empties:
  "cuckoo_shape c \<Longrightarrow> i < ck_nitem c \<Longrightarrow> j < ck_nitem c \<Longrightarrow> blk_empty (cuckoo_slots (moved c i j) ! i)"
  by (simp add: cuckoo_slots_moved blk_empty_zero_block)

lemma positions_bound:
  "cuckoo_shape c \<Longrightarrow> p \<in> set (positions c key) \<Longrightarrow> p < ck_nitem c"
  by (auto simp: positions_def cuckoo_shape_def)

lemma length_positions [simp]: "length (positions c key) = D"
  by (simp add: positions_def)

section \<open>Displacement at any depth\<close>

text \<open>What a search that returned \<open>(freed, c')\<close> promises about slot \<open>pos\<close>.\<close>

definition freed_ok :: "u32 \<Rightarrow> cuckoo_cache \<Rightarrow> nat \<Rightarrow> bool \<Rightarrow> cuckoo_cache \<Rightarrow> bool" where
  "freed_ok el c pos freed c' \<longleftrightarrow>
     (if freed then tidies el c c' \<and> blk_empty (cuckoo_slots c' ! pos) else c' = c)"

lemma freed_ok_moved:
  assumes "cuckoo_wf c" and "pos < ck_nitem c" and "alt < ck_nitem c" and "alt \<noteq> pos"
    and "blk_empty (cuckoo_slots c ! alt)"
  shows "freed_ok el c pos True (moved c pos alt)"
  using tidies_moved [of c pos alt] assms moved_empties [of c pos alt]
  by (simp add: freed_ok_def cuckoo_wf_shape)

text \<open>Expiring the occupant of a slot.\<close>

lemma expire_slot_empties:
  "cuckoo_shape c \<Longrightarrow> i < ck_nitem c \<Longrightarrow> blk_empty (cuckoo_slots (expire_slot c i) ! i)"
  by (simp add: expire_slot_def cuckoo_slots_remove_item blk_empty_zero_block)

lemma tidies_expire_slot:
  "cuckoo_wf c \<Longrightarrow> i < ck_nitem c \<Longrightarrow> blk_expired el (cuckoo_slots c ! i) \<Longrightarrow>
   tidies el c (expire_slot c i)"
  unfolding expire_slot_def by (rule tidies_remove_expired) simp_all

lemma freed_ok_expire_moved:
  assumes "cuckoo_wf c" and "pos < ck_nitem c" and "alt < ck_nitem c" and "alt \<noteq> pos"
    and "blk_expired el (cuckoo_slots c ! alt)"
  shows "freed_ok el c pos True (moved (expire_slot c alt) pos alt)"
proof -
  have t: "tidies el c (expire_slot c alt)"
    by (rule tidies_expire_slot) (use assms in simp_all)
  have "freed_ok el (expire_slot c alt) pos True (moved (expire_slot c alt) pos alt)"
    by (rule freed_ok_moved)
       (use assms tidies_nitem [OF t] tidies_wf [OF t] in
        \<open>simp_all add: expire_slot_empties cuckoo_wf_shape\<close>)
  with t show ?thesis by (auto simp: freed_ok_def intro: tidies_trans)
qed

text \<open>The first loop: an empty or expired alternative is taken, or all alternatives are live.\<close>

lemma displace_direct_cases:
  assumes "cuckoo_wf c" and "pos < ck_nitem c" and "\<forall>alt \<in> set alts. alt < ck_nitem c"
  shows "(\<exists>alt \<in> set alts. alt \<noteq> pos \<and> blk_empty (cuckoo_slots c ! alt)
            \<and> displace_direct el c pos alts = Some (True, moved c pos alt))
    \<or> (\<exists>alt \<in> set alts. alt \<noteq> pos \<and> blk_expired el (cuckoo_slots c ! alt)
            \<and> displace_direct el c pos alts = Some (True, moved (expire_slot c alt) pos alt))
    \<or> ((\<forall>alt \<in> set alts. alt \<noteq> pos \<longrightarrow> blk_live el (cuckoo_slots c ! alt))
            \<and> displace_direct el c pos alts = Some (False, c))"
  using assms(3)
proof (induction alts)
  case Nil
  show ?case by simp
next
  case (Cons alt alts)
  note sh = cuckoo_wf_shape [OF assms(1)]
  from Cons show ?case
    by (auto simp: slot_is_empty_view [OF sh] slot_is_expired_view [OF sh] blk_live_def sh assms(2)
        displaced_view handle_expired_view [OF sh] expire_slot_def)
qed

text \<open>The second loop, for any search function that keeps its promise.\<close>

lemma displace_via_ok:
  assumes rec: "\<And>alt. alt < ck_nitem c \<Longrightarrow> \<exists>freed c'. rec c alt = Some (freed, c') \<and> freed_ok el c alt freed c'"
    and "cuckoo_wf c" and "pos < ck_nitem c" and "\<forall>alt \<in> set alts. alt < ck_nitem c"
  shows "\<exists>freed c'. displace_via rec c pos alts = Some (freed, c') \<and> freed_ok el c pos freed c'"
  using assms(4)
proof (induction alts)
  case Nil
  show ?case by (rule exI [of _ False]) (simp add: freed_ok_def)
next
  case (Cons alt alts)
  show ?case
  proof (cases "alt = pos")
    case True
    with Cons show ?thesis by simp
  next
    case False
    from rec [of alt] Cons.prems obtain freed c' where r: "rec c alt = Some (freed, c')"
      and ok: "freed_ok el c alt freed c'" by auto
    show ?thesis
    proof (cases freed)
      case freed: True
      then have t: "tidies el c c'" and e: "blk_empty (cuckoo_slots c' ! alt)"
        using ok by (simp_all add: freed_ok_def)
      have n: "alt < ck_nitem c'" "pos < ck_nitem c'"
        using Cons.prems assms(3) tidies_nitem [OF t] by simp_all
      have "freed_ok el c' pos True (moved c' pos alt)"
        by (rule freed_ok_moved [OF tidies_wf [OF t] n(2,1) False e])
      with t have "freed_ok el c pos True (moved c' pos alt)"
        by (auto simp: freed_ok_def intro: tidies_trans)
      with r freed False n show ?thesis
        by (simp add: displaced_view cuckoo_wf_shape [OF tidies_wf [OF t]])
    next
      case False
      with ok r Cons show ?thesis by (simp add: freed_ok_def)
    qed
  qed
qed

text \<open>The search, by what it finds: nothing to do, an expired occupant, or a live occupant to move.\<close>

lemma displace_within_simps:
  assumes "cuckoo_wf c" and "pos < ck_nitem c"
  shows "blk_empty (cuckoo_slots c ! pos) \<Longrightarrow> displace_within r el c pos = Some (True, c)"
    and "blk_expired el (cuckoo_slots c ! pos) \<Longrightarrow>
         displace_within r el c pos = Some (True, expire_slot c pos)"
    and "blk_live el (cuckoo_slots c ! pos) \<Longrightarrow> displace_within 0 el c pos = Some (False, c)"
    and "blk_live el (cuckoo_slots c ! pos) \<Longrightarrow> displace_within (Suc r) el c pos =
         (let alts = positions c (blk_key (cuckoo_slots c ! pos)) in
          do { (done, c) \<leftarrow> displace_direct el c pos alts;
               if done then Some (True, c) else displace_via (displace_within r el) c pos alts })"
proof -
  note v = slot_is_empty_view [OF cuckoo_wf_shape [OF assms(1)] assms(2)]
    slot_is_expired_view [OF cuckoo_wf_shape [OF assms(1)] assms(2)]
    handle_expired_view [OF cuckoo_wf_shape [OF assms(1)] assms(2)]
  have ne: "blk_expired el b \<Longrightarrow> \<not> blk_empty b" for b
    by (auto simp: blk_expired_def blk_empty_def Let_def)
  show "blk_empty (cuckoo_slots c ! pos) \<Longrightarrow> displace_within r el c pos = Some (True, c)"
    by (cases r) (simp_all add: v)
  show "blk_expired el (cuckoo_slots c ! pos) \<Longrightarrow>
         displace_within r el c pos = Some (True, expire_slot c pos)"
    by (cases r) (simp_all add: v ne)
  show "blk_live el (cuckoo_slots c ! pos) \<Longrightarrow> displace_within 0 el c pos = Some (False, c)"
    by (simp add: v blk_live_def)
  show "blk_live el (cuckoo_slots c ! pos) \<Longrightarrow> displace_within (Suc r) el c pos =
         (let alts = positions c (blk_key (cuckoo_slots c ! pos)) in
          do { (done, c) \<leftarrow> displace_direct el c pos alts;
               if done then Some (True, c) else displace_via (displace_within r el) c pos alts })"
    by (simp add: v blk_live_def slot_key_view [OF assms])
qed

lemma displace_within_done:
  assumes "cuckoo_wf c" and "pos < ck_nitem c" and "\<not> blk_live el (cuckoo_slots c ! pos)"
  shows "\<exists>freed c'. displace_within r el c pos = Some (freed, c') \<and> freed_ok el c pos freed c'"
proof (cases "blk_empty (cuckoo_slots c ! pos)")
  case True
  with displace_within_simps(1) [OF assms(1,2) True] assms(1) show ?thesis
    by (auto simp: freed_ok_def intro: tidies_refl simp del: displace_within.simps)
next
  case False
  with assms(3) have x: "blk_expired el (cuckoo_slots c ! pos)" by (simp add: blk_live_def)
  have "tidies el c (expire_slot c pos)"
    by (rule tidies_expire_slot [OF assms(1,2) x])
  with displace_within_simps(2) [OF assms(1,2) x] expire_slot_empties [of c pos] assms(1,2)
  show ?thesis by (auto simp: freed_ok_def cuckoo_wf_shape simp del: displace_within.simps)
qed

lemma displace_within_ok:
  "cuckoo_wf c \<Longrightarrow> pos < ck_nitem c \<Longrightarrow>
   \<exists>freed c'. displace_within r el c pos = Some (freed, c') \<and> freed_ok el c pos freed c'"
proof (induction r arbitrary: c pos)
  case 0
  show ?case
  proof (cases "blk_live el (cuckoo_slots c ! pos)")
    case True
    with 0 have "displace_within 0 el c pos = Some (False, c)" by (rule displace_within_simps(3))
    then show ?thesis by (auto simp: freed_ok_def simp del: displace_within.simps)
  next
    case False
    with displace_within_done [OF 0] show ?thesis by blast
  qed
next
  case (Suc r)
  show ?case
  proof (cases "blk_live el (cuckoo_slots c ! pos)")
    case True
    let ?alts = "positions c (blk_key (cuckoo_slots c ! pos))"
    have b: "\<forall>alt \<in> set ?alts. alt < ck_nitem c"
      using positions_bound [OF cuckoo_wf_shape [OF Suc.prems(1)]] by blast
    have via: "\<exists>freed c'. displace_via (displace_within r el) c pos ?alts = Some (freed, c')
        \<and> freed_ok el c pos freed c'"
      by (rule displace_via_ok [OF _ Suc.prems b]) (use Suc in simp)
    from displace_direct_cases [OF Suc.prems b, of el] via show ?thesis
      unfolding displace_within_simps(4) [OF Suc.prems True] Let_def
      by (elim disjE)
         (use Suc.prems b in \<open>auto simp: freed_ok_moved freed_ok_expire_moved\<close>)
  next
    case False
    with displace_within_done [OF Suc.prems] show ?thesis by blast
  qed
qed

lemma try_displace_loop_ok:
  assumes "cuckoo_wf c" and "\<forall>p \<in> set ps. p < ck_nitem c"
  shows "\<exists>r c'. try_displace_loop el c k ps = Some (r, c') \<and>
    (case r of None \<Rightarrow> c' = c
     | Some idx \<Rightarrow> k \<le> idx \<and> idx < k + length ps
         \<and> displace_from el c (ps ! (idx - k)) 0 = Some (True, c')
         \<and> freed_ok el c (ps ! (idx - k)) True c')"
  using assms
proof (induction ps arbitrary: k)
  case Nil
  then show ?case by simp
next
  case (Cons p ps)
  then obtain freed c' where d: "displace_from el c p 0 = Some (freed, c')"
    and ok: "freed_ok el c p freed c'"
    using displace_within_ok [of c p "ck_max_displace c" el] by (auto simp: displace_from_def)
  show ?case
  proof (cases freed)
    case True
    with d ok show ?thesis by simp
  next
    case False
    with ok have "c' = c" by (simp add: freed_ok_def)
    moreover obtain r c'' where "try_displace_loop el c (k + 1) ps = Some (r, c'')"
      and "case r of None \<Rightarrow> c'' = c
       | Some idx \<Rightarrow> k + 1 \<le> idx \<and> idx < k + 1 + length ps
         \<and> displace_from el c (ps ! (idx - (k + 1))) 0 = Some (True, c'')
         \<and> freed_ok el c (ps ! (idx - (k + 1))) True c''"
      using Cons.IH [of "k + 1"] Cons.prems by auto
    ultimately show ?thesis
      using d False by (auto simp: nth_Cons split: option.splits nat.splits)
        (metis Suc_diff_Suc Suc_le_eq diff_Suc_Suc diff_diff_left nat.inject plus_1_eq_Suc)+
  qed
qed

section \<open>Placement\<close>

text \<open>Every item lies in one of the candidate slots of its key, where \<^verbatim>\<open>get\<close> and \<^verbatim>\<open>delete\<close> look for it.\<close>

definition home :: "cuckoo_cache \<Rightarrow> u8 list \<Rightarrow> nat set" where
  "home c b = set (positions c (blk_key b))"

definition placed :: "cuckoo_cache \<Rightarrow> bool" where
  "placed c \<longleftrightarrow>
     (\<forall>i < ck_nitem c. \<not> blk_empty (cuckoo_slots c ! i) \<longrightarrow> i \<in> home c (cuckoo_slots c ! i))"

text \<open>A slot whose occupant has no free alternative.\<close>

definition stuck :: "u32 \<Rightarrow> cuckoo_cache \<Rightarrow> nat \<Rightarrow> bool" where
  "stuck el c q \<longleftrightarrow> blk_live el (cuckoo_slots c ! q)
     \<and> (\<forall>a \<in> home c (cuckoo_slots c ! q). a \<noteq> q \<longrightarrow> blk_live el (cuckoo_slots c ! a))"

lemma placed_set_slot:
  assumes "placed c" and "cuckoo_shape c" and "i < ck_nitem c" and "length b = ck_item_size c"
    and "blk_empty b \<or> i \<in> home c b"
  shows "placed (set_slot c i b)"
  using assms by (auto simp: placed_def home_def cuckoo_slots_set_slot nth_list_update)

lemma placed_count [simp]: "placed (ck_count f c) = placed c"
  by (simp add: placed_def home_def)

lemma placed_remove_item:
  "placed c \<Longrightarrow> cuckoo_shape c \<Longrightarrow> i < ck_nitem c \<Longrightarrow> placed (remove_item f c i)"
  unfolding remove_item_def by (rule placed_set_slot) (simp_all add: blk_empty_zero_block)

lemma placed_moved:
  assumes "placed c" and "cuckoo_shape c" and "i < ck_nitem c" and "j < ck_nitem c"
    and "blk_empty (cuckoo_slots c ! i) \<or> j \<in> home c (cuckoo_slots c ! i)"
  shows "placed (moved c i j)"
  unfolding moved_def placed_count
  using assms by (intro placed_set_slot) (simp_all add: length_slot blk_empty_zero_block)

lemma moved_frame:
  "cuckoo_shape c \<Longrightarrow> i < ck_nitem c \<Longrightarrow> j < ck_nitem c \<Longrightarrow> k \<noteq> i \<Longrightarrow> k \<noteq> j \<Longrightarrow>
   cuckoo_slots (moved c i j) ! k = cuckoo_slots c ! k"
  by (simp add: cuckoo_slots_moved)

lemma expire_slot_frame:
  "cuckoo_shape c \<Longrightarrow> i < ck_nitem c \<Longrightarrow> k \<noteq> i \<Longrightarrow>
   cuckoo_slots (expire_slot c i) ! k = cuckoo_slots c ! k"
  by (simp add: expire_slot_def cuckoo_slots_remove_item)

lemma expire_slot_fields [simp]:
  "ck_nitem (expire_slot c i) = ck_nitem c" "positions (expire_slot c i) = positions c"
  by (simp_all add: expire_slot_def)

lemma placed_expire_slot:
  "placed c \<Longrightarrow> cuckoo_shape c \<Longrightarrow> i < ck_nitem c \<Longrightarrow> placed (expire_slot c i)"
  by (simp add: expire_slot_def placed_remove_item)

text \<open>The second loop only searches below candidates, and its success names the one it used.\<close>

lemma displace_via_cong:
  assumes "displace_via rec c pos alts = Some (True, c')" and "\<forall>alt \<in> set alts. P c alt"
    and "\<And>alt c1. P c alt \<Longrightarrow> rec c alt = Some (False, c1) \<Longrightarrow> c1 = c"
  shows "displace_via (\<lambda>c a. if P c a then rec c a else None) c pos alts = Some (True, c')"
  using assms(1,2)
proof (induction alts)
  case (Cons a alts)
  then show ?case
    using assms(3) by (fastforce split: if_splits Option.bind_splits)
qed simp

lemma displace_via_True:
  assumes "displace_via rec c pos alts = Some (True, c')"
    and "\<And>alt c1. rec c alt = Some (False, c1) \<Longrightarrow> c1 = c"
  obtains alt c1 where "alt \<in> set alts" "alt \<noteq> pos" "rec c alt = Some (True, c1)"
    "displaced c1 pos alt = Some (True, c')"
  using assms
proof (induction alts)
  case Nil
  then show ?case by simp
next
  case (Cons a alts)
  from Cons.prems(2) consider "displace_via rec c pos alts = Some (True, c')"
    | c1 where "a \<noteq> pos" "rec c a = Some (True, c1)" "displaced c1 pos a = Some (True, c')"
    using Cons.prems(3) by (fastforce split: if_splits Option.bind_splits)
  then show ?case
  proof cases
    case 1
    show ?thesis by (rule Cons.IH [OF _ 1 Cons.prems(3)]) (rule Cons.prems(1), auto)
  next
    case (2 c1)
    then show ?thesis by (intro Cons.prems(1) [of a c1]) auto
  qed
qed

text \<open>
  How a successful search on a live slot ended: its occupant went straight to an alternative that was
  empty or expired, or to one freed by the search one level down.
\<close>

lemma displace_within_Suc_cases:
  assumes d: "displace_within (Suc r) el c p = Some (True, c')"
    and wf: "cuckoo_wf c" and p: "p < ck_nitem c" and lv: "blk_live el (cuckoo_slots c ! p)"
  obtains (empty) alt where "alt \<in> home c (cuckoo_slots c ! p)" "alt \<noteq> p"
      "blk_empty (cuckoo_slots c ! alt)" "c' = moved c p alt"
  | (expired) alt where "alt \<in> home c (cuckoo_slots c ! p)" "alt \<noteq> p"
      "blk_expired el (cuckoo_slots c ! alt)" "c' = moved (expire_slot c alt) p alt"
  | (via) alt c1 where "alt \<in> home c (cuckoo_slots c ! p)" "alt \<noteq> p" "stuck el c p"
      "displace_within r el c alt = Some (True, c1)" "tidies el c c1" "c' = moved c1 p alt"
proof -
  let ?alts = "positions c (blk_key (cuckoo_slots c ! p))"
  have b: "\<forall>alt \<in> set ?alts. alt < ck_nitem c"
    using positions_bound [OF cuckoo_wf_shape [OF wf]] by blast
  note unf = displace_within_simps(4) [OF wf p lv, of r]
  from displace_direct_cases [OF wf p b, of el] show ?thesis
  proof (elim disjE)
    assume "\<exists>alt \<in> set ?alts. alt \<noteq> p \<and> blk_empty (cuckoo_slots c ! alt)
            \<and> displace_direct el c p ?alts = Some (True, moved c p alt)"
    with d empty show ?thesis unfolding unf by (auto simp: home_def)
  next
    assume "\<exists>alt \<in> set ?alts. alt \<noteq> p \<and> blk_expired el (cuckoo_slots c ! alt)
            \<and> displace_direct el c p ?alts = Some (True, moved (expire_slot c alt) p alt)"
    with d expired show ?thesis unfolding unf by (auto simp: home_def)
  next
    assume s: "(\<forall>alt \<in> set ?alts. alt \<noteq> p \<longrightarrow> blk_live el (cuckoo_slots c ! alt))
            \<and> displace_direct el c p ?alts = Some (False, c)"
    with d have v: "displace_via (displace_within r el) c p ?alts = Some (True, c')"
      unfolding unf by simp
    have un: "c1 = c" if "displace_within r el c alt = Some (False, c1)" "alt < ck_nitem c" for alt c1
      using displace_within_ok [OF wf that(2), of r el] that(1) by (auto simp: freed_ok_def)
    have "displace_via (\<lambda>c a. if a < ck_nitem c then displace_within r el c a else None) c p ?alts
        = Some (True, c')"
      using v b by (rule displace_via_cong) (rule un)
    then obtain alt c1 where a: "alt \<in> set ?alts" "alt \<noteq> p"
      and w: "displace_within r el c alt = Some (True, c1)"
      and m: "displaced c1 p alt = Some (True, c')"
      by (rule displace_via_True) (auto split: if_splits dest: un)
    have t: "tidies el c c1"
      using displace_within_ok [OF wf, of alt r el] w a b by (auto simp: freed_ok_def)
    have "c' = moved c1 p alt"
      using m a b p t by (simp add: displaced_view tidies_nitem cuckoo_wf_shape [OF tidies_wf [OF t]])
    with via a w t s lv show ?thesis by (auto simp: home_def stuck_def)
  qed
qed

lemma live_not:
  "blk_live el b \<Longrightarrow> \<not> blk_empty b" "blk_live el b \<Longrightarrow> \<not> blk_expired el b"
  "\<not> blk_live el b \<Longrightarrow> \<not> blk_empty b \<Longrightarrow> blk_expired el b"
  by (auto simp: blk_live_def)

lemma stuck_within:
  assumes "stuck el c q" and "cuckoo_wf c" and "q < ck_nitem c" and "r \<le> 1"
  shows "displace_within r el c q \<noteq> Some (True, c')"
proof
  assume d: "displace_within r el c q = Some (True, c')"
  have lv: "blk_live el (cuckoo_slots c ! q)"
    and alts: "\<And>a. a \<in> home c (cuckoo_slots c ! q) \<Longrightarrow> a \<noteq> q \<Longrightarrow> blk_live el (cuckoo_slots c ! a)"
    using assms(1) by (auto simp: stuck_def)
  show False
  proof (cases r)
    case 0
    with d displace_within_simps(3) [OF assms(2,3) lv] show False
      by (simp del: displace_within.simps)
  next
    case (Suc r')
    with assms(4) have r: "r = Suc 0" by simp
    from d [unfolded r] assms(2,3) lv show False
    proof (cases rule: displace_within_Suc_cases)
      case (via alt c1)
      then have "alt < ck_nitem c"
        by (auto simp: home_def intro: positions_bound cuckoo_wf_shape [OF assms(2)])
      with via displace_within_simps(3) [OF assms(2) _ alts] show False
        by (auto simp del: displace_within.simps)
    qed (use alts live_not in blast)+
  qed
qed

lemma home_bound: "cuckoo_shape c \<Longrightarrow> a \<in> home c b \<Longrightarrow> a < ck_nitem c"
  by (auto simp: home_def intro: positions_bound)

text \<open>A search on a slot that is not live touches that slot only.\<close>

lemma displace_within_not_live:
  assumes "displace_within r el c p = Some (True, c')" and "cuckoo_wf c" and "p < ck_nitem c"
    and "\<not> blk_live el (cuckoo_slots c ! p)"
  shows "c' = c \<or> c' = expire_slot c p"
proof (cases "blk_empty (cuckoo_slots c ! p)")
  case True
  with assms displace_within_simps(1) [OF assms(2,3)] show ?thesis
    by (simp del: displace_within.simps)
next
  case False
  with assms live_not(3) displace_within_simps(2) [OF assms(2,3)] show ?thesis
    by (simp del: displace_within.simps)
qed

text \<open>A search of at most two levels does not disturb another slot that is stuck.\<close>

lemma displace_within_keeps:
  assumes "displace_within r el c p = Some (True, c')" and "r \<le> 2" and wf: "cuckoo_wf c"
    and p: "p < ck_nitem c" and q: "q < ck_nitem c" "q \<noteq> p" "stuck el c q"
  shows "cuckoo_slots c' ! q = cuckoo_slots c ! q"
  using assms(1,2) p q(2)
proof (induction r arbitrary: p c')
  case 0
  note sh = cuckoo_wf_shape [OF wf]
  show ?case
    using displace_within_not_live [OF "0.prems"(1) wf "0.prems"(3)]
      displace_within_simps(3) [OF wf "0.prems"(3)] "0.prems"
    by (cases "blk_live el (cuckoo_slots c ! p)")
       (auto simp: expire_slot_frame sh simp del: displace_within.simps)
next
  case (Suc r)
  note sh = cuckoo_wf_shape [OF wf]
  have ql: "blk_live el (cuckoo_slots c ! q)" using q(3) by (simp add: stuck_def)
  show ?case
  proof (cases "blk_live el (cuckoo_slots c ! p)")
    case False
    from displace_within_not_live [OF Suc.prems(1) wf Suc.prems(3) False] Suc.prems
    show ?thesis by (auto simp: expire_slot_frame sh)
  next
    case True
    from Suc.prems(1) wf Suc.prems(3) True show ?thesis
    proof (cases rule: displace_within_Suc_cases)
      case (empty alt)
      with ql have "q \<noteq> alt" by (auto dest: live_not)
      with empty Suc.prems sh show ?thesis by (simp add: moved_frame home_bound)
    next
      case (expired alt)
      then have alt: "alt < ck_nitem c" using sh by (auto intro: home_bound)
      from expired ql have "q \<noteq> alt" by (auto dest: live_not)
      moreover have "cuckoo_shape (expire_slot c alt)"
        using tidies_wf [OF tidies_expire_slot [OF wf alt expired(3)]] by (rule cuckoo_wf_shape)
      ultimately show ?thesis
        using expired Suc.prems sh alt by (simp add: moved_frame expire_slot_frame)
    next
      case (via alt c1)
      then have alt: "alt < ck_nitem c" using sh by (auto intro: home_bound)
      have "alt \<noteq> q"
        using stuck_within [OF q(3) wf q(1), of r c1] via Suc.prems(2) by auto
      with Suc.IH [OF via(4) _ alt] Suc.prems(2) have "cuckoo_slots c1 ! q = cuckoo_slots c ! q"
        by simp
      with via Suc.prems \<open>alt \<noteq> q\<close> alt show ?thesis
        by (simp add: moved_frame cuckoo_wf_shape [OF tidies_wf [OF via(5)]] tidies_nitem)
    qed
  qed
qed

text \<open>A search of three levels can bring the searched slot's own occupant into the stuck slot, not more.\<close>

lemma displace_within_swaps:
  assumes d: "displace_within r el c p = Some (True, c')" and "r \<le> 3" and wf: "cuckoo_wf c"
    and p: "p < ck_nitem c" and q: "q < ck_nitem c" "q \<noteq> p" "stuck el c q"
    and pl: "blk_live el (cuckoo_slots c ! p)"
  shows "cuckoo_slots c' ! q = cuckoo_slots c ! q \<or> cuckoo_slots c' ! q = cuckoo_slots c ! p"
proof (cases "r \<le> 2")
  case True
  with displace_within_keeps [OF d True wf p q] show ?thesis by simp
next
  case False
  with assms(2) have r: "r = Suc 2" by simp
  note sh = cuckoo_wf_shape [OF wf]
  from d [unfolded r] wf p pl show ?thesis
  proof (cases rule: displace_within_Suc_cases)
    case (empty alt)
    with q have "q \<noteq> alt" by (auto simp: stuck_def dest: live_not)
    with empty p q sh show ?thesis by (simp add: moved_frame home_bound)
  next
    case (expired alt)
    then have alt: "alt < ck_nitem c" using sh by (auto intro: home_bound)
    from expired q have "q \<noteq> alt" by (auto simp: stuck_def dest: live_not)
    moreover have "cuckoo_shape (expire_slot c alt)"
      using tidies_wf [OF tidies_expire_slot [OF wf alt expired(3)]] by (rule cuckoo_wf_shape)
    ultimately show ?thesis
      using expired p q sh alt by (simp add: moved_frame expire_slot_frame)
  next
    case (via alt c1)
    then have alt: "alt < ck_nitem c" using sh by (auto intro: home_bound)
    have n: "ck_nitem c1 = ck_nitem c" and sh1: "cuckoo_shape c1"
      using via(5) by (simp_all add: tidies_nitem cuckoo_wf_shape tidies_wf)
    show ?thesis
    proof (cases "alt = q")
      case True
      have "cuckoo_slots c1 ! p = cuckoo_slots c ! p"
        using displace_within_keeps [OF via(4) _ wf alt p] via True by simp
      with via True p q n sh1 show ?thesis by (simp add: cuckoo_slots_moved)
    next
      case False
      have "cuckoo_slots c1 ! q = cuckoo_slots c ! q"
        using displace_within_keeps [OF via(4) _ wf alt q(1) _ q(3)] False by simp
      with via False p q n alt sh1 show ?thesis by (simp add: moved_frame)
    qed
  qed
qed

lemma displace_within_placed:
  assumes "displace_within r el c p = Some (True, c')" and "r \<le> 4" and wf: "cuckoo_wf c"
    and "p < ck_nitem c" and pl: "placed c"
  shows "placed c'"
  using assms(1,2,4)
proof (induction r arbitrary: p c')
  case 0
  with wf pl displace_within_not_live [OF "0.prems"(1) wf "0.prems"(3)]
    displace_within_simps(3) [OF wf "0.prems"(3), of el]
  show ?case
    by (cases "blk_live el (cuckoo_slots c ! p)")
       (auto simp: placed_expire_slot cuckoo_wf_shape simp del: displace_within.simps)
next
  case (Suc r)
  note sh = cuckoo_wf_shape [OF wf]
  show ?case
  proof (cases "blk_live el (cuckoo_slots c ! p)")
    case False
    from displace_within_not_live [OF Suc.prems(1) wf Suc.prems(3) False] wf pl Suc.prems
    show ?thesis by (auto simp: placed_expire_slot sh)
  next
    case live: True
    from Suc.prems(1) wf Suc.prems(3) live show ?thesis
    proof (cases rule: displace_within_Suc_cases)
      case (empty alt)
      with pl sh Suc.prems show ?thesis by (simp add: placed_moved home_bound)
    next
      case (expired alt)
      then have alt: "alt < ck_nitem c" using sh by (auto intro: home_bound)
      have "cuckoo_shape (expire_slot c alt)"
        using tidies_wf [OF tidies_expire_slot [OF wf alt expired(3)]] by (rule cuckoo_wf_shape)
      with expired pl sh alt Suc.prems show ?thesis
        by (simp add: placed_moved placed_expire_slot expire_slot_frame home_def)
    next
      case (via alt c1)
      then have alt: "alt < ck_nitem c" using sh by (auto intro: home_bound)
      have altl: "blk_live el (cuckoo_slots c ! alt)" using via by (auto simp: stuck_def)
      have home: "home c1 = home c"
        using tidies_positions [OF via(5)] by (simp add: home_def fun_eq_iff)
      have "cuckoo_slots c1 ! p = cuckoo_slots c ! p \<or> cuckoo_slots c1 ! p = cuckoo_slots c ! alt"
        using displace_within_swaps [OF via(4) _ wf alt Suc.prems(3) _ via(3) altl] via Suc.prems(2)
        by simp
      moreover have "alt \<in> home c (cuckoo_slots c ! alt)"
        using pl alt live_not(1) [OF altl] by (simp add: placed_def)
      ultimately have "alt \<in> home c1 (cuckoo_slots c1 ! p)" using via(1) home by auto
      moreover have "placed c1" using Suc.IH [OF via(4) _ alt] Suc.prems(2) by simp
      ultimately show ?thesis
        using via Suc.prems(3) alt
        by (simp add: placed_moved cuckoo_wf_shape [OF tidies_wf [OF via(5)]] tidies_nitem)
    qed
  qed
qed

end
