(* ===== verification/CuckooProps.thy ===== *)
theory CuckooProps
  imports CuckooDisplace
begin

text \<open>
  The operations of the cuckoo cache on the slot view, and the properties of its interface: no operation
  faults, lookups return what was inserted, an insertion loses at most one live item, and the gauges count
  exactly the occupied slots.
\<close>

section \<open>Candidate scans\<close>

lemma find_first_view:
  "\<forall>p \<in> set ps. test p = Some (P p) \<Longrightarrow> find_first test ps = Some (List.find P ps)"
  by (induction ps) auto

lemma key_at_view:
  assumes "cuckoo_wf c" and "p < ck_nitem c"
  shows "key_at c key p =
    Some (\<not> blk_empty (cuckoo_slots c ! p) \<and> blk_key (cuckoo_slots c ! p) = key)"
  using assms by (simp add: key_at_def slot_is_empty_view cuckoo_wf_shape slot_key_view)

lemma live_key_at_view:
  assumes "cuckoo_wf c" and "p < ck_nitem c"
  shows "live_key_at el c key p =
    Some (blk_live el (cuckoo_slots c ! p) \<and> blk_key (cuckoo_slots c ! p) = key)"
  using assms by (simp add: live_key_at_def slot_is_empty_view slot_is_expired_view cuckoo_wf_shape
      slot_key_view blk_live_def)

lemma find_live_key_view:
  assumes "cuckoo_wf c"
  shows "find_first (live_key_at el c key) (positions c key') =
    Some (List.find (\<lambda>p. blk_live el (cuckoo_slots c ! p) \<and> blk_key (cuckoo_slots c ! p) = key)
      (positions c key'))"
  by (rule find_first_view)
     (auto intro!: live_key_at_view [OF assms] positions_bound [OF cuckoo_wf_shape [OF assms]])

lemma find_key_view:
  assumes "cuckoo_wf c"
  shows "find_first (key_at c key) (positions c key') =
    Some (List.find (\<lambda>p. \<not> blk_empty (cuckoo_slots c ! p) \<and> blk_key (cuckoo_slots c ! p) = key)
      (positions c key'))"
  by (rule find_first_view)
     (auto intro!: key_at_view [OF assms] positions_bound [OF cuckoo_wf_shape [OF assms]])

lemma find_empty_view:
  assumes "cuckoo_wf c"
  shows "find_first (slot_is_empty c) (positions c key) =
    Some (List.find (\<lambda>p. blk_empty (cuckoo_slots c ! p)) (positions c key))"
  by (rule find_first_view)
     (auto intro!: slot_is_empty_view cuckoo_wf_shape assms positions_bound)

lemma find_expired_view:
  assumes "cuckoo_wf c"
  shows "find_first (slot_is_expired el c) (positions c key) =
    Some (List.find (\<lambda>p. blk_expired el (cuckoo_slots c ! p)) (positions c key))"
  by (rule find_first_view)
     (auto intro!: slot_is_expired_view cuckoo_wf_shape assms positions_bound)

lemma find_SomeD: "List.find P xs = Some x \<Longrightarrow> x \<in> set xs \<and> P x"
  by (auto simp: find_Some_iff)

section \<open>Choosing a victim\<close>

lemma soonest_ok:
  assumes "cuckoo_shape c" and "\<forall>p \<in> set ps. p < ck_nitem c"
  defines "ex \<equiv> \<lambda>p. th_expire (blk_header (cuckoo_slots c ! p))"
  shows "\<exists>k. soonest c i best be ps = Some k \<and>
    ((k = best \<and> (\<forall>p \<in> set ps. be \<le> ex p)) \<or>
     (i \<le> k \<and> k < i + length ps \<and> ex (ps ! (k - i)) < be \<and> (\<forall>p \<in> set ps. ex (ps ! (k - i)) \<le> ex p)))"
  using assms(2)
proof (induction ps arbitrary: i best be)
  case Nil
  then show ?case by simp
next
  case (Cons p ps)
  have e: "slot_expire c p = Some (ex p)"
    using Cons.prems assms(1) by (simp add: slot_expire_view ex_def)
  have nth: "i + 1 \<le> k \<Longrightarrow> (p # ps) ! (k - i) = ps ! (k - (i + 1))" for k
    by (simp add: nth_Cons')
  show ?case
  proof (cases "ex p < be")
    case True
    obtain k where k: "soonest c (i + 1) i (ex p) ps = Some k"
      and c: "(k = i \<and> (\<forall>q \<in> set ps. ex p \<le> ex q)) \<or>
       (i + 1 \<le> k \<and> k < i + 1 + length ps \<and> ex (ps ! (k - (i + 1))) < ex p
         \<and> (\<forall>q \<in> set ps. ex (ps ! (k - (i + 1))) \<le> ex q))"
      using Cons by (metis list.set_intros(2))
    then have "i \<le> k \<and> k < i + length (p # ps) \<and> ex ((p # ps) ! (k - i)) < be
        \<and> (\<forall>q \<in> set (p # ps). ex ((p # ps) ! (k - i)) \<le> ex q)"
      using True nth by (elim disjE) auto
    with k e True show ?thesis by simp
  next
    case False
    obtain k where k: "soonest c (i + 1) best be ps = Some k"
      and c: "(k = best \<and> (\<forall>q \<in> set ps. be \<le> ex q)) \<or>
       (i + 1 \<le> k \<and> k < i + 1 + length ps \<and> ex (ps ! (k - (i + 1))) < be
         \<and> (\<forall>q \<in> set ps. ex (ps ! (k - (i + 1))) \<le> ex q))"
      using Cons by (metis list.set_intros(2))
    then have "(k = best \<and> (\<forall>q \<in> set (p # ps). be \<le> ex q)) \<or>
     (i \<le> k \<and> k < i + length (p # ps) \<and> ex ((p # ps) ! (k - i)) < be
        \<and> (\<forall>q \<in> set (p # ps). ex ((p # ps) ! (k - i)) \<le> ex q))"
      using False nth by (elim disjE) auto
    with k e False show ?thesis by simp
  qed
qed

lemma soonest_victim:
  assumes "cuckoo_shape c"
  shows "\<exists>k < D. soonest c 0 0 (- 1) (positions c key) = Some k \<and>
    (\<forall>p \<in> set (positions c key). th_expire (blk_header (cuckoo_slots c ! (positions c key ! k)))
        \<le> th_expire (blk_header (cuckoo_slots c ! p)))"
proof -
  have b: "\<forall>p \<in> set (positions c key). p < ck_nitem c"
    using positions_bound [OF assms] by blast
  have D: "0 < D" by (simp add: D_def)
  have top: "a \<le> x" if "- 1 \<le> x" for a x :: u32
    using that word_order.extremum_uniqueI by fastforce
  from soonest_ok [OF assms b, of 0 0 "- 1"] D show ?thesis
    by (fastforce intro: top)
qed

lemma select_victim_bound:
  assumes "cuckoo_shape c"
  shows "\<exists>k < D. select_victim rnd c (positions c key) = Some k"
proof (cases "ck_policy c")
  case Random
  then show ?thesis by (simp add: select_victim_def D_def)
next
  case Expire
  with soonest_victim [OF assms, of key] show ?thesis by (auto simp: select_victim_def)
qed

section \<open>The slot an insertion uses\<close>

text \<open>
  The invariant behind the interface: the shape, every item inside its slot and among its candidates,
  and a displacement limit for which displacement keeps that.
\<close>

definition cuckoo_ok :: "cuckoo_cache \<Rightarrow> bool" where
  "cuckoo_ok c \<longleftrightarrow> cuckoo_wf c \<and> placed c \<and> ck_max_displace c \<le> 4"

definition live_copy :: "u32 \<Rightarrow> cuckoo_cache \<Rightarrow> u8 list \<Rightarrow> bool" where
  "live_copy el c key \<longleftrightarrow> (\<exists>b. b \<in># live_items el c \<and> blk_key b = key)"

definition made_room :: "u32 \<Rightarrow> cuckoo_cache \<Rightarrow> nat list \<Rightarrow> nat \<Rightarrow> cuckoo_cache \<Rightarrow> bool" where
  "made_room el c ps pos c' \<longleftrightarrow> same_config c c' \<and> cuckoo_wf c' \<and> placed c'
     \<and> blk_empty (cuckoo_slots c' ! pos) \<and> occupied c' \<subseteq># occupied c \<and> (gauges_ok c \<longrightarrow> gauges_ok c')
     \<and> (live_items el c' = live_items el c
        \<or> (\<forall>q \<in> set ps. blk_live el (cuckoo_slots c ! q))
          \<and> live_items el c' = live_items el c - {#cuckoo_slots c ! pos#})"

lemma made_room_tidies:
  "tidies el c c' \<Longrightarrow> placed c' \<Longrightarrow> blk_empty (cuckoo_slots c' ! pos) \<Longrightarrow> made_room el c ps pos c'"
  by (simp add: made_room_def tidies_def)

lemma live_copy_candidates:
  assumes "cuckoo_wf c" and "placed c"
  shows "live_copy el c key \<longleftrightarrow> (\<exists>p \<in> set (positions c key).
    blk_live el (cuckoo_slots c ! p) \<and> blk_key (cuckoo_slots c ! p) = key)"
  using assms positions_bound [OF cuckoo_wf_shape [OF assms(1)]]
  by (fastforce simp: live_copy_def live_items_def in_occupied_iff placed_def home_def blk_live_def)

text \<open>The last two passes, reached when every candidate is live: displacement, then eviction.\<close>

lemma displace_or_evict:
  assumes wf: "cuckoo_wf c" and pl: "placed c" and md: "ck_max_displace c \<le> 4"
    and lv: "\<forall>q \<in> set (positions c key). blk_live el (cuckoo_slots c ! q)"
  defines "ps \<equiv> positions c key"
  shows "\<exists>pos c'. do {
     (p4, c) \<leftarrow> try_displace el c ps;
     case p4 of Some freed_idx \<Rightarrow> Some ((ps ! freed_idx, False), c)
     | None \<Rightarrow> do {
     victim_idx \<leftarrow> select_victim rnd c ps;
     let pos = ps ! victim_idx;
     c \<leftarrow> evict_at c pos;
     Some ((pos, False), c) } } = Some ((pos, False), c')
    \<and> pos \<in> set ps \<and> made_room el c ps pos c'"
proof -
  have sh: "cuckoo_shape c" using wf by (rule cuckoo_wf_shape)
  have b: "p \<in> set ps \<Longrightarrow> p < ck_nitem c" for p using positions_bound [OF sh] by (simp add: ps_def)
  obtain r c' where t: "try_displace el c ps = Some (r, c')"
    and rc: "case r of None \<Rightarrow> c' = c
       | Some idx \<Rightarrow> 0 \<le> idx \<and> idx < 0 + length ps
           \<and> displace_from el c (ps ! (idx - 0)) 0 = Some (True, c')
           \<and> freed_ok el c (ps ! (idx - 0)) True c'"
    using try_displace_loop_ok [OF wf, of ps el 0] b unfolding try_displace_def by blast
  show ?thesis
  proof (cases r)
    case (Some idx)
    with rc have idx: "ps ! idx \<in> set ps"
      and d: "displace_from el c (ps ! idx) 0 = Some (True, c')"
      and f: "freed_ok el c (ps ! idx) True c'" by auto
    have "placed c'"
      using displace_within_placed [OF d [unfolded displace_from_def] _ wf b [OF idx] pl] md
      by simp
    with f have "made_room el c ps (ps ! idx) c'"
      by (intro made_room_tidies) (simp_all add: freed_ok_def)
    with Some t idx show ?thesis by simp
  next
    case None
    with rc have c': "c' = c" by simp
    obtain k where k: "k < D" "select_victim rnd c ps = Some k"
      using select_victim_bound [OF sh] unfolding ps_def by blast
    then have pos: "ps ! k \<in> set ps" by (simp add: ps_def)
    then have ne: "\<not> blk_empty (cuckoo_slots c ! (ps ! k))"
      using lv live_not(1) unfolding ps_def by blast
    have "made_room el c ps (ps ! k) (evict_slot c (ps ! k))"
      using lv pos b [OF pos] wf pl sh ne
      by (simp add: made_room_def evict_slot_def same_config_def wf_remove_item ps_def [symmetric]
          placed_remove_item cuckoo_slots_remove_item blk_empty_zero_block live_items_def
          occupied_remove_item gauges_ok_remove_item)
    with None c' t k pos b [OF pos] sh show ?thesis by (simp add: evict_at_view Let_def)
  qed
qed

lemma find_slot_cases:
  assumes ok: "cuckoo_ok c"
  shows "\<exists>pos upd c'. find_slot_for_insert el rnd c key (positions c key) = Some ((pos, upd), c')
    \<and> pos \<in> set (positions c key)
    \<and> (if upd then c' = c \<and> List.find (\<lambda>p. blk_live el (cuckoo_slots c ! p)
            \<and> blk_key (cuckoo_slots c ! p) = key) (positions c key) = Some pos
       else \<not> live_copy el c key \<and> made_room el c (positions c key) pos c')"
proof -
  let ?ps = "positions c key"
  have wf: "cuckoo_wf c" and pl: "placed c" and md: "ck_max_displace c \<le> 4" and sh: "cuckoo_shape c"
    using ok by (simp_all add: cuckoo_ok_def cuckoo_wf_shape)
  note unf = find_slot_for_insert_def find_live_key_view [OF wf] find_empty_view [OF wf]
    find_expired_view [OF wf]
  show ?thesis
  proof (cases "List.find (\<lambda>p. blk_live el (cuckoo_slots c ! p)
            \<and> blk_key (cuckoo_slots c ! p) = key) ?ps")
    case (Some pos)
    then show ?thesis using find_SomeD [OF Some] by (simp add: unf)
  next
    case n1: None
    then have nl: "\<not> live_copy el c key"
      by (auto simp: live_copy_candidates [OF wf pl] find_None_iff)
    consider (empty) pos where "List.find (\<lambda>p. blk_empty (cuckoo_slots c ! p)) ?ps = Some pos"
      | (expired) pos where "List.find (\<lambda>p. blk_empty (cuckoo_slots c ! p)) ?ps = None"
        "List.find (\<lambda>p. blk_expired el (cuckoo_slots c ! p)) ?ps = Some pos"
      | (full) "List.find (\<lambda>p. blk_empty (cuckoo_slots c ! p)) ?ps = None"
        "List.find (\<lambda>p. blk_expired el (cuckoo_slots c ! p)) ?ps = None"
      by (metis not_None_eq)
    then show ?thesis
    proof cases
      case (empty pos)
      note p = find_SomeD [OF empty]
      have "made_room el c ?ps pos c"
        using p wf pl by (intro made_room_tidies tidies_refl) auto
      with empty n1 nl p show ?thesis by (simp add: unf)
    next
      case (expired pos)
      note p = find_SomeD [OF expired(2)]
      have pn: "pos < ck_nitem c" using p positions_bound [OF sh] by blast
      have "made_room el c ?ps pos (expire_slot c pos)"
        by (intro made_room_tidies tidies_expire_slot placed_expire_slot expire_slot_empties)
           (use p pn wf pl sh in auto)
      with expired n1 nl p pn show ?thesis by (simp add: unf handle_expired_view sh)
    next
      case full
      then have "\<forall>q \<in> set ?ps. blk_live el (cuckoo_slots c ! q)"
        by (auto simp: find_None_iff blk_live_def)
      from displace_or_evict [OF wf pl md this, of rnd] full n1 nl show ?thesis
        by (auto simp: unf)
    qed
  qed
qed

section \<open>Writing the item\<close>

lemma item_block_facts:
  assumes "tiny_representable key v"
    and "TINY_ITEM_HDR_SIZE + length key + size_of_value v \<le> ck_item_size c"
  shows "length (item_block c key v e) = ck_item_size c"
    and "blk_key (item_block c key v e) = key"
    and "blk_value (item_block c key v e) = v"
    and "th_expire (blk_header (item_block c key v e)) = e"
    and "blk_fits c (item_block c key v e)"
  using assms blk_need_encode [OF assms(1)]
  by (simp_all add: item_block_def blk_key_encode blk_value_encode blk_header_encode blk_fits_def
      tiny_representable_def)

lemma live_items_count [simp]: "live_items el (ck_count f c) = live_items el c"
  by (simp add: live_items_def)

lemma counted_view [simp]:
  "live_copy el (ck_count f c) key = live_copy el c key"
  "cuckoo_ok (ck_count f c) = cuckoo_ok c"
  "same_config (ck_count f c) c' = same_config c c'"
  "compute_expire el (ck_count f c) ttl = compute_expire el c ttl"
  "item_block (ck_count f c) = item_block c"
  "gauge_neutral f \<Longrightarrow> made_room el (ck_count f c) ps pos c' = made_room el c ps pos c'"
  by (simp_all add: live_copy_def cuckoo_ok_def same_config_def compute_expire_def item_block_def
      made_room_def fun_eq_iff)

lemma same_config_view:
  assumes "same_config c c'"
  shows "ck_nitem c' = ck_nitem c" "ck_item_size c' = ck_item_size c"
    "ck_max_displace c' = ck_max_displace c" "item_block c' = item_block c" "zero_block c' = zero_block c"
  using assms by (simp_all add: same_config_def item_block_def zero_block_def fun_eq_iff)

lemma find_slot_counted:
  assumes "cuckoo_ok c" and "gauge_neutral f"
  shows "\<exists>pos upd c'. find_slot_for_insert el rnd (ck_count f c) key (positions c key) = Some ((pos, upd), c')
    \<and> pos \<in> set (positions c key)
    \<and> (if upd then c' = ck_count f c \<and> List.find (\<lambda>p. blk_live el (cuckoo_slots c ! p)
            \<and> blk_key (cuckoo_slots c ! p) = key) (positions c key) = Some pos
       else \<not> live_copy el c key \<and> made_room el c (positions c key) pos c')"
  using find_slot_cases [of "ck_count f c" el rnd key] assms by (simp cong: if_cong)

text \<open>What \<^verbatim>\<open>insert\<close> does to the chosen slot, gauges included.\<close>

definition overwrite :: "cuckoo_cache \<Rightarrow> bool \<Rightarrow> nat \<Rightarrow> u8 list \<Rightarrow> cuckoo_cache" where
  "overwrite c upd i b = ck_count (add_item_gauges 1 (blk_klen b) (blk_vlen b))
    (set_slot (ck_count (if upd then (\<lambda>m. add_item_gauges (- 1) (- blk_klen (cuckoo_slots c ! i))
        (- blk_vlen (cuckoo_slots c ! i)) (m\<lparr>CUCKOO_UPDATE := CUCKOO_UPDATE m + 1\<rparr>)) else (\<lambda>m. m)) c) i b)"

lemma ck_count_id [simp]: "ck_count (\<lambda>m. m) c = c"
  by (simp add: ck_count_def)

lemma overwrite_eval:
  assumes sh: "cuckoo_shape c" and i: "i < ck_nitem c"
    and fit: "TINY_ITEM_HDR_SIZE + length key + size_of_value v \<le> ck_item_size c"
  shows "do {
      c \<leftarrow> (if upd
            then decrement_item_metrics (ck_count (\<lambda>m. m\<lparr>CUCKOO_UPDATE := CUCKOO_UPDATE m + 1\<rparr>) c) i
            else Some c);
      c \<leftarrow> write_slot c i key v e;
      c \<leftarrow> increment_item_metrics c i;
      Some (Inr (), c) } = Some (Inr (), overwrite c upd i (item_block c key v e))"
proof -
  have len: "length (item_block c key v e) = ck_item_size c"
    using fit by (simp add: item_block_def)
  show ?thesis
    using assms len
    by (simp add: decrement_item_metrics_view write_slot_view increment_item_metrics_view
        cuckoo_slots_set_slot overwrite_def)
qed

lemma overwrite_facts:
  assumes wf: "cuckoo_wf c" and pl: "placed c" and i: "i < ck_nitem c"
    and b: "length b = ck_item_size c" "\<not> blk_empty b" "blk_fits c b" "i \<in> home c b"
    and upd: "upd \<longleftrightarrow> \<not> blk_empty (cuckoo_slots c ! i)"
  shows "cuckoo_slots (overwrite c upd i b) = (cuckoo_slots c)[i := b]"
    and "same_config c (overwrite c upd i b)"
    and "cuckoo_wf (overwrite c upd i b)" and "placed (overwrite c upd i b)"
    and "occupied (overwrite c upd i b) =
           add_mset b (occupied c - (if upd then {#cuckoo_slots c ! i#} else {#}))"
    and "gauges_ok c \<Longrightarrow> gauges_ok (overwrite c upd i b)"
proof -
  note sh = cuckoo_wf_shape [OF wf]
  show occ: "occupied (overwrite c upd i b) =
      add_mset b (occupied c - (if upd then {#cuckoo_slots c ! i#} else {#}))"
    using assms sh by (simp add: occupied_set_slot overwrite_def)
  show "gauges_ok (overwrite c upd i b)" if "gauges_ok c"
  proof (cases upd)
    case True
    then obtain M where M: "occupied c = add_mset (cuckoo_slots c ! i) M"
      using slot_in_occupied [OF i] upd by (metis multi_member_split)
    show ?thesis
      using that True unfolding gauges_ok_def occ by (simp add: M add_item_gauges_def overwrite_def)
  next
    case False
    with that show ?thesis unfolding gauges_ok_def occ by (simp add: add_item_gauges_def overwrite_def)
  qed
qed (use assms cuckoo_wf_shape [OF wf] in \<open>simp_all add: overwrite_def cuckoo_slots_set_slot
      same_config_def wf_set_slot placed_set_slot home_def\<close>)

lemma insert_steps:
  assumes ok: "cuckoo_ok c" and rep: "tiny_representable key v"
    and fit: "TINY_ITEM_HDR_SIZE + length key + size_of_value v \<le> ck_item_size c"
    and nz: "compute_expire el c ttl \<noteq> 0"
  defines "b \<equiv> item_block c key v (compute_expire el c ttl)"
  shows "\<exists>pos upd c1 c'. cuckoo_insert el rnd c key v ttl = Some (Inr (), c')
    \<and> pos \<in> set (positions c key)
    \<and> (if upd then occupied c1 = occupied c \<and> cuckoo_slots c1 = cuckoo_slots c
           \<and> List.find (\<lambda>p. blk_live el (cuckoo_slots c ! p)
             \<and> blk_key (cuckoo_slots c ! p) = key) (positions c key) = Some pos
       else \<not> live_copy el c key \<and> made_room el c (positions c key) pos c1)
    \<and> cuckoo_slots c' = (cuckoo_slots c1)[pos := b] \<and> same_config c c' \<and> cuckoo_ok c'
    \<and> (gauges_ok c \<longrightarrow> gauges_ok c')
    \<and> occupied c' = add_mset b (occupied c1 - (if upd then {#cuckoo_slots c1 ! pos#} else {#}))"
proof -
  let ?f = "\<lambda>m. m\<lparr>CUCKOO_INSERT := CUCKOO_INSERT m + 1\<rparr>"
  obtain pos upd c1 where f: "find_slot_for_insert el rnd (ck_count ?f c) key (positions c key)
      = Some ((pos, upd), c1)"
    and pos: "pos \<in> set (positions c key)"
    and cs: "if upd then c1 = ck_count ?f c \<and> List.find (\<lambda>p. blk_live el (cuckoo_slots c ! p)
            \<and> blk_key (cuckoo_slots c ! p) = key) (positions c key) = Some pos
       else \<not> live_copy el c key \<and> made_room el c (positions c key) pos c1"
    using find_slot_counted [OF ok gauge_neutral_counters(5), of el rnd "\<lambda>m. CUCKOO_INSERT m + 1" key]
    by blast
  have cfg: "same_config c c1" and wf1: "cuckoo_wf c1" and pl1: "placed c1"
    and g1: "gauges_ok c \<Longrightarrow> gauges_ok c1"
    and upd: "upd \<longleftrightarrow> \<not> blk_empty (cuckoo_slots c1 ! pos)"
    using cs ok
    by (auto simp: made_room_def cuckoo_ok_def same_config_def dest: find_SomeD live_not split: if_splits)
  note cv = same_config_view [OF cfg]
  have p1: "pos < ck_nitem c1"
    using pos positions_bound [of c] ok cv by (auto simp: cuckoo_ok_def cuckoo_wf_shape)
  note bf = item_block_facts [OF rep fit, of "compute_expire el c ttl", folded b_def]
  have ne: "\<not> blk_empty b" using bf(4) nz by (simp add: blk_empty_def)
  have len: "length b = ck_item_size c1" and fits: "blk_fits c1 b" and home: "pos \<in> home c1 b"
    using bf pos cv same_config_positions [OF cfg] by (simp_all add: blk_fits_def home_def)
  note ow = overwrite_facts [OF wf1 pl1 p1 len ne fits home upd]
  have "cuckoo_insert el rnd c key v ttl = Some (Inr (), overwrite c1 upd pos b)"
    using overwrite_eval [OF cuckoo_wf_shape [OF wf1] p1, of key v upd "compute_expire el c ttl"]
      fit cv f unfolding cuckoo_insert_def b_def by (simp add: Let_def not_less)
  moreover have "same_config c (overwrite c1 upd pos b)"
    using ow(2) cfg by (simp add: same_config_def)
  moreover have "cuckoo_ok (overwrite c1 upd pos b)"
    using ow(2-4) ok cfg by (simp add: cuckoo_ok_def same_config_def)
  moreover have "if upd then occupied c1 = occupied c \<and> cuckoo_slots c1 = cuckoo_slots c
       \<and> List.find (\<lambda>p. blk_live el (cuckoo_slots c ! p)
            \<and> blk_key (cuckoo_slots c ! p) = key) (positions c key) = Some pos
       else \<not> live_copy el c key \<and> made_room el c (positions c key) pos c1"
    using cs by (auto split: if_splits)
  ultimately show ?thesis using pos ow(1,5,6) g1 by blast
qed

section \<open>Lookup and deletion\<close>

text \<open>The first candidate that holds the key, expired or not: what \<^verbatim>\<open>get\<close> and \<^verbatim>\<open>delete\<close> act on.\<close>

definition first_copy :: "cuckoo_cache \<Rightarrow> u8 list \<Rightarrow> nat option" where
  "first_copy c key = List.find (\<lambda>p. \<not> blk_empty (cuckoo_slots c ! p) \<and> blk_key (cuckoo_slots c ! p) = key)
     (positions c key)"

lemma first_copy_SomeD:
  assumes "first_copy c key = Some p" and "cuckoo_shape c"
  shows "p \<in> set (positions c key)" "p < ck_nitem c" "\<not> blk_empty (cuckoo_slots c ! p)"
    "blk_key (cuckoo_slots c ! p) = key"
  using find_SomeD [OF assms(1) [unfolded first_copy_def]] positions_bound [OF assms(2)] by auto

lemma first_copy_count [simp]: "first_copy (ck_count f c) key = first_copy c key"
  by (simp add: first_copy_def)

lemma find_first_copy:
  "cuckoo_wf c \<Longrightarrow> find_first (key_at (ck_count f c) key) (positions c key) = Some (first_copy c key)"
  using find_key_view [of "ck_count f c" key key] by (simp add: first_copy_def)

lemma placed_tidies_cong: "placed c \<Longrightarrow> cuckoo_slots c' = cuckoo_slots c \<Longrightarrow> same_config c c' \<Longrightarrow> placed c'"
  by (simp add: placed_def home_def same_config_positions) (simp add: same_config_def)

lemma expire_counted:
  assumes "cuckoo_wf c" and "p < ck_nitem c" and "blk_expired el (cuckoo_slots c ! p)"
    and "gauge_neutral f" and "gauge_neutral g"
  shows "tidies el c (ck_count g (expire_slot (ck_count f c) p))"
proof -
  have 1: "tidies el c (ck_count f c)" by (rule tidies_count) (use assms in simp_all)
  have 2: "tidies el (ck_count f c) (expire_slot (ck_count f c) p)"
    by (rule tidies_expire_slot) (use assms in simp_all)
  have 3: "tidies el (expire_slot (ck_count f c) p) (ck_count g (expire_slot (ck_count f c) p))"
    by (rule tidies_count) (use assms tidies_wf [OF 2] in simp_all)
  show ?thesis by (rule tidies_trans [OF tidies_trans [OF 1 2] 3])
qed

lemma expire_slot_counted:
  assumes "cuckoo_shape c" and "p < ck_nitem c"
  shows "placed c \<Longrightarrow> placed (expire_slot (ck_count f c) p)"
    and "cuckoo_slots (expire_slot (ck_count f c) p) = (cuckoo_slots c)[p := zero_block c]"
  using assms by (simp_all add: placed_remove_item expire_slot_def cuckoo_slots_remove_item)

lemma get_steps:
  assumes wf: "cuckoo_wf c"
  shows "\<exists>c'. cuckoo_get el c key = Some (Option.bind (first_copy c key)
      (\<lambda>p. if blk_expired el (cuckoo_slots c ! p) then None else Some p), c')
    \<and> tidies el c c' \<and> (placed c \<longrightarrow> placed c')
    \<and> cuckoo_slots c' = (case first_copy c key of None \<Rightarrow> cuckoo_slots c
        | Some p \<Rightarrow> if blk_expired el (cuckoo_slots c ! p) then (cuckoo_slots c)[p := zero_block c]
                    else cuckoo_slots c)"
proof -
  have t: "tidies el c (ck_count g c)" if "gauge_neutral g" for g
    by (rule tidies_count [OF wf that])
  have n: "gauge_neutral (\<lambda>m. (m\<lparr>CUCKOO_GET := a m\<rparr>)\<lparr>CUCKOO_GET_KEY_MISS := b m\<rparr>)"
    "gauge_neutral (\<lambda>m. (m\<lparr>CUCKOO_GET := a m\<rparr>)\<lparr>CUCKOO_GET_KEY_HIT := b m\<rparr>)" for a b
    by (simp_all add: gauge_neutral_def)
  note unf = cuckoo_get_def find_first_copy [OF wf] wf Let_def
  show ?thesis
  proof (cases "first_copy c key")
    case None
    then show ?thesis by (simp add: unf t n)
  next
    case (Some p)
    note p = first_copy_SomeD [OF Some cuckoo_wf_shape [OF wf]]
    show ?thesis
    proof (cases "blk_expired el (cuckoo_slots c ! p)")
      case True
      note x = expire_counted [OF wf p(2) True] expire_slot_counted [OF cuckoo_wf_shape [OF wf] p(2)]
      from Some True x p show ?thesis
        by (simp add: unf slot_is_expired_view handle_expired_view cuckoo_wf_shape)
    next
      case False
      with Some p show ?thesis by (simp add: unf slot_is_expired_view cuckoo_wf_shape t n)
    qed
  qed
qed

text \<open>Deletion removes the first copy; it reports whether that copy was still live.\<close>

lemma delete_steps:
  assumes wf: "cuckoo_wf c" and pl: "placed c"
  shows "\<exists>c'. cuckoo_delete el c key = Some (case first_copy c key of None \<Rightarrow> False
        | Some p \<Rightarrow> \<not> blk_expired el (cuckoo_slots c ! p), c')
    \<and> cuckoo_wf c' \<and> placed c' \<and> same_config c c' \<and> (gauges_ok c \<longrightarrow> gauges_ok c')
    \<and> occupied c' = (case first_copy c key of None \<Rightarrow> occupied c
        | Some p \<Rightarrow> occupied c - {#cuckoo_slots c ! p#})"
proof -
  note unf = cuckoo_delete_def find_first_copy [OF wf] wf Let_def
  note sh = cuckoo_wf_shape [OF wf]
  show ?thesis
  proof (cases "first_copy c key")
    case None
    then show ?thesis using wf pl by (simp add: unf same_config_def)
  next
    case (Some p)
    note p = first_copy_SomeD [OF Some sh]
    let ?f = "\<lambda>m. m\<lparr>CUCKOO_DELETE := CUCKOO_DELETE m + 1\<rparr>"
    have ne: "\<not> blk_empty (cuckoo_slots (ck_count ?f c) ! p)" using p by simp
    show ?thesis
    proof (cases "blk_expired el (cuckoo_slots c ! p)")
      case True
      have "cuckoo_delete el c key = Some (False, expire_slot (ck_count ?f c) p)"
        using Some True p by (simp add: unf slot_is_expired_view handle_expired_view sh)
      moreover have "gauges_ok c \<longrightarrow> gauges_ok (expire_slot (ck_count ?f c) p)"
        using p sh ne by (auto simp: expire_slot_def intro!: gauges_ok_remove_item)
      ultimately show ?thesis
        using Some True p sh wf pl ne
        by (simp add: expire_slot_def wf_remove_item placed_remove_item same_config_def
            occupied_remove_item)
    next
      case False
      have "cuckoo_delete el c key = Some (True, remove_item ?f c p)"
        using Some False p by (simp add: unf slot_is_expired_view sh decrement_item_metrics_view
            clear_slot_view remove_item_def)
      with Some False p sh wf pl show ?thesis
        by (simp add: wf_remove_item placed_remove_item same_config_def occupied_remove_item
            gauges_ok_remove_item)
    qed
  qed
qed

section \<open>Arithmetic\<close>

definition blk_with_u64 :: "u8 list \<Rightarrow> u64 \<Rightarrow> u8 list" where
  "blk_with_u64 b w = (let off = TINY_ITEM_HDR_SIZE + unat (th_klen (blk_header b)) in
     take off b @ be_bytes 8 w @ drop (off + 8) b)"

lemma blk_with_u64_facts:
  assumes "th_vlen (blk_header b) = 0" and "blk_need b \<le> length b"
  shows "length (blk_with_u64 b w) = length b"
    and "blk_header (blk_with_u64 b w) = blk_header b"
    and "blk_key (blk_with_u64 b w) = blk_key b"
    and "blk_value (blk_with_u64 b w) = U64 w"
proof -
  define off where "off = TINY_ITEM_HDR_SIZE + unat (th_klen (blk_header b))"
  have fit: "off + 8 \<le> length b" and six: "6 \<le> off"
    using assms by (simp_all add: blk_need_def off_def tiny_value_len_def TINY_ITEM_HDR_SIZE_def)
  have eq: "blk_with_u64 b w = take off b @ be_bytes 8 w @ drop (off + 8) b"
    by (simp add: blk_with_u64_def off_def Let_def)
  show "length (blk_with_u64 b w) = length b" using fit by (simp add: eq)
  show h: "blk_header (blk_with_u64 b w) = blk_header b"
    using fit six by (simp add: eq blk_header_def nth_append min_def)
  have "take (off - 6) (drop 6 (blk_with_u64 b w)) = take (off - 6) (drop 6 b)"
    using fit six by (simp add: eq drop_take)
  then show "blk_key (blk_with_u64 b w) = blk_key b"
    by (simp add: blk_key_def h off_def TINY_ITEM_HDR_SIZE_def)
  show "blk_value (blk_with_u64 b w) = U64 w"
    using assms(1) fit by (simp add: blk_value_def h off_def [symmetric] Let_def)
       (simp add: eq be_word_be_bytes_id)
qed

lemma tiny_update_slot:
  assumes wf: "cuckoo_wf c" and i: "i < ck_nitem c" and ne: "\<not> blk_empty (cuckoo_slots c ! i)"
  defines "b \<equiv> cuckoo_slots c ! i"
  shows "tiny_update f (ck_data c) (slot_offset c i) = Some (case blk_value b of
      Bytes _ \<Rightarrow> Inl NotNumericError
    | U64 w \<Rightarrow> Inr (ck_data (set_slot c i (blk_with_u64 b (f w)))))"
proof -
  note sh = cuckoo_wf_shape [OF wf]
  let ?n = "ck_item_size c" and ?o = "i * ck_item_size c"
  have v: "tiny_value (ck_data c) ?o = Some (blk_value b)"
    using item_value_view [OF wf i ne] by (simp add: item_value_def slot_offset_def b_def)
  have h: "tiny_klen (ck_data c) ?o = Some (th_klen (blk_header b))"
    using slot_header_view [OF sh i] by (simp add: tiny_klen_def slot_offset_def b_def)
  show ?thesis
  proof (cases "blk_value b")
    case (Bytes bs)
    then show ?thesis by (simp add: tiny_update_def slot_offset_def v)
  next
    case (U64 w)
    then have z: "th_vlen (blk_header b) = 0"
      by (auto simp: blk_value_def Let_def split: if_splits)
    define off where "off = TINY_ITEM_HDR_SIZE + unat (th_klen (blk_header b))"
    have fit: "off + 8 \<le> ?n"
      using blk_need_fits [OF wf i ne] z by (simp add: blk_need_def tiny_value_len_def off_def b_def)
    obtain pre old post where m: "ck_data c = pre @ old @ post" and len: "length pre = ?o" "length old = ?n"
      using memory_split [OF slot_fits [OF sh i]] .
    have b: "b = old" using i len by (simp add: b_def cuckoo_slots_nth m)
    have "store_bytes (ck_data c) (?o + off) (be_bytes 8 (f w)) =
        Some (pre @ blk_with_u64 b (f w) @ post)"
      using store_within [of off "be_bytes 8 (f w)" b pre post] fit len
      by (simp add: m b blk_with_u64_def off_def [symmetric, unfolded b] Let_def)
    then have "store_bytes (ck_data c) (?o + off) (be_bytes 8 (f w)) =
        Some (ck_data (set_slot c i (blk_with_u64 b (f w))))"
      using len by (simp add: set_slot_def m)
    with U64 show ?thesis
      by (simp add: tiny_update_def slot_offset_def v h off_def add.assoc)
  qed
qed

end
