(* ===== verification/CuckooSpec.thy ===== *)
theory CuckooSpec
  imports CuckooProps
begin

text \<open>
  The contract of the cuckoo cache. A cache and the map a client believes it holds are run side by side:
  whatever the operations and whatever is displaced, expired or evicted, a lookup returns either nothing
  or the value last stored under the key. The other properties say what an insertion may cost, that the
  value just stored is found, and where the code departs from what a client would expect.
\<close>

section \<open>Effect of the operations on the live items\<close>

lemma compute_expire_live: "compute_expire el c ttl = - 1 \<or> el \<le> compute_expire el c ttl"
  by (simp add: compute_expire_def Let_def le_saturating_add)

lemma item_block_live:
  assumes "tiny_representable key v"
    and "TINY_ITEM_HDR_SIZE + length key + size_of_value v \<le> ck_item_size c"
    and "compute_expire el c ttl \<noteq> 0"
  shows "blk_live el (item_block c key v (compute_expire el c ttl))"
  using item_block_facts(4) [OF assms(1,2), of "compute_expire el c ttl"] assms(3)
    compute_expire_live [of el c ttl]
  by (auto simp: blk_live_def blk_empty_def blk_expired_def Let_def)

lemma insert_live:
  assumes ok: "cuckoo_ok c" and rep: "tiny_representable key v"
    and fit: "TINY_ITEM_HDR_SIZE + length key + size_of_value v \<le> ck_item_size c"
    and nz: "compute_expire el c ttl \<noteq> 0"
  defines "b \<equiv> item_block c key v (compute_expire el c ttl)"
  shows "\<exists>c' lost. cuckoo_insert el rnd c key v ttl = Some (Inr (), c') \<and> cuckoo_ok c'
    \<and> (gauges_ok c \<longrightarrow> gauges_ok c')
    \<and> live_items el c' = add_mset b (live_items el c - lost) \<and> lost \<subseteq># live_items el c \<and> size lost \<le> 1
    \<and> (live_copy el c key \<longrightarrow> (\<exists>old. lost = {#old#} \<and> blk_key old = key))
    \<and> (\<not> live_copy el c key \<and> lost \<noteq> {#} \<longrightarrow>
         (\<forall>q \<in> set (positions c key). blk_live el (cuckoo_slots c ! q)))
    \<and> (lost \<noteq> {#} \<longrightarrow> (\<exists>q \<in> set (positions c key). lost = {#cuckoo_slots c ! q#}))"
proof -
  obtain pos upd c1 c' where ins: "cuckoo_insert el rnd c key v ttl = Some (Inr (), c')"
    and pos: "pos \<in> set (positions c key)"
    and cs: "if upd then occupied c1 = occupied c \<and> cuckoo_slots c1 = cuckoo_slots c
           \<and> List.find (\<lambda>p. blk_live el (cuckoo_slots c ! p)
             \<and> blk_key (cuckoo_slots c ! p) = key) (positions c key) = Some pos
       else \<not> live_copy el c key \<and> made_room el c (positions c key) pos c1"
    and ok': "cuckoo_ok c'" "gauges_ok c \<longrightarrow> gauges_ok c'"
    and occ: "occupied c' = add_mset b (occupied c1 - (if upd then {#cuckoo_slots c1 ! pos#} else {#}))"
    using insert_steps [OF ok rep fit nz, of rnd] unfolding b_def by blast
  have bl: "blk_live el b" unfolding b_def by (rule item_block_live [OF rep fit nz])
  have p: "pos < ck_nitem c"
    using pos ok positions_bound [of c] by (auto simp: cuckoo_ok_def cuckoo_wf_shape)
  have in_live: "cuckoo_slots c ! pos \<in># live_items el c" if "blk_live el (cuckoo_slots c ! pos)"
    using that slot_in_occupied [OF p] by (simp add: live_items_def blk_live_def)
  show ?thesis
  proof (cases upd)
    case True
    with cs have pl: "blk_live el (cuckoo_slots c ! pos)" "blk_key (cuckoo_slots c ! pos) = key"
      by (auto dest: find_SomeD)
    have "live_items el c' = add_mset b (live_items el c - {#cuckoo_slots c ! pos#})"
      using True cs occ bl pl by (simp add: live_items_def)
    moreover have "live_copy el c key" using in_live [OF pl(1)] pl(2) by (auto simp: live_copy_def)
    ultimately show ?thesis
      using ins ok' in_live pl pos by (intro exI [of _ c'] exI [of _ "{#cuckoo_slots c ! pos#}"]) auto
  next
    case False
    with cs have nl: "\<not> live_copy el c key" and room: "made_room el c (positions c key) pos c1" by auto
    have lv: "live_items el c' = add_mset b (live_items el c1)"
      using False occ bl by (simp add: live_items_def)
    from room consider "live_items el c1 = live_items el c"
      | "\<forall>q \<in> set (positions c key). blk_live el (cuckoo_slots c ! q)"
        "live_items el c1 = live_items el c - {#cuckoo_slots c ! pos#}"
      by (auto simp: made_room_def)
    then show ?thesis
    proof cases
      case 1
      with ins ok' lv nl show ?thesis by (intro exI [of _ c'] exI [of _ "{#}"]) simp
    next
      case 2
      with ins ok' lv nl pos in_live show ?thesis
        by (intro exI [of _ c'] exI [of _ "{#cuckoo_slots c ! pos#}"]) auto
    qed
  qed
qed

lemma insert_oversized:
  "ck_item_size c < TINY_ITEM_HDR_SIZE + length key + size_of_value v \<Longrightarrow>
   cuckoo_insert el rnd c key v ttl =
     Some (Inl (ItemOversized (TINY_ITEM_HDR_SIZE + length key + size_of_value v) (ck_item_size c)),
           ck_count (\<lambda>m. m\<lparr>CUCKOO_INSERT_EX := CUCKOO_INSERT_EX m + 1\<rparr>) c)"
  by (simp add: cuckoo_insert_def Let_def)

text \<open>The two arithmetic operations, for the function they apply; they refuse a live copy with a byte value.\<close>

definition bytes_copy :: "u32 \<Rightarrow> cuckoo_cache \<Rightarrow> u8 list \<Rightarrow> bool" where
  "bytes_copy el c key \<longleftrightarrow> (\<exists>q \<in> set (positions c key). blk_live el (cuckoo_slots c ! q)
     \<and> blk_key (cuckoo_slots c ! q) = key \<and> (\<exists>bs. blk_value (cuckoo_slots c ! q) = Bytes bs))"

lemma numeric_steps:
  assumes ok: "cuckoo_ok c"
  shows "\<exists>r c'. numeric_op (\<lambda>m off rhs. tiny_update (g rhs) m off) el c key rhs = Some (r, c')
    \<and> cuckoo_ok c' \<and> (gauges_ok c \<longrightarrow> gauges_ok c') \<and>
    (case r of
       Inl e \<Rightarrow> c' = c \<and> (e = NotFound \<longleftrightarrow> \<not> live_copy el c key) \<and> (e = NotFound \<or> e = NotNumeric)
         \<and> (e = NotNumeric \<longrightarrow> bytes_copy el c key)
     | Inr p \<Rightarrow> p < ck_nitem c \<and> blk_live el (cuckoo_slots c ! p) \<and> blk_key (cuckoo_slots c ! p) = key
         \<and> (\<exists>w. blk_value (cuckoo_slots c ! p) = U64 w
             \<and> cuckoo_slots c' = (cuckoo_slots c)[p := blk_with_u64 (cuckoo_slots c ! p) (g rhs w)]
             \<and> occupied c' = add_mset (blk_with_u64 (cuckoo_slots c ! p) (g rhs w))
                 (occupied c - {#cuckoo_slots c ! p#})))"
proof -
  have wf: "cuckoo_wf c" and pl: "placed c" and sh: "cuckoo_shape c"
    using ok by (auto simp: cuckoo_ok_def cuckoo_wf_shape)
  note unf = numeric_op_def find_live_key_view [OF wf]
  show ?thesis
  proof (cases "List.find (\<lambda>p. blk_live el (cuckoo_slots c ! p) \<and> blk_key (cuckoo_slots c ! p) = key)
      (positions c key)")
    case None
    then have "\<not> live_copy el c key"
      by (auto simp: live_copy_candidates [OF wf pl] find_None_iff)
    with None ok show ?thesis by (simp add: unf)
  next
    case (Some p)
    let ?b = "cuckoo_slots c ! p"
    have p: "p \<in> set (positions c key)" "blk_live el ?b" "blk_key ?b = key"
      using find_SomeD [OF Some] by auto
    have pn: "p < ck_nitem c" using p positions_bound [OF sh] by blast
    have ne: "\<not> blk_empty ?b" using p live_not by blast
    have lc: "live_copy el c key" using p by (auto simp: live_copy_candidates [OF wf pl])
    show ?thesis
    proof (cases "blk_value ?b")
      case (Bytes bs)
      then have "bytes_copy el c key" using p by (auto simp: bytes_copy_def)
      with Bytes Some tiny_update_slot [OF wf pn ne] ok lc show ?thesis by (simp add: unf)
    next
      case (U64 w)
      let ?b' = "blk_with_u64 ?b (g rhs w)" and ?c' = "set_slot c p (blk_with_u64 ?b (g rhs w))"
      have z: "th_vlen (blk_header ?b) = 0" using U64 by (auto simp: blk_value_def Let_def split: if_splits)
      have need: "blk_need ?b \<le> length ?b" using blk_need_fits [OF wf pn ne] length_slot [OF sh pn] by simp
      note f = blk_with_u64_facts [OF z need, of "g rhs w"]
      have len: "length ?b' = ck_item_size c" using f(1) length_slot [OF sh pn] by simp
      have ne': "\<not> blk_empty ?b'" using ne f(2) by (simp add: blk_empty_def)
      have fits: "blk_fits c ?b'" using need f(2) length_slot [OF sh pn] by (simp add: blk_fits_def blk_need_def)
      have "cuckoo_ok ?c'"
        using ok pn len fits sh p f(3)
        by (simp add: cuckoo_ok_def wf_set_slot placed_set_slot home_def)
      moreover have occ: "occupied ?c' = add_mset ?b' (occupied c - {#?b#})"
        using sh pn len ne ne' by (simp add: occupied_set_slot)
      moreover have "gauges_ok c \<longrightarrow> gauges_ok ?c'"
      proof -
        obtain M where M: "occupied c = add_mset ?b M"
          using slot_in_occupied [OF pn ne] by (metis multi_member_split)
        show ?thesis unfolding gauges_ok_def occ by (simp add: M blk_klen_def blk_vlen_def f(2))
      qed
      ultimately show ?thesis
        using Some U64 tiny_update_slot [OF wf pn ne, of "g rhs"] p pn sh len
        by (simp add: unf set_slot_data cuckoo_slots_set_slot)
    qed
  qed
qed

section \<open>The cache beside the map a client believes in\<close>

type_synonym client_map = "u8 list \<rightharpoonup> cache_value"
type_synonym client_state = "u32 \<times> cuckoo_cache \<times> client_map"

fun map_numeric :: "(u64 \<Rightarrow> u64) \<Rightarrow> cache_value \<Rightarrow> cache_value" where
  "map_numeric f (U64 w) = U64 (f w)"
| "map_numeric f (Bytes bs) = Bytes bs"

text \<open>
  One call of the interface at the current time, with the client's map updated by what the call reported,
  or the passing of time.
\<close>

inductive client_step :: "client_state \<Rightarrow> client_state \<Rightarrow> bool" where
  tick: "t \<le> t' \<Longrightarrow> client_step (t, c, m) (t', c, m)"
| insert_ok: "tiny_representable key v \<Longrightarrow> compute_expire t c ttl \<noteq> 0 \<Longrightarrow>
    cuckoo_insert t rnd c key v ttl = Some (Inr u, c') \<Longrightarrow> client_step (t, c, m) (t, c', m(key \<mapsto> v))"
| insert_error: "cuckoo_insert t rnd c key v ttl = Some (Inl e, c') \<Longrightarrow> tiny_representable key v \<Longrightarrow>
    client_step (t, c, m) (t, c', m)"
| get: "cuckoo_get t c key = Some (r, c') \<Longrightarrow> client_step (t, c, m) (t, c', m)"
| delete: "cuckoo_delete t c key = Some (deleted, c') \<Longrightarrow>
    client_step (t, c, m) (t, c', if deleted then m(key := None) else m)"
| clear: "client_step (t, c, m) (t, cuckoo_clear c, Map.empty)"
| wrapping_add_ok: "cuckoo_wrapping_add t c key rhs = Some (Inr p, c') \<Longrightarrow>
    client_step (t, c, m) (t, c', m(key := map_option (map_numeric (\<lambda>w. w + rhs)) (m key)))"
| saturating_sub_ok: "cuckoo_saturating_sub t c key rhs = Some (Inr p, c') \<Longrightarrow>
    client_step (t, c, m) (t, c', m(key := map_option (map_numeric (\<lambda>w. saturating_sub w rhs)) (m key)))"
| wrapping_add_error: "cuckoo_wrapping_add t c key rhs = Some (Inl e, c') \<Longrightarrow> client_step (t, c, m) (t, c', m)"
| saturating_sub_error: "cuckoo_saturating_sub t c key rhs = Some (Inl e, c') \<Longrightarrow>
    client_step (t, c, m) (t, c', m)"

text \<open>At most one live item per key, and every live item is what the client's map says.\<close>

definition unique_live :: "u32 \<Rightarrow> cuckoo_cache \<Rightarrow> bool" where
  "unique_live t c \<longleftrightarrow> (\<forall>key. size (filter_mset (\<lambda>b. blk_key b = key) (live_items t c)) \<le> 1)"

definition agrees :: "u32 \<Rightarrow> cuckoo_cache \<Rightarrow> client_map \<Rightarrow> bool" where
  "agrees t c m \<longleftrightarrow> (\<forall>b. b \<in># live_items t c \<longrightarrow> m (blk_key b) = Some (blk_value b))"

definition client_inv :: "client_state \<Rightarrow> bool" where
  "client_inv s = (case s of (t, c, m) \<Rightarrow>
     cuckoo_ok c \<and> unique_live t c \<and> agrees t c m)"

lemma live_items_mono:
  assumes "t \<le> t'"
  shows "live_items t' c \<subseteq># live_items t c"
proof -
  have *: "blk_live t' b \<Longrightarrow> blk_live t b" for b
    using assms by (auto simp: blk_live_def blk_expired_def Let_def not_less intro: order_trans)
  show ?thesis
    unfolding live_items_def using * by (auto simp: subseteq_mset_def)
qed

lemma unique_agrees_mono:
  assumes "live_items t' c' \<subseteq># live_items t c"
  shows "unique_live t c \<Longrightarrow> unique_live t' c'" and "agrees t c m \<Longrightarrow> agrees t' c' m"
  using multiset_filter_mono [OF assms] mset_subset_eqD [OF assms]
  by (auto simp: unique_live_def agrees_def intro: order_trans [OF size_mset_mono])

text \<open>Replacing the live copy of a key, if there is one, by a new item under that key.\<close>

lemma agrees_replace:
  assumes live': "live_items t c' = add_mset b (live_items t c - lost)"
    and u: "unique_live t c" and a: "agrees t c m"
    and lost: "lost \<subseteq># live_items t c"
      "\<And>x. x \<in># live_items t c \<Longrightarrow> blk_key x = blk_key b \<Longrightarrow> \<exists>old. lost = {#old#} \<and> blk_key old = blk_key b"
  shows "unique_live t c'" and "agrees t c' (m(blk_key b \<mapsto> blk_value b))"
proof -
  let ?F = "\<lambda>k. filter_mset (\<lambda>x. blk_key x = k)"
  have none: "?F (blk_key b) (live_items t c - lost) = {#}"
  proof (cases "?F (blk_key b) (live_items t c) = {#}")
    case True
    show ?thesis unfolding filter_diff_mset True by simp
  next
    case False
    then obtain x where "x \<in># ?F (blk_key b) (live_items t c)" by (rule multiset_nonemptyE)
    with lost(2) [of x] obtain old where old: "lost = {#old#}" "blk_key old = blk_key b" by auto
    then have "old \<in># ?F (blk_key b) (live_items t c)"
      using lost(1) by (simp add: mset_subset_eqD)
    then obtain N where N: "?F (blk_key b) (live_items t c) = add_mset old N"
      by (blast dest: multi_member_split)
    have "size (?F (blk_key b) (live_items t c)) \<le> 1" using u by (simp add: unique_live_def)
    with N have "?F (blk_key b) (live_items t c) = {#old#}" by simp
    with old show ?thesis by (simp add: filter_diff_mset)
  qed
  have sub: "?F k (live_items t c - lost) \<subseteq># ?F k (live_items t c)" for k
    by (rule multiset_filter_mono) simp
  show "unique_live t c'"
    unfolding unique_live_def
  proof
    fix k
    show "size (?F k (live_items t c')) \<le> 1"
      using none size_mset_mono [OF sub, of k] u [unfolded unique_live_def, rule_format, of k]
      by (cases "k = blk_key b") (auto simp: live' intro: order_trans)
  qed
  show "agrees t c' (m(blk_key b \<mapsto> blk_value b))"
    unfolding agrees_def
  proof (intro allI impI)
    fix x assume "x \<in># live_items t c'"
    then consider "x = b" | "x \<in># live_items t c - lost" by (auto simp: live')
    then show "(m(blk_key b \<mapsto> blk_value b)) (blk_key x) = Some (blk_value x)"
    proof cases
      case 2
      then have "x \<in># live_items t c" by (rule in_diffD)
      moreover have "blk_key x \<noteq> blk_key b"
      proof
        assume "blk_key x = blk_key b"
        with 2 have "x \<in># ?F (blk_key b) (live_items t c - lost)" by (simp del: filter_diff_mset)
        with none show False by (auto simp del: filter_diff_mset)
      qed
      ultimately show ?thesis using a by (simp add: agrees_def)
    qed simp
  qed
qed

lemma unique_live_other:
  assumes "unique_live t c" and "b \<in># live_items t c" and "x \<in># live_items t c - {#b#}"
  shows "blk_key x \<noteq> blk_key b"
proof
  assume k: "blk_key x = blk_key b"
  obtain N where "live_items t c = add_mset b (add_mset x N)"
    using assms(2,3) by (metis insert_DiffM)
  with assms(1) k have "size (filter_mset (\<lambda>y. blk_key y = blk_key b) (add_mset b (add_mset x N))) \<le> 1"
    unfolding unique_live_def by metis
  with k show False by simp
qed

lemma agrees_weaken:
  assumes "live_items t c' \<subseteq># live_items t c" and "client_inv (t, c, m)" and "cuckoo_ok c'"
  shows "client_inv (t, c', m)"
  using assms unique_agrees_mono [OF assms(1)] by (simp add: client_inv_def)

lemma inv_insert:
  assumes inv: "client_inv (t, c, m)" and rep: "tiny_representable key v"
    and nz: "compute_expire t c ttl \<noteq> 0" and ins: "cuckoo_insert t rnd c key v ttl = Some (Inr u, c')"
  shows "client_inv (t, c', m(key \<mapsto> v))"
proof -
  have ok: "cuckoo_ok c" and un: "unique_live t c" and ag: "agrees t c m"
    using inv by (simp_all add: client_inv_def)
  have fit: "TINY_ITEM_HDR_SIZE + length key + size_of_value v \<le> ck_item_size c"
    using ins insert_oversized [of c key v t rnd ttl] by (cases "ck_item_size c < TINY_ITEM_HDR_SIZE + length key + size_of_value v") auto
  let ?b = "item_block c key v (compute_expire t c ttl)"
  note bf = item_block_facts [OF rep fit, of "compute_expire t c ttl"]
  obtain lost where ok': "cuckoo_ok c'"
    and lv: "live_items t c' = add_mset ?b (live_items t c - lost)" and sub: "lost \<subseteq># live_items t c"
    and cp: "live_copy t c key \<longrightarrow> (\<exists>old. lost = {#old#} \<and> blk_key old = key)"
    using insert_live [OF ok rep fit nz, of rnd] ins by auto
  have "\<exists>old. lost = {#old#} \<and> blk_key old = blk_key ?b" if "x \<in># live_items t c" "blk_key x = blk_key ?b" for x
    using cp that bf(2) by (auto simp: live_copy_def)
  from agrees_replace [OF lv un ag sub this] ok' bf(2,3) show ?thesis
    by (simp add: client_inv_def)
qed

lemma inv_numeric:
  assumes inv: "client_inv (t, c, m)"
    and op: "numeric_op (\<lambda>mem off rhs. tiny_update (g rhs) mem off) t c key rhs = Some (r, c')"
  shows "case r of Inl e \<Rightarrow> client_inv (t, c', m)
    | Inr p \<Rightarrow> client_inv (t, c', m(key := map_option (map_numeric (g rhs)) (m key)))"
proof -
  have ok: "cuckoo_ok c" and un: "unique_live t c" and ag: "agrees t c m"
    using inv by (simp_all add: client_inv_def)
  note steps = numeric_steps [OF ok, of g t key rhs, unfolded op]
  show ?thesis
  proof (cases r)
    case (Inl e)
    with steps inv show ?thesis by simp
  next
    case (Inr p)
    let ?b = "cuckoo_slots c ! p"
    from Inr steps obtain w where p: "p < ck_nitem c" "blk_live t ?b" "blk_key ?b = key"
      and w: "blk_value ?b = U64 w" and ok': "cuckoo_ok c'"
      and occ: "occupied c' = add_mset (blk_with_u64 ?b (g rhs w)) (occupied c - {#?b#})"
      by auto
    let ?b' = "blk_with_u64 ?b (g rhs w)"
    have wf: "cuckoo_wf c" and sh: "cuckoo_shape c" using ok by (simp_all add: cuckoo_ok_def cuckoo_wf_shape)
    have ne: "\<not> blk_empty ?b" using p live_not by blast
    have z: "th_vlen (blk_header ?b) = 0" using w by (auto simp: blk_value_def Let_def split: if_splits)
    have need: "blk_need ?b \<le> length ?b"
      using blk_need_fits [OF wf p(1) ne] length_slot [OF sh p(1)] by simp
    note f = blk_with_u64_facts [OF z need, of "g rhs w"]
    have lb: "blk_live t ?b'" using p(2) f(2) by (simp add: blk_live_def blk_empty_def blk_expired_def)
    have inl: "?b \<in># live_items t c" using slot_in_occupied [OF p(1) ne] p(2) by (simp add: live_items_def)
    have lv: "live_items t c' = add_mset ?b' (live_items t c - {#?b#})"
      using occ lb p(2) by (simp add: live_items_def)
    have "\<exists>old. {#?b#} = {#old#} \<and> blk_key old = blk_key ?b'" using f(3) by simp
    then have "client_inv (t, c', m(key \<mapsto> U64 (g rhs w)))"
      using agrees_replace [OF lv un ag] inl ok' f(3,4) p(3) by (simp add: client_inv_def)
    moreover have "m key = Some (U64 w)" using ag inl p(3) w by (auto simp: agrees_def)
    ultimately show ?thesis using Inr by simp
  qed
qed

lemma wrapping_add_eq: "cuckoo_wrapping_add = numeric_op (\<lambda>m off rhs. tiny_update (\<lambda>v. v + rhs) m off)"
  by (simp add: cuckoo_wrapping_add_def tiny_wrapping_add_def [abs_def])

lemma saturating_sub_eq:
  "cuckoo_saturating_sub = numeric_op (\<lambda>m off rhs. tiny_update (\<lambda>v. saturating_sub v rhs) m off)"
  by (simp add: cuckoo_saturating_sub_def tiny_saturating_sub_def [abs_def])

lemma inv_get:
  assumes "client_inv (t, c, m)" and "cuckoo_get t c key = Some (r, c')"
  shows "client_inv (t, c', m)"
proof -
  have ok: "cuckoo_ok c" using assms(1) by (simp add: client_inv_def)
  then have "tidies t c c'" and "placed c'"
    using get_steps [of c t key] assms(2) by (auto simp: cuckoo_ok_def)
  with ok show ?thesis
    by (intro agrees_weaken [OF _ assms(1)]) (auto simp: tidies_def cuckoo_ok_def same_config_def)
qed

lemma inv_delete:
  assumes inv: "client_inv (t, c, m)" and del: "cuckoo_delete t c key = Some (deleted, c')"
  shows "client_inv (t, c', if deleted then m(key := None) else m)"
proof -
  have ok: "cuckoo_ok c" and un: "unique_live t c" and ag: "agrees t c m"
    using inv by (simp_all add: client_inv_def)
  have sh: "cuckoo_shape c" using ok by (simp add: cuckoo_ok_def cuckoo_wf_shape)
  have ok': "cuckoo_ok c'"
    and d: "deleted = (case first_copy c key of None \<Rightarrow> False | Some p \<Rightarrow> \<not> blk_expired t (cuckoo_slots c ! p))"
    and occ: "occupied c' = (case first_copy c key of None \<Rightarrow> occupied c
        | Some p \<Rightarrow> occupied c - {#cuckoo_slots c ! p#})"
    using delete_steps [of c t key] del ok by (auto simp: cuckoo_ok_def same_config_def)
  have sub: "live_items t c' \<subseteq># live_items t c"
    unfolding live_items_def by (rule multiset_filter_mono) (simp add: occ split: option.split)
  note weak = agrees_weaken [OF sub inv ok']
  show ?thesis
  proof (cases deleted)
    case True
    with d obtain p where p: "first_copy c key = Some p" "\<not> blk_expired t (cuckoo_slots c ! p)"
      by (auto split: option.splits)
    note pf = first_copy_SomeD [OF p(1) sh]
    let ?b = "cuckoo_slots c ! p"
    have bl: "blk_live t ?b" using p(2) pf(3) by (simp add: blk_live_def)
    have inl: "?b \<in># live_items t c" using slot_in_occupied [OF pf(2,3)] bl by (simp add: live_items_def)
    have lv: "live_items t c' = live_items t c - {#?b#}" using occ p(1) bl by (simp add: live_items_def)
    have "blk_key x \<noteq> key" if "x \<in># live_items t c'" for x
      using unique_live_other [OF un inl] that lv pf(4) by simp
    with weak True show ?thesis by (auto simp: client_inv_def agrees_def)
  next
    case False
    with weak show ?thesis by simp
  qed
qed

lemma zero_data_slots:
  assumes "ck_data c = replicate (ck_item_size c * ck_nitem c) 0" and "cuckoo_shape c" and "i < ck_nitem c"
  shows "cuckoo_slots c ! i = zero_block c"
  using slot_fits [OF assms(2,3)] assms(1,3)
  by (simp add: cuckoo_slots_nth zero_block_def min_def)

lemma zero_data_ok:
  assumes "ck_data c = replicate (ck_item_size c * ck_nitem c) 0" and sh: "cuckoo_shape c"
  shows "cuckoo_wf c" and "placed c" and "occupied c = {#}"
proof -
  have e: "blk_empty (cuckoo_slots c ! i)" if "i < ck_nitem c" for i
    using zero_data_slots [OF assms that] blk_empty_zero_block [OF sh] by simp
  show "cuckoo_wf c" using e sh by (simp add: cuckoo_wf_def list_all_length blk_fits_def)
  show "placed c" using e by (simp add: placed_def)
  have "\<not> b \<in># occupied c" for b using e by (auto simp: in_occupied_iff)
  then show "occupied c = {#}" by (meson multiset_nonemptyE)
qed

lemma clear_ok:
  assumes "cuckoo_ok c"
  shows "cuckoo_ok (cuckoo_clear c)" and "occupied (cuckoo_clear c) = {#}"
proof -
  have sh: "cuckoo_shape (cuckoo_clear c)"
    and d: "ck_data (cuckoo_clear c) =
      replicate (ck_item_size (cuckoo_clear c) * ck_nitem (cuckoo_clear c)) 0"
    using assms by (auto simp: cuckoo_ok_def cuckoo_wf_def cuckoo_shape_def cuckoo_clear_def)
  show "cuckoo_ok (cuckoo_clear c)"
    using zero_data_ok [OF d sh] assms by (simp add: cuckoo_ok_def cuckoo_clear_def)
  show "occupied (cuckoo_clear c) = {#}" by (rule zero_data_ok(3) [OF d sh])
qed

lemma client_step_inv:
  assumes "client_inv s" and "client_step s s'"
  shows "client_inv s'"
  using assms(2,1)
proof (cases rule: client_step.cases)
  case (tick t t' c m)
  with assms(1) show ?thesis
    using unique_agrees_mono [OF live_items_mono, of t t'] by (auto simp: client_inv_def)
next
  case (delete t c key deleted c' m)
  with assms(1) inv_delete [of t c m key deleted c'] show ?thesis by simp
next
  case (clear t c m)
  with assms(1) have "cuckoo_ok c" by (simp add: client_inv_def)
  then show ?thesis
    using clear clear_ok [of c] by (simp add: client_inv_def unique_live_def agrees_def live_items_def)
next
  case (insert_error t rnd c key v ttl e c' m)
  from insert_error(3) have "c' = ck_count (\<lambda>m. m\<lparr>CUCKOO_INSERT_EX := CUCKOO_INSERT_EX m + 1\<rparr>) c"
    by (auto simp: cuckoo_insert_def Let_def split: if_splits Option.bind_splits)
  with assms(1) insert_error show ?thesis
    by (auto simp: client_inv_def unique_live_def agrees_def)
next
  case (wrapping_add_ok t c key rhs p c' m)
  with assms(1) show ?thesis using inv_numeric [of t c m "\<lambda>rhs v. v + rhs" key rhs] by (auto simp: wrapping_add_eq)
next
  case (saturating_sub_ok t c key rhs p c' m)
  with assms(1) show ?thesis
    using inv_numeric [of t c m "\<lambda>rhs v. saturating_sub v rhs" key rhs] by (auto simp: saturating_sub_eq)
next
  case (wrapping_add_error t c key rhs e c' m)
  with assms(1) show ?thesis using inv_numeric [of t c m "\<lambda>rhs v. v + rhs" key rhs] by (auto simp: wrapping_add_eq)
next
  case (saturating_sub_error t c key rhs e c' m)
  with assms(1) show ?thesis
    using inv_numeric [of t c m "\<lambda>rhs v. saturating_sub v rhs" key rhs] by (auto simp: saturating_sub_eq)
qed (use assms(1) in \<open>auto intro: inv_insert inv_get inv_delete\<close>)

section \<open>Construction\<close>

lemma from_builder_fields:
  assumes "cuckoo_from_builder ws b = Some c"
  shows "ck_data c = replicate (ck_item_size c * ck_nitem c) 0" "length (ck_hashers c) = D"
    "TINY_ITEM_HDR_SIZE < ck_item_size c" "0 < ck_nitem c" "ck_max_displace c = b_max_displace b"
    "ck_metrics c = metrics_zero"
  using assms by (auto simp: cuckoo_from_builder_def SEEDS_def D_def split: if_splits)

lemma from_builder_inv:
  assumes "cuckoo_from_builder ws b = Some c" and "b_max_displace b \<le> 4"
  shows "client_inv (t, c, Map.empty)"
proof -
  note f = from_builder_fields [OF assms(1)]
  have sh: "cuckoo_shape c" using f by (simp add: cuckoo_shape_def)
  note z = zero_data_ok [OF f(1) sh]
  show ?thesis
    using z f assms(2)
    by (simp add: client_inv_def cuckoo_ok_def unique_live_def agrees_def live_items_def)
qed

definition client_init :: "client_state \<Rightarrow> bool" where
  "client_init s = (\<exists>t ws b c. s = (t, c, Map.empty) \<and> b_max_displace b \<le> 4 \<and> cuckoo_from_builder ws b = Some c)"

interpretation cuckoo_client: invariant_system client_init client_step client_inv
  by unfold_locales (auto simp: client_init_def intro: from_builder_inv client_step_inv)

text \<open>A candidate slot of the key that still holds an expired item under it.\<close>

definition expired_copy :: "u32 \<Rightarrow> cuckoo_cache \<Rightarrow> u8 list \<Rightarrow> bool" where
  "expired_copy t c key \<longleftrightarrow> (\<exists>q \<in> set (positions c key). \<not> blk_empty (cuckoo_slots c ! q)
     \<and> blk_expired t (cuckoo_slots c ! q) \<and> blk_key (cuckoo_slots c ! q) = key)"

lemma get_value:
  assumes "client_inv (t, c, m)"
  shows "\<exists>r c'. cuckoo_get t c key = Some (r, c') \<and>
    (case r of Some p \<Rightarrow> item_value c' p = m key \<and> m key \<noteq> None
     | None \<Rightarrow> live_copy t c key \<longrightarrow> expired_copy t c key)"
proof -
  have wf: "cuckoo_wf c" and pl: "placed c" and ag: "agrees t c m"
    using assms by (auto simp: client_inv_def cuckoo_ok_def)
  obtain c' where g: "cuckoo_get t c key = Some (Option.bind (first_copy c key)
      (\<lambda>p. if blk_expired t (cuckoo_slots c ! p) then None else Some p), c')" "tidies t c c'"
    "cuckoo_slots c' = (case first_copy c key of None \<Rightarrow> cuckoo_slots c
        | Some p \<Rightarrow> if blk_expired t (cuckoo_slots c ! p) then (cuckoo_slots c)[p := zero_block c]
                    else cuckoo_slots c)"
    using get_steps [OF wf] by blast
  then have wf': "cuckoo_wf c'" and n: "ck_nitem c' = ck_nitem c" by (auto simp: tidies_def same_config_def)
  show ?thesis
  proof (cases "first_copy c key")
    case None
    then have "\<not> live_copy t c key"
      using live_not by (auto simp: live_copy_candidates [OF wf pl] first_copy_def find_None_iff)
    with g(1) None show ?thesis by simp
  next
    case (Some p)
    note p = first_copy_SomeD [OF Some cuckoo_wf_shape [OF wf]]
    show ?thesis
    proof (cases "blk_expired t (cuckoo_slots c ! p)")
      case True
      with p have "expired_copy t c key" by (auto simp: expired_copy_def)
      with g(1) Some True show ?thesis by simp
    next
      case False
      have sl: "cuckoo_slots c' = cuckoo_slots c" using g(3) Some False by simp
      have "cuckoo_slots c ! p \<in># live_items t c"
        using slot_in_occupied [OF p(2,3)] p False by (simp add: live_items_def blk_live_def)
      then have "m key = Some (blk_value (cuckoo_slots c ! p))" using ag p(4) by (auto simp: agrees_def)
      with item_value_view [OF wf'] p n sl g(1) Some False show ?thesis by simp
    qed
  qed
qed

section \<open>Properties\<close>

text \<open>
  C19. Refinement. Start from a built cache with a displacement depth of at most four and an empty map, run any
  sequence of inserts, lookups, deletes, clears and arithmetic at non-decreasing times, updating the map with what
  each call reported. Two kinds of insert are left out: of a value or key the compact item cannot represent (an
  empty byte value, whose item reads back as an integer, or lengths over a byte) and one whose computed
  expiry is zero (its item counts as an empty slot). Then every lookup returns; when it returns an item, that item's value is exactly
  the map's value for the key, so the cache may forget an item, but never returns a stale, deleted or foreign value; and
  it misses a live item of the key only if an expired item under the same key is still in a candidate slot.
\<close>

theorem cuckoo_refines_map:
  assumes "cuckoo_from_builder ws b = Some c0" and "b_max_displace b \<le> 4"
    and "client_step\<^sup>*\<^sup>* (t0, c0, Map.empty) (t, c, m)"
  shows "\<exists>r c'. cuckoo_get t c key = Some (r, c') \<and>
    (case r of Some p \<Rightarrow> item_value c' p = m key \<and> m key \<noteq> None
     | None \<Rightarrow> live_copy t c key \<longrightarrow> expired_copy t c key)"
proof -
  have "client_init (t0, c0, Map.empty)" using assms(1,2) by (auto simp: client_init_def)
  from cuckoo_client.inv_reachable [OF this assms(3)] show ?thesis by (rule get_value)
qed


text \<open>
  C21. What an insertion costs. For an item the compact format can represent, that fits its slot and whose computed
  expiry is not zero: the insertion returns, stores the item and removes at most one live item, which is in one of the
  four candidate slots of the key. It is the previous live copy of the key when there is one; otherwise an item is lost only when
  all four candidates were live. (With a computed expiry of zero the insertion reports success and stores nothing.)
\<close>

theorem cuckoo_insert_effect:
  assumes "cuckoo_ok c" and "tiny_representable key v"
    and "TINY_ITEM_HDR_SIZE + length key + size_of_value v \<le> ck_item_size c"
    and "compute_expire el c ttl \<noteq> 0"
  shows "\<exists>c' lost. cuckoo_insert el rnd c key v ttl = Some (Inr (), c')
    \<and> live_items el c' =
        add_mset (item_block c key v (compute_expire el c ttl)) (live_items el c - lost)
    \<and> lost \<subseteq># live_items el c \<and> size lost \<le> 1
    \<and> (live_copy el c key \<longrightarrow> (\<exists>old. lost = {#old#} \<and> blk_key old = key))
    \<and> (\<not> live_copy el c key \<and> lost \<noteq> {#} \<longrightarrow>
         (\<forall>q \<in> set (positions c key). blk_live el (cuckoo_slots c ! q)))
    \<and> (lost \<noteq> {#} \<longrightarrow> (\<exists>q \<in> set (positions c key). lost = {#cuckoo_slots c ! q#}))"
  using insert_live [OF assms, of rnd] by blast

lemma find_unique:
  "p \<in> set ps \<Longrightarrow> P p \<Longrightarrow> (\<And>q. q \<in> set ps \<Longrightarrow> P q \<Longrightarrow> q = p) \<Longrightarrow> List.find P ps = Some p"
  by (metis find_None_iff find_SomeD not_None_eq)

text \<open>The new item is the first copy a lookup meets, if no expired copy of its key is left.\<close>

lemma insert_first_copy:
  assumes ok: "cuckoo_ok c" and rep: "tiny_representable key v"
    and fit: "TINY_ITEM_HDR_SIZE + length key + size_of_value v \<le> ck_item_size c"
    and nz: "compute_expire el c ttl \<noteq> 0"
    and fresh: "\<forall>p \<in> set (positions c key).
      \<not> (blk_expired el (cuckoo_slots c ! p) \<and> blk_key (cuckoo_slots c ! p) = key)"
  defines "b \<equiv> item_block c key v (compute_expire el c ttl)"
  shows "\<exists>c' p. cuckoo_insert el rnd c key v ttl = Some (Inr (), c') \<and> cuckoo_ok c'
    \<and> same_config c c' \<and> first_copy c' key = Some p \<and> p < ck_nitem c' \<and> cuckoo_slots c' ! p = b"
proof -
  obtain pos upd c1 c' where ins: "cuckoo_insert el rnd c key v ttl = Some (Inr (), c')"
    and pos: "pos \<in> set (positions c key)"
    and cs: "if upd then occupied c1 = occupied c \<and> cuckoo_slots c1 = cuckoo_slots c
           \<and> List.find (\<lambda>p. blk_live el (cuckoo_slots c ! p)
             \<and> blk_key (cuckoo_slots c ! p) = key) (positions c key) = Some pos
       else \<not> live_copy el c key \<and> made_room el c (positions c key) pos c1"
    and sl: "cuckoo_slots c' = (cuckoo_slots c1)[pos := b]" and cfg: "same_config c c'" and ok': "cuckoo_ok c'"
    using insert_steps [OF ok rep fit nz, of rnd] unfolding b_def by blast
  note bf = item_block_facts [OF rep fit, of "compute_expire el c ttl", folded b_def]
  have wf: "cuckoo_wf c" and pl: "placed c" and sh: "cuckoo_shape c" and sh': "cuckoo_shape c'"
    using ok ok' by (simp_all add: cuckoo_ok_def cuckoo_wf_shape)
  have n1: "ck_nitem c1 = ck_nitem c"
    using arg_cong [OF sl, of length] same_config_view [OF cfg] by simp
  have pn: "pos < ck_nitem c" using pos positions_bound [OF sh] by blast
  have bne: "\<not> blk_empty b" using bf(4) nz by (simp add: blk_empty_def)
  let ?P = "\<lambda>p. \<not> blk_empty (cuckoo_slots c' ! p) \<and> blk_key (cuckoo_slots c' ! p) = key"
  have Ppos: "?P pos" using bne bf(2) sl pn n1 by simp
  have "List.find ?P (positions c key) = Some pos"
  proof (cases upd)
    case True
    with cs have f: "List.find (\<lambda>p. blk_live el (cuckoo_slots c ! p)
        \<and> blk_key (cuckoo_slots c ! p) = key) (positions c key) = Some pos" and s1: "cuckoo_slots c1 = cuckoo_slots c"
      by auto
    have "?P p \<longleftrightarrow> blk_live el (cuckoo_slots c ! p) \<and> blk_key (cuckoo_slots c ! p) = key"
      if "p \<in> set (positions c key)" for p
      using that Ppos find_SomeD [OF f] fresh s1 sl by (cases "p = pos") (auto simp: blk_live_def)
    with f show ?thesis by (simp cong: find_cong)
  next
    case False
    with cs have nl: "\<not> live_copy el c key" and room: "occupied c1 \<subseteq># occupied c"
      by (auto simp: made_room_def)
    have "p = pos" if "p \<in> set (positions c key)" and P: "?P p" for p
    proof (rule ccontr)
      assume ne: "p \<noteq> pos"
      have p: "p < ck_nitem c" using that positions_bound [OF sh] by blast
      have "cuckoo_slots c1 ! p \<in># occupied c1"
        using P ne sl p n1 by (intro slot_in_occupied) auto
      then obtain q where q: "q < ck_nitem c" "cuckoo_slots c ! q = cuckoo_slots c1 ! p"
        using mset_subset_eqD [OF room] by (auto simp: in_occupied_iff)
      have k: "blk_key (cuckoo_slots c ! q) = key" "\<not> blk_empty (cuckoo_slots c ! q)"
        using P ne sl q by auto
      then have qp: "q \<in> set (positions c key)" using pl q(1) by (auto simp: placed_def home_def)
      show False
        using nl fresh qp k by (auto simp: live_copy_candidates [OF wf pl] blk_live_def)
    qed
    with pos Ppos show ?thesis by (intro find_unique)
  qed
  with ins ok' cfg pn sl n1 same_config_view [OF cfg] same_config_positions [OF cfg] show ?thesis
    by (auto simp: first_copy_def)
qed

text \<open>
  Round trip. Right after a successful insertion into a cache with no expired copy of the key, and
  until the stored expiry passes, a lookup returns the inserted key, value and expiry; once the expiry has
  passed it returns nothing.
\<close>

theorem cuckoo_insert_get:
  assumes "cuckoo_ok c" and "tiny_representable key v"
    and "TINY_ITEM_HDR_SIZE + length key + size_of_value v \<le> ck_item_size c"
    and "compute_expire el c ttl \<noteq> 0"
    and "\<forall>p \<in> set (positions c key).
      \<not> (blk_expired el (cuckoo_slots c ! p) \<and> blk_key (cuckoo_slots c ! p) = key)"
  shows "\<exists>c' p c''. cuckoo_insert el rnd c key v ttl = Some (Inr (), c')
    \<and> (if compute_expire el c ttl = - 1 \<or> el' \<le> compute_expire el c ttl
       then cuckoo_get el' c' key = Some (Some p, c'') \<and> item_key c'' p = Some key
         \<and> item_value c'' p = Some v \<and> item_expire c'' p = Some (compute_expire el c ttl)
       else cuckoo_get el' c' key = Some (None, c''))"
proof -
  let ?e = "compute_expire el c ttl"
  obtain c' p where ins: "cuckoo_insert el rnd c key v ttl = Some (Inr (), c')" and ok': "cuckoo_ok c'"
    and cfg: "same_config c c'" and fc: "first_copy c' key = Some p" and p: "p < ck_nitem c'"
    and b: "cuckoo_slots c' ! p = item_block c key v ?e"
    using insert_first_copy [OF assms, of rnd] by blast
  note bf = item_block_facts [OF assms(2,3), of ?e]
  have wf': "cuckoo_wf c'" using ok' by (simp add: cuckoo_ok_def)
  have x: "blk_expired el' (cuckoo_slots c' ! p) \<longleftrightarrow> \<not> (?e = - 1 \<or> el' \<le> ?e)"
    using bf(4) assms(4) by (auto simp: b blk_expired_def Let_def)
  obtain c'' where g: "cuckoo_get el' c' key = Some (if blk_expired el' (cuckoo_slots c' ! p) then None else Some p, c'')"
    and t: "tidies el' c' c''"
    and sl: "\<not> blk_expired el' (cuckoo_slots c' ! p) \<Longrightarrow> cuckoo_slots c'' = cuckoo_slots c'"
    using get_steps [OF wf', of el' key] by (auto simp: fc)
  show ?thesis
  proof (cases "blk_expired el' (cuckoo_slots c' ! p)")
    case True
    with x g ins show ?thesis by auto
  next
    case False
    have wf'': "cuckoo_wf c''" and p'': "p < ck_nitem c''" using t p by (simp_all add: tidies_wf tidies_nitem)
    have b'': "cuckoo_slots c'' ! p = item_block c key v ?e" using sl [OF False] b by simp
    have ne: "\<not> blk_empty (cuckoo_slots c'' ! p)" using bf(4) assms(4) by (simp add: b'' blk_empty_def)
    have "item_key c'' p = Some key" "item_value c'' p = Some v" "item_expire c'' p = Some ?e"
      using slot_key_view [OF wf'' p'' ne] item_value_view [OF wf'' p'' ne]
        slot_expire_view [OF cuckoo_wf_shape [OF wf''] p''] bf
      by (simp_all add: item_key_def item_expire_def slot_key_def slot_expire_def b'')
    with False x g ins show ?thesis by auto
  qed
qed

text \<open>
  C22. Displacement, for every depth limit: the search returns, and either it reports success and the
  requested slot is empty, no live item has been lost, duplicated or added, and the gauges stay exact, or
  it reports failure and the cache is untouched.
\<close>

theorem cuckoo_displace_sound:
  assumes "cuckoo_wf c" and "pos < ck_nitem c"
  shows "\<exists>freed c'. displace_from el c pos depth = Some (freed, c')
    \<and> (if freed then blk_empty (cuckoo_slots c' ! pos) \<and> live_items el c' = live_items el c
           \<and> occupied c' \<subseteq># occupied c \<and> cuckoo_wf c' \<and> (gauges_ok c \<longrightarrow> gauges_ok c')
       else c' = c)"
proof -
  obtain freed c' where "displace_from el c pos depth = Some (freed, c')" "freed_ok el c pos freed c'"
    using displace_within_ok [OF assms, of "ck_max_displace c - depth" el]
    unfolding displace_from_def by blast
  then show ?thesis by (cases freed) (auto simp: freed_ok_def tidies_def)
qed

text \<open>
  Placement: with a depth limit of at most four, a successful displacement leaves every item in one
  of the candidate slots of its key.
\<close>

theorem cuckoo_displace_placed:
  assumes "cuckoo_wf c" and "placed c" and "pos < ck_nitem c" and "ck_max_displace c \<le> 4"
    and "displace_from el c pos depth = Some (True, c')"
  shows "placed c'"
  using displace_within_placed [OF assms(5) [unfolded displace_from_def] _ assms(1,3,2)] assms(4) by simp

text \<open>
  C23. The gauges: on a cache whose four gauges equal the number of stored items and their key, value and
  total bytes, a lookup, a delete and the two arithmetic operations leave them exact, and so does an insertion of an item the
  compact format can represent whose computed expiry is not zero, whether it fits or is refused. The two exceptions
  are an insertion with a computed expiry of zero, which counts an item that is not stored, and \<^verbatim>\<open>clear\<close>,
  which leaves the gauges as they were.
\<close>

theorem cuckoo_gauges_exact:
  assumes ok: "cuckoo_ok c" and g: "gauges_ok c" and rep: "tiny_representable key v"
    and nz: "compute_expire el c ttl \<noteq> 0"
  shows "(\<forall>r c'. cuckoo_get el c key = Some (r, c') \<longrightarrow> gauges_ok c')
    \<and> (\<forall>r c'. cuckoo_delete el c key = Some (r, c') \<longrightarrow> gauges_ok c')
    \<and> (\<forall>r c'. cuckoo_wrapping_add el c key rhs = Some (r, c') \<longrightarrow> gauges_ok c')
    \<and> (\<forall>r c'. cuckoo_saturating_sub el c key rhs = Some (r, c') \<longrightarrow> gauges_ok c')
    \<and> (\<forall>r c'. cuckoo_insert el rnd c key v ttl = Some (r, c') \<longrightarrow> gauges_ok c')"
proof (intro conjI)
  have wf: "cuckoo_wf c" and pl: "placed c" using ok by (simp_all add: cuckoo_ok_def)
  show "\<forall>r c'. cuckoo_get el c key = Some (r, c') \<longrightarrow> gauges_ok c'"
    using get_steps [OF wf, of el key] g by (auto simp: tidies_def)
  show "\<forall>r c'. cuckoo_delete el c key = Some (r, c') \<longrightarrow> gauges_ok c'"
    using delete_steps [OF wf pl, of el key] g by auto
  show "\<forall>r c'. cuckoo_wrapping_add el c key rhs = Some (r, c') \<longrightarrow> gauges_ok c'"
    using numeric_steps [OF ok, of "\<lambda>rhs v. v + rhs" el key rhs] g by (auto simp: wrapping_add_eq)
  show "\<forall>r c'. cuckoo_saturating_sub el c key rhs = Some (r, c') \<longrightarrow> gauges_ok c'"
    using numeric_steps [OF ok, of "\<lambda>rhs v. saturating_sub v rhs" el key rhs] g
    by (auto simp: saturating_sub_eq)
  show "\<forall>r c'. cuckoo_insert el rnd c key v ttl = Some (r, c') \<longrightarrow> gauges_ok c'"
  proof (cases "TINY_ITEM_HDR_SIZE + length key + size_of_value v \<le> ck_item_size c")
    case True
    then show ?thesis using insert_live [OF ok rep _ nz, of rnd] g by auto
  next
    case False
    then have "\<forall>r c'. cuckoo_insert el rnd c key v ttl = Some (r, c') \<longrightarrow>
        c' = ck_count (\<lambda>m. m\<lparr>CUCKOO_INSERT_EX := CUCKOO_INSERT_EX m + 1\<rparr>) c"
      using insert_oversized [of c key v el rnd ttl] by simp
    with g show ?thesis by auto
  qed
qed

text \<open>
  C24. The arithmetic operations, on any well-placed cache: when they succeed they return a slot that held a live
  item under the key with an integer value, and in that slot, and in no other, the value is replaced by the sum modulo
  \<open>2 ^ 64\<close> or by the difference floored at zero, with the key and expiry kept; otherwise they change nothing and report
  \<^verbatim>\<open>NotFound\<close>, exactly when the key has no live copy, or \<^verbatim>\<open>NotNumeric\<close>, and then a live copy of the key has a byte value.
\<close>

theorem cuckoo_arithmetic:
  assumes ok: "cuckoo_ok c"
    and op: "(opn, f) \<in> {(cuckoo_wrapping_add, \<lambda>w. w + rhs), (cuckoo_saturating_sub, \<lambda>w. saturating_sub w rhs)}"
  shows "\<exists>r c'. opn el c key rhs = Some (r, c') \<and>
    (case r of
       Inl e \<Rightarrow> c' = c \<and> (e = NotFound \<longleftrightarrow> \<not> live_copy el c key) \<and> (e = NotFound \<or> e = NotNumeric)
         \<and> (e = NotNumeric \<longrightarrow> bytes_copy el c key)
     | Inr p \<Rightarrow> p < ck_nitem c \<and> blk_live el (cuckoo_slots c ! p) \<and> blk_live el (cuckoo_slots c' ! p)
         \<and> cuckoo_slots c' = (cuckoo_slots c)[p := cuckoo_slots c' ! p]
         \<and> (\<exists>w. item_value c p = Some (U64 w) \<and> item_value c' p = Some (U64 (f w)))
         \<and> item_key c p = Some key \<and> item_key c' p = Some key \<and> item_expire c' p = item_expire c p)"
proof -
  obtain g where g: "opn = numeric_op (\<lambda>m off rhs. tiny_update (g rhs) m off)" "f = g rhs"
  proof -
    from op consider "opn = cuckoo_wrapping_add" "f = (\<lambda>w. w + rhs)"
      | "opn = cuckoo_saturating_sub" "f = (\<lambda>w. saturating_sub w rhs)" by auto
    then show ?thesis
    proof cases
      case 1
      with that [of "\<lambda>rhs v. v + rhs"] show ?thesis by (simp add: wrapping_add_eq)
    next
      case 2
      with that [of "\<lambda>rhs v. saturating_sub v rhs"] show ?thesis by (simp add: saturating_sub_eq)
    qed
  qed
  have wf: "cuckoo_wf c" and sh: "cuckoo_shape c" using ok by (simp_all add: cuckoo_ok_def cuckoo_wf_shape)
  obtain r c' where st: "opn el c key rhs = Some (r, c')" and ok': "cuckoo_ok c'"
    and cs: "case r of
       Inl e \<Rightarrow> c' = c \<and> (e = NotFound \<longleftrightarrow> \<not> live_copy el c key) \<and> (e = NotFound \<or> e = NotNumeric)
         \<and> (e = NotNumeric \<longrightarrow> bytes_copy el c key)
     | Inr p \<Rightarrow> p < ck_nitem c \<and> blk_live el (cuckoo_slots c ! p) \<and> blk_key (cuckoo_slots c ! p) = key
         \<and> (\<exists>w. blk_value (cuckoo_slots c ! p) = U64 w
             \<and> cuckoo_slots c' = (cuckoo_slots c)[p := blk_with_u64 (cuckoo_slots c ! p) (f w)]
             \<and> occupied c' = add_mset (blk_with_u64 (cuckoo_slots c ! p) (f w))
                 (occupied c - {#cuckoo_slots c ! p#}))"
    using numeric_steps [OF ok, of g el key rhs] unfolding g by blast
  have wf': "cuckoo_wf c'" and sh': "cuckoo_shape c'" using ok' by (simp_all add: cuckoo_ok_def cuckoo_wf_shape)
  show ?thesis
  proof (cases r)
    case (Inl e)
    with st cs show ?thesis by auto
  next
    case (Inr p)
    let ?b = "cuckoo_slots c ! p"
    from Inr cs obtain w where p: "p < ck_nitem c" "blk_live el ?b" "blk_key ?b = key"
      and w: "blk_value ?b = U64 w" and sl: "cuckoo_slots c' = (cuckoo_slots c)[p := blk_with_u64 ?b (f w)]"
      by auto
    have ne: "\<not> blk_empty ?b" using p live_not by blast
    have z: "th_vlen (blk_header ?b) = 0" using w by (auto simp: blk_value_def Let_def split: if_splits)
    have need: "blk_need ?b \<le> length ?b"
      using blk_need_fits [OF wf p(1) ne] length_slot [OF sh p(1)] by simp
    note bf = blk_with_u64_facts [OF z need, of "f w"]
    have p': "p < ck_nitem c'" using arg_cong [OF sl, of length] p(1) by simp
    have b': "cuckoo_slots c' ! p = blk_with_u64 ?b (f w)" using sl p(1) by simp
    have ne': "\<not> blk_empty (cuckoo_slots c' ! p)" using ne bf(2) by (simp add: b' blk_empty_def)
    have lv': "blk_live el (blk_with_u64 ?b (f w))" using p(2) bf(2) by (simp add: blk_live_def blk_empty_def blk_expired_def)
    show ?thesis
      using st Inr w p bf lv' sl item_value_view [OF wf p(1) ne] item_value_view [OF wf' p' ne']
        slot_key_view [OF wf p(1) ne] slot_key_view [OF wf' p' ne']
        slot_expire_view [OF sh p(1)] slot_expire_view [OF sh' p']
      by (simp add: item_key_def item_expire_def slot_key_def slot_expire_def b')
  qed
qed

text \<open>
  The expiring policy evicts a candidate whose expiry is the earliest of the four.
\<close>

theorem cuckoo_victim_soonest:
  assumes "cuckoo_wf c" and "ck_policy c = Expire"
  shows "\<exists>k < D. select_victim rnd c (positions c key) = Some k \<and>
    (\<forall>p \<in> set (positions c key). the (slot_expire c (positions c key ! k)) \<le> the (slot_expire c p))"
proof -
  have sh: "cuckoo_shape c" using assms(1) by (rule cuckoo_wf_shape)
  obtain k where k: "k < D" "soonest c 0 0 (- 1) (positions c key) = Some k"
    "\<forall>p \<in> set (positions c key). th_expire (blk_header (cuckoo_slots c ! (positions c key ! k)))
        \<le> th_expire (blk_header (cuckoo_slots c ! p))"
    using soonest_victim [OF sh] by blast
  have "positions c key ! k \<in> set (positions c key)" using k(1) by simp
  then have "positions c key ! k < ck_nitem c" by (rule positions_bound [OF sh])
  with k positions_bound [OF sh] assms(2) show ?thesis
    by (auto simp: select_victim_def slot_expire_view [OF sh])
qed

text \<open>An insertion of a key with no live copy takes the first empty candidate.\<close>

lemma insert_into_empty:
  assumes ok: "cuckoo_ok c" and rep: "tiny_representable key v"
    and fit: "TINY_ITEM_HDR_SIZE + length key + size_of_value v \<le> ck_item_size c"
    and nz: "compute_expire el c ttl \<noteq> 0" and nl: "\<not> live_copy el c key"
    and e: "List.find (\<lambda>p. blk_empty (cuckoo_slots c ! p)) (positions c key) = Some e"
  shows "\<exists>c'. cuckoo_insert el rnd c key v ttl = Some (Inr (), c') \<and> cuckoo_wf c' \<and> placed c'
    \<and> same_config c c' \<and> (gauges_ok c \<longrightarrow> gauges_ok c')
    \<and> cuckoo_slots c' = (cuckoo_slots c)[e := item_block c key v (compute_expire el c ttl)]"
proof -
  let ?f = "\<lambda>m. m\<lparr>CUCKOO_INSERT := CUCKOO_INSERT m + 1\<rparr>" and ?b = "item_block c key v (compute_expire el c ttl)"
  have wf: "cuckoo_wf c" and pl: "placed c" and sh: "cuckoo_shape c"
    using ok by (simp_all add: cuckoo_ok_def cuckoo_wf_shape)
  have ee: "e \<in> set (positions c key)" "blk_empty (cuckoo_slots c ! e)" using find_SomeD [OF e] by auto
  then have en: "e < ck_nitem c" using positions_bound [OF sh] by auto
  have none: "List.find (\<lambda>p. blk_live el (cuckoo_slots c ! p) \<and> blk_key (cuckoo_slots c ! p) = key)
      (positions c key) = None"
    using nl by (auto simp: live_copy_candidates [OF wf pl] find_None_iff)
  have wf0: "cuckoo_wf (ck_count ?f c)" using wf by simp
  have find: "find_slot_for_insert el rnd (ck_count ?f c) key (positions c key) = Some ((e, False), ck_count ?f c)"
    using find_live_key_view [OF wf0, of el key key] find_empty_view [OF wf0, of key] none e
    unfolding find_slot_for_insert_def by (simp only: ck_count_view bind.bind_lunit option.case)
  note bf = item_block_facts [OF rep fit, of "compute_expire el c ttl"]
  have ins: "cuckoo_insert el rnd c key v ttl = Some (Inr (), overwrite (ck_count ?f c) False e ?b)"
    using overwrite_eval [of "ck_count ?f c" e key v False "compute_expire el c ttl"] sh en fit find
    unfolding cuckoo_insert_def by (simp add: Let_def not_less)
  have ne: "\<not> blk_empty ?b" using bf(4) nz by (simp add: blk_empty_def)
  have g: "gauges_ok c \<Longrightarrow> gauges_ok (ck_count ?f c)" by simp
  show ?thesis
    using overwrite_facts [of "ck_count ?f c" e ?b False] wf pl en bf ne ee ins g
    by (auto simp: home_def)
qed

text \<open>
  C25. An expired copy hides a new one. If the first candidate of a key still holds an expired copy of it
  and some other candidate is empty, inserting the key succeeds and the next lookup reports a miss: the
  insertion takes the empty slot without clearing the expired copy, which the lookup then finds first.
\<close>

theorem cuckoo_reinsert_expired_missed:
  assumes ok: "cuckoo_ok c" and rep: "tiny_representable key v"
    and fit: "TINY_ITEM_HDR_SIZE + length key + size_of_value v \<le> ck_item_size c"
    and nz: "compute_expire el c ttl \<noteq> 0"
    and p: "hd (positions c key) = p" "blk_key (cuckoo_slots c ! p) = key" "blk_expired el (cuckoo_slots c ! p)"
    and nl: "\<not> live_copy el c key"
    and q: "q \<in> set (positions c key)" "blk_empty (cuckoo_slots c ! q)"
  shows "\<exists>c' c''. cuckoo_insert el rnd c key v ttl = Some (Inr (), c') \<and> cuckoo_get el c' key = Some (None, c'')"
proof -
  have wf: "cuckoo_wf c" and sh: "cuckoo_shape c"
    using ok by (simp_all add: cuckoo_ok_def cuckoo_wf_shape)
  obtain ps where ps: "positions c key = p # ps"
    using p(1) length_positions [of c key] by (cases "positions c key") (auto simp: D_def)
  have pne: "\<not> blk_empty (cuckoo_slots c ! p)"
    using p(3) by (auto simp: blk_expired_def blk_empty_def Let_def)
  obtain e where e: "List.find (\<lambda>p. blk_empty (cuckoo_slots c ! p)) (positions c key) = Some e"
    using q by (metis find_None_iff not_None_eq)
  then have ep: "e \<noteq> p" using find_SomeD [OF e] pne by auto
  obtain c' where ins: "cuckoo_insert el rnd c key v ttl = Some (Inr (), c')" and wf': "cuckoo_wf c'"
    and cfg: "same_config c c'"
    and sl: "cuckoo_slots c' = (cuckoo_slots c)[e := item_block c key v (compute_expire el c ttl)]"
    using insert_into_empty [OF ok rep fit nz nl e] by blast
  have "first_copy c' key = Some p"
    using same_config_positions [OF cfg] ps pne p(2) ep by (simp add: first_copy_def sl)
  moreover have "blk_expired el (cuckoo_slots c' ! p)" using ep p(3) by (simp add: sl)
  ultimately show ?thesis using get_steps [OF wf', of el key] ins by auto
qed

text \<open>
  An item stored with expiry zero is lost. A non-zero TTL below one second, at creation time, gives
  expiry zero, the mark of an empty slot: the insertion reports success, the gauge counts the item, and
  no live copy of the key exists afterwards.
\<close>

theorem cuckoo_insert_zero_expiry:
  assumes ok: "cuckoo_ok c" and rep: "tiny_representable key v"
    and fit: "TINY_ITEM_HDR_SIZE + length key + size_of_value v \<le> ck_item_size c"
    and ttl: "0 < nanos" and nl: "\<not> live_copy 0 c key"
  shows "\<exists>c'. cuckoo_insert 0 rnd c key v (0, nanos) = Some (Inr (), c') \<and> \<not> live_copy 0 c' key"
proof -
  let ?f = "\<lambda>m. m\<lparr>CUCKOO_INSERT := CUCKOO_INSERT m + 1\<rparr>"
  have z: "compute_expire 0 c (0, nanos) = 0"
    using ttl by (simp add: compute_expire_def saturating_add_def)
  define b where "b = item_block c key v 0"
  note bf = item_block_facts [OF rep fit, of 0, folded b_def]
  have be: "blk_empty b" using bf(4) by (simp add: blk_empty_def)
  obtain pos upd c1 where f: "find_slot_for_insert 0 rnd (ck_count ?f c) key (positions c key)
      = Some ((pos, upd), c1)"
    and pos: "pos \<in> set (positions c key)"
    and cs: "if upd then c1 = ck_count ?f c \<and> List.find (\<lambda>p. blk_live 0 (cuckoo_slots c ! p)
            \<and> blk_key (cuckoo_slots c ! p) = key) (positions c key) = Some pos
       else \<not> live_copy 0 c key \<and> made_room 0 c (positions c key) pos c1"
    using find_slot_counted [OF ok gauge_neutral_counters(5), of 0 rnd "\<lambda>m. CUCKOO_INSERT m + 1" key]
    by blast
  have wf: "cuckoo_wf c" and pl: "placed c" using ok by (simp_all add: cuckoo_ok_def)
  have "\<not> upd"
  proof
    assume upd
    with cs have "List.find (\<lambda>p. blk_live 0 (cuckoo_slots c ! p)
        \<and> blk_key (cuckoo_slots c ! p) = key) (positions c key) = Some pos" by simp
    from find_SomeD [OF this] nl show False by (auto simp: live_copy_candidates [OF wf pl])
  qed
  with cs have room: "made_room 0 c (positions c key) pos c1" and upd: "upd = False" by auto
  then have sh1: "cuckoo_shape c1" and cfg: "same_config c c1" and e1: "blk_empty (cuckoo_slots c1 ! pos)"
    and lv: "live_items 0 c1 \<subseteq># live_items 0 c"
    by (auto simp: made_room_def cuckoo_wf_shape)
  note cv = same_config_view [OF cfg]
  have p1: "pos < ck_nitem c1" using pos positions_bound [OF cuckoo_wf_shape [OF wf]] cv by auto
  have "cuckoo_insert 0 rnd c key v (0, nanos) = Some (Inr (), overwrite c1 False pos b)"
    using overwrite_eval [OF sh1 p1, of key v False 0] fit cv f z
    unfolding cuckoo_insert_def upd b_def by (simp add: Let_def not_less)
  moreover have "live_items 0 (overwrite c1 False pos b) = live_items 0 c1"
    using occupied_set_slot [OF sh1 p1, of b] bf(1) cv be e1
    by (simp add: live_items_def overwrite_def)
  then have "\<not> live_copy 0 (overwrite c1 False pos b) key"
    using nl mset_subset_eqD [OF lv] by (auto simp: live_copy_def)
  ultimately show ?thesis by blast
qed

text \<open>
  \<^verbatim>\<open>clear\<close> empties the cache but not the gauges: afterwards no item is stored while the item gauge
  still reports the items there were, so the gauges are wrong unless the cache was already empty.
\<close>

theorem cuckoo_clear_keeps_gauges:
  assumes "cuckoo_ok c" and "gauges_ok c"
  shows "cuckoo_ok (cuckoo_clear c) \<and> occupied (cuckoo_clear c) = {#}
    \<and> ITEM_CURRENT (ck_metrics (cuckoo_clear c)) = int (size (occupied c))
    \<and> (gauges_ok (cuckoo_clear c) \<longleftrightarrow> occupied c = {#})"
  using clear_ok [OF assms(1)] assms(2) by (auto simp: gauges_ok_def cuckoo_clear_def)

section \<open>Witnesses\<close>

text \<open>A built cache of four 16-byte slots, with the candidates 0, 1, 2, 3 for every key.\<close>

definition demo_builder :: cuckoo_builder where
  "demo_builder = \<lparr>b_item_size = 16, b_nitem = 4, b_max_displace = 2, b_policy = Expire, b_max_ttl = 100\<rparr>"

definition demo_seeds :: "u64 \<Rightarrow> u64 \<Rightarrow> u64 \<Rightarrow> u64 \<Rightarrow> u8 list \<Rightarrow> u64" where
  "demo_seeds a b c d key =
     (if a = 0x3ac5d673 then 0 else if a = 0x9e3779b9 then 1 else if a = 0xdeadbeef then 2 else 3)"

definition demo_cache :: cuckoo_cache where
  "demo_cache = the (cuckoo_from_builder demo_seeds demo_builder)"

lemma demo_built: "cuckoo_from_builder demo_seeds demo_builder = Some demo_cache"
  by (simp add: demo_cache_def cuckoo_from_builder_def demo_builder_def TINY_ITEM_HDR_SIZE_def)

lemma demo_fields:
  "ck_item_size demo_cache = 16" "ck_nitem demo_cache = 4" "ck_max_displace demo_cache = 2"
  "ck_policy demo_cache = Expire" "ck_max_ttl demo_cache = 100" "ck_metrics demo_cache = metrics_zero"
  "ck_data demo_cache = replicate 64 0"
  by (simp_all add: demo_cache_def cuckoo_from_builder_def demo_builder_def TINY_ITEM_HDR_SIZE_def)

lemma demo_positions: "positions demo_cache key = [0, 1, 2, 3]"
  by (simp add: positions_def demo_fields D_def upt_rec demo_cache_def cuckoo_from_builder_def
      demo_builder_def TINY_ITEM_HDR_SIZE_def SEEDS_def demo_seeds_def)

lemma demo_ok: "cuckoo_ok demo_cache" and demo_occupied: "occupied demo_cache = {#}"
proof -
  have sh: "cuckoo_shape demo_cache"
    using from_builder_fields [OF demo_built] by (simp add: cuckoo_shape_def)
  note z = zero_data_ok [OF from_builder_fields(1) [OF demo_built] sh]
  from z show "cuckoo_ok demo_cache" by (simp add: cuckoo_ok_def demo_fields)
  from z show "occupied demo_cache = {#}" by simp
qed

lemma demo_slots: "i < 4 \<Longrightarrow> cuckoo_slots demo_cache ! i = zero_block demo_cache"
  using zero_data_slots [OF from_builder_fields(1) [OF demo_built]] demo_ok
  by (simp add: cuckoo_ok_def cuckoo_wf_shape demo_fields)

lemma demo_empty: "i < 4 \<Longrightarrow> blk_empty (cuckoo_slots demo_cache ! i)"
  using demo_slots demo_ok by (simp add: blk_empty_zero_block cuckoo_ok_def cuckoo_wf_shape)

lemma demo_expire: "compute_expire 1 demo_cache (5, 0) = 6"
  by (simp add: compute_expire_def demo_fields saturating_add_def min_def)

text \<open>The cache after one insertion at time 1 with a TTL of five seconds.\<close>

lemma demo_rep: "tiny_representable [107] (U64 7)"
  by (simp add: tiny_representable_def)

lemma demo_fit: "TINY_ITEM_HDR_SIZE + length [107 :: u8] + size_of_value (U64 7) \<le> ck_item_size demo_cache"
  by (simp add: demo_fields TINY_ITEM_HDR_SIZE_def)

lemma demo_nz: "compute_expire 1 demo_cache (5, 0) \<noteq> 0"
  by (simp add: demo_expire)

lemma demo_no_copy: "\<not> live_copy el demo_cache key"
  by (simp add: live_copy_def live_items_def demo_occupied)

lemma demo_gauges: "gauges_ok demo_cache"
  by (simp add: gauges_ok_def demo_occupied demo_fields metrics_zero_def)

lemma demo_wf: "cuckoo_wf demo_cache"
  using demo_ok by (simp add: cuckoo_ok_def)

definition demo_block :: "u8 list" where
  "demo_block = item_block demo_cache [107] (U64 7) 6"

lemma demo_block_facts:
  "blk_key demo_block = [107]" "blk_value demo_block = U64 7" "th_expire (blk_header demo_block) = 6"
  using item_block_facts [OF demo_rep demo_fit, of 6] by (simp_all add: demo_block_def)

lemma demo_inserted:
  obtains c where "cuckoo_insert 1 0 demo_cache [107] (U64 7) (5, 0) = Some (Inr (), c)" "cuckoo_ok c"
    "gauges_ok c" "same_config demo_cache c" "cuckoo_slots c = (cuckoo_slots demo_cache)[0 := demo_block]"
    "first_copy c [107] = Some 0"
proof -
  have "List.find (\<lambda>p. blk_empty (cuckoo_slots demo_cache ! p)) (positions demo_cache [107]) = Some 0"
    using demo_empty [of 0] by (simp add: demo_positions)
  from insert_into_empty [OF demo_ok demo_rep demo_fit demo_nz demo_no_copy this, of 0] obtain c
    where c: "cuckoo_insert 1 0 demo_cache [107] (U64 7) (5, 0) = Some (Inr (), c)" "cuckoo_wf c" "placed c"
      "same_config demo_cache c" "gauges_ok c"
      "cuckoo_slots c = (cuckoo_slots demo_cache)[0 := demo_block]"
    using demo_gauges by (auto simp: demo_expire demo_block_def)
  have "first_copy c [107] = Some 0"
    using same_config_positions [OF c(4)] c(6) demo_block_facts
    by (simp add: first_copy_def demo_positions blk_empty_def demo_fields)
  moreover have "cuckoo_ok c"
    using c(2-4) demo_fields by (simp add: cuckoo_ok_def same_config_def)
  ultimately show thesis using that c by blast
qed

lemma demo_get:
  assumes "cuckoo_ok c" and "first_copy c [107] = Some 0"
    and "cuckoo_slots c = (cuckoo_slots demo_cache)[0 := demo_block]"
  shows "\<exists>c'. cuckoo_get 1 c [107] = Some (Some 0, c')"
proof -
  have "\<not> blk_expired 1 (cuckoo_slots c ! 0)"
    using assms(3) demo_block_facts by (simp add: blk_expired_def Let_def demo_fields)
  with get_steps [of c 1 "[107]"] assms show ?thesis by (auto simp: cuckoo_ok_def)
qed

lemma demo_live:
  assumes "cuckoo_ok c" and "same_config demo_cache c" and "cuckoo_slots c = (cuckoo_slots demo_cache)[0 := demo_block]"
  shows "live_copy 1 c [107]"
proof -
  have "blk_live 1 demo_block" using demo_block_facts by (simp add: blk_live_def blk_empty_def blk_expired_def Let_def)
  then show ?thesis
    using assms demo_block_facts same_config_positions [OF assms(2)]
    by (auto simp: live_copy_candidates cuckoo_ok_def demo_positions demo_fields)
qed

theorem cuckoo_refines_map_witness:
  "\<exists>c p c'. client_step\<^sup>*\<^sup>* (1, demo_cache, Map.empty) (1, c, [[107] \<mapsto> U64 7])
    \<and> cuckoo_get 1 c [107] = Some (Some p, c') \<and> item_value c' p = Some (U64 7)"
proof -
  obtain c where c: "cuckoo_insert 1 0 demo_cache [107] (U64 7) (5, 0) = Some (Inr (), c)" "cuckoo_ok c"
    "cuckoo_slots c = (cuckoo_slots demo_cache)[0 := demo_block]" "first_copy c [107] = Some 0"
    by (rule demo_inserted)
  then obtain c' where g: "cuckoo_get 1 c [107] = Some (Some 0, c')" using demo_get by blast
  have r: "client_step\<^sup>*\<^sup>* (1, demo_cache, Map.empty) (1, c, [[107] \<mapsto> U64 7])"
    by (rule r_into_rtranclp, rule client_step.insert_ok [OF demo_rep demo_nz c(1)])
  have "item_value c' 0 = Some (U64 7)"
    using cuckoo_refines_map [OF demo_built _ r, of "[107]"] g by (simp add: demo_builder_def)
  with r g show ?thesis by blast
qed


theorem cuckoo_insert_effect_witness:
  "\<exists>c c' old. cuckoo_insert 1 0 demo_cache [107] (U64 7) (5, 0) = Some (Inr (), c)
    \<and> cuckoo_insert 1 0 c [107] (U64 7) (5, 0) = Some (Inr (), c') \<and> blk_key old = [107]
    \<and> live_items 1 c' = add_mset demo_block (live_items 1 c - {#old#})"
proof -
  obtain c where c: "cuckoo_insert 1 0 demo_cache [107] (U64 7) (5, 0) = Some (Inr (), c)" "cuckoo_ok c"
    "same_config demo_cache c" "cuckoo_slots c = (cuckoo_slots demo_cache)[0 := demo_block]"
    by (rule demo_inserted)
  have e: "compute_expire 1 c (5, 0) = 6" "item_block c = item_block demo_cache" "ck_item_size c = ck_item_size demo_cache"
    using c(3) demo_expire by (auto simp: compute_expire_def same_config_def item_block_def fun_eq_iff)
  have "live_copy 1 c [107]" by (rule demo_live [OF c(2-4)])
  with cuckoo_insert_effect [OF c(2) demo_rep, of 1 "(5, 0)" 0] demo_fit c(1) show ?thesis
    by (auto simp: e demo_block_def)
qed

theorem cuckoo_insert_get_witness:
  "\<exists>c' p c''. cuckoo_insert 1 0 demo_cache [107] (U64 7) (5, 0) = Some (Inr (), c')
    \<and> cuckoo_get 6 c' [107] = Some (Some p, c'') \<and> item_value c'' p = Some (U64 7)"
proof -
  have "\<forall>p \<in> set (positions demo_cache [107]). \<not> (blk_expired 1 (cuckoo_slots demo_cache ! p)
      \<and> blk_key (cuckoo_slots demo_cache ! p) = [107])"
    using demo_empty by (auto simp: demo_positions blk_expired_def blk_empty_def Let_def)
  from cuckoo_insert_get [OF demo_ok demo_rep demo_fit demo_nz this, of 0 6] show ?thesis
    by (auto simp: demo_expire)
qed

theorem cuckoo_displace_sound_witness:
  "\<exists>freed c'. displace_from 1 demo_cache 2 0 = Some (freed, c') \<and> gauges_ok c'
    \<and> (if freed then blk_empty (cuckoo_slots c' ! 2) \<and> live_items 1 c' = live_items 1 demo_cache
       else c' = demo_cache)"
proof -
  obtain freed c' where "displace_from 1 demo_cache 2 0 = Some (freed, c')"
    "if freed then blk_empty (cuckoo_slots c' ! 2) \<and> live_items 1 c' = live_items 1 demo_cache
           \<and> occupied c' \<subseteq># occupied demo_cache \<and> cuckoo_wf c' \<and> (gauges_ok demo_cache \<longrightarrow> gauges_ok c')
       else c' = demo_cache"
    using cuckoo_displace_sound [OF demo_wf, of 2 1 0] unfolding demo_fields by auto
  then show ?thesis using demo_gauges by (cases freed) auto
qed

theorem cuckoo_displace_placed_witness:
  "displace_from 1 demo_cache 2 0 = Some (True, demo_cache) \<and> placed demo_cache"
proof -
  have d: "displace_from 1 demo_cache 2 0 = Some (True, demo_cache)"
    using displace_within_simps(1) [OF demo_wf, of 2] demo_empty [of 2]
    by (simp add: displace_from_def demo_fields del: displace_within.simps)
  from cuckoo_displace_placed [OF demo_wf _ _ _ d] d demo_ok show ?thesis
    by (simp add: cuckoo_ok_def demo_fields)
qed

theorem cuckoo_gauges_exact_witness:
  "\<exists>c'. cuckoo_insert 1 0 demo_cache [107] (U64 7) (5, 0) = Some (Inr (), c') \<and> gauges_ok c'"
proof -
  obtain c where "cuckoo_insert 1 0 demo_cache [107] (U64 7) (5, 0) = Some (Inr (), c)"
    by (rule demo_inserted)
  with cuckoo_gauges_exact [OF demo_ok demo_gauges demo_rep demo_nz, of 0 0] show ?thesis by blast
qed

theorem cuckoo_arithmetic_witness:
  "\<exists>c c'. cuckoo_insert 1 0 demo_cache [107] (U64 7) (5, 0) = Some (Inr (), c)
    \<and> cuckoo_wrapping_add 1 c [107] 3 = Some (Inr 0, c') \<and> item_value c' 0 = Some (U64 10)
    \<and> item_key c' 0 = Some [107]"
proof -
  obtain c where c: "cuckoo_insert 1 0 demo_cache [107] (U64 7) (5, 0) = Some (Inr (), c)" "cuckoo_ok c"
    "same_config demo_cache c" "cuckoo_slots c = (cuckoo_slots demo_cache)[0 := demo_block]"
    by (rule demo_inserted)
  have lc: "live_copy 1 c [107]" by (rule demo_live [OF c(2-4)])
  have only: "q = 0 \<and> cuckoo_slots c ! q = demo_block" if "blk_live 1 (cuckoo_slots c ! q)" "q < 4" for q
    using that demo_empty [of q] live_not [of 1 "cuckoo_slots c ! q"] by (cases "q = 0") (auto simp: c(4) demo_fields)
  have n: "ck_nitem c = 4" and ps: "positions c [107] = [0, 1, 2, 3]"
    using c(3) demo_fields same_config_positions [OF c(3)] demo_positions by (auto simp: same_config_def)
  have "\<not> bytes_copy 1 c [107]" using only demo_block_facts by (fastforce simp: bytes_copy_def ps)
  moreover obtain r c' where rc: "cuckoo_wrapping_add 1 c [107] 3 = Some (r, c')"
    "case r of Inl e \<Rightarrow> c' = c \<and> (e = NotFound \<longleftrightarrow> \<not> live_copy 1 c [107]) \<and> (e = NotFound \<or> e = NotNumeric)
        \<and> (e = NotNumeric \<longrightarrow> bytes_copy 1 c [107])
      | Inr p \<Rightarrow> p < ck_nitem c \<and> blk_live 1 (cuckoo_slots c ! p) \<and> blk_live 1 (cuckoo_slots c' ! p)
        \<and> cuckoo_slots c' = (cuckoo_slots c)[p := cuckoo_slots c' ! p]
        \<and> (\<exists>w. item_value c p = Some (U64 w) \<and> item_value c' p = Some (U64 (w + 3)))
        \<and> item_key c p = Some [107] \<and> item_key c' p = Some [107] \<and> item_expire c' p = item_expire c p"
    using cuckoo_arithmetic [OF c(2), of cuckoo_wrapping_add "\<lambda>w. w + 3" 3 1 "[107]"] by auto
  ultimately obtain p where op: "cuckoo_wrapping_add 1 c [107] 3 = Some (Inr p, c')" and p: "p < 4" "blk_live 1 (cuckoo_slots c ! p)"
    and v: "\<exists>w. item_value c p = Some (U64 w) \<and> item_value c' p = Some (U64 (w + 3))" and k: "item_key c' p = Some [107]"
    using lc by (cases r) (auto simp: n)
  have "item_value c 0 = Some (U64 7)"
    using item_value_view [of c 0] c(2) n only [OF p(2,1)] p demo_block_facts live_not(1) [OF p(2)] by (auto simp: cuckoo_ok_def)
  with op v k only [OF p(2,1)] c(1) show ?thesis by auto
qed

theorem cuckoo_victim_soonest_witness:
  "\<exists>k < D. select_victim 0 demo_cache [0, 1, 2, 3] = Some k"
  using cuckoo_victim_soonest [OF demo_wf, of 0 "[107]"] by (auto simp: demo_fields demo_positions)

theorem cuckoo_reinsert_expired_missed_witness:
  "\<exists>c c' c''. cuckoo_insert 1 0 demo_cache [107] (U64 7) (5, 0) = Some (Inr (), c)
    \<and> cuckoo_insert 10 0 c [107] (U64 8) (5, 0) = Some (Inr (), c')
    \<and> cuckoo_get 10 c' [107] = Some (None, c'')"
proof -
  obtain c where c: "cuckoo_insert 1 0 demo_cache [107] (U64 7) (5, 0) = Some (Inr (), c)" "cuckoo_ok c"
    "same_config demo_cache c" "cuckoo_slots c = (cuckoo_slots demo_cache)[0 := demo_block]"
    by (rule demo_inserted)
  note ps = same_config_positions [OF c(3)]
  have f: "ck_item_size c = 16" "ck_max_ttl c = 100"
    using c(3) by (simp_all add: same_config_def demo_fields)
  have s: "cuckoo_slots c ! 0 = demo_block" and z: "\<And>i. 0 < i \<Longrightarrow> i < 4 \<Longrightarrow> blk_empty (cuckoo_slots c ! i)"
    using c(4) demo_empty by (simp_all add: demo_fields)
  have nl: "\<not> live_copy 10 c [107]"
    using c(2) s z demo_block_facts
    by (auto simp: live_copy_candidates cuckoo_ok_def ps demo_positions blk_live_def blk_expired_def Let_def)
  have "tiny_representable [107] (U64 8)"
    "TINY_ITEM_HDR_SIZE + length [107 :: u8] + size_of_value (U64 8) \<le> ck_item_size c"
    "compute_expire 10 c (5, 0) \<noteq> 0" "hd (positions c [107]) = 0" "blk_key (cuckoo_slots c ! 0) = [107]"
    "blk_expired 10 (cuckoo_slots c ! 0)" "1 \<in> set (positions c [107])" "blk_empty (cuckoo_slots c ! 1)"
    using z [of 1] s demo_block_facts
    by (simp_all add: tiny_representable_def f TINY_ITEM_HDR_SIZE_def compute_expire_def saturating_add_def
        min_def ps demo_positions blk_expired_def Let_def)
  from cuckoo_reinsert_expired_missed [OF c(2) this(1-6) nl this(7,8), of 0] c(1) show ?thesis by blast
qed

theorem cuckoo_insert_zero_expiry_witness:
  "\<exists>c'. cuckoo_insert 0 0 demo_cache [107] (U64 7) (0, 500000000) = Some (Inr (), c')
    \<and> \<not> live_copy 0 c' [107]"
  by (rule cuckoo_insert_zero_expiry [OF demo_ok demo_rep demo_fit _ demo_no_copy]) simp

theorem cuckoo_clear_keeps_gauges_witness:
  "\<exists>c. cuckoo_insert 1 0 demo_cache [107] (U64 7) (5, 0) = Some (Inr (), c)
    \<and> \<not> gauges_ok (cuckoo_clear c)"
proof -
  obtain c where c: "cuckoo_insert 1 0 demo_cache [107] (U64 7) (5, 0) = Some (Inr (), c)" "cuckoo_ok c"
    "gauges_ok c" "same_config demo_cache c" "cuckoo_slots c = (cuckoo_slots demo_cache)[0 := demo_block]"
    by (rule demo_inserted)
  have "occupied c \<noteq> {#}"
    using slot_in_occupied [of 0 c] c(4,5) demo_block_facts
    by (auto simp: same_config_def demo_fields blk_empty_def)
  with cuckoo_clear_keeps_gauges [OF c(2,3)] c(1) show ?thesis by blast
qed

end
