(* ===== verification/Location.thy ===== *)
theory Location
  imports Prelude
begin

unbundle bit_operations_syntax

text \<open>
  Item locations of the segment cache (\<^verbatim>\<open>hashtable/location.rs\<close>, and \<^verbatim>\<open>pack_location\<close> and
  \<^verbatim>\<open>unpack_location\<close> of \<^verbatim>\<open>hashtable/mod.rs\<close>): 44 bits that hold a segment id, the low bits of the
  segment's generation and an 8-aligned offset. The release build is modelled, so the debug assertions on
  the fields' ranges are hypotheses of the theorems and not branches.
\<close>

section \<open>Field widths\<close>

definition SEG_ID_BITS :: nat where "SEG_ID_BITS = 18"
definition TAG_BITS :: nat where "TAG_BITS = 6"
definition OFFSET_BITS :: nat where "OFFSET_BITS = 20"
definition TAG_SHIFT :: nat where "TAG_SHIFT = OFFSET_BITS"
definition SEG_ID_SHIFT :: nat where "SEG_ID_SHIFT = OFFSET_BITS + TAG_BITS"
definition TAG_MASK :: u64 where "TAG_MASK = push_bit TAG_BITS 1 - 1"
definition OFFSET_MASK :: u64 where "OFFSET_MASK = push_bit OFFSET_BITS 1 - 1"

lemmas [layout_simps] = SEG_ID_BITS_def TAG_BITS_def OFFSET_BITS_def TAG_SHIFT_def SEG_ID_SHIFT_def

lemma TAG_MASK_mask [layout_simps]: "TAG_MASK = mask 6"
  by (simp add: TAG_MASK_def TAG_BITS_def mask_eq_exp_minus_1 push_bit_eq_mult)

lemma OFFSET_MASK_mask [layout_simps]: "OFFSET_MASK = mask 20"
  by (simp add: OFFSET_MASK_def OFFSET_BITS_def mask_eq_exp_minus_1 push_bit_eq_mult)

section \<open>Locations\<close>

datatype location = Location (as_raw: u64)

definition MAX_RAW :: u64 where "MAX_RAW = 0xFFFFFFFFFFF"
definition MAX_SEGMENT_ID :: u32 where "MAX_SEGMENT_ID = push_bit SEG_ID_BITS 1 - 1"
definition MAX_SEGMENTS :: u32 where "MAX_SEGMENTS = MAX_SEGMENT_ID - 1"
definition MAX_SEGMENT_BYTES :: nat where "MAX_SEGMENT_BYTES = push_bit (OFFSET_BITS + 3) 1"
definition GHOST :: location where "GHOST = Location MAX_RAW"

definition location_from_raw :: "u64 \<Rightarrow> location" where
  "location_from_raw raw = Location (raw AND MAX_RAW)"

definition location_is_ghost :: "location \<Rightarrow> bool" where
  "location_is_ghost loc \<longleftrightarrow> loc = GHOST"

definition location_tag :: "location \<Rightarrow> u8" where
  "location_tag loc = ucast (drop_bit TAG_SHIFT (as_raw loc) AND TAG_MASK)"

definition tag_for_generation :: "u16 \<Rightarrow> u8" where
  "tag_for_generation generation = ucast (ucast generation AND TAG_MASK)"

definition pack_location :: "u32 \<Rightarrow> u16 \<Rightarrow> u64 \<Rightarrow> location" where
  "pack_location seg_id generation offset =
     (let tag = ucast (tag_for_generation generation) :: u64 in
      Location (push_bit SEG_ID_SHIFT (ucast seg_id) OR push_bit TAG_SHIFT tag
                OR (drop_bit 3 offset AND OFFSET_MASK)))"

definition unpack_location :: "location \<Rightarrow> u32 \<times> nat" where
  "unpack_location loc =
     (let raw = as_raw loc;
          seg_id = ucast (drop_bit SEG_ID_SHIFT raw);
          offset = unat (push_bit 3 (raw AND OFFSET_MASK)) in (seg_id, offset))"

section \<open>Arithmetic of the fields\<close>

lemma MAX_RAW_mask: "MAX_RAW = mask 44"
  by (simp add: MAX_RAW_def mask_eq_exp_minus_1)

lemma MAX_SEGMENT_ID_eq: "MAX_SEGMENT_ID = 262143"
  by (simp add: MAX_SEGMENT_ID_def SEG_ID_BITS_def push_bit_eq_mult)

lemma MAX_SEGMENTS_eq: "MAX_SEGMENTS = 262142"
  by (simp add: MAX_SEGMENTS_def MAX_SEGMENT_ID_eq)

lemma MAX_SEGMENT_BYTES_eq: "MAX_SEGMENT_BYTES = 8388608"
  by (simp add: MAX_SEGMENT_BYTES_def OFFSET_BITS_def push_bit_eq_mult)

lemma unat_tag_for_generation: "unat (tag_for_generation g) = unat g mod 64"
proof -
  have "unat (ucast g AND mask 6 :: u64) = unat g mod 64"
    unfolding take_bit_eq_mask [symmetric] by (simp only: unat_take_bit) (simp add: unat_ucast_up)
  then show ?thesis
    by (simp add: tag_for_generation_def TAG_MASK_mask unsigned_ucast_eq take_bit_eq_mod)
qed

lemma bit_tag_for_generation: "bit (tag_for_generation g) n \<longleftrightarrow> n < 6 \<and> bit g n"
  by (auto simp: tag_for_generation_def TAG_MASK_mask bit_simps)

text \<open>The bits of a packed location: the three fields tile it without overlap.\<close>

lemma bit_pack_location:
  "bit (as_raw (pack_location seg gen off)) n \<longleftrightarrow>
     (if n < 20 then bit off (n + 3) else if n < 26 then bit gen (n - 20) else n < 64 \<and> bit seg (n - 26))"
  by (auto simp: pack_location_def layout_simps bit_simps bit_tag_for_generation Let_def)
     (auto simp: add.commute)

text \<open>A heap issues ids up to \<^const>\<open>MAX_SEGMENTS\<close>, and items lie at 8-aligned offsets inside a segment.\<close>

definition issuable :: "u32 \<Rightarrow> u64 \<Rightarrow> bool" where
  "issuable seg off \<longleftrightarrow> 0 < seg \<and> seg \<le> MAX_SEGMENTS \<and> unat off < MAX_SEGMENT_BYTES \<and> 8 dvd unat off"

lemma unpack_pack_location:
  assumes "unat off < MAX_SEGMENT_BYTES" and "8 dvd unat off"
  shows "unpack_location (pack_location seg gen off) = (seg, unat off)"
proof -
  have "ucast (drop_bit 26 (as_raw (pack_location seg gen off))) = seg"
    by (rule bit_eqI) (auto simp: bit_simps bit_pack_location)
  moreover have "as_raw (pack_location seg gen off) AND mask 20 = take_bit 20 (drop_bit 3 off)"
    by (rule bit_eqI) (auto simp: bit_simps bit_pack_location add.commute)
  moreover have "unat (push_bit 3 (take_bit 20 (drop_bit 3 off))) = unat off"
  proof -
    have "unat (take_bit 20 (drop_bit 3 off)) = unat off div 8"
      using assms(1)
      by (simp only: unat_take_bit unat_drop_bit_eq MAX_SEGMENT_BYTES_eq) (simp add: drop_bit_eq_div)
    then show ?thesis
      using assms unfolding push_bit_eq_mult by (simp add: unat_word_ariths MAX_SEGMENT_BYTES_eq)
  qed
  ultimately show ?thesis unfolding unpack_location_def Let_def OFFSET_MASK_mask
    by (simp only: SEG_ID_SHIFT_def OFFSET_BITS_def TAG_BITS_def) simp
qed

lemma tag_pack_location: "location_tag (pack_location seg gen off) = tag_for_generation gen"
  by (rule bit_eqI) (auto simp: location_tag_def layout_simps bit_simps bit_pack_location bit_tag_for_generation)

lemma bit_issuable:
  assumes "seg \<le> MAX_SEGMENTS"
  shows "bit seg n \<Longrightarrow> n < 18" and "\<exists>k < 18. \<not> bit seg k"
proof -
  have lt: "unat seg < 262143" using assms by (simp add: word_le_nat_alt MAX_SEGMENTS_eq)
  then have tb: "take_bit 18 seg = seg"
    by (simp only: word_unat_eq_iff unat_take_bit) simp
  have "bit (take_bit 18 seg) n \<Longrightarrow> n < 18" by (simp add: bit_simps)
  then show "bit seg n \<Longrightarrow> n < 18" unfolding tb .
  show "\<exists>k < 18. \<not> bit seg k"
  proof (rule ccontr)
    assume "\<not> (\<exists>k < 18. \<not> bit seg k)"
    then have "take_bit 18 seg = mask 18" by (intro bit_eqI) (auto simp: bit_simps)
    then have "seg = 262143" unfolding tb by (simp add: mask_eq_exp_minus_1)
    with lt show False by simp
  qed
qed

lemma pack_location_range:
  assumes "seg \<le> MAX_SEGMENTS"
  shows "as_raw (pack_location seg gen off) \<le> MAX_RAW" and "pack_location seg gen off \<noteq> GHOST"
proof -
  have "take_bit 44 (as_raw (pack_location seg gen off)) = as_raw (pack_location seg gen off)"
  proof (rule bit_eqI)
    fix n
    have "\<not> n < 44 \<Longrightarrow> \<not> bit seg (n - 26)" using bit_issuable(1) [OF assms, of "n - 26"] by auto
    then show "bit (take_bit 44 (as_raw (pack_location seg gen off))) n =
        bit (as_raw (pack_location seg gen off)) n"
      by (auto simp: bit_simps bit_pack_location)
  qed
  then show "as_raw (pack_location seg gen off) \<le> MAX_RAW"
    unfolding MAX_RAW_mask by (metis take_bit_eq_mask word_and_le1)
  obtain k where k: "k < 18" "\<not> bit seg k" using bit_issuable(2) [OF assms] by blast
  then have "\<not> bit (as_raw (pack_location seg gen off)) (k + 26)" by (simp add: bit_pack_location)
  moreover have "bit MAX_RAW (k + 26)" using k by (simp add: MAX_RAW_mask bit_simps)
  ultimately show "pack_location seg gen off \<noteq> GHOST" by (auto simp: GHOST_def)
qed

section \<open>Properties\<close>

text \<open>The codec of \<^const>\<open>packed_codec\<close>: a segment id, a generation modulo 64 and an offset.\<close>

definition location_fields :: "location \<Rightarrow> (u32 \<times> nat) \<times> u8" where
  "location_fields loc = (unpack_location loc, location_tag loc)"

definition fields_location :: "(u32 \<times> nat) \<times> u8 \<Rightarrow> location" where
  "fields_location f = (case f of ((seg, off), tag) \<Rightarrow> pack_location seg (ucast tag) (of_nat off))"

definition valid_fields :: "(u32 \<times> nat) \<times> u8 \<Rightarrow> bool" where
  "valid_fields f = (case f of ((seg, off), tag) \<Rightarrow>
     off < MAX_SEGMENT_BYTES \<and> 8 dvd off \<and> unat tag < 64)"

interpretation location_codec: packed_codec valid_fields fields_location location_fields
proof
  fix f :: "(u32 \<times> nat) \<times> u8"
  assume v: "valid_fields f"
  obtain seg off tag where f: "f = ((seg, off), tag)" by (metis prod.exhaust)
  have off: "unat (of_nat off :: u64) = off"
    using v by (simp add: f valid_fields_def MAX_SEGMENT_BYTES_eq unat_of_nat)
  have "unat (tag_for_generation (ucast tag)) = unat tag"
    using v by (simp add: unat_tag_for_generation f valid_fields_def unat_ucast_up)
  then have "tag_for_generation (ucast tag) = tag" by (simp add: word_unat_eq_iff)
  with v off show "location_fields (fields_location f) = f"
    by (simp add: f location_fields_def fields_location_def valid_fields_def unpack_pack_location tag_pack_location)
qed

text \<open>
  A location packed from an issuable segment id, any generation and an 8-aligned offset inside the
  largest segment unpacks to that id and offset, carries the generation modulo 64 as its tag, fits in 44
  bits and is never the ghost sentinel.
\<close>

theorem location_roundtrip:
  assumes "issuable seg off"
  shows "unpack_location (pack_location seg gen off) = (seg, unat off)
    \<and> unat (location_tag (pack_location seg gen off)) = unat gen mod 64
    \<and> as_raw (pack_location seg gen off) \<le> MAX_RAW
    \<and> \<not> location_is_ghost (pack_location seg gen off)"
  using assms unpack_pack_location [of off seg gen] pack_location_range [of seg gen off]
  by (simp add: issuable_def tag_pack_location unat_tag_for_generation location_is_ghost_def)

theorem location_roundtrip_witness:
  "issuable 262142 8388600 \<and> unpack_location (pack_location 262142 65535 8388600) = (262142, 8388600)
    \<and> \<not> location_is_ghost (pack_location 262142 65535 8388600)"
proof -
  have "issuable 262142 8388600"
    by (simp add: issuable_def MAX_SEGMENTS_eq MAX_SEGMENT_BYTES_eq)
  with location_roundtrip [OF this, of 65535] show ?thesis by simp
qed

text \<open>
  C38. Two locations of issuable items are equal exactly when the segments, the offsets and the generations
  modulo 64 are: a location names one incarnation of a slot until its segment has been recycled 64 times.
\<close>

theorem location_identifies_incarnation:
  assumes "issuable seg off" and "issuable seg' off'"
  shows "pack_location seg gen off = pack_location seg' gen' off' \<longleftrightarrow>
    seg = seg' \<and> off = off' \<and> unat gen mod 64 = unat gen' mod 64"
proof
  assume eq: "pack_location seg gen off = pack_location seg' gen' off'"
  have "seg = seg' \<and> unat off = unat off'"
    using arg_cong [OF eq, of unpack_location] assms by (simp add: unpack_pack_location issuable_def)
  moreover have "unat gen mod 64 = unat gen' mod 64"
    using arg_cong [OF eq, of location_tag]
    by (simp add: tag_pack_location unat_tag_for_generation [symmetric])
  ultimately show "seg = seg' \<and> off = off' \<and> unat gen mod 64 = unat gen' mod 64"
    by (simp add: word_unat_eq_iff)
next
  assume r: "seg = seg' \<and> off = off' \<and> unat gen mod 64 = unat gen' mod 64"
  then have "tag_for_generation gen = tag_for_generation gen'"
    by (simp add: word_unat_eq_iff unat_tag_for_generation)
  with r show "pack_location seg gen off = pack_location seg' gen' off'"
    by (simp add: pack_location_def)
qed

theorem location_identifies_incarnation_witness:
  "pack_location 3 65 16 = pack_location 3 1 16 \<and> pack_location 3 65 16 \<noteq> pack_location 3 2 16"
proof -
  have i: "issuable 3 16" by (simp add: issuable_def MAX_SEGMENTS_eq MAX_SEGMENT_BYTES_eq)
  from location_identifies_incarnation [OF i i, of 65 1] location_identifies_incarnation [OF i i, of 65 2]
  show ?thesis by simp
qed

end
