(* ===== verification/Bucket.thy ===== *)
theory Bucket
  imports Location
begin

unbundle bit_operations_syntax

text \<open>
  The packed slot word of a hash bucket (\<^verbatim>\<open>hashtable/bucket.rs\<close>): a 12-bit tag, an 8-bit frequency and
  a 44-bit location in one 64-bit atomic, with the probabilistic frequency counter.
\<close>

section \<open>The packed word\<close>

definition NUM_ITEM_SLOTS :: nat where
  "NUM_ITEM_SLOTS = 8"

record hashbucket =
  bk_items :: "u64 list"

definition bucket_new :: hashbucket where
  "bucket_new = \<lparr>bk_items = replicate NUM_ITEM_SLOTS 0\<rparr>"

definition bucket_pack :: "u16 \<Rightarrow> u8 \<Rightarrow> location \<Rightarrow> u64" where
  "bucket_pack tag freq loc =
     (let tag_64 = push_bit 52 (ucast tag AND 0xFFF) :: u64;
          freq_64 = push_bit 44 (ucast freq AND 0xFF);
          loc_64 = as_raw loc AND MAX_RAW in
      tag_64 OR freq_64 OR loc_64)"

definition bucket_tag :: "u64 \<Rightarrow> u16" where
  "bucket_tag packed = ucast (drop_bit 52 packed)"

definition bucket_freq :: "u64 \<Rightarrow> u8" where
  "bucket_freq packed = ucast (drop_bit 44 packed AND 0xFF)"

definition bucket_location :: "u64 \<Rightarrow> location" where
  "bucket_location packed = location_from_raw packed"

definition bucket_is_ghost :: "u64 \<Rightarrow> bool" where
  "bucket_is_ghost packed \<longleftrightarrow> packed \<noteq> 0 \<and> location_is_ghost (bucket_location packed)"

definition pack_ghost :: "u16 \<Rightarrow> u8 \<Rightarrow> u64" where
  "pack_ghost tag freq = bucket_pack tag freq GHOST"

definition to_ghost :: "u64 \<Rightarrow> u64" where
  "to_ghost packed = pack_ghost (bucket_tag packed) (bucket_freq packed)"

definition with_freq :: "u64 \<Rightarrow> u8 \<Rightarrow> u64" where
  "with_freq packed freq =
     (let freq_mask = push_bit 44 0xFF :: u64 in
      (packed AND NOT freq_mask) OR push_bit 44 (ucast freq))"

definition try_update_freq :: "u64 \<Rightarrow> u8 \<Rightarrow> u64 \<Rightarrow> u64 option" where
  "try_update_freq packed freq draw =
     (if freq \<ge> 127 then None
      else let should_increment = (if freq \<le> 16 then True else draw mod ucast freq = 0) in
        if should_increment then Some (with_freq packed (freq + 1)) else None)"

section \<open>Bits of the word\<close>

lemma mask_literals: "(0xFFF :: u64) = mask 12" "(0xFF :: u64) = mask 8"
  by (simp_all add: mask_eq_exp_minus_1)

lemma bit_bucket_pack:
  "bit (bucket_pack tag freq loc) n \<longleftrightarrow>
     (if n < 44 then bit (as_raw loc) n else if n < 52 then bit freq (n - 44) else n < 64 \<and> bit tag (n - 52))"
  unfolding bucket_pack_def Let_def mask_literals MAX_RAW_mask by (auto simp: bit_simps)

lemma bit_with_freq:
  "bit (with_freq packed freq) n \<longleftrightarrow>
     (if 44 \<le> n \<and> n < 52 then bit freq (n - 44) else bit packed n)"
  unfolding with_freq_def Let_def mask_literals
  by (auto simp: bit_simps dest: bit_imp_le_length)

lemma bit_bucket_tag: "bit (bucket_tag packed) n \<longleftrightarrow> bit packed (n + 52)"
  by (auto simp: bucket_tag_def bit_simps add.commute dest: bit_imp_le_length)

lemma bit_bucket_freq: "bit (bucket_freq packed) n \<longleftrightarrow> n < 8 \<and> bit packed (n + 44)"
  unfolding bucket_freq_def mask_literals by (auto simp: bit_simps add.commute)

lemma bit_bucket_location: "bit (as_raw (bucket_location packed)) n \<longleftrightarrow> n < 44 \<and> bit packed n"
  by (auto simp: bucket_location_def location_from_raw_def MAX_RAW_mask bit_simps)

lemma tag_bit_bound: "unat tag < 4096 \<Longrightarrow> bit tag n \<Longrightarrow> n < 12" for tag :: u16
proof -
  assume "unat tag < 4096" and b: "bit tag n"
  then have "take_bit 12 tag = tag" by (simp only: word_unat_eq_iff unat_take_bit) simp
  with b have "bit (take_bit 12 tag) n" by simp
  then show "n < 12" by (simp add: bit_simps)
qed

lemma bucket_tag_pack: "unat tag < 4096 \<Longrightarrow> bucket_tag (bucket_pack tag freq loc) = tag"
  by (rule bit_eqI) (auto simp: bit_bucket_tag bit_bucket_pack dest: tag_bit_bound)

lemma bucket_freq_pack: "bucket_freq (bucket_pack tag freq loc) = freq"
  by (rule bit_eqI) (auto simp: bit_bucket_freq bit_bucket_pack)

lemma raw_bit_bound: "as_raw loc \<le> MAX_RAW \<Longrightarrow> bit (as_raw loc) n \<Longrightarrow> n < 44"
proof -
  assume le: "as_raw loc \<le> MAX_RAW" and b: "bit (as_raw loc) n"
  have "unat (as_raw loc) < 2 ^ 44" using le by (simp add: word_le_nat_alt MAX_RAW_def)
  then have "take_bit 44 (as_raw loc) = as_raw loc" by (simp only: word_unat_eq_iff unat_take_bit) simp
  with b have "bit (take_bit 44 (as_raw loc)) n" by simp
  then show "n < 44" by (simp add: bit_simps)
qed

lemma bucket_location_pack: "as_raw loc \<le> MAX_RAW \<Longrightarrow> bucket_location (bucket_pack tag freq loc) = loc"
  by (rule location.expand, rule bit_eqI)
     (auto simp: bit_bucket_location bit_bucket_pack dest: raw_bit_bound)

lemma GHOST_raw: "as_raw GHOST \<le> MAX_RAW"
  by (simp add: GHOST_def)

lemma bucket_tag_less: "unat (bucket_tag packed) < 4096"
proof -
  have "take_bit 12 (bucket_tag packed) = bucket_tag packed"
    by (rule bit_eqI) (auto simp: bit_simps bit_bucket_tag dest: bit_imp_le_length)
  then have "unat (bucket_tag packed) = unat (bucket_tag packed) mod 2 ^ 12"
    by (metis unat_take_bit)
  then show ?thesis using mod_less_divisor [of "2 ^ 12" "unat (bucket_tag packed)"] by simp
qed

lemma bucket_is_ghost_iff: "bucket_is_ghost packed \<longleftrightarrow> bucket_location packed = GHOST"
proof -
  have "bucket_location 0 \<noteq> GHOST"
    by (simp add: bucket_location_def location_from_raw_def GHOST_def MAX_RAW_def)
  then show ?thesis by (auto simp: bucket_is_ghost_def location_is_ghost_def)
qed

text \<open>A word is determined by its three fields.\<close>

lemma bucket_word_eqI:
  assumes "bucket_tag p = bucket_tag q" "bucket_freq p = bucket_freq q" "bucket_location p = bucket_location q"
  shows "p = q"
proof (rule bit_eqI)
  fix n
  show "bit p n = bit q n"
  proof (cases "n < 44")
    case True
    then show ?thesis using assms(3) by (metis bit_bucket_location)
  next
    case f: False
    show ?thesis
    proof (cases "n < 52")
      case True
      with f have "bit w n = bit (bucket_freq w) (n - 44)" for w by (auto simp: bit_bucket_freq)
      then show ?thesis using assms(2) by simp
    next
      case False
      then have "bit w n = bit (bucket_tag w) (n - 52)" for w by (simp add: bit_bucket_tag)
      then show ?thesis using assms(1) by simp
    qed
  qed
qed

lemma with_freq_fields:
  "bucket_tag (with_freq p f) = bucket_tag p" "bucket_freq (with_freq p f) = f"
  "bucket_location (with_freq p f) = bucket_location p"
proof -
  show "bucket_tag (with_freq p f) = bucket_tag p"
    by (rule bit_eqI) (simp add: bit_bucket_tag bit_with_freq)
  show "bucket_freq (with_freq p f) = f"
    by (rule bit_eqI) (auto simp: bit_bucket_freq bit_with_freq)
  show "bucket_location (with_freq p f) = bucket_location p"
    by (rule location.expand, rule bit_eqI) (auto simp: bit_bucket_location bit_with_freq)
qed

lemma to_ghost_fields:
  "bucket_tag (to_ghost p) = bucket_tag p" "bucket_freq (to_ghost p) = bucket_freq p"
  "bucket_is_ghost (to_ghost p)"
  by (simp_all add: to_ghost_def pack_ghost_def bucket_tag_pack bucket_tag_less bucket_freq_pack
      bucket_is_ghost_iff bucket_location_pack GHOST_raw)

lemma bucket_location_range: "as_raw (bucket_location p) \<le> MAX_RAW"
  unfolding bucket_location_def location_from_raw_def by (simp add: word_and_le1)

section \<open>Properties\<close>

definition bucket_unpack :: "u64 \<Rightarrow> u16 \<times> u8 \<times> location" where
  "bucket_unpack packed = (bucket_tag packed, bucket_freq packed, bucket_location packed)"

definition bucket_valid :: "u16 \<times> u8 \<times> location \<Rightarrow> bool" where
  "bucket_valid e = (case e of (tag, freq, loc) \<Rightarrow> unat tag < 4096 \<and> as_raw loc \<le> MAX_RAW)"

interpretation bucket_codec: packed_codec bucket_valid "\<lambda>(tag, freq, loc). bucket_pack tag freq loc" bucket_unpack
  by unfold_locales
     (auto simp: bucket_valid_def bucket_unpack_def bucket_tag_pack bucket_freq_pack bucket_location_pack)

text \<open>
  The slot word is a faithful encoding: packing a 12-bit tag, a frequency and a 44-bit location and
  reading the fields back gives them, distinct entries give distinct words, and every word is the packing
  of its own fields.
\<close>

theorem bucket_word_codec:
  assumes "unat tag < 4096" and "as_raw loc \<le> MAX_RAW"
  shows "bucket_unpack (bucket_pack tag freq loc) = (tag, freq, loc)
    \<and> bucket_pack (bucket_tag w) (bucket_freq w) (bucket_location w) = w"
proof
  show "bucket_unpack (bucket_pack tag freq loc) = (tag, freq, loc)"
    using bucket_codec.unpack_pack [of "(tag, freq, loc)"] assms by (simp add: bucket_valid_def)
  show "bucket_pack (bucket_tag w) (bucket_freq w) (bucket_location w) = w"
    by (rule bucket_word_eqI)
       (simp_all add: bucket_tag_pack bucket_tag_less bucket_freq_pack bucket_location_pack bucket_location_range)
qed

theorem bucket_word_codec_witness:
  "bucket_unpack (bucket_pack 0xABC 17 (Location 0x123456789)) = (0xABC, 17, Location 0x123456789)"
  using bucket_word_codec [of "0xABC" "Location 0x123456789" 17 0] by (simp add: MAX_RAW_def)

text \<open>
  The frequency counter: an update never touches the tag or the location and raises the frequency by
  exactly one, it always happens at 16 or below, and the counter saturates at 127.
\<close>

theorem bucket_freq_update:
  "(case try_update_freq p (bucket_freq p) draw of
      Some p' \<Rightarrow> bucket_tag p' = bucket_tag p \<and> bucket_location p' = bucket_location p
        \<and> unat (bucket_freq p') = unat (bucket_freq p) + 1 \<and> unat (bucket_freq p') \<le> 127
        \<and> (bucket_is_ghost p' \<longleftrightarrow> bucket_is_ghost p)
    | None \<Rightarrow> unat (bucket_freq p) \<ge> 127 \<or> unat (bucket_freq p) > 16 \<and> unat draw mod unat (bucket_freq p) \<noteq> 0)"
proof -
  let ?f = "bucket_freq p"
  have suc: "?f < 127 \<Longrightarrow> unat (?f + 1) = unat ?f + 1"
    by (simp add: word_less_nat_alt unat_word_ariths)
  have draw: "draw mod ucast ?f = 0 \<longleftrightarrow> unat draw mod unat ?f = 0"
    by (simp add: word_unat_eq_iff unat_mod unat_ucast_up)
  show ?thesis
    using suc
    by (auto simp: try_update_freq_def with_freq_fields bucket_is_ghost_iff draw word_le_nat_alt
        word_less_nat_alt not_le)
qed

end
