(* ===== verification/Rand.thy ===== *)
theory Rand
  imports Prelude
begin

unbundle bit_operations_syntax

text \<open>
  The shared random source of the segment cache (\<^verbatim>\<open>rand.rs\<close>): SplitMix64 over an atomic counter.
\<close>

definition GAMMA :: u64 where "GAMMA = 0x9E3779B97F4A7C15"
definition DEFAULT_SEED :: u64 where "DEFAULT_SEED = 0x2545F4914F6CDD1D"

record random =
  rng_state :: u64

definition random_new :: "u64 \<Rightarrow> random" where
  "random_new seed = \<lparr>rng_state = seed\<rparr>"

definition random_default :: random where
  "random_default = random_new DEFAULT_SEED"

text \<open>\<^verbatim>\<open>next_u64\<close>: \<^verbatim>\<open>fetch_add\<close> returns the value before the step, which is then finalised.\<close>

definition finalise :: "u64 \<Rightarrow> u64" where
  "finalise z =
     (let z = (z XOR drop_bit 30 z) * 0xBF58476D1CE4E5B9;
          z = (z XOR drop_bit 27 z) * 0x94D049BB133111EB in
      z XOR drop_bit 31 z)"

definition next_u64 :: "random \<Rightarrow> u64 \<times> random" where
  "next_u64 r = (let z = rng_state r in (finalise z, r\<lparr>rng_state := z + GAMMA\<rparr>))"

definition next_u32 :: "random \<Rightarrow> u32 \<times> random" where
  "next_u32 r = (let (z, r) = next_u64 r in (ucast z, r))"

primrec draws :: "nat \<Rightarrow> random \<Rightarrow> u64 list" where
  "draws 0 r = []"
| "draws (Suc n) r = (let (z, r) = next_u64 r in z # draws n r)"

section \<open>The finaliser is a bijection\<close>

lemma mult_cancel_by_inverse:
  fixes a b c d :: u64
  assumes "c * d = 1"
  shows "a * c = b * c \<longleftrightarrow> a = b"
proof
  assume "a * c = b * c"
  then have "a * c * d = b * c * d" by simp
  then show "a = b" using assms by (simp only: mult.assoc mult.right_neutral)
qed simp

text \<open>\<open>z XOR (z >> k)\<close> determines \<open>z\<close>: the bits are recovered from the top.\<close>

lemma xorshift_inj:
  fixes a b :: u64
  assumes k: "0 < k" and eq: "a XOR drop_bit k a = b XOR drop_bit k b"
  shows "a = b"
proof -
  have step: "bit a n = (bit b n \<noteq> (bit b (n + k) \<noteq> bit a (n + k)))" for n
    using arg_cong [OF eq, of "\<lambda>w. bit w n"] by (auto simp: bit_simps add.commute)
  have top: "bit a n = bit b n" if "64 - n \<le> m" for m n
    using that
  proof (induction m arbitrary: n)
    case 0
    then have "64 \<le> n" by simp
    then show ?case by (auto dest: bit_imp_le_length)
  next
    case (Suc m)
    then have "bit a (n + k) = bit b (n + k)" using k by (intro Suc.IH) simp
    with step [of n] show ?case by blast
  qed
  show ?thesis by (rule bit_eqI, rule top [of _ 64]) simp
qed

lemma finalise_inj: "finalise a = finalise b \<longleftrightarrow> a = b"
proof
  assume eq: "finalise a = finalise b"
  define f where "f z = (z XOR drop_bit 30 z) * (0xBF58476D1CE4E5B9 :: u64)" for z
  define g where "g z = (z XOR drop_bit 27 z) * (0x94D049BB133111EB :: u64)" for z
  have i1: "(0xBF58476D1CE4E5B9 :: u64) * 0x96DE1B173F119089 = 1" by simp
  have i2: "(0x94D049BB133111EB :: u64) * 0x319642B2D24D8EC3 = 1" by simp
  have "g (f a) XOR drop_bit 31 (g (f a)) = g (f b) XOR drop_bit 31 (g (f b))"
    using eq unfolding finalise_def Let_def f_def g_def .
  then have "g (f a) = g (f b)" by (rule xorshift_inj [rotated]) simp
  then have "f a XOR drop_bit 27 (f a) = f b XOR drop_bit 27 (f b)"
    unfolding g_def mult_cancel_by_inverse [OF i2] .
  then have "f a = f b" by (rule xorshift_inj [rotated]) simp
  then have "a XOR drop_bit 30 a = b XOR drop_bit 30 b"
    unfolding f_def mult_cancel_by_inverse [OF i1] .
  then show "a = b" by (rule xorshift_inj [rotated]) simp
qed simp

lemma draws_nth: "i < n \<Longrightarrow> draws n r ! i = finalise (rng_state r + of_nat i * GAMMA)"
proof (induction n arbitrary: r i)
  case (Suc n)
  then show ?case
    by (cases i) (auto simp: next_u64_def Let_def algebra_simps)
qed simp

lemma length_draws [simp]: "length (draws n r) = n"
  by (induction n arbitrary: r) (auto simp: next_u64_def Let_def)

text \<open>
  The generator has full period: the first \<open>2 ^ 64\<close> draws of any seed are pairwise distinct, so every
  64-bit value occurs exactly once before the stream repeats.
\<close>

theorem random_draws_distinct:
  assumes "n \<le> 2 ^ 64"
  shows "distinct (draws n r)"
proof (subst distinct_conv_nth, intro allI impI)
  fix i j
  assume ij: "i < length (draws n r)" "j < length (draws n r)" "i \<noteq> j"
  have g: "GAMMA * 0xF1DE83E19937733D = 1" by (simp add: GAMMA_def)
  have "(of_nat i :: u64) \<noteq> of_nat j"
  proof
    assume "(of_nat i :: u64) = of_nat j"
    then have "unat (of_nat i :: u64) = unat (of_nat j :: u64)" by simp
    with ij assms show False by (simp add: unat_of_nat)
  qed
  then have "of_nat i * GAMMA \<noteq> of_nat j * GAMMA" by (simp add: mult_cancel_by_inverse [OF g])
  with ij show "draws n r ! i \<noteq> draws n r ! j" by (simp add: draws_nth finalise_inj)
qed

theorem random_draws_distinct_witness: "distinct (draws 1000 random_default)"
  by (rule random_draws_distinct) simp

end
