(* ===== verification/CasToken.thy ===== *)
theory CasToken
  imports Bucket Rand
begin

unbundle bit_operations_syntax

text \<open>
  The compare-and-swap token (\<^verbatim>\<open>cas.rs\<close>): the location and the full generation of an item, with the
  version of a numeric item folded in.
\<close>

datatype cas_token = CasToken (token_raw: u64)

definition LOCATION_MASK :: u64 where "LOCATION_MASK = 0xFFFFFFFFFFF"
definition GENERATION_SHIFT :: nat where "GENERATION_SHIFT = 44"

definition token_new :: "location \<Rightarrow> u16 \<Rightarrow> cas_token" where
  "token_new loc generation = CasToken (as_raw loc OR push_bit GENERATION_SHIFT (ucast generation))"

definition token_from_raw :: "u64 \<Rightarrow> cas_token" where
  "token_from_raw raw = CasToken raw"

definition token_location :: "cas_token \<Rightarrow> location" where
  "token_location t = location_from_raw (token_raw t AND LOCATION_MASK)"

definition token_generation :: "cas_token \<Rightarrow> u16" where
  "token_generation t = ucast (drop_bit GENERATION_SHIFT (token_raw t))"

definition mix_version :: "u64 \<Rightarrow> u64 \<Rightarrow> u64" where
  "mix_version raw version = raw XOR (version * 0x9E3779B97F4A7C15)"

lemma LOCATION_MASK_mask: "LOCATION_MASK = mask 44"
  by (simp add: LOCATION_MASK_def mask_eq_exp_minus_1)

lemma token_fields:
  assumes "as_raw loc \<le> MAX_RAW"
  shows "token_location (token_new loc gen) = loc" and "token_generation (token_new loc gen) = gen"
proof -
  show "token_location (token_new loc gen) = loc"
    by (rule location.expand, rule bit_eqI)
       (auto simp: token_location_def token_new_def location_from_raw_def LOCATION_MASK_mask MAX_RAW_mask
         GENERATION_SHIFT_def bit_simps dest: raw_bit_bound [OF assms])
  show "token_generation (token_new loc gen) = gen"
    by (rule bit_eqI)
       (auto simp: token_generation_def token_new_def GENERATION_SHIFT_def bit_simps
         dest: raw_bit_bound [OF assms] bit_imp_le_length)
qed

interpretation token_codec: packed_codec "\<lambda>(loc, gen). as_raw loc \<le> MAX_RAW"
  "\<lambda>(loc, gen). token_new loc gen" "\<lambda>t. (token_location t, token_generation t)"
  by unfold_locales (auto simp: token_fields)

lemma mix_version_inj: "mix_version raw v = mix_version raw v' \<longleftrightarrow> v = v'"
proof
  have i: "(0x9E3779B97F4A7C15 :: u64) * 0xF1DE83E19937733D = 1" by simp
  assume "mix_version raw v = mix_version raw v'"
  then have "raw XOR (raw XOR (v * 0x9E3779B97F4A7C15)) = raw XOR (raw XOR (v' * 0x9E3779B97F4A7C15))"
    by (simp add: mix_version_def)
  then have "v * 0x9E3779B97F4A7C15 = v' * 0x9E3779B97F4A7C15" by (simp add: xor.assoc [symmetric])
  then show "v = v'" unfolding mult_cancel_by_inverse [OF i] .
qed simp

text \<open>
  A token identifies a version: two published locations and generations give the same token only when
  both agree, and for one item the folded token changes whenever the numeric version does.
\<close>

theorem cas_token_identifies_version:
  assumes "as_raw loc \<le> MAX_RAW" and "as_raw loc' \<le> MAX_RAW"
  shows "(token_new loc gen = token_new loc' gen' \<longleftrightarrow> loc = loc' \<and> gen = gen')
    \<and> (mix_version (token_raw (token_new loc gen)) v = mix_version (token_raw (token_new loc gen)) v' \<longleftrightarrow> v = v')"
  using token_codec.pack_eq_iff [of "(loc, gen)" "(loc', gen')"] assms by (simp add: mix_version_inj)

theorem cas_token_identifies_version_witness:
  "token_new (Location 77) 5 \<noteq> token_new (Location 77) 6
    \<and> mix_version (token_raw (token_new (Location 77) 5)) 2 \<noteq> mix_version (token_raw (token_new (Location 77) 5)) 4"
  using cas_token_identifies_version [of "Location 77" "Location 77" 5 6 2 4] by (simp add: MAX_RAW_def)

end
