(* ===== verification/TtlIndex.thy ===== *)
theory TtlIndex
  imports Prelude
begin

unbundle bit_operations_syntax

text \<open>
  The mapping from a TTL to one of the 1024 TTL buckets (\<^verbatim>\<open>ttl_buckets/ttl_buckets.rs\<close>): four tiers of
  256 buckets whose width grows sixteenfold, and the TTL each bucket stamps on its segments. Signed 32-bit
  seconds are integers; every operation the code does on them stays in range.
\<close>

definition BUCKETS_PER_TIER :: nat where "BUCKETS_PER_TIER = 256"
definition TIER_COUNT :: nat where "TIER_COUNT = 4"
definition TOTAL_BUCKETS :: nat where "TOTAL_BUCKETS = BUCKETS_PER_TIER * TIER_COUNT"
definition TIER_1_SHIFT :: nat where "TIER_1_SHIFT = 3"
definition TIER_2_SHIFT :: nat where "TIER_2_SHIFT = 7"
definition TIER_3_SHIFT :: nat where "TIER_3_SHIFT = 11"
definition TIER_4_SHIFT :: nat where "TIER_4_SHIFT = 15"
definition TIER_1_MAX :: int where "TIER_1_MAX = push_bit (TIER_1_SHIFT + 8) 1"
definition TIER_2_MAX :: int where "TIER_2_MAX = push_bit (TIER_2_SHIFT + 8) 1"
definition TIER_3_MAX :: int where "TIER_3_MAX = push_bit (TIER_3_SHIFT + 8) 1"

lemmas ttl_consts = BUCKETS_PER_TIER_def TIER_COUNT_def TOTAL_BUCKETS_def TIER_1_SHIFT_def TIER_2_SHIFT_def
  TIER_3_SHIFT_def TIER_4_SHIFT_def

definition bucket_index :: "int \<Rightarrow> nat" where
  "bucket_index secs =
     (if secs \<le> 0 then TOTAL_BUCKETS - 1
      else if secs AND NOT (TIER_1_MAX - 1) = 0 then nat (drop_bit TIER_1_SHIFT secs)
      else if secs AND NOT (TIER_2_MAX - 1) = 0 then nat (drop_bit TIER_2_SHIFT secs) + BUCKETS_PER_TIER
      else if secs AND NOT (TIER_3_MAX - 1) = 0 then nat (drop_bit TIER_3_SHIFT secs) + BUCKETS_PER_TIER * 2
      else let idx = nat (drop_bit TIER_4_SHIFT secs) + BUCKETS_PER_TIER * 3 in min idx (TOTAL_BUCKETS - 1))"

text \<open>\<^verbatim>\<open>get_bucket_index\<close>: the whole seconds of the duration, a \<^verbatim>\<open>u32\<close>, read as an \<^verbatim>\<open>i32\<close>.\<close>

definition get_bucket_index :: "u32 \<Rightarrow> nat" where
  "get_bucket_index secs = bucket_index (sint secs)"

text \<open>\<^verbatim>\<open>TtlBuckets::new\<close>: the TTL of each bucket, in order.\<close>

definition tier_widths :: "nat list" where
  "tier_widths = [push_bit TIER_1_SHIFT 1, push_bit TIER_2_SHIFT 1, push_bit TIER_3_SHIFT 1, push_bit TIER_4_SHIFT 1]"

definition bucket_ttls :: "nat list" where
  "bucket_ttls = concat (map (\<lambda>width. map (\<lambda>j. max (width * j) 1) [0..<BUCKETS_PER_TIER]) tier_widths)"

section \<open>Arithmetic form\<close>

lemma and_not_mask_iff:
  fixes x :: int
  assumes "0 \<le> x"
  shows "x AND NOT (push_bit n 1 - 1) = 0 \<longleftrightarrow> x < 2 ^ n"
proof -
  have "x AND NOT (push_bit n 1 - 1) = x AND NOT (mask n)"
    by (simp add: mask_eq_exp_minus_1 push_bit_eq_mult)
  moreover have "x AND NOT (mask n) = 0 \<longleftrightarrow> take_bit n x = x"
    by (auto simp: bit_eq_iff bit_simps)
  ultimately show ?thesis using assms by (simp add: take_bit_int_eq_self_iff)
qed

lemma bucket_index_eq:
  "bucket_index secs =
     (if secs \<le> 0 then 1023 else if secs < 2048 then nat secs div 8
      else if secs < 32768 then nat secs div 128 + 256
      else if secs < 524288 then nat secs div 2048 + 512
      else min (nat secs div 32768 + 768) 1023)"
proof (cases "0 < secs")
  case True
  then have m: "secs AND NOT (TIER_1_MAX - 1) = 0 \<longleftrightarrow> secs < 2048"
    "secs AND NOT (TIER_2_MAX - 1) = 0 \<longleftrightarrow> secs < 32768"
    "secs AND NOT (TIER_3_MAX - 1) = 0 \<longleftrightarrow> secs < 524288"
    by (simp_all only: TIER_1_MAX_def TIER_2_MAX_def TIER_3_MAX_def and_not_mask_iff order_less_imp_le)
       (simp_all add: ttl_consts)
  have d: "nat (drop_bit k secs) = nat secs div 2 ^ k" for k
    using True by (simp add: drop_bit_eq_div nat_div_distrib nat_power_eq)
  show ?thesis
    using True unfolding bucket_index_def m d by (simp add: ttl_consts Let_def)
next
  case False
  then show ?thesis by (simp add: bucket_index_def ttl_consts)
qed

lemma tier_nth:
  assumes "i < 256"
  shows "bucket_ttls ! i = max (8 * i) 1" and "bucket_ttls ! (i + 256) = max (128 * i) 1"
    and "bucket_ttls ! (i + 512) = max (2048 * i) 1" and "bucket_ttls ! (i + 768) = max (32768 * i) 1"
  using assms
  by (simp_all add: bucket_ttls_def tier_widths_def ttl_consts push_bit_eq_mult nth_append del: upt_Suc)

lemma length_bucket_ttls: "length bucket_ttls = 1024"
  by (simp add: bucket_ttls_def tier_widths_def ttl_consts)

section \<open>Properties\<close>

definition tier_width :: "nat \<Rightarrow> nat" where
  "tier_width i = tier_widths ! (i div 256)"

lemma tier_width_nth:
  assumes "i < 256"
  shows "tier_width i = 8" "tier_width (i + 256) = 128" "tier_width (i + 512) = 2048" "tier_width (i + 768) = 32768"
proof -
  have "(i + 256 * k) div 256 = k" for k using assms by simp
  from this [of 0] this [of 1] this [of 2] this [of 3]
  show "tier_width i = 8" "tier_width (i + 256) = 128" "tier_width (i + 512) = 2048" "tier_width (i + 768) = 32768"
    by (simp_all add: tier_width_def tier_widths_def ttl_consts push_bit_eq_mult)
qed

lemma ttl_floor:
  "bucket_index secs < length bucket_ttls
   \<and> (0 < secs \<longrightarrow> int (bucket_ttls ! bucket_index secs) \<le> secs)
   \<and> (0 < secs \<and> secs < 8388608 \<longrightarrow>
        secs < int (bucket_ttls ! bucket_index secs + tier_width (bucket_index secs)))"
proof (cases "0 < secs")
  case False
  then show ?thesis by (simp add: bucket_index_eq length_bucket_ttls)
next
  case True
  define s where "s = nat secs"
  have secs: "secs = int s" and sp: "0 < s" using True by (simp_all add: s_def)
  note eq = bucket_index_eq [of "int s"]
  have dl: "s < 8 * (s div 8) + 8" "s < 128 * (s div 128) + 128" "s < 2048 * (s div 2048) + 2048"
    using dividend_less_times_div [of _ s] by (simp_all add: add.commute)
  have "bucket_index secs < 1024 \<and> bucket_ttls ! bucket_index secs \<le> s
      \<and> (s < 8388608 \<longrightarrow> s < bucket_ttls ! bucket_index secs + tier_width (bucket_index secs))"
    (is ?fl)
  proof -
    consider "s < 2048" | "2048 \<le> s" "s < 32768" | "32768 \<le> s" "s < 524288" | "524288 \<le> s" by linarith
    then show ?thesis
    proof cases
      case 1
      then have i: "bucket_index secs = s div 8" and lt: "s div 8 < 256" using sp by (simp_all add: eq secs)
      show ?thesis unfolding i tier_nth(1) [OF lt] tier_width_nth(1) [OF lt] using sp lt dl(1) by (simp add: max_def)
    next
      case 2
      then have i: "bucket_index secs = s div 128 + 256" and lt: "s div 128 < 256" by (simp_all add: eq secs)
      show ?thesis unfolding i tier_nth(2) [OF lt] tier_width_nth(2) [OF lt] using sp lt dl(2) by (simp add: max_def)
    next
      case 3
      then have i: "bucket_index secs = s div 2048 + 512" and lt: "s div 2048 < 256" by (simp_all add: eq secs)
      show ?thesis unfolding i tier_nth(3) [OF lt] tier_width_nth(3) [OF lt] using sp lt dl(3) by (simp add: max_def)
    next
      case 4
      define j where "j = min (s div 32768) 255"
      have i: "bucket_index secs = j + 768" and lt: "j < 256"
        using 4 by (simp_all add: eq secs j_def min_def)
      have "j \<le> s div 32768" by (simp add: j_def)
      then have "32768 * j \<le> s" by (simp add: less_eq_div_iff_mult_less_eq mult.commute)
      moreover have "s < 32768 * j + 32768" if "s < 8388608"
      proof -
        have "j = s div 32768" using that less_mult_imp_div_less [of s 256 32768] by (simp add: j_def)
        then show ?thesis using dividend_less_times_div [of 32768 s] by simp
      qed
      ultimately show ?thesis
        unfolding i tier_nth(4) [OF lt] tier_width_nth(4) [OF lt] using sp lt by (cases "j = 0") (auto simp: max_def)
    qed
  qed
  then show ?thesis by (auto simp: secs length_bucket_ttls)
qed

text \<open>The TTL of a bucket belongs to that bucket, for every bucket an index leads to.\<close>

lemma bucket_index_idem: "bucket_index (int (bucket_ttls ! bucket_index secs)) = bucket_index secs"
proof (cases "0 < secs")
  case False
  then show ?thesis using tier_nth(4) [of 255] by (simp add: bucket_index_eq)
next
  case True
  define s where "s = nat secs"
  have secs: "secs = int s" and sp: "0 < s" using True by (simp_all add: s_def)
  note eq = bucket_index_eq
  consider "s < 2048" | "2048 \<le> s" "s < 32768" | "32768 \<le> s" "s < 524288" | "524288 \<le> s" by linarith
  then show ?thesis
  proof cases
    case 1
    then have i: "bucket_index secs = s div 8" and lt: "s div 8 < 256" using sp by (simp_all add: eq secs)
    show ?thesis unfolding i tier_nth(1) [OF lt] using lt by (auto simp: eq max_def)
  next
    case 2
    then have i: "bucket_index secs = s div 128 + 256" and lt: "s div 128 < 256" "16 \<le> s div 128" by (simp_all add: eq secs)
    show ?thesis unfolding i tier_nth(2) [OF lt(1)] using lt by (auto simp: eq max_def)
  next
    case 3
    then have i: "bucket_index secs = s div 2048 + 512" and lt: "s div 2048 < 256" "16 \<le> s div 2048" by (simp_all add: eq secs)
    show ?thesis unfolding i tier_nth(3) [OF lt(1)] using lt by (auto simp: eq max_def)
  next
    case 4
    define j where "j = min (s div 32768) 255"
    have "16 \<le> s div 32768" using 4 by simp
    then have i: "bucket_index secs = j + 768" and lt: "j < 256" "16 \<le> j"
      using 4 by (simp_all add: eq secs j_def min_def)
    show ?thesis unfolding i tier_nth(4) [OF lt(1)] using lt by (auto simp: eq max_def)
  qed
qed

lemma get_bucket_index_idem: "get_bucket_index (of_nat (bucket_ttls ! get_bucket_index w)) = get_bucket_index w"
proof -
  have "bucket_ttls ! bucket_index (sint w) < 2 ^ 31"
  proof (cases "0 < sint w")
    case True
    have "sint w < 2 ^ 31" using sint_lt [of w] by simp
    then show ?thesis using ttl_floor [of "sint w"] True by simp
  next
    case False
    then show ?thesis using tier_nth(4) [of 255] by (simp add: bucket_index_eq)
  qed
  then have "sint (of_nat (bucket_ttls ! bucket_index (sint w)) :: u32) = int (bucket_ttls ! bucket_index (sint w))"
    by (simp add: signed_of_nat signed_take_bit_int_eq_self)
  then show ?thesis by (simp add: get_bucket_index_def bucket_index_idem)
qed

text \<open>
  C39. Every TTL maps inside the bucket array, and the TTL the bucket stamps on its segments is at most the
  one requested, if that is positive, and less than one bucket width below it (TTLs past the last tier and the TTL
  zero fall into the last bucket): no item with a positive TTL outlives it, and it loses less than the bucket's width.
\<close>

theorem ttl_bucket_floor:
  "bucket_index secs < length bucket_ttls
   \<and> (0 < secs \<longrightarrow> int (bucket_ttls ! bucket_index secs) \<le> secs)
   \<and> (0 < secs \<and> secs < 8388608 \<longrightarrow>
        secs < int (bucket_ttls ! bucket_index secs + tier_width (bucket_index secs)))"
  by (rule ttl_floor)

theorem ttl_bucket_floor_witness:
  "bucket_ttls ! bucket_index 3600 = 3584 \<and> int (bucket_ttls ! bucket_index 3600) \<le> 3600"
proof -
  have "bucket_index 3600 = 28 + 256" by (simp add: bucket_index_eq)
  moreover have "bucket_ttls ! (28 + 256) = 3584" using tier_nth(2) [of 28] by simp
  ultimately show ?thesis using ttl_bucket_floor [of 3600] by simp
qed

text \<open>
  A longer positive TTL never maps to an earlier bucket, across tier boundaries and the final clamp.
\<close>

theorem ttl_bucket_monotone:
  assumes "0 < a" and "a \<le> b"
  shows "bucket_index a \<le> bucket_index b"
proof -
  define x where "x = nat a"
  define y where "y = nat b"
  have xy: "a = int x" "b = int y" "0 < x" "x \<le> y" using assms by (simp_all add: x_def y_def)
  have m: "x div k \<le> y div k" for k using xy(4) by (rule div_le_mono)
  have up: "x < 2048 \<Longrightarrow> x div 8 < 256" "x < 32768 \<Longrightarrow> x div 128 < 256" "x < 524288 \<Longrightarrow> x div 2048 < 256"
    by (simp_all add: less_mult_imp_div_less)
  note eq = bucket_index_eq [of "int x"] bucket_index_eq [of "int y"]
  consider "x < 2048" | "2048 \<le> x" "x < 32768" | "32768 \<le> x" "x < 524288" | "524288 \<le> x" by linarith
  then show ?thesis
  proof cases
    case 1
    then show ?thesis using xy up(1) m [of 8] by (simp add: eq)
  next
    case 2
    then show ?thesis using xy up(2) m [of 128] by (simp add: eq)
  next
    case 3
    then show ?thesis using xy up(3) m [of 2048] by (simp add: eq)
  next
    case 4
    then show ?thesis using xy m [of 32768] by (simp add: eq min_def)
  qed
qed

theorem ttl_bucket_monotone_witness: "bucket_index 2047 \<le> bucket_index 2048"
  by (rule ttl_bucket_monotone) simp_all

end
