(* ===== verification/GhostQueue.thy ===== *)
theory GhostQueue
  imports Prelude
begin

text \<open>
  The ghost queue of the S3-FIFO policy (\<^verbatim>\<open>eviction/ghost.rs\<close>): hashes of recently evicted items, a
  FIFO beside a set for membership. The set is modelled by a finite set and the deque by a list.
\<close>

record ghost_queue =
  gq_queue :: "u64 list"
  gq_set :: "u64 set"
  gq_capacity :: nat

definition ghost_new :: "nat \<Rightarrow> ghost_queue" where
  "ghost_new capacity = \<lparr>gq_queue = [], gq_set = {}, gq_capacity = capacity\<rparr>"

definition ghost_contains :: "ghost_queue \<Rightarrow> u64 \<Rightarrow> bool" where
  "ghost_contains g h \<longleftrightarrow> h \<in> gq_set g"

fun ghost_trim :: "nat \<Rightarrow> u64 list \<Rightarrow> u64 set \<Rightarrow> u64 list \<times> u64 set" where
  "ghost_trim capacity [] s = ([], s)"
| "ghost_trim capacity (old # q) s =
     (if card s \<ge> capacity then ghost_trim capacity q (s - {old}) else (old # q, s))"

definition ghost_insert :: "ghost_queue \<Rightarrow> u64 \<Rightarrow> ghost_queue" where
  "ghost_insert g h =
     (if h \<in> gq_set g then g
      else let (q, s) = ghost_trim (gq_capacity g) (gq_queue g) (gq_set g) in
        g\<lparr>gq_queue := q @ [h], gq_set := Set.insert h s\<rparr>)"

definition ghost_remove :: "ghost_queue \<Rightarrow> u64 \<Rightarrow> ghost_queue" where
  "ghost_remove g h = g\<lparr>gq_set := gq_set g - {h}\<rparr>"

section \<open>Invariant\<close>

text \<open>Every member of the set is somewhere in the queue, so trimming can always make room.\<close>

definition ghost_ok :: "ghost_queue \<Rightarrow> bool" where
  "ghost_ok g \<longleftrightarrow> gq_set g \<subseteq> set (gq_queue g) \<and> card (gq_set g) \<le> max 1 (gq_capacity g)"

lemma ghost_trim_ok:
  assumes "s \<subseteq> set q"
  shows "ghost_trim cap q s = (q', s') \<Longrightarrow> s' \<subseteq> set q' \<and> s' \<subseteq> s \<and> (s' = {} \<or> card s' < cap)
    \<and> (\<exists>p. q = p @ q')"
  using assms
proof (induction cap q s rule: ghost_trim.induct)
  case (1 cap s)
  then show ?case by auto
next
  case (2 cap old q s)
  show ?case
  proof (cases "card s \<ge> cap")
    case True
    with 2 have "s' \<subseteq> set q' \<and> s' \<subseteq> s - {old} \<and> (s' = {} \<or> card s' < cap) \<and> (\<exists>p. q = p @ q')" by auto
    then show ?thesis by (auto intro: exI [of _ "old # _"])
  next
    case False
    with 2 show ?thesis by auto
  qed
qed

lemma ghost_insert_ok: "ghost_ok g \<Longrightarrow> ghost_ok (ghost_insert g h)"
proof (cases "h \<in> gq_set g")
  case False
  assume ok: "ghost_ok g"
  obtain q s where t: "ghost_trim (gq_capacity g) (gq_queue g) (gq_set g) = (q, s)" by fastforce
  have s: "s \<subseteq> set q" "s = {} \<or> card s < gq_capacity g"
    using ghost_trim_ok [OF _ t] ok by (auto simp: ghost_ok_def)
  have "finite s" using s(1) by (rule finite_subset) simp
  then have "card (Set.insert h s) \<le> max 1 (gq_capacity g)"
    using s(2) card_insert_le_m1 by (auto simp: card_insert_if)
  with False t s show ?thesis by (auto simp: ghost_insert_def ghost_ok_def)
qed (simp add: ghost_insert_def)

lemma ghost_remove_ok: "ghost_ok g \<Longrightarrow> ghost_ok (ghost_remove g h)"
  by (auto simp: ghost_ok_def ghost_remove_def intro: order_trans [OF card_Diff1_le])

lemma ghost_new_ok: "ghost_ok (ghost_new cap)"
  by (simp add: ghost_ok_def ghost_new_def)

inductive ghost_step :: "ghost_queue \<Rightarrow> ghost_queue \<Rightarrow> bool" where
  gs_insert: "ghost_step g (ghost_insert g h)"
| gs_remove: "ghost_step g (ghost_remove g h)"

inductive_cases ghost_stepE: "ghost_step g g'"

interpretation ghost_sys: invariant_system "\<lambda>g. \<exists>cap. g = ghost_new cap" ghost_step ghost_ok
  by unfold_locales
     (auto simp: ghost_new_ok elim!: ghost_stepE intro: ghost_insert_ok ghost_remove_ok)

lemma ghost_step_capacity: "ghost_step\<^sup>*\<^sup>* g g' \<Longrightarrow> gq_capacity g' = gq_capacity g"
  by (induction rule: rtranclp_induct)
     (auto elim!: ghost_stepE simp: ghost_insert_def ghost_remove_def split: prod.split)

section \<open>Properties\<close>

lemma ghost_insert_set:
  assumes "gq_set g \<subseteq> set (gq_queue g)"
  shows "gq_set (ghost_insert g h) \<subseteq> Set.insert h (gq_set g)"
    and "card (gq_set g) < gq_capacity g \<Longrightarrow> gq_set (ghost_insert g h) = Set.insert h (gq_set g)"
proof -
  obtain q s where t: "ghost_trim (gq_capacity g) (gq_queue g) (gq_set g) = (q, s)" by fastforce
  have "s \<subseteq> gq_set g" using ghost_trim_ok [OF assms t] by blast
  then show "gq_set (ghost_insert g h) \<subseteq> Set.insert h (gq_set g)" using t by (auto simp: ghost_insert_def)
  show "gq_set (ghost_insert g h) = Set.insert h (gq_set g)" if "card (gq_set g) < gq_capacity g"
  proof -
    have "ghost_trim (gq_capacity g) (gq_queue g) (gq_set g) = (gq_queue g, gq_set g)"
      using that by (cases "gq_queue g") auto
    then show ?thesis by (auto simp: ghost_insert_def)
  qed
qed

text \<open>
  C40. However hashes are added and removed, the ghost set of a queue built with capacity \<open>cap\<close> holds at
  most \<open>max 1 cap\<close> hashes, all of them in its deque. Adding a hash makes it a member, brings in no other hash, and forgets none
  while the set is below its capacity; removing a hash takes exactly that hash out.
\<close>

theorem ghost_bounded:
  assumes "ghost_step\<^sup>*\<^sup>* (ghost_new cap) g"
  shows "card (gq_set g) \<le> max 1 cap \<and> gq_set g \<subseteq> set (gq_queue g)
    \<and> ghost_contains (ghost_insert g h) h \<and> \<not> ghost_contains (ghost_remove g h) h
    \<and> (h' \<noteq> h \<longrightarrow> (ghost_contains (ghost_insert g h) h' \<longrightarrow> ghost_contains g h')
        \<and> (card (gq_set g) < cap \<longrightarrow> ghost_contains (ghost_insert g h) h' = ghost_contains g h')
        \<and> ghost_contains (ghost_remove g h) h' = ghost_contains g h')"
proof -
  have ok: "ghost_ok g" using ghost_sys.inv_reachable [OF _ assms] by blast
  have cap: "gq_capacity g = cap" using ghost_step_capacity [OF assms] by (simp add: ghost_new_def)
  have "ghost_contains (ghost_insert g h) h" by (simp add: ghost_contains_def ghost_insert_def split: prod.split)
  with ok ghost_insert_set [of g h] show ?thesis
    by (auto simp: ghost_ok_def cap ghost_contains_def ghost_remove_def)
qed

theorem ghost_bounded_witness:
  "card (gq_set (ghost_insert (ghost_new 2) 7)) \<le> 2 \<and> ghost_contains (ghost_insert (ghost_insert (ghost_new 2) 7) 9) 7"
  using ghost_bounded [OF r_into_rtranclp, OF gs_insert, of 2 7 9 7] by (simp add: ghost_insert_def ghost_new_def ghost_contains_def)

primrec ghost_rounds :: "nat \<Rightarrow> u64 \<Rightarrow> ghost_queue \<Rightarrow> ghost_queue" where
  "ghost_rounds 0 h g = g"
| "ghost_rounds (Suc n) h g = ghost_rounds n h (ghost_remove (ghost_insert g h) h)"

lemma ghost_round:
  assumes "gq_set g = {}" and "0 < gq_capacity g"
  shows "gq_queue (ghost_remove (ghost_insert g h) h) = gq_queue g @ [h]"
    and "gq_set (ghost_remove (ghost_insert g h) h) = {}"
    and "gq_capacity (ghost_remove (ghost_insert g h) h) = gq_capacity g"
proof -
  have "ghost_trim (gq_capacity g) (gq_queue g) {} = (gq_queue g, {})"
    using assms(2) by (cases "gq_queue g") auto
  then show "gq_queue (ghost_remove (ghost_insert g h) h) = gq_queue g @ [h]"
    "gq_set (ghost_remove (ghost_insert g h) h) = {}"
    "gq_capacity (ghost_remove (ghost_insert g h) h) = gq_capacity g"
    using assms(1) by (simp_all add: ghost_insert_def ghost_remove_def)
qed

text \<open>
  The queue itself is not bounded: removal leaves the hash in the queue, so \<open>n\<close> rounds of adding and
  removing one hash leave \<open>n\<close> entries in it, whatever the capacity.
\<close>

theorem ghost_queue_unbounded:
  assumes "0 < cap"
  shows "length (gq_queue (ghost_rounds n h (ghost_new cap))) = n"
proof -
  have "length (gq_queue (ghost_rounds n h g)) = length (gq_queue g) + n"
    if "gq_set g = {}" "0 < gq_capacity g" for g
    using that
  proof (induction n arbitrary: g)
    case (Suc n)
    then show ?case using ghost_round [OF Suc.prems, of h] by simp
  qed simp
  from this [of "ghost_new cap"] assms show ?thesis by (simp add: ghost_new_def)
qed

theorem ghost_queue_unbounded_witness: "length (gq_queue (ghost_rounds 100 7 (ghost_new 2))) = 100"
  by (rule ghost_queue_unbounded) simp

end
