(* ===== verification/Hashtable.thy ===== *)
theory Hashtable
  imports Bucket Rand
begin

unbundle bit_operations_syntax

text \<open>
  The multi-choice hashtable of the segment cache (\<^verbatim>\<open>hashtable/table.rs\<close>, \<^verbatim>\<open>hashtable/traits.rs\<close>). The
  operations are those of one thread running alone: every word read is still there when it is
  compare-exchanged, so each retry loop of the source runs once, and the insert stripes and the memory
  orderings have no effect. The keyed hash of \<^verbatim>\<open>ahash\<close> is a field of the table, and the key verifier an
  argument of the operations that take one.
\<close>

section \<open>Types of the interface\<close>

datatype 'p verified = Match 'p | DifferentKey | VUnknown location

datatype 'a lookup = Found 'a | Absent | LUnknown location

datatype insert_outcome = Created | Replaced location | IUnknown location

datatype relink_freq = Preserve | Decrement

record slot_ref =
  sr_bucket :: u32
  sr_slot :: u8
  sr_tag :: u16

record 'p hit =
  hit_location :: location
  hit_slot :: slot_ref
  hit_pin :: 'p

type_synonym 'p verifier = "u8 list \<Rightarrow> location \<Rightarrow> bool \<Rightarrow> 'p verified"

definition MAX_CHOICES :: nat where "MAX_CHOICES = 8"

record hashtable =
  ht_hash :: "u8 list \<Rightarrow> u64"
  ht_buckets :: "hashbucket list"
  ht_num_buckets :: nat
  ht_mask :: u64
  ht_num_choices :: nat
  ht_freq_rng :: random

section \<open>Construction\<close>

definition with_choices ::
  "(u64 \<Rightarrow> u64 \<Rightarrow> u64 \<Rightarrow> u64 \<Rightarrow> u8 list \<Rightarrow> u64) \<Rightarrow> nat \<Rightarrow> nat \<Rightarrow> hashtable option" where
  "with_choices with_seeds pwr num_choices =
     (if \<not> pwr \<ge> 7 then None
      else if \<not> (1 \<le> num_choices \<and> num_choices \<le> MAX_CHOICES) then None
      else let bucket_power = pwr - 3 in
        if \<not> bucket_power < 32 then None
        else let num_buckets = push_bit bucket_power 1 :: nat in
          Some \<lparr>ht_hash = with_seeds 0xbb8c484891ec6c86 0x0522a25ae9c769f9 0xeed2797b9571bc75 0x4feb29c1fbbd59d0,
            ht_buckets = replicate num_buckets bucket_new, ht_num_buckets = num_buckets,
            ht_mask = of_nat num_buckets - 1, ht_num_choices = num_choices,
            ht_freq_rng = random_new DEFAULT_SEED\<rparr>)"

definition hashtable_new ::
  "(u64 \<Rightarrow> u64 \<Rightarrow> u64 \<Rightarrow> u64 \<Rightarrow> u8 list \<Rightarrow> u64) \<Rightarrow> nat \<Rightarrow> hashtable option" where
  "hashtable_new with_seeds pwr = with_choices with_seeds pwr 2"

definition set_freq_seed :: "u64 \<Rightarrow> hashtable \<Rightarrow> hashtable" where
  "set_freq_seed seed h = h\<lparr>ht_freq_rng := random_new seed\<rparr>"

section \<open>Probing\<close>

definition bucket_indices :: "hashtable \<Rightarrow> u64 \<Rightarrow> nat list" where
  "bucket_indices h hash = (let mask = ht_mask h in
     [unat (hash AND mask),
      unat ((hash XOR drop_bit 32 hash) AND mask),
      unat ((drop_bit 16 hash XOR push_bit 16 hash) AND mask),
      unat ((drop_bit 48 hash XOR drop_bit 8 hash XOR hash) AND mask),
      unat ((word_rotl 17 hash XOR hash) AND mask),
      unat ((word_rotl 31 hash XOR drop_bit 16 hash) AND mask),
      unat (drop_bit 32 (hash * 0x9E3779B97F4A7C15) AND mask),
      unat (drop_bit 32 (hash * 0x517CC1B727220A95) AND mask)])"

definition tag_from_hash :: "u64 \<Rightarrow> u16" where
  "tag_from_hash hash = ucast (drop_bit 32 hash AND 0xFFF)"

definition probe :: "hashtable \<Rightarrow> u8 list \<Rightarrow> u16 \<times> nat list" where
  "probe h key = (let hash = ht_hash h key in (tag_from_hash hash, bucket_indices h hash))"

text \<open>The candidate buckets in use: the first \<^verbatim>\<open>num_choices\<close> of the eight.\<close>

definition choices :: "hashtable \<Rightarrow> u8 list \<Rightarrow> nat list" where
  "choices h key = take (ht_num_choices h) (snd (probe h key))"

definition bucket_items :: "hashtable \<Rightarrow> nat \<Rightarrow> u64 list" where
  "bucket_items h b = bk_items (ht_buckets h ! b)"

definition set_bucket_items :: "hashtable \<Rightarrow> nat \<Rightarrow> u64 list \<Rightarrow> hashtable" where
  "set_bucket_items h b items = h\<lparr>ht_buckets := (ht_buckets h)[b := \<lparr>bk_items = items\<rparr>]\<rparr>"

definition count_occupied :: "hashtable \<Rightarrow> nat \<Rightarrow> nat" where
  "count_occupied h b = length (filter (\<lambda>w. w \<noteq> 0 \<and> \<not> bucket_is_ghost w) (bucket_items h b))"

text \<open>\<^verbatim>\<open>fold_choices\<close>: the first match wins, the first unverifiable candidate is the last resort.\<close>

fun fold_choices_loop ::
  "('s \<Rightarrow> nat \<Rightarrow> 'a lookup \<times> 's) \<Rightarrow> location option \<Rightarrow> 's \<Rightarrow> nat list \<Rightarrow> 'a lookup \<times> 's" where
  "fold_choices_loop scan unknown s [] =
     (case unknown of Some l \<Rightarrow> (LUnknown l, s) | None \<Rightarrow> (Absent, s))"
| "fold_choices_loop scan unknown s (b # bs) =
     (case scan s b of
        (Found a, s') \<Rightarrow> (Found a, s')
      | (Absent, s') \<Rightarrow> fold_choices_loop scan unknown s' bs
      | (LUnknown l, s') \<Rightarrow> fold_choices_loop scan (case unknown of None \<Rightarrow> Some l | Some u \<Rightarrow> Some u) s' bs)"

definition fold_choices :: "nat list \<Rightarrow> ('s \<Rightarrow> nat \<Rightarrow> 'a lookup \<times> 's) \<Rightarrow> 's \<Rightarrow> 'a lookup \<times> 's" where
  "fold_choices bs scan s = fold_choices_loop scan None s bs"

section \<open>Searching a bucket\<close>

definition find_tag_matches :: "u64 list \<Rightarrow> u64 \<Rightarrow> u8" where
  "find_tag_matches items tag_shifted =
     foldl (\<lambda>result slot_index.
        let packed = items ! slot_index in
        if packed \<noteq> 0 \<and> packed AND 0x00000FFFFFFFFFFF \<noteq> 0x00000FFFFFFFFFFF
           \<and> packed AND 0xFFF0000000000000 = tag_shifted
        then result OR push_bit slot_index 1 else result) 0 [0..<8]"

text \<open>The slots the search visits: the set bits of the mask from the lowest, cleared one at a time.\<close>

definition trailing_zeros :: "u8 \<Rightarrow> nat" where
  "trailing_zeros m = length (takeWhile (\<lambda>i. \<not> bit m i) [0..<8])"

primrec mask_slots :: "nat \<Rightarrow> u8 \<Rightarrow> nat list" where
  "mask_slots 0 m = []"
| "mask_slots (Suc n) m = (if m = 0 then [] else trailing_zeros m # mask_slots n (m AND (m - 1)))"

definition bump_slot :: "hashtable \<Rightarrow> nat \<Rightarrow> nat \<Rightarrow> u64 \<Rightarrow> hashtable" where
  "bump_slot h b i packed =
     (let freq = bucket_freq packed in
      if freq < 127 then
        let (draw, rng) = next_u64 (ht_freq_rng h);
            h = h\<lparr>ht_freq_rng := rng\<rparr> in
        case try_update_freq packed freq draw of
          Some new_packed \<Rightarrow>
            set_bucket_items h b ((bucket_items h b)[i := snd (compare_exchange (bucket_items h b ! i) packed new_packed)])
        | None \<Rightarrow> h
      else h)"

fun search_slots ::
  "bool \<Rightarrow> nat \<Rightarrow> u16 \<Rightarrow> u8 list \<Rightarrow> 'p verifier \<Rightarrow> location option \<Rightarrow> hashtable \<Rightarrow> nat list
   \<Rightarrow> 'p hit lookup \<times> hashtable" where
  "search_slots update_freq b tag key verify unknown h [] =
     (case unknown of Some l \<Rightarrow> (LUnknown l, h) | None \<Rightarrow> (Absent, h))"
| "search_slots update_freq b tag key verify unknown h (i # is) =
     (let packed = bucket_items h b ! i in
      if packed = 0 \<or> bucket_is_ghost packed then search_slots update_freq b tag key verify unknown h is
      else if packed AND 0xFFF0000000000000 \<noteq> push_bit 52 (ucast tag)
      then search_slots update_freq b tag key verify unknown h is
      else let location = bucket_location packed in
        case verify key location False of
          DifferentKey \<Rightarrow> search_slots update_freq b tag key verify unknown h is
        | VUnknown l \<Rightarrow> search_slots update_freq b tag key verify
            (case unknown of None \<Rightarrow> Some l | Some u \<Rightarrow> Some u) h is
        | Match pin \<Rightarrow>
            (Found \<lparr>hit_location = location,
               hit_slot = \<lparr>sr_bucket = of_nat b, sr_slot = of_nat i, sr_tag = tag\<rparr>, hit_pin = pin\<rparr>,
             if update_freq then bump_slot h b i packed else h))"

definition search_bucket ::
  "bool \<Rightarrow> u16 \<Rightarrow> u8 list \<Rightarrow> 'p verifier \<Rightarrow> hashtable \<Rightarrow> nat \<Rightarrow> 'p hit lookup \<times> hashtable" where
  "search_bucket update_freq tag key verify h b =
     search_slots update_freq b tag key verify None h
       (mask_slots 8 (find_tag_matches (bucket_items h b) (push_bit 52 (ucast tag))))"

definition search_bucket_for_ghost :: "u16 \<Rightarrow> hashtable \<Rightarrow> nat \<Rightarrow> u8 option" where
  "search_bucket_for_ghost tag h b =
     map_option bucket_freq (List.find (\<lambda>w. bucket_is_ghost w \<and> bucket_tag w = tag) (bucket_items h b))"

definition increment_ghost_freq_in_bucket :: "u16 \<Rightarrow> hashtable \<Rightarrow> nat \<Rightarrow> hashtable" where
  "increment_ghost_freq_in_bucket tag h b =
     foldl (\<lambda>h i. let packed = bucket_items h b ! i in
        if packed \<noteq> 0 \<and> bucket_is_ghost packed \<and> bucket_tag packed = tag then bump_slot h b i packed else h)
       h [0..<NUM_ITEM_SLOTS]"

fun search_freq_slots ::
  "u16 \<Rightarrow> u8 list \<Rightarrow> 'p verifier \<Rightarrow> location option \<Rightarrow> u64 list \<Rightarrow> u8 lookup" where
  "search_freq_slots tag key verify unknown [] = (case unknown of Some l \<Rightarrow> LUnknown l | None \<Rightarrow> Absent)"
| "search_freq_slots tag key verify unknown (packed # ws) =
     (if packed = 0 \<or> bucket_is_ghost packed \<or> bucket_tag packed \<noteq> tag
      then search_freq_slots tag key verify unknown ws
      else case verify key (bucket_location packed) False of
          Match _ \<Rightarrow> Found (bucket_freq packed)
        | DifferentKey \<Rightarrow> search_freq_slots tag key verify unknown ws
        | VUnknown l \<Rightarrow> search_freq_slots tag key verify
            (case unknown of None \<Rightarrow> Some l | Some u \<Rightarrow> Some u) ws)"

definition search_bucket_for_freq :: "u16 \<Rightarrow> u8 list \<Rightarrow> 'p verifier \<Rightarrow> hashtable \<Rightarrow> nat \<Rightarrow> u8 lookup" where
  "search_bucket_for_freq tag key verify h b = search_freq_slots tag key verify None (bucket_items h b)"

definition search_bucket_for_item_freq :: "u16 \<Rightarrow> location \<Rightarrow> hashtable \<Rightarrow> nat \<Rightarrow> u8 option" where
  "search_bucket_for_item_freq tag location h b =
     map_option bucket_freq (List.find (\<lambda>w. w \<noteq> 0 \<and> \<not> bucket_is_ghost w \<and> bucket_tag w = tag
       \<and> bucket_location w = location) (bucket_items h b))"

section \<open>Changing a bucket\<close>

text \<open>
  A scan of the slots that compare-exchanges the first word \<open>new_word\<close> maps to a new one; the flag says
  whether one was found.
\<close>

fun cas_slots :: "(u64 \<Rightarrow> u64 option) \<Rightarrow> u64 list \<Rightarrow> nat list \<Rightarrow> bool \<times> u64 list" where
  "cas_slots new_word items [] = (False, items)"
| "cas_slots new_word items (i # is) =
     (case new_word (items ! i) of
        None \<Rightarrow> cas_slots new_word items is
      | Some w \<Rightarrow> (case compare_exchange (items ! i) (items ! i) w of
            (Inr _, w') \<Rightarrow> (True, items[i := w'])
          | (Inl _, _) \<Rightarrow> cas_slots new_word items is))"

fun try_replace_slots ::
  "u16 \<Rightarrow> u8 list \<Rightarrow> u64 \<Rightarrow> 'p verifier \<Rightarrow> location option \<Rightarrow> u64 list \<Rightarrow> nat list
   \<Rightarrow> location lookup \<times> u64 list" where
  "try_replace_slots tag key new_packed verify unknown items [] =
     (case unknown of Some l \<Rightarrow> (LUnknown l, items) | None \<Rightarrow> (Absent, items))"
| "try_replace_slots tag key new_packed verify unknown items (i # is) =
     (let packed = items ! i in
      if packed = 0 \<or> bucket_tag packed \<noteq> tag \<or> bucket_is_ghost packed
      then try_replace_slots tag key new_packed verify unknown items is
      else let location = bucket_location packed in
        case verify key location True of
          DifferentKey \<Rightarrow> try_replace_slots tag key new_packed verify unknown items is
        | VUnknown l \<Rightarrow> try_replace_slots tag key new_packed verify
            (case unknown of None \<Rightarrow> Some l | Some u \<Rightarrow> Some u) items is
        | Match _ \<Rightarrow>
            let new_with_freq = with_freq new_packed (bucket_freq packed) in
            (Found location, items[i := snd (compare_exchange (items ! i) packed new_with_freq)]))"

definition try_replace_existing ::
  "u16 \<Rightarrow> u8 list \<Rightarrow> u64 \<Rightarrow> 'p verifier \<Rightarrow> hashtable \<Rightarrow> nat \<Rightarrow> location lookup \<times> hashtable" where
  "try_replace_existing tag key new_packed verify h b =
     (let (r, items) = try_replace_slots tag key new_packed verify None (bucket_items h b) [0..<NUM_ITEM_SLOTS] in
      (r, set_bucket_items h b items))"

definition try_claim_new_slot :: "u16 \<Rightarrow> u64 \<Rightarrow> hashtable \<Rightarrow> nat \<Rightarrow> bool \<times> hashtable" where
  "try_claim_new_slot tag new_packed h b =
     (let items = bucket_items h b;
          (claimed, items') = cas_slots (\<lambda>packed.
             if bucket_tag packed \<noteq> tag \<or> \<not> bucket_is_ghost packed then None
             else Some (with_freq new_packed (bucket_freq packed))) items [0..<NUM_ITEM_SLOTS] in
      if claimed then (True, set_bucket_items h b items')
      else let (claimed, items') = cas_slots (\<lambda>packed. if packed = 0 then Some new_packed else None)
             items [0..<NUM_ITEM_SLOTS] in
      if claimed then (True, set_bucket_items h b items')
      else let (claimed, items') = cas_slots (\<lambda>packed. if bucket_is_ghost packed then Some new_packed else None)
             items [0..<NUM_ITEM_SLOTS] in
      if claimed then (True, set_bucket_items h b items') else (False, h))"

text \<open>The test the three location-keyed helpers share: a live entry with this tag and location.\<close>

definition is_entry :: "u16 \<Rightarrow> location \<Rightarrow> u64 \<Rightarrow> bool" where
  "is_entry tag expected packed \<longleftrightarrow>
     \<not> (packed = 0 \<or> bucket_is_ghost packed \<or> bucket_tag packed \<noteq> tag \<or> bucket_location packed \<noteq> expected)"

definition cas_bucket :: "(u64 \<Rightarrow> u64 option) \<Rightarrow> hashtable \<Rightarrow> nat \<Rightarrow> bool \<times> hashtable" where
  "cas_bucket new_word h b =
     (let (done, items) = cas_slots new_word (bucket_items h b) [0..<NUM_ITEM_SLOTS] in
      (done, set_bucket_items h b items))"

definition try_unlink_in_bucket :: "u16 \<Rightarrow> location \<Rightarrow> hashtable \<Rightarrow> nat \<Rightarrow> bool \<times> hashtable" where
  "try_unlink_in_bucket tag expected =
     cas_bucket (\<lambda>packed. if is_entry tag expected packed then Some 0 else None)"

definition try_to_ghost_in_bucket :: "u16 \<Rightarrow> location \<Rightarrow> hashtable \<Rightarrow> nat \<Rightarrow> bool \<times> hashtable" where
  "try_to_ghost_in_bucket tag expected =
     cas_bucket (\<lambda>packed. if is_entry tag expected packed then Some (to_ghost packed) else None)"

fun relinked_freq :: "relink_freq \<Rightarrow> u64 \<Rightarrow> u8" where
  "relinked_freq Preserve packed = bucket_freq packed"
| "relinked_freq Decrement packed = saturating_sub (bucket_freq packed) 1"

definition try_cas_in_bucket ::
  "u16 \<Rightarrow> location \<Rightarrow> location \<Rightarrow> relink_freq \<Rightarrow> hashtable \<Rightarrow> nat \<Rightarrow> bool \<times> hashtable" where
  "try_cas_in_bucket tag old_location new_location relink =
     cas_bucket (\<lambda>packed. if is_entry tag old_location packed
       then Some (bucket_pack tag (relinked_freq relink packed) new_location) else None)"

text \<open>The loop over the candidate buckets that stops at the first success.\<close>

fun try_choices :: "(hashtable \<Rightarrow> nat \<Rightarrow> bool \<times> hashtable) \<Rightarrow> hashtable \<Rightarrow> nat list \<Rightarrow> bool \<times> hashtable" where
  "try_choices attempt h [] = (False, h)"
| "try_choices attempt h (b # bs) =
     (let (done, h') = attempt h b in if done then (True, h') else try_choices attempt h' bs)"

section \<open>The operations of the trait\<close>

definition ht_lookup :: "u8 list \<Rightarrow> 'p verifier \<Rightarrow> hashtable \<Rightarrow> 'p hit lookup \<times> hashtable" where
  "ht_lookup key verify h =
     (let (tag, _) = probe h key; bs = choices h key in
      case fold_choices bs (search_bucket True tag key verify) h of
        (Found hit, h) \<Rightarrow> (Found hit, h)
      | (LUnknown l, h) \<Rightarrow> (LUnknown l, h)
      | (Absent, h) \<Rightarrow> (Absent, foldl (increment_ghost_freq_in_bucket tag) h bs))"

definition lookup_no_freq_update :: "u8 list \<Rightarrow> 'p verifier \<Rightarrow> hashtable \<Rightarrow> 'p hit lookup" where
  "lookup_no_freq_update key verify h =
     (let (tag, _) = probe h key in
      fst (fold_choices (choices h key) (search_bucket False tag key verify) h))"

fun map_lookup :: "('a \<Rightarrow> 'b) \<Rightarrow> 'a lookup \<Rightarrow> 'b lookup" where
  "map_lookup f (Found a) = Found (f a)"
| "map_lookup f Absent = Absent"
| "map_lookup f (LUnknown l) = LUnknown l"

definition ht_contains :: "u8 list \<Rightarrow> 'p verifier \<Rightarrow> hashtable \<Rightarrow> unit lookup" where
  "ht_contains key verify h = map_lookup (\<lambda>_. ()) (lookup_no_freq_update key verify h)"

definition lookup_slot :: "u8 list \<Rightarrow> 'p verifier \<Rightarrow> hashtable \<Rightarrow> (location \<times> slot_ref) lookup" where
  "lookup_slot key verify h =
     map_lookup (\<lambda>hit. (hit_location hit, hit_slot hit)) (lookup_no_freq_update key verify h)"

definition slot_word :: "hashtable \<Rightarrow> slot_ref \<Rightarrow> u64" where
  "slot_word h slot = bucket_items h (unat (sr_bucket slot)) ! unat (sr_slot slot)"

definition slot_publishes :: "slot_ref \<Rightarrow> location \<Rightarrow> hashtable \<Rightarrow> bool" where
  "slot_publishes slot location h \<longleftrightarrow> bucket_location (slot_word h slot) = location"

definition cas_location_at ::
  "slot_ref \<Rightarrow> location \<Rightarrow> location \<Rightarrow> bool \<Rightarrow> hashtable \<Rightarrow> bool \<times> hashtable" where
  "cas_location_at slot old_location new_location preserve_freq h =
     (let packed = slot_word h slot in
      if packed = 0 \<or> bucket_is_ghost packed then (False, h)
      else if bucket_tag packed \<noteq> sr_tag slot \<or> bucket_location packed \<noteq> old_location then (False, h)
      else let freq = (if preserve_freq then bucket_freq packed else 1);
               new_packed = bucket_pack (sr_tag slot) freq new_location;
               b = unat (sr_bucket slot); i = unat (sr_slot slot) in
        (True, set_bucket_items h b ((bucket_items h b)[i := snd (compare_exchange packed packed new_packed)])))"

definition ht_insert ::
  "u8 list \<Rightarrow> location \<Rightarrow> 'p verifier \<Rightarrow> hashtable \<Rightarrow> (unit + insert_outcome) \<times> hashtable" where
  "ht_insert key location verify h =
     (let (tag, _) = probe h key; bs = choices h key;
          new_packed = bucket_pack tag 1 location in
      case fold_choices bs (try_replace_existing tag key new_packed verify) h of
        (Found old, h) \<Rightarrow> (Inr (Replaced old), h)
      | (LUnknown l, h) \<Rightarrow> (Inr (IUnknown l), h)
      | (Absent, h) \<Rightarrow>
      (case fold_choices bs (try_replace_existing tag key new_packed verify) h of
        (Found old, h) \<Rightarrow> (Inr (Replaced old), h)
      | (LUnknown l, h) \<Rightarrow> (Inr (IUnknown l), h)
      | (Absent, h) \<Rightarrow>
      (case try_choices (try_claim_new_slot tag new_packed) h bs of
        (True, h) \<Rightarrow> (Inr Created, h)
      | (False, h) \<Rightarrow>
        if ht_num_choices h > 1 then
          (case try_choices (try_claim_new_slot tag new_packed) h (sort_key (count_occupied h) bs) of
             (True, h) \<Rightarrow> (Inr Created, h)
           | (False, h) \<Rightarrow> (Inl (), h))
        else (Inl (), h))))"

definition ht_remove :: "u8 list \<Rightarrow> location \<Rightarrow> hashtable \<Rightarrow> bool \<times> hashtable" where
  "ht_remove key expected h =
     try_choices (try_unlink_in_bucket (fst (probe h key)) expected) h (choices h key)"

definition convert_to_ghost :: "u8 list \<Rightarrow> location \<Rightarrow> hashtable \<Rightarrow> bool \<times> hashtable" where
  "convert_to_ghost key expected h =
     try_choices (try_to_ghost_in_bucket (fst (probe h key)) expected) h (choices h key)"

definition cas_location ::
  "u8 list \<Rightarrow> location \<Rightarrow> location \<Rightarrow> relink_freq \<Rightarrow> hashtable \<Rightarrow> bool \<times> hashtable" where
  "cas_location key old_location new_location freq h =
     try_choices (try_cas_in_bucket (fst (probe h key)) old_location new_location freq) h (choices h key)"

definition get_frequency :: "u8 list \<Rightarrow> 'p verifier \<Rightarrow> hashtable \<Rightarrow> u8 lookup" where
  "get_frequency key verify h =
     fst (fold_choices (choices h key)
       (\<lambda>h b. (search_bucket_for_freq (fst (probe h key)) key verify h b, h)) h)"

fun first_some :: "('b \<Rightarrow> 'a option) \<Rightarrow> 'b list \<Rightarrow> 'a option" where
  "first_some f [] = None"
| "first_some f (b # bs) = (case f b of Some a \<Rightarrow> Some a | None \<Rightarrow> first_some f bs)"

definition get_item_frequency :: "u8 list \<Rightarrow> location \<Rightarrow> hashtable \<Rightarrow> u8 option" where
  "get_item_frequency key location h =
     first_some (search_bucket_for_item_freq (fst (probe h key)) location h) (choices h key)"

definition get_ghost_frequency :: "u8 list \<Rightarrow> hashtable \<Rightarrow> u8 option" where
  "get_ghost_frequency key h = first_some (search_bucket_for_ghost (fst (probe h key)) h) (choices h key)"

definition ht_clear :: "hashtable \<Rightarrow> hashtable" where
  "ht_clear h = h\<lparr>ht_buckets := map (\<lambda>b. \<lparr>bk_items = map (\<lambda>_. 0) (bk_items b)\<rparr>) (ht_buckets h)\<rparr>"

section \<open>The verifier of the segment heap\<close>

text \<open>
  \<^verbatim>\<open>SegmentsVerifier::verify\<close> (\<^verbatim>\<open>hashtable/mod.rs\<close>): \<open>acquire_item_at\<close> is the heap's tag-checked pin of a
  location, and \<open>raw_key\<close> the key of a pinned item.
\<close>

definition segments_verify ::
  "nat \<Rightarrow> (location \<Rightarrow> ('raw \<times> 'guard) option) \<Rightarrow> ('raw \<Rightarrow> u8 list) \<Rightarrow> ('raw \<times> 'guard) verifier" where
  "segments_verify num_segments acquire_item_at raw_key key location allow_deleted =
     (let (seg_id, _) = unpack_location location in
      if seg_id = 0 \<or> unat seg_id > num_segments then DifferentKey
      else case acquire_item_at location of
          Some (raw, guard) \<Rightarrow> if raw_key raw = key then Match (raw, guard) else DifferentKey
        | None \<Rightarrow> VUnknown location)"

end
