(* ===== verification/HashtableProps.thy ===== *)
theory HashtableProps
  imports Hashtable "HOL-Library.Multiset"
begin

unbundle bit_operations_syntax

text \<open>
  The hashtable against reference definitions: the bit-mask scan of a bucket is a plain scan of its words,
  a lookup is a scan of the candidate locations of a key, and every operation changes the multiset of live
  entries in exactly one place or not at all. With a verifier that tells the key stored at a location, the
  table refines a map from keys to locations.
\<close>

section \<open>The bit mask of a bucket\<close>

lemma clear_lowest_bit:
  fixes m :: u8
  assumes b: "bit m i" and low: "\<And>j. j < i \<Longrightarrow> \<not> bit m j"
  shows "bit (m AND (m - 1)) k \<longleftrightarrow> bit m k \<and> k \<noteq> i"
proof -
  define r where "r = unset_bit i m"
  have i: "i < 8" using bit_imp_le_length [OF b] by simp
  have "m = r OR push_bit i 1"
    unfolding r_def using b i by (intro bit_eqI) (auto simp: bit_simps)
  also have "\<dots> = r + push_bit i 1"
    by (rule disjunctive_add [symmetric]) (auto simp: r_def bit_simps)
  finally have "m - 1 = r + (push_bit i 1 - 1)" by simp
  also have "push_bit i 1 - 1 = (mask i :: u8)" by (simp add: mask_eq_exp_minus_1 push_bit_eq_mult)
  also have "r + mask i = r OR mask i"
    by (rule disjunctive_add) (auto simp: r_def bit_simps low)
  finally show ?thesis using low by (auto simp: r_def bit_simps)
qed

lemma trailing_zeros_bit:
  assumes "m \<noteq> 0"
  shows "trailing_zeros m < 8" "bit m (trailing_zeros m)" "j < trailing_zeros m \<Longrightarrow> \<not> bit m j"
proof -
  let ?P = "\<lambda>i. \<not> bit m i"
  obtain n where n: "bit m n" using assms by (auto simp: bit_eq_iff)
  then have n8: "n < 8" using bit_imp_le_length [OF n] by simp
  have "takeWhile ?P [0..<8] \<noteq> [0..<8]"
    using n n8 by (metis atLeastLessThan_iff set_takeWhileD set_upt zero_le)
  then have lt: "length (takeWhile ?P [0..<8]) < length [0..<8]"
    by (metis length_takeWhile_le nat_less_le takeWhile_eq_take take_all_iff)
  then show "trailing_zeros m < 8" by (simp add: trailing_zeros_def)
  show "bit m (trailing_zeros m)"
    using nth_length_takeWhile [OF lt] lt by (simp add: trailing_zeros_def)
  show "\<not> bit m j" if "j < trailing_zeros m"
  proof -
    have "takeWhile ?P [0..<8] ! j = [0..<8] ! j"
      using that by (intro takeWhile_nth) (simp add: trailing_zeros_def)
    moreover have "takeWhile ?P [0..<8] ! j \<in> set (takeWhile ?P [0..<8])"
      using that by (intro nth_mem) (simp add: trailing_zeros_def)
    ultimately show ?thesis using that lt by (auto dest!: set_takeWhileD simp: trailing_zeros_def)
  qed
qed

text \<open>Clearing the lowest set bit until none is left visits the set bits in increasing order.\<close>

lemma mask_slots_filter:
  "8 - k \<le> n \<Longrightarrow> (\<And>j. bit m j \<Longrightarrow> k \<le> j) \<Longrightarrow> mask_slots n m = filter (bit m) [k..<8]"
proof (induction n arbitrary: k m)
  case 0
  then show ?case by simp
next
  case (Suc n)
  show ?case
  proof (cases "m = 0")
    case True
    then show ?thesis by simp
  next
    case False
    let ?t = "trailing_zeros m" and ?m = "m AND (m - 1)"
    note t = trailing_zeros_bit [OF False]
    have bits: "bit ?m j \<longleftrightarrow> bit m j \<and> j \<noteq> ?t" for j using clear_lowest_bit t by blast
    have kt: "k \<le> ?t" using Suc.prems(2) t(2) by blast
    have "mask_slots n ?m = filter (bit ?m) [Suc ?t..<8]"
    proof (rule Suc.IH)
      show "8 - Suc ?t \<le> n" using Suc.prems(1) kt by simp
      show "Suc ?t \<le> j" if "bit ?m j" for j
        using that t(3) [of j] by (auto simp: bits Suc_le_eq linorder_neq_iff)
    qed
    also have "\<dots> = filter (bit m) [Suc ?t..<8]" by (rule filter_cong) (auto simp: bits)
    finally have tl: "mask_slots n ?m = filter (bit m) [Suc ?t..<8]" .
    have "[k..<8] = [k..<?t] @ [?t..<8]"
      using upt_add_eq_append [OF kt, of "8 - ?t"] t(1) by simp
    also have "[?t..<8] = ?t # [Suc ?t..<8]" using t(1) by (rule upt_conv_Cons)
    finally have "[k..<8] = [k..<?t] @ ?t # [Suc ?t..<8]" .
    moreover have "filter (bit m) [k..<?t] = []" using t(3) by auto
    ultimately show ?thesis using False tl t(2) by simp
  qed
qed

lemma find_tag_matches_bit:
  "bit (find_tag_matches items ts) i \<longleftrightarrow> i < 8 \<and> items ! i \<noteq> 0
     \<and> items ! i AND 0x00000FFFFFFFFFFF \<noteq> 0x00000FFFFFFFFFFF \<and> items ! i AND 0xFFF0000000000000 = ts"
proof -
  let ?t = "\<lambda>w. w \<noteq> 0 \<and> w AND 0x00000FFFFFFFFFFF \<noteq> 0x00000FFFFFFFFFFF \<and> w AND 0xFFF0000000000000 = ts"
  have "bit (foldl (\<lambda>r j. let p = items ! j in if p \<noteq> 0 \<and> p AND 0x00000FFFFFFFFFFF \<noteq> 0x00000FFFFFFFFFFF
      \<and> p AND 0xFFF0000000000000 = ts then r OR push_bit j 1 else r) (0 :: u8) [0..<n]) i
    \<longleftrightarrow> i < n \<and> ?t (items ! i)" if "n \<le> 8" for n
    using that
  proof (induction n)
    case (Suc n)
    then show ?case by (auto simp: Let_def bit_simps less_Suc_eq)
  qed simp
  from this [of 8] show ?thesis by (simp add: find_tag_matches_def)
qed

lemma ghost_mask: "w AND 0x00000FFFFFFFFFFF = 0x00000FFFFFFFFFFF \<longleftrightarrow> bucket_location w = GHOST"
  by (simp add: bucket_location_def location_from_raw_def GHOST_def MAX_RAW_def)

lemma tag_mask:
  assumes "unat tag < 4096"
  shows "w AND 0xFFF0000000000000 = push_bit 52 (ucast tag) \<longleftrightarrow> bucket_tag w = tag"
proof -
  have m: "(0xFFF0000000000000 :: u64) = push_bit 52 (mask 12)"
    by (simp add: mask_eq_exp_minus_1 push_bit_eq_mult)
  have wbit: "bit (w AND 0xFFF0000000000000) n \<longleftrightarrow> 52 \<le> n \<and> bit (bucket_tag w) (n - 52)" for n
    unfolding m by (auto simp: bit_simps bit_bucket_tag dest: bit_imp_le_length)
  moreover have tbit: "bit (push_bit 52 (ucast tag) :: u64) n \<longleftrightarrow> 52 \<le> n \<and> bit tag (n - 52)" for n
    using tag_bit_bound [OF assms] by (auto simp: bit_simps dest: bit_imp_le_length) fastforce
  ultimately have wb: "bit (bucket_tag w) n = bit (w AND 0xFFF0000000000000) (n + 52)"
    and tb: "bit tag n = bit (push_bit 52 (ucast tag) :: u64) (n + 52)" for n by simp_all
  show ?thesis
  proof
    assume "w AND 0xFFF0000000000000 = push_bit 52 (ucast tag)"
    then show "bucket_tag w = tag" by (intro bit_eqI) (simp only: wb tb)
  next
    assume t: "bucket_tag w = tag"
    show "w AND 0xFFF0000000000000 = push_bit 52 (ucast tag)"
    proof (rule bit_eqI)
      fix n
      show "bit (w AND 0xFFF0000000000000) n = bit (push_bit 52 (ucast tag) :: u64) n"
        by (simp only: wbit tbit t)
    qed
  qed
qed

text \<open>A live word with a given tag: what the scans look for.\<close>

definition live_word :: "u64 \<Rightarrow> bool" where
  "live_word w \<longleftrightarrow> w \<noteq> 0 \<and> \<not> bucket_is_ghost w"

lemma is_entry_iff: "is_entry tag loc w \<longleftrightarrow> live_word w \<and> bucket_tag w = tag \<and> bucket_location w = loc"
  by (auto simp: is_entry_def live_word_def)

lemma tag_from_hash_less: "unat (tag_from_hash hash) < 4096"
proof -
  have "take_bit 12 (tag_from_hash hash) = tag_from_hash hash"
    unfolding tag_from_hash_def mask_literals by (rule bit_eqI) (auto simp: bit_simps)
  then have "unat (tag_from_hash hash) = unat (tag_from_hash hash) mod 2 ^ 12" by (metis unat_take_bit)
  then show ?thesis using mod_less_divisor [of "2 ^ 12" "unat (tag_from_hash hash)"] by simp
qed

lemma mask_slots_matches:
  assumes "unat tag < 4096"
  shows "mask_slots 8 (find_tag_matches items (push_bit 52 (ucast tag))) =
    filter (\<lambda>i. live_word (items ! i) \<and> bucket_tag (items ! i) = tag) [0..<8]"
proof -
  let ?m = "find_tag_matches items (push_bit 52 (ucast tag))"
  have b: "bit ?m i \<longleftrightarrow> i < 8 \<and> live_word (items ! i) \<and> bucket_tag (items ! i) = tag" for i
    unfolding find_tag_matches_bit tag_mask [OF assms] ghost_mask
    by (auto simp: live_word_def bucket_is_ghost_iff)
  have "mask_slots 8 ?m = filter (bit ?m) [0..<8]" by (rule mask_slots_filter) simp_all
  also have "\<dots> = filter (\<lambda>i. live_word (items ! i) \<and> bucket_tag (items ! i) = tag) [0..<8]"
    by (rule filter_cong) (auto simp only: b set_upt atLeastLessThan_iff)
  finally show ?thesis .
qed

section \<open>Shape\<close>

definition table_ok :: "hashtable \<Rightarrow> bool" where
  "table_ok h \<longleftrightarrow> length (ht_buckets h) = ht_num_buckets h
     \<and> (\<forall>b < ht_num_buckets h. length (bucket_items h b) = NUM_ITEM_SLOTS)
     \<and> (\<exists>k < 32. ht_num_buckets h = 2 ^ k) \<and> ht_mask h = of_nat (ht_num_buckets h) - 1
     \<and> 1 \<le> ht_num_choices h \<and> ht_num_choices h \<le> MAX_CHOICES"

lemma table_ok_bounds: "table_ok h \<Longrightarrow> 0 < ht_num_buckets h \<and> ht_num_buckets h < 2 ^ 32"
proof -
  assume "table_ok h"
  then obtain k where k: "k < 32" and n: "ht_num_buckets h = 2 ^ k" by (auto simp: table_ok_def)
  have "(2 :: nat) ^ k < 2 ^ 32" using k by (intro power_strict_increasing) simp_all
  then show ?thesis unfolding n by simp
qed

lemma choices_bound:
  assumes "table_ok h" and "b \<in> set (choices h key)"
  shows "b < ht_num_buckets h"
proof -
  let ?n = "ht_num_buckets h"
  have n: "0 < ?n" "?n < 2 ^ 32" using table_ok_bounds [OF assms(1)] by auto
  have "unat (of_nat ?n - 1 :: u64) = ?n - 1"
    using n by (subst unat_sub) (simp_all add: word_le_nat_alt unat_of_nat)
  then have mask: "unat (w AND ht_mask h) < ?n" for w
    using word_and_le1 [of w "ht_mask h"] assms(1) n
    by (simp add: table_ok_def word_le_nat_alt)
  have "b \<in> set (bucket_indices h (ht_hash h key))"
    using assms(2) by (auto simp: choices_def probe_def Let_def dest: in_set_takeD)
  then show ?thesis using mask by (auto simp: bucket_indices_def Let_def)
qed

lemma fst_probe: "fst (probe h key) = tag_from_hash (ht_hash h key)"
  by (simp add: probe_def Let_def)

lemma set_bucket_items_id [simp]: "set_bucket_items h b (bucket_items h b) = h"
proof -
  have "\<lparr>bk_items = bk_items (ht_buckets h ! b)\<rparr> = ht_buckets h ! b" by simp
  then show ?thesis unfolding set_bucket_items_def bucket_items_def by (simp only: list_update_id) simp
qed

lemma set_bucket_items_fields [simp]:
  "ht_hash (set_bucket_items h b ws) = ht_hash h"
  "ht_num_buckets (set_bucket_items h b ws) = ht_num_buckets h"
  "ht_mask (set_bucket_items h b ws) = ht_mask h"
  "ht_num_choices (set_bucket_items h b ws) = ht_num_choices h"
  "length (ht_buckets (set_bucket_items h b ws)) = length (ht_buckets h)"
  "choices (set_bucket_items h b ws) = choices h" "probe (set_bucket_items h b ws) = probe h"
  by (simp_all add: set_bucket_items_def choices_def probe_def bucket_indices_def fun_eq_iff Let_def)

lemma bucket_items_set:
  "b < length (ht_buckets h) \<Longrightarrow>
   bucket_items (set_bucket_items h b ws) c = (if c = b then ws else bucket_items h c)"
  by (simp add: bucket_items_def set_bucket_items_def)

lemma table_ok_set:
  "table_ok h \<Longrightarrow> b < ht_num_buckets h \<Longrightarrow> length ws = NUM_ITEM_SLOTS \<Longrightarrow> table_ok (set_bucket_items h b ws)"
  by (simp add: table_ok_def bucket_items_set)

definition set_word :: "hashtable \<Rightarrow> nat \<Rightarrow> nat \<Rightarrow> u64 \<Rightarrow> hashtable" where
  "set_word h b i w = set_bucket_items h b ((bucket_items h b)[i := w])"

lemma table_ok_set_word: "table_ok h \<Longrightarrow> b < ht_num_buckets h \<Longrightarrow> table_ok (set_word h b i w)"
  unfolding set_word_def by (rule table_ok_set) (auto simp: table_ok_def)

section \<open>Live entries and ghosts\<close>

text \<open>The words of the table that satisfy a predicate, with the bucket each stands in.\<close>

definition words :: "(u64 \<Rightarrow> bool) \<Rightarrow> hashtable \<Rightarrow> (nat \<times> u64) multiset" where
  "words P h = (\<Sum>b < ht_num_buckets h. image_mset (Pair b) (filter_mset P (mset (bucket_items h b))))"

abbreviation entries :: "hashtable \<Rightarrow> (nat \<times> u64) multiset" where
  "entries \<equiv> words live_word"

abbreviation ghosts :: "hashtable \<Rightarrow> (nat \<times> u64) multiset" where
  "ghosts \<equiv> words bucket_is_ghost"

lemma in_sum_below_iff: "x \<in># (\<Sum>b < n. F b) \<longleftrightarrow> (\<exists>b < n. x \<in># F b)" for n :: nat
  by (induction n) (auto simp: less_Suc_eq)

lemma in_words_iff:
  "(b, w) \<in># words P h \<longleftrightarrow> b < ht_num_buckets h \<and> w \<in> set (bucket_items h b) \<and> P w"
  by (auto simp: words_def in_sum_below_iff)

lemma words_set_word:
  assumes ok: "table_ok h" and b: "b < ht_num_buckets h" and i: "i < NUM_ITEM_SLOTS"
  defines "w \<equiv> bucket_items h b ! i"
  shows "words P (set_word h b i w') =
    (if P w' then {#(b, w')#} else {#}) + (words P h - (if P w then {#(b, w)#} else {#}))"
proof -
  let ?f = "\<lambda>h b. image_mset (Pair b) (filter_mset P (mset (bucket_items h b)))"
  let ?h' = "set_word h b i w'" and ?R = "\<Sum>c \<in> {..<ht_num_buckets h} - {b}. ?f h c"
  have bl: "b < length (ht_buckets h)" and il: "i < length (bucket_items h b)"
    using ok b i by (simp_all add: table_ok_def)
  have it: "bucket_items ?h' c = (if c = b then (bucket_items h b)[i := w'] else bucket_items h c)" for c
    by (simp add: set_word_def bucket_items_set [OF bl])
  have "words P ?h' = ?f ?h' b + (\<Sum>c \<in> {..<ht_num_buckets h} - {b}. ?f ?h' c)"
    unfolding words_def using b by (subst sum.remove [of _ b]) (simp_all add: set_word_def)
  also have "(\<Sum>c \<in> {..<ht_num_buckets h} - {b}. ?f ?h' c) = ?R" by (rule sum.cong) (auto simp: it)
  finally have e': "words P ?h' = ?f ?h' b + ?R" .
  have e: "words P h = ?f h b + ?R"
    unfolding words_def using b by (subst sum.remove [of _ b]) simp_all
  have "w \<in># mset (bucket_items h b)" using il by (simp add: w_def)
  then obtain M where M: "mset (bucket_items h b) = add_mset w M" by (metis multi_member_split)
  have "mset ((bucket_items h b)[i := w']) = add_mset w' M"
    using il M by (simp add: mset_update w_def)
  then have "?f ?h' b = (if P w' then {#(b, w')#} else {#}) + image_mset (Pair b) (filter_mset P M)"
    by (simp add: it)
  moreover have "?f h b = (if P w then {#(b, w)#} else {#}) + image_mset (Pair b) (filter_mset P M)"
    by (simp add: M)
  ultimately show ?thesis unfolding e e' by simp
qed

lemma word_in_words:
  assumes "table_ok h" "b < ht_num_buckets h" "i < NUM_ITEM_SLOTS" "P (bucket_items h b ! i)"
  shows "(b, bucket_items h b ! i) \<in># words P h"
  using assms by (auto simp: in_words_iff table_ok_def)

section \<open>Lookups as scans of candidate locations\<close>

fun scan_locs :: "(location \<Rightarrow> 'p verified) \<Rightarrow> location option \<Rightarrow> location list \<Rightarrow> location lookup" where
  "scan_locs v unknown [] = (case unknown of Some l \<Rightarrow> LUnknown l | None \<Rightarrow> Absent)"
| "scan_locs v unknown (l # ls) =
     (case v l of
        Match _ \<Rightarrow> Found l
      | DifferentKey \<Rightarrow> scan_locs v unknown ls
      | VUnknown u \<Rightarrow> scan_locs v (case unknown of None \<Rightarrow> Some u | Some x \<Rightarrow> Some x) ls)"

definition bucket_candidates :: "hashtable \<Rightarrow> u16 \<Rightarrow> nat \<Rightarrow> location list" where
  "bucket_candidates h tag b =
     map bucket_location (filter (\<lambda>w. live_word w \<and> bucket_tag w = tag) (bucket_items h b))"

definition key_candidates :: "hashtable \<Rightarrow> u8 list \<Rightarrow> location list" where
  "key_candidates h key = concat (map (bucket_candidates h (fst (probe h key))) (choices h key))"

lemma scan_locs_append:
  "scan_locs v u (xs @ ys) =
     (case scan_locs v None xs of
        Found l \<Rightarrow> Found l
      | Absent \<Rightarrow> scan_locs v u ys
      | LUnknown l \<Rightarrow> scan_locs v (case u of None \<Rightarrow> Some l | Some x \<Rightarrow> Some x) ys)"
proof -
  have some: "scan_locs v (Some x) xs = (case scan_locs v None xs of Found l \<Rightarrow> Found l | _ \<Rightarrow> LUnknown x)" for x xs
  proof (induction xs)
    case (Cons l xs)
    have "scan_locs v (Some u) xs = (case scan_locs v None xs of Found l \<Rightarrow> Found l | _ \<Rightarrow> LUnknown u)" for u
      by (induction xs arbitrary: u) (auto split: verified.splits lookup.splits)
    then show ?case by (auto split: verified.splits lookup.splits)
  qed simp
  show ?thesis
    by (induction xs arbitrary: u) (auto simp: some split: verified.splits lookup.splits option.splits)
qed

lemma search_slots_scan:
  assumes tag: "unat tag < 4096"
  shows "map_lookup hit_location (fst (search_slots uf b tag key verify u h is)) =
    scan_locs (\<lambda>l. verify key l False) u
      (map (\<lambda>i. bucket_location (bucket_items h b ! i))
        (filter (\<lambda>i. live_word (bucket_items h b ! i) \<and> bucket_tag (bucket_items h b ! i) = tag) is))"
proof (induction "is" arbitrary: u)
  case (Cons i "is")
  then show ?case
    by (auto simp: Let_def live_word_def tag_mask [OF tag] split: verified.split)
qed (simp split: option.split)

text \<open>What a search that finds something has found, and what it leaves behind.\<close>

lemma search_slots_found:
  assumes tag: "unat tag < 4096" and "search_slots uf b tag key verify u h is = (Found hit, h')"
  obtains i where "i \<in> set is" "live_word (bucket_items h b ! i)" "bucket_tag (bucket_items h b ! i) = tag"
    "verify key (bucket_location (bucket_items h b ! i)) False = Match (hit_pin hit)"
    "hit_location hit = bucket_location (bucket_items h b ! i)"
    "hit_slot hit = \<lparr>sr_bucket = of_nat b, sr_slot = of_nat i, sr_tag = tag\<rparr>"
    "h' = (if uf then bump_slot h b i (bucket_items h b ! i) else h)"
  using assms(2)
proof (induction "is" arbitrary: u thesis)
  case (Cons i "is")
  let ?w = "bucket_items h b ! i"
  show ?case
  proof (cases "live_word ?w \<and> bucket_tag ?w = tag \<and> (\<exists>p. verify key (bucket_location ?w) False = Match p)")
    case True
    then obtain p where p: "verify key (bucket_location ?w) False = Match p" by blast
    show ?thesis
      by (rule Cons.prems(1) [of i])
         (use True p Cons.prems(2) in \<open>auto simp: Let_def live_word_def tag_mask [OF tag]\<close>)
  next
    case False
    then obtain u' where "search_slots uf b tag key verify u' h is = (Found hit, h')"
      using Cons.prems(2)
      by (fastforce simp: Let_def live_word_def tag_mask [OF tag] split: if_splits verified.splits)
    then show ?thesis by (rule Cons.IH [rotated]) (rule Cons.prems(1), auto)
  qed
qed (simp split: option.splits)

lemma search_slots_not_found:
  "\<nexists>hit. fst (search_slots uf b tag key verify u h is) = Found hit \<Longrightarrow>
   snd (search_slots uf b tag key verify u h is) = h"
  by (induction "is" arbitrary: u) (auto simp: Let_def split: option.splits verified.splits if_splits)

lemma search_slots_result:
  "fst (search_slots True b tag key verify u h is) = fst (search_slots False b tag key verify u h is)"
  by (induction "is" arbitrary: u) (auto simp: Let_def split: option.splits verified.splits)

lemma filter_via_index:
  "map (\<lambda>i. f (ws ! i)) (filter (\<lambda>i. P (ws ! i)) [0..<length ws]) = map f (filter P ws)"
proof -
  have "filter P ws = filter P (map ((!) ws) [0..<length ws])" by (simp add: map_nth)
  also have "\<dots> = map ((!) ws) (filter (\<lambda>i. P (ws ! i)) [0..<length ws])" by (simp add: filter_map o_def)
  finally show ?thesis by (simp add: o_def)
qed

lemma search_bucket_scan:
  assumes "table_ok h" "b < ht_num_buckets h" "unat tag < 4096"
  shows "map_lookup hit_location (fst (search_bucket uf tag key verify h b)) =
    scan_locs (\<lambda>l. verify key l False) None (bucket_candidates h tag b)"
proof -
  let ?ws = "bucket_items h b"
  have len: "length ?ws = 8" using assms(1,2) by (simp add: table_ok_def NUM_ITEM_SLOTS_def)
  show ?thesis
    unfolding search_bucket_def search_slots_scan [OF assms(3)] mask_slots_matches [OF assms(3)] filter_filter
      bucket_candidates_def
    using filter_via_index [of bucket_location ?ws "\<lambda>w. live_word w \<and> bucket_tag w = tag"]
    by (simp add: len conj_ac)
qed

text \<open>The loop over the candidate buckets of a scan that leaves the state alone unless it finds something.\<close>

definition keeps_state :: "('s \<Rightarrow> nat \<Rightarrow> 'a lookup \<times> 's) \<Rightarrow> 's \<Rightarrow> bool" where
  "keeps_state scan s \<longleftrightarrow> (\<forall>b. (\<exists>a. fst (scan s b) = Found a) \<or> snd (scan s b) = s)"

lemma keeps_stateD: "keeps_state scan s \<Longrightarrow> scan s b = (r, t) \<Longrightarrow> \<nexists>a. r = Found a \<Longrightarrow> t = s"
  by (auto simp: keeps_state_def dest: spec [of _ b])

lemma fold_choices_loop_scan:
  assumes "\<And>b. b \<in> set bs \<Longrightarrow> map_lookup f (fst (scan s b)) = scan_locs v None (cands b)"
    and "keeps_state scan s"
  shows "map_lookup f (fst (fold_choices_loop scan u s bs)) = scan_locs v u (concat (map cands bs))
    \<and> (case fst (fold_choices_loop scan u s bs) of
         Found a \<Rightarrow> (\<exists>b \<in> set bs. scan s b = fold_choices_loop scan u s bs)
       | _ \<Rightarrow> snd (fold_choices_loop scan u s bs) = s)"
  using assms(1)
proof (induction bs arbitrary: u)
  case Nil
  then show ?case by (simp split: option.split)
next
  case (Cons b bs)
  obtain r s' where rs: "scan s b = (r, s')" by force
  have r: "map_lookup f r = scan_locs v None (cands b)" using Cons.prems [of b] rs by simp
  have s': "s' = s" if "\<nexists>a. r = Found a" using keeps_stateD [OF assms(2) rs] that .
  note IH = Cons.IH [OF Cons.prems]
  show ?case
  proof (cases r)
    case (Found a)
    then show ?thesis using rs r [symmetric] by (simp add: scan_locs_append)
  next
    case Absent
    then show ?thesis using rs r s' IH [of u]
      by (auto simp: scan_locs_append split: lookup.splits)
  next
    case (LUnknown l)
    then show ?thesis using rs r s' IH [of "case u of None \<Rightarrow> Some l | Some x \<Rightarrow> Some x"]
      by (auto simp: scan_locs_append split: lookup.splits)
  qed
qed

section \<open>Frequency updates\<close>

text \<open>A word that may only have gained frequency, and a table whose words may only have gained frequency.\<close>

definition freq_up :: "u64 \<Rightarrow> u64 \<Rightarrow> bool" where
  "freq_up w w' \<longleftrightarrow> bucket_tag w' = bucket_tag w \<and> bucket_location w' = bucket_location w
     \<and> (w' = 0 \<longleftrightarrow> w = 0) \<and> bucket_freq w \<le> bucket_freq w'"

definition freq_only :: "hashtable \<Rightarrow> hashtable \<Rightarrow> bool" where
  "freq_only h h' \<longleftrightarrow> ht_hash h' = ht_hash h \<and> ht_num_buckets h' = ht_num_buckets h \<and> ht_mask h' = ht_mask h
     \<and> ht_num_choices h' = ht_num_choices h \<and> length (ht_buckets h') = length (ht_buckets h)
     \<and> (\<forall>b < ht_num_buckets h. list_all2 freq_up (bucket_items h b) (bucket_items h' b))"

lemma freq_up_refl [simp]: "freq_up w w"
  by (simp add: freq_up_def)

lemma freq_up_trans: "freq_up u v \<Longrightarrow> freq_up v w \<Longrightarrow> freq_up u w"
  by (auto simp: freq_up_def)

lemma freq_only_refl [simp]: "freq_only h h"
  by (auto simp: freq_only_def intro: list_all2_refl)

lemma freq_only_trans: "freq_only f g \<Longrightarrow> freq_only g h \<Longrightarrow> freq_only f h"
proof -
  assume fg: "freq_only f g" and gh: "freq_only g h"
  have "list_all2 freq_up (bucket_items f b) (bucket_items h b)" if "b < ht_num_buckets f" for b
  proof (rule list_all2_trans [of freq_up freq_up freq_up])
    show "list_all2 freq_up (bucket_items f b) (bucket_items g b)" using fg that by (simp add: freq_only_def)
    show "list_all2 freq_up (bucket_items g b) (bucket_items h b)" using fg gh that by (simp add: freq_only_def)
  qed (rule freq_up_trans)
  then show ?thesis using fg gh by (simp add: freq_only_def)
qed

lemma freq_up_live: "freq_up w w' \<Longrightarrow> live_word w' \<longleftrightarrow> live_word w"
  by (auto simp: freq_up_def live_word_def bucket_is_ghost_iff)

lemma table_ok_freq_only: "table_ok h \<Longrightarrow> freq_only h h' \<Longrightarrow> table_ok h'"
  unfolding table_ok_def freq_only_def by (metis list_all2_lengthD)

lemma choices_freq_only: "freq_only h h' \<Longrightarrow> choices h' = choices h"
  by (simp add: freq_only_def choices_def probe_def bucket_indices_def fun_eq_iff Let_def)

lemma freq_only_set_word:
  assumes "table_ok h" "b < ht_num_buckets h" "freq_up (bucket_items h b ! i) w'"
  shows "freq_only h (set_word h b i w')"
proof -
  have "list_all2 freq_up ws ((ws)[i := w'])" if "freq_up (ws ! i) w'" for ws
  proof (rule list_all2_all_nthI)
    fix j
    assume "j < length ws"
    then show "freq_up (ws ! j) (ws[i := w'] ! j)" using that by (cases "j = i") simp_all
  qed simp
  moreover have "b < length (ht_buckets h)" using assms by (simp add: table_ok_def)
  ultimately show ?thesis
    using assms by (auto simp: freq_only_def set_word_def bucket_items_set intro: list_all2_refl)
qed

lemma bump_slot_freq:
  assumes ok: "table_ok h" and b: "b < ht_num_buckets h" and w: "packed = bucket_items h b ! i" "packed \<noteq> 0"
  shows "freq_only h (bump_slot h b i packed)"
proof -
  obtain d rng where d: "next_u64 (ht_freq_rng h) = (d, rng)" by force
  let ?h = "h\<lparr>ht_freq_rng := rng\<rparr>" and ?f = "bucket_freq packed"
  have items: "bucket_items ?h = bucket_items h" by (simp add: bucket_items_def fun_eq_iff)
  have r: "freq_only h ?h" by (simp add: freq_only_def items list_all2_refl)
  have set: "freq_only ?h (set_bucket_items ?h b ((bucket_items ?h b)[i := v]))" if "freq_up packed v" for v
    using freq_only_set_word [of ?h b i v] table_ok_freq_only [OF ok r] b that w(1)
    by (simp add: set_word_def items)
  have suc: "freq_up packed (with_freq packed (?f + 1))" if "?f < 127"
  proof -
    have "unat (?f + 1) = unat ?f + 1" using that by (simp add: word_less_nat_alt unat_word_ariths)
    moreover have "with_freq packed (?f + 1) \<noteq> 0"
    proof
      assume "with_freq packed (?f + 1) = 0"
      then have "?f + 1 = 0" using with_freq_fields(2) [of packed "?f + 1"] by (simp add: bucket_freq_def)
      then show False using \<open>unat (?f + 1) = unat ?f + 1\<close> by simp
    qed
    ultimately show ?thesis using w(2) by (simp add: freq_up_def with_freq_fields word_le_nat_alt)
  qed
  show ?thesis
    using r set [OF suc] w(1)
    by (auto simp: bump_slot_def Let_def d try_update_freq_def items not_le intro: freq_only_trans)
qed

lemma increment_ghost_freq_only:
  assumes "table_ok h" "b < ht_num_buckets h"
  shows "freq_only h (increment_ghost_freq_in_bucket tag h b)"
proof -
  define g where "g h i = (let packed = bucket_items h b ! i in
    if packed \<noteq> 0 \<and> bucket_is_ghost packed \<and> bucket_tag packed = tag then bump_slot h b i packed else h)" for h i
  have step: "freq_only h (g h i)" if "table_ok h" "b < ht_num_buckets h" for h i
    using that by (simp add: g_def Let_def bump_slot_freq)
  have "freq_only h (foldl g h is)" for "is"
  proof (induction "is" rule: rev_induct)
    case (snoc i "is")
    let ?h = "foldl g h is"
    have "table_ok ?h" using assms(1) snoc by (rule table_ok_freq_only)
    moreover have "b < ht_num_buckets ?h" using assms(2) snoc by (simp add: freq_only_def)
    ultimately have "freq_only ?h (g ?h i)" by (rule step)
    with snoc show ?case by (simp add: freq_only_trans [of h ?h])
  qed simp
  then show ?thesis unfolding increment_ghost_freq_in_bucket_def g_def [abs_def] .
qed

lemma increment_ghosts_freq_only:
  assumes "table_ok h" "\<And>b. b \<in> set bs \<Longrightarrow> b < ht_num_buckets h"
  shows "freq_only h (foldl (increment_ghost_freq_in_bucket tag) h bs)"
  using assms
proof (induction bs arbitrary: h)
  case (Cons b bs)
  let ?h = "increment_ghost_freq_in_bucket tag h b"
  have f: "freq_only h ?h" using Cons.prems by (intro increment_ghost_freq_only) auto
  moreover have "freq_only ?h (foldl (increment_ghost_freq_in_bucket tag) ?h bs)"
    using Cons.prems f by (intro Cons.IH) (auto simp: freq_only_def intro: table_ok_freq_only)
  ultimately show ?case by (simp add: freq_only_trans)
qed simp

section \<open>Lookup\<close>

lemma search_bucket_keeps: "keeps_state (search_bucket uf tag key verify) h"
  using search_slots_not_found by (fastforce simp: keeps_state_def search_bucket_def)

lemma lookup_no_freq_update_scan:
  assumes "table_ok h"
  shows "map_lookup hit_location (lookup_no_freq_update key verify h) =
    scan_locs (\<lambda>l. verify key l False) None (key_candidates h key)"
proof -
  let ?t = "tag_from_hash (ht_hash h key)"
  have "map_lookup hit_location (fst (search_bucket False ?t key verify h b)) =
      scan_locs (\<lambda>l. verify key l False) None (bucket_candidates h ?t b)" if "b \<in> set (choices h key)" for b
    using choices_bound [OF assms that] assms tag_from_hash_less by (rule_tac search_bucket_scan)
  then show ?thesis
    using fold_choices_loop_scan [of "choices h key" hit_location "search_bucket False ?t key verify" h
      "\<lambda>l. verify key l False" "bucket_candidates h ?t" None, OF _ search_bucket_keeps]
    by (simp add: lookup_no_freq_update_def fold_choices_def key_candidates_def fst_probe split_beta)
qed

text \<open>A found hit names the bucket and the slot its entry stands in.\<close>

lemma search_bucket_found:
  assumes "unat tag < 4096" and "search_bucket uf tag key verify h b = (Found hit, h')"
  obtains i where "i < 8" "live_word (bucket_items h b ! i)" "bucket_tag (bucket_items h b ! i) = tag"
    "verify key (bucket_location (bucket_items h b ! i)) False = Match (hit_pin hit)"
    "hit_location hit = bucket_location (bucket_items h b ! i)"
    "hit_slot hit = \<lparr>sr_bucket = of_nat b, sr_slot = of_nat i, sr_tag = tag\<rparr>"
    "h' = (if uf then bump_slot h b i (bucket_items h b ! i) else h)"
proof -
  from search_slots_found [OF assms(1) assms(2) [unfolded search_bucket_def]] obtain i where
    i: "i \<in> set (mask_slots 8 (find_tag_matches (bucket_items h b) (push_bit 52 (ucast tag))))"
    and rest: "live_word (bucket_items h b ! i)" "bucket_tag (bucket_items h b ! i) = tag"
    "verify key (bucket_location (bucket_items h b ! i)) False = Match (hit_pin hit)"
    "hit_location hit = bucket_location (bucket_items h b ! i)"
    "hit_slot hit = \<lparr>sr_bucket = of_nat b, sr_slot = of_nat i, sr_tag = tag\<rparr>"
    "h' = (if uf then bump_slot h b i (bucket_items h b ! i) else h)" by blast
  have "i < 8" using i by (simp add: mask_slots_matches [OF assms(1)])
  then show ?thesis using rest by (rule that)
qed

lemma fold_choices_found:
  assumes "keeps_state scan s"
    and "fold_choices_loop scan u s bs = (Found a, s')"
  shows "\<exists>b \<in> set bs. scan s b = (Found a, s')"
  using assms(2)
proof (induction bs arbitrary: u)
  case (Cons b bs)
  obtain r t where rt: "scan s b = (r, t)" by force
  have "t = s" if "\<nexists>a. r = Found a" using keeps_stateD [OF assms(1) rt] that .
  then show ?case using Cons rt by (cases r) auto
qed (simp split: option.splits)

lemma fold_choices_result:
  assumes "\<And>b. fst (scan s b) = fst (scan' s b)"
    and "keeps_state scan s"
    and "keeps_state scan' s"
  shows "fst (fold_choices_loop scan u s bs) = fst (fold_choices_loop scan' u s bs)
    \<and> ((\<nexists>a. fst (fold_choices_loop scan u s bs) = Found a) \<longrightarrow> snd (fold_choices_loop scan u s bs) = s)"
proof (induction bs arbitrary: u)
  case (Cons b bs)
  obtain r t r' t' where rt: "scan s b = (r, t)" "scan' s b = (r', t')" by force
  have "r' = r" using assms(1) [of b] rt by simp
  moreover from this have "t = s" "t' = s" if "\<nexists>a. r = Found a"
    using keeps_stateD [OF assms(2) rt(1)] keeps_stateD [OF assms(3) rt(2)] that by simp_all
  ultimately show ?case using Cons rt by (cases r) auto
qed (simp split: option.split)

lemma search_bucket_result:
  "fst (search_bucket True tag key verify h b) = fst (search_bucket False tag key verify h b)"
  unfolding search_bucket_def by (rule search_slots_result)

lemma ht_lookup_result:
  assumes ok: "table_ok h"
  shows "fst (ht_lookup key verify h) = lookup_no_freq_update key verify h"
    and "freq_only h (snd (ht_lookup key verify h))"
proof -
  let ?t = "tag_from_hash (ht_hash h key)" and ?bs = "choices h key"
  let ?s = "\<lambda>uf. fold_choices_loop (search_bucket uf ?t key verify) None h ?bs"
  note res = fold_choices_result [of "search_bucket True ?t key verify" h "search_bucket False ?t key verify" None ?bs,
      OF search_bucket_result search_bucket_keeps search_bucket_keeps]
  obtain r h' where rh: "?s True = (r, h')" by force
  have found: "freq_only h h'" if rf: "r = Found hit" for hit
  proof -
    obtain b where b: "b \<in> set ?bs" and s: "search_bucket True ?t key verify h b = (Found hit, h')"
      using fold_choices_found [of "search_bucket True ?t key verify" h None ?bs hit h',
          OF search_bucket_keeps] rh rf by blast
    from search_bucket_found [OF tag_from_hash_less s] obtain i where
      "live_word (bucket_items h b ! i)" "h' = (if True then bump_slot h b i (bucket_items h b ! i) else h)" .
    then show ?thesis using choices_bound [OF ok b] ok by (simp add: bump_slot_freq live_word_def)
  qed
  have not_found: "h' = h" if "\<nexists>a. r = Found a" using res rh that by simp
  have ghosts: "freq_only h (foldl (increment_ghost_freq_in_bucket ?t) h ?bs)"
    using ok choices_bound [OF ok] by (rule increment_ghosts_freq_only)
  obtain "is" where pr: "probe h key = (?t, is)" using fst_probe by (metis prod.collapse)
  have lnf: "lookup_no_freq_update key verify h = r"
    using res rh by (simp add: lookup_no_freq_update_def fold_choices_def pr)
  show "fst (ht_lookup key verify h) = lookup_no_freq_update key verify h"
    unfolding lnf using rh by (cases r) (simp_all add: ht_lookup_def fold_choices_def pr Let_def)
  show "freq_only h (snd (ht_lookup key verify h))"
    using rh found not_found ghosts by (cases r) (simp_all add: ht_lookup_def fold_choices_def pr Let_def)
qed

end
