(* ===== verification/HashtableOps.thy ===== *)
theory HashtableOps
  imports HashtableProps
begin

unbundle bit_operations_syntax

text \<open>
  The operations of the hashtable that change it: each compare-exchanges exactly one slot word of a
  candidate bucket of its key, or changes nothing at all, and the multisets of live entries and of ghosts
  say which.
\<close>

section \<open>One slot word\<close>

text \<open>The table with one word of a bucket of \<open>B\<close> replaced, the old and the new word related by \<open>R\<close>.\<close>

definition one_word :: "(u64 \<Rightarrow> u64 \<Rightarrow> bool) \<Rightarrow> nat set \<Rightarrow> hashtable \<Rightarrow> hashtable \<Rightarrow> bool" where
  "one_word R B h h' \<longleftrightarrow>
     (\<exists>b \<in> B. \<exists>i < NUM_ITEM_SLOTS. \<exists>w'. R (bucket_items h b ! i) w' \<and> h' = set_word h b i w')"

lemma one_word_mono:
  "one_word R B h h' \<Longrightarrow> B \<subseteq> B' \<Longrightarrow> (\<And>w w'. R w w' \<Longrightarrow> R' w w') \<Longrightarrow> one_word R' B' h h'"
  unfolding one_word_def by blast

lemma one_word_cases:
  assumes "one_word R B h h'" and ok: "table_ok h" and B: "\<And>b. b \<in> B \<Longrightarrow> b < ht_num_buckets h"
  obtains b w w' where "b \<in> B" "R w w'" "w \<in> set (bucket_items h b)" "b < ht_num_buckets h" "table_ok h'"
    "choices h' = choices h" "ht_hash h' = ht_hash h" "ht_num_buckets h' = ht_num_buckets h"
    "\<And>P. words P h' = (if P w' then {#(b, w')#} else {#}) + (words P h - (if P w then {#(b, w)#} else {#}))"
proof -
  obtain b i w' where b: "b \<in> B" and i: "i < NUM_ITEM_SLOTS" and R: "R (bucket_items h b ! i) w'"
    and h': "h' = set_word h b i w'"
    using assms(1) by (auto simp: one_word_def)
  have bn: "b < ht_num_buckets h" using B [OF b] .
  show ?thesis
  proof (rule that [OF b R _ bn])
    show "bucket_items h b ! i \<in> set (bucket_items h b)" using ok bn i by (simp add: table_ok_def)
    show "table_ok h'" unfolding h' using ok bn by (rule table_ok_set_word)
    show "choices h' = choices h" "ht_hash h' = ht_hash h" "ht_num_buckets h' = ht_num_buckets h"
      unfolding h' set_word_def by simp_all
  qed (simp add: h' words_set_word [OF ok bn i])
qed

lemma cas_slots_cases:
  "cas_slots f items is = (r, items') \<Longrightarrow>
     (if r then \<exists>i \<in> set is. \<exists>w. f (items ! i) = Some w \<and> items' = items[i := w]
      else items' = items \<and> (\<forall>i \<in> set is. f (items ! i) = None))"
  by (induction "is") (auto split: option.splits if_splits)

text \<open>What an attempt at one bucket, and a loop of attempts over the candidate buckets, does.\<close>

definition attempts :: "(u64 \<Rightarrow> u64 \<Rightarrow> bool) \<Rightarrow> hashtable \<Rightarrow> nat set \<Rightarrow> bool \<times> hashtable \<Rightarrow> bool" where
  "attempts R h B res \<longleftrightarrow>
     (if fst res then one_word R B h (snd res)
      else snd res = h \<and> (\<forall>b \<in> B. \<forall>w \<in> set (bucket_items h b). \<forall>w'. \<not> R w w'))"

lemma items_all_nth:
  "table_ok h \<Longrightarrow> b < ht_num_buckets h \<Longrightarrow>
   (\<forall>i \<in> set [0..<NUM_ITEM_SLOTS]. P (bucket_items h b ! i)) \<longleftrightarrow> (\<forall>w \<in> set (bucket_items h b). P w)"
  by (auto simp: table_ok_def all_set_conv_all_nth)

lemma cas_bucket_attempts:
  assumes ok: "table_ok h" and b: "b < ht_num_buckets h"
  shows "attempts (\<lambda>w w'. f w = Some w') h {b} (cas_bucket f h b)"
proof -
  obtain r items where c: "cas_slots f (bucket_items h b) [0..<NUM_ITEM_SLOTS] = (r, items)" by force
  note cs = cas_slots_cases [OF c]
  show ?thesis
  proof (cases r)
    case True
    then show ?thesis using cs c
      by (auto simp: attempts_def one_word_def cas_bucket_def set_word_def)
  next
    case False
    then have "items = bucket_items h b" "\<forall>w \<in> set (bucket_items h b). f w = None"
      using cs items_all_nth [OF ok b, of "\<lambda>w. f w = None"] by simp_all
    then show ?thesis using c False by (simp add: attempts_def cas_bucket_def)
  qed
qed

lemma try_choices_attempts:
  assumes "\<And>b. b \<in> set bs \<Longrightarrow> attempts R h {b} (attempt h b)"
  shows "attempts R h (set bs) (try_choices attempt h bs)"
  using assms
proof (induction bs)
  case (Cons b bs)
  obtain r h' where a: "attempt h b = (r, h')" by force
  have ab: "attempts R h {b} (r, h')" using Cons.prems [of b] a by simp
  show ?case
  proof (cases r)
    case True
    then show ?thesis using ab a one_word_mono [of R "{b}" h h' "set (b # bs)" R] by (simp add: attempts_def)
  next
    case False
    with ab have h': "h' = h" and none: "\<forall>w \<in> set (bucket_items h b). \<forall>w'. \<not> R w w'"
      by (simp_all add: attempts_def)
    have "attempts R h (set bs) (try_choices attempt h bs)" using Cons by simp
    then show ?thesis using False a none h'
        one_word_mono [of R "set bs" h "snd (try_choices attempt h bs)" "set (b # bs)" R]
      by (auto simp: attempts_def subset_insertI)
  qed
qed (simp add: attempts_def)

lemma cas_choices_attempts:
  assumes "table_ok h"
  shows "attempts (\<lambda>w w'. f w = Some w') h (set (choices h key)) (try_choices (cas_bucket f) h (choices h key))"
  using cas_bucket_attempts [OF assms choices_bound [OF assms]] by (rule try_choices_attempts)

section \<open>Replacing, claiming and inserting\<close>

lemma try_replace_slots_scan:
  "fst (try_replace_slots tag key np verify u items is) =
    scan_locs (\<lambda>l. verify key l True) u
      (map (\<lambda>i. bucket_location (items ! i))
        (filter (\<lambda>i. live_word (items ! i) \<and> bucket_tag (items ! i) = tag) is))"
  by (induction "is" arbitrary: u) (auto simp: Let_def live_word_def split: verified.split option.split)

lemma try_replace_slots_found:
  "try_replace_slots tag key np verify u items is = (Found old, items') \<Longrightarrow>
     \<exists>i \<in> set is. is_entry tag old (items ! i) \<and> items' = items[i := with_freq np (bucket_freq (items ! i))]"
proof (induction "is" arbitrary: u)
  case (Cons i "is")
  let ?w = "items ! i"
  show ?case
  proof (cases "live_word ?w \<and> bucket_tag ?w = tag \<and> (\<exists>p. verify key (bucket_location ?w) True = Match p)")
    case True
    then show ?thesis using Cons.prems by (auto simp: Let_def is_entry_iff live_word_def)
  next
    case False
    then have "\<exists>u'. try_replace_slots tag key np verify u' items is = (Found old, items')"
      using Cons.prems by (auto simp: Let_def live_word_def split: if_splits verified.splits)
    then show ?thesis using Cons.IH by (metis list.set_intros(2))
  qed
qed (simp split: option.splits)

lemma try_replace_slots_not_found:
  "\<nexists>a. fst (try_replace_slots tag key np verify u items is) = Found a \<Longrightarrow>
   snd (try_replace_slots tag key np verify u items is) = items"
  by (induction "is" arbitrary: u) (auto simp: Let_def split: option.splits verified.splits if_splits)

lemma try_replace_existing_keeps: "keeps_state (try_replace_existing tag key np verify) h"
proof -
  have "(\<exists>a. fst (try_replace_existing tag key np verify h b) = Found a)
      \<or> snd (try_replace_existing tag key np verify h b) = h" for b
    using try_replace_slots_not_found
      [where ?tag = tag and ?key = key and ?np = np and ?verify = verify and ?u = None
        and ?items = "bucket_items h b" and ?is = "[0..<NUM_ITEM_SLOTS]"]
    by (cases "\<exists>a. fst (try_replace_existing tag key np verify h b) = Found a")
       (simp_all add: try_replace_existing_def split_beta)
  then show ?thesis by (simp add: keeps_state_def)
qed

lemma try_replace_existing_scan:
  assumes "table_ok h" "b < ht_num_buckets h"
  shows "fst (try_replace_existing tag key np verify h b) =
    scan_locs (\<lambda>l. verify key l True) None (bucket_candidates h tag b)"
proof -
  have len: "length (bucket_items h b) = NUM_ITEM_SLOTS" using assms by (simp add: table_ok_def)
  show ?thesis
    using filter_via_index [of bucket_location "bucket_items h b" "\<lambda>w. live_word w \<and> bucket_tag w = tag"]
    by (simp add: try_replace_existing_def split_beta try_replace_slots_scan bucket_candidates_def len)
qed

lemma try_replace_existing_found:
  assumes "try_replace_existing tag key np verify h b = (Found old, h')"
  shows "one_word (\<lambda>w w'. is_entry tag old w \<and> w' = with_freq np (bucket_freq w)) {b} h h'"
proof -
  obtain items' where i: "try_replace_slots tag key np verify None (bucket_items h b) [0..<NUM_ITEM_SLOTS] = (Found old, items')"
    and h': "h' = set_bucket_items h b items'"
    using assms by (auto simp: try_replace_existing_def split: prod.splits)
  show ?thesis
    using try_replace_slots_found [OF i] by (auto simp: h' one_word_def set_word_def)
qed

lemma map_lookup_ident: "map_lookup (\<lambda>x. x) r = r"
  by (cases r) simp_all

lemma fold_replace_cases:
  fixes verify :: "'p verifier" and key :: "u8 list" and np :: u64
  assumes ok: "table_ok h"
  defines "tag \<equiv> fst (probe h key)"
  defines "res \<equiv> fold_choices (choices h key) (try_replace_existing tag key np verify) h"
  shows "fst res = scan_locs (\<lambda>l. verify key l True) None (key_candidates h key)"
    and "fst res = Found old \<Longrightarrow>
      one_word (\<lambda>w w'. is_entry tag old w \<and> w' = with_freq np (bucket_freq w)) (set (choices h key)) h (snd res)"
    and "\<nexists>a. fst res = Found a \<Longrightarrow> snd res = h"
proof -
  have "map_lookup (\<lambda>x. x) (fst (try_replace_existing tag key np verify h b)) =
      scan_locs (\<lambda>l. verify key l True) None (bucket_candidates h tag b)" if "b \<in> set (choices h key)" for b
    using try_replace_existing_scan [OF ok choices_bound [OF ok that]] by (simp add: map_lookup_ident)
  note loop = fold_choices_loop_scan [of "choices h key" "\<lambda>x. x" "try_replace_existing tag key np verify" h
      "\<lambda>l. verify key l True" "bucket_candidates h tag" None, OF this try_replace_existing_keeps]
  show "fst res = scan_locs (\<lambda>l. verify key l True) None (key_candidates h key)"
    using loop by (simp add: res_def fold_choices_def key_candidates_def tag_def map_lookup_ident)
  show "snd res = h" if "\<nexists>a. fst res = Found a"
    using loop that by (auto simp: res_def fold_choices_def split: lookup.splits)
  show "one_word (\<lambda>w w'. is_entry tag old w \<and> w' = with_freq np (bucket_freq w)) (set (choices h key)) h (snd res)"
    if "fst res = Found old"
  proof -
    have "fold_choices_loop (try_replace_existing tag key np verify) None h (choices h key) = (Found old, snd res)"
      using that by (simp add: res_def fold_choices_def prod_eq_iff)
    then obtain b where b: "b \<in> set (choices h key)"
      "try_replace_existing tag key np verify h b = (Found old, snd res)"
      using fold_choices_found [OF try_replace_existing_keeps] by blast
    show ?thesis
      by (rule one_word_mono [OF try_replace_existing_found [OF b(2)]]) (use b(1) in auto)
  qed
qed

text \<open>The word a claimed slot gets: a ghost of the same tag hands its frequency on.\<close>

definition claimed_word :: "u16 \<Rightarrow> u64 \<Rightarrow> u64 \<Rightarrow> u64" where
  "claimed_word tag np w = (if bucket_is_ghost w \<and> bucket_tag w = tag then with_freq np (bucket_freq w) else np)"

lemma try_claim_attempts:
  assumes ok: "table_ok h" and b: "b < ht_num_buckets h"
  shows "attempts (\<lambda>w w'. \<not> live_word w \<and> w' = claimed_word tag np w) h {b} (try_claim_new_slot tag np h b)"
proof -
  let ?f1 = "\<lambda>packed. if bucket_tag packed \<noteq> tag \<or> \<not> bucket_is_ghost packed then None
     else Some (with_freq np (bucket_freq packed))"
  let ?f2 = "\<lambda>packed. if packed = 0 then Some np else None"
  let ?f3 = "\<lambda>packed. if bucket_is_ghost packed then Some np else None"
  let ?c = "\<lambda>f. cas_slots f (bucket_items h b) [0..<NUM_ITEM_SLOTS]"
  let ?R = "\<lambda>w w'. \<not> live_word w \<and> w' = claimed_word tag np w"
  obtain r1 t1 r2 t2 r3 t3 where c: "?c ?f1 = (r1, t1)" "?c ?f2 = (r2, t2)" "?c ?f3 = (r3, t3)" by force
  have claim: "try_claim_new_slot tag np h b =
      (if r1 then (True, set_bucket_items h b t1) else if r2 then (True, set_bucket_items h b t2)
       else if r3 then (True, set_bucket_items h b t3) else (False, h))"
    unfolding try_claim_new_slot_def Let_def c by simp
  have no: "\<forall>w \<in> set (bucket_items h b). f w = None" if "?c f = (False, t)" for f t
    using cas_slots_cases [OF that] items_all_nth [OF ok b, of "\<lambda>w. f w = None"] by simp
  have yes: "one_word ?R {b} h (set_bucket_items h b t)"
    if ct: "?c f = (True, t)" and R: "\<And>w w'. w \<in> set (bucket_items h b) \<Longrightarrow> f w = Some w' \<Longrightarrow> ?R w w'" for f t
  proof -
    obtain i w' where i: "i < NUM_ITEM_SLOTS" "f (bucket_items h b ! i) = Some w'" "t = (bucket_items h b)[i := w']"
      using cas_slots_cases [OF ct] by auto
    moreover have "bucket_items h b ! i \<in> set (bucket_items h b)" using i(1) ok b by (simp add: table_ok_def)
    ultimately show ?thesis using R by (auto simp: one_word_def set_word_def)
  qed
  have g0: "\<not> bucket_is_ghost 0" by (simp add: bucket_is_ghost_def)
  have y1: "one_word ?R {b} h (set_bucket_items h b t1)" if r1
    using c(1) that by (intro yes [of ?f1]) (auto simp: claimed_word_def live_word_def split: if_splits)
  have y2: "one_word ?R {b} h (set_bucket_items h b t2)" if r2
    using c(2) that by (intro yes [of ?f2]) (auto simp: claimed_word_def live_word_def g0 split: if_splits)
  have y3: "one_word ?R {b} h (set_bucket_items h b t3)" if "\<not> r1" r3
  proof (rule yes [of ?f3])
    show "?c ?f3 = (True, t3)" using c(3) that by simp
    show "?R w w'" if w: "w \<in> set (bucket_items h b)" and f3: "?f3 w = Some w'" for w w'
      using no [of ?f1 t1] c(1) \<open>\<not> r1\<close> w f3 by (auto simp: claimed_word_def live_word_def split: if_splits)
  qed
  have n: "\<forall>w \<in> set (bucket_items h b). live_word w" if "\<not> r2" "\<not> r3"
    using no [of ?f2 t2] no [of ?f3 t3] c that by (auto simp: live_word_def split: if_splits)
  show ?thesis unfolding claim using y1 y2 y3 n by (simp add: attempts_def)
qed

lemma choices_claim_attempts:
  assumes ok: "table_ok h" and bs: "set bs \<subseteq> set (choices h key)"
  shows "attempts (\<lambda>w w'. \<not> live_word w \<and> w' = claimed_word tag np w) h (set bs)
    (try_choices (try_claim_new_slot tag np) h bs)"
  using try_claim_attempts [OF ok choices_bound [OF ok subsetD [OF bs]]] by (rule try_choices_attempts)

text \<open>The four outcomes of an insert.\<close>

lemma ht_insert_cases:
  fixes verify :: "'p verifier" and key :: "u8 list" and loc :: location
  assumes ok: "table_ok h"
  defines "tag \<equiv> fst (probe h key)"
  defines "np \<equiv> bucket_pack tag 1 loc"
  defines "found \<equiv> scan_locs (\<lambda>l. verify key l True) None (key_candidates h key)"
  shows "case ht_insert key loc verify h of
      (Inr Created, h') \<Rightarrow> found = Absent
        \<and> one_word (\<lambda>w w'. \<not> live_word w \<and> w' = claimed_word tag np w) (set (choices h key)) h h'
    | (Inr (Replaced old), h') \<Rightarrow> found = Found old
        \<and> one_word (\<lambda>w w'. is_entry tag old w \<and> w' = with_freq np (bucket_freq w)) (set (choices h key)) h h'
    | (Inr (IUnknown l), h') \<Rightarrow> found = LUnknown l \<and> h' = h
    | (Inl _, h') \<Rightarrow> found = Absent \<and> h' = h
        \<and> (\<forall>b \<in> set (choices h key). \<forall>w \<in> set (bucket_items h b). live_word w)"
proof -
  let ?bs = "choices h key" and ?R = "\<lambda>w w'. \<not> live_word w \<and> w' = claimed_word tag np w"
  let ?rep = "\<lambda>h. fold_choices ?bs (try_replace_existing tag key np verify) h"
  let ?claim = "try_choices (try_claim_new_slot tag np)"
  obtain "is" where pr: "probe h key = (tag, is)" unfolding tag_def by (metis prod.collapse)
  obtain r h1 where rep: "?rep h = (r, h1)" by force
  note f = fold_replace_cases [OF ok, where ?key = key and ?np = np and ?verify = verify,
      folded tag_def, unfolded rep, simplified]
  have r: "r = found" using f(1) by (simp add: found_def)
  show ?thesis
  proof (cases r)
    case (Found old)
    then show ?thesis using f(2) r rep by (simp add: ht_insert_def pr np_def Let_def)
  next
    case (LUnknown l)
    then show ?thesis using f(3) r rep by (simp add: ht_insert_def pr np_def Let_def)
  next
    case Absent
    then have h1: "h1 = h" using f(3) by simp
    obtain c h2 where c: "?claim h ?bs = (c, h2)" by force
    note a = choices_claim_attempts [OF ok subset_refl, where ?key = key and ?tag = tag and ?np = np, unfolded c]
    show ?thesis
    proof (cases c)
      case True
      then show ?thesis using a c r rep Absent h1 by (simp add: ht_insert_def pr np_def Let_def attempts_def)
    next
      case False
      then have h2: "h2 = h" and live: "\<forall>b \<in> set ?bs. \<forall>w \<in> set (bucket_items h b). live_word w"
        using a by (simp_all add: attempts_def)
      obtain d h3 where d: "?claim h (sort_key (count_occupied h) ?bs) = (d, h3)" by force
      have "attempts ?R h (set ?bs) (d, h3)"
        using choices_claim_attempts [OF ok, of "sort_key (count_occupied h) ?bs" key tag np] d by simp
      then have "\<not> d" "h3 = h"
        using live choices_bound [OF ok] ok
        by (auto simp: attempts_def one_word_def table_ok_def split: if_splits)
      then show ?thesis using False c d h1 h2 live r rep Absent
        by (simp add: ht_insert_def pr np_def Let_def)
    qed
  qed
qed

end
