(* ===== verification/HashtableSpec.thy ===== *)
theory HashtableSpec
  imports HashtableOps
begin

unbundle bit_operations_syntax

text \<open>
  The contract of the hashtable. A verifier that can tell the key of the item at a location is an interface;
  over it the table refines a partial map from keys to locations, whatever the hash function does. The
  interface is interpreted on the verifier of the segment heap, and the properties are stated for it.
\<close>

section \<open>The map a table stands for\<close>

definition locs_of :: "(location \<Rightarrow> u8 list option) \<Rightarrow> hashtable \<Rightarrow> u8 list \<Rightarrow> location multiset" where
  "locs_of key_at h k = filter_mset (\<lambda>l. key_at l = Some k) (image_mset (\<lambda>e. bucket_location (snd e)) (entries h))"

text \<open>Every entry stands in a candidate bucket of its key, under the tag of its key.\<close>

definition placed :: "(location \<Rightarrow> u8 list option) \<Rightarrow> hashtable \<Rightarrow> bool" where
  "placed key_at h \<longleftrightarrow> (\<forall>b w k. (b, w) \<in># entries h \<longrightarrow> key_at (bucket_location w) = Some k \<longrightarrow>
     b \<in> set (choices h k) \<and> bucket_tag w = tag_from_hash (ht_hash h k))"

definition represents :: "(location \<Rightarrow> u8 list option) \<Rightarrow> hashtable \<Rightarrow> (u8 list \<Rightarrow> location option) \<Rightarrow> bool" where
  "represents key_at h m \<longleftrightarrow> table_ok h \<and> placed key_at h
     \<and> (\<forall>k. locs_of key_at h k = (case m k of None \<Rightarrow> {#} | Some l \<Rightarrow> {#l#}))"

text \<open>A location an entry can hold: 44 bits, not the ghost marker, not the null location.\<close>

definition entry_location :: "location \<Rightarrow> bool" where
  "entry_location l \<longleftrightarrow> as_raw l \<le> MAX_RAW \<and> l \<noteq> GHOST \<and> as_raw l \<noteq> 0"

lemma live_of_location: "entry_location (bucket_location w) \<Longrightarrow> live_word w"
  by (auto simp: entry_location_def live_word_def bucket_is_ghost_iff bucket_location_def location_from_raw_def)

lemma in_key_candidates_iff:
  assumes "table_ok h"
  shows "l \<in> set (key_candidates h k) \<longleftrightarrow>
    (\<exists>b w. (b, w) \<in># entries h \<and> b \<in> set (choices h k) \<and> bucket_tag w = tag_from_hash (ht_hash h k)
       \<and> bucket_location w = l)"
  using choices_bound [OF assms]
  by (auto simp: key_candidates_def bucket_candidates_def fst_probe in_words_iff)

lemma in_locs_of_iff: "l \<in># locs_of key_at h k \<longleftrightarrow>
    key_at l = Some k \<and> (\<exists>b w. (b, w) \<in># entries h \<and> bucket_location w = l)"
  by (force simp: locs_of_def)

lemma represents_iff:
  assumes "represents key_at h m"
  shows "m k = Some l \<longleftrightarrow> key_at l = Some k \<and> l \<in> set (key_candidates h k)"
proof -
  have ok: "table_ok h" and p: "placed key_at h"
    and "locs_of key_at h k = (case m k of None \<Rightarrow> {#} | Some l \<Rightarrow> {#l#})"
    using assms by (auto simp: represents_def)
  then have "m k = Some l \<longleftrightarrow> l \<in># locs_of key_at h k" by (auto split: option.splits)
  also have "\<dots> \<longleftrightarrow> key_at l = Some k \<and> l \<in> set (key_candidates h k)"
    unfolding in_locs_of_iff in_key_candidates_iff [OF ok] using p unfolding placed_def by blast
  finally show ?thesis .
qed

text \<open>Taking out the entry of a key, and putting one in.\<close>

lemma represents_change:
  assumes m: "represents key_at h m" and ok: "table_ok h'"
    and same: "choices h' = choices h" "ht_hash h' = ht_hash h"
    and out: "key_at (bucket_location w) = Some k" "(b, w) \<in># entries h"
    and inn: "key_at (bucket_location w') = Some k" "bucket_tag w' = tag_from_hash (ht_hash h k)"
    and b: "b \<in> set (choices h k)"
    and e: "entries h' = (if put then {#(b, w')#} else {#}) + (entries h - {#(b, w)#})"
  shows "represents key_at h' (m(k := if put then Some (bucket_location w') else None))"
proof -
  obtain E where E: "entries h = add_mset (b, w) E" using out(2) by (metis multi_member_split)
  have e': "entries h' = (if put then {#(b, w')#} else {#}) + E" using e E by simp
  have loc: "locs_of key_at h j = (case m j of None \<Rightarrow> {#} | Some l \<Rightarrow> {#l#})" for j
    using m by (simp add: represents_def)
  have "placed key_at h'"
    unfolding placed_def
  proof (intro allI impI)
    fix c v j
    assume "(c, v) \<in># entries h'" and j: "key_at (bucket_location v) = Some j"
    then consider "(c, v) \<in># entries h" | "c = b" "v = w'" by (auto simp: e' E split: if_splits)
    then show "c \<in> set (choices h' j) \<and> bucket_tag v = tag_from_hash (ht_hash h' j)"
    proof cases
      case 1
      then show ?thesis using m j same by (simp add: represents_def placed_def)
    next
      case 2
      then show ?thesis using j inn b same by simp
    qed
  qed
  moreover have "locs_of key_at h' j =
      (case (m(k := if put then Some (bucket_location w') else None)) j of None \<Rightarrow> {#} | Some l \<Rightarrow> {#l#})" for j
    using loc [of j] out(1) inn(1) by (auto simp: locs_of_def e' E split: option.splits if_splits)
  ultimately show ?thesis using ok by (simp add: represents_def)
qed

lemma represents_add:
  assumes m: "represents key_at h m" and ok: "table_ok h'"
    and same: "choices h' = choices h" "ht_hash h' = ht_hash h"
    and inn: "key_at (bucket_location w') = Some k" "bucket_tag w' = tag_from_hash (ht_hash h k)"
    and b: "b \<in> set (choices h k)" and none: "m k = None"
    and e: "entries h' = add_mset (b, w') (entries h)"
  shows "represents key_at h' (m(k := Some (bucket_location w')))"
proof -
  have loc: "locs_of key_at h j = (case m j of None \<Rightarrow> {#} | Some l \<Rightarrow> {#l#})" for j
    using m by (simp add: represents_def)
  have "placed key_at h'"
    using m inn b same by (auto simp: e placed_def represents_def)
  moreover have "locs_of key_at h' j =
      (case (m(k := Some (bucket_location w'))) j of None \<Rightarrow> {#} | Some l \<Rightarrow> {#l#})" for j
    using loc [of j] inn(1) none by (auto simp: locs_of_def e split: option.splits if_splits)
  ultimately show ?thesis using ok by (simp add: represents_def)
qed

text \<open>An entry without its frequency; frequency updates leave the multiset of those alone.\<close>

definition entry_key :: "nat \<times> u64 \<Rightarrow> nat \<times> u16 \<times> location" where
  "entry_key e = (fst e, bucket_tag (snd e), bucket_location (snd e))"

lemma entries_freq_only:
  assumes f: "freq_only h h'"
  shows "image_mset entry_key (entries h') = image_mset entry_key (entries h)"
proof -
  let ?row = "\<lambda>b ws. image_mset (\<lambda>w. entry_key (b, w)) (filter_mset live_word (mset ws))"
  have row: "?row b ws' = ?row b ws" if "list_all2 freq_up ws ws'" for b :: nat and ws ws'
    using that
    by (induction rule: list_all2_induct) (auto simp: freq_up_live, auto simp: freq_up_def entry_key_def)
  have "image_mset entry_key (\<Sum>b < j. image_mset (Pair b) (F b)) = (\<Sum>b < j. image_mset (\<lambda>w. entry_key (b, w)) (F b))"
    for F and j :: nat by (induction j) (simp_all add: multiset.map_comp o_def)
  then have "image_mset entry_key (entries g) = (\<Sum>b < ht_num_buckets g. ?row b (bucket_items g b))" for g
    by (simp add: words_def)
  then show ?thesis using f row by (auto simp: freq_only_def intro!: sum.cong)
qed

lemma represents_freq_only:
  assumes m: "represents key_at h m" and f: "freq_only h h'"
  shows "represents key_at h' m"
proof -
  note ent = entries_freq_only [OF f]
  have ok: "table_ok h" and hh: "ht_hash h' = ht_hash h"
    using m f by (simp_all add: represents_def freq_only_def)
  have "image_mset (\<lambda>e. bucket_location (snd e)) (entries g) =
      image_mset (\<lambda>(b, t, l). l) (image_mset entry_key (entries g))" for g
    by (simp add: multiset.map_comp o_def split_beta entry_key_def)
  then have "locs_of key_at h' k = locs_of key_at h k" for k unfolding locs_of_def using ent by simp
  moreover have "placed key_at h'"
    unfolding placed_def
  proof (intro allI impI)
    fix b w k
    assume "(b, w) \<in># entries h'" and k: "key_at (bucket_location w) = Some k"
    then have "entry_key (b, w) \<in># image_mset entry_key (entries h)"
      unfolding ent [symmetric] by simp
    then obtain v where v: "(b, v) \<in># entries h" "bucket_tag v = bucket_tag w" "bucket_location v = bucket_location w"
      by (auto simp: entry_key_def)
    then have "b \<in> set (choices h k) \<and> bucket_tag v = tag_from_hash (ht_hash h k)"
      using m k unfolding represents_def placed_def by metis
    then show "b \<in> set (choices h' k) \<and> bucket_tag w = tag_from_hash (ht_hash h' k)"
      using choices_freq_only [OF f] hh v by simp
  qed
  ultimately show ?thesis using m table_ok_freq_only [OF ok f] by (simp add: represents_def)
qed

section \<open>The interface of a key verifier\<close>

text \<open>
  A match is an item with this key, a different key is not, and a candidate whose item cannot be pinned is
  reported as it is.
\<close>

locale key_verifier =
  fixes verify :: "'p verifier"
    and key_at :: "location \<Rightarrow> u8 list option"
  assumes match: "verify k l d = Match p \<Longrightarrow> key_at l = Some k"
    and different: "verify k l d = DifferentKey \<Longrightarrow> key_at l \<noteq> Some k"
    and unknown: "verify k l d = VUnknown u \<Longrightarrow> u = l \<and> key_at l = None"
begin

lemma scan_sound:
  "case scan_locs (\<lambda>l. verify k l d) u ls of
     Found l \<Rightarrow> l \<in> set ls \<and> key_at l = Some k
   | Absent \<Rightarrow> u = None \<and> (\<forall>l \<in> set ls. key_at l \<noteq> Some k)
   | LUnknown l \<Rightarrow> (u = Some l \<or> l \<in> set ls \<and> key_at l = None) \<and> (\<forall>l \<in> set ls. key_at l \<noteq> Some k)"
proof (induction ls arbitrary: u)
  case (Cons l ls)
  show ?case
  proof (cases "verify k l d")
    case (Match p)
    then show ?thesis using match by auto
  next
    case DifferentKey
    then show ?thesis using different [OF DifferentKey] Cons.IH [of u]
      by (auto split: lookup.splits)
  next
    case (VUnknown x)
    then show ?thesis using unknown [OF VUnknown] Cons.IH [of "case u of None \<Rightarrow> Some x | Some y \<Rightarrow> Some y"]
      by (auto split: lookup.splits option.splits)
  qed
qed (auto split: option.split)

lemma scan_map:
  assumes "represents key_at h m"
  shows "case scan_locs (\<lambda>l. verify k l d) None (key_candidates h k) of
      Found l \<Rightarrow> m k = Some l | Absent \<Rightarrow> m k = None | LUnknown l \<Rightarrow> m k = None \<and> key_at l = None"
proof -
  have "m k = None" if "\<forall>l \<in> set (key_candidates h k). key_at l \<noteq> Some k"
    using that represents_iff [OF assms, of k] by (cases "m k") auto
  then show ?thesis
    using scan_sound [where ?k = k and ?d = d and ?u = None and ?ls = "key_candidates h k"] represents_iff [OF assms, of k]
    by (auto split: lookup.splits)
qed

lemma lookup_map:
  assumes m: "represents key_at h m"
  shows "represents key_at (snd (ht_lookup k verify h)) m
    \<and> (case fst (ht_lookup k verify h) of
         Found hit \<Rightarrow> m k = Some (hit_location hit) | Absent \<Rightarrow> m k = None
       | LUnknown l \<Rightarrow> m k = None \<and> key_at l = None)"
proof -
  have ok: "table_ok h" using m by (simp add: represents_def)
  note res = ht_lookup_result [OF ok, of k verify]
  have "map_lookup hit_location (fst (ht_lookup k verify h)) =
      scan_locs (\<lambda>l. verify k l False) None (key_candidates h k)"
    unfolding res(1) using ok by (rule lookup_no_freq_update_scan)
  then show ?thesis
    using scan_map [OF m, of k False] represents_freq_only [OF m res(2)]
    by (cases "fst (ht_lookup k verify h)") (auto simp flip: \<open>map_lookup _ _ = _\<close>)
qed

lemma insert_map:
  assumes m: "represents key_at h m" and loc: "entry_location loc" "key_at loc = Some k"
  shows "case ht_insert k loc verify h of
      (Inr Created, h') \<Rightarrow> m k = None \<and> represents key_at h' (m(k \<mapsto> loc))
    | (Inr (Replaced old), h') \<Rightarrow> m k = Some old \<and> represents key_at h' (m(k \<mapsto> loc))
    | (Inr (IUnknown l), h') \<Rightarrow> m k = None \<and> key_at l = None \<and> h' = h
    | (Inl _, h') \<Rightarrow> m k = None \<and> h' = h
        \<and> (\<forall>b \<in> set (choices h k). \<forall>w \<in> set (bucket_items h b). live_word w)"
proof -
  let ?t = "tag_from_hash (ht_hash h k)" and ?C = "set (choices h k)"
  let ?np = "bucket_pack ?t 1 loc"
  have ok: "table_ok h" using m by (simp add: represents_def)
  note sm = scan_map [OF m, where ?k = k and ?d = True]
  note ins = ht_insert_cases [OF ok, where ?key = k and ?loc = loc and ?verify = verify, unfolded fst_probe]
  have np: "bucket_tag ?np = ?t" "bucket_location ?np = loc"
    using loc(1) by (simp_all add: bucket_tag_pack tag_from_hash_less bucket_location_pack entry_location_def)
  have fields: "bucket_tag (with_freq ?np f) = ?t" "bucket_location (with_freq ?np f) = loc" for f
    by (simp_all add: with_freq_fields np)
  have live: "live_word v" if "bucket_location v = loc" for v using live_of_location loc(1) that by metis
  obtain r h' where r: "ht_insert k loc verify h = (r, h')" by force
  have created: "represents key_at h' (m(k \<mapsto> loc))"
    if c: "one_word (\<lambda>w w'. \<not> live_word w \<and> w' = claimed_word ?t ?np w) ?C h h'" and n: "m k = None"
    using c ok choices_bound [OF ok]
  proof (rule one_word_cases)
    fix b w w'
    assume b: "b \<in> ?C" and w: "\<not> live_word w \<and> w' = claimed_word ?t ?np w" and ok': "table_ok h'"
      and same: "choices h' = choices h" "ht_hash h' = ht_hash h"
      and e: "\<And>P. words P h' = (if P w' then {#(b, w')#} else {#}) + (words P h - (if P w then {#(b, w)#} else {#}))"
    have w': "bucket_tag w' = ?t" "bucket_location w' = loc"
      using w by (simp_all add: claimed_word_def fields np)
    then have "entries h' = add_mset (b, w') (entries h)" using e [of live_word] w live by simp
    from represents_add [OF m ok' same _ w'(1) b n this] loc(2) show ?thesis by (simp add: w'(2))
  qed
  have replaced: "represents key_at h' (m(k \<mapsto> loc))"
    if c: "one_word (\<lambda>w w'. is_entry ?t old w \<and> w' = with_freq ?np (bucket_freq w)) ?C h h'" and n: "m k = Some old" for old
    using c ok choices_bound [OF ok]
  proof (rule one_word_cases)
    fix b w w'
    assume b: "b \<in> ?C" "b < ht_num_buckets h" and w: "is_entry ?t old w \<and> w' = with_freq ?np (bucket_freq w)"
      and ok': "table_ok h'" and wi: "w \<in> set (bucket_items h b)"
      and same: "choices h' = choices h" "ht_hash h' = ht_hash h"
      and e: "\<And>P. words P h' = (if P w' then {#(b, w')#} else {#}) + (words P h - (if P w then {#(b, w)#} else {#}))"
    have w': "bucket_tag w' = ?t" "bucket_location w' = loc" using w by (simp_all add: fields)
    have we: "(b, w) \<in># entries h" "key_at (bucket_location w) = Some k"
      using w wi b(2) n represents_iff [OF m, of k old] by (simp_all add: is_entry_iff in_words_iff)
    have "entries h' = (if True then {#(b, w')#} else {#}) + (entries h - {#(b, w)#})"
      using e [of live_word] w live w'(2) by (simp add: is_entry_iff)
    from represents_change [OF m ok' same we(2,1) _ w'(1) b(1) this] loc(2) show ?thesis by (simp add: w'(2))
  qed
  show ?thesis
    unfolding r using ins [unfolded r] sm created replaced
    by (auto split: sum.splits insert_outcome.splits)
qed

text \<open>The operations that find an entry by its location: it goes, or its word changes in place.\<close>

lemma unlink_map:
  assumes m: "represents key_at h m" and old: "key_at old = Some k"
    and f: "\<And>w. f w = (if is_entry (tag_from_hash (ht_hash h k)) old w then Some (g w) else None)"
    and g: "\<And>w. is_entry (tag_from_hash (ht_hash h k)) old w \<Longrightarrow>
      (case target of
         Some new \<Rightarrow> entry_location new \<and> key_at new = Some k \<and> bucket_tag (g w) = bucket_tag w
           \<and> bucket_location (g w) = new
       | None \<Rightarrow> \<not> live_word (g w))"
  shows "case try_choices (cas_bucket f) h (choices h k) of
      (True, h') \<Rightarrow> m k = Some old \<and> represents key_at h' (m(k := target))
    | (False, h') \<Rightarrow> m k \<noteq> Some old \<and> h' = h"
proof -
  let ?t = "tag_from_hash (ht_hash h k)" and ?C = "set (choices h k)"
  have ok: "table_ok h" using m by (simp add: represents_def)
  obtain r h' where r: "try_choices (cas_bucket f) h (choices h k) = (r, h')" by force
  note att = cas_choices_attempts [OF ok, of f k, unfolded r]
  have gone: "m k = Some old \<and> represents key_at h' (m(k := target))"
    if c: "one_word (\<lambda>w w'. f w = Some w') ?C h h'"
    using c ok choices_bound [OF ok]
  proof (rule one_word_cases)
    fix b w w'
    assume b: "b \<in> ?C" "b < ht_num_buckets h" and w: "f w = Some w'"
      and ok': "table_ok h'" and wi: "w \<in> set (bucket_items h b)"
      and same: "choices h' = choices h" "ht_hash h' = ht_hash h"
      and e: "\<And>P. words P h' = (if P w' then {#(b, w')#} else {#}) + (words P h - (if P w then {#(b, w)#} else {#}))"
    have en: "is_entry ?t old w" and w': "w' = g w" using w by (auto simp: f split: if_splits)
    have we: "(b, w) \<in># entries h" "key_at (bucket_location w) = Some k"
      using en wi b(2) old by (simp_all add: is_entry_iff in_words_iff)
    have mk: "m k = Some old"
      using we en b(1) old by (auto simp: represents_iff [OF m] in_key_candidates_iff [OF ok] is_entry_iff)
    show ?thesis
    proof (cases target)
      case (Some new)
      then have v: "bucket_tag w' = ?t" "bucket_location w' = new" "key_at new = Some k" "live_word w'"
        using g [OF en] en live_of_location [of w'] by (auto simp: w' is_entry_iff)
      have "entries h' = (if True then {#(b, w')#} else {#}) + (entries h - {#(b, w)#})"
        using e [of live_word] v en by (simp add: is_entry_iff)
      from represents_change [OF m ok' same we(2,1) _ v(1) b(1) this] v mk Some show ?thesis by simp
    next
      case None
      then have "entries h' = (if False then {#(b, w)#} else {#}) + (entries h - {#(b, w)#})"
        using e [of live_word] g [OF en] en by (simp add: w' is_entry_iff)
      from represents_change [OF m ok' same we(2,1) we(2) _ b(1) this] en mk None show ?thesis
        by (simp add: is_entry_iff)
    qed
  qed
  have stays: "m k \<noteq> Some old" if "\<forall>b \<in> ?C. \<forall>w \<in> set (bucket_items h b). \<forall>w'. f w \<noteq> Some w'"
    using that by (auto simp: represents_iff [OF m] in_key_candidates_iff [OF ok] in_words_iff f is_entry_iff
        split: if_splits)
  show ?thesis unfolding r using att gone stays by (cases r) (simp_all add: attempts_def)
qed

lemma remove_map:
  assumes m: "represents key_at h m" and old: "key_at old = Some k"
  shows "case ht_remove k old h of
      (True, h') \<Rightarrow> m k = Some old \<and> represents key_at h' (m(k := None))
    | (False, h') \<Rightarrow> m k \<noteq> Some old \<and> h' = h"
  using unlink_map [OF m old, of
      "\<lambda>packed. if is_entry (tag_from_hash (ht_hash h k)) old packed then Some 0 else None" "\<lambda>_. 0" None]
  by (simp add: ht_remove_def try_unlink_in_bucket_def [abs_def] fst_probe live_word_def)

lemma ghost_map:
  assumes m: "represents key_at h m" and old: "key_at old = Some k"
  shows "case convert_to_ghost k old h of
      (True, h') \<Rightarrow> m k = Some old \<and> represents key_at h' (m(k := None))
    | (False, h') \<Rightarrow> m k \<noteq> Some old \<and> h' = h"
  using unlink_map [OF m old, of
      "\<lambda>packed. if is_entry (tag_from_hash (ht_hash h k)) old packed then Some (to_ghost packed) else None" to_ghost None]
  by (simp add: convert_to_ghost_def try_to_ghost_in_bucket_def [abs_def] fst_probe live_word_def to_ghost_fields)

lemma cas_map:
  assumes m: "represents key_at h m" and old: "key_at old = Some k"
    and new: "key_at new = Some k" "entry_location new"
  shows "case cas_location k old new fr h of
      (True, h') \<Rightarrow> m k = Some old \<and> represents key_at h' (m(k \<mapsto> new))
    | (False, h') \<Rightarrow> m k \<noteq> Some old \<and> h' = h"
  using unlink_map [OF m old, of
      "\<lambda>packed. if is_entry (tag_from_hash (ht_hash h k)) old packed
         then Some (bucket_pack (tag_from_hash (ht_hash h k)) (relinked_freq fr packed) new) else None"
      "\<lambda>packed. bucket_pack (tag_from_hash (ht_hash h k)) (relinked_freq fr packed) new" "Some new"] new
  by (simp add: cas_location_def try_cas_in_bucket_def [abs_def] fst_probe entry_location_def
      bucket_tag_pack tag_from_hash_less bucket_location_pack is_entry_iff [THEN iffD1])

end

section \<open>The verifier of the segment heap\<close>

text \<open>The key of the item at a location, as far as the heap lets it be read.\<close>

definition seg_key_at ::
  "nat \<Rightarrow> (location \<Rightarrow> ('raw \<times> 'guard) option) \<Rightarrow> ('raw \<Rightarrow> u8 list) \<Rightarrow> location \<Rightarrow> u8 list option" where
  "seg_key_at n acquire raw_key l =
     (let seg = fst (unpack_location l) in
      if seg = 0 \<or> unat seg > n then None else map_option (raw_key \<circ> fst) (acquire l))"

interpretation seg: key_verifier "segments_verify n acquire raw_key" "seg_key_at n acquire raw_key"
  for n acquire raw_key
  by unfold_locales
     (auto simp: segments_verify_def seg_key_at_def split_beta Let_def split: if_splits option.splits)

section \<open>A new table\<close>

lemma with_choices_table:
  assumes "with_choices ws p c = Some h"
  shows "table_ok h" and "\<not> P 0 \<Longrightarrow> words P h = {#}"
    and "b < ht_num_buckets h \<Longrightarrow> bucket_items h b = replicate 8 0"
proof -
  have p: "7 \<le> p" "p - 3 < 32" "1 \<le> c" "c \<le> MAX_CHOICES"
    and n: "ht_num_buckets h = 2 ^ (p - 3)" "ht_buckets h = replicate (2 ^ (p - 3)) bucket_new"
    and f: "ht_mask h = of_nat (2 ^ (p - 3)) - 1" "ht_num_choices h = c"
    using assms by (auto simp: with_choices_def Let_def push_bit_eq_mult split: if_splits)
  show items: "bucket_items h b = replicate 8 0" if "b < ht_num_buckets h" for b
    using that by (simp add: bucket_items_def n bucket_new_def NUM_ITEM_SLOTS_def)
  show "table_ok h" unfolding table_ok_def using items p f n by (auto simp: NUM_ITEM_SLOTS_def)
  show "words P h = {#}" if "\<not> P 0"
    using items that by (simp add: words_def numeral_eq_Suc)
qed

lemma live_word_0: "\<not> live_word 0" by (simp add: live_word_def)

lemma with_choices_represents: "with_choices ws p c = Some h \<Longrightarrow> represents key_at h (\<lambda>_. None)"
  using with_choices_table(1,2) [of ws p c h] live_word_0 by (simp add: represents_def placed_def locs_of_def)

text \<open>A table of sixteen buckets, and a heap of one segment that holds one item, for the witnesses.\<close>

definition ht_demo_loc :: location where "ht_demo_loc = pack_location 1 1 8"

definition ht_demo_acquire :: "location \<Rightarrow> (u8 list \<times> unit) option" where
  "ht_demo_acquire l = (if l = ht_demo_loc then Some ([107], ()) else None)"

abbreviation ht_demo_verify :: "(u8 list \<times> unit) verifier" where
  "ht_demo_verify \<equiv> segments_verify 1 ht_demo_acquire (\<lambda>raw. raw)"

abbreviation ht_demo_key_at :: "location \<Rightarrow> u8 list option" where
  "ht_demo_key_at \<equiv> seg_key_at 1 ht_demo_acquire (\<lambda>raw. raw)"

lemma ht_demo_new: "\<exists>h. with_choices (\<lambda>_ _ _ _ key. of_nat (length key)) 7 2 = Some h"
  by (simp add: with_choices_def MAX_CHOICES_def Let_def)

lemma ht_demo_facts: "entry_location ht_demo_loc" "ht_demo_key_at ht_demo_loc = Some [107]"
proof -
  have u: "unpack_location ht_demo_loc = (1, 8)"
    unfolding ht_demo_loc_def by (subst unpack_pack_location) (simp_all add: MAX_SEGMENT_BYTES_eq)
  then have "as_raw ht_demo_loc \<noteq> 0" by (auto simp: unpack_location_def Let_def)
  then show "entry_location ht_demo_loc"
    using pack_location_range [of 1 1 8] by (simp add: entry_location_def ht_demo_loc_def MAX_SEGMENTS_eq)
  show "ht_demo_key_at ht_demo_loc = Some [107]" by (simp add: seg_key_at_def u ht_demo_acquire_def)
qed

lemma ht_demo_inserted:
  "\<exists>h h'. represents ht_demo_key_at h (\<lambda>_. None) \<and> ht_insert [107] ht_demo_loc ht_demo_verify h = (Inr Created, h')
     \<and> represents ht_demo_key_at h' [[107] \<mapsto> ht_demo_loc]"
proof -
  obtain h where h: "with_choices (\<lambda>_ _ _ _ key. of_nat (length key)) 7 2 = Some h" using ht_demo_new by blast
  note m = with_choices_represents [OF h, of ht_demo_key_at]
  note t = with_choices_table [OF h]
  obtain r h' where r: "ht_insert [107] ht_demo_loc ht_demo_verify h = (r, h')" by force
  note c = seg.insert_map [OF m ht_demo_facts, unfolded r]
  note e = ht_insert_cases [OF t(1), where ?key = "[107]" and ?loc = ht_demo_loc and ?verify = ht_demo_verify, unfolded r]
  have none: "key_candidates h [107] = []"
    using in_key_candidates_iff [OF t(1)] t(2) [of live_word] live_word_0 by (metis empty_not_add_mset
        multi_member_split neq_Nil_conv list.set_intros(1))
  have "ht_num_choices h = 2" using h by (auto simp: with_choices_def Let_def split: if_splits)
  then have "choices h [107] \<noteq> []" by (simp add: choices_def probe_def bucket_indices_def Let_def numeral_2_eq_2)
  then obtain b where b: "b \<in> set (choices h [107])" by (meson last_in_set)
  have "0 \<in> set (bucket_items h b)" using t(3) [OF choices_bound [OF t(1) b]] by simp
  then have "r = Inr Created"
    using c e none b live_word_0 by (auto split: sum.splits insert_outcome.splits)
  then show ?thesis using m r c by auto
qed

section \<open>What the operations do to entries and ghosts\<close>

text \<open>The change of a word from \<open>w\<close> to \<open>w'\<close> in bucket \<open>b\<close>, seen from both multisets.\<close>

definition swaps :: "hashtable \<Rightarrow> hashtable \<Rightarrow> nat \<Rightarrow> u64 \<Rightarrow> u64 \<Rightarrow> bool" where
  "swaps h h' b w w' \<longleftrightarrow> w \<in> set (bucket_items h b) \<and> b < ht_num_buckets h \<and> table_ok h'
     \<and> entries h' = (if live_word w' then {#(b, w')#} else {#}) + (entries h - (if live_word w then {#(b, w)#} else {#}))
     \<and> ghosts h' = (if bucket_is_ghost w' then {#(b, w')#} else {#})
         + (ghosts h - (if bucket_is_ghost w then {#(b, w)#} else {#}))"

lemma one_word_swaps:
  assumes "one_word R (set (choices h key)) h h'" and ok: "table_ok h"
  shows "\<exists>b \<in> set (choices h key). \<exists>w w'. R w w' \<and> swaps h h' b w w'"
  using assms(1) ok choices_bound [OF ok]
proof (rule one_word_cases)
  fix b w w'
  assume "b \<in> set (choices h key)" "R w w'" "w \<in> set (bucket_items h b)" "b < ht_num_buckets h" "table_ok h'"
    "\<And>P. words P h' = (if P w' then {#(b, w')#} else {#}) + (words P h - (if P w then {#(b, w)#} else {#}))"
  then show ?thesis unfolding swaps_def by blast
qed

lemma by_location_swaps:
  assumes ok: "table_ok h"
    and f: "\<And>w. f w = (if is_entry (tag_from_hash (ht_hash h key)) old w then Some (g w) else None)"
  shows "case try_choices (cas_bucket f) h (choices h key) of
      (True, h') \<Rightarrow> (\<exists>b \<in> set (choices h key). \<exists>w. is_entry (tag_from_hash (ht_hash h key)) old w \<and> swaps h h' b w (g w))
    | (False, h') \<Rightarrow> h' = h \<and> old \<notin> set (key_candidates h key)"
proof -
  let ?t = "tag_from_hash (ht_hash h key)" and ?C = "set (choices h key)"
  obtain r h' where r: "try_choices (cas_bucket f) h (choices h key) = (r, h')" by force
  note att = cas_choices_attempts [OF ok, of f key, unfolded r]
  have "\<exists>b \<in> ?C. \<exists>w. is_entry ?t old w \<and> swaps h h' b w (g w)" if "one_word (\<lambda>w w'. f w = Some w') ?C h h'"
    using one_word_swaps [OF that ok] by (auto simp: f split: if_splits)
  moreover have "old \<notin> set (key_candidates h key)"
    if "\<forall>b \<in> ?C. \<forall>w \<in> set (bucket_items h b). \<forall>w'. f w \<noteq> Some w'"
    using that by (auto simp: in_key_candidates_iff [OF ok] in_words_iff f is_entry_iff split: if_splits)
  ultimately show ?thesis unfolding r using att by (cases r) (simp_all add: attempts_def)
qed

lemma ghost_not_live: "bucket_is_ghost w \<Longrightarrow> \<not> live_word w" "live_word w \<Longrightarrow> \<not> bucket_is_ghost w"
  by (simp_all add: live_word_def)

lemma new_word_fields:
  assumes "entry_location loc" and "unat tag < 4096"
  shows "bucket_tag (bucket_pack tag f loc) = tag" "bucket_location (bucket_pack tag f loc) = loc"
    "live_word (bucket_pack tag f loc)" "live_word (with_freq (bucket_pack tag f loc) f')"
  using assms live_of_location [of "bucket_pack tag f loc"] live_of_location [of "with_freq (bucket_pack tag f loc) f'"]
  by (simp_all add: bucket_tag_pack bucket_location_pack with_freq_fields entry_location_def)

lemma created_swaps:
  assumes ok: "table_ok h" and loc: "entry_location loc"
    and ow: "one_word (\<lambda>w w'. \<not> live_word w \<and> w' = claimed_word (tag_from_hash (ht_hash h key))
      (bucket_pack (tag_from_hash (ht_hash h key)) 1 loc) w) (set (choices h key)) h h'"
  shows "\<exists>b \<in> set (choices h key). \<exists>w w'. \<not> live_word w \<and> live_word w' \<and> swaps h h' b w w'
    \<and> bucket_tag w' = tag_from_hash (ht_hash h key) \<and> bucket_location w' = loc
    \<and> bucket_freq w' = (if bucket_is_ghost w \<and> bucket_tag w = tag_from_hash (ht_hash h key) then bucket_freq w else 1)"
proof -
  let ?t = "tag_from_hash (ht_hash h key)"
  let ?c = "claimed_word ?t (bucket_pack ?t 1 loc)"
  obtain b w where b: "b \<in> set (choices h key)" "\<not> live_word w" "swaps h h' b w (?c w)"
    using one_word_swaps [OF ow ok] by blast
  have "live_word (?c w)" "bucket_tag (?c w) = ?t" "bucket_location (?c w) = loc"
    "bucket_freq (?c w) = (if bucket_is_ghost w \<and> bucket_tag w = ?t then bucket_freq w else 1)"
    using new_word_fields [OF loc tag_from_hash_less]
    by (simp_all add: claimed_word_def with_freq_fields bucket_freq_pack)
  then show ?thesis using b by blast
qed

lemma replaced_swaps:
  assumes ok: "table_ok h" and loc: "entry_location loc"
    and ow: "one_word (\<lambda>w w'. is_entry (tag_from_hash (ht_hash h key)) old w
      \<and> w' = with_freq (bucket_pack (tag_from_hash (ht_hash h key)) 1 loc) (bucket_freq w)) (set (choices h key)) h h'"
  shows "\<exists>b \<in> set (choices h key). \<exists>w w'. live_word w \<and> live_word w' \<and> swaps h h' b w w'
    \<and> bucket_tag w = tag_from_hash (ht_hash h key) \<and> bucket_tag w' = tag_from_hash (ht_hash h key)
    \<and> bucket_location w = old \<and> bucket_location w' = loc \<and> bucket_freq w' = bucket_freq w"
proof -
  let ?t = "tag_from_hash (ht_hash h key)"
  let ?np = "\<lambda>w. with_freq (bucket_pack ?t 1 loc) (bucket_freq w)"
  obtain b w where b: "b \<in> set (choices h key)" "is_entry ?t old w" "swaps h h' b w (?np w)"
    using one_word_swaps [OF ow ok] by blast
  have "live_word (?np w)" "bucket_tag (?np w) = ?t" "bucket_location (?np w) = loc" "bucket_freq (?np w) = bucket_freq w"
    using new_word_fields [OF loc tag_from_hash_less] by (simp_all add: with_freq_fields)
  then show ?thesis using b unfolding is_entry_iff by blast
qed

lemma ht_remove_swaps:
  assumes ok: "table_ok h"
  shows "case ht_remove key old h of
      (True, h') \<Rightarrow> (\<exists>b \<in> set (choices h key). \<exists>w. is_entry (tag_from_hash (ht_hash h key)) old w
        \<and> entries h' = entries h - {#(b, w)#} \<and> (b, w) \<in># entries h \<and> ghosts h' = ghosts h)
    | (False, h') \<Rightarrow> h' = h \<and> old \<notin> set (key_candidates h key)"
  using by_location_swaps [OF ok, where ?g = "\<lambda>_. 0" and ?key = key and ?old = old, OF refl]
  unfolding ht_remove_def try_unlink_in_bucket_def [abs_def] fst_probe
  by (fastforce simp: swaps_def is_entry_iff live_word_0 ghost_not_live in_words_iff bucket_is_ghost_def
      split: prod.splits bool.splits)

lemma convert_to_ghost_swaps:
  assumes ok: "table_ok h"
  shows "case convert_to_ghost key old h of
      (True, h') \<Rightarrow> (\<exists>b \<in> set (choices h key). \<exists>w. is_entry (tag_from_hash (ht_hash h key)) old w
        \<and> entries h' = entries h - {#(b, w)#} \<and> (b, w) \<in># entries h
        \<and> ghosts h' = add_mset (b, pack_ghost (bucket_tag w) (bucket_freq w)) (ghosts h))
    | (False, h') \<Rightarrow> h' = h \<and> old \<notin> set (key_candidates h key)"
  using by_location_swaps [OF ok, where ?g = to_ghost and ?key = key and ?old = old, OF refl]
  unfolding convert_to_ghost_def try_to_ghost_in_bucket_def [abs_def] fst_probe
  by (fastforce simp: swaps_def is_entry_iff ghost_not_live in_words_iff to_ghost_fields to_ghost_def [symmetric]
      split: prod.splits bool.splits)

lemma cas_location_swaps:
  assumes ok: "table_ok h" and new: "entry_location new"
  shows "case cas_location key old new fr h of
      (True, h') \<Rightarrow> (\<exists>b \<in> set (choices h key). \<exists>w w'. is_entry (tag_from_hash (ht_hash h key)) old w
        \<and> is_entry (tag_from_hash (ht_hash h key)) new w' \<and> (b, w) \<in># entries h
        \<and> entries h' = add_mset (b, w') (entries h - {#(b, w)#}) \<and> ghosts h' = ghosts h
        \<and> unat (bucket_freq w') = (case fr of Preserve \<Rightarrow> unat (bucket_freq w) | Decrement \<Rightarrow> unat (bucket_freq w) - 1))
    | (False, h') \<Rightarrow> h' = h \<and> old \<notin> set (key_candidates h key)"
proof -
  let ?t = "tag_from_hash (ht_hash h key)"
  let ?np = "\<lambda>w. bucket_pack ?t (relinked_freq fr w) new"
  obtain r h' where r: "cas_location key old new fr h = (r, h')" by force
  note cas = by_location_swaps [OF ok, where ?g = ?np and ?key = key and ?old = old, OF refl]
  have run: "try_choices (cas_bucket (\<lambda>w. if is_entry ?t old w then Some (?np w) else None)) h (choices h key) = (r, h')"
    using r unfolding cas_location_def try_cas_in_bucket_def [abs_def] fst_probe .
  show ?thesis
  proof (cases r)
    case True
    then obtain b w where b: "b \<in> set (choices h key)" and w: "is_entry ?t old w" "swaps h h' b w (?np w)"
      using cas unfolding run by auto
    have np: "is_entry ?t new (?np w)" "live_word (?np w)"
      using new_word_fields [OF new tag_from_hash_less] by (simp_all add: is_entry_iff)
    have "(b, w) \<in># entries h" "entries h' = add_mset (b, ?np w) (entries h - {#(b, w)#})" "ghosts h' = ghosts h"
      using w np by (simp_all add: swaps_def is_entry_iff ghost_not_live in_words_iff)
    moreover have "unat (bucket_freq (?np w)) =
        (case fr of Preserve \<Rightarrow> unat (bucket_freq w) | Decrement \<Rightarrow> unat (bucket_freq w) - 1)"
      unfolding bucket_freq_pack by (cases fr) (simp_all add: unat_saturating_sub)
    ultimately show ?thesis using b w(1) np(1) unfolding r by (simp add: True) blast
  next
    case False
    then show ?thesis using cas unfolding run r by simp
  qed
qed

text \<open>A found hit points at the slot that publishes it.\<close>

lemma lookup_hit_slot:
  assumes ok: "table_ok h" and l: "lookup_no_freq_update key verify h = Found hit"
  obtains b i where "b \<in> set (choices h key)" "i < NUM_ITEM_SLOTS" "b < ht_num_buckets h"
    "unat (sr_bucket (hit_slot hit)) = b" "unat (sr_slot (hit_slot hit)) = i"
    "sr_tag (hit_slot hit) = tag_from_hash (ht_hash h key)"
    "is_entry (tag_from_hash (ht_hash h key)) (hit_location hit) (slot_word h (hit_slot hit))"
    "slot_word h (hit_slot hit) = bucket_items h b ! i"
    "verify key (hit_location hit) False = Match (hit_pin hit)"
proof -
  let ?t = "tag_from_hash (ht_hash h key)"
  obtain s' where "fold_choices_loop (search_bucket False ?t key verify) None h (choices h key) = (Found hit, s')"
    using l by (auto simp: lookup_no_freq_update_def fold_choices_def split_beta fst_probe prod_eq_iff)
  then obtain b where b: "b \<in> set (choices h key)" and sb: "search_bucket False ?t key verify h b = (Found hit, s')"
    using fold_choices_found [OF search_bucket_keeps] by blast
  from search_bucket_found [OF tag_from_hash_less sb] obtain i where i: "i < 8" "live_word (bucket_items h b ! i)"
    "bucket_tag (bucket_items h b ! i) = ?t"
    "verify key (bucket_location (bucket_items h b ! i)) False = Match (hit_pin hit)"
    "hit_location hit = bucket_location (bucket_items h b ! i)"
    "hit_slot hit = \<lparr>sr_bucket = of_nat b, sr_slot = of_nat i, sr_tag = ?t\<rparr>" by blast
  have bn: "b < ht_num_buckets h" using choices_bound [OF ok b] .
  have u: "unat (sr_bucket (hit_slot hit)) = b" "unat (sr_slot (hit_slot hit)) = i"
    using bn table_ok_bounds [OF ok] i(1) by (simp_all add: i(6) unat_of_nat)
  show ?thesis
    by (rule that [OF b _ bn u]) (use i u in \<open>simp_all add: slot_word_def is_entry_iff NUM_ITEM_SLOTS_def\<close>)
qed

lemma cas_location_at_entry:
  fixes new :: location and pf :: bool
  assumes ok: "table_ok h" and b: "b < ht_num_buckets h" "i < NUM_ITEM_SLOTS"
    and s: "unat (sr_bucket slot) = b" "unat (sr_slot slot) = i" "slot_word h slot = bucket_items h b ! i"
    and e: "is_entry (sr_tag slot) old (slot_word h slot)"
  defines "w' \<equiv> bucket_pack (sr_tag slot) (if pf then bucket_freq (slot_word h slot) else 1) new"
  shows "cas_location_at slot old new pf h = (True, set_word h b i w')"
    and "swaps h (set_word h b i w') b (slot_word h slot) w'"
proof -
  show "cas_location_at slot old new pf h = (True, set_word h b i w')"
    using e s by (simp add: cas_location_at_def Let_def is_entry_iff live_word_def set_word_def w'_def)
  have "bucket_items h b ! i \<in> set (bucket_items h b)" using ok b by (simp add: table_ok_def)
  then show "swaps h (set_word h b i w') b (slot_word h slot) w'"
    unfolding swaps_def s(3) words_set_word [OF ok b] using b ok by (simp add: table_ok_set_word)
qed

section \<open>Properties\<close>

text \<open>
  A table is created exactly when the power is at least 7, the bucket power below 32 and the number of
  choices between 1 and 8; it is then well formed, stands for the empty map under every verifier, and has
  no ghost.
\<close>

theorem with_choices_new_table:
  "case with_choices with_seeds pwr c of
     None \<Rightarrow> pwr < 7 \<or> 35 \<le> pwr \<or> c = 0 \<or> 8 < c
   | Some h \<Rightarrow> 7 \<le> pwr \<and> pwr < 35 \<and> 0 < c \<and> c \<le> 8 \<and> represents key_at h (\<lambda>_. None) \<and> ghosts h = {#}
       \<and> ht_num_buckets h * NUM_ITEM_SLOTS = 2 ^ pwr"
proof (cases "with_choices with_seeds pwr c")
  case None
  then show ?thesis by (auto simp: with_choices_def Let_def MAX_CHOICES_def split: if_splits)
next
  case (Some h)
  have p: "7 \<le> pwr" "pwr < 35" "0 < c" "c \<le> 8" and n: "ht_num_buckets h = 2 ^ (pwr - 3)"
    using Some by (auto simp: with_choices_def Let_def MAX_CHOICES_def push_bit_eq_mult split: if_splits)
  have "(2 :: nat) ^ (pwr - 3) * 2 ^ 3 = 2 ^ pwr" using p(1) by (subst power_add [symmetric]) simp
  then show ?thesis
    using p n with_choices_represents [OF Some, of key_at] with_choices_table(2) [OF Some, of bucket_is_ghost]
    by (simp add: Some NUM_ITEM_SLOTS_def bucket_is_ghost_def)
qed

text \<open>
  C11. A lookup, with its tag mask and its bit-by-bit scan of every candidate bucket, is the plain scan of the
  candidate locations of the key in order: the first match wins, and an unverifiable candidate is reported
  only if there is no match. Counting the access changes neither the answer nor anything in the table but
  frequencies, and those only upwards.
\<close>

theorem ht_lookup_is_scan:
  assumes "table_ok h"
  shows "fst (ht_lookup key verify h) = lookup_no_freq_update key verify h
    \<and> map_lookup hit_location (lookup_no_freq_update key verify h) =
        scan_locs (\<lambda>l. verify key l False) None (key_candidates h key)
    \<and> freq_only h (snd (ht_lookup key verify h))"
  using ht_lookup_result [OF assms] lookup_no_freq_update_scan [OF assms] by blast

theorem ht_lookup_is_scan_witness:
  "\<exists>h. table_ok h \<and> fst (ht_lookup [107] ht_demo_verify h) = lookup_no_freq_update [107] ht_demo_verify h"
proof -
  obtain h where "with_choices (\<lambda>_ _ _ _ key. of_nat (length key)) 7 2 = Some h" using ht_demo_new by blast
  then have ok: "table_ok h" by (rule with_choices_table)
  with ht_lookup_is_scan [OF ok, of "[107]" ht_demo_verify] show ?thesis by blast
qed

text \<open>
  C12. An insert has four outcomes. It creates an entry, in a candidate bucket and in a slot that held no live
  entry, with frequency 1 or with the frequency of a ghost of the same tag that it takes over; it replaces
  the entry the scan matched, keeping its frequency; it reports a candidate that cannot be verified; or it
  fails because every slot of every candidate bucket is live. The last two leave the table as it was.
\<close>

theorem ht_insert_outcomes:
  assumes ok: "table_ok h" and loc: "entry_location loc"
  shows "let tag = tag_from_hash (ht_hash h key);
      found = scan_locs (\<lambda>l. verify key l True) None (key_candidates h key) in
    case ht_insert key loc verify h of
      (Inr Created, h') \<Rightarrow> found = Absent \<and> (\<exists>b \<in> set (choices h key). \<exists>w w'.
        \<not> live_word w \<and> live_word w' \<and> swaps h h' b w w' \<and> bucket_tag w' = tag \<and> bucket_location w' = loc
        \<and> bucket_freq w' = (if bucket_is_ghost w \<and> bucket_tag w = tag then bucket_freq w else 1))
    | (Inr (Replaced old), h') \<Rightarrow> found = Found old \<and> (\<exists>b \<in> set (choices h key). \<exists>w w'.
        live_word w \<and> live_word w' \<and> swaps h h' b w w' \<and> bucket_tag w = tag \<and> bucket_tag w' = tag
        \<and> bucket_location w = old \<and> bucket_location w' = loc \<and> bucket_freq w' = bucket_freq w)
    | (Inr (IUnknown l), h') \<Rightarrow> found = LUnknown l \<and> h' = h
    | (Inl _, h') \<Rightarrow> found = Absent \<and> h' = h
        \<and> (\<forall>b \<in> set (choices h key). \<forall>w \<in> set (bucket_items h b). live_word w)"
proof -
  obtain r h' where r: "ht_insert key loc verify h = (r, h')" by force
  note ins = ht_insert_cases [OF ok, where ?key = key and ?loc = loc and ?verify = verify, unfolded fst_probe r]
  show ?thesis
  proof (cases r)
    case (Inl u)
    then show ?thesis using ins by (simp add: r)
  next
    case (Inr out)
    then show ?thesis using ins created_swaps [OF ok loc, of key h'] replaced_swaps [OF ok loc, of key _ h']
      by (cases out) (simp_all add: r)
  qed
qed

theorem ht_insert_outcomes_witness:
  "\<exists>h h' b w w'. ht_insert [107] ht_demo_loc ht_demo_verify h = (Inr Created, h') \<and> swaps h h' b w w'
     \<and> bucket_location w' = ht_demo_loc \<and> live_word w'"
proof -
  obtain h h' where m: "represents ht_demo_key_at h (\<lambda>_. None)"
    and i: "ht_insert [107] ht_demo_loc ht_demo_verify h = (Inr Created, h')" using ht_demo_inserted by blast
  have ok: "table_ok h" using m by (simp add: represents_def)
  from ht_insert_outcomes [OF ok ht_demo_facts(1), of "[107]" ht_demo_verify] i obtain b w w' where
    "swaps h h' b w w'" "bucket_location w' = ht_demo_loc" "live_word w'" by (auto simp: Let_def)
  with i show ?thesis by blast
qed

text \<open>
  C13. The operations keyed by location. Removing an item takes its entry, and nothing else, out of the table;
  converting it to a ghost replaces the entry by a ghost with the same tag and frequency; relocating it
  swaps the location, keeps the tag, and keeps or decrements the frequency as asked. Each answers false, and
  changes nothing, exactly when the location is not among the candidates of the key.
\<close>

theorem ht_by_location:
  assumes ok: "table_ok h" and new: "entry_location new"
  shows "(case ht_remove key old h of
        (True, h') \<Rightarrow> (\<exists>b \<in> set (choices h key). \<exists>w. is_entry (tag_from_hash (ht_hash h key)) old w
          \<and> entries h' = entries h - {#(b, w)#} \<and> (b, w) \<in># entries h \<and> ghosts h' = ghosts h)
      | (False, h') \<Rightarrow> h' = h \<and> old \<notin> set (key_candidates h key))
    \<and> (case convert_to_ghost key old h of
        (True, h') \<Rightarrow> (\<exists>b \<in> set (choices h key). \<exists>w. is_entry (tag_from_hash (ht_hash h key)) old w
          \<and> entries h' = entries h - {#(b, w)#} \<and> (b, w) \<in># entries h
          \<and> ghosts h' = add_mset (b, pack_ghost (bucket_tag w) (bucket_freq w)) (ghosts h))
      | (False, h') \<Rightarrow> h' = h \<and> old \<notin> set (key_candidates h key))
    \<and> (case cas_location key old new fr h of
        (True, h') \<Rightarrow> (\<exists>b \<in> set (choices h key). \<exists>w w'. is_entry (tag_from_hash (ht_hash h key)) old w
          \<and> is_entry (tag_from_hash (ht_hash h key)) new w' \<and> (b, w) \<in># entries h
          \<and> entries h' = add_mset (b, w') (entries h - {#(b, w)#}) \<and> ghosts h' = ghosts h
          \<and> unat (bucket_freq w') = (case fr of Preserve \<Rightarrow> unat (bucket_freq w) | Decrement \<Rightarrow> unat (bucket_freq w) - 1))
      | (False, h') \<Rightarrow> h' = h \<and> old \<notin> set (key_candidates h key))"
  by (intro conjI ht_remove_swaps [OF ok] convert_to_ghost_swaps [OF ok] cas_location_swaps [OF ok new])

theorem ht_by_location_witness:
  "\<exists>h h' b w. ht_remove [107] ht_demo_loc h = (True, h') \<and> (b, w) \<in># entries h \<and> entries h' = entries h - {#(b, w)#}
     \<and> bucket_location w = ht_demo_loc"
proof -
  obtain h where m: "represents ht_demo_key_at h [[107] \<mapsto> ht_demo_loc]" using ht_demo_inserted by blast
  have ok: "table_ok h" using m by (simp add: represents_def)
  have c: "ht_demo_loc \<in> set (key_candidates h [107])" using represents_iff [OF m, of "[107]" ht_demo_loc] by simp
  obtain r h' where r: "ht_remove [107] ht_demo_loc h = (r, h')" by force
  note p = conjunct1 [OF ht_by_location [OF ok ht_demo_facts(1), of "[107]" ht_demo_loc Preserve], unfolded r]
  have t: r using p c by (cases r) simp_all
  then obtain b w where "is_entry (tag_from_hash (ht_hash h [107])) ht_demo_loc w" "(b, w) \<in># entries h"
    "entries h' = entries h - {#(b, w)#}" using p by auto
  then show ?thesis using r t unfolding is_entry_iff by auto
qed

text \<open>
  The slot a lookup reports publishes the location it found, and a location swap at that slot succeeds
  while nothing has intervened: it replaces that one entry, keeps its tag, and keeps its frequency or
  resets it to 1 as asked.
\<close>

theorem lookup_slot_cas:
  assumes ok: "table_ok h" and l: "lookup_slot key verify h = Found (old, slot)" and new: "entry_location new"
  shows "slot_publishes slot old h
    \<and> (\<exists>h' w'. cas_location_at slot old new preserve h = (True, h')
         \<and> swaps h h' (unat (sr_bucket slot)) (slot_word h slot) w' \<and> live_word (slot_word h slot) \<and> live_word w'
         \<and> bucket_tag w' = bucket_tag (slot_word h slot) \<and> bucket_location w' = new
         \<and> bucket_freq w' = (if preserve then bucket_freq (slot_word h slot) else 1))"
proof -
  obtain hit where hit: "lookup_no_freq_update key verify h = Found hit"
    and os: "old = hit_location hit" "slot = hit_slot hit"
    using l by (cases "lookup_no_freq_update key verify h") (simp_all add: lookup_slot_def)
  from lookup_hit_slot [OF ok hit] obtain b i where
    b: "b < ht_num_buckets h" "i < NUM_ITEM_SLOTS" and
    s: "unat (sr_bucket slot) = b" "unat (sr_slot slot) = i" "slot_word h slot = bucket_items h b ! i" and
    e: "is_entry (sr_tag slot) old (slot_word h slot)" and t: "sr_tag slot = tag_from_hash (ht_hash h key)"
    unfolding os by metis
  note cas = cas_location_at_entry [OF ok b s e, where ?new = new and ?pf = preserve]
  note nw = new_word_fields [OF new tag_from_hash_less]
  show ?thesis
    using cas e t s(1) nw by (auto simp: slot_publishes_def is_entry_iff bucket_freq_pack)
qed

theorem lookup_slot_cas_witness:
  "\<exists>h slot. lookup_slot [107] ht_demo_verify h = Found (ht_demo_loc, slot) \<and> slot_publishes slot ht_demo_loc h
     \<and> fst (cas_location_at slot ht_demo_loc (pack_location 2 1 16) True h)"
proof -
  obtain h where m: "represents ht_demo_key_at h [[107] \<mapsto> ht_demo_loc]" using ht_demo_inserted by blast
  have ok: "table_ok h" using m by (simp add: represents_def)
  have e: "entry_location (pack_location 2 1 16)"
    unfolding entry_location_def using pack_location_range [of 2 1 16] unpack_pack_location [of 16 2 1]
    by (auto simp: MAX_SEGMENTS_eq MAX_SEGMENT_BYTES_eq unpack_location_def Let_def)
  have "fst (ht_lookup [107] ht_demo_verify h) = lookup_no_freq_update [107] ht_demo_verify h"
    by (rule ht_lookup_result [OF ok])
  then obtain hit where "lookup_no_freq_update [107] ht_demo_verify h = Found hit" "hit_location hit = ht_demo_loc"
    using seg.lookup_map [OF m, of "[107]"] by (auto split: lookup.splits)
  then have l: "lookup_slot [107] ht_demo_verify h = Found (ht_demo_loc, hit_slot hit)" by (simp add: lookup_slot_def)
  from lookup_slot_cas [OF ok l e, of True] l show ?thesis by (metis fst_conv)
qed

text \<open>
  C10. Over the segment heap the table refines a partial map from keys to locations, whatever the hash
  function does: a lookup answers what the map says and leaves it alone, an insert of an item of the key
  updates the map there and tells what was there before, removing or ghosting an item clears the key exactly
  when the map has it there, and relocating moves it. An unverifiable candidate or a full table changes
  nothing.
\<close>

theorem hashtable_refines_map:
  assumes m: "represents (seg_key_at n acquire raw_key) h m"
    and new: "entry_location new" "seg_key_at n acquire raw_key new = Some k"
    and old: "seg_key_at n acquire raw_key old = Some k"
  shows "represents (seg_key_at n acquire raw_key) (snd (ht_lookup k (segments_verify n acquire raw_key) h)) m
    \<and> (case fst (ht_lookup k (segments_verify n acquire raw_key) h) of
         Found hit \<Rightarrow> m k = Some (hit_location hit) | Absent \<Rightarrow> m k = None
       | LUnknown l \<Rightarrow> m k = None \<and> seg_key_at n acquire raw_key l = None)
    \<and> (case ht_insert k new (segments_verify n acquire raw_key) h of
         (Inr Created, h') \<Rightarrow> m k = None \<and> represents (seg_key_at n acquire raw_key) h' (m(k \<mapsto> new))
       | (Inr (Replaced l), h') \<Rightarrow> m k = Some l \<and> represents (seg_key_at n acquire raw_key) h' (m(k \<mapsto> new))
       | (Inr (IUnknown l), h') \<Rightarrow> m k = None \<and> seg_key_at n acquire raw_key l = None \<and> h' = h
       | (Inl _, h') \<Rightarrow> m k = None \<and> h' = h
           \<and> (\<forall>b \<in> set (choices h k). \<forall>w \<in> set (bucket_items h b). live_word w))
    \<and> (case ht_remove k old h of
         (True, h') \<Rightarrow> m k = Some old \<and> represents (seg_key_at n acquire raw_key) h' (m(k := None))
       | (False, h') \<Rightarrow> m k \<noteq> Some old \<and> h' = h)
    \<and> (case convert_to_ghost k old h of
         (True, h') \<Rightarrow> m k = Some old \<and> represents (seg_key_at n acquire raw_key) h' (m(k := None))
       | (False, h') \<Rightarrow> m k \<noteq> Some old \<and> h' = h)
    \<and> (case cas_location k old new fr h of
         (True, h') \<Rightarrow> m k = Some old \<and> represents (seg_key_at n acquire raw_key) h' (m(k \<mapsto> new))
       | (False, h') \<Rightarrow> m k \<noteq> Some old \<and> h' = h)"
  by (intro conjI seg.lookup_map [OF m, THEN conjunct1] seg.lookup_map [OF m, THEN conjunct2]
      seg.insert_map [OF m new] seg.remove_map [OF m old] seg.ghost_map [OF m old] seg.cas_map [OF m old new(2,1)])

theorem hashtable_refines_map_witness:
  "\<exists>h h'. represents ht_demo_key_at h [[107] \<mapsto> ht_demo_loc] \<and> ht_remove [107] ht_demo_loc h = (True, h')
     \<and> represents ht_demo_key_at h' (\<lambda>_. None)"
proof -
  obtain h where m: "represents ht_demo_key_at h [[107] \<mapsto> ht_demo_loc]" using ht_demo_inserted by blast
  obtain r h' where r: "ht_remove [107] ht_demo_loc h = (r, h')" by force
  have "case (r, h') of (True, h') \<Rightarrow> represents ht_demo_key_at h' (\<lambda>_. None) | (False, h') \<Rightarrow> False"
    using conjunct1 [OF conjunct2 [OF conjunct2 [OF conjunct2
      [OF hashtable_refines_map [OF m ht_demo_facts ht_demo_facts(2), of Preserve]]]]] by (cases r) (simp_all add: r)
  then show ?thesis using m r by (cases r) auto
qed

end
