(* ===== verification/SegState.thy ===== *)
theory SegState
  imports Prelude
begin

unbundle bit_operations_syntax

text \<open>
  The states of a segment and its packed metadata word (\<^verbatim>\<open>segments/state.rs\<close>): 24-bit chain links, an 8-bit
  state and an 8-bit lifetime tag in one 64-bit atomic. A raw state byte outside the enumeration is a panic of
  the source, the value \<^const>\<open>None\<close> here. A link is \<^const>\<open>None\<close> or a non-zero segment id.
\<close>

section \<open>States\<close>

datatype seg_state = Free | Reserved | Linking | Live | Sealed | Relinking | Draining | Locked | AwaitingRelease

primrec state_to_u8 :: "seg_state \<Rightarrow> u8" where
  "state_to_u8 Free = 0"
| "state_to_u8 Reserved = 1"
| "state_to_u8 Linking = 2"
| "state_to_u8 Live = 3"
| "state_to_u8 Sealed = 4"
| "state_to_u8 Relinking = 5"
| "state_to_u8 Draining = 6"
| "state_to_u8 Locked = 7"
| "state_to_u8 AwaitingRelease = 8"

definition state_from_u8 :: "u8 \<Rightarrow> seg_state option" where
  "state_from_u8 v =
     (if v = 0 then Some Free else if v = 1 then Some Reserved else if v = 2 then Some Linking
      else if v = 3 then Some Live else if v = 4 then Some Sealed else if v = 5 then Some Relinking
      else if v = 6 then Some Draining else if v = 7 then Some Locked
      else if v = 8 then Some AwaitingRelease else None)"

primrec is_readable :: "seg_state \<Rightarrow> bool" where
  "is_readable Free = False"
| "is_readable Reserved = False"
| "is_readable Linking = False"
| "is_readable Live = True"
| "is_readable Sealed = True"
| "is_readable Relinking = True"
| "is_readable Draining = False"
| "is_readable Locked = False"
| "is_readable AwaitingRelease = False"

definition is_writable :: "seg_state \<Rightarrow> bool" where
  "is_writable s \<longleftrightarrow> s = Live"

definition is_evictable :: "seg_state \<Rightarrow> bool" where
  "is_evictable s \<longleftrightarrow> s = Sealed"

lemma state_from_to [simp]: "state_from_u8 (state_to_u8 s) = Some s"
  by (cases s) (simp_all add: state_from_u8_def)

section \<open>Metadata\<close>

record metadata =
  md_next :: "u32 option"
  md_prev :: "u32 option"
  md_state :: seg_state
  md_tag :: u8

definition LINK_MASK :: u64 where "LINK_MASK = 0xFFFFFF"
definition MD_TAG_SHIFT :: nat where "MD_TAG_SHIFT = 56"

definition metadata_new_free :: metadata where
  "metadata_new_free = \<lparr>md_next = None, md_prev = None, md_state = Free, md_tag = 0\<rparr>"

text \<open>\<^verbatim>\<open>map_or(0, NonZeroU32::get)\<close> and \<^verbatim>\<open>NonZeroU32::new\<close>.\<close>

definition link_get :: "u32 option \<Rightarrow> u32" where
  "link_get l = (case l of None \<Rightarrow> 0 | Some i \<Rightarrow> i)"

definition link_new :: "u32 \<Rightarrow> u32 option" where
  "link_new w = (if w = 0 then None else Some w)"

definition metadata_pack :: "metadata \<Rightarrow> u64" where
  "metadata_pack m =
     (let next = ucast (link_get (md_next m)); prev = ucast (link_get (md_prev m)) in
      push_bit MD_TAG_SHIFT (ucast (md_tag m)) OR push_bit 48 (ucast (state_to_u8 (md_state m)))
      OR push_bit 24 prev OR next)"

definition metadata_unpack :: "u64 \<Rightarrow> metadata option" where
  "metadata_unpack packed =
     map_option (\<lambda>state. \<lparr>md_next = link_new (ucast (packed AND LINK_MASK)),
        md_prev = link_new (ucast (drop_bit 24 packed AND LINK_MASK)), md_state = state,
        md_tag = ucast (drop_bit MD_TAG_SHIFT packed AND 0xFF)\<rparr>)
      (state_from_u8 (ucast (drop_bit 48 packed AND 0xFF)))"

text \<open>Links a heap can issue: absent, or a non-zero id of at most 24 bits.\<close>

definition link_ok :: "u32 option \<Rightarrow> bool" where
  "link_ok l \<longleftrightarrow> (case l of None \<Rightarrow> True | Some i \<Rightarrow> i \<noteq> 0 \<and> unat i < 2 ^ 24)"

definition metadata_ok :: "metadata \<Rightarrow> bool" where
  "metadata_ok m \<longleftrightarrow> link_ok (md_next m) \<and> link_ok (md_prev m)"

lemma link_new_get: "link_ok l \<Longrightarrow> link_new (link_get l) = l"
  by (auto simp: link_ok_def link_new_def link_get_def split: option.splits)

lemma link_bit_bound: "link_ok l \<Longrightarrow> bit (link_get l) n \<Longrightarrow> n < 24"
proof -
  assume "link_ok l" and b: "bit (link_get l) n"
  then have "unat (link_get l) < 2 ^ 24" by (auto simp: link_ok_def link_get_def split: option.splits)
  then have "take_bit 24 (link_get l) = link_get l" by (simp only: word_unat_eq_iff unat_take_bit) simp
  with b have "bit (take_bit 24 (link_get l)) n" by simp
  then show "n < 24" by (simp add: bit_simps)
qed

lemma bit_metadata_pack:
  assumes "metadata_ok m"
  shows "bit (metadata_pack m) n \<longleftrightarrow>
    (if n < 24 then bit (link_get (md_next m)) n
     else if n < 48 then bit (link_get (md_prev m)) (n - 24)
     else if n < 56 then bit (state_to_u8 (md_state m)) (n - 48)
     else n < 64 \<and> bit (md_tag m) (n - 56))"
proof -
  have "link_ok (md_next m)" "link_ok (md_prev m)" using assms by (simp_all add: metadata_ok_def)
  note nb = link_bit_bound [OF this(1)] link_bit_bound [OF this(2)]
  have p: "bit (link_get (md_prev m)) (n - 24) \<Longrightarrow> 24 \<le> n \<Longrightarrow> n < 48" using nb(2) [of "n - 24"] by auto
  show ?thesis
    using nb(1) [of n] p
    by (auto simp: metadata_pack_def Let_def MD_TAG_SHIFT_def bit_simps dest: bit_imp_le_length)
qed

lemma md_masks: "LINK_MASK = mask 24" "(0xFF :: u64) = mask 8"
  by (simp_all add: LINK_MASK_def mask_eq_exp_minus_1)

lemma metadata_unpack_pack:
  assumes "metadata_ok m"
  shows "metadata_unpack (metadata_pack m) = Some m"
proof -
  note b = bit_metadata_pack [OF assms]
  have ok: "link_ok (md_next m)" "link_ok (md_prev m)" using assms by (simp_all add: metadata_ok_def)
  have "ucast (metadata_pack m AND LINK_MASK) = link_get (md_next m)"
    unfolding md_masks by (rule bit_eqI) (auto simp: bit_simps b dest: link_bit_bound [OF ok(1)])
  moreover have "ucast (drop_bit 24 (metadata_pack m) AND LINK_MASK) = link_get (md_prev m)"
    unfolding md_masks by (rule bit_eqI) (auto simp: bit_simps b dest: link_bit_bound [OF ok(2)])
  moreover have "ucast (drop_bit 48 (metadata_pack m) AND 0xFF) = state_to_u8 (md_state m)"
    unfolding md_masks by (rule bit_eqI) (auto simp: bit_simps b)
  moreover have "ucast (drop_bit MD_TAG_SHIFT (metadata_pack m) AND 0xFF) = md_tag m"
    unfolding md_masks MD_TAG_SHIFT_def by (rule bit_eqI) (auto simp: bit_simps b)
  ultimately show ?thesis by (simp add: metadata_unpack_def link_new_get ok)
qed

interpretation metadata_codec: packed_codec metadata_ok metadata_pack "\<lambda>w. the (metadata_unpack w)"
  by unfold_locales (simp add: metadata_unpack_pack)

section \<open>Properties\<close>

text \<open>
  The metadata word is a faithful encoding of state, links and lifetime tag: unpacking a packed word gives
  the fields back and never panics, so two headers have equal words exactly when all four fields agree.
\<close>

theorem metadata_word_codec:
  assumes "metadata_ok m" and "metadata_ok m'"
  shows "metadata_unpack (metadata_pack m) = Some m \<and> (metadata_pack m = metadata_pack m' \<longleftrightarrow> m = m')"
  using metadata_unpack_pack [OF assms(1)] metadata_codec.pack_eq_iff [OF assms] by simp

theorem metadata_word_codec_witness:
  "metadata_unpack (metadata_pack \<lparr>md_next = Some 7, md_prev = None, md_state = Sealed, md_tag = 200\<rparr>)
     = Some \<lparr>md_next = Some 7, md_prev = None, md_state = Sealed, md_tag = 200\<rparr>"
proof -
  have ok: "metadata_ok \<lparr>md_next = Some 7, md_prev = None, md_state = Sealed, md_tag = 200\<rparr>"
    by (simp add: metadata_ok_def link_ok_def)
  from metadata_word_codec [OF ok ok] show ?thesis by (rule conjunct1)
qed

end
