(* ===== verification/SegHeader.thy ===== *)
theory SegHeader
  imports SegState
begin

unbundle bit_operations_syntax

text \<open>
  The segment header (\<^verbatim>\<open>segments/header.rs\<close>): its counters, its packed metadata word and the transitions and
  pins on it, each atomic access written out. The operations here are those of one thread; where the source
  has a window in which other threads can run between two accesses, the reader pin takes the interference as
  an argument, and theory \<open>PinProtocol\<close> interleaves the accesses of any number of threads. The metric gauges
  are a record of their own, and the cargo feature \<^verbatim>\<open>integrity\<close> an argument.
\<close>

section \<open>The header\<close>

type_synonym i32 = "32 word"

datatype segment_pool = Main | Admission

primrec pool_to_u8 :: "segment_pool \<Rightarrow> u8" where
  "pool_to_u8 Main = 0"
| "pool_to_u8 Admission = 1"

definition pool_from_u8 :: "u8 \<Rightarrow> segment_pool" where
  "pool_from_u8 v = (if v = 1 then Admission else Main)"

record seg_header =
  hd_id :: u32
  hd_write_offset :: i32
  hd_live_bytes :: i32
  hd_live_items :: i32
  hd_create_at :: u32
  hd_merge_at :: u32
  hd_ttl :: u32
  hd_ref_count :: u32
  hd_metadata :: u64
  hd_generation :: u16
  hd_pool :: u8
  hd_active_writers :: u32
  hd_active_removers :: u32
  hd_dead_items :: i32
  hd_dead_bytes :: i32

record item_gauges =
  ig_current :: int
  ig_current_bytes :: int
  ig_dead :: int
  ig_dead_bytes :: int

definition initial_offset :: "bool \<Rightarrow> i32" where
  "initial_offset integrity = (if integrity then 8 else 0)"

definition header_new :: "bool \<Rightarrow> u32 \<Rightarrow> u32 \<Rightarrow> seg_header" where
  "header_new integrity default_instant seg_id =
     \<lparr>hd_id = seg_id, hd_write_offset = initial_offset integrity, hd_live_bytes = initial_offset integrity,
      hd_live_items = 0, hd_create_at = default_instant, hd_merge_at = default_instant, hd_ttl = 0,
      hd_ref_count = 0, hd_metadata = metadata_pack metadata_new_free, hd_generation = 0,
      hd_pool = pool_to_u8 Main, hd_active_writers = 0, hd_active_removers = 0, hd_dead_items = 0,
      hd_dead_bytes = 0\<rparr>"

definition header_init :: "bool \<Rightarrow> seg_header \<Rightarrow> seg_header" where
  "header_init integrity h =
     h\<lparr>hd_write_offset := initial_offset integrity, hd_live_bytes := initial_offset integrity, hd_live_items := 0,
       hd_dead_items := 0, hd_dead_bytes := 0, hd_metadata := metadata_pack metadata_new_free\<rparr>"

text \<open>\<^verbatim>\<open>reset_write_stats\<close> with the metrics compiled in: the residue leaves the gauges with the counters.\<close>

definition reset_write_stats :: "bool \<Rightarrow> seg_header \<times> item_gauges \<Rightarrow> seg_header \<times> item_gauges" where
  "reset_write_stats integrity hg =
     (let (h, g) = hg;
          leaked_items = hd_live_items h;
          leaked_bytes = hd_live_bytes h - initial_offset integrity;
          g = (if sint leaked_items > 0 then g\<lparr>ig_current := ig_current g - sint leaked_items\<rparr> else g);
          g = (if sint leaked_bytes > 0 then g\<lparr>ig_current_bytes := ig_current_bytes g - sint leaked_bytes\<rparr> else g);
          dead_items = hd_dead_items h; dead_bytes = hd_dead_bytes h;
          h = h\<lparr>hd_dead_items := 0, hd_dead_bytes := 0\<rparr>;
          g = (if sint dead_items > 0 then g\<lparr>ig_dead := ig_dead g - sint dead_items\<rparr> else g);
          g = (if sint dead_bytes > 0 then g\<lparr>ig_dead_bytes := ig_dead_bytes g - sint dead_bytes\<rparr> else g) in
      (h\<lparr>hd_write_offset := initial_offset integrity, hd_live_bytes := initial_offset integrity,
         hd_live_items := 0\<rparr>, g))"

section \<open>The metadata word\<close>

definition header_metadata :: "seg_header \<Rightarrow> metadata option" where
  "header_metadata h = metadata_unpack (hd_metadata h)"

text \<open>The compare-exchange of the word: whether it succeeded, and the header after it.\<close>

definition cas_word :: "u64 \<Rightarrow> u64 \<Rightarrow> seg_header \<Rightarrow> bool \<times> seg_header" where
  "cas_word current new h =
     (case compare_exchange (hd_metadata h) current new of
        (Inr _, w) \<Rightarrow> (True, h\<lparr>hd_metadata := w\<rparr>)
      | (Inl _, w) \<Rightarrow> (False, h\<lparr>hd_metadata := w\<rparr>))"

definition cas_metadata ::
  "seg_state \<Rightarrow> seg_state \<Rightarrow> u32 option option \<Rightarrow> u32 option option \<Rightarrow> seg_header \<Rightarrow> (bool \<times> seg_header) option" where
  "cas_metadata expected_state new_state new_next new_prev h =
     do {
       let current = hd_metadata h;
       meta \<leftarrow> metadata_unpack current;
       if md_state meta \<noteq> expected_state then Some (False, h)
       else Some (cas_word current
         (metadata_pack \<lparr>md_next = (case new_next of None \<Rightarrow> md_next meta | Some n \<Rightarrow> n),
            md_prev = (case new_prev of None \<Rightarrow> md_prev meta | Some p \<Rightarrow> p),
            md_state = new_state, md_tag = md_tag meta\<rparr>) h)
     }"

definition update_links :: "u32 option option \<Rightarrow> u32 option option \<Rightarrow> seg_header \<Rightarrow> seg_header option" where
  "update_links new_next new_prev h =
     do {
       let current = hd_metadata h;
       meta \<leftarrow> metadata_unpack current;
       Some (snd (cas_word current
         (metadata_pack \<lparr>md_next = (case new_next of None \<Rightarrow> md_next meta | Some n \<Rightarrow> n),
            md_prev = (case new_prev of None \<Rightarrow> md_prev meta | Some p \<Rightarrow> p),
            md_state = md_state meta, md_tag = md_tag meta\<rparr>) h))
     }"

definition header_state :: "seg_header \<Rightarrow> seg_state option" where
  "header_state h = map_option md_state (header_metadata h)"

definition prev_seg :: "seg_header \<Rightarrow> u32 option option" where
  "prev_seg h = map_option md_prev (header_metadata h)"

definition set_prev_seg :: "u32 option \<Rightarrow> seg_header \<Rightarrow> seg_header option" where
  "set_prev_seg link h = update_links None (Some link) h"

definition next_seg :: "seg_header \<Rightarrow> u32 option option" where
  "next_seg h = map_option md_next (header_metadata h)"

definition set_next_seg :: "u32 option \<Rightarrow> seg_header \<Rightarrow> seg_header option" where
  "set_next_seg link h = update_links (Some link) None h"

section \<open>Transitions\<close>

definition mark_created :: "u32 \<Rightarrow> seg_header \<Rightarrow> seg_header" where
  "mark_created now h = h\<lparr>hd_create_at := now\<rparr>"

definition set_create_at :: "u32 \<Rightarrow> seg_header \<Rightarrow> seg_header" where
  "set_create_at at h = h\<lparr>hd_create_at := at\<rparr>"

definition mark_merged :: "u32 \<Rightarrow> seg_header \<Rightarrow> seg_header" where
  "mark_merged now h = h\<lparr>hd_merge_at := now\<rparr>"

definition set_ttl :: "u32 \<Rightarrow> seg_header \<Rightarrow> seg_header" where
  "set_ttl ttl h = h\<lparr>hd_ttl := ttl\<rparr>"

definition try_reserve ::
  "bool \<Rightarrow> u32 \<Rightarrow> seg_header \<times> item_gauges \<Rightarrow> (bool \<times> seg_header \<times> item_gauges) option" where
  "try_reserve integrity now hg =
     do {
       (won, h) \<leftarrow> cas_metadata Free Reserved (Some None) (Some None) (fst hg);
       if \<not> won then Some (False, h, snd hg)
       else let (h, g) = reset_write_stats integrity (h, snd hg) in
         Some (True, mark_merged now (mark_created now h), g)
     }"

definition try_release :: "seg_header \<Rightarrow> (bool \<times> seg_header) option" where
  "try_release h =
     do {
       (won, h) \<leftarrow> cas_metadata Reserved Free (Some None) (Some None) h;
       if won then Some (True, h) else cas_metadata Linking Free (Some None) (Some None) h
     }"

definition bump_generation :: "seg_header \<Rightarrow> seg_header" where
  "bump_generation h = h\<lparr>hd_generation := hd_generation h + 1\<rparr>"

definition try_release_drained :: "seg_header \<Rightarrow> (bool \<times> seg_header) option" where
  "try_release_drained h =
     do {
       (won, h) \<leftarrow> cas_metadata Draining Free (Some None) (Some None) h;
       if \<not> won then Some (False, h) else Some (True, bump_generation h)
     }"

text \<open>
  \<^verbatim>\<open>try_release_condemned\<close> in its three accesses: the load, the compare-exchange of the word loaded, and the
  generation bump that follows it.
\<close>

definition load_condemned :: "seg_header \<Rightarrow> u64 option option" where
  "load_condemned h =
     do {
       let current = hd_metadata h;
       meta \<leftarrow> metadata_unpack current;
       Some (if md_state meta \<noteq> AwaitingRelease then None else Some current)
     }"

definition cas_condemned :: "u64 \<Rightarrow> seg_header \<Rightarrow> bool \<times> seg_header" where
  "cas_condemned current h =
     (let new = \<lparr>md_next = None, md_prev = None, md_state = Free, md_tag = 0\<rparr> in
      cas_word current (metadata_pack new) h)"

definition try_release_condemned :: "seg_header \<Rightarrow> (bool \<times> seg_header) option" where
  "try_release_condemned h =
     do {
       loaded \<leftarrow> load_condemned h;
       case loaded of None \<Rightarrow> Some (False, h)
       | Some current \<Rightarrow>
           let (won, h) = cas_condemned current h in
           Some (if \<not> won then (False, h) else (True, bump_generation h))
     }"

definition cas_condemn :: "seg_header \<Rightarrow> (bool \<times> seg_header) option" where
  "cas_condemn h =
     do {
       let current = hd_metadata h;
       meta \<leftarrow> metadata_unpack current;
       if md_state meta \<noteq> Draining then Some (False, h)
       else Some (cas_word current
         (metadata_pack \<lparr>md_next = None, md_prev = None, md_state = AwaitingRelease,
            md_tag = ucast (hd_generation h AND 0xFF)\<rparr>) h)
     }"

section \<open>Pins\<close>

datatype acquire_outcome = Acquired | NotReadable | ReleaseCondemned

definition release_reader_for_guard :: "seg_header \<Rightarrow> u32 \<times> seg_header" where
  "release_reader_for_guard h = (hd_ref_count h, h\<lparr>hd_ref_count := hd_ref_count h - 1\<rparr>)"

definition ref_count_incr :: "seg_header \<Rightarrow> seg_header" where
  "ref_count_incr h = h\<lparr>hd_ref_count := hd_ref_count h + 1\<rparr>"

text \<open>
  \<open>hook p\<close> is what other threads do to the header in window \<open>p\<close> of the acquire: 0 between the increment and
  the re-check, 1 between the failed re-check and the backout.
\<close>

definition try_acquire_reader ::
  "(nat \<Rightarrow> seg_header \<Rightarrow> seg_header) \<Rightarrow> seg_header \<Rightarrow> (acquire_outcome \<times> seg_header) option" where
  "try_acquire_reader hook h =
     do {
       m \<leftarrow> header_metadata h;
       if \<not> is_readable (md_state m) then Some (NotReadable, h)
       else do {
         let h = hook 0 (ref_count_incr h);
         m \<leftarrow> header_metadata h;
         if \<not> is_readable (md_state m) then do {
           let (prev, h) = release_reader_for_guard (hook 1 h);
           if prev = 1 then do {
             (won, h) \<leftarrow> try_release_condemned h;
             Some (if won then ReleaseCondemned else NotReadable, h)
           } else Some (NotReadable, h)
         } else Some (Acquired, h)
       }
     }"

definition try_pin_writer :: "(seg_header \<Rightarrow> seg_header) \<Rightarrow> seg_header \<Rightarrow> (bool \<times> seg_header) option" where
  "try_pin_writer hook h =
     do {
       m \<leftarrow> header_metadata h;
       if \<not> is_writable (md_state m) then Some (False, h)
       else do {
         let h = hook (h\<lparr>hd_active_writers := hd_active_writers h + 1\<rparr>);
         m \<leftarrow> header_metadata h;
         if \<not> is_writable (md_state m) then Some (False, h\<lparr>hd_active_writers := hd_active_writers h - 1\<rparr>)
         else Some (True, h)
       }
     }"

definition release_writer :: "seg_header \<Rightarrow> seg_header" where
  "release_writer h = h\<lparr>hd_active_writers := hd_active_writers h - 1\<rparr>"

definition state_is_removable :: "seg_state \<Rightarrow> bool" where
  "state_is_removable s \<longleftrightarrow> s = Sealed \<or> s = Live"

definition try_pin_remover :: "(seg_header \<Rightarrow> seg_header) \<Rightarrow> seg_header \<Rightarrow> (bool \<times> seg_header) option" where
  "try_pin_remover hook h =
     do {
       m \<leftarrow> header_metadata h;
       if \<not> state_is_removable (md_state m) then Some (False, h)
       else do {
         let h = hook (h\<lparr>hd_active_removers := hd_active_removers h + 1\<rparr>);
         m \<leftarrow> header_metadata h;
         if \<not> state_is_removable (md_state m) then Some (False, h\<lparr>hd_active_removers := hd_active_removers h - 1\<rparr>)
         else Some (True, h)
       }
     }"

definition release_remover :: "seg_header \<Rightarrow> seg_header" where
  "release_remover h = h\<lparr>hd_active_removers := hd_active_removers h - 1\<rparr>"

section \<open>Space and counters\<close>

text \<open>\<^verbatim>\<open>i32::checked_add\<close>: the sum, unless it leaves the signed range.\<close>

definition i32_checked_add :: "i32 \<Rightarrow> i32 \<Rightarrow> i32 option" where
  "i32_checked_add a b =
     (if - (2 ^ 31) \<le> sint a + sint b \<and> sint a + sint b < 2 ^ 31 then Some (a + b) else None)"

definition try_reserve_space :: "i32 \<Rightarrow> i32 \<Rightarrow> seg_header \<Rightarrow> i32 option \<times> seg_header" where
  "try_reserve_space sz capacity h =
     (let current = hd_write_offset h in
      case i32_checked_add current sz of
        None \<Rightarrow> (None, h)
      | Some new \<Rightarrow>
          if sint new > sint capacity then (None, h)
          else (Some current, h\<lparr>hd_write_offset := snd (compare_exchange (hd_write_offset h) current new)\<rparr>))"

definition set_write_offset :: "i32 \<Rightarrow> seg_header \<Rightarrow> seg_header" where
  "set_write_offset offset h = h\<lparr>hd_write_offset := offset\<rparr>"

definition incr_live_bytes :: "i32 \<Rightarrow> seg_header \<Rightarrow> seg_header" where
  "incr_live_bytes bytes h = h\<lparr>hd_live_bytes := hd_live_bytes h + bytes\<rparr>"

definition decr_live_bytes :: "i32 \<Rightarrow> seg_header \<Rightarrow> seg_header" where
  "decr_live_bytes bytes h = h\<lparr>hd_live_bytes := hd_live_bytes h - bytes\<rparr>"

definition incr_live_items :: "seg_header \<Rightarrow> seg_header" where
  "incr_live_items h = h\<lparr>hd_live_items := hd_live_items h + 1\<rparr>"

definition decr_live_items :: "seg_header \<Rightarrow> seg_header" where
  "decr_live_items h = h\<lparr>hd_live_items := hd_live_items h - 1\<rparr>"

definition decr_item :: "i32 \<Rightarrow> seg_header \<Rightarrow> seg_header" where
  "decr_item sz h = decr_live_bytes sz (decr_live_items h)"

definition incr_dead_item :: "i32 \<Rightarrow> seg_header \<Rightarrow> seg_header" where
  "incr_dead_item sz h = h\<lparr>hd_dead_items := hd_dead_items h + 1, hd_dead_bytes := hd_dead_bytes h + sz\<rparr>"

definition decr_dead_item :: "i32 \<Rightarrow> seg_header \<Rightarrow> seg_header" where
  "decr_dead_item sz h = h\<lparr>hd_dead_items := hd_dead_items h - 1, hd_dead_bytes := hd_dead_bytes h - sz\<rparr>"

definition can_evict :: "seg_header \<Rightarrow> bool option" where
  "can_evict h = map_option (\<lambda>s. is_evictable s \<and> hd_ref_count h = 0) (header_state h)"

definition header_pool :: "seg_header \<Rightarrow> segment_pool" where
  "header_pool h = pool_from_u8 (hd_pool h)"

definition reset_pool :: "seg_header \<Rightarrow> seg_header" where
  "reset_pool h = h\<lparr>hd_pool := pool_to_u8 Main\<rparr>"

definition cas_pool :: "segment_pool \<Rightarrow> segment_pool \<Rightarrow> seg_header \<Rightarrow> bool \<times> seg_header" where
  "cas_pool from to h =
     (case compare_exchange (hd_pool h) (pool_to_u8 from) (pool_to_u8 to) of
        (Inr _, w) \<Rightarrow> (True, h\<lparr>hd_pool := w\<rparr>)
      | (Inl _, w) \<Rightarrow> (False, h\<lparr>hd_pool := w\<rparr>))"

section \<open>Headers with a valid word\<close>

text \<open>The word of a header holds valid metadata: what every operation keeps, and what rules out the panic.\<close>

definition holds :: "seg_header \<Rightarrow> metadata \<Rightarrow> bool" where
  "holds h m \<longleftrightarrow> metadata_ok m \<and> hd_metadata h = metadata_pack m"

lemma holds_metadata: "holds h m \<Longrightarrow> header_metadata h = Some m"
  by (simp add: holds_def header_metadata_def metadata_unpack_pack)

lemma holds_unique: "holds h m \<Longrightarrow> holds h m' \<Longrightarrow> m = m'"
  by (drule holds_metadata, drule holds_metadata) simp

lemma holds_unpack: "holds h m \<Longrightarrow> metadata_unpack (hd_metadata h) = Some m"
  by (simp add: holds_def metadata_unpack_pack)

lemma holds_state: "holds h m \<Longrightarrow> header_state h = Some (md_state m)"
  by (simp add: holds_metadata header_state_def)

lemma cas_word_same: "cas_word (hd_metadata h) new h = (True, h\<lparr>hd_metadata := new\<rparr>)"
  by (simp add: cas_word_def)

lemma cas_metadata_eval:
  "holds h m \<Longrightarrow> cas_metadata e n nn np h = Some (
     if md_state m = e then (True, h\<lparr>hd_metadata := metadata_pack
       \<lparr>md_next = (case nn of None \<Rightarrow> md_next m | Some x \<Rightarrow> x),
        md_prev = (case np of None \<Rightarrow> md_prev m | Some x \<Rightarrow> x), md_state = n, md_tag = md_tag m\<rparr>\<rparr>)
     else (False, h))"
  by (simp add: cas_metadata_def holds_unpack cas_word_same)

lemma holds_update:
  "metadata_ok m \<Longrightarrow> holds (h\<lparr>hd_metadata := metadata_pack m\<rparr>) m"
  by (simp add: holds_def)

lemma holds_cong: "hd_metadata h' = hd_metadata h \<Longrightarrow> holds h' m \<longleftrightarrow> holds h m"
  by (simp add: holds_def)

text \<open>The effect of a transition: from and to which state, what becomes of the links, the tag and the generation.\<close>

definition moves :: "seg_state list \<Rightarrow> seg_state \<Rightarrow> bool \<Rightarrow> seg_header \<Rightarrow> metadata \<Rightarrow> bool \<times> seg_header \<Rightarrow> bool" where
  "moves from to bump h m r \<longleftrightarrow>
     (if md_state m \<in> set from
      then fst r \<and> (\<exists>t. holds (snd r) \<lparr>md_next = None, md_prev = None, md_state = to, md_tag = t\<rparr>)
        \<and> hd_generation (snd r) = hd_generation h + (if bump then 1 else 0)
        \<and> hd_ref_count (snd r) = hd_ref_count h
      else r = (False, h))"

lemma link_ok_None [simp]: "link_ok None"
  by (simp add: link_ok_def)

lemma unlinked_ok [simp]: "metadata_ok \<lparr>md_next = None, md_prev = None, md_state = s, md_tag = t\<rparr>"
  by (simp add: metadata_ok_def)

lemmas move_simps = moves_def holds_def cas_word_same

lemma try_release_moves:
  assumes "holds h m"
  shows "\<exists>r. try_release h = Some r \<and> moves [Reserved, Linking] Free False h m r"
  by (auto simp: try_release_def cas_metadata_eval [OF assms] move_simps)

lemma try_release_drained_moves:
  assumes "holds h m"
  shows "\<exists>r. try_release_drained h = Some r \<and> moves [Draining] Free True h m r"
  by (auto simp: try_release_drained_def bump_generation_def cas_metadata_eval [OF assms] move_simps)

lemma try_release_condemned_moves:
  assumes "holds h m"
  shows "\<exists>r. try_release_condemned h = Some r \<and> moves [AwaitingRelease] Free True h m r"
  by (auto simp: try_release_condemned_def load_condemned_def holds_unpack [OF assms] cas_condemned_def
      bump_generation_def move_simps)

lemma cas_condemn_moves:
  assumes "holds h m"
  shows "\<exists>r. cas_condemn h = Some r \<and> moves [Draining] AwaitingRelease False h m r"
  by (auto simp: cas_condemn_def holds_unpack [OF assms] move_simps)

lemma reset_write_stats_meta:
  "hd_metadata (fst (reset_write_stats integrity (h, g))) = hd_metadata h"
  "hd_generation (fst (reset_write_stats integrity (h, g))) = hd_generation h"
  "hd_ref_count (fst (reset_write_stats integrity (h, g))) = hd_ref_count h"
  by (simp_all add: reset_write_stats_def Let_def)

lemma try_reserve_moves:
  assumes "holds h m"
  shows "\<exists>r h' g'. try_reserve integrity now (h, g) = Some (r, h', g') \<and> moves [Free] Reserved False h m (r, h')"
  by (auto simp: try_reserve_def cas_metadata_eval [OF assms] move_simps mark_merged_def mark_created_def
      split_beta Let_def reset_write_stats_meta)

section \<open>Properties\<close>

text \<open>
  C36. The transitions of a segment's life. On a header with a valid word none of them panics; each succeeds
  exactly from its own source state and otherwise changes nothing; a success clears the links and leaves the
  reader count alone; and the generation advances by one on exactly the two transitions that end a used
  incarnation, the release of a drained and the release of a condemned segment, and on neither reservation,
  unused release nor condemnation.
\<close>

theorem header_transitions:
  assumes "holds h m"
  shows "(\<exists>r h' g'. try_reserve integrity now (h, g) = Some (r, h', g') \<and> moves [Free] Reserved False h m (r, h'))
    \<and> (\<exists>r. try_release h = Some r \<and> moves [Reserved, Linking] Free False h m r)
    \<and> (\<exists>r. try_release_drained h = Some r \<and> moves [Draining] Free True h m r)
    \<and> (\<exists>r. cas_condemn h = Some r \<and> moves [Draining] AwaitingRelease False h m r)
    \<and> (\<exists>r. try_release_condemned h = Some r \<and> moves [AwaitingRelease] Free True h m r)"
  by (intro conjI try_reserve_moves try_release_moves try_release_drained_moves cas_condemn_moves
      try_release_condemned_moves assms)

lemma header_new_holds: "holds (header_new integrity d i) metadata_new_free"
  by (simp add: holds_def header_new_def metadata_new_free_def metadata_ok_def)

theorem header_transitions_witness:
  "\<exists>h' g'. try_reserve True 5 (header_new True 0 1, \<lparr>ig_current = 0, ig_current_bytes = 0, ig_dead = 0,
       ig_dead_bytes = 0\<rparr>) = Some (True, h', g') \<and> hd_generation h' = 0"
  using header_transitions [OF header_new_holds [of True 0 1], of True 5
      "\<lparr>ig_current = 0, ig_current_bytes = 0, ig_dead = 0, ig_dead_bytes = 0\<rparr>"]
  by (fastforce simp: moves_def metadata_new_free_def header_new_def)

text \<open>
  A reset settles the gauges exactly once: it takes the positive residue of live items and bytes and of
  dead items and bytes out of the gauges, and a second reset takes nothing more and changes nothing.
\<close>

theorem reset_write_stats_settles:
  "snd (reset_write_stats integrity (h, g)) =
     \<lparr>ig_current = ig_current g - max 0 (sint (hd_live_items h)),
      ig_current_bytes = ig_current_bytes g - max 0 (sint (hd_live_bytes h - initial_offset integrity)),
      ig_dead = ig_dead g - max 0 (sint (hd_dead_items h)),
      ig_dead_bytes = ig_dead_bytes g - max 0 (sint (hd_dead_bytes h))\<rparr>
   \<and> reset_write_stats integrity (reset_write_stats integrity (h, g)) = reset_write_stats integrity (h, g)"
  by (cases g) (simp add: reset_write_stats_def Let_def max_def)

text \<open>A run of reservations, with the offset and size of each grant.\<close>

fun reserve_run :: "i32 \<Rightarrow> i32 list \<Rightarrow> seg_header \<Rightarrow> (int \<times> int) list \<times> seg_header" where
  "reserve_run cap [] h = ([], h)"
| "reserve_run cap (sz # szs) h =
     (case try_reserve_space sz cap h of
        (None, h) \<Rightarrow> reserve_run cap szs h
      | (Some off, h) \<Rightarrow> (let (gs, h) = reserve_run cap szs h in ((sint off, sint sz) # gs, h)))"

text \<open>Regions laid end to end from an offset.\<close>

fun tiles :: "int \<Rightarrow> (int \<times> int) list \<Rightarrow> int \<Rightarrow> bool" where
  "tiles start [] end' \<longleftrightarrow> end' = start"
| "tiles start ((off, sz) # gs) end' \<longleftrightarrow> off = start \<and> 0 < sz \<and> tiles (start + sz) gs end'"

lemma sint_bounds: "- (2 ^ 31) \<le> sint (w :: i32)" "sint (w :: i32) < 2 ^ 31"
  using sint_ge [of w] sint_lt [of w] by simp_all

lemma sint_add_in_range:
  assumes "- (2 ^ 31) \<le> sint a + sint b" "sint a + sint b < 2 ^ 31"
  shows "sint (a + b :: i32) = sint a + sint b"
  using assms by (simp add: signed_word_eqI sint_word_ariths signed_take_bit_int_eq_self)

lemma try_reserve_space_eval:
  assumes "0 \<le> sint (hd_write_offset h)" "0 < sint sz"
  shows "try_reserve_space sz cap h =
    (if sint (hd_write_offset h) + sint sz \<le> sint cap
     then (Some (hd_write_offset h), h\<lparr>hd_write_offset := hd_write_offset h + sz\<rparr>) else (None, h))"
    and "sint (hd_write_offset h) + sint sz \<le> sint cap \<Longrightarrow>
      sint (hd_write_offset h + sz) = sint (hd_write_offset h) + sint sz"
proof -
  have sum: "sint (hd_write_offset h + sz) = sint (hd_write_offset h) + sint sz"
    if "sint (hd_write_offset h) + sint sz < 2 ^ 31"
    using assms that by (intro sint_add_in_range) simp_all
  show "try_reserve_space sz cap h =
    (if sint (hd_write_offset h) + sint sz \<le> sint cap
     then (Some (hd_write_offset h), h\<lparr>hd_write_offset := hd_write_offset h + sz\<rparr>) else (None, h))"
    using assms sint_bounds(2) [of cap] sum
    by (simp add: try_reserve_space_def i32_checked_add_def Let_def)
  show "sint (hd_write_offset h + sz) = sint (hd_write_offset h) + sint sz"
    if "sint (hd_write_offset h) + sint sz \<le> sint cap"
    using that sint_bounds(2) [of cap] by (intro sum) simp
qed

text \<open>
  C37. Space reservations tile the segment: whatever sequence of positive sizes is asked for, the granted
  regions lie end to end from the old write offset to the new one, so no two overlap and none is lost, the
  write offset never passes the capacity and never overflows, and a request is refused exactly when it does
  not fit.
\<close>

theorem reserve_space_tiles:
  assumes "0 \<le> sint (hd_write_offset h)" and "sint (hd_write_offset h) \<le> sint cap" and "\<forall>sz \<in> set szs. 0 < sint sz"
  shows "tiles (sint (hd_write_offset h)) (fst (reserve_run cap szs h)) (sint (hd_write_offset (snd (reserve_run cap szs h))))
    \<and> sint (hd_write_offset (snd (reserve_run cap szs h))) \<le> sint cap
    \<and> (\<forall>sz. 0 < sint sz \<longrightarrow>
        (fst (try_reserve_space sz cap h) = None \<longleftrightarrow> sint cap < sint (hd_write_offset h) + sint sz))"
proof -
  have "tiles (sint (hd_write_offset h)) (fst (reserve_run cap szs h)) (sint (hd_write_offset (snd (reserve_run cap szs h))))
    \<and> sint (hd_write_offset (snd (reserve_run cap szs h))) \<le> sint cap"
    using assms
  proof (induction szs arbitrary: h)
    case (Cons sz szs)
    have sz: "0 < sint sz" using Cons.prems(3) by simp
    note e = try_reserve_space_eval [OF Cons.prems(1) sz, of cap]
    show ?case
    proof (cases "sint (hd_write_offset h) + sint sz \<le> sint cap")
      case True
      let ?h = "h\<lparr>hd_write_offset := hd_write_offset h + sz\<rparr>"
      have w: "sint (hd_write_offset ?h) = sint (hd_write_offset h) + sint sz" using e(2) [OF True] by simp
      have "0 \<le> sint (hd_write_offset ?h)" "sint (hd_write_offset ?h) \<le> sint cap" "\<forall>sz \<in> set szs. 0 < sint sz"
        unfolding w using Cons.prems sz True by simp_all
      from Cons.IH [OF this] show ?thesis using True sz w by (simp add: e(1) split_beta Let_def)
    next
      case False
      then show ?thesis using Cons by (simp add: e(1))
    qed
  qed simp
  then show ?thesis using try_reserve_space_eval(1) [OF assms(1)] by auto
qed

theorem reserve_space_tiles_witness:
  "tiles 8 (fst (reserve_run 64 [24, 40, 16] (header_new True 0 1))) 48
   \<and> fst (reserve_run 64 [24, 40, 16] (header_new True 0 1)) = [(8, 24), (32, 16)]"
proof -
  let ?h = "header_new True 0 1"
  have r: "reserve_run 64 [24, 40, 16] ?h = ([(8, 24), (32, 16)], ?h\<lparr>hd_write_offset := 48\<rparr>)"
    by (simp add: header_new_def initial_offset_def try_reserve_space_def i32_checked_add_def Let_def)
  have "0 \<le> sint (hd_write_offset ?h)" "sint (hd_write_offset ?h) \<le> sint (64 :: i32)"
    "\<forall>sz \<in> set [24, 40, 16 :: i32]. 0 < sint sz" "sint (hd_write_offset ?h) = 8"
    by (simp_all add: header_new_def initial_offset_def)
  from reserve_space_tiles [OF this(1-3)] this(4) show ?thesis unfolding r by simp
qed

end
