(* ===== verification/PinProtocol.thy ===== *)
theory PinProtocol
  imports SegHeader "HOL-Library.Multiset"
begin

unbundle bit_operations_syntax

text \<open>
  The pin and reclamation protocol of one segment, run by any number of threads (\<^verbatim>\<open>segments/header.rs\<close>, the
  guard drop of \<^verbatim>\<open>segments/guard.rs\<close>, the writer and remover pins, and \<^verbatim>\<open>claim_for_drain\<close>, \<^verbatim>\<open>finalize_drained\<close>,
  \<^verbatim>\<open>recycle\<close>, \<^verbatim>\<open>condemn\<close>, \<^verbatim>\<open>reserve_free\<close>, \<^verbatim>\<open>return_segment\<close> and \<^verbatim>\<open>release_unused\<close> of \<^verbatim>\<open>segments/segments.rs\<close>).
  Every atomic access to a field that some other step of the protocol reads (the word, the three counters, the
  generation, the queues) is one step, in the sequentially consistent order the source asks for, with two kinds of
  joined steps. A load followed by a compare-exchange of the loaded word, with nothing else in between, is one
  step at the time of a successful exchange, since the exchange succeeds only if the word is still the one loaded;
  the load, the exchange and the generation bump of \<^verbatim>\<open>try_release_condemned\<close> are kept apart. The stores to the
  pool and to the write statistics, which no step of the protocol reads, are joined with the exchange or the
  push that follows them, as is the stamping of a reserved segment with the exchange before it; the push resets the
  statistics on every path, which changes nothing on the paths where they were reset before.

  A world is the header, the program points of the threads inside the protocol, how often the segment's id
  stands in the free and spare queues, and, as a ghost, how many incarnations have ended.
\<close>

section \<open>Program points\<close>

text \<open>
  \<open>ReadPinned i\<close> holds a reader pin taken in incarnation \<open>i\<close>. \<open>ClaimRelease i c\<close> has brought the reader count
  to zero, or has found it zero, in incarnation \<open>i\<close> and is about to load the state in \<^verbatim>\<open>try_release_condemned\<close>;
  \<open>c\<close> says whether the segment was condemned at that time. \<open>CasRelease i w\<close> has loaded the word \<open>w\<close> in
  incarnation \<open>i\<close>. \<open>Bumping\<close> has won a transition to Free that ends an incarnation and has not bumped the
  generation yet; \<open>Freed\<close> owns a free segment whose id it has not pushed yet.
\<close>

datatype pin_pc =
    ReadChecked | ReadCounted | ReadPinned nat | ReadBackout
  | ClaimRelease nat bool | CasRelease nat u64 | Bumping | Freed
  | WriteChecked | WriteCounted | WritePinned | WriteBackout
  | RemoveChecked | RemoveCounted | RemovePinned | RemoveBackout
  | Claimed | WritersGone | Quiet | Recycling | Condemning | Rechecking
  | Tenant | Filling

datatype pin_world = World (pw_header: seg_header) (pw_threads: "pin_pc multiset") (pw_queue: nat) (pw_ended: nat)

text \<open>More threads than a 32-bit counter can count do not exist.\<close>

abbreviation room :: "pin_pc multiset \<Rightarrow> bool" where
  "room T \<equiv> size T + 1 < 2 ^ 32"

section \<open>Readers\<close>

text \<open>
  \<^verbatim>\<open>try_acquire_reader\<close>, the guard drop and \<^verbatim>\<open>try_release_condemned\<close>. With \<open>fresh\<close> set, only the executions are
  taken in which no segment is condemned, and no incarnation ends, between a thread's decisive look at the
  reader count and its load of the state, and in which no thread sleeps through 256 incarnations between that
  load and its compare-exchange.
\<close>

inductive reader_step :: "bool \<Rightarrow> pin_world \<Rightarrow> pin_world \<Rightarrow> bool" for fresh where
  read_check: "header_state h = Some s \<Longrightarrow> is_readable s \<Longrightarrow> room T \<Longrightarrow>
     reader_step fresh (World h T q i) (World h (add_mset ReadChecked T) q i)"
| read_count: "reader_step fresh (World h (add_mset ReadChecked T) q i)
     (World (ref_count_incr h) (add_mset ReadCounted T) q i)"
| read_pinned: "header_state h = Some s \<Longrightarrow> is_readable s \<Longrightarrow>
     reader_step fresh (World h (add_mset ReadCounted T) q i) (World h (add_mset (ReadPinned i) T) q i)"
| read_refused: "header_state h = Some s \<Longrightarrow> \<not> is_readable s \<Longrightarrow>
     reader_step fresh (World h (add_mset ReadCounted T) q i) (World h (add_mset ReadBackout T) q i)"
| read_release: "p = ReadBackout \<or> p = ReadPinned j \<Longrightarrow> release_reader_for_guard h = (prev, h') \<Longrightarrow>
     reader_step fresh (World h (add_mset p T) q i)
       (World h' (if prev = 1 then add_mset (ClaimRelease i (header_state h = Some AwaitingRelease)) T else T) q i)"
| claim_not_condemned: "load_condemned h = Some None \<Longrightarrow>
     reader_step fresh (World h (add_mset (ClaimRelease j c) T) q i) (World h T q i)"
| claim_condemned: "load_condemned h = Some (Some w) \<Longrightarrow> (fresh \<longrightarrow> c \<and> j = i) \<Longrightarrow>
     reader_step fresh (World h (add_mset (ClaimRelease j c) T) q i) (World h (add_mset (CasRelease i w) T) q i)"
| release_won: "cas_condemned w h = (True, h') \<Longrightarrow> (fresh \<longrightarrow> i < j + 256) \<Longrightarrow>
     reader_step fresh (World h (add_mset (CasRelease j w) T) q i) (World h' (add_mset Bumping T) q (Suc i))"
| release_lost: "cas_condemned w h = (False, h') \<Longrightarrow>
     reader_step fresh (World h (add_mset (CasRelease j w) T) q i) (World h' T q i)"
| freed_bump: "reader_step fresh (World h (add_mset Bumping T) q i) (World (bump_generation h) (add_mset Freed T) q i)"
| freed_push: "reader_step fresh (World h (add_mset Freed T) q i)
     (World (fst (reset_write_stats integrity (h, gauges))) T (Suc q) i)"

section \<open>Writers and removers\<close>

text \<open>\<^verbatim>\<open>try_pin_writer\<close>, \<^verbatim>\<open>release_writer\<close>, \<^verbatim>\<open>try_pin_remover\<close>, \<^verbatim>\<open>release_remover\<close>.\<close>

inductive writer_step :: "pin_world \<Rightarrow> pin_world \<Rightarrow> bool" where
  write_check: "header_state h = Some s \<Longrightarrow> is_writable s \<Longrightarrow> room T \<Longrightarrow>
     writer_step (World h T q i) (World h (add_mset WriteChecked T) q i)"
| write_count: "writer_step (World h (add_mset WriteChecked T) q i)
     (World (h\<lparr>hd_active_writers := hd_active_writers h + 1\<rparr>) (add_mset WriteCounted T) q i)"
| write_pinned: "header_state h = Some s \<Longrightarrow> is_writable s \<Longrightarrow>
     writer_step (World h (add_mset WriteCounted T) q i) (World h (add_mset WritePinned T) q i)"
| write_refused: "header_state h = Some s \<Longrightarrow> \<not> is_writable s \<Longrightarrow>
     writer_step (World h (add_mset WriteCounted T) q i) (World h (add_mset WriteBackout T) q i)"
| write_release: "p = WriteBackout \<or> p = WritePinned \<Longrightarrow>
     writer_step (World h (add_mset p T) q i) (World (release_writer h) T q i)"
| remove_check: "header_state h = Some s \<Longrightarrow> state_is_removable s \<Longrightarrow> room T \<Longrightarrow>
     writer_step (World h T q i) (World h (add_mset RemoveChecked T) q i)"
| remove_count: "writer_step (World h (add_mset RemoveChecked T) q i)
     (World (h\<lparr>hd_active_removers := hd_active_removers h + 1\<rparr>) (add_mset RemoveCounted T) q i)"
| remove_pinned: "header_state h = Some s \<Longrightarrow> state_is_removable s \<Longrightarrow>
     writer_step (World h (add_mset RemoveCounted T) q i) (World h (add_mset RemovePinned T) q i)"
| remove_refused: "header_state h = Some s \<Longrightarrow> \<not> state_is_removable s \<Longrightarrow>
     writer_step (World h (add_mset RemoveCounted T) q i) (World h (add_mset RemoveBackout T) q i)"
| remove_release: "p = RemoveBackout \<or> p = RemovePinned \<Longrightarrow>
     writer_step (World h (add_mset p T) q i) (World (release_remover h) T q i)"

section \<open>Drains\<close>

text \<open>
  \<^verbatim>\<open>claim_for_drain\<close> (and the tail claim of \<^verbatim>\<open>TtlBucket::drain_chain\<close>), its two waits, \<^verbatim>\<open>finalize_drained\<close>,
  \<^verbatim>\<open>recycle\<close> and \<^verbatim>\<open>condemn\<close> with its recheck. \<open>Quiet\<close> is where the item stream is parsed and unlinked.
\<close>

inductive drain_step :: "pin_world \<Rightarrow> pin_world \<Rightarrow> bool" where
  drain_claim: "s = Sealed \<or> s = Live \<Longrightarrow> cas_metadata s Draining None None h = Some (True, h') \<Longrightarrow> room T \<Longrightarrow>
     drain_step (World h T q i) (World h' (add_mset Claimed T) q i)"
| drain_writers: "hd_active_writers h = 0 \<Longrightarrow>
     drain_step (World h (add_mset Claimed T) q i) (World h (add_mset WritersGone T) q i)"
| drain_removers: "hd_active_removers h = 0 \<Longrightarrow>
     drain_step (World h (add_mset WritersGone T) q i) (World h (add_mset Quiet T) q i)"
| drain_unpinned: "hd_ref_count h = 0 \<Longrightarrow>
     drain_step (World h (add_mset Quiet T) q i) (World h (add_mset Recycling T) q i)"
| drain_pinned: "hd_ref_count h \<noteq> 0 \<Longrightarrow>
     drain_step (World h (add_mset Quiet T) q i) (World h (add_mset Condemning T) q i)"
| drain_recycle: "cas_metadata Draining Free (Some None) (Some None) (fst (reset_write_stats integrity (reset_pool h, gauges)))
       = Some (True, h') \<Longrightarrow>
     drain_step (World h (add_mset Recycling T) q i) (World h' (add_mset Bumping T) q (Suc i))"
| drain_condemn: "cas_condemn (reset_pool h) = Some (True, h') \<Longrightarrow>
     drain_step (World h (add_mset Condemning T) q i) (World h' (add_mset Rechecking T) q i)"
| recheck_zero: "hd_ref_count h = 0 \<Longrightarrow>
     drain_step (World h (add_mset Rechecking T) q i)
       (World h (add_mset (ClaimRelease i (header_state h = Some AwaitingRelease)) T) q i)"
| recheck_pinned: "hd_ref_count h \<noteq> 0 \<Longrightarrow>
     drain_step (World h (add_mset Rechecking T) q i) (World h T q i)"

section \<open>Tenants and the chain\<close>

text \<open>
  \<^verbatim>\<open>reserve_free\<close> takes the id from a queue; the tenant links and publishes the segment as the bucket tail or as
  a copy destination, or gives it back with \<^verbatim>\<open>release_unused\<close>. The appender seals a tail, and neighbours patch
  the links of a segment with \<^verbatim>\<open>update_links\<close>, whatever its state. The comments of the source disagree on whether a
  condemned segment can be patched: that of \<^verbatim>\<open>cas_condemn\<close> says it is, by a neighbour that splices after its own
  transition, that of \<^verbatim>\<open>try_release_condemned\<close> says it must not be. With \<open>splicing\<close> set all executions are taken; without
  it, only those in which no condemned segment is patched.
\<close>

inductive tenant_step :: "bool \<Rightarrow> pin_world \<Rightarrow> pin_world \<Rightarrow> bool" for splicing where
  reserve: "try_reserve integrity now (h, gauges) = Some (True, h', gauges') \<Longrightarrow> room T \<Longrightarrow>
     tenant_step splicing (World h T (Suc q) i) (World h' (add_mset Tenant T) q i)"
| link: "cas_metadata Reserved Linking (Some next) (Some prev) h = Some (True, h') \<Longrightarrow> link_ok next \<Longrightarrow> link_ok prev \<Longrightarrow>
     tenant_step splicing (World h (add_mset Tenant T) q i) (World h' (add_mset Tenant T) q i)"
| publish_tail: "cas_metadata Linking Live None None h = Some (True, h') \<Longrightarrow>
     tenant_step splicing (World h (add_mset Tenant T) q i) (World h' T q i)"
| publish_dest: "cas_metadata Linking Relinking None None h = Some (True, h') \<Longrightarrow>
     tenant_step splicing (World h (add_mset Tenant T) q i) (World h' (add_mset Filling T) q i)"
| seal_dest: "cas_metadata Relinking Sealed None None h = Some (True, h') \<Longrightarrow>
     tenant_step splicing (World h (add_mset Filling T) q i) (World h' T q i)"
| give_back: "try_release h = Some (True, h') \<Longrightarrow>
     tenant_step splicing (World h (add_mset Tenant T) q i) (World h' (add_mset Freed T) q i)"
| seal_tail: "cas_metadata Live Sealed (Some next) None h = Some (True, h') \<Longrightarrow> link_ok next \<Longrightarrow>
     tenant_step splicing (World h T q i) (World h' T q i)"
| patch_links: "update_links nn np h = Some h' \<Longrightarrow> header_state h = Some s \<Longrightarrow> (s = AwaitingRelease \<longrightarrow> splicing) \<Longrightarrow>
     (\<And>l. nn = Some l \<Longrightarrow> link_ok l) \<Longrightarrow> (\<And>l. np = Some l \<Longrightarrow> link_ok l) \<Longrightarrow>
     tenant_step splicing (World h T q i) (World h' T q i)"

definition pin_step :: "bool \<Rightarrow> bool \<Rightarrow> pin_world \<Rightarrow> pin_world \<Rightarrow> bool" where
  "pin_step splicing fresh w w' \<longleftrightarrow> reader_step fresh w w' \<or> writer_step w w' \<or> drain_step w w' \<or> tenant_step splicing w w'"

text \<open>A header fresh from \<^verbatim>\<open>SegmentHeader::new\<close>, its id pushed once by \<^verbatim>\<open>Segments::from_builder\<close>.\<close>

definition pin_init :: "pin_world \<Rightarrow> bool" where
  "pin_init w \<longleftrightarrow> (\<exists>integrity d seg_id. w = World (header_new integrity d seg_id) {#} 1 0)"

end
