(* ===== verification/PinInvariant.thy ===== *)
theory PinInvariant
  imports PinProtocol
begin

unbundle bit_operations_syntax

text \<open>
  The invariants of the pin protocol. Without any assumption on the scheduler: the counters count the threads
  at the pinned program points, a state has exactly one owner, a free segment stands in the queues exactly once,
  and writers and removers never overlap the parsing or reclamation of their segment. In the executions in which no
  neighbour patches the links of a condemned segment, a condemned segment also has a thread that will look at it again.
\<close>

section \<open>Counting threads\<close>

definition cnt :: "(pin_pc \<Rightarrow> bool) \<Rightarrow> pin_pc multiset \<Rightarrow> nat" where
  "cnt P T = size (filter_mset P T)"

lemma cnt_empty [simp]: "cnt P {#} = 0"
  by (simp add: cnt_def)

lemma cnt_add [simp]: "cnt P (add_mset p T) = (if P p then Suc (cnt P T) else cnt P T)"
  by (simp add: cnt_def)

lemma cnt_le: "cnt P T \<le> size T"
  by (simp add: cnt_def size_filter_mset_lesseq)

lemma cnt_0_iff: "cnt P T = 0 \<longleftrightarrow> (\<forall>p. p \<in># T \<longrightarrow> \<not> P p)"
  by (simp add: cnt_def)

lemma cnt_pos: "p \<in># T \<Longrightarrow> P p \<Longrightarrow> 0 < cnt P T"
  using cnt_0_iff [of P T] by fastforce

fun is_reader :: "pin_pc \<Rightarrow> bool" where
  "is_reader ReadCounted = True"
| "is_reader (ReadPinned i) = True"
| "is_reader ReadBackout = True"
| "is_reader _ = False"

fun is_pinned :: "pin_pc \<Rightarrow> bool" where
  "is_pinned (ReadPinned i) = True"
| "is_pinned _ = False"

definition is_writer :: "pin_pc \<Rightarrow> bool" where
  "is_writer p \<longleftrightarrow> p = WriteCounted \<or> p = WritePinned \<or> p = WriteBackout"

definition is_remover :: "pin_pc \<Rightarrow> bool" where
  "is_remover p \<longleftrightarrow> p = RemoveCounted \<or> p = RemovePinned \<or> p = RemoveBackout"

definition is_drainer :: "pin_pc \<Rightarrow> bool" where
  "is_drainer p \<longleftrightarrow> p = Claimed \<or> p = WritersGone \<or> p = Quiet \<or> p = Recycling \<or> p = Condemning"

definition is_reclaimer :: "pin_pc \<Rightarrow> bool" where
  "is_reclaimer p \<longleftrightarrow> p = Quiet \<or> p = Recycling \<or> p = Condemning"

definition is_freed :: "pin_pc \<Rightarrow> bool" where
  "is_freed p \<longleftrightarrow> p = Bumping \<or> p = Freed"

text \<open>The word of a segment condemned in incarnation \<open>i\<close>, and the threads that will look at a condemned one.\<close>

definition condemned_in :: "nat \<Rightarrow> u64 \<Rightarrow> bool" where
  "condemned_in i w \<longleftrightarrow> (\<exists>m. metadata_unpack w = Some m \<and> md_state m = AwaitingRelease \<and> md_tag m = of_nat i)"

fun is_claimant :: "u64 \<Rightarrow> pin_pc \<Rightarrow> bool" where
  "is_claimant w Rechecking = True"
| "is_claimant w (ClaimRelease i c) = True"
| "is_claimant w (CasRelease i w') = (w' = w)"
| "is_claimant w _ = False"

lemmas pc_kinds = is_writer_def is_remover_def is_drainer_def is_reclaimer_def is_freed_def

section \<open>The invariant\<close>

definition counts_ok :: "seg_header \<Rightarrow> pin_pc multiset \<Rightarrow> bool" where
  "counts_ok h T \<longleftrightarrow> unat (hd_ref_count h) = cnt is_reader T \<and> unat (hd_active_writers h) = cnt is_writer T
     \<and> unat (hd_active_removers h) = cnt is_remover T \<and> size T < 2 ^ 32"

definition owners_ok :: "seg_state \<Rightarrow> pin_pc multiset \<Rightarrow> nat \<Rightarrow> bool" where
  "owners_ok s T q \<longleftrightarrow> cnt is_drainer T = of_bool (s = Draining) \<and> cnt is_freed T + q = of_bool (s = Free)
     \<and> cnt ((=) Tenant) T = of_bool (s = Reserved) + of_bool (s = Linking) \<and> cnt ((=) Filling) T = of_bool (s = Relinking)
     \<and> s \<noteq> Locked"

definition writers_ok :: "seg_state \<Rightarrow> pin_pc multiset \<Rightarrow> bool" where
  "writers_ok s T \<longleftrightarrow>
     (WritePinned \<in># T \<longrightarrow> s \<in> {Live, Sealed, Draining} \<and> WritersGone \<notin># T \<and> cnt is_reclaimer T = 0)
     \<and> (RemovePinned \<in># T \<longrightarrow> s \<in> {Live, Sealed, Draining} \<and> cnt is_reclaimer T = 0)"

definition casers_ok :: "pin_pc multiset \<Rightarrow> nat \<Rightarrow> bool" where
  "casers_ok T i \<longleftrightarrow> (\<forall>j w. CasRelease j w \<in># T \<longrightarrow> condemned_in j w \<and> j \<le> i)"

lemma casers_ok_simps [simp]:
  "casers_ok {#} i"
  "casers_ok (add_mset p T) i \<longleftrightarrow>
     (case p of CasRelease j w \<Rightarrow> condemned_in j w \<and> j \<le> i | _ \<Rightarrow> True) \<and> casers_ok T i"
  by (auto simp: casers_ok_def split: pin_pc.split)

lemma casers_ok_Suc: "casers_ok T i \<Longrightarrow> casers_ok T (Suc i)"
  unfolding casers_ok_def by (meson le_SucI)

definition handoff_ok :: "metadata \<Rightarrow> seg_header \<Rightarrow> pin_pc multiset \<Rightarrow> nat \<Rightarrow> bool" where
  "handoff_ok m h T i \<longleftrightarrow> hd_generation h + of_nat (cnt ((=) Bumping) T) = of_nat i
     \<and> (md_state m = AwaitingRelease \<longrightarrow> md_tag m = of_nat i) \<and> casers_ok T i"

text \<open>Some thread will look at a condemned segment again. A patch of its links can undo this.\<close>

definition awaited :: "metadata \<Rightarrow> seg_header \<Rightarrow> pin_pc multiset \<Rightarrow> bool" where
  "awaited m h T \<longleftrightarrow> (md_state m = AwaitingRelease \<longrightarrow> 0 < cnt is_reader T \<or> 0 < cnt (is_claimant (hd_metadata h)) T)"

definition good :: "bool \<Rightarrow> seg_header \<Rightarrow> metadata \<Rightarrow> pin_pc multiset \<Rightarrow> nat \<Rightarrow> nat \<Rightarrow> bool" where
  "good sp h m T q i \<longleftrightarrow> holds h m \<and> counts_ok h T \<and> owners_ok (md_state m) T q \<and> writers_ok (md_state m) T
     \<and> handoff_ok m h T i \<and> (sp \<or> awaited m h T)"

definition pin_ok :: "bool \<Rightarrow> pin_world \<Rightarrow> bool" where
  "pin_ok sp w = (case w of World h T q i \<Rightarrow> \<exists>m. good sp h m T q i)"

lemma pin_okI: "good sp h m T q i \<Longrightarrow> pin_ok sp (World h T q i)"
  by (auto simp: pin_ok_def)

lemma pin_okE:
  assumes "pin_ok sp (World h T q i)"
  obtains m where "good sp h m T q i"
  using assms by (auto simp: pin_ok_def)

section \<open>What the header operations do\<close>

lemma unat_incr: "unat w < 2 ^ 32 - 1 \<Longrightarrow> unat (w + 1) = Suc (unat w)" for w :: u32
  by (simp add: unat_word_ariths)

lemma unat_decr: "0 < unat w \<Longrightarrow> unat (w - 1) = unat w - 1" for w :: u32
  by (metis One_nat_def Suc_leI unat_1 unat_sub word_le_nat_alt)

lemma cas_metadata_won:
  assumes "cas_metadata e n nn np h = Some (True, h')" and m: "holds h m"
    and "\<And>l. nn = Some l \<Longrightarrow> link_ok l" "\<And>l. np = Some l \<Longrightarrow> link_ok l"
  obtains m' where "md_state m = e" "holds h' m'" "md_state m' = n" "md_tag m' = md_tag m"
    "h' = h\<lparr>hd_metadata := metadata_pack m'\<rparr>"
proof -
  let ?m = "\<lparr>md_next = (case nn of None \<Rightarrow> md_next m | Some x \<Rightarrow> x),
    md_prev = (case np of None \<Rightarrow> md_prev m | Some x \<Rightarrow> x), md_state = n, md_tag = md_tag m\<rparr>"
  have e: "md_state m = e" and h': "h' = h\<lparr>hd_metadata := metadata_pack ?m\<rparr>"
    using assms(1) by (simp_all add: cas_metadata_eval [OF m] split: if_splits)
  have "metadata_ok ?m"
    using assms(3,4) m by (auto simp: holds_def metadata_ok_def split: option.splits)
  then have "holds h' ?m" unfolding h' by (rule holds_update)
  with e h' show ?thesis by (intro that) simp_all
qed

lemma update_links_holds:
  assumes m: "holds h m" and u: "update_links nn np h = Some h'"
    and l: "\<And>l. nn = Some l \<Longrightarrow> link_ok l" "\<And>l. np = Some l \<Longrightarrow> link_ok l"
  obtains m' where "holds h' m'" "md_state m' = md_state m" "md_tag m' = md_tag m" "h' = h\<lparr>hd_metadata := metadata_pack m'\<rparr>"
proof -
  let ?m = "\<lparr>md_next = (case nn of None \<Rightarrow> md_next m | Some x \<Rightarrow> x),
    md_prev = (case np of None \<Rightarrow> md_prev m | Some x \<Rightarrow> x), md_state = md_state m, md_tag = md_tag m\<rparr>"
  have h': "h' = h\<lparr>hd_metadata := metadata_pack ?m\<rparr>"
    using u by (simp add: update_links_def holds_unpack [OF m] cas_word_same)
  have "metadata_ok ?m" using l m by (auto simp: holds_def metadata_ok_def split: option.splits)
  then have "holds h' ?m" unfolding h' by (rule holds_update)
  then show ?thesis using h' by (intro that) simp_all
qed

lemma cas_condemn_eval:
  "holds h m \<Longrightarrow> cas_condemn h = Some (if md_state m = Draining
     then (True, h\<lparr>hd_metadata := metadata_pack \<lparr>md_next = None, md_prev = None, md_state = AwaitingRelease,
       md_tag = ucast (hd_generation h AND 0xFF)\<rparr>\<rparr>) else (False, h))"
  by (simp add: cas_condemn_def holds_unpack cas_word_same)

lemma state_of: "holds h m \<Longrightarrow> header_state h = Some s \<longleftrightarrow> s = md_state m"
  by (auto simp: holds_state)

lemma load_condemned_eval:
  "holds h m \<Longrightarrow> load_condemned h = Some (if md_state m = AwaitingRelease then Some (hd_metadata h) else None)"
  by (simp add: load_condemned_def holds_unpack)

lemma cas_condemned_cases:
  "cas_condemned w h = (r, h') \<Longrightarrow>
     (if hd_metadata h = w then r \<and> holds h' \<lparr>md_next = None, md_prev = None, md_state = Free, md_tag = 0\<rparr>
        \<and> hd_generation h' = hd_generation h \<and> hd_ref_count h' = hd_ref_count h
        \<and> hd_active_writers h' = hd_active_writers h \<and> hd_active_removers h' = hd_active_removers h
      else \<not> r \<and> h' = h)"
  by (auto simp: cas_condemned_def Let_def cas_word_def compare_exchange_def holds_def split: if_splits)

lemma condemned_in_held: "holds h m \<Longrightarrow> condemned_in j (hd_metadata h) \<longleftrightarrow> md_state m = AwaitingRelease \<and> md_tag m = of_nat j"
  by (simp add: condemned_in_def holds_unpack)

lemma reset_stats_counters [simp]:
  "hd_metadata (fst (reset_write_stats integrity (h, g))) = hd_metadata h"
  "hd_generation (fst (reset_write_stats integrity (h, g))) = hd_generation h"
  "hd_ref_count (fst (reset_write_stats integrity (h, g))) = hd_ref_count h"
  "hd_active_writers (fst (reset_write_stats integrity (h, g))) = hd_active_writers h"
  "hd_active_removers (fst (reset_write_stats integrity (h, g))) = hd_active_removers h"
  by (simp_all add: reset_write_stats_def Let_def)

lemma holds_same_word:
  "holds h m \<Longrightarrow> hd_metadata h' = hd_metadata h \<Longrightarrow> holds h' m"
  by (simp add: holds_def)

lemma generation_tag: "ucast (of_nat i AND 0xFF :: u16) = (of_nat i :: u8)"
proof -
  have "(0xFF :: u16) = mask 8" by (simp add: mask_eq_exp_minus_1)
  then show ?thesis by (auto simp: bit_eq_iff bit_simps)
qed

lemma reset_pool_fields [simp]:
  "hd_metadata (reset_pool h) = hd_metadata h" "hd_generation (reset_pool h) = hd_generation h"
  "hd_ref_count (reset_pool h) = hd_ref_count h" "hd_active_writers (reset_pool h) = hd_active_writers h"
  "hd_active_removers (reset_pool h) = hd_active_removers h"
  by (simp_all add: reset_pool_def)

lemma holds_counters [simp]:
  "holds (h\<lparr>hd_ref_count := x\<rparr>) m = holds h m" "holds (h\<lparr>hd_active_writers := x\<rparr>) m = holds h m"
  "holds (h\<lparr>hd_active_removers := x\<rparr>) m = holds h m" "holds (h\<lparr>hd_generation := y\<rparr>) m = holds h m"
  "holds (fst (reset_write_stats integrity (h, g))) m = holds h m" "holds (reset_pool h) m = holds h m"
  by (simp_all add: holds_def reset_pool_def)

section \<open>Preservation\<close>

lemmas world_defs = good_def counts_ok_def owners_ok_def writers_ok_def handoff_ok_def awaited_def pc_kinds

text \<open>Readers. Only the count and the handoff are at stake.\<close>

lemma good_read_check: "good sp h m T q i \<Longrightarrow> room T \<Longrightarrow> good sp h m (add_mset ReadChecked T) q i"
  by (simp add: world_defs)

lemma good_read_count:
  assumes "good sp h m (add_mset ReadChecked T) q i"
  shows "good sp (ref_count_incr h) m (add_mset ReadCounted T) q i"
proof -
  have "unat (hd_ref_count h + 1) = Suc (unat (hd_ref_count h))"
    using assms cnt_le [of is_reader T] by (intro unat_incr) (simp add: good_def counts_ok_def)
  with assms show ?thesis by (simp add: world_defs ref_count_incr_def)
qed

lemma good_read_recheck:
  "good sp h m (add_mset ReadCounted T) q i \<Longrightarrow> good sp h m (add_mset (ReadPinned j) T) q i"
  "good sp h m (add_mset ReadCounted T) q i \<Longrightarrow> good sp h m (add_mset ReadBackout T) q i"
  by (simp_all add: world_defs)

lemma good_read_release:
  assumes g: "good sp h m (add_mset p T) q i" and p: "p = ReadBackout \<or> p = ReadPinned j"
    and r: "release_reader_for_guard h = (prev, h')"
  shows "good sp h' m (if prev = 1 then add_mset (ClaimRelease i c) T else T) q i"
proof -
  have h': "prev = hd_ref_count h" "h' = h\<lparr>hd_ref_count := hd_ref_count h - 1\<rparr>"
    using r by (auto simp: release_reader_for_guard_def)
  have c: "unat (hd_ref_count h) = Suc (cnt is_reader T)" using g p by (auto simp: good_def counts_ok_def)
  have u: "unat (hd_ref_count h - 1) = cnt is_reader T" using unat_decr [of "hd_ref_count h"] c by simp
  have one: "prev = 1 \<longleftrightarrow> cnt is_reader T = 0" using c by (simp add: h' word_unat_eq_iff)
  show ?thesis
  proof (cases "prev = 1")
    case True
    then have "cnt is_reader T = 0" using one by simp
    then show ?thesis using g u True by (rule_tac disjE [OF p]) (simp_all add: world_defs h')
  next
    case False
    then have "0 < cnt is_reader T" using one by simp
    then show ?thesis using g u False by (rule_tac disjE [OF p]) (simp_all add: world_defs h')
  qed
qed

lemma good_claim_not_condemned:
  assumes g: "good sp h m (add_mset (ClaimRelease j c) T) q i" and l: "load_condemned h = Some None"
  shows "good sp h m T q i"
proof -
  have "holds h m" using g by (simp add: good_def)
  then have "md_state m \<noteq> AwaitingRelease" using l by (simp add: load_condemned_eval split: if_splits)
  then show ?thesis using g by (simp add: world_defs)
qed

lemma good_claim_condemned:
  assumes g: "good sp h m (add_mset (ClaimRelease j c) T) q i" and l: "load_condemned h = Some (Some w)"
  shows "good sp h m (add_mset (CasRelease i w) T) q i"
proof -
  have h: "holds h m" using g by (simp add: good_def)
  then have s: "md_state m = AwaitingRelease" and w: "w = hd_metadata h"
    using l by (simp_all add: load_condemned_eval split: if_splits)
  have "md_tag m = of_nat i" using g s by (simp add: good_def handoff_ok_def)
  then show ?thesis using g s by (simp add: world_defs w condemned_in_held [OF h])
qed

lemma good_release_won:
  assumes g: "good sp h m (add_mset (CasRelease j w) T) q i" and r: "cas_condemned w h = (True, h')"
  shows "good sp h' \<lparr>md_next = None, md_prev = None, md_state = Free, md_tag = 0\<rparr> (add_mset Bumping T) q (Suc i)"
proof -
  have h: "holds h m" and "condemned_in j w" "hd_metadata h = w"
    using g cas_condemned_cases [OF r] by (simp_all add: good_def handoff_ok_def split: if_splits)
  then have "md_state m = AwaitingRelease" using condemned_in_held [OF h] by simp
  then show ?thesis using g cas_condemned_cases [OF r] by (simp add: world_defs casers_ok_Suc split: if_splits)
qed

lemma good_freed_bump: "good sp h m (add_mset Bumping T) q i \<Longrightarrow> good sp (bump_generation h) m (add_mset Freed T) q i"
  by (simp add: world_defs bump_generation_def add.assoc)

lemma good_release_lost:
  assumes g: "good sp h m (add_mset (CasRelease j w) T) q i" and r: "cas_condemned w h = (False, h')"
  shows "good sp h' m T q i"
  using g cas_condemned_cases [OF r] by (auto simp: world_defs split: if_splits)

lemma good_freed_push:
  assumes g: "good sp h m (add_mset Freed T) q i"
  shows "good sp (fst (reset_write_stats integrity (h, ga))) m T (Suc q) i"
  using g by (auto simp: world_defs)

lemmas reader_good = good_read_check good_read_count good_read_recheck good_read_release
  good_claim_not_condemned good_claim_condemned good_release_won good_release_lost good_freed_bump good_freed_push

lemma reader_step_ok:
  assumes "reader_step fresh w w'" and "pin_ok sp w"
  shows "pin_ok sp w'"
  using assms by cases (blast elim: pin_okE intro: pin_okI reader_good)+

text \<open>Writers and removers: a pin is taken only while the state is writable, or removable.\<close>

lemma no_owner:
  assumes "cnt is_drainer T = 0"
  shows "WritersGone \<notin># T" "cnt is_reclaimer T = 0"
  using assms by (auto simp: cnt_0_iff pc_kinds)

lemma good_no_drainer: "good sp h m T q i \<Longrightarrow> md_state m \<noteq> Draining \<Longrightarrow> cnt is_drainer T = 0"
  by (simp add: good_def owners_ok_def)

lemma good_write_check:
  "good sp h m T q i \<Longrightarrow> room T \<Longrightarrow> good sp h m (add_mset WriteChecked T) q i"
  "good sp h m T q i \<Longrightarrow> room T \<Longrightarrow> good sp h m (add_mset RemoveChecked T) q i"
  by (simp_all add: world_defs)

lemma good_write_count:
  assumes "good sp h m (add_mset WriteChecked T) q i"
  shows "good sp (h\<lparr>hd_active_writers := hd_active_writers h + 1\<rparr>) m (add_mset WriteCounted T) q i"
proof -
  have "unat (hd_active_writers h + 1) = Suc (unat (hd_active_writers h))"
    using assms cnt_le [of is_writer T] by (intro unat_incr) (simp add: good_def counts_ok_def is_writer_def)
  with assms show ?thesis by (simp add: world_defs)
qed

lemma good_remove_count:
  assumes "good sp h m (add_mset RemoveChecked T) q i"
  shows "good sp (h\<lparr>hd_active_removers := hd_active_removers h + 1\<rparr>) m (add_mset RemoveCounted T) q i"
proof -
  have "unat (hd_active_removers h + 1) = Suc (unat (hd_active_removers h))"
    using assms cnt_le [of is_remover T] by (intro unat_incr) (simp add: good_def counts_ok_def is_remover_def)
  with assms show ?thesis by (simp add: world_defs)
qed

lemma good_write_pinned:
  assumes g: "good sp h m (add_mset WriteCounted T) q i" and s: "header_state h = Some s" "is_writable s"
  shows "good sp h m (add_mset WritePinned T) q i"
proof -
  have st: "md_state m = Live" using g s holds_state [of h m] by (simp add: good_def is_writable_def)
  then have "cnt is_drainer T = 0" using good_no_drainer [OF g] by (simp add: is_drainer_def)
  from no_owner [OF this] show ?thesis using g st by (simp add: good_def counts_ok_def owners_ok_def
        writers_ok_def handoff_ok_def awaited_def pc_kinds)
qed

lemma good_remove_pinned:
  assumes g: "good sp h m (add_mset RemoveCounted T) q i" and s: "header_state h = Some s" "state_is_removable s"
  shows "good sp h m (add_mset RemovePinned T) q i"
proof -
  have st: "md_state m = Live \<or> md_state m = Sealed"
    using g s holds_state [of h m] by (auto simp: good_def state_is_removable_def)
  then have "cnt is_drainer T = 0" using good_no_drainer [OF g] by (auto simp: is_drainer_def)
  from no_owner [OF this] show ?thesis using g st by (auto simp: good_def counts_ok_def owners_ok_def
        writers_ok_def handoff_ok_def awaited_def pc_kinds)
qed

lemma good_refused:
  "good sp h m (add_mset WriteCounted T) q i \<Longrightarrow> good sp h m (add_mset WriteBackout T) q i"
  "good sp h m (add_mset RemoveCounted T) q i \<Longrightarrow> good sp h m (add_mset RemoveBackout T) q i"
  by (simp_all add: world_defs)

lemma good_write_release:
  assumes g: "good sp h m (add_mset p T) q i" and p: "p = WriteBackout \<or> p = WritePinned"
  shows "good sp (release_writer h) m T q i"
proof -
  have "unat (hd_active_writers h) = Suc (cnt is_writer T)"
    using g p by (auto simp: good_def counts_ok_def is_writer_def)
  then have "unat (hd_active_writers h - 1) = cnt is_writer T" using unat_decr [of "hd_active_writers h"] by simp
  then show ?thesis using g by (rule_tac disjE [OF p]) (simp_all add: world_defs release_writer_def)
qed

lemma good_remove_release:
  assumes g: "good sp h m (add_mset p T) q i" and p: "p = RemoveBackout \<or> p = RemovePinned"
  shows "good sp (release_remover h) m T q i"
proof -
  have "unat (hd_active_removers h) = Suc (cnt is_remover T)"
    using g p by (auto simp: good_def counts_ok_def is_remover_def)
  then have "unat (hd_active_removers h - 1) = cnt is_remover T" using unat_decr [of "hd_active_removers h"] by simp
  then show ?thesis using g by (rule_tac disjE [OF p]) (simp_all add: world_defs release_remover_def)
qed

lemmas writer_good = good_write_check good_write_count good_remove_count good_write_pinned
  good_remove_pinned good_refused good_write_release good_remove_release

lemma writer_step_ok:
  assumes "writer_step w w'" and "pin_ok sp w"
  shows "pin_ok sp w'"
  using assms by cases (blast elim: pin_okE intro: pin_okI writer_good)+

text \<open>Drains: the claim has one winner, and waits out the pins that were there before it.\<close>

lemma good_drain_claim:
  assumes g: "good sp h m T q i" and c: "cas_metadata s Draining None None h = Some (True, h')" "s = Sealed \<or> s = Live"
    and r: "room T"
  shows "pin_ok sp (World h' (add_mset Claimed T) q i)"
proof -
  have "holds h m" using g by (simp add: good_def)
  with c(1) obtain m' where m': "md_state m = s" "holds h' m'" "md_state m' = Draining"
    "h' = h\<lparr>hd_metadata := metadata_pack m'\<rparr>" by (auto elim!: cas_metadata_won)
  have d: "cnt is_drainer T = 0" using good_no_drainer [OF g] c(2) m'(1) by auto
  have "good sp h' m' (add_mset Claimed T) q i"
    using g m' r d no_owner [OF d] by (rule_tac disjE [OF c(2)]) (simp_all add: good_def counts_ok_def owners_ok_def writers_ok_def
        handoff_ok_def awaited_def is_writer_def is_remover_def is_drainer_def is_reclaimer_def is_freed_def)
  then show ?thesis by (rule pin_okI)
qed

lemma good_drain_waits:
  assumes g: "good sp h m (add_mset Claimed T) q i" and w: "hd_active_writers h = 0"
  shows "good sp h m (add_mset WritersGone T) q i"
proof -
  have "cnt is_writer T = 0" using g w by (simp add: good_def counts_ok_def is_writer_def)
  then have "WritePinned \<notin># T" by (auto simp: cnt_0_iff is_writer_def)
  then show ?thesis using g by (simp add: world_defs)
qed

lemma good_drain_waits2:
  assumes g: "good sp h m (add_mset WritersGone T) q i" and w: "hd_active_removers h = 0"
  shows "good sp h m (add_mset Quiet T) q i"
proof -
  have "cnt is_remover T = 0" using g w by (simp add: good_def counts_ok_def is_remover_def)
  then have "RemovePinned \<notin># T" by (auto simp: cnt_0_iff is_remover_def)
  then show ?thesis using g by (simp add: world_defs)
qed

lemma good_drain_decide:
  "good sp h m (add_mset Quiet T) q i \<Longrightarrow> good sp h m (add_mset Recycling T) q i"
  "good sp h m (add_mset Quiet T) q i \<Longrightarrow> good sp h m (add_mset Condemning T) q i"
  by (simp_all add: world_defs)

lemma good_recycle:
  assumes g: "good sp h m (add_mset Recycling T) q i"
    and r: "cas_metadata Draining Free (Some None) (Some None) (fst (reset_write_stats integrity (reset_pool h, ga))) = Some (True, h')"
  shows "pin_ok sp (World h' (add_mset Bumping T) q (Suc i))"
proof -
  let ?h = "fst (reset_write_stats integrity (reset_pool h, ga))"
  have m: "holds ?h m" using g by (simp add: good_def)
  obtain t where h': "h' = ?h\<lparr>hd_metadata := metadata_pack \<lparr>md_next = None, md_prev = None, md_state = Free,
      md_tag = t\<rparr>\<rparr>" and s: "md_state m = Draining"
    using r by (auto simp: cas_metadata_eval [OF m] split: if_splits)
  have "good sp h' \<lparr>md_next = None, md_prev = None, md_state = Free, md_tag = t\<rparr> (add_mset Bumping T) q (Suc i)"
    using g s by (simp add: h' holds_update casers_ok_Suc world_defs)
  then show ?thesis by (rule pin_okI)
qed

lemma good_bumped: "good sp h m T q i \<Longrightarrow> md_state m \<noteq> Free \<Longrightarrow> hd_generation h = of_nat i"
proof -
  assume g: "good sp h m T q i" "md_state m \<noteq> Free"
  then have "cnt is_freed T = 0" by (simp add: good_def owners_ok_def)
  then have "cnt ((=) Bumping) T = 0" by (auto simp: cnt_0_iff is_freed_def)
  then show ?thesis using g(1) by (simp add: good_def handoff_ok_def)
qed

lemma good_condemn:
  assumes g: "good sp h m (add_mset Condemning T) q i" and r: "cas_condemn (reset_pool h) = Some (True, h')"
  shows "pin_ok sp (World h' (add_mset Rechecking T) q i)"
proof -
  let ?m = "\<lparr>md_next = None, md_prev = None, md_state = AwaitingRelease, md_tag = of_nat i\<rparr>"
  have m: "holds (reset_pool h) m" using g by (simp add: good_def)
  have s: "md_state m = Draining" using r by (auto simp: cas_condemn_eval [OF m] split: if_splits)
  have "hd_generation (reset_pool h) = of_nat i" using good_bumped [OF g] s by simp
  then have h': "h' = (reset_pool h)\<lparr>hd_metadata := metadata_pack ?m\<rparr>"
    using r by (auto simp: cas_condemn_eval [OF m] generation_tag split: if_splits)
  have "good sp h' ?m (add_mset Rechecking T) q i"
    using g s by (simp add: h' holds_update world_defs)
  then show ?thesis by (rule pin_okI)
qed

lemma good_recheck_zero: "good sp h m (add_mset Rechecking T) q i \<Longrightarrow> good sp h m (add_mset (ClaimRelease j c) T) q i"
  by (simp add: world_defs)

lemma good_recheck_pinned:
  assumes g: "good sp h m (add_mset Rechecking T) q i" and r: "hd_ref_count h \<noteq> 0"
  shows "good sp h m T q i"
proof -
  have "0 < cnt is_reader T" using g r by (simp add: good_def counts_ok_def word_unat_eq_iff)
  then show ?thesis using g by (simp add: world_defs)
qed

lemmas drain_good = good_drain_waits good_drain_waits2 good_drain_decide good_recheck_zero good_recheck_pinned

lemma drain_step_ok:
  assumes "drain_step w w'" and "pin_ok sp w"
  shows "pin_ok sp w'"
  using assms
  by cases (blast elim: pin_okE intro: pin_okI drain_good good_drain_claim good_recycle good_condemn)+

text \<open>Tenants: one per reservation, until the segment is published.\<close>

definition same_counts :: "seg_header \<Rightarrow> seg_header \<Rightarrow> bool" where
  "same_counts h h' \<longleftrightarrow> hd_ref_count h' = hd_ref_count h \<and> hd_active_writers h' = hd_active_writers h
     \<and> hd_active_removers h' = hd_active_removers h \<and> hd_generation h' = hd_generation h"

lemma good_cas:
  assumes g: "good sp h m T q i" and c: "cas_metadata e n nn np h = Some (True, h')"
    and l: "\<And>l. nn = Some l \<Longrightarrow> link_ok l" "\<And>l. np = Some l \<Longrightarrow> link_ok l"
  obtains m' where "md_state m = e" "holds h' m'" "md_state m' = n" "same_counts h h'"
proof -
  have "holds h m" using g by (simp add: good_def)
  from cas_metadata_won [OF c this l] obtain m' where "md_state m = e" "holds h' m'" "md_state m' = n"
    "h' = h\<lparr>hd_metadata := metadata_pack m'\<rparr>" by blast
  then show ?thesis by (intro that) (simp_all add: same_counts_def)
qed

lemmas tenant_defs = world_defs same_counts_def

lemma good_reserve:
  assumes g: "good sp h m T (Suc q) i" and r: "try_reserve integrity now (h, ga) = Some (True, h', ga')" and "room T"
  shows "pin_ok sp (World h' (add_mset Tenant T) q i)"
proof -
  have m: "holds h m" using g by (simp add: good_def)
  obtain t where s: "md_state m = Free" and h': "holds h' \<lparr>md_next = None, md_prev = None, md_state = Reserved, md_tag = t\<rparr>"
    and c: "same_counts h h'"
    using r by (auto simp: try_reserve_def cas_metadata_eval [OF m] mark_merged_def mark_created_def split_beta
        Let_def holds_def same_counts_def split: if_splits)
  have "good sp h' \<lparr>md_next = None, md_prev = None, md_state = Reserved, md_tag = t\<rparr> (add_mset Tenant T) q i"
    using g s h' c assms(3) by (simp add: tenant_defs)
  then show ?thesis by (rule pin_okI)
qed

lemma good_link:
  assumes g: "good sp h m (add_mset Tenant T) q i" and c: "cas_metadata Reserved Linking (Some a) (Some b) h = Some (True, h')"
    and l: "link_ok a" "link_ok b"
  shows "pin_ok sp (World h' (add_mset Tenant T) q i)"
proof -
  from good_cas [OF g c] l obtain m' where "md_state m = Reserved" "holds h' m'" "md_state m' = Linking" "same_counts h h'"
    by blast
  with g have "good sp h' m' (add_mset Tenant T) q i" by (simp add: tenant_defs)
  then show ?thesis by (rule pin_okI)
qed

lemma good_publish_tail:
  assumes g: "good sp h m (add_mset Tenant T) q i" and c: "cas_metadata Linking Live None None h = Some (True, h')"
  shows "pin_ok sp (World h' T q i)"
proof -
  from good_cas [OF g c] obtain m' where "md_state m = Linking" "holds h' m'" "md_state m' = Live" "same_counts h h'" by blast
  with g have "good sp h' m' T q i" by (simp add: tenant_defs)
  then show ?thesis by (rule pin_okI)
qed

lemma good_publish_dest:
  assumes g: "good sp h m (add_mset Tenant T) q i" and c: "cas_metadata Linking Relinking None None h = Some (True, h')"
  shows "pin_ok sp (World h' (add_mset Filling T) q i)"
proof -
  from good_cas [OF g c] obtain m' where "md_state m = Linking" "holds h' m'" "md_state m' = Relinking" "same_counts h h'"
    by blast
  with g have "good sp h' m' (add_mset Filling T) q i" by (simp add: tenant_defs)
  then show ?thesis by (rule pin_okI)
qed

lemma good_seal_dest:
  assumes g: "good sp h m (add_mset Filling T) q i" and c: "cas_metadata Relinking Sealed None None h = Some (True, h')"
  shows "pin_ok sp (World h' T q i)"
proof -
  from good_cas [OF g c] obtain m' where "md_state m = Relinking" "holds h' m'" "md_state m' = Sealed" "same_counts h h'"
    by blast
  with g have "good sp h' m' T q i" by (simp add: tenant_defs)
  then show ?thesis by (rule pin_okI)
qed

lemma good_give_back:
  assumes g: "good sp h m (add_mset Tenant T) q i" and r: "try_release h = Some (True, h')"
  shows "pin_ok sp (World h' (add_mset Freed T) q i)"
proof -
  have m: "holds h m" using g by (simp add: good_def)
  obtain t where s: "md_state m = Reserved \<or> md_state m = Linking" and c: "same_counts h h'"
    and h': "holds h' \<lparr>md_next = None, md_prev = None, md_state = Free, md_tag = t\<rparr>"
    using r by (auto simp: try_release_def cas_metadata_eval [OF m] holds_def same_counts_def split: if_splits)
  have "good sp h' \<lparr>md_next = None, md_prev = None, md_state = Free, md_tag = t\<rparr> (add_mset Freed T) q i"
    using g h' c by (rule_tac disjE [OF s]) (simp_all add: tenant_defs)
  then show ?thesis by (rule pin_okI)
qed

lemma good_seal_tail:
  assumes g: "good sp h m T q i" and c: "cas_metadata Live Sealed (Some a) None h = Some (True, h')" and l: "link_ok a"
  shows "pin_ok sp (World h' T q i)"
proof -
  from good_cas [OF g c] l obtain m' where "md_state m = Live" "holds h' m'" "md_state m' = Sealed" "same_counts h h'" by blast
  with g have "good sp h' m' T q i" by (simp add: tenant_defs)
  then show ?thesis by (rule pin_okI)
qed

lemma good_patch_links:
  assumes g: "good sp h m T q i" and u: "update_links nn np h = Some h'" and s: "header_state h = Some s" "s = AwaitingRelease \<longrightarrow> sp"
    and l: "\<And>l. nn = Some l \<Longrightarrow> link_ok l" "\<And>l. np = Some l \<Longrightarrow> link_ok l"
  shows "pin_ok sp (World h' T q i)"
proof -
  have m: "holds h m" using g by (simp add: good_def)
  from update_links_holds [OF m u l] obtain m' where m': "holds h' m'" "md_state m' = md_state m" "md_tag m' = md_tag m"
    "h' = h\<lparr>hd_metadata := metadata_pack m'\<rparr>" by blast
  moreover have "md_state m = AwaitingRelease \<longrightarrow> sp" using s holds_state [OF m] by simp
  ultimately have "good sp h' m' T q i" using g by (auto simp: world_defs)
  then show ?thesis by (rule pin_okI)
qed

lemmas tenant_good = good_reserve good_link good_publish_tail good_publish_dest good_seal_dest good_give_back
  good_seal_tail good_patch_links

lemma tenant_step_ok:
  assumes "tenant_step sp w w'" and "pin_ok sp w"
  shows "pin_ok sp w'"
  using assms by cases (blast elim: pin_okE intro: tenant_good)+

lemma pin_init_ok: "pin_init w \<Longrightarrow> pin_ok sp w"
proof -
  assume "pin_init w"
  then obtain integrity d seg_id where w: "w = World (header_new integrity d seg_id) {#} 1 0"
    by (auto simp: pin_init_def)
  have "good sp (header_new integrity d seg_id) metadata_new_free {#} 1 0"
    using header_new_holds [of integrity d seg_id] by (simp add: world_defs metadata_new_free_def header_new_def)
  then show "pin_ok sp w" unfolding w by (rule pin_okI)
qed

interpretation pins: invariant_system pin_init "pin_step sp fresh" "pin_ok sp" for sp fresh
  by unfold_locales
     (auto simp: pin_step_def intro: pin_init_ok reader_step_ok writer_step_ok drain_step_ok tenant_step_ok)

end
