(* ===== verification/PinSafety.thy ===== *)
theory PinSafety
  imports PinInvariant
begin

unbundle bit_operations_syntax

text \<open>
  What the pin protocol guarantees: the properties of all executions, the safety of pinned readers in the
  executions without a stalled release, and an execution with a stalled release in which a segment is freed
  while a reader has it pinned. A condemned segment is never stranded in the executions in which its links are not
  patched by a neighbour; an execution in which they are, and that strands it, is given too.
\<close>

section \<open>Pinned readers in executions without a stalled release\<close>

definition pinnable :: "seg_state \<Rightarrow> bool" where
  "pinnable s \<longleftrightarrow> s \<in> {Live, Sealed, Relinking, Draining, AwaitingRelease}"

text \<open>
  What a program point knows, in a segment with state \<open>s\<close>, \<open>i\<close> ended incarnations and \<open>n\<close> pinned readers. A
  release claimed against the current incarnation of a condemned segment has no pinned reader left.
\<close>

fun point_ok :: "seg_state \<Rightarrow> nat \<Rightarrow> nat \<Rightarrow> pin_pc \<Rightarrow> bool" where
  "point_ok s i n (ReadPinned j) \<longleftrightarrow> j = i \<and> pinnable s"
| "point_ok s i n (ClaimRelease j c) \<longleftrightarrow> j \<le> i \<and> (j = i \<and> c \<longrightarrow> s = AwaitingRelease \<and> n = 0)"
| "point_ok s i n (CasRelease j w) \<longleftrightarrow> (j = i \<longrightarrow> s = AwaitingRelease \<and> n = 0)"
| "point_ok s i n Recycling \<longleftrightarrow> n = 0"
| "point_ok s i n _ \<longleftrightarrow> True"

definition points_ok :: "seg_state \<Rightarrow> nat \<Rightarrow> pin_pc multiset \<Rightarrow> bool" where
  "points_ok s i T \<longleftrightarrow> (\<forall>p. p \<in># T \<longrightarrow> point_ok s i (cnt is_pinned T) p)"

lemma point_ok_fewer: "point_ok s i n p \<Longrightarrow> n' \<le> n \<Longrightarrow> point_ok s i n' p"
  by (cases p) auto

lemma points_add: "points_ok s i T \<Longrightarrow> \<not> is_pinned p \<Longrightarrow> point_ok s i (cnt is_pinned T) p \<Longrightarrow> points_ok s i (add_mset p T)"
  by (auto simp: points_ok_def)

lemma points_remove: "points_ok s i (add_mset p T) \<Longrightarrow> points_ok s i T"
  unfolding points_ok_def by (auto intro: point_ok_fewer)

lemma points_swap:
  "points_ok s i (add_mset p T) \<Longrightarrow> \<not> is_pinned p' \<Longrightarrow> point_ok s i (cnt is_pinned T) p' \<Longrightarrow> points_ok s i (add_mset p' T)"
  by (blast intro: points_add points_remove)

lemma points_state:
  assumes "points_ok s i T" and "s \<noteq> AwaitingRelease" and "pinnable s \<Longrightarrow> pinnable s'"
  shows "points_ok s' i T"
  unfolding points_ok_def
proof (intro allI impI)
  fix p
  assume "p \<in># T"
  then have "point_ok s i (cnt is_pinned T) p" using assms(1) by (simp add: points_ok_def)
  then show "point_ok s' i (cnt is_pinned T) p" using assms(2,3) by (cases p) auto
qed

lemma points_end:
  assumes "points_ok s i T" and "cnt is_pinned T = 0" and "casers_ok T i"
  shows "points_ok s' (Suc i) T"
  unfolding points_ok_def
proof (intro allI impI)
  fix p
  assume p: "p \<in># T"
  then have ok: "point_ok s i (cnt is_pinned T) p" using assms(1) by (simp add: points_ok_def)
  have np: "\<not> is_pinned p" using cnt_0_iff [THEN iffD1, OF assms(2)] p by blast
  show "point_ok s' (Suc i) (cnt is_pinned T) p"
  proof (cases p)
    case (CasRelease j w)
    then have "j \<le> i" using assms(3) p by (auto simp: casers_ok_def)
    then show ?thesis using CasRelease by simp
  qed (use ok np assms(2) in auto)
qed

lemma points_pin:
  assumes "points_ok s i (add_mset ReadCounted T)" and "is_readable s" and "Recycling \<notin># T"
  shows "points_ok s i (add_mset (ReadPinned i) T)"
proof -
  have s: "s \<noteq> AwaitingRelease" "pinnable s" using assms(2) by (cases s; simp add: pinnable_def)+
  have "point_ok s i n p" if "p \<in># T" for p n
  proof -
    have "point_ok s i (cnt is_pinned T) p" using points_remove [OF assms(1)] that by (simp add: points_ok_def)
    then show ?thesis using s assms(3) that by (cases p) auto
  qed
  then show ?thesis using s by (auto simp: points_ok_def)
qed

section \<open>Preservation\<close>

definition safe :: "bool \<Rightarrow> pin_world \<Rightarrow> bool" where
  "safe sp w = (case w of World h T q i \<Rightarrow> \<exists>m. good sp h m T q i \<and> points_ok (md_state m) i T)"

lemma safeI:
  assumes "pin_ok sp (World h T q i)" and "holds h m" and "points_ok (md_state m) i T"
  shows "safe sp (World h T q i)"
proof -
  obtain m' where "good sp h m' T q i" using assms(1) by (rule pin_okE)
  moreover from this have "m = m'" using holds_unique [OF assms(2)] by (simp add: good_def)
  ultimately show ?thesis using assms(3) by (auto simp: safe_def)
qed

lemma safe_ok: "safe sp w \<Longrightarrow> pin_ok sp w"
  by (auto simp: safe_def pin_ok_def split: pin_world.splits)

lemma pinned_le_readers: "cnt is_pinned T \<le> cnt is_reader T"
  by (induction T) (auto, metis is_pinned.elims(2) is_reader.simps(2))

lemma no_readers: "good sp h m T q i \<Longrightarrow> hd_ref_count h = 0 \<Longrightarrow> cnt is_pinned T = 0"
  using pinned_le_readers [of T] by (simp add: good_def counts_ok_def)

lemma tag_inj:
  assumes "(of_nat i :: u8) = of_nat j" and "j \<le> i" and "i < j + 256"
  shows "i = j"
proof -
  have "i mod 256 = j mod 256" using assms(1) by (simp add: word_unat_eq_iff unat_of_nat)
  then have "256 dvd i - j" using assms(2) by (simp add: mod_eq_dvd_iff_nat)
  then show ?thesis using assms(2,3) by (auto dest: dvd_imp_le)
qed

lemma safeE:
  assumes "safe sp (World h T q i)"
  obtains m where "good sp h m T q i" "holds h m" "points_ok (md_state m) i T"
  using assms by (auto simp: safe_def good_def)

text \<open>A step that leaves the word alone and moves a thread from one point to another.\<close>

lemma safe_stay:
  assumes "safe sp (World h (add_mset p T) q i)" and "pin_ok sp (World h' (add_mset p' T) q' i)"
    and "hd_metadata h' = hd_metadata h" and "\<not> is_pinned p'"
    and "\<And>m. good sp h m (add_mset p T) q i \<Longrightarrow> point_ok (md_state m) i (cnt is_pinned (add_mset p T)) p \<Longrightarrow>
      point_ok (md_state m) i (cnt is_pinned T) p'"
  shows "safe sp (World h' (add_mset p' T) q' i)"
proof -
  obtain m where m: "good sp h m (add_mset p T) q i" "holds h m" "points_ok (md_state m) i (add_mset p T)"
    using assms(1) by (rule safeE)
  have "point_ok (md_state m) i (cnt is_pinned (add_mset p T)) p" using m(3) unfolding points_ok_def by simp
  then have "points_ok (md_state m) i (add_mset p' T)" using points_swap [OF m(3)] assms(4,5) m(1) by blast
  then show ?thesis using assms(2) holds_same_word [OF m(2) assms(3)] by (blast intro: safeI)
qed

lemma safe_idle:
  assumes "safe sp (World h (add_mset p T) q i)" and "pin_ok sp (World h' (add_mset p' T) q' i)"
    and "hd_metadata h' = hd_metadata h" and "\<not> is_pinned p'" and "\<And>s n. point_ok s i n p'"
  shows "safe sp (World h' (add_mset p' T) q' i)"
  using safe_stay [OF assms(1-4)] assms(5) by blast

lemma safe_leave:
  assumes "safe sp (World h (add_mset p T) q i)" and "pin_ok sp (World h' T q' i)" and "hd_metadata h' = hd_metadata h"
  shows "safe sp (World h' T q' i)"
proof -
  obtain m where m: "holds h m" "points_ok (md_state m) i (add_mset p T)" using assms(1) by (rule safeE)
  show ?thesis using safeI [OF assms(2) holds_same_word [OF m(1) assms(3)] points_remove [OF m(2)]] .
qed

lemma safe_enter:
  assumes "safe sp (World h T q i)" and "pin_ok sp (World h (add_mset p T) q' i)"
    and "\<And>s n. point_ok s i n p" and "\<not> is_pinned p"
  shows "safe sp (World h (add_mset p T) q' i)"
proof -
  obtain m where m: "holds h m" "points_ok (md_state m) i T" using assms(1) by (rule safeE)
  show ?thesis using safeI [OF assms(2) m(1) points_add [OF m(2) assms(4,3)]] .
qed

lemma safe_pinned:
  assumes "safe sp (World h (add_mset ReadCounted T) q i)" and "pin_ok sp (World h (add_mset (ReadPinned i) T) q i)"
    and "header_state h = Some s" and "is_readable s"
  shows "safe sp (World h (add_mset (ReadPinned i) T) q i)"
proof -
  obtain m where m: "good sp h m (add_mset ReadCounted T) q i" "holds h m"
    "points_ok (md_state m) i (add_mset ReadCounted T)" using assms(1) by (rule safeE)
  have s: "s = md_state m" using state_of [OF m(2)] assms(3) by simp
  then have "md_state m \<noteq> Draining" using assms(4) by auto
  then have "cnt is_drainer T = 0" using m(1) by (simp add: good_def owners_ok_def is_drainer_def)
  then have "Recycling \<notin># T" using cnt_pos [of Recycling T is_drainer] by (auto simp: is_drainer_def)
  then show ?thesis using safeI [OF assms(2) m(2)] points_pin [OF m(3)] assms(4) s by blast
qed

lemma safe_release:
  assumes "safe sp (World h (add_mset p T) q i)" and "p = ReadBackout \<or> p = ReadPinned j"
    and "release_reader_for_guard h = (prev, h')"
    and "pin_ok sp (World h' (if prev = 1 then add_mset (ClaimRelease i (header_state h = Some AwaitingRelease)) T else T) q i)"
  shows "safe sp (World h' (if prev = 1 then add_mset (ClaimRelease i (header_state h = Some AwaitingRelease)) T else T) q i)"
proof (cases "prev = 1")
  case True
  have w: "hd_metadata h' = hd_metadata h" using assms(3) by (auto simp: release_reader_for_guard_def)
  have "point_ok (md_state m) i (cnt is_pinned T) (ClaimRelease i (header_state h = Some AwaitingRelease))"
    if g: "good sp h m (add_mset p T) q i" for m
  proof -
    have "holds h m" using g by (simp add: good_def)
    moreover have "unat (hd_ref_count h) = 1" using assms(3) True by (simp add: release_reader_for_guard_def)
    then have "cnt is_reader T = 0" using g assms(2) by (auto simp: good_def counts_ok_def)
    then have "cnt is_pinned T = 0" using pinned_le_readers [of T] by simp
    ultimately show ?thesis by (auto simp: state_of)
  qed
  then show ?thesis using safe_stay [OF assms(1) _ w] assms(4) True by auto
next
  case False
  have "hd_metadata h' = hd_metadata h" using assms(3) by (auto simp: release_reader_for_guard_def)
  then show ?thesis using safe_leave [OF assms(1)] assms(4) False by simp
qed

lemma safe_claim:
  assumes "safe sp (World h (add_mset (ClaimRelease i True) T) q i)" and "pin_ok sp (World h (add_mset (CasRelease i w) T) q i)"
  shows "safe sp (World h (add_mset (CasRelease i w) T) q i)"
  by (rule safe_stay [OF assms]) simp_all

lemma safe_won:
  assumes "safe sp (World h (add_mset (CasRelease j w) T) q i)" and c: "cas_condemned w h = (True, h')" and "i < j + 256"
    and ok: "pin_ok sp (World h' (add_mset Bumping T) q (Suc i))"
  shows "safe sp (World h' (add_mset Bumping T) q (Suc i))"
proof -
  obtain m where m: "good sp h m (add_mset (CasRelease j w) T) q i" "holds h m"
    "points_ok (md_state m) i (add_mset (CasRelease j w) T)" using assms(1) by (rule safeE)
  have j: "condemned_in j w" "j \<le> i" "casers_ok T i" using m(1) by (simp_all add: good_def handoff_ok_def)
  have w: "hd_metadata h = w" and h': "holds h' \<lparr>md_next = None, md_prev = None, md_state = Free, md_tag = 0\<rparr>"
    using cas_condemned_cases [OF c] by (simp_all split: if_splits)
  have "md_state m = AwaitingRelease" "md_tag m = of_nat j" using condemned_in_held [OF m(2), of j] w j(1) by simp_all
  then have "(of_nat i :: u8) = of_nat j" using m(1) by (simp add: good_def handoff_ok_def)
  then have "i = j" using tag_inj j(2) assms(3) by blast
  then have "cnt is_pinned T = 0" using m(3) by (simp add: points_ok_def)
  then have "points_ok Free (Suc i) T" using points_end [OF points_remove [OF m(3)]] j(3) by blast
  then show ?thesis using safeI [OF ok h'] by (simp add: points_add)
qed

lemma reader_step_safe:
  assumes "reader_step True w w'" and "safe sp w"
  shows "safe sp w'"
proof -
  have ok: "pin_ok sp w'" using reader_step_ok [OF assms(1) safe_ok [OF assms(2)]] .
  from assms(1) show ?thesis
  proof cases
    case (read_check h s T q i)
    then show ?thesis using safe_enter assms(2) ok by simp
  next
    case (read_count h T q i)
    then show ?thesis using safe_idle [of sp h ReadChecked T q i "ref_count_incr h" ReadCounted q] assms(2) ok
      by (simp add: ref_count_incr_def)
  next
    case (read_pinned h s T q i)
    then show ?thesis using safe_pinned assms(2) ok by blast
  next
    case (read_refused h s T q i)
    then show ?thesis using safe_idle [of sp h ReadCounted T q i h ReadBackout q] assms(2) ok by simp
  next
    case (read_release p j h prev h' T q i)
    then show ?thesis using safe_release assms(2) ok by blast
  next
    case (claim_not_condemned h j c T q i)
    then show ?thesis using safe_leave assms(2) ok by blast
  next
    case (claim_condemned h u c j i T q)
    then show ?thesis using safe_claim [of sp h i T q u] assms(2) ok by simp
  next
    case (release_won w h h' i j T q)
    then show ?thesis using safe_won assms(2) ok by blast
  next
    case (release_lost w h h' j T q i)
    then have "h' = h" using cas_condemned_cases by (metis (full_types))
    then show ?thesis using release_lost safe_leave assms(2) ok by blast
  next
    case (freed_bump h T q i)
    then show ?thesis using safe_idle [of sp h Bumping T q i "bump_generation h" Freed q] assms(2) ok
      by (simp add: bump_generation_def)
  next
    case (freed_push h T q i integrity gauges)
    then show ?thesis using safe_leave [of sp h Freed T q i] assms(2) ok by simp
  qed
qed

lemma writer_step_safe:
  assumes "writer_step w w'" and "safe sp w"
  shows "safe sp w'"
proof -
  have ok: "pin_ok sp w'" using writer_step_ok [OF assms(1) safe_ok [OF assms(2)]] .
  from assms(1) show ?thesis
  proof cases
    case (write_count h T q i)
    then show ?thesis using safe_idle [of sp h WriteChecked T q i _ WriteCounted q] assms(2) ok by simp
  next
    case (remove_count h T q i)
    then show ?thesis using safe_idle [of sp h RemoveChecked T q i _ RemoveCounted q] assms(2) ok by simp
  next
    case (write_release p h T q i)
    then show ?thesis using safe_leave [of sp h p T q i] assms(2) ok by (simp add: release_writer_def)
  next
    case (remove_release p h T q i)
    then show ?thesis using safe_leave [of sp h p T q i] assms(2) ok by (simp add: release_remover_def)
  next
    case (write_pinned h s T q i)
    then show ?thesis using safe_idle [of sp h WriteCounted T q i h WritePinned q] assms(2) ok by simp
  next
    case (write_refused h s T q i)
    then show ?thesis using safe_idle [of sp h WriteCounted T q i h WriteBackout q] assms(2) ok by simp
  next
    case (remove_pinned h s T q i)
    then show ?thesis using safe_idle [of sp h RemoveCounted T q i h RemovePinned q] assms(2) ok by simp
  next
    case (remove_refused h s T q i)
    then show ?thesis using safe_idle [of sp h RemoveCounted T q i h RemoveBackout q] assms(2) ok by simp
  qed (use safe_enter assms(2) ok in simp_all)
qed

text \<open>A step that moves the word from one state to another.\<close>

lemma safe_move:
  assumes "safe sp (World h T q i)" and "pin_ok sp (World h' T' q' i)" and "header_state h = Some s" and "holds h' m'"
    and "s \<noteq> AwaitingRelease" and "pinnable s \<Longrightarrow> pinnable (md_state m')"
    and "\<And>s'. points_ok s' i T \<Longrightarrow> points_ok s' i T'"
  shows "safe sp (World h' T' q' i)"
proof -
  obtain m where m: "holds h m" "points_ok (md_state m) i T" using assms(1) by (rule safeE)
  then have "s = md_state m" using assms(3) by (simp add: state_of)
  then show ?thesis using points_state [OF m(2)] assms(2,4-7) by (blast intro: safeI)
qed

text \<open>The state a won transition leaves and the one it reaches.\<close>

lemma cas_metadata_states:
  assumes "safe sp (World h T q i)" and "cas_metadata e n nn np h = Some (True, h')"
    and "\<And>l. nn = Some l \<Longrightarrow> link_ok l" "\<And>l. np = Some l \<Longrightarrow> link_ok l"
  obtains m' where "header_state h = Some e" "holds h' m'" "md_state m' = n"
proof -
  obtain m where m: "holds h m" using assms(1) by (rule safeE)
  show ?thesis by (rule cas_metadata_won [OF assms(2) m assms(3,4)]) (use that m in \<open>auto simp: holds_state\<close>)
qed

lemma safe_cas:
  assumes "safe sp (World h T q i)" and "cas_metadata e n nn np h = Some (True, h')"
    and "\<And>l. nn = Some l \<Longrightarrow> link_ok l" "\<And>l. np = Some l \<Longrightarrow> link_ok l"
    and "pin_ok sp (World h' T' q' i)" and "e \<noteq> AwaitingRelease" and "pinnable e \<Longrightarrow> pinnable n"
    and "\<And>s'. points_ok s' i T \<Longrightarrow> points_ok s' i T'"
  shows "safe sp (World h' T' q' i)"
proof -
  obtain m' where m': "header_state h = Some e" "holds h' m'" "md_state m' = n"
    using cas_metadata_states [OF assms(1-4)] .
  show ?thesis by (rule safe_move [OF assms(1,5) m'(1,2) assms(6)]) (use m'(3) assms(7,8) in simp_all)
qed

lemma points_idle:
  "points_ok s i T \<Longrightarrow> \<not> is_pinned p \<Longrightarrow> (\<And>n. point_ok s i n p) \<Longrightarrow> points_ok s i (add_mset p T)"
  by (rule points_add)

lemma safe_recycle:
  assumes "safe sp (World h (add_mset Recycling T) q i)" and ok: "pin_ok sp (World h' (add_mset Bumping T) q (Suc i))"
  shows "safe sp (World h' (add_mset Bumping T) q (Suc i))"
proof -
  obtain m where m: "good sp h m (add_mset Recycling T) q i" "points_ok (md_state m) i (add_mset Recycling T)"
    using assms(1) by (rule safeE)
  obtain m' where m': "good sp h' m' (add_mset Bumping T) q (Suc i)" using ok by (rule pin_okE)
  have "cnt is_pinned T = 0" using m(2) by (simp add: points_ok_def)
  moreover have "casers_ok T i" using m(1) by (simp add: good_def handoff_ok_def)
  ultimately have "points_ok (md_state m') (Suc i) T" using points_end [OF points_remove [OF m(2)]] by blast
  then show ?thesis using safeI [OF ok, of m'] m' by (simp add: good_def points_add)
qed

lemma safe_condemn:
  assumes "safe sp (World h (add_mset Condemning T) q i)" and c: "cas_condemn (reset_pool h) = Some (True, h')"
    and "pin_ok sp (World h' (add_mset Rechecking T) q i)"
  shows "safe sp (World h' (add_mset Rechecking T) q i)"
proof -
  obtain m where m: "holds h m" using assms(1) by (rule safeE)
  then have "holds (reset_pool h) m" by simp
  from cas_condemn_eval [OF this] c obtain t where s: "md_state m = Draining"
    and h': "holds h' \<lparr>md_next = None, md_prev = None, md_state = AwaitingRelease, md_tag = t\<rparr>"
    by (auto simp: holds_def split: if_splits)
  show ?thesis
    by (rule safe_move [OF assms(1,3) holds_state [OF m] h'])
       (use s in \<open>auto simp: pinnable_def intro: points_idle points_remove\<close>)
qed

lemma safe_recheck:
  assumes "safe sp (World h (add_mset Rechecking T) q i)" and "hd_ref_count h = 0"
    and "pin_ok sp (World h (add_mset (ClaimRelease i (header_state h = Some AwaitingRelease)) T) q i)"
  shows "safe sp (World h (add_mset (ClaimRelease i (header_state h = Some AwaitingRelease)) T) q i)"
proof (rule safe_stay [OF assms(1,3)])
  fix m
  assume g: "good sp h m (add_mset Rechecking T) q i"
  then have "holds h m" by (simp add: good_def)
  then show "point_ok (md_state m) i (cnt is_pinned T) (ClaimRelease i (header_state h = Some AwaitingRelease))"
    using no_readers [OF g assms(2)] by (auto simp: state_of)
qed simp_all

lemma drain_step_safe:
  assumes "drain_step w w'" and "safe sp w"
  shows "safe sp w'"
proof -
  have ok: "pin_ok sp w'" using drain_step_ok [OF assms(1) safe_ok [OF assms(2)]] .
  from assms(1) show ?thesis
  proof cases
    case (drain_claim s h h' T q i)
    show ?thesis unfolding drain_claim(2)
      by (rule safe_cas [OF assms(2) [unfolded drain_claim(1)] drain_claim(4)])
         (use drain_claim assms(2) ok in \<open>auto simp: pinnable_def intro: points_idle\<close>)
  next
    case (drain_writers h T q i)
    then show ?thesis using safe_idle [of sp h Claimed T q i h WritersGone q] assms(2) ok by simp
  next
    case (drain_removers h T q i)
    then show ?thesis using safe_idle [of sp h WritersGone T q i h Quiet q] assms(2) ok by simp
  next
    case (drain_unpinned h T q i)
    then show ?thesis using safe_stay [of sp h Quiet T q i h Recycling q] no_readers [of sp h _ "add_mset Quiet T" q i] assms(2) ok
      by simp
  next
    case (drain_pinned h T q i)
    then show ?thesis using safe_idle [of sp h Quiet T q i h Condemning q] assms(2) ok by simp
  next
    case (drain_recycle integrity h gauges h' T q i)
    then show ?thesis using safe_recycle assms(2) ok by blast
  next
    case (drain_condemn h h' T q i)
    then show ?thesis using safe_condemn assms(2) ok by blast
  next
    case (recheck_zero h T q i)
    then show ?thesis using safe_recheck assms(2) ok by blast
  next
    case (recheck_pinned h T q i)
    then show ?thesis using safe_leave assms(2) ok by blast
  qed
qed

lemma safe_reserve:
  assumes "safe sp (World h T (Suc q) i)" and r: "try_reserve integrity now (h, gauges) = Some (True, h', gauges')"
    and "pin_ok sp (World h' (add_mset Tenant T) q i)"
  shows "safe sp (World h' (add_mset Tenant T) q i)"
proof -
  obtain m where m: "holds h m" using assms(1) by (rule safeE)
  obtain t where "md_state m = Free" "holds h' \<lparr>md_next = None, md_prev = None, md_state = Reserved, md_tag = t\<rparr>"
    using r by (auto simp: try_reserve_def cas_metadata_eval [OF m] mark_merged_def mark_created_def split_beta
        Let_def holds_def split: if_splits)
  then show ?thesis using safe_move [OF assms(1,3), of Free] holds_state [OF m] by (simp add: pinnable_def points_add)
qed

lemma safe_give_back:
  assumes "safe sp (World h (add_mset Tenant T) q i)" and r: "try_release h = Some (True, h')"
    and "pin_ok sp (World h' (add_mset Freed T) q i)"
  shows "safe sp (World h' (add_mset Freed T) q i)"
proof -
  obtain m where m: "holds h m" using assms(1) by (rule safeE)
  obtain t where s: "md_state m = Reserved \<or> md_state m = Linking"
    and h': "holds h' \<lparr>md_next = None, md_prev = None, md_state = Free, md_tag = t\<rparr>"
    using r by (auto simp: try_release_def cas_metadata_eval [OF m] holds_def split: if_splits)
  show ?thesis
    by (rule safe_move [OF assms(1,3) holds_state [OF m] h'])
       (use s in \<open>auto simp: pinnable_def intro: points_idle points_remove\<close>)
qed

lemma safe_patch:
  assumes "safe sp (World h T q i)" and u: "update_links nn np h = Some h'" and ok: "pin_ok sp (World h' T q i)"
    and l: "\<And>l. nn = Some l \<Longrightarrow> link_ok l" "\<And>l. np = Some l \<Longrightarrow> link_ok l"
  shows "safe sp (World h' T q i)"
proof -
  obtain m where m: "holds h m" "points_ok (md_state m) i T" using assms(1) by (rule safeE)
  from update_links_holds [OF m(1) u l] obtain m' where "holds h' m'" "md_state m' = md_state m" by blast
  then show ?thesis using safeI [OF ok] m(2) by simp
qed

lemma tenant_step_safe:
  assumes "tenant_step sp w w'" and "safe sp w"
  shows "safe sp w'"
proof -
  have ok: "pin_ok sp w'" using tenant_step_ok [OF assms(1) safe_ok [OF assms(2)]] .
  from assms(1) show ?thesis
  proof cases
    case (reserve integrity now h gauges h' gauges' T q i)
    then show ?thesis using safe_reserve assms(2) ok by blast
  next
    case (link "next" prev h h' T q i)
    show ?thesis unfolding link(2)
      by (rule safe_cas [OF assms(2) [unfolded link(1)] link(3)]) (use link assms(2) ok in \<open>auto simp: pinnable_def\<close>)
  next
    case (publish_tail h h' T q i)
    show ?thesis unfolding publish_tail(2)
      by (rule safe_cas [OF assms(2) [unfolded publish_tail(1)] publish_tail(3)])
         (use publish_tail assms(2) ok in \<open>auto simp: pinnable_def intro: points_remove\<close>)
  next
    case (publish_dest h h' T q i)
    show ?thesis unfolding publish_dest(2)
      by (rule safe_cas [OF assms(2) [unfolded publish_dest(1)] publish_dest(3)])
         (use publish_dest assms(2) ok in \<open>auto simp: pinnable_def intro: points_idle points_remove\<close>)
  next
    case (seal_dest h h' T q i)
    show ?thesis unfolding seal_dest(2)
      by (rule safe_cas [OF assms(2) [unfolded seal_dest(1)] seal_dest(3)])
         (use seal_dest assms(2) ok in \<open>auto simp: pinnable_def intro: points_remove\<close>)
  next
    case (give_back h h' T q i)
    then show ?thesis using safe_give_back assms(2) ok by blast
  next
    case (seal_tail "next" h h' T q i)
    show ?thesis unfolding seal_tail(2)
      by (rule safe_cas [OF assms(2) [unfolded seal_tail(1)] seal_tail(3)]) (use seal_tail assms(2) ok in \<open>auto simp: pinnable_def\<close>)
  next
    case (patch_links nn np h h' s T q i)
    then show ?thesis using safe_patch assms(2) ok by blast
  qed
qed

lemma pin_init_safe: "pin_init w \<Longrightarrow> safe sp w"
  using safeI [OF _ header_new_holds] pin_init_ok [of w] by (auto simp: pin_init_def points_ok_def)

interpretation safe_pins: invariant_system pin_init "pin_step sp True" "safe sp" for sp
  by unfold_locales
     (auto simp: pin_step_def intro: pin_init_safe reader_step_safe writer_step_safe drain_step_safe tenant_step_safe)

section \<open>Progress of a condemned segment\<close>

text \<open>The threads that hold a condemned segment can leave it, and the last of them frees it.\<close>

definition reclaimable :: "pin_world \<Rightarrow> bool" where
  "reclaimable w \<longleftrightarrow> (\<exists>h T i. (pin_step False False)\<^sup>*\<^sup>* w (World h T 1 i) \<and> header_state h = Some Free)"

lemma reclaimable_step: "pin_step False False w w' \<Longrightarrow> reclaimable w' \<Longrightarrow> reclaimable w"
  unfolding reclaimable_def by (meson converse_rtranclp_into_rtranclp)

lemma good_condemned:
  "good sp h m T q i \<Longrightarrow> md_state m = AwaitingRelease \<Longrightarrow> q = 0 \<and> header_state h = Some AwaitingRelease"
  by (auto simp: good_def owners_ok_def holds_state)

lemma reclaim_freed:
  assumes "header_state h = Some Free"
  shows "reclaimable (World h (add_mset Freed T) 0 i)"
proof -
  have "pin_step False False (World h (add_mset Freed T) 0 i) (World (fst (reset_write_stats False (h, undefined))) T (Suc 0) i)"
    unfolding pin_step_def by (intro disjI1 reader_step.freed_push)
  moreover have "header_state (fst (reset_write_stats False (h, undefined))) = Some Free"
    using assms by (simp add: header_state_def header_metadata_def)
  ultimately show ?thesis unfolding reclaimable_def by (metis One_nat_def r_into_rtranclp)
qed

lemma reclaim_bump:
  assumes "header_state h = Some Free"
  shows "reclaimable (World h (add_mset Bumping T) 0 i)"
proof -
  have "pin_step False False (World h (add_mset Bumping T) 0 i) (World (bump_generation h) (add_mset Freed T) 0 i)"
    unfolding pin_step_def by (intro disjI1 reader_step.freed_bump)
  moreover have "header_state (bump_generation h) = Some Free"
    using assms by (simp add: header_state_def header_metadata_def bump_generation_def)
  ultimately show ?thesis using reclaim_freed by (blast intro: reclaimable_step)
qed

lemma reclaim_cas:
  assumes "hd_metadata h = w"
  shows "reclaimable (World h (add_mset (CasRelease j w) T) 0 i)"
proof -
  obtain r h' where c: "cas_condemned w h = (r, h')" by fastforce
  then have "r" and h': "header_state h' = Some Free"
    using cas_condemned_cases [OF c] assms holds_state by fastforce+
  then have "pin_step False False (World h (add_mset (CasRelease j w) T) 0 i) (World h' (add_mset Bumping T) 0 (Suc i))"
    using c unfolding pin_step_def by (intro disjI1 reader_step.release_won) simp_all
  then show ?thesis using reclaim_bump [OF h'] by (rule reclaimable_step)
qed

lemma reclaim_claim:
  assumes "good False h m T' q i" and "md_state m = AwaitingRelease"
  shows "reclaimable (World h (add_mset (ClaimRelease j c) T) 0 i)"
proof -
  have "holds h m" using assms(1) by (simp add: good_def)
  then have "load_condemned h = Some (Some (hd_metadata h))" using assms(2) by (simp add: load_condemned_eval)
  then have "pin_step False False (World h (add_mset (ClaimRelease j c) T) 0 i) (World h (add_mset (CasRelease i (hd_metadata h)) T) 0 i)"
    unfolding pin_step_def by (intro disjI1 reader_step.claim_condemned) simp_all
  then show ?thesis by (rule reclaimable_step) (simp add: reclaim_cas)
qed

lemma reclaim_last:
  assumes g: "good False h m T 0 i" and s: "md_state m = AwaitingRelease" and "cnt is_reader T = 0"
  shows "reclaimable (World h T 0 i)"
proof -
  have "0 < cnt (is_claimant (hd_metadata h)) T" using g s assms(3) by (simp add: good_def awaited_def)
  then obtain p where p: "p \<in># T" "is_claimant (hd_metadata h) p" using cnt_0_iff [of "is_claimant (hd_metadata h)" T] by auto
  then obtain T' where T: "T = add_mset p T'" by (metis mset_add)
  have z: "hd_ref_count h = 0" using g assms(3) by (simp add: good_def counts_ok_def unat_eq_0)
  from p(2) consider "p = Rechecking" | j c where "p = ClaimRelease j c" | j where "p = CasRelease j (hd_metadata h)"
    by (cases p) auto
  then show ?thesis
  proof cases
    case 1
    have "pin_step False False (World h T 0 i) (World h (add_mset (ClaimRelease i (header_state h = Some AwaitingRelease)) T') 0 i)"
      unfolding pin_step_def T 1 by (intro disjI2 disjI1 drain_step.recheck_zero z)
    then show ?thesis using reclaim_claim [OF g s] by (rule reclaimable_step)
  next
    case 2
    then show ?thesis using reclaim_claim [OF g s] T by simp
  next
    case 3
    then show ?thesis using reclaim_cas T by simp
  qed
qed

lemma reclaim:
  "good False h m T 0 i \<Longrightarrow> md_state m = AwaitingRelease \<Longrightarrow> cnt is_reader T = n \<Longrightarrow> reclaimable (World h T 0 i)"
proof (induction n arbitrary: h T)
  case 0
  then show ?case using reclaim_last by blast
next
  case (Suc n)
  have st: "header_state h = Some AwaitingRelease" using good_condemned [OF Suc.prems(1,2)] by blast
  have leave: "reclaimable (World h (add_mset p U) 0 i)"
    if g: "good False h m (add_mset p U) 0 i" and p: "p = ReadBackout \<or> p = ReadPinned j" and n: "cnt is_reader U = n" for p j U
  proof -
    obtain prev h' where r: "release_reader_for_guard h = (prev, h')" by fastforce
    let ?U = "if prev = 1 then add_mset (ClaimRelease i (header_state h = Some AwaitingRelease)) U else U"
    have "pin_step False False (World h (add_mset p U) 0 i) (World h' ?U 0 i)"
      unfolding pin_step_def using reader_step.read_release [OF p r] by blast
    moreover have "reclaimable (World h' ?U 0 i)"
      using Suc.IH [OF good_read_release [OF g p r] Suc.prems(2)] n by simp
    ultimately show ?thesis by (rule reclaimable_step)
  qed
  have "0 < cnt is_reader T" using Suc.prems(3) by simp
  then obtain p where p: "p \<in># T" "is_reader p" using cnt_0_iff [of is_reader T] by auto
  then obtain U where T: "T = add_mset p U" by (metis mset_add)
  have n: "cnt is_reader U = n" using Suc.prems(3) p(2) T by simp
  from p(2) consider "p = ReadCounted" | j where "p = ReadBackout \<or> p = ReadPinned j" by (cases p) auto
  then show ?case
  proof cases
    case 1
    have "pin_step False False (World h T 0 i) (World h (add_mset ReadBackout U) 0 i)"
      unfolding pin_step_def T 1 by (intro disjI1 reader_step.read_refused [OF st]) simp
    moreover have "good False h m (add_mset ReadBackout U) 0 i" using Suc.prems(1) T 1 good_read_recheck(2) by simp
    ultimately show ?thesis using leave [of ReadBackout U] n by (blast intro: reclaimable_step)
  next
    case 2
    then show ?thesis using leave [of p U j] Suc.prems(1) T n by simp
  qed
qed

section \<open>An execution with a stalled release\<close>

text \<open>The header of the execution: the state, the reader count and the generation vary.\<close>

definition trace_header :: "seg_state \<Rightarrow> u32 \<Rightarrow> u16 \<Rightarrow> seg_header" where
  "trace_header s readers gen = (header_new False 0 1)
     \<lparr>hd_metadata := metadata_pack \<lparr>md_next = None, md_prev = None, md_state = s, md_tag = 0\<rparr>,
      hd_ref_count := readers, hd_generation := gen\<rparr>"

lemma trace_holds: "holds (trace_header s n g) \<lparr>md_next = None, md_prev = None, md_state = s, md_tag = 0\<rparr>"
  by (simp add: holds_def trace_header_def)

lemma trace_state [simp]: "header_state (trace_header s n g) = Some s"
  using holds_state [OF trace_holds] by simp

lemma trace_cas: "nn \<in> {None, Some None} \<Longrightarrow> np \<in> {None, Some None} \<Longrightarrow>
    cas_metadata s s' nn np (trace_header s n g) = Some (True, trace_header s' n g)"
  by (auto simp: cas_metadata_eval [OF trace_holds]) (auto simp: trace_header_def)

lemma trace_reset: "reset_write_stats False (trace_header s n g, ga) = (trace_header s n g, ga)"
  by (simp add: reset_write_stats_def trace_header_def header_new_def initial_offset_def)

lemma trace_pool: "reset_pool (trace_header s n g) = trace_header s n g"
  by (simp add: reset_pool_def trace_header_def header_new_def)

lemma trace_reserve: "try_reserve False 0 (trace_header Free n g, ga) = Some (True, trace_header Reserved n g, ga)"
  by (simp add: try_reserve_def trace_cas trace_reset)
     (simp add: mark_merged_def mark_created_def trace_header_def header_new_def)

lemma trace_counts [simp]:
  "ref_count_incr (trace_header s n g) = trace_header s (n + 1) g"
  "release_reader_for_guard (trace_header s n g) = (n, trace_header s (n - 1) g)"
  "hd_ref_count (trace_header s n g) = n" "hd_active_writers (trace_header s n g) = 0"
  "hd_active_removers (trace_header s n g) = 0"
  by (simp_all add: ref_count_incr_def release_reader_for_guard_def trace_header_def header_new_def)

lemma trace_condemn: "cas_condemn (trace_header Draining n 0) = Some (True, trace_header AwaitingRelease n 0)"
  by (simp add: cas_condemn_eval [OF trace_holds]) (simp add: trace_header_def)

lemma trace_release:
  "load_condemned (trace_header AwaitingRelease n g) = Some (Some (hd_metadata (trace_header AwaitingRelease n g)))"
  "cas_condemned (hd_metadata (trace_header AwaitingRelease n g)) (trace_header AwaitingRelease n g)
     = (True, trace_header Free n g)"
  "bump_generation (trace_header s n g) = trace_header s n (g + 1)"
  by (simp_all add: load_condemned_eval [OF trace_holds] cas_condemned_def cas_word_same bump_generation_def)
     (simp_all add: trace_header_def)

abbreviation trace_steps :: "bool \<Rightarrow> bool \<Rightarrow> pin_world \<Rightarrow> pin_world \<Rightarrow> bool" where
  "trace_steps sp fresh \<equiv> (pin_step sp fresh)\<^sup>*\<^sup>*"

lemma trace_then: "trace_steps sp fresh w w' \<Longrightarrow> pin_step sp fresh w' w'' \<Longrightarrow> trace_steps sp fresh w w''"
  by (rule rtranclp.rtrancl_into_rtrancl)

lemmas stepI = pin_step_def [THEN iffD2, OF disjI1] pin_step_def [THEN iffD2, OF disjI2, OF disjI1]
  pin_step_def [THEN iffD2, OF disjI2, OF disjI2, OF disjI1] pin_step_def [THEN iffD2, OF disjI2, OF disjI2, OF disjI2]

text \<open>The segment is reserved, published and sealed.\<close>

lemma trace_setup: "trace_steps sp fresh (World (header_new False 0 1) {#} 1 0) (World (trace_header Sealed 0 0) {#} 0 0)"
proof -
  let ?w = "World (header_new False 0 1) {#} 1 0"
  have "header_new False 0 1 = trace_header Free 0 0"
    by (simp add: trace_header_def header_new_def metadata_new_free_def)
  then have "trace_steps sp fresh ?w (World (trace_header Free 0 0) {#} (Suc 0) 0)" by simp
  moreover have "pin_step sp fresh (World (trace_header Free 0 0) {#} (Suc 0) 0) (World (trace_header Reserved 0 0) {#Tenant#} 0 0)"
    by (intro stepI(4) tenant_step.reserve [OF trace_reserve]) simp
  ultimately have "trace_steps sp fresh ?w (World (trace_header Reserved 0 0) {#Tenant#} 0 0)" by (rule trace_then)
  moreover have "pin_step sp fresh (World (trace_header Reserved 0 0) {#Tenant#} 0 0) (World (trace_header Linking 0 0) {#Tenant#} 0 0)"
    by (intro stepI(4) tenant_step.link [of None None]) (simp_all add: trace_cas)
  ultimately have "trace_steps sp fresh ?w (World (trace_header Linking 0 0) {#Tenant#} 0 0)" by (rule trace_then)
  moreover have "pin_step sp fresh (World (trace_header Linking 0 0) {#Tenant#} 0 0) (World (trace_header Live 0 0) {#} 0 0)"
    by (intro stepI(4) tenant_step.publish_tail) (simp add: trace_cas)
  ultimately have "trace_steps sp fresh ?w (World (trace_header Live 0 0) {#} 0 0)" by (rule trace_then)
  moreover have "pin_step sp fresh (World (trace_header Live 0 0) {#} 0 0) (World (trace_header Sealed 0 0) {#} 0 0)"
    by (intro stepI(4) tenant_step.seal_tail [of None]) (simp_all add: trace_cas)
  ultimately show ?thesis by (rule trace_then)
qed

text \<open>A reader pins a sealed segment, whoever else is there.\<close>

lemma trace_pin:
  assumes "room T"
  shows "trace_steps sp fresh (World (trace_header Sealed 0 0) T 0 0) (World (trace_header Sealed 1 0) (add_mset (ReadPinned 0) T) 0 0)"
proof -
  let ?w = "World (trace_header Sealed 0 0) T 0 0"
  have "pin_step sp fresh ?w (World (trace_header Sealed 0 0) (add_mset ReadChecked T) 0 0)"
    using assms by (intro stepI(1) reader_step.read_check [where s = Sealed]) simp_all
  then have "trace_steps sp fresh ?w (World (trace_header Sealed 0 0) (add_mset ReadChecked T) 0 0)" by (rule r_into_rtranclp)
  moreover have "pin_step sp fresh (World (trace_header Sealed 0 0) (add_mset ReadChecked T) 0 0)
     (World (trace_header Sealed 1 0) (add_mset ReadCounted T) 0 0)"
    using stepI(1) [OF reader_step.read_count [of fresh "trace_header Sealed 0 0" T 0 0]] by simp
  ultimately have "trace_steps sp fresh ?w (World (trace_header Sealed 1 0) (add_mset ReadCounted T) 0 0)" by (rule trace_then)
  moreover have "pin_step sp fresh (World (trace_header Sealed 1 0) (add_mset ReadCounted T) 0 0)
     (World (trace_header Sealed 1 0) (add_mset (ReadPinned 0) T) 0 0)"
    by (intro stepI(1) reader_step.read_pinned [where s = Sealed]) simp_all
  ultimately show ?thesis by (rule trace_then)
qed

text \<open>A drain claims the segment, finds it pinned and condemns it.\<close>

lemma trace_condemned:
  assumes "room T"
  shows "trace_steps sp False (World (trace_header Sealed 1 0) T 0 0) (World (trace_header AwaitingRelease 1 0) T 0 0)"
proof -
  let ?w = "World (trace_header Sealed 1 0) T 0 0"
  let ?d = "\<lambda>p. World (trace_header Draining 1 0) (add_mset p T) 0 0"
  have "pin_step sp False ?w (?d Claimed)"
    using assms by (intro stepI(3) drain_step.drain_claim [where s = Sealed]) (simp_all add: trace_cas)
  then have "trace_steps sp False ?w (?d Claimed)" by (rule r_into_rtranclp)
  moreover have "pin_step sp False (?d Claimed) (?d WritersGone)" by (intro stepI(3) drain_step.drain_writers) simp
  ultimately have "trace_steps sp False ?w (?d WritersGone)" by (rule trace_then)
  moreover have "pin_step sp False (?d WritersGone) (?d Quiet)" by (intro stepI(3) drain_step.drain_removers) simp
  ultimately have "trace_steps sp False ?w (?d Quiet)" by (rule trace_then)
  moreover have "pin_step sp False (?d Quiet) (?d Condemning)" by (intro stepI(3) drain_step.drain_pinned) simp
  ultimately have "trace_steps sp False ?w (?d Condemning)" by (rule trace_then)
  moreover have "pin_step sp False (?d Condemning) (World (trace_header AwaitingRelease 1 0) (add_mset Rechecking T) 0 0)"
    by (intro stepI(3) drain_step.drain_condemn) (simp add: trace_pool trace_condemn)
  ultimately have "trace_steps sp False ?w (World (trace_header AwaitingRelease 1 0) (add_mset Rechecking T) 0 0)" by (rule trace_then)
  moreover have "pin_step sp False (World (trace_header AwaitingRelease 1 0) (add_mset Rechecking T) 0 0)
      (World (trace_header AwaitingRelease 1 0) T 0 0)"
    by (intro stepI(3) drain_step.recheck_pinned) simp
  ultimately show ?thesis by (rule trace_then)
qed

text \<open>The stalled thread wakes up, finds the segment condemned and frees it.\<close>

lemma trace_freed:
  "trace_steps sp False (World (trace_header AwaitingRelease 1 0) (add_mset (ClaimRelease 0 False) T) 0 0) (World (trace_header Free 1 1) T 1 1)"
proof -
  let ?w = "World (trace_header AwaitingRelease 1 0) (add_mset (ClaimRelease 0 False) T) 0 0"
  let ?c = "World (trace_header AwaitingRelease 1 0) (add_mset (CasRelease 0 (hd_metadata (trace_header AwaitingRelease 1 0))) T) 0 0"
  have "pin_step sp False ?w ?c" by (intro stepI(1) reader_step.claim_condemned) (simp_all add: trace_release)
  then have "trace_steps sp False ?w ?c" by (rule r_into_rtranclp)
  moreover have "pin_step sp False ?c (World (trace_header Free 1 0) (add_mset Bumping T) 0 (Suc 0))"
    by (intro stepI(1) reader_step.release_won) (simp_all add: trace_release)
  ultimately have "trace_steps sp False ?w (World (trace_header Free 1 0) (add_mset Bumping T) 0 (Suc 0))" by (rule trace_then)
  moreover have "pin_step sp False (World (trace_header Free 1 0) (add_mset Bumping T) 0 (Suc 0))
      (World (trace_header Free 1 1) (add_mset Freed T) 0 (Suc 0))"
    using stepI(1) [OF reader_step.freed_bump [of False "trace_header Free 1 0" T 0 "Suc 0"]] by (simp add: trace_release)
  ultimately have "trace_steps sp False ?w (World (trace_header Free 1 1) (add_mset Freed T) 0 (Suc 0))" by (rule trace_then)
  moreover have "pin_step sp False (World (trace_header Free 1 1) (add_mset Freed T) 0 (Suc 0))
      (World (trace_header Free 1 1) T (Suc 0) (Suc 0))"
    using stepI(1) [OF reader_step.freed_push [of False "trace_header Free 1 1" T 0 "Suc 0" False]] by (simp add: trace_reset)
  ultimately show ?thesis using trace_then by fastforce
qed

lemma trace_stall:
  "trace_steps sp False (World (trace_header Sealed 1 0) {#ReadPinned 0#} 0 0) (World (trace_header Sealed 0 0) {#ClaimRelease 0 False#} 0 0)"
proof -
  have "pin_step sp False (World (trace_header Sealed 1 0) {#ReadPinned 0#} 0 0) (World (trace_header Sealed 0 0) {#ClaimRelease 0 False#} 0 0)"
    using stepI(1) [OF reader_step.read_release [of "ReadPinned 0" 0 "trace_header Sealed 1 0" 1 "trace_header Sealed 0 0" False "{#}" 0 0]]
    by simp
  then show ?thesis by (rule r_into_rtranclp)
qed

section \<open>An execution with a splice\<close>

text \<open>A condemned segment with a link to its neighbour, patched while the last reader is between its load and its exchange.\<close>

definition spliced_header :: seg_header where
  "spliced_header = (trace_header AwaitingRelease 0 0)
     \<lparr>hd_metadata := metadata_pack \<lparr>md_next = Some 2, md_prev = None, md_state = AwaitingRelease, md_tag = 0\<rparr>\<rparr>"

lemma spliced_holds: "holds spliced_header \<lparr>md_next = Some 2, md_prev = None, md_state = AwaitingRelease, md_tag = 0\<rparr>"
  by (simp add: holds_def spliced_header_def metadata_ok_def link_ok_def)

lemma spliced_state: "header_state spliced_header = Some AwaitingRelease"
  using holds_state [OF spliced_holds] by simp

lemma trace_spliced:
  "trace_steps True False (World (trace_header AwaitingRelease 1 0) {#ReadPinned 0#} 0 0) (World spliced_header {#} 0 0)"
proof -
  let ?w = "World (trace_header AwaitingRelease 1 0) {#ReadPinned 0#} 0 0" and ?a = "trace_header AwaitingRelease 0 0"
  let ?c = "CasRelease 0 (hd_metadata ?a)"
  have "pin_step True False ?w (World ?a {#ClaimRelease 0 True#} 0 0)"
    using stepI(1) [OF reader_step.read_release [of "ReadPinned 0" 0 "trace_header AwaitingRelease 1 0" 1 ?a False "{#}" 0 0]] by simp
  then have "trace_steps True False ?w (World ?a {#ClaimRelease 0 True#} 0 0)" by (rule r_into_rtranclp)
  moreover have "pin_step True False (World ?a {#ClaimRelease 0 True#} 0 0) (World ?a {#?c#} 0 0)"
    by (intro stepI(1) reader_step.claim_condemned) (simp_all add: trace_release)
  ultimately have "trace_steps True False ?w (World ?a {#?c#} 0 0)" by (rule trace_then)
  moreover have "update_links (Some (Some 2)) None ?a = Some spliced_header"
    by (simp add: update_links_def holds_unpack [OF trace_holds] cas_word_same spliced_header_def)
  then have "pin_step True False (World ?a {#?c#} 0 0) (World spliced_header {#?c#} 0 0)"
    by (intro stepI(4) tenant_step.patch_links [where s = AwaitingRelease]) (auto simp: link_ok_def)
  ultimately have "trace_steps True False ?w (World spliced_header {#?c#} 0 0)" by (rule trace_then)
  moreover have "hd_metadata ?a \<noteq> hd_metadata spliced_header"
    using metadata_codec.pack_eq_iff [of "\<lparr>md_next = None, md_prev = None, md_state = AwaitingRelease, md_tag = 0\<rparr>"
        "\<lparr>md_next = Some 2, md_prev = None, md_state = AwaitingRelease, md_tag = 0\<rparr>"]
    by (simp add: trace_header_def spliced_header_def metadata_ok_def link_ok_def)
  then have "cas_condemned (hd_metadata ?a) spliced_header = (False, spliced_header)"
    using cas_condemned_cases [of "hd_metadata ?a" spliced_header] by (metis prod.collapse)
  then have "pin_step True False (World spliced_header {#?c#} 0 0) (World spliced_header {#} 0 0)"
    by (intro stepI(1) reader_step.release_lost)
  ultimately show ?thesis by (rule trace_then)
qed

text \<open>A condemned segment with no thread inside the protocol stays condemned.\<close>

definition stranded :: "pin_world \<Rightarrow> bool" where
  "stranded w = (case w of World h T q i \<Rightarrow> T = {#} \<and> q = 0 \<and> (\<exists>m. holds h m \<and> md_state m = AwaitingRelease))"

lemma stranded_step:
  assumes "pin_step sp fresh w w'" and "stranded w"
  shows "stranded w'"
proof -
  obtain h i m where w: "w = World h {#} 0 i" and m: "holds h m" "md_state m = AwaitingRelease"
    using assms(2) by (cases w) (auto simp: stranded_def)
  have st: "header_state h = Some AwaitingRelease" using holds_state [OF m(1)] m(2) by simp
  have cas: "cas_metadata s s' nn np h \<noteq> Some (True, h')" if "s \<noteq> AwaitingRelease" for s s' nn np h'
    using that m(2) by (simp add: cas_metadata_eval [OF m(1)])
  from assms(1) consider "reader_step fresh w w'" | "writer_step w w'" | "drain_step w w'" | "tenant_step sp w w'"
    by (auto simp: pin_step_def)
  then show ?thesis
  proof cases
    case 1
    then show ?thesis unfolding w by cases (use st in simp_all)
  next
    case 2
    then show ?thesis unfolding w by cases (use st in \<open>simp_all add: is_writable_def state_is_removable_def\<close>)
  next
    case 3
    then show ?thesis unfolding w by cases (use cas in auto)
  next
    case 4
    then show ?thesis unfolding w
    proof cases
      case (patch_links nn np h' s)
      from update_links_holds [OF m(1) patch_links(2)] patch_links(5,6) obtain m' where "holds h' m'" "md_state m' = md_state m" by metis
      then show ?thesis using patch_links(1) m(2) by (auto simp: stranded_def)
    qed (use cas in auto)
  qed
qed

lemma stranded_stays: "(pin_step sp fresh)\<^sup>*\<^sup>* w w' \<Longrightarrow> stranded w \<Longrightarrow> stranded w'"
  by (induction rule: rtranclp_induct) (blast intro: stranded_step)+

lemma spliced_stranded: "stranded (World spliced_header {#} 0 i)"
  using spliced_holds by (auto simp: stranded_def)

section \<open>Properties\<close>

text \<open>
  C14. Exclusion, for any number of threads and any interleaving, with or without splices of condemned segments. The three counters count exactly the threads at
  a counted point; one thread drains a draining segment, one tenant fills a reserved or linking one and one a
  relinking one; a free segment has its id in the queues, or about to be pushed, exactly once and no other
  segment has; and while a writer or a remover holds its pin no thread parses, recycles or condemns the segment,
  which is live, sealed or draining.
\<close>

theorem pin_exclusion:
  assumes "pin_init w" and "(pin_step splicing fresh)\<^sup>*\<^sup>* w (World h T q i)"
  shows "\<exists>s. header_state h = Some s \<and> s \<noteq> Locked
    \<and> unat (hd_ref_count h) = cnt is_reader T \<and> unat (hd_active_writers h) = cnt is_writer T
    \<and> unat (hd_active_removers h) = cnt is_remover T
    \<and> cnt is_drainer T = of_bool (s = Draining) \<and> cnt ((=) Tenant) T = of_bool (s = Reserved \<or> s = Linking)
    \<and> cnt ((=) Filling) T = of_bool (s = Relinking) \<and> cnt is_freed T + q = of_bool (s = Free)
    \<and> (WritePinned \<in># T \<or> RemovePinned \<in># T \<longrightarrow>
        s \<in> {Live, Sealed, Draining} \<and> Quiet \<notin># T \<and> Recycling \<notin># T \<and> Condemning \<notin># T)"
proof -
  obtain m where g: "good splicing h m T q i" using pins.inv_reachable [OF assms] by (rule pin_okE)
  have "Quiet \<notin># T \<and> Recycling \<notin># T \<and> Condemning \<notin># T" if "cnt is_reclaimer T = 0"
    using cnt_0_iff [THEN iffD1, OF that] by (auto simp: is_reclaimer_def)
  then show ?thesis using g holds_state [of h m]
    by (intro exI [of _ "md_state m"]) (auto simp: good_def counts_ok_def owners_ok_def writers_ok_def)
qed

theorem pin_exclusion_witness:
  "\<exists>s. header_state (trace_header Sealed 1 0) = Some s \<and> cnt is_drainer {#ReadPinned 0#} = of_bool (s = Draining)"
proof -
  have init: "pin_init (World (header_new False 0 1) {#} 1 0)" by (auto simp: pin_init_def)
  have "trace_steps True False (World (header_new False 0 1) {#} 1 0) (World (trace_header Sealed 1 0) {#ReadPinned 0#} 0 0)"
    using rtranclp_trans [OF trace_setup trace_pin] by simp
  from pin_exclusion [OF init this] show ?thesis by blast
qed

text \<open>
  C15. A condemned segment is never stranded, exactly if no neighbour patches its links. In the executions in which
  \<^verbatim>\<open>update_links\<close> does not hit a condemned segment, which the comment of \<^verbatim>\<open>try_release_condemned\<close> relies on: from every
  reachable world in which the segment awaits its release, whatever the interleaving that led there, the threads
  inside the protocol can finish their steps so that the segment is free and its id is back in a queue, exactly once.
  In the executions in which it may, which the comment of \<^verbatim>\<open>cas_condemn\<close> describes as reachable, there is one that ends with the
  segment condemned for ever: the patch makes the exchange of the last reader fail, and nothing looks at the segment again.
\<close>

theorem condemned_not_stranded:
  "(\<forall>w h T q i. pin_init w \<longrightarrow> (pin_step splicing False)\<^sup>*\<^sup>* w (World h T q i) \<longrightarrow> header_state h = Some AwaitingRelease \<longrightarrow>
      (\<exists>h' T' i'. (pin_step splicing False)\<^sup>*\<^sup>* (World h T q i) (World h' T' 1 i') \<and> header_state h' = Some Free))
   \<longleftrightarrow> \<not> splicing"
proof (cases splicing)
  case False
  have "reclaimable (World h T q i)"
    if a: "pin_init w" and b: "(pin_step False False)\<^sup>*\<^sup>* w (World h T q i)" and c: "header_state h = Some AwaitingRelease"
    for w h T q i
  proof -
    obtain m where g: "good False h m T q i" using pins.inv_reachable [OF a b] by (rule pin_okE)
    then have s: "md_state m = AwaitingRelease" using c holds_state [of h m] by (simp add: good_def)
    then have "q = 0" using good_condemned [OF g] by blast
    then show ?thesis using reclaim [OF _ s refl] g by simp
  qed
  then show ?thesis unfolding reclaimable_def using False by simp
next
  case True
  let ?w = "World (header_new False 0 1) {#} 1 0" and ?s = "World spliced_header {#} 0 0"
  have init: "pin_init ?w" by (auto simp: pin_init_def)
  have r: "(pin_step True False)\<^sup>*\<^sup>* ?w ?s"
    using rtranclp_trans [OF rtranclp_trans [OF rtranclp_trans [OF trace_setup trace_pin] trace_condemned] trace_spliced] by simp
  have "\<not> (pin_step True False)\<^sup>*\<^sup>* ?s (World h' T' 1 i')" for h' T' i'
    using stranded_stays [of True False ?s "World h' T' 1 i'"] spliced_stranded by (auto simp: stranded_def)
  then have "\<not> (\<exists>h' T' i'. (pin_step True False)\<^sup>*\<^sup>* ?s (World h' T' 1 i') \<and> header_state h' = Some Free)" by blast
  then have "\<not> (\<forall>w h T q i. pin_init w \<longrightarrow> (pin_step True False)\<^sup>*\<^sup>* w (World h T q i) \<longrightarrow> header_state h = Some AwaitingRelease \<longrightarrow>
      (\<exists>h' T' i'. (pin_step True False)\<^sup>*\<^sup>* (World h T q i) (World h' T' 1 i') \<and> header_state h' = Some Free))"
    using init r spliced_state by meson
  then show ?thesis by (simp add: True)
qed

theorem condemned_not_stranded_witness:
  "(\<exists>h' T' i'. (pin_step False False)\<^sup>*\<^sup>* (World (trace_header AwaitingRelease 1 0) {#ReadPinned 0#} 0 0) (World h' T' 1 i')
      \<and> header_state h' = Some Free)
   \<and> (\<exists>w h T q i. pin_init w \<and> (pin_step True False)\<^sup>*\<^sup>* w (World h T q i) \<and> header_state h = Some AwaitingRelease
      \<and> (\<forall>h' T' i'. (pin_step True False)\<^sup>*\<^sup>* (World h T q i) (World h' T' 1 i') \<longrightarrow> header_state h' \<noteq> Some Free))"
proof -
  have init: "pin_init (World (header_new False 0 1) {#} 1 0)" by (auto simp: pin_init_def)
  have r: "trace_steps False False (World (header_new False 0 1) {#} 1 0) (World (trace_header AwaitingRelease 1 0) {#ReadPinned 0#} 0 0)"
    using rtranclp_trans [OF rtranclp_trans [OF trace_setup trace_pin] trace_condemned] by simp
  have "header_state (trace_header AwaitingRelease 1 0) = Some AwaitingRelease" by simp
  with condemned_not_stranded [of False] init r show ?thesis using condemned_not_stranded [of True] by blast
qed

text \<open>
  C16. In the executions without a stalled release a pinned reader is safe: the incarnation it has pinned has not
  ended, its segment is live, sealed, relinking, draining or condemned, its id is in no queue and about to be pushed
  by nobody, and no drain is recycling it.
\<close>

theorem pinned_incarnation_safe:
  assumes "pin_init w" and "(pin_step splicing True)\<^sup>*\<^sup>* w (World h T q i)" and "ReadPinned j \<in># T"
  shows "j = i \<and> (\<exists>s. header_state h = Some s \<and> s \<in> {Live, Sealed, Relinking, Draining, AwaitingRelease})
    \<and> q = 0 \<and> Bumping \<notin># T \<and> Freed \<notin># T \<and> Recycling \<notin># T"
proof -
  have "safe splicing (World h T q i)" using safe_pins.inv_reachable [OF assms(1,2)] .
  then obtain m where g: "good splicing h m T q i" and m: "holds h m" and p: "points_ok (md_state m) i T" by (rule safeE)
  have s: "j = i" "pinnable (md_state m)" using p assms(3) by (auto simp: points_ok_def)
  then have "md_state m \<noteq> Free" by (auto simp: pinnable_def)
  then have q: "q = 0" "cnt is_freed T = 0" using g by (simp_all add: good_def owners_ok_def)
  have "Bumping \<notin># T" "Freed \<notin># T" using cnt_0_iff [THEN iffD1, OF q(2)] by (auto simp: is_freed_def)
  moreover have "cnt is_pinned T \<noteq> 0" using cnt_pos [OF assms(3), of is_pinned] by simp
  then have "Recycling \<notin># T" using p by (auto simp: points_ok_def)
  ultimately show ?thesis using s q(1) holds_state [OF m] by (simp add: pinnable_def)
qed

theorem pinned_incarnation_safe_witness:
  "\<exists>s. header_state (trace_header Sealed 1 0) = Some s \<and> s \<in> {Live, Sealed, Relinking, Draining, AwaitingRelease}"
proof -
  have "trace_steps True True (World (header_new False 0 1) {#} 1 0) (World (trace_header Sealed 1 0) {#ReadPinned 0#} 0 0)"
    using rtranclp_trans [OF trace_setup trace_pin] by simp
  from pinned_incarnation_safe [OF _ this] show ?thesis by (auto simp: pin_init_def)
qed

text \<open>
  C17. The restriction is needed: there is an execution of the code in which a segment is freed, and its id pushed to
  the free queue, while a reader holds its pin on it. A reader drops the last pin of a sealed segment and is
  delayed before it loads the state; a second reader pins the segment; a drain claims it, finds it pinned and condemns
  it; the first reader then finds it condemned and frees it.
\<close>

theorem release_under_pin:
  "\<exists>h T. (pin_step False False)\<^sup>*\<^sup>* (World (header_new False 0 1) {#} 1 0) (World h T 1 1)
     \<and> ReadPinned 0 \<in># T \<and> header_state h = Some Free"
proof -
  have "trace_steps False False (World (header_new False 0 1) {#} 1 0) (World (trace_header Sealed 0 0) {#} 0 0)" by (rule trace_setup)
  also have "trace_steps False False (World (trace_header Sealed 0 0) {#} 0 0) (World (trace_header Sealed 1 0) {#ReadPinned 0#} 0 0)"
    by (rule trace_pin) simp
  also note trace_stall
  also have "trace_steps False False (World (trace_header Sealed 0 0) {#ClaimRelease 0 False#} 0 0)
      (World (trace_header Sealed 1 0) {#ReadPinned 0, ClaimRelease 0 False#} 0 0)"
    by (rule trace_pin) simp
  also have "trace_steps False False (World (trace_header Sealed 1 0) {#ReadPinned 0, ClaimRelease 0 False#} 0 0)
      (World (trace_header AwaitingRelease 1 0) {#ClaimRelease 0 False, ReadPinned 0#} 0 0)"
    using trace_condemned [of "{#ReadPinned 0, ClaimRelease 0 False#}"] by (simp add: add_mset_commute)
  also note trace_freed
  finally show ?thesis by (intro exI conjI) (assumption, simp_all)
qed

end
