(* ===== verification/RawItem.thy ===== *)
theory RawItem
  imports KeyValue
begin

unbundle bit_operations_syntax

text \<open>
  The item of a segment (\<^verbatim>\<open>keyvalue/src/item/mod.rs\<close>, \<^verbatim>\<open>header.rs\<close>, \<^verbatim>\<open>raw.rs\<close>): a packed header, the
  optional data, the key and the value; a numeric item has its value in an 8-aligned slot, after a derived pad,
  with a version word behind it. \<^verbatim>\<open>RawItem\<close> wraps a raw pointer, so every access is a load or a store at an offset
  of a byte memory and faults when it leaves it. The cargo feature \<^verbatim>\<open>integrity\<close>, which adds the magic bytes and the
  checksum, is an argument, as is the checksum of the \<^verbatim>\<open>crc32fast\<close> crate, a function of the bytes hashed. Words are
  stored in the target's byte order, little-endian on the supported targets.

  The operations here are those of one thread; theory \<open>SeqLock\<close> interleaves the accesses of the numeric value.
\<close>

section \<open>Sizes\<close>

definition ITEM_HDR_SIZE :: "bool \<Rightarrow> nat" where
  "ITEM_HDR_SIZE integrity = (if integrity then 12 else 6)"

definition ITEM_MAGIC :: "u8 list" where
  "ITEM_MAGIC = [0xCA, 0xFE]"

definition numeric_value_pad :: "bool \<Rightarrow> nat \<Rightarrow> nat \<Rightarrow> nat" where
  "numeric_value_pad integrity klen olen = (8 - (ITEM_HDR_SIZE integrity + olen + klen) mod 8) mod 8"

definition item_size_for :: "bool \<Rightarrow> nat \<Rightarrow> nat \<Rightarrow> nat \<Rightarrow> nat \<Rightarrow> nat" where
  "item_size_for integrity klen olen extra vlen =
     (let raw = ITEM_HDR_SIZE integrity + olen + klen + extra + vlen in push_bit 3 (drop_bit 3 raw + 1))"

definition item_size :: "bool \<Rightarrow> nat \<Rightarrow> cache_value \<Rightarrow> nat \<Rightarrow> nat" where
  "item_size integrity klen v olen =
     (let extra = (case v of U64 _ \<Rightarrow> numeric_value_pad integrity klen olen + 8 | Bytes _ \<Rightarrow> 0) in
      item_size_for integrity klen olen extra (size_of_value v))"

section \<open>The header\<close>

definition NUMERIC_MASK :: u8 where "NUMERIC_MASK = 0x80"

definition DELETE_MASK :: u8 where "DELETE_MASK = 0x40"

definition OLEN_MASK :: u8 where "OLEN_MASK = 0x3F"

record item_header =
  ih_magic :: "u8 list"
  ih_klen :: u8
  ih_flags :: u8
  ih_vlen :: u32
  ih_crc32 :: u32

definition ih_init :: "bool \<Rightarrow> item_header \<Rightarrow> item_header" where
  "ih_init integrity h =
     (let h = h\<lparr>ih_klen := 0, ih_flags := 0, ih_vlen := 0\<rparr> in
      if integrity then h\<lparr>ih_magic := ITEM_MAGIC, ih_crc32 := 0\<rparr> else h)"

text \<open>\<^verbatim>\<open>check_magic\<close> panics on a mismatch: \<^const>\<open>False\<close>.\<close>

definition ih_check_magic :: "bool \<Rightarrow> item_header \<Rightarrow> bool" where
  "ih_check_magic integrity h \<longleftrightarrow> (integrity \<longrightarrow> ih_magic h = ITEM_MAGIC)"

definition ih_set_crc32 :: "u32 \<Rightarrow> item_header \<Rightarrow> item_header" where
  "ih_set_crc32 crc h = h\<lparr>ih_crc32 := crc\<rparr>"

definition ih_set_klen :: "u8 \<Rightarrow> item_header \<Rightarrow> item_header" where
  "ih_set_klen klen h = h\<lparr>ih_klen := klen\<rparr>"

definition ih_set_vlen :: "u32 \<Rightarrow> item_header \<Rightarrow> item_header" where
  "ih_set_vlen vlen h = h\<lparr>ih_vlen := vlen\<rparr>"

definition ih_olen :: "item_header \<Rightarrow> u8" where
  "ih_olen h = ih_flags h AND OLEN_MASK"

definition ih_set_olen :: "u8 \<Rightarrow> item_header \<Rightarrow> item_header" where
  "ih_set_olen olen h = h\<lparr>ih_flags := (ih_flags h AND NOT OLEN_MASK) OR (olen AND OLEN_MASK)\<rparr>"

definition ih_is_numeric :: "item_header \<Rightarrow> bool" where
  "ih_is_numeric h \<longleftrightarrow> ih_flags h AND NUMERIC_MASK \<noteq> 0"

definition ih_set_numeric :: "bool \<Rightarrow> item_header \<Rightarrow> item_header" where
  "ih_set_numeric numeric h =
     (if numeric then h\<lparr>ih_flags := ih_flags h OR NUMERIC_MASK\<rparr>
      else h\<lparr>ih_flags := ih_flags h AND NOT NUMERIC_MASK\<rparr>)"

definition ih_is_deleted :: "item_header \<Rightarrow> bool" where
  "ih_is_deleted h \<longleftrightarrow> ih_flags h AND DELETE_MASK \<noteq> 0"

definition ih_set_deleted :: "bool \<Rightarrow> item_header \<Rightarrow> item_header" where
  "ih_set_deleted deleted h =
     (if deleted then h\<lparr>ih_flags := ih_flags h OR DELETE_MASK\<rparr>
      else h\<lparr>ih_flags := ih_flags h AND NOT DELETE_MASK\<rparr>)"

text \<open>The packed layout: magic (with \<^verbatim>\<open>integrity\<close>), key length, flags, value length, checksum (with \<^verbatim>\<open>integrity\<close>).\<close>

definition parse_header :: "bool \<Rightarrow> u8 list \<Rightarrow> item_header" where
  "parse_header integrity bs =
     (let k = (if integrity then 2 else 0) in
      \<lparr>ih_magic = take k bs, ih_klen = bs ! k, ih_flags = bs ! (k + 1), ih_vlen = le_word (take 4 (drop (k + 2) bs)),
       ih_crc32 = (if integrity then le_word (take 4 (drop 8 bs)) else 0)\<rparr>)"

definition print_header :: "bool \<Rightarrow> item_header \<Rightarrow> u8 list" where
  "print_header integrity h =
     (if integrity then ih_magic h else []) @ [ih_klen h, ih_flags h] @ le_bytes 4 (ih_vlen h)
     @ (if integrity then le_bytes 4 (ih_crc32 h) else [])"

section \<open>The item in memory\<close>

definition raw_header :: "bool \<Rightarrow> u8 list \<Rightarrow> nat \<Rightarrow> item_header option" where
  "raw_header integrity m off = map_option (parse_header integrity) (load_bytes m off (ITEM_HDR_SIZE integrity))"

definition raw_header_mut :: "bool \<Rightarrow> (item_header \<Rightarrow> item_header) \<Rightarrow> u8 list \<Rightarrow> nat \<Rightarrow> u8 list option" where
  "raw_header_mut integrity f m off = do {
     h \<leftarrow> raw_header integrity m off;
     store_bytes m off (print_header integrity (f h)) }"

definition raw_klen :: "bool \<Rightarrow> u8 list \<Rightarrow> nat \<Rightarrow> nat option" where
  "raw_klen integrity m off = map_option (\<lambda>h. unat (ih_klen h)) (raw_header integrity m off)"

definition raw_olen :: "bool \<Rightarrow> u8 list \<Rightarrow> nat \<Rightarrow> nat option" where
  "raw_olen integrity m off = map_option (\<lambda>h. unat (ih_olen h)) (raw_header integrity m off)"

definition raw_vlen :: "bool \<Rightarrow> u8 list \<Rightarrow> nat \<Rightarrow> nat option" where
  "raw_vlen integrity m off = map_option (\<lambda>h. unat (ih_vlen h)) (raw_header integrity m off)"

definition raw_is_numeric :: "bool \<Rightarrow> u8 list \<Rightarrow> nat \<Rightarrow> bool option" where
  "raw_is_numeric integrity m off = map_option ih_is_numeric (raw_header integrity m off)"

definition optional_offset :: "bool \<Rightarrow> nat" where
  "optional_offset integrity = ITEM_HDR_SIZE integrity"

definition key_offset :: "bool \<Rightarrow> u8 list \<Rightarrow> nat \<Rightarrow> nat option" where
  "key_offset integrity m off = do {
     olen \<leftarrow> raw_olen integrity m off;
     Some (optional_offset integrity + olen) }"

definition value_offset :: "bool \<Rightarrow> u8 list \<Rightarrow> nat \<Rightarrow> nat option" where
  "value_offset integrity m off = do {
     ko \<leftarrow> key_offset integrity m off;
     klen \<leftarrow> raw_klen integrity m off;
     olen \<leftarrow> raw_olen integrity m off;
     numeric \<leftarrow> raw_is_numeric integrity m off;
     let unpadded = ko + klen;
     Some (if numeric then unpadded + numeric_value_pad integrity klen olen else unpadded) }"

definition raw_size :: "bool \<Rightarrow> u8 list \<Rightarrow> nat \<Rightarrow> nat option" where
  "raw_size integrity m off = do {
     klen \<leftarrow> raw_klen integrity m off;
     olen \<leftarrow> raw_olen integrity m off;
     numeric \<leftarrow> raw_is_numeric integrity m off;
     vlen \<leftarrow> raw_vlen integrity m off;
     let extra = (if numeric then numeric_value_pad integrity klen olen + 8 else 0);
     let raw = ITEM_HDR_SIZE integrity + olen + klen + extra + vlen;
     Some (push_bit 3 (drop_bit 3 raw + 1)) }"

definition raw_key :: "bool \<Rightarrow> u8 list \<Rightarrow> nat \<Rightarrow> u8 list option" where
  "raw_key integrity m off = do {
     ko \<leftarrow> key_offset integrity m off;
     klen \<leftarrow> raw_klen integrity m off;
     load_bytes m (off + ko) klen }"

definition raw_optional :: "bool \<Rightarrow> u8 list \<Rightarrow> nat \<Rightarrow> u8 list option option" where
  "raw_optional integrity m off = do {
     olen \<leftarrow> raw_olen integrity m off;
     if olen > 0 then map_option Some (load_bytes m (off + optional_offset integrity) olen) else Some None }"

definition value_word :: "bool \<Rightarrow> u8 list \<Rightarrow> nat \<Rightarrow> u64 option" where
  "value_word integrity m off = do {
     vo \<leftarrow> value_offset integrity m off;
     map_option le_word (load_bytes m (off + vo) 8) }"

definition version_word :: "bool \<Rightarrow> u8 list \<Rightarrow> nat \<Rightarrow> u64 option" where
  "version_word integrity m off = do {
     vo \<leftarrow> value_offset integrity m off;
     map_option le_word (load_bytes m (off + vo + 8) 8) }"

definition set_value_word :: "bool \<Rightarrow> u64 \<Rightarrow> u8 list \<Rightarrow> nat \<Rightarrow> u8 list option" where
  "set_value_word integrity w m off = do {
     vo \<leftarrow> value_offset integrity m off;
     store_bytes m (off + vo) (le_bytes 8 w) }"

definition set_version_word :: "bool \<Rightarrow> u64 \<Rightarrow> u8 list \<Rightarrow> nat \<Rightarrow> u8 list option" where
  "set_version_word integrity w m off = do {
     vo \<leftarrow> value_offset integrity m off;
     store_bytes m (off + vo + 8) (le_bytes 8 w) }"

text \<open>
  With no other thread about, the seqlock loop of \<^verbatim>\<open>value\<close> returns in its first round when the version is even
  and spins for ever when it is odd: \<^const>\<open>None\<close>.
\<close>

definition raw_value :: "bool \<Rightarrow> u8 list \<Rightarrow> nat \<Rightarrow> cache_value option" where
  "raw_value integrity m off = do {
     numeric \<leftarrow> raw_is_numeric integrity m off;
     if numeric then do {
       v1 \<leftarrow> version_word integrity m off;
       if v1 AND 1 = 1 then None
       else do { w \<leftarrow> value_word integrity m off; Some (U64 w) } }
     else do {
       vo \<leftarrow> value_offset integrity m off;
       len \<leftarrow> raw_vlen integrity m off;
       map_option Bytes (load_bytes m (off + vo) len) } }"

definition numeric_version :: "bool \<Rightarrow> u8 list \<Rightarrow> nat \<Rightarrow> u64 option option" where
  "numeric_version integrity m off = do {
     numeric \<leftarrow> raw_is_numeric integrity m off;
     if numeric then map_option Some (version_word integrity m off) else Some None }"

definition raw_is_deleted :: "bool \<Rightarrow> u8 list \<Rightarrow> nat \<Rightarrow> bool option" where
  "raw_is_deleted integrity m off = map_option ih_is_deleted (raw_header integrity m off)"

definition raw_set_deleted :: "bool \<Rightarrow> bool \<Rightarrow> u8 list \<Rightarrow> nat \<Rightarrow> u8 list option" where
  "raw_set_deleted integrity deleted m off = raw_header_mut integrity (ih_set_deleted deleted) m off"

definition raw_check_magic :: "bool \<Rightarrow> u8 list \<Rightarrow> nat \<Rightarrow> unit option" where
  "raw_check_magic integrity m off = do {
     h \<leftarrow> raw_header integrity m off;
     if ih_check_magic integrity h then Some () else None }"

section \<open>Checksum\<close>

text \<open>The bytes hashed: the header up to the checksum field, four zeros for it, and the rest.\<close>

definition hash_header_prefix :: "u8 list \<Rightarrow> nat \<Rightarrow> u8 list option" where
  "hash_header_prefix m off = do {
     before \<leftarrow> load_bytes m off 3;
     flags \<leftarrow> load_byte m (off + 3);
     after \<leftarrow> load_bytes m (off + 4) 4;
     Some (before @ [flags] @ after @ replicate 4 0) }"

definition compute_crc_numeric :: "(u8 list \<Rightarrow> u32) \<Rightarrow> u64 \<Rightarrow> u8 list \<Rightarrow> nat \<Rightarrow> u32 option" where
  "compute_crc_numeric crc w m off = do {
     prefix \<leftarrow> hash_header_prefix m off;
     vo \<leftarrow> value_offset True m off;
     body \<leftarrow> (if vo > 12 then load_bytes m (off + 12) (vo - 12) else Some []);
     Some (crc (prefix @ body @ le_bytes 8 w)) }"

definition compute_crc_span :: "(u8 list \<Rightarrow> u32) \<Rightarrow> nat \<Rightarrow> u8 list \<Rightarrow> nat \<Rightarrow> u32 option" where
  "compute_crc_span crc end' m off = do {
     prefix \<leftarrow> hash_header_prefix m off;
     body \<leftarrow> (if end' > 12 then load_bytes m (off + 12) (end' - 12) else Some []);
     Some (crc (prefix @ body)) }"

definition compute_crc :: "(u8 list \<Rightarrow> u32) \<Rightarrow> u8 list \<Rightarrow> nat \<Rightarrow> u32 option" where
  "compute_crc crc m off = do {
     numeric \<leftarrow> raw_is_numeric True m off;
     if numeric then do { w \<leftarrow> value_word True m off; compute_crc_numeric crc w m off }
     else do {
       vo \<leftarrow> value_offset True m off;
       vlen \<leftarrow> raw_vlen True m off;
       compute_crc_span crc (vo + vlen) m off } }"

definition check_integrity :: "(u8 list \<Rightarrow> u32) \<Rightarrow> u8 list \<Rightarrow> nat \<Rightarrow> bool option" where
  "check_integrity crc m off = do {
     h \<leftarrow> raw_header True m off;
     if ih_is_numeric h then do {
       v1 \<leftarrow> version_word True m off;
       if v1 AND 1 = 1 then None
       else do {
         w \<leftarrow> value_word True m off;
         computed \<leftarrow> compute_crc_numeric crc w m off;
         Some (ih_crc32 h = computed) } }
     else do { computed \<leftarrow> compute_crc crc m off; Some (ih_crc32 h = computed) } }"

section \<open>Writing an item\<close>

definition raw_define ::
  "bool \<Rightarrow> (u8 list \<Rightarrow> u32) \<Rightarrow> u8 list \<Rightarrow> nat \<Rightarrow> u8 list \<Rightarrow> cache_value \<Rightarrow> u8 list \<Rightarrow> u8 list option" where
  "raw_define integrity crc m off key v opt = do {
     m \<leftarrow> raw_header_mut integrity (ih_init integrity) m off;
     m \<leftarrow> raw_header_mut integrity (ih_set_olen (of_nat (length opt))) m off;
     m \<leftarrow> raw_header_mut integrity (ih_set_klen (of_nat (length key))) m off;
     m \<leftarrow> store_bytes m (off + optional_offset integrity) opt;
     ko \<leftarrow> key_offset integrity m off;
     m \<leftarrow> store_bytes m (off + ko) key;
     m \<leftarrow> (case v of
       Bytes bs \<Rightarrow> do {
         m \<leftarrow> raw_header_mut integrity (ih_set_numeric False) m off;
         m \<leftarrow> raw_header_mut integrity (ih_set_vlen (of_nat (length bs))) m off;
         vo \<leftarrow> value_offset integrity m off;
         store_bytes m (off + vo) bs }
     | U64 w \<Rightarrow> do {
         m \<leftarrow> raw_header_mut integrity (ih_set_numeric True) m off;
         m \<leftarrow> raw_header_mut integrity (ih_set_vlen 8) m off;
         let pad = numeric_value_pad integrity (length key) (length opt);
         ko \<leftarrow> key_offset integrity m off;
         m \<leftarrow> (if pad > 0 then store_bytes m (off + ko + length key) (replicate pad 0) else Some m);
         m \<leftarrow> set_value_word integrity w m off;
         set_version_word integrity 0 m off });
     if integrity then do {
       c \<leftarrow> compute_crc crc m off;
       raw_header_mut integrity (ih_set_crc32 c) m off }
     else Some m }"

section \<open>Updating a numeric item\<close>

text \<open>
  \<^verbatim>\<open>lock_numeric_version\<close> by one thread: the version observed, and the memory with the version made odd; with the
  version odd already it would spin for ever. \<^verbatim>\<open>update\<close> and the drop of the guard end the lock.
\<close>

definition lock_numeric_version ::
  "bool \<Rightarrow> u8 list \<Rightarrow> nat \<Rightarrow> (not_numeric_error + u64 \<times> u8 list) option" where
  "lock_numeric_version integrity m off = do {
     numeric \<leftarrow> raw_is_numeric integrity m off;
     if \<not> numeric then Some (Inl NotNumericError)
     else do {
       v \<leftarrow> version_word integrity m off;
       if v AND 1 = 1 then None
       else do { m \<leftarrow> set_version_word integrity (v + 1) m off; Some (Inr (v, m)) } } }"

definition guard_update ::
  "bool \<Rightarrow> (u8 list \<Rightarrow> u32) \<Rightarrow> u64 \<Rightarrow> (u64 \<Rightarrow> u64) \<Rightarrow> u8 list \<Rightarrow> nat \<Rightarrow> (u64 \<times> u8 list) option" where
  "guard_update integrity crc version f m off = do {
     w \<leftarrow> value_word integrity m off;
     let new = f w;
     m \<leftarrow> set_value_word integrity new m off;
     m \<leftarrow> (if integrity then do {
         c \<leftarrow> compute_crc_numeric crc new m off;
         store_bytes m (off + (ITEM_HDR_SIZE integrity - 4)) (le_bytes 4 c) }
       else Some m);
     m \<leftarrow> set_version_word integrity (version + 2) m off;
     Some (new, m) }"

definition guard_drop :: "bool \<Rightarrow> u64 \<Rightarrow> u8 list \<Rightarrow> nat \<Rightarrow> u8 list option" where
  "guard_drop integrity version m off = set_version_word integrity version m off"

definition stamp_relocated_copy :: "bool \<Rightarrow> u64 \<Rightarrow> u8 list \<Rightarrow> nat \<Rightarrow> u8 list option" where
  "stamp_relocated_copy integrity version m off = do {
     numeric \<leftarrow> raw_is_numeric integrity m off;
     if \<not> numeric then None else set_version_word integrity version m off }"

definition locked_numeric_update ::
  "bool \<Rightarrow> (u8 list \<Rightarrow> u32) \<Rightarrow> (u64 \<Rightarrow> u64) \<Rightarrow> u8 list \<Rightarrow> nat \<Rightarrow> (not_numeric_error + u64 \<times> u8 list) option" where
  "locked_numeric_update integrity crc f m off = do {
     locked \<leftarrow> lock_numeric_version integrity m off;
     case locked of
       Inl e \<Rightarrow> Some (Inl e)
     | Inr (v, m) \<Rightarrow> map_option Inr (guard_update integrity crc v f m off) }"

definition fetch_wrapping_add ::
  "bool \<Rightarrow> (u8 list \<Rightarrow> u32) \<Rightarrow> u64 \<Rightarrow> u8 list \<Rightarrow> nat \<Rightarrow> (not_numeric_error + u64 \<times> u8 list) option" where
  "fetch_wrapping_add integrity crc rhs = locked_numeric_update integrity crc (\<lambda>v. v + rhs)"

definition fetch_saturating_sub ::
  "bool \<Rightarrow> (u8 list \<Rightarrow> u32) \<Rightarrow> u64 \<Rightarrow> u8 list \<Rightarrow> nat \<Rightarrow> (not_numeric_error + u64 \<times> u8 list) option" where
  "fetch_saturating_sub integrity crc rhs = locked_numeric_update integrity crc (\<lambda>v. saturating_sub v rhs)"

end
