(* ===== verification/RawItemProps.thy ===== *)
theory RawItemProps
  imports RawItem
begin

unbundle bit_operations_syntax

text \<open>
  What the item operations do: the layout of an item in memory, what \<^verbatim>\<open>define\<close> writes, what the accessors read,
  and what the in-place updates change.
\<close>

section \<open>Flags\<close>

lemma flag_masks: "OLEN_MASK = mask 6" "bit NUMERIC_MASK n \<longleftrightarrow> n = 7" "bit DELETE_MASK n \<longleftrightarrow> n = 6"
proof -
  show "OLEN_MASK = mask 6" by (simp add: OLEN_MASK_def mask_eq_exp_minus_1)
  have m: "NUMERIC_MASK = 2 ^ 7" "DELETE_MASK = 2 ^ 6" by (simp_all add: NUMERIC_MASK_def DELETE_MASK_def)
  show "bit NUMERIC_MASK n \<longleftrightarrow> n = 7" "bit DELETE_MASK n \<longleftrightarrow> n = 6" unfolding m bit_exp_iff by auto
qed

lemma and_one_bit:
  fixes w v :: u8
  assumes "\<And>n. bit v n \<longleftrightarrow> n = k"
  shows "(w AND v \<noteq> 0) \<longleftrightarrow> bit w k"
proof -
  have "bit (w AND v) n \<longleftrightarrow> n = k \<and> bit w k" for n by (auto simp: bit_and_iff assms)
  then show ?thesis by (metis bit_0_eq bit_eqI bot_apply bot_bool_def)
qed

lemma is_numeric_bit: "ih_is_numeric h \<longleftrightarrow> bit (ih_flags h) 7"
  unfolding ih_is_numeric_def by (rule and_one_bit) (rule flag_masks)

lemma is_deleted_bit: "ih_is_deleted h \<longleftrightarrow> bit (ih_flags h) 6"
  unfolding ih_is_deleted_def by (rule and_one_bit) (rule flag_masks)

lemma olen_take_bit: "ih_olen h = take_bit 6 (ih_flags h)"
  by (simp add: ih_olen_def flag_masks take_bit_eq_mask and.commute)

lemma set_numeric_flags:
  "ih_is_numeric (ih_set_numeric b h) = b" "ih_is_deleted (ih_set_numeric b h) = ih_is_deleted h"
  "ih_olen (ih_set_numeric b h) = ih_olen h"
  by (auto simp: is_numeric_bit is_deleted_bit olen_take_bit ih_set_numeric_def bit_simps flag_masks intro!: bit_word_eqI)

lemma set_deleted_flags:
  "ih_is_deleted (ih_set_deleted b h) = b" "ih_is_numeric (ih_set_deleted b h) = ih_is_numeric h"
  "ih_olen (ih_set_deleted b h) = ih_olen h"
  by (auto simp: is_numeric_bit is_deleted_bit olen_take_bit ih_set_deleted_def bit_simps flag_masks intro!: bit_word_eqI)

lemma set_olen_flags:
  "ih_is_deleted (ih_set_olen x h) = ih_is_deleted h" "ih_is_numeric (ih_set_olen x h) = ih_is_numeric h"
  "ih_olen (ih_set_olen x h) = take_bit 6 x"
  by (auto simp: is_numeric_bit is_deleted_bit olen_take_bit ih_set_olen_def bit_simps flag_masks intro!: bit_word_eqI)

lemma keep_flags:
  "ih_is_deleted (ih_set_klen k h) = ih_is_deleted h" "ih_is_numeric (ih_set_klen k h) = ih_is_numeric h"
  "ih_olen (ih_set_klen k h) = ih_olen h"
  "ih_is_deleted (ih_set_vlen vl h) = ih_is_deleted h" "ih_is_numeric (ih_set_vlen vl h) = ih_is_numeric h"
  "ih_olen (ih_set_vlen vl h) = ih_olen h"
  "ih_is_deleted (ih_set_crc32 c h) = ih_is_deleted h" "ih_is_numeric (ih_set_crc32 c h) = ih_is_numeric h"
  "ih_olen (ih_set_crc32 c h) = ih_olen h"
  by (simp_all add: ih_is_deleted_def ih_is_numeric_def ih_olen_def ih_set_klen_def ih_set_vlen_def ih_set_crc32_def)

lemma init_flags: "ih_is_deleted (ih_init i h) = False" "ih_is_numeric (ih_init i h) = False"
  by (simp_all add: ih_is_deleted_def ih_is_numeric_def ih_init_def Let_def)

lemma klen_simps:
  "ih_klen (ih_set_vlen y h) = ih_klen h" "ih_klen (ih_set_numeric b h) = ih_klen h" "ih_klen (ih_set_deleted b h) = ih_klen h"
  "ih_klen (ih_set_crc32 c h) = ih_klen h" "ih_klen (ih_set_klen k h) = k"
  by (simp_all add: ih_set_vlen_def ih_set_numeric_def ih_set_deleted_def ih_set_crc32_def ih_set_klen_def)

lemmas flag_simps = set_numeric_flags set_deleted_flags set_olen_flags keep_flags init_flags

section \<open>The header in memory\<close>

definition header_ok :: "bool \<Rightarrow> item_header \<Rightarrow> bool" where
  "header_ok i h \<longleftrightarrow> (if i then length (ih_magic h) = 2 else ih_magic h = [] \<and> ih_crc32 h = 0)"

lemma length_print_header: "header_ok i h \<Longrightarrow> length (print_header i h) = ITEM_HDR_SIZE i"
  by (simp add: header_ok_def print_header_def ITEM_HDR_SIZE_def)

lemma parse_print_header: "header_ok i h \<Longrightarrow> parse_header i (print_header i h) = h"
  by (cases h) (auto simp: parse_header_def print_header_def header_ok_def Let_def nth_append le_word_le_bytes_id
      numeral_2_eq_2 length_Suc_conv)

lemma parse_header_ok: "length bs = ITEM_HDR_SIZE i \<Longrightarrow> header_ok i (parse_header i bs)"
  by (simp add: parse_header_def header_ok_def Let_def ITEM_HDR_SIZE_def)

lemma header_ok_init: "header_ok i h \<Longrightarrow> header_ok i (ih_init i h)"
  by (simp add: header_ok_def ih_init_def Let_def ITEM_MAGIC_def)

lemma header_ok_set:
  "header_ok i (ih_set_olen x h) = header_ok i h" "header_ok i (ih_set_klen k h) = header_ok i h"
  "header_ok i (ih_set_vlen y h) = header_ok i h" "header_ok i (ih_set_numeric b h) = header_ok i h"
  "header_ok i (ih_set_deleted b h) = header_ok i h" "header_ok True (ih_set_crc32 c h) = header_ok True h"
  by (simp_all add: header_ok_def ih_set_olen_def ih_set_klen_def ih_set_vlen_def ih_set_numeric_def
      ih_set_deleted_def ih_set_crc32_def)

text \<open>The memory with an item at offset \<open>length pre\<close>.\<close>

definition item_mem :: "bool \<Rightarrow> u8 list \<Rightarrow> item_header \<Rightarrow> u8 list \<Rightarrow> u8 list \<Rightarrow> u8 list \<Rightarrow> u8 list" where
  "item_mem i pre h opt key tail = pre @ print_header i h @ opt @ key @ tail"

definition fits :: "bool \<Rightarrow> item_header \<Rightarrow> u8 list \<Rightarrow> u8 list \<Rightarrow> bool" where
  "fits i h opt key \<longleftrightarrow> header_ok i h \<and> unat (ih_olen h) = length opt \<and> unat (ih_klen h) = length key"

lemma raw_header_at: "length hb = ITEM_HDR_SIZE i \<Longrightarrow> raw_header i (pre @ hb @ rest) (length pre) = Some (parse_header i hb)"
  by (simp add: raw_header_def load_bytes_append)

lemma header_mut_at:
  "length hb = ITEM_HDR_SIZE i \<Longrightarrow> header_ok i (f (parse_header i hb)) \<Longrightarrow>
   raw_header_mut i f (pre @ hb @ rest) (length pre) = Some (pre @ print_header i (f (parse_header i hb)) @ rest)"
  by (simp add: raw_header_mut_def raw_header_at store_bytes_append length_print_header)

lemma item_header: "header_ok i h \<Longrightarrow> raw_header i (item_mem i pre h opt key tail) (length pre) = Some h"
  by (simp add: item_mem_def raw_header_at length_print_header parse_print_header)

lemma item_header_mut:
  "header_ok i h \<Longrightarrow> header_ok i (f h) \<Longrightarrow>
   raw_header_mut i f (item_mem i pre h opt key tail) (length pre) = Some (item_mem i pre (f h) opt key tail)"
  by (simp add: item_mem_def header_mut_at length_print_header parse_print_header)

lemma item_store_opt:
  "header_ok i h \<Longrightarrow> length opt' = length opt \<Longrightarrow>
   store_bytes (item_mem i pre h opt key tail) (length pre + ITEM_HDR_SIZE i) opt' = Some (item_mem i pre h opt' key tail)"
  using store_bytes_append [of "length pre + ITEM_HDR_SIZE i" "pre @ print_header i h" opt opt' "key @ tail"]
  by (simp add: item_mem_def length_print_header)

lemma item_store_key:
  "header_ok i h \<Longrightarrow> length key' = length key \<Longrightarrow>
   store_bytes (item_mem i pre h opt key tail) (length pre + (ITEM_HDR_SIZE i + length opt)) key'
     = Some (item_mem i pre h opt key' tail)"
  using store_bytes_append [of "length pre + (ITEM_HDR_SIZE i + length opt)" "pre @ print_header i h @ opt" key key' tail]
  by (simp add: item_mem_def length_print_header)

lemma item_store_tail:
  "header_ok i h \<Longrightarrow> tail = a @ b @ c \<Longrightarrow> length bs = length b \<Longrightarrow>
   n = length pre + ITEM_HDR_SIZE i + length opt + length key + length a \<Longrightarrow>
   store_bytes (item_mem i pre h opt key tail) n bs = Some (item_mem i pre h opt key (a @ bs @ c))"
  using store_bytes_append [of n "pre @ print_header i h @ opt @ key @ a" b bs c]
  by (simp add: item_mem_def length_print_header)

lemma item_load_opt:
  "header_ok i h \<Longrightarrow> load_bytes (item_mem i pre h opt key tail) (length pre + ITEM_HDR_SIZE i) (length opt) = Some opt"
  using load_bytes_append [of "length pre + ITEM_HDR_SIZE i" "pre @ print_header i h" "length opt" opt "key @ tail"]
  by (simp add: item_mem_def length_print_header)

lemma item_load_key:
  "header_ok i h \<Longrightarrow>
   load_bytes (item_mem i pre h opt key tail) (length pre + (ITEM_HDR_SIZE i + length opt)) (length key) = Some key"
  using load_bytes_append [of "length pre + (ITEM_HDR_SIZE i + length opt)" "pre @ print_header i h @ opt" "length key" key tail]
  by (simp add: item_mem_def length_print_header)

lemma item_load_tail:
  "header_ok i h \<Longrightarrow> tail = a @ b @ c \<Longrightarrow> k = length b \<Longrightarrow>
   n = length pre + ITEM_HDR_SIZE i + length opt + length key + length a \<Longrightarrow>
   load_bytes (item_mem i pre h opt key tail) n k = Some b"
  using load_bytes_append [of n "pre @ print_header i h @ opt @ key @ a" k b c]
  by (simp add: item_mem_def length_print_header)

section \<open>The accessors on an item\<close>

abbreviation pad_of :: "bool \<Rightarrow> u8 list \<Rightarrow> u8 list \<Rightarrow> nat" where
  "pad_of i opt key \<equiv> numeric_value_pad i (length key) (length opt)"

lemma item_fields:
  assumes "fits i h opt key"
  shows "raw_klen i (item_mem i pre h opt key tail) (length pre) = Some (length key)"
    and "raw_olen i (item_mem i pre h opt key tail) (length pre) = Some (length opt)"
    and "raw_vlen i (item_mem i pre h opt key tail) (length pre) = Some (unat (ih_vlen h))"
    and "raw_is_numeric i (item_mem i pre h opt key tail) (length pre) = Some (ih_is_numeric h)"
    and "raw_is_deleted i (item_mem i pre h opt key tail) (length pre) = Some (ih_is_deleted h)"
    and "key_offset i (item_mem i pre h opt key tail) (length pre) = Some (ITEM_HDR_SIZE i + length opt)"
    and "value_offset i (item_mem i pre h opt key tail) (length pre)
      = Some (ITEM_HDR_SIZE i + length opt + length key + (if ih_is_numeric h then pad_of i opt key else 0))"
  using assms item_header [of i h pre opt key tail]
  by (simp_all add: fits_def raw_klen_def raw_olen_def raw_vlen_def raw_is_numeric_def raw_is_deleted_def key_offset_def
      value_offset_def optional_offset_def)

lemma item_key: "fits i h opt key \<Longrightarrow> raw_key i (item_mem i pre h opt key tail) (length pre) = Some key"
  by (simp add: raw_key_def item_fields item_load_key fits_def [THEN iffD1])

lemma item_optional:
  "fits i h opt key \<Longrightarrow>
   raw_optional i (item_mem i pre h opt key tail) (length pre) = Some (if opt = [] then None else Some opt)"
  by (simp add: raw_optional_def item_fields optional_offset_def item_load_opt fits_def [THEN iffD1])

lemma item_size_at:
  "fits i h opt key \<Longrightarrow> raw_size i (item_mem i pre h opt key tail) (length pre)
   = Some (item_size_for i (length key) (length opt) (if ih_is_numeric h then pad_of i opt key + 8 else 0) (unat (ih_vlen h)))"
  by (simp add: raw_size_def item_fields item_size_for_def)

text \<open>A numeric item, its tail cut into pad, value, version and what follows.\<close>

abbreviation num_tail :: "u8 list \<Rightarrow> u64 \<Rightarrow> u64 \<Rightarrow> u8 list \<Rightarrow> u8 list" where
  "num_tail pad w ver rest \<equiv> pad @ le_bytes 8 w @ le_bytes 8 ver @ rest"

lemma numeric_words:
  assumes "fits i h opt key" and "ih_is_numeric h" and "length pad = pad_of i opt key"
  shows "value_word i (item_mem i pre h opt key (num_tail pad w ver rest)) (length pre) = Some w"
    and "version_word i (item_mem i pre h opt key (num_tail pad w ver rest)) (length pre) = Some ver"
    and "set_value_word i w' (item_mem i pre h opt key (num_tail pad w ver rest)) (length pre)
      = Some (item_mem i pre h opt key (num_tail pad w' ver rest))"
    and "set_version_word i ver' (item_mem i pre h opt key (num_tail pad w ver rest)) (length pre)
      = Some (item_mem i pre h opt key (num_tail pad w ver' rest))"
proof -
  let ?m = "item_mem i pre h opt key (num_tail pad w ver rest)"
  have ok: "header_ok i h" using assms(1) by (simp add: fits_def)
  note vo = item_fields(7) [OF assms(1)]
  have "load_bytes ?m (length pre + (ITEM_HDR_SIZE i + length opt + length key + pad_of i opt key)) 8 = Some (le_bytes 8 w)"
    by (rule item_load_tail [OF ok, where a = pad]) (use assms(3) in simp_all)
  then show "value_word i ?m (length pre) = Some w"
    using assms(2) by (simp add: value_word_def vo le_word_le_bytes_id)
  have "load_bytes ?m (length pre + (ITEM_HDR_SIZE i + length opt + length key + pad_of i opt key) + 8) 8 = Some (le_bytes 8 ver)"
    by (rule item_load_tail [OF ok, where a = "pad @ le_bytes 8 w"]) (use assms(3) in simp_all)
  then show "version_word i ?m (length pre) = Some ver"
    using assms(2) by (simp add: version_word_def vo le_word_le_bytes_id)
  have "store_bytes ?m (length pre + (ITEM_HDR_SIZE i + length opt + length key + pad_of i opt key)) (le_bytes 8 w')
      = Some (item_mem i pre h opt key (pad @ le_bytes 8 w' @ le_bytes 8 ver @ rest))"
    by (rule item_store_tail [OF ok, where b = "le_bytes 8 w"]) (use assms(3) in simp_all)
  then show "set_value_word i w' ?m (length pre) = Some (item_mem i pre h opt key (num_tail pad w' ver rest))"
    using assms(2) by (simp add: set_value_word_def vo)
  have "store_bytes ?m (length pre + (ITEM_HDR_SIZE i + length opt + length key + pad_of i opt key) + 8) (le_bytes 8 ver')
      = Some (item_mem i pre h opt key ((pad @ le_bytes 8 w) @ le_bytes 8 ver' @ rest))"
    by (rule item_store_tail [OF ok, where b = "le_bytes 8 ver"]) (use assms(3) in simp_all)
  then show "set_version_word i ver' ?m (length pre) = Some (item_mem i pre h opt key (num_tail pad w ver' rest))"
    using assms(2) by (simp add: set_version_word_def vo)
qed

section \<open>Checksum\<close>

lemma item_hash_prefix:
  assumes "header_ok True h"
  shows "hash_header_prefix (item_mem True pre h opt key tail) (length pre)
    = Some (take 8 (print_header True h) @ replicate 4 0)"
proof -
  obtain a b where mg: "ih_magic h = [a, b]" using assms by (auto simp: header_ok_def numeral_2_eq_2 length_Suc_conv)
  let ?v = "le_bytes 4 (ih_vlen h)" and ?c = "le_bytes 4 (ih_crc32 h)"
  let ?m = "item_mem True pre h opt key tail"
  have m: "?m = pre @ [a, b, ih_klen h] @ [ih_flags h] @ ?v @ ?c @ opt @ key @ tail"
    by (simp add: item_mem_def print_header_def mg)
  have "load_bytes ?m (length pre) 3 = Some [a, b, ih_klen h]"
    unfolding m by (rule load_bytes_append) simp_all
  moreover have "load_byte ?m (length pre + 3) = Some (ih_flags h)"
    unfolding m by (simp add: load_byte_def nth_append)
  moreover have "load_bytes ?m (length pre + 4) 4 = Some ?v"
    using load_bytes_append [of "length pre + 4" "pre @ [a, b, ih_klen h, ih_flags h]" 4 ?v "?c @ opt @ key @ tail"]
    unfolding m by simp
  moreover have "take 8 (print_header True h) = [a, b, ih_klen h, ih_flags h] @ ?v"
    by (simp add: print_header_def mg)
  ultimately show ?thesis by (simp add: hash_header_prefix_def)
qed

text \<open>The bytes after the header, up to the value slot or the end of the value.\<close>

lemma item_hash_body:
  assumes "header_ok True h" and "tail = a @ c" and "n = 12 + length opt + length key + length a"
  shows "(if n > 12 then load_bytes (item_mem True pre h opt key tail) (length pre + 12) (n - 12) else Some [])
    = Some (opt @ key @ a)"
proof (cases "n > 12")
  case True
  have hl: "length (print_header True h) = 12" using length_print_header [OF assms(1)] by (simp add: ITEM_HDR_SIZE_def)
  have "load_bytes ((pre @ print_header True h) @ (opt @ key @ a) @ c) (length pre + 12) (n - 12) = Some (opt @ key @ a)"
    by (rule load_bytes_append) (use hl assms(3) in simp_all)
  then show ?thesis using True assms(2) by (simp add: item_mem_def)
next
  case False
  then show ?thesis using assms(3) by simp
qed

lemma crc_numeric:
  assumes "fits True h opt key" and "ih_is_numeric h" and "length pad = pad_of True opt key"
  shows "compute_crc_numeric crc w' (item_mem True pre h opt key (num_tail pad w ver rest)) (length pre)
    = Some (crc (take 8 (print_header True h) @ replicate 4 0 @ opt @ key @ pad @ le_bytes 8 w'))"
proof -
  have ok: "header_ok True h" using assms(1) by (simp add: fits_def)
  have vo: "value_offset True (item_mem True pre h opt key (num_tail pad w ver rest)) (length pre)
      = Some (12 + length opt + length key + length pad)"
    using assms by (simp add: item_fields ITEM_HDR_SIZE_def)
  show ?thesis
    unfolding compute_crc_numeric_def item_hash_prefix [OF ok] vo bind.bind_lunit
      item_hash_body [OF ok refl refl] by simp
qed

lemma crc_bytes:
  assumes "fits True h opt key" and "\<not> ih_is_numeric h" and "unat (ih_vlen h) = length bs"
  shows "compute_crc crc (item_mem True pre h opt key (bs @ rest)) (length pre)
    = Some (crc (take 8 (print_header True h) @ replicate 4 0 @ opt @ key @ bs))"
proof -
  have ok: "header_ok True h" using assms(1) by (simp add: fits_def)
  have "compute_crc crc (item_mem True pre h opt key (bs @ rest)) (length pre)
      = compute_crc_span crc (12 + length opt + length key + length bs) (item_mem True pre h opt key (bs @ rest)) (length pre)"
    using assms by (simp add: compute_crc_def item_fields ITEM_HDR_SIZE_def)
  also have "\<dots> = Some (crc (take 8 (print_header True h) @ replicate 4 0 @ opt @ key @ bs))"
    unfolding compute_crc_span_def item_hash_prefix [OF ok] bind.bind_lunit item_hash_body [OF ok refl refl] by simp
  finally show ?thesis .
qed

lemma take_print_crc: "header_ok True h \<Longrightarrow> take 8 (print_header True (ih_set_crc32 c h)) = take 8 (print_header True h)"
  by (simp add: print_header_def header_ok_def ih_set_crc32_def)

section \<open>Sizes\<close>

definition raw_representable :: "u8 list \<Rightarrow> cache_value \<Rightarrow> u8 list \<Rightarrow> bool" where
  "raw_representable key v opt \<longleftrightarrow> length key < 256 \<and> length opt < 64
     \<and> (case v of Bytes bs \<Rightarrow> length bs < 2 ^ 32 | U64 _ \<Rightarrow> True)"

text \<open>The bytes an item takes after its key, and in all.\<close>

fun tail_size :: "bool \<Rightarrow> nat \<Rightarrow> cache_value \<Rightarrow> nat \<Rightarrow> nat" where
  "tail_size i klen (Bytes bs) olen = length bs"
| "tail_size i klen (U64 w) olen = numeric_value_pad i klen olen + 16"

definition item_need :: "bool \<Rightarrow> nat \<Rightarrow> cache_value \<Rightarrow> nat \<Rightarrow> nat" where
  "item_need i klen v olen = ITEM_HDR_SIZE i + olen + klen + tail_size i klen v olen"

lemma item_size_need: "item_size i klen v olen = 8 * (item_need i klen v olen div 8 + 1)"
  by (cases v) (simp_all add: item_size_def item_size_for_def item_need_def push_bit_eq_mult drop_bit_eq_div ac_simps)

lemma item_need_less: "item_need i klen v olen < item_size i klen v olen"
  "item_size i klen v olen \<le> item_need i klen v olen + 8"
  unfolding item_size_need by presburger+

lemma pad_align: "8 dvd n + (8 - n mod 8) mod 8" "(8 - n mod 8) mod 8 < 8" for n :: nat
proof -
  define q r where "q = n div 8" and "r = n mod 8"
  have "n = 8 * q + r" "r < 8" by (simp_all add: q_def r_def)
  then have "n + (8 - r) = 8 * (q + 1)" by simp
  then have "n + (8 - n mod 8) = 8 * (n div 8 + 1)" unfolding q_def r_def .
  then have "(n + (8 - n mod 8)) mod 8 = 0" by (simp only: mod_mult_self1_is_0)
  then have "(n + (8 - n mod 8) mod 8) mod 8 = 0" by (simp only: mod_add_right_eq)
  then show "8 dvd n + (8 - n mod 8) mod 8" by (simp only: dvd_eq_mod_eq_0)
qed simp

section \<open>Writing an item\<close>

definition is_numeric_value :: "cache_value \<Rightarrow> bool" where
  "is_numeric_value v \<longleftrightarrow> (case v of U64 _ \<Rightarrow> True | Bytes _ \<Rightarrow> False)"

fun value_tail :: "bool \<Rightarrow> u8 list \<Rightarrow> u8 list \<Rightarrow> cache_value \<Rightarrow> u8 list" where
  "value_tail i opt key (Bytes bs) = bs"
| "value_tail i opt key (U64 w) = replicate (pad_of i opt key) 0 @ le_bytes 8 w @ le_bytes 8 (0 :: u64)"

lemma length_value_tail: "length (value_tail i opt key v) = tail_size i (length key) v (length opt)"
  by (cases v) simp_all

text \<open>The header that \<^verbatim>\<open>define\<close> leaves, before the checksum.\<close>

definition defined_header :: "bool \<Rightarrow> u8 list \<Rightarrow> cache_value \<Rightarrow> u8 list \<Rightarrow> item_header \<Rightarrow> item_header" where
  "defined_header i key v opt h = ih_set_vlen (of_nat (size_of_value v)) (ih_set_numeric (is_numeric_value v)
     (ih_set_klen (of_nat (length key)) (ih_set_olen (of_nat (length opt)) (ih_init i h))))"

lemma defined_header_ok:
  assumes "raw_representable key v opt" and "header_ok i h"
  shows "fits i (defined_header i key v opt h) opt key"
    and "ih_is_numeric (defined_header i key v opt h) = is_numeric_value v" "\<not> ih_is_deleted (defined_header i key v opt h)"
    and "unat (ih_vlen (defined_header i key v opt h)) = size_of_value v"
    and "ih_check_magic i (defined_header i key v opt h)"
proof -
  have k: "length key < 256" "length opt < 64" using assms(1) by (simp_all add: raw_representable_def)
  have o: "unat (take_bit 6 (of_nat (length opt)) :: u8) = length opt"
    using k(2) by (simp add: unat_take_bit unat_of_nat)
  show "fits i (defined_header i key v opt h) opt key"
    using k assms(2) o by (simp add: fits_def defined_header_def header_ok_set header_ok_init flag_simps klen_simps unat_of_nat)
  show "ih_is_numeric (defined_header i key v opt h) = is_numeric_value v" "\<not> ih_is_deleted (defined_header i key v opt h)"
    by (simp_all add: defined_header_def flag_simps)
  show "unat (ih_vlen (defined_header i key v opt h)) = size_of_value v"
    using assms(1) by (cases v) (simp_all add: defined_header_def ih_set_vlen_def raw_representable_def unat_of_nat)
  show "ih_check_magic i (defined_header i key v opt h)"
    by (simp add: defined_header_def ih_check_magic_def ih_set_vlen_def ih_set_numeric_def ih_set_klen_def ih_set_olen_def
        ih_init_def Let_def)
qed

lemma define_prefix:
  assumes r: "raw_representable key v opt" and len: "length hb = ITEM_HDR_SIZE i" "length ob = length opt" "length kb = length key"
  defines "h \<equiv> ih_set_klen (of_nat (length key)) (ih_set_olen (of_nat (length opt)) (ih_init i (parse_header i hb)))"
  shows "fits i h opt key"
    and "do { m \<leftarrow> raw_header_mut i (ih_init i) (pre @ hb @ ob @ kb @ tail) (length pre);
       m \<leftarrow> raw_header_mut i (ih_set_olen (of_nat (length opt))) m (length pre);
       m \<leftarrow> raw_header_mut i (ih_set_klen (of_nat (length key))) m (length pre);
       m \<leftarrow> store_bytes m (length pre + optional_offset i) opt;
       ko \<leftarrow> key_offset i m (length pre);
       m \<leftarrow> store_bytes m (length pre + ko) key;
       f m } = f (item_mem i pre h opt key tail)"
proof -
  let ?h = "parse_header i hb"
  have ok: "header_ok i (ih_init i ?h)" using parse_header_ok [OF len(1)] by (rule header_ok_init)
  have k: "length key < 256" "length opt < 64" using r by (simp_all add: raw_representable_def)
  have o: "unat (take_bit 6 (of_nat (length opt)) :: u8) = length opt"
    using k(2) by (simp add: unat_take_bit unat_of_nat)
  have f: "fits i h x y" if "length x = length opt" "length y = length key" for x y :: "u8 list"
    using that ok k o by (simp add: fits_def h_def header_ok_set flag_simps klen_simps unat_of_nat)
  show "fits i h opt key" by (rule f) simp_all
  have okh: "header_ok i h" using ok by (simp add: h_def header_ok_set)
  have "raw_header_mut i (ih_init i) (pre @ hb @ ob @ kb @ tail) (length pre)
      = Some (item_mem i pre (ih_init i ?h) ob kb tail)"
    using header_mut_at [OF len(1), of "ih_init i"] ok by (simp add: item_mem_def)
  then show "do { m \<leftarrow> raw_header_mut i (ih_init i) (pre @ hb @ ob @ kb @ tail) (length pre);
       m \<leftarrow> raw_header_mut i (ih_set_olen (of_nat (length opt))) m (length pre);
       m \<leftarrow> raw_header_mut i (ih_set_klen (of_nat (length key))) m (length pre);
       m \<leftarrow> store_bytes m (length pre + optional_offset i) opt;
       ko \<leftarrow> key_offset i m (length pre);
       m \<leftarrow> store_bytes m (length pre + ko) key;
       f m } = f (item_mem i pre h opt key tail)"
    using ok okh len by (simp add: item_header_mut header_ok_set flip: h_def)
       (simp add: optional_offset_def item_store_opt item_fields [OF f] item_store_key)
qed

lemma define_value:
  assumes "fits i h opt key" and "raw_representable key v opt" and "length tb = tail_size i (length key) v (length opt)"
  shows "(case v of
       Bytes bs \<Rightarrow> do {
         m \<leftarrow> raw_header_mut i (ih_set_numeric False) (item_mem i pre h opt key (tb @ rest)) (length pre);
         m \<leftarrow> raw_header_mut i (ih_set_vlen (of_nat (length bs))) m (length pre);
         vo \<leftarrow> value_offset i m (length pre);
         store_bytes m (length pre + vo) bs }
     | U64 w \<Rightarrow> do {
         m \<leftarrow> raw_header_mut i (ih_set_numeric True) (item_mem i pre h opt key (tb @ rest)) (length pre);
         m \<leftarrow> raw_header_mut i (ih_set_vlen 8) m (length pre);
         let pad = numeric_value_pad i (length key) (length opt);
         ko \<leftarrow> key_offset i m (length pre);
         m \<leftarrow> (if pad > 0 then store_bytes m (length pre + ko + length key) (replicate pad 0) else Some m);
         m \<leftarrow> set_value_word i w m (length pre);
         set_version_word i 0 m (length pre) })
   = Some (item_mem i pre (ih_set_vlen (of_nat (size_of_value v)) (ih_set_numeric (is_numeric_value v) h)) opt key
       (value_tail i opt key v @ rest))"
proof -
  have ok: "header_ok i h" using assms(1) by (simp add: fits_def)
  let ?h = "\<lambda>b n. ih_set_vlen n (ih_set_numeric b h)"
  have f: "fits i (?h b n) opt key" and n: "ih_is_numeric (?h b n) = b" for b n
    using assms(1) by (simp_all add: fits_def header_ok_set flag_simps klen_simps)
  have okh: "header_ok i (?h b n)" for b n using ok by (simp add: header_ok_set)
  have hdr: "do { m \<leftarrow> raw_header_mut i (ih_set_numeric b) (item_mem i pre h opt key t) (length pre);
         m \<leftarrow> raw_header_mut i (ih_set_vlen n) m (length pre); g m } = g (item_mem i pre (?h b n) opt key t)" for b n t g
    using ok by (simp add: item_header_mut header_ok_set)
  show ?thesis
  proof (cases v)
    case (Bytes bs)
    have "store_bytes (item_mem i pre (?h False (of_nat (length bs))) opt key (tb @ rest))
        (length pre + (ITEM_HDR_SIZE i + length opt + length key)) bs
      = Some (item_mem i pre (?h False (of_nat (length bs))) opt key ([] @ bs @ rest))"
      by (rule item_store_tail [OF okh, where b = tb]) (use assms(3) Bytes in simp_all)
    then show ?thesis
      using n by (simp add: Bytes hdr item_fields(7) [OF f] is_numeric_value_def)
  next
    case (U64 w)
    let ?p = "pad_of i opt key"
    obtain pb vb xb where tb: "tb = pb @ vb @ xb" and l: "length pb = ?p" "length vb = 8" "length xb = 8"
    proof
      show "tb = take ?p tb @ take 8 (drop ?p tb) @ drop (?p + 8) tb" by (metis add.commute append_take_drop_id drop_drop)
    qed (use assms(3) U64 in simp_all)
    let ?m = "\<lambda>t. item_mem i pre (?h True 8) opt key t"
    have "store_bytes (?m (tb @ rest)) (length pre + (ITEM_HDR_SIZE i + length opt) + length key) (replicate ?p 0)
      = Some (?m ([] @ replicate ?p 0 @ vb @ xb @ rest))"
      by (rule item_store_tail [OF okh, where b = pb]) (use l tb in simp_all)
    moreover have "?p = 0 \<Longrightarrow> pb = []" using l by simp
    ultimately have pad: "(if ?p > 0 then store_bytes (?m (tb @ rest)) (length pre + (ITEM_HDR_SIZE i + length opt) + length key)
        (replicate ?p 0) else Some (?m (tb @ rest))) = Some (?m (replicate ?p 0 @ vb @ xb @ rest))"
      using tb by auto
    have vo: "value_offset i (?m t) (length pre) = Some (ITEM_HDR_SIZE i + length opt + length key + ?p)" for t
      using item_fields(7) [OF f] n by simp
    have "store_bytes (?m (replicate ?p 0 @ vb @ xb @ rest)) (length pre + (ITEM_HDR_SIZE i + length opt + length key + ?p)) (le_bytes 8 w)
      = Some (?m (replicate ?p 0 @ le_bytes 8 w @ xb @ rest))"
      by (rule item_store_tail [OF okh, where b = vb]) (use l in simp_all)
    then have v: "set_value_word i w (?m (replicate ?p 0 @ vb @ xb @ rest)) (length pre) = Some (?m (replicate ?p 0 @ le_bytes 8 w @ xb @ rest))"
      by (simp add: set_value_word_def vo)
    have "store_bytes (?m (replicate ?p 0 @ le_bytes 8 w @ xb @ rest)) (length pre + (ITEM_HDR_SIZE i + length opt + length key + ?p) + 8)
        (le_bytes 8 (0 :: u64)) = Some (?m ((replicate ?p 0 @ le_bytes 8 w) @ le_bytes 8 (0 :: u64) @ rest))"
      by (rule item_store_tail [OF okh, where b = xb]) (use l in simp_all)
    then have x: "set_version_word i 0 (?m (replicate ?p 0 @ le_bytes 8 w @ xb @ rest)) (length pre)
        = Some (?m (replicate ?p 0 @ le_bytes 8 w @ le_bytes 8 (0 :: u64) @ rest))"
      by (simp add: set_version_word_def vo)
    show ?thesis
      by (simp only: U64 cache_value.case hdr item_fields(6) [OF f] Let_def bind.bind_lunit pad v x)
         (simp add: is_numeric_value_def)
  qed
qed

text \<open>An item as \<^verbatim>\<open>define\<close> leaves it: what its header says of the value that follows.\<close>

definition describes :: "bool \<Rightarrow> item_header \<Rightarrow> u8 list \<Rightarrow> cache_value \<Rightarrow> u8 list \<Rightarrow> bool" where
  "describes i h key v opt \<longleftrightarrow> fits i h opt key \<and> ih_is_numeric h = is_numeric_value v
     \<and> unat (ih_vlen h) = size_of_value v \<and> ih_check_magic i h"

fun hashed_value :: "u8 list \<Rightarrow> u8 list \<Rightarrow> cache_value \<Rightarrow> u8 list" where
  "hashed_value opt key (Bytes bs) = bs"
| "hashed_value opt key (U64 w) = replicate (pad_of True opt key) 0 @ le_bytes 8 w"

definition item_crc :: "(u8 list \<Rightarrow> u32) \<Rightarrow> item_header \<Rightarrow> u8 list \<Rightarrow> cache_value \<Rightarrow> u8 list \<Rightarrow> u32" where
  "item_crc crc h key v opt = crc (take 8 (print_header True h) @ replicate 4 0 @ opt @ key @ hashed_value opt key v)"

lemma value_tail_num:
  "value_tail i opt key (U64 w) @ rest = num_tail (replicate (pad_of i opt key) 0) w 0 rest"
  by simp

lemma describes_crc:
  assumes "describes True h key v opt"
  shows "compute_crc crc (item_mem True pre h opt key (value_tail True opt key v @ rest)) (length pre) = Some (item_crc crc h key v opt)"
proof (cases v)
  case (Bytes bs)
  then show ?thesis using assms crc_bytes [of h opt key bs crc pre rest]
    by (simp add: describes_def is_numeric_value_def item_crc_def)
next
  case (U64 w)
  have h: "fits True h opt key" "ih_is_numeric h" using assms U64 by (simp_all add: describes_def is_numeric_value_def)
  show ?thesis
    unfolding U64 value_tail_num compute_crc_def item_fields(4) [OF h(1)] bind.bind_lunit
    by (simp only: h(2) if_True numeric_words(1) [OF h length_replicate] bind.bind_lunit crc_numeric [OF h length_replicate])
       (simp add: item_crc_def)
qed

lemma describes_integrity:
  assumes "describes True h key v opt"
  shows "check_integrity crc (item_mem True pre h opt key (value_tail True opt key v @ rest)) (length pre)
    = Some (ih_crc32 h = item_crc crc h key v opt)"
proof (cases v)
  case (Bytes bs)
  have "\<not> ih_is_numeric h" "header_ok True h" using assms Bytes by (simp_all add: describes_def is_numeric_value_def fits_def)
  then show ?thesis using describes_crc [OF assms, of crc pre rest] by (simp add: check_integrity_def item_header)
next
  case (U64 w)
  have h: "fits True h opt key" "ih_is_numeric h" using assms U64 by (simp_all add: describes_def is_numeric_value_def)
  then have "header_ok True h" by (simp add: fits_def)
  from item_header [OF this] show ?thesis
    unfolding U64 value_tail_num check_integrity_def
    by (simp only: h(2) if_True numeric_words [OF h length_replicate] bind.bind_lunit crc_numeric [OF h length_replicate])
       (simp add: item_crc_def)
qed

lemma describes_reads:
  assumes "describes i h key v opt"
  defines "m \<equiv> \<lambda>pre rest. item_mem i pre h opt key (value_tail i opt key v @ rest)"
  shows "raw_key i (m pre rest) (length pre) = Some key" and "raw_value i (m pre rest) (length pre) = Some v"
    and "raw_optional i (m pre rest) (length pre) = Some (if opt = [] then None else Some opt)"
    and "raw_size i (m pre rest) (length pre) = Some (item_size i (length key) v (length opt))"
    and "raw_is_deleted i (m pre rest) (length pre) = Some (ih_is_deleted h)"
    and "raw_check_magic i (m pre rest) (length pre) = Some ()"
proof -
  have h: "fits i h opt key" "ih_is_numeric h = is_numeric_value v" "unat (ih_vlen h) = size_of_value v"
    using assms(1) by (simp_all add: describes_def)
  have ok: "header_ok i h" using h(1) by (simp add: fits_def)
  show "raw_key i (m pre rest) (length pre) = Some key" unfolding m_def by (rule item_key [OF h(1)])
  show "raw_optional i (m pre rest) (length pre) = Some (if opt = [] then None else Some opt)"
    unfolding m_def by (rule item_optional [OF h(1)])
  show "raw_size i (m pre rest) (length pre) = Some (item_size i (length key) v (length opt))"
    unfolding m_def item_size_at [OF h(1)] by (cases v) (simp_all add: h item_size_def is_numeric_value_def)
  show "raw_is_deleted i (m pre rest) (length pre) = Some (ih_is_deleted h)"
    unfolding m_def by (rule item_fields(5) [OF h(1)])
  show "raw_check_magic i (m pre rest) (length pre) = Some ()"
    using assms(1) unfolding m_def by (simp add: raw_check_magic_def item_header [OF ok] describes_def)
  show "raw_value i (m pre rest) (length pre) = Some v"
  proof (cases v)
    case (Bytes bs)
    have "load_bytes (item_mem i pre h opt key (bs @ rest)) (length pre + (ITEM_HDR_SIZE i + length opt + length key)) (length bs) = Some bs"
      by (rule item_load_tail [OF ok, where a = "[]"]) simp_all
    then show ?thesis
      using h Bytes by (simp add: m_def raw_value_def item_fields [OF h(1)] is_numeric_value_def)
  next
    case (U64 w)
    then have n: "ih_is_numeric h" using h(2) by (simp add: is_numeric_value_def)
    show ?thesis
      unfolding m_def U64 value_tail_num raw_value_def item_fields(4) [OF h(1)]
      by (simp only: n if_True numeric_words [OF h(1) n length_replicate] bind.bind_lunit) simp
  qed
qed

lemma raw_define_item:
  assumes r: "raw_representable key v opt" and len: "length hb = ITEM_HDR_SIZE i" "length ob = length opt" "length kb = length key"
    "length tb = tail_size i (length key) v (length opt)"
  shows "\<exists>h. describes i h key v opt \<and> \<not> ih_is_deleted h \<and> (i \<longrightarrow> ih_crc32 h = item_crc crc h key v opt)
    \<and> raw_define i crc (pre @ hb @ ob @ kb @ tb @ rest) (length pre) key v opt
      = Some (item_mem i pre h opt key (value_tail i opt key v @ rest))"
proof -
  let ?h = "defined_header i key v opt (parse_header i hb)"
  let ?m = "item_mem i pre ?h opt key (value_tail i opt key v @ rest)"
  note ok = defined_header_ok [OF r parse_header_ok [OF len(1)]]
  have d: "describes i ?h key v opt" using ok by (simp add: describes_def)
  have "raw_define i crc (pre @ hb @ ob @ kb @ tb @ rest) (length pre) key v opt =
      (if i then do { c \<leftarrow> compute_crc crc ?m (length pre); raw_header_mut i (ih_set_crc32 c) ?m (length pre) } else Some ?m)"
    unfolding raw_define_def define_prefix(2) [OF r len(1-3)] define_value [OF define_prefix(1) [OF r len(1-3)] r len(4)]
      bind.bind_lunit by (simp only: defined_header_def)
  moreover have "\<exists>h. describes i h key v opt \<and> \<not> ih_is_deleted h \<and> (i \<longrightarrow> ih_crc32 h = item_crc crc h key v opt)
      \<and> (if i then do { c \<leftarrow> compute_crc crc ?m (length pre); raw_header_mut i (ih_set_crc32 c) ?m (length pre) } else Some ?m)
        = Some (item_mem i pre h opt key (value_tail i opt key v @ rest))"
  proof (cases i)
    case True
    let ?c = "item_crc crc ?h key v opt"
    have okh: "header_ok True ?h" using ok(1) True by (simp add: fits_def)
    have "describes True (ih_set_crc32 ?c ?h) key v opt" "ih_crc32 (ih_set_crc32 ?c ?h) = item_crc crc (ih_set_crc32 ?c ?h) key v opt"
      "\<not> ih_is_deleted (ih_set_crc32 ?c ?h)"
      using d True ok(3) okh
      by (simp_all add: describes_def fits_def header_ok_set flag_simps klen_simps item_crc_def take_print_crc)
         (simp_all add: ih_set_crc32_def ih_check_magic_def)
    moreover have "raw_header_mut True (ih_set_crc32 ?c) ?m (length pre)
        = Some (item_mem True pre (ih_set_crc32 ?c ?h) opt key (value_tail True opt key v @ rest))"
      using item_header_mut [of True ?h "ih_set_crc32 ?c"] okh True by (simp add: header_ok_set)
    moreover have "compute_crc crc ?m (length pre) = Some ?c" using describes_crc d True by simp
    ultimately show ?thesis using True by (intro exI [of _ "ih_set_crc32 ?c ?h"]) simp
  next
    case False
    then show ?thesis using d ok(3) by auto
  qed
  ultimately show ?thesis by simp
qed

section \<open>Updating a numeric item\<close>

definition num_item :: "bool \<Rightarrow> (u8 list \<Rightarrow> u32) \<Rightarrow> u8 list \<Rightarrow> nat \<Rightarrow> u8 list \<Rightarrow> u64 \<Rightarrow> u64 \<Rightarrow> u8 list \<Rightarrow> bool" where
  "num_item i crc m off key w ver opt \<longleftrightarrow> (\<exists>pre h rest. length pre = off
     \<and> m = item_mem i pre h opt key (num_tail (replicate (pad_of i opt key) 0) w ver rest)
     \<and> describes i h key (U64 w) opt \<and> (i \<longrightarrow> ih_crc32 h = item_crc crc h key (U64 w) opt))"

lemma odd_word: "w AND 1 = 1 \<longleftrightarrow> odd w" for w :: u64
  by (simp add: and_one_eq mod_2_eq_odd)

lemma describes_numeric: "describes i h key (U64 w) opt \<Longrightarrow> fits i h opt key \<and> ih_is_numeric h \<and> header_ok i h"
  by (simp add: describes_def is_numeric_value_def fits_def)

lemma describes_any: "describes i h key (U64 w) opt = describes i h key (U64 w') opt"
  by (simp add: describes_def is_numeric_value_def)

lemma item_store_crc:
  assumes "header_ok True h"
  shows "store_bytes (item_mem True pre h opt key tail) (length pre + (ITEM_HDR_SIZE True - 4)) (le_bytes 4 c)
    = Some (item_mem True pre (ih_set_crc32 c h) opt key tail)"
proof -
  have "store_bytes ((pre @ ih_magic h @ [ih_klen h, ih_flags h] @ le_bytes 4 (ih_vlen h)) @ le_bytes 4 (ih_crc32 h) @ opt @ key @ tail)
      (length pre + 8) (le_bytes 4 c)
    = Some ((pre @ ih_magic h @ [ih_klen h, ih_flags h] @ le_bytes 4 (ih_vlen h)) @ le_bytes 4 c @ opt @ key @ tail)"
    by (rule store_bytes_append) (use assms in \<open>simp_all add: header_ok_def\<close>)
  then show ?thesis by (simp add: item_mem_def print_header_def ITEM_HDR_SIZE_def ih_set_crc32_def)
qed

lemma num_item_reads:
  assumes "num_item i crc m off key w ver opt" and "even ver"
  shows "raw_key i m off = Some key" and "raw_value i m off = Some (U64 w)"
    and "raw_optional i m off = Some (if opt = [] then None else Some opt)"
    and "raw_size i m off = Some (item_size i (length key) (U64 w) (length opt))"
    and "numeric_version i m off = Some (Some ver)" and "i \<Longrightarrow> check_integrity crc m off = Some True"
proof -
  obtain pre h rest where pre: "length pre = off" and d: "describes i h key (U64 w) opt"
    and m: "m = item_mem i pre h opt key (num_tail (replicate (pad_of i opt key) 0) w ver rest)"
    and c: "i \<longrightarrow> ih_crc32 h = item_crc crc h key (U64 w) opt"
    using assms(1) by (auto simp: num_item_def)
  have h: "fits i h opt key" "ih_is_numeric h" "header_ok i h" using describes_numeric [OF d] by simp_all
  note words = numeric_words [OF h(1,2) length_replicate]
  have off: "off = length pre" using pre by simp
  show "raw_key i m off = Some key" unfolding m off by (rule item_key [OF h(1)])
  show "raw_optional i m off = Some (if opt = [] then None else Some opt)" unfolding m off by (rule item_optional [OF h(1)])
  show "raw_size i m off = Some (item_size i (length key) (U64 w) (length opt))"
    using d unfolding m off item_size_at [OF h(1)] by (simp add: h(2) item_size_def describes_def)
  show "numeric_version i m off = Some (Some ver)"
    unfolding m off numeric_version_def item_fields(4) [OF h(1)] by (simp only: h(2) words bind.bind_lunit) simp
  show "raw_value i m off = Some (U64 w)"
    using assms(2) unfolding m off raw_value_def item_fields(4) [OF h(1)]
    by (simp only: h(2) words bind.bind_lunit odd_word) simp
  show "check_integrity crc m off = Some True" if i
  proof -
    have i: "i = True" using that by simp
    from item_header [OF h(3)] c assms(2) show ?thesis
      unfolding m off i check_integrity_def
      by (simp only: h(2) words [unfolded i] crc_numeric [OF h(1,2) [unfolded i] length_replicate] bind.bind_lunit odd_word)
         (simp add: item_crc_def)
  qed
qed

lemma num_item_update:
  assumes "num_item i crc m off key w ver opt" and "even ver"
  shows "\<exists>m'. locked_numeric_update i crc f m off = Some (Inr (f w, m')) \<and> num_item i crc m' off key (f w) (ver + 2) opt"
proof -
  obtain pre h rest where pre: "length pre = off" and d: "describes i h key (U64 w) opt"
    and m: "m = item_mem i pre h opt key (num_tail (replicate (pad_of i opt key) 0) w ver rest)"
    using assms(1) by (auto simp: num_item_def)
  have h: "fits i h opt key" "ih_is_numeric h" "header_ok i h" using describes_numeric [OF d] by simp_all
  note words = numeric_words [OF h(1,2) length_replicate]
  let ?m = "\<lambda>h w ver. item_mem i pre h opt key (num_tail (replicate (pad_of i opt key) 0) w ver rest)"
  have lock: "lock_numeric_version i m off = Some (Inr (ver, ?m h w (ver + 1)))"
    using assms(2) unfolding m pre [symmetric] lock_numeric_version_def item_fields(4) [OF h(1)]
    by (simp only: h(2) words bind.bind_lunit odd_word) simp
  have "\<exists>h'. describes i h' key (U64 (f w)) opt \<and> (i \<longrightarrow> ih_crc32 h' = item_crc crc h' key (U64 (f w)) opt)
    \<and> guard_update i crc ver f (?m h w (ver + 1)) (length pre) = Some (f w, ?m h' (f w) (ver + 2))"
  proof (cases i)
    case True
    then have i: "i = True" by simp
    let ?c = "item_crc crc h key (U64 (f w)) opt"
    let ?h = "ih_set_crc32 ?c h"
    have d': "describes True ?h key (U64 (f w)) opt"
      using d True unfolding describes_any [of i h key w opt "f w"]
      by (simp add: describes_def fits_def header_ok_set flag_simps klen_simps)
         (simp add: ih_set_crc32_def ih_check_magic_def)
    have h': "fits True ?h opt key" "ih_is_numeric ?h" "header_ok True ?h" using describes_numeric [OF d'] by simp_all
    have "compute_crc_numeric crc (f w) (?m h (f w) (ver + 1)) (length pre) = Some ?c"
      unfolding i crc_numeric [OF h(1,2) [unfolded i] length_replicate] by (simp add: item_crc_def)
    then have "guard_update i crc ver f (?m h w (ver + 1)) (length pre) = Some (f w, ?m ?h (f w) (ver + 2))"
      unfolding guard_update_def i
      by (simp only: words [unfolded i] if_True Let_def bind.bind_lunit item_store_crc [OF h(3) [unfolded i]]
          numeric_words(4) [OF h'(1,2) length_replicate])
    moreover have "ih_crc32 ?h = item_crc crc ?h key (U64 (f w)) opt"
      using h(3) True by (simp add: item_crc_def take_print_crc) (simp add: ih_set_crc32_def)
    ultimately show ?thesis using d' unfolding i by blast
  next
    case False
    then have i: "i = False" by simp
    have "guard_update i crc ver f (?m h w (ver + 1)) (length pre) = Some (f w, ?m h (f w) (ver + 2))"
      unfolding guard_update_def i by (simp only: words [unfolded i] if_False Let_def bind.bind_lunit)
    then show ?thesis using d False unfolding describes_any [of i h key w opt "f w"] by blast
  qed
  then obtain h' where h': "describes i h' key (U64 (f w)) opt" "i \<longrightarrow> ih_crc32 h' = item_crc crc h' key (U64 (f w)) opt"
    and u: "guard_update i crc ver f (?m h w (ver + 1)) off = Some (f w, ?m h' (f w) (ver + 2))" using pre by auto
  have "locked_numeric_update i crc f m off = Some (Inr (f w, ?m h' (f w) (ver + 2)))"
    unfolding locked_numeric_update_def lock bind.bind_lunit using u by simp
  moreover have "num_item i crc (?m h' (f w) (ver + 2)) off key (f w) (ver + 2) opt"
    unfolding num_item_def using h' pre by blast
  ultimately show ?thesis by blast
qed

text \<open>\<^verbatim>\<open>define\<close> in any memory with room for the item.\<close>

lemma raw_define_split:
  assumes "raw_representable key v opt" and "off + item_size i (length key) v (length opt) \<le> length m"
  obtains pre blk rest h where "m = pre @ blk @ rest" "length pre = off" "length blk = item_need i (length key) v (length opt)"
    "describes i h key v opt" "\<not> ih_is_deleted h" "i \<longrightarrow> ih_crc32 h = item_crc crc h key v opt"
    "raw_define i crc m off key v opt = Some (item_mem i pre h opt key (value_tail i opt key v @ rest))"
proof -
  let ?n = "item_need i (length key) v (length opt)"
  have "off + ?n \<le> length m" using assms(2) item_need_less(1) [of i "length key" v "length opt"] by simp
  then obtain pre blk rest where m: "m = pre @ blk @ rest" and pre: "length pre = off" and blk: "length blk = ?n"
    by (rule memory_split)
  let ?a = "ITEM_HDR_SIZE i" and ?b = "ITEM_HDR_SIZE i + length opt" and ?c = "ITEM_HDR_SIZE i + length opt + length key"
  obtain hb ob kb tb where b: "blk = hb @ ob @ kb @ tb" and len: "length hb = ITEM_HDR_SIZE i" "length ob = length opt"
    "length kb = length key" "length tb = tail_size i (length key) v (length opt)"
  proof
    show "blk = take ?a blk @ take (length opt) (drop ?a blk) @ take (length key) (drop ?b blk) @ drop ?c blk"
      by (metis (no_types, lifting) add.commute append_take_drop_id drop_drop)
  qed (use blk in \<open>simp_all add: item_need_def\<close>)
  from raw_define_item [OF assms(1) len, of crc pre rest] show ?thesis
    using that [OF m pre blk] pre unfolding m b by auto
qed

section \<open>Properties\<close>

text \<open>
  C32. Writing a representable item (a key of at most 255 bytes, optional data of at most 63, a byte value below 4 GiB)
  into a region of the size computed for it succeeds and changes nothing outside the region; key, value and optional
  data are read back as written, the item is not deleted, its magic and its checksum are right, and the size read
  from its header, by which the segment scan steps, is the size that was reserved for it.
\<close>

theorem raw_define_roundtrip:
  assumes "raw_representable key v opt" and "off + item_size i (length key) v (length opt) \<le> length m"
  shows "\<exists>m'. raw_define i crc m off key v opt = Some m' \<and> length m' = length m
    \<and> raw_key i m' off = Some key \<and> raw_value i m' off = Some v
    \<and> raw_optional i m' off = Some (if opt = [] then None else Some opt)
    \<and> raw_size i m' off = Some (item_size i (length key) v (length opt))
    \<and> raw_is_deleted i m' off = Some False \<and> raw_check_magic i m' off = Some ()
    \<and> (i \<longrightarrow> check_integrity crc m' off = Some True)
    \<and> take off m' = take off m
    \<and> drop (off + item_size i (length key) v (length opt)) m' = drop (off + item_size i (length key) v (length opt)) m"
proof -
  let ?n = "item_need i (length key) v (length opt)" and ?sz = "item_size i (length key) v (length opt)"
  have n: "?n < ?sz" by (rule item_need_less)
  obtain pre blk rest h where m: "m = pre @ blk @ rest" and pre: "length pre = off" and blk: "length blk = ?n"
    and h: "describes i h key v opt" "\<not> ih_is_deleted h" "i \<longrightarrow> ih_crc32 h = item_crc crc h key v opt"
    and def: "raw_define i crc m off key v opt = Some (item_mem i pre h opt key (value_tail i opt key v @ rest))"
    using raw_define_split [OF assms] .
  let ?m = "item_mem i pre h opt key (value_tail i opt key v @ rest)"
  have "header_ok i h" using h(1) by (simp add: describes_def fits_def)
  then have l: "length (print_header i h @ opt @ key @ value_tail i opt key v) = ?n"
    by (simp add: length_print_header item_need_def length_value_tail)
  have mm: "?m = pre @ (print_header i h @ opt @ key @ value_tail i opt key v) @ rest" by (simp add: item_mem_def)
  have d: "drop (off + ?sz) ?m = drop (off + ?sz) m"
    using l blk pre n unfolding mm m by (simp only: drop_append length_append) simp
  have len': "length ?m = length m" using l blk unfolding mm m by (simp only: length_append)
  have t: "take off ?m = take off m" using pre unfolding mm m by simp
  show ?thesis
    using def h d len' t describes_reads [OF h(1), of pre rest] describes_integrity [of h key v opt crc pre rest] pre
    by (intro exI [of _ ?m]) auto
qed

theorem raw_define_roundtrip_witness:
  "\<exists>m'. raw_define True (\<lambda>bs. sum_list (map ucast bs)) (replicate 48 0) 8 [107, 49] (U64 7) [1] = Some m'
     \<and> raw_value True m' 8 = Some (U64 7)"
proof -
  have "raw_representable [107, 49] (U64 7) [1]" by (simp add: raw_representable_def)
  moreover have "8 + item_size True (length [107 :: u8, 49]) (U64 7) (length [1 :: u8]) \<le> length (replicate 48 (0 :: u8))"
    by (simp add: item_size_def item_size_for_def numeric_value_pad_def ITEM_HDR_SIZE_def)
  ultimately show ?thesis using raw_define_roundtrip [of "[107, 49]" "U64 7" "[1]" 8 True] by blast
qed

text \<open>
  The size of an item is a multiple of eight, holds every byte of the item with at most eight to spare, and the value
  and version words of a numeric item lie in it at multiples of eight, so that they can be accessed atomically.
\<close>

theorem item_size_layout:
  "8 dvd item_size i klen v olen
   \<and> ITEM_HDR_SIZE i + olen + klen + size_of_value v < item_size i klen v olen
   \<and> item_size i klen (Bytes bs) olen \<le> ITEM_HDR_SIZE i + olen + klen + length bs + 8
   \<and> 8 dvd ITEM_HDR_SIZE i + olen + klen + numeric_value_pad i klen olen \<and> numeric_value_pad i klen olen < 8
   \<and> ITEM_HDR_SIZE i + olen + klen + numeric_value_pad i klen olen + 16 < item_size i klen (U64 w) olen
   \<and> item_size i klen (U64 w) olen \<le> ITEM_HDR_SIZE i + olen + klen + 31"
proof -
  let ?p = "numeric_value_pad i klen olen" and ?n = "ITEM_HDR_SIZE i + olen + klen"
  have p: "8 dvd ?n + ?p" "?p < 8" using pad_align [of ?n] by (simp_all add: numeric_value_pad_def)
  have "item_need i klen v olen \<ge> ?n + size_of_value v" by (cases v) (simp_all add: item_need_def)
  moreover have "8 dvd item_size i klen v olen" by (simp add: item_size_need)
  ultimately show ?thesis
    using p item_need_less [of i klen v olen] item_need_less [of i klen "Bytes bs" olen] item_need_less [of i klen "U64 w" olen]
    by (simp add: item_need_def)
qed

text \<open>A sequence of in-place updates, with the values they return.\<close>

datatype numeric_rmw = Wrapping u64 | Saturating u64

fun rmw_spec :: "numeric_rmw \<Rightarrow> u64 \<Rightarrow> u64" where
  "rmw_spec (Wrapping rhs) v = v + rhs"
| "rmw_spec (Saturating rhs) v = saturating_sub v rhs"

fun rmw_code :: "bool \<Rightarrow> (u8 list \<Rightarrow> u32) \<Rightarrow> numeric_rmw \<Rightarrow> u8 list \<Rightarrow> nat \<Rightarrow> (not_numeric_error + u64 \<times> u8 list) option" where
  "rmw_code i crc (Wrapping rhs) = fetch_wrapping_add i crc rhs"
| "rmw_code i crc (Saturating rhs) = fetch_saturating_sub i crc rhs"

fun rmw_run :: "bool \<Rightarrow> (u8 list \<Rightarrow> u32) \<Rightarrow> numeric_rmw list \<Rightarrow> u8 list \<Rightarrow> nat \<Rightarrow> (u64 list \<times> u8 list) option" where
  "rmw_run i crc [] m off = Some ([], m)"
| "rmw_run i crc (x # xs) m off = do {
     r \<leftarrow> rmw_code i crc x m off;
     case r of Inl _ \<Rightarrow> None
     | Inr (v, m) \<Rightarrow> do { (vs, m) \<leftarrow> rmw_run i crc xs m off; Some (v # vs, m) } }"

fun rmw_values :: "numeric_rmw list \<Rightarrow> u64 \<Rightarrow> u64 list" where
  "rmw_values [] v = []"
| "rmw_values (x # xs) v = rmw_spec x v # rmw_values xs (rmw_spec x v)"

lemma rmw_code_locked: "rmw_code i crc x = locked_numeric_update i crc (rmw_spec x)"
proof (cases x)
  case (Wrapping rhs)
  have "rmw_spec (Wrapping rhs) = (\<lambda>v. v + rhs)" by (rule ext) simp
  then show ?thesis using Wrapping by (simp add: fetch_wrapping_add_def)
next
  case (Saturating rhs)
  have "rmw_spec (Saturating rhs) = (\<lambda>v. saturating_sub v rhs)" by (rule ext) simp
  then show ?thesis using Saturating by (simp add: fetch_saturating_sub_def)
qed

lemma rmw_run_item:
  "num_item i crc m off key w ver opt \<Longrightarrow> even ver \<Longrightarrow>
   \<exists>m'. rmw_run i crc xs m off = Some (rmw_values xs w, m')
     \<and> num_item i crc m' off key (fold rmw_spec xs w) (ver + of_nat (2 * length xs)) opt"
proof (induction xs arbitrary: m w ver)
  case Nil
  then show ?case by simp
next
  case (Cons x xs)
  obtain m1 where u: "locked_numeric_update i crc (rmw_spec x) m off = Some (Inr (rmw_spec x w, m1))"
    and n: "num_item i crc m1 off key (rmw_spec x w) (ver + 2) opt"
    using num_item_update [OF Cons.prems] by blast
  have "even (ver + 2)" using Cons.prems(2) by simp
  from Cons.IH [OF n this] u show ?case by (auto simp: rmw_code_locked algebra_simps)
qed

text \<open>
  C33. In-place arithmetic on a numeric item: any sequence of additions and subtractions after the item was written
  returns the wrapped and saturated results one after the other and leaves the last of them as the value, advances
  the version by exactly two per update and so keeps it even, keeps key, optional data and size, and keeps the
  checksum right. On an item with a byte value every update is refused.
\<close>

theorem raw_numeric_updates:
  assumes "raw_representable key v opt" and "off + item_size i (length key) v (length opt) \<le> length m"
  shows "\<exists>m0. raw_define i crc m off key v opt = Some m0 \<and>
    (case v of
       Bytes bs \<Rightarrow> rmw_code i crc x m0 off = Some (Inl NotNumericError)
     | U64 w \<Rightarrow> \<exists>m'. rmw_run i crc xs m0 off = Some (rmw_values xs w, m')
         \<and> raw_value i m' off = Some (U64 (fold rmw_spec xs w))
         \<and> numeric_version i m' off = Some (Some (of_nat (2 * length xs)))
         \<and> raw_key i m' off = Some key \<and> raw_optional i m' off = Some (if opt = [] then None else Some opt)
         \<and> raw_size i m' off = Some (item_size i (length key) v (length opt))
         \<and> (i \<longrightarrow> check_integrity crc m' off = Some True))"
proof -
  obtain pre blk rest h where pre: "length pre = off" and h: "describes i h key v opt" "\<not> ih_is_deleted h"
      "i \<longrightarrow> ih_crc32 h = item_crc crc h key v opt"
    and def: "raw_define i crc m off key v opt = Some (item_mem i pre h opt key (value_tail i opt key v @ rest))"
    using raw_define_split [OF assms] .
  let ?m = "item_mem i pre h opt key (value_tail i opt key v @ rest)"
  show ?thesis
  proof (cases v)
    case (Bytes bs)
    then have "raw_is_numeric i ?m off = Some False"
      using h(1) item_fields(4) [of i h opt key pre] pre by (auto simp: describes_def is_numeric_value_def)
    then have "rmw_code i crc x ?m off = Some (Inl NotNumericError)"
      by (simp add: rmw_code_locked locked_numeric_update_def lock_numeric_version_def)
    then show ?thesis using def Bytes by simp
  next
    case (U64 w)
    have "num_item i crc ?m off key w 0 opt"
      unfolding num_item_def U64 value_tail_num using h pre U64 by blast
    from rmw_run_item [OF this] obtain m' where run: "rmw_run i crc xs ?m off = Some (rmw_values xs w, m')"
      and n: "num_item i crc m' off key (fold rmw_spec xs w) (of_nat (2 * length xs)) opt" by auto
    have "even (of_nat (2 * length xs) :: u64)" by simp
    from run num_item_reads [OF n this] show ?thesis
      using def U64 by (auto simp: item_size_def)
  qed
qed

theorem raw_numeric_updates_witness:
  "\<exists>m0 m'. raw_define False (\<lambda>_. 0) (replicate 48 0) 0 [107] (U64 5) [] = Some m0
     \<and> rmw_run False (\<lambda>_. 0) [Saturating 9, Wrapping 3] m0 0 = Some ([0, 3], m') \<and> raw_value False m' 0 = Some (U64 3)"
proof -
  have "raw_representable [107] (U64 5) []" by (simp add: raw_representable_def)
  moreover have "0 + item_size False (length [107 :: u8]) (U64 5) (length ([] :: u8 list)) \<le> length (replicate 48 (0 :: u8))"
    by (simp add: item_size_def item_size_for_def numeric_value_pad_def ITEM_HDR_SIZE_def)
  ultimately show ?thesis
    using raw_numeric_updates [of "[107]" "U64 5" "[]" 0 False "replicate 48 0" "\<lambda>_. 0" "Wrapping 3" "[Saturating 9, Wrapping 3]"]
    by (auto simp: saturating_sub_def)
qed

end
