(* ===== verification/SeqLock.thy ===== *)
theory SeqLock
  imports RawItemProps "HOL-Library.Multiset"
begin

unbundle bit_operations_syntax

text \<open>
  The seqlock of a numeric item (\<^verbatim>\<open>keyvalue/src/item/raw.rs\<close>): in-place updates, publish gates that take the lock
  without an update, readers of the value and checkers of the checksum, any number of each, every access to the
  version, value and checksum words one step. The version word is loaded and compare-exchanged by a writer in one
  step at the time the exchange succeeds, since it succeeds only if the word is still the one loaded; a failed or
  spurious exchange and a load of an odd version change nothing. The order of the accesses is the one the fences of
  the source establish.

  The rest of the item does not change after \<^verbatim>\<open>define\<close> (it is not deleted meanwhile), so its checksum is a function
  \<open>crc_of\<close> of the value. As a ghost the world keeps the updates in the order they were committed.
\<close>

section \<open>The protocol\<close>

text \<open>
  \<open>Holding x v\<close> has locked version \<open>v\<close> for the update \<open>x\<close>, \<open>Computed\<close> has the new value, \<open>Stored\<close> has stored it and
  \<open>Summed\<close> its checksum; \<open>Gate v\<close> holds the lock without an update. \<open>Reading k v\<close> has loaded the even version \<open>v\<close> when
  \<open>k\<close> updates were committed, \<open>ReadValue\<close> then the value and \<open>ReadSum\<close> the checksum. \<open>Returned k w\<close> and \<open>Checked b\<close> are
  results.
\<close>

datatype seq_pc =
    Holding numeric_rmw u64 | Computed numeric_rmw u64 u64 | Stored numeric_rmw u64 u64 | Summed numeric_rmw u64 u64
  | Gate u64
  | Reading nat u64 | ReadValue nat u64 u64 | ReadSum nat u64 u64 u32
  | Returned nat u64 | Checked bool

datatype seq_world = SeqWorld (sw_version: u64) (sw_value: u64) (sw_crc: u32) (sw_ops: "numeric_rmw list") (sw_threads: "seq_pc multiset")

text \<open>Fewer than \<open>2 ^ 63\<close> updates are made to one item, so that the version does not come round.\<close>

inductive seq_step :: "bool \<Rightarrow> (u64 \<Rightarrow> u32) \<Rightarrow> seq_world \<Rightarrow> seq_world \<Rightarrow> bool" for integrity crc_of where
  lock: "even ver \<Longrightarrow>
     seq_step integrity crc_of (SeqWorld ver val crc ops T) (SeqWorld (ver + 1) val crc ops (add_mset (Holding x ver) T))"
| load: "seq_step integrity crc_of (SeqWorld ver val crc ops (add_mset (Holding x v) T))
     (SeqWorld ver val crc ops (add_mset (Computed x v (rmw_spec x val)) T))"
| store: "seq_step integrity crc_of (SeqWorld ver val crc ops (add_mset (Computed x v new) T))
     (SeqWorld ver new crc ops (add_mset (Stored x v new) T))"
| sum: "integrity \<Longrightarrow> seq_step integrity crc_of (SeqWorld ver val crc ops (add_mset (Stored x v new) T))
     (SeqWorld ver val (crc_of new) ops (add_mset (Summed x v new) T))"
| unlock: "p = (if integrity then Summed x v new else Stored x v new) \<Longrightarrow> length ops + 1 < 2 ^ 63 \<Longrightarrow>
     seq_step integrity crc_of (SeqWorld ver val crc ops (add_mset p T))
       (SeqWorld (v + 2) val crc (ops @ [x]) (add_mset (Returned (length ops + 1) new) T))"
| gate: "even ver \<Longrightarrow>
     seq_step integrity crc_of (SeqWorld ver val crc ops T) (SeqWorld (ver + 1) val crc ops (add_mset (Gate ver) T))"
| gate_drop: "seq_step integrity crc_of (SeqWorld ver val crc ops (add_mset (Gate v) T)) (SeqWorld v val crc ops T)"
| read_version: "even ver \<Longrightarrow>
     seq_step integrity crc_of (SeqWorld ver val crc ops T) (SeqWorld ver val crc ops (add_mset (Reading (length ops) ver) T))"
| read_value: "seq_step integrity crc_of (SeqWorld ver val crc ops (add_mset (Reading k v) T))
     (SeqWorld ver val crc ops (add_mset (ReadValue k v val) T))"
| read_return: "ver = v \<Longrightarrow> seq_step integrity crc_of (SeqWorld ver val crc ops (add_mset (ReadValue k v w) T))
     (SeqWorld ver val crc ops (add_mset (Returned k w) T))"
| read_sum: "integrity \<Longrightarrow> seq_step integrity crc_of (SeqWorld ver val crc ops (add_mset (ReadValue k v w) T))
     (SeqWorld ver val crc ops (add_mset (ReadSum k v w crc) T))"
| check_return: "integrity \<Longrightarrow> ver = v \<Longrightarrow> seq_step integrity crc_of (SeqWorld ver val crc ops (add_mset (ReadSum k v w c) T))
     (SeqWorld ver val crc ops (add_mset (Checked (c = crc_of w)) T))"
| retry: "p = ReadValue k v w \<or> p = ReadSum k v w c \<Longrightarrow> ver \<noteq> v \<Longrightarrow>
     seq_step integrity crc_of (SeqWorld ver val crc ops (add_mset p T)) (SeqWorld ver val crc ops T)"

text \<open>An item fresh from \<^verbatim>\<open>define\<close>.\<close>

definition seq_init :: "(u64 \<Rightarrow> u32) \<Rightarrow> u64 \<Rightarrow> seq_world \<Rightarrow> bool" where
  "seq_init crc_of w0 s \<longleftrightarrow> s = SeqWorld 0 w0 (crc_of w0) [] {#}"

section \<open>The invariant\<close>

fun is_holder :: "seq_pc \<Rightarrow> bool" where
  "is_holder (Holding x v) = True"
| "is_holder (Computed x v n) = True"
| "is_holder (Stored x v n) = True"
| "is_holder (Summed x v n) = True"
| "is_holder (Gate v) = True"
| "is_holder _ = False"

fun is_dirty :: "seq_pc \<Rightarrow> bool" where
  "is_dirty (Stored x v n) = True"
| "is_dirty (Summed x v n) = True"
| "is_dirty _ = False"

abbreviation holders :: "seq_pc multiset \<Rightarrow> seq_pc multiset" where
  "holders T \<equiv> filter_mset is_holder T"

text \<open>
  Where the lock is: \<open>com\<close> is the committed value, \<open>base\<close> the even version that goes with it, and the last argument the
  threads that hold the lock, at most one.
\<close>

inductive phase :: "bool \<Rightarrow> (u64 \<Rightarrow> u32) \<Rightarrow> u64 \<Rightarrow> u64 \<Rightarrow> u64 \<Rightarrow> u64 \<Rightarrow> u32 \<Rightarrow> seq_pc multiset \<Rightarrow> bool"
  for integrity crc_of com base where
  idle: "(integrity \<Longrightarrow> crc = crc_of com) \<Longrightarrow> phase integrity crc_of com base base com crc {#}"
| holding: "(integrity \<Longrightarrow> crc = crc_of com) \<Longrightarrow> p = Holding x base \<or> p = Gate base \<or> p = Computed x base (rmw_spec x com) \<Longrightarrow>
     phase integrity crc_of com base (base + 1) com crc {#p#}"
| stored: "new = rmw_spec x com \<Longrightarrow> p = Stored x base new \<or> p = Summed x base new \<and> crc = crc_of new \<Longrightarrow>
     phase integrity crc_of com base (base + 1) new crc {#p#}"

inductive_cases phase_idleE: "phase integrity crc_of com base ver val crc {#}"
inductive_cases phase_heldE: "phase integrity crc_of com base ver val crc {#p#}"

text \<open>What a reader has seen.\<close>

fun seen_ok :: "bool \<Rightarrow> u64 \<Rightarrow> u64 \<Rightarrow> u32 \<Rightarrow> numeric_rmw list \<Rightarrow> seq_pc \<Rightarrow> bool" where
  "seen_ok clean w0 val crc ops (Reading k v) \<longleftrightarrow> k \<le> length ops \<and> v = of_nat (2 * k)"
| "seen_ok clean w0 val crc ops (ReadValue k v w) \<longleftrightarrow> k \<le> length ops \<and> v = of_nat (2 * k) \<and> (k = length ops \<and> clean \<longrightarrow> w = val)"
| "seen_ok clean w0 val crc ops (ReadSum k v w c) \<longleftrightarrow> k \<le> length ops \<and> v = of_nat (2 * k) \<and> (k = length ops \<and> clean \<longrightarrow> w = val \<and> c = crc)"
| "seen_ok clean w0 val crc ops (Returned k w) \<longleftrightarrow> k \<le> length ops \<and> w = fold rmw_spec (take k ops) w0"
| "seen_ok clean w0 val crc ops (Checked b) \<longleftrightarrow> b"
| "seen_ok clean w0 val crc ops _ \<longleftrightarrow> True"

definition clean :: "seq_pc multiset \<Rightarrow> bool" where
  "clean T \<longleftrightarrow> (\<forall>p. p \<in># T \<longrightarrow> \<not> is_dirty p)"

lemma clean_simps [simp]: "clean {#}" "clean (add_mset p T) \<longleftrightarrow> \<not> is_dirty p \<and> clean T"
  by (auto simp: clean_def)

definition all_seen :: "bool \<Rightarrow> u64 \<Rightarrow> u64 \<Rightarrow> u32 \<Rightarrow> numeric_rmw list \<Rightarrow> seq_pc multiset \<Rightarrow> bool" where
  "all_seen c w0 val crc ops T \<longleftrightarrow> (\<forall>p. p \<in># T \<longrightarrow> seen_ok c w0 val crc ops p)"

lemma all_seen_simps [simp]:
  "all_seen c w0 val crc ops {#}"
  "all_seen c w0 val crc ops (add_mset p T) \<longleftrightarrow> seen_ok c w0 val crc ops p \<and> all_seen c w0 val crc ops T"
  by (auto simp: all_seen_def)

lemma all_seen_mono:
  assumes "all_seen c w0 val crc ops T" and "\<And>p. seen_ok c w0 val crc ops p \<Longrightarrow> seen_ok c' w0 val' crc' ops' p"
  shows "all_seen c' w0 val' crc' ops' T"
  using assms by (auto simp: all_seen_def)

lemma dirty_holder: "is_dirty p \<Longrightarrow> is_holder p"
  by (cases p) simp_all

lemma clean_holders: "clean (holders T) = clean T"
  using dirty_holder by (auto simp: clean_def)

definition seq_ok :: "bool \<Rightarrow> (u64 \<Rightarrow> u32) \<Rightarrow> u64 \<Rightarrow> seq_world \<Rightarrow> bool" where
  "seq_ok integrity crc_of w0 s = (case s of SeqWorld ver val crc ops T \<Rightarrow> length ops < 2 ^ 63
     \<and> phase integrity crc_of (fold rmw_spec ops w0) (of_nat (2 * length ops)) ver val crc (holders T)
     \<and> all_seen (clean T) w0 val crc ops T)"

section \<open>Preservation\<close>

lemma phase_even:
  assumes "phase integrity crc_of com base ver val crc H" and "even base" and "even ver"
  shows "H = {#} \<and> ver = base \<and> val = com \<and> (integrity \<longrightarrow> crc = crc_of com)"
  using assms by (cases rule: phase.cases) simp_all

lemma phase_odd:
  assumes "phase integrity crc_of com base ver val crc H" and "even base"
  shows "size H = of_bool (odd ver)"
  using assms by (cases rule: phase.cases) simp_all

lemma even_base: "even (of_nat (2 * n) :: u64)"
  by simp

lemma version_inj: "(of_nat (2 * k) :: u64) = of_nat (2 * n) \<Longrightarrow> k < 2 ^ 63 \<Longrightarrow> n < 2 ^ 63 \<Longrightarrow> k = n"
proof -
  assume "(of_nat (2 * k) :: u64) = of_nat (2 * n)" and b: "k < 2 ^ 63" "n < 2 ^ 63"
  then have "unat (of_nat (2 * k) :: u64) = unat (of_nat (2 * n) :: u64)" by simp
  then have "(2 * k) mod 2 ^ 64 = (2 * n) mod 2 ^ 64" by (simp only: unat_of_nat) simp
  moreover have "2 * k < 2 ^ 64" "2 * n < 2 ^ 64" using b by simp_all
  ultimately show "k = n" by simp
qed

lemma phase_single: "phase i c com base ver val crc (add_mset p H) \<Longrightarrow> H = {#}"
  by (auto elim: phase.cases)

text \<open>The lock moves from point to point.\<close>

lemma phase_lock:
  assumes "phase i c com base ver val crc H" and "even base" and "even ver" and "p = Holding x ver \<or> p = Gate ver"
  shows "phase i c com base (ver + 1) val crc (add_mset p H)"
  using phase_even [OF assms(1-3)] assms(4) by (auto intro!: phase.holding)

lemma phase_load:
  assumes "phase i c com base ver val crc (add_mset (Holding x v) H)"
  shows "phase i c com base ver val crc (add_mset (Computed x v (rmw_spec x val)) H)"
  using assms by (auto elim!: phase.cases intro!: phase.holding)

lemma phase_store:
  assumes "phase i c com base ver val crc (add_mset (Computed x v new) H)"
  shows "phase i c com base ver new crc (add_mset (Stored x v new) H)"
  using assms by (auto elim!: phase.cases intro!: phase.stored)

lemma phase_sum:
  assumes "phase i c com base ver val crc (add_mset (Stored x v new) H)"
  shows "phase i c com base ver val (c new) (add_mset (Summed x v new) H)"
  using assms by (auto elim!: phase.cases intro!: phase.stored)

lemma phase_unlock:
  assumes "phase i c com base ver val crc (add_mset p H)" and "p = (if i then Summed x v new else Stored x v new)"
  shows "H = {#} \<and> v = base \<and> new = rmw_spec x com \<and> val = new \<and> (i \<longrightarrow> crc = c new)"
  using assms by (auto elim!: phase.cases split: if_splits)

lemma phase_drop:
  assumes "phase i c com base ver val crc (add_mset (Gate v) H)"
  shows "phase i c com base v val crc H"
  using assms by (auto elim!: phase.cases intro!: phase.idle)

lemma seen_read_end:
  assumes "seq_ok i c w0 (SeqWorld ver val crc ops (add_mset p T))" and "p = ReadValue k ver w \<or> p = ReadSum k ver w s"
  shows "k = length ops \<and> w = fold rmw_spec ops w0 \<and> (p = ReadSum k ver w s \<and> i \<longrightarrow> s = c w)"
proof -
  have ph: "phase i c (fold rmw_spec ops w0) (of_nat (2 * length ops)) ver val crc (holders T)"
    and seen: "seen_ok (clean T) w0 val crc ops p" and n: "length ops < 2 ^ 63"
    using assms by (auto simp: seq_ok_def)
  have k: "k \<le> length ops" "ver = of_nat (2 * k)" using seen assms(2) by auto
  then have ev: "even ver" by simp
  from phase_even [OF ph even_base ev] have e: "holders T = {#}" "ver = of_nat (2 * length ops)"
    "val = fold rmw_spec ops w0" "i \<longrightarrow> crc = c val" by simp_all
  then have "k = length ops" using version_inj [of k "length ops"] k n by simp
  moreover have "clean T" using clean_holders [of T] unfolding e(1) by simp
  ultimately show ?thesis using seen assms(2) e by auto
qed

lemma seq_step_ok:
  assumes "seq_step i c s s'" and "seq_ok i c w0 s"
  shows "seq_ok i c w0 s'"
  using assms
proof cases
  case (lock ver val crc ops T x)
  then have "phase i c (fold rmw_spec ops w0) (of_nat (2 * length ops)) (ver + 1) val crc (add_mset (Holding x ver) (holders T))"
    using assms(2) by (intro phase_lock) (auto simp: seq_ok_def)
  then show ?thesis using lock assms(2) by (simp add: seq_ok_def)
next
  case (load ver val crc ops x v T)
  then show ?thesis using assms(2) phase_load by (simp add: seq_ok_def)
next
  case (store ver val crc ops x v new T)
  have ph: "phase i c (fold rmw_spec ops w0) (of_nat (2 * length ops)) ver val crc (add_mset (Computed x v new) (holders T))"
    using assms(2) store by (simp add: seq_ok_def)
  have "all_seen (clean T) w0 val crc ops T" using assms(2) store by (simp add: seq_ok_def)
  then have "all_seen False w0 new crc ops T"
  proof (rule all_seen_mono)
    fix p assume "seen_ok (clean T) w0 val crc ops p"
    then show "seen_ok False w0 new crc ops p" by (cases p) auto
  qed
  then show ?thesis using store assms(2) phase_store [OF ph] by (simp add: seq_ok_def)
next
  case (sum ver val crc ops x v new T)
  have "all_seen False w0 val crc ops T" using assms(2) sum by (simp add: seq_ok_def)
  then have "all_seen False w0 val (c new) ops T"
  proof (rule all_seen_mono)
    fix p assume "seen_ok False w0 val crc ops p"
    then show "seen_ok False w0 val (c new) ops p" by (cases p) auto
  qed
  moreover have "phase i c (fold rmw_spec ops w0) (of_nat (2 * length ops)) ver val (c new) (add_mset (Summed x v new) (holders T))"
    by (rule phase_sum [where crc = crc]) (use assms(2) sum in \<open>simp add: seq_ok_def\<close>)
  ultimately show ?thesis using sum(2) assms(2) unfolding sum(1) by (simp add: seq_ok_def)
next
  case (unlock p x v new ops ver val crc T)
  have p: "is_holder p" "is_dirty p" using unlock(3) by (auto split: if_splits)
  have "phase i c (fold rmw_spec ops w0) (of_nat (2 * length ops)) ver val crc (add_mset p (holders T))"
    using assms(2) unlock(1) p(1) by (simp add: seq_ok_def)
  from phase_unlock [OF this unlock(3)] have e: "holders T = {#}" "v = of_nat (2 * length ops)"
    "new = rmw_spec x (fold rmw_spec ops w0)" "val = new" "i \<longrightarrow> crc = c new" by auto
  have "all_seen False w0 val crc ops T" using assms(2) unlock(1) p(2) by (simp add: seq_ok_def)
  then have "all_seen (clean T) w0 val crc (ops @ [x]) T"
  proof (rule all_seen_mono)
    fix q assume "seen_ok False w0 val crc ops q"
    then show "seen_ok (clean T) w0 val crc (ops @ [x]) q" by (cases q) auto
  qed
  moreover have "phase i c new (v + 2) (v + 2) new crc (holders T)" unfolding e(1) by (rule phase.idle) (use e(5) in simp)
  ultimately show ?thesis using unlock(2,4) e(2-4) by (simp add: seq_ok_def algebra_simps)
next
  case (gate ver val crc ops T)
  then have "phase i c (fold rmw_spec ops w0) (of_nat (2 * length ops)) (ver + 1) val crc (add_mset (Gate ver) (holders T))"
    using assms(2) by (intro phase_lock) (auto simp: seq_ok_def)
  then show ?thesis using gate assms(2) by (simp add: seq_ok_def)
next
  case (gate_drop ver val crc ops v T)
  then show ?thesis using assms(2) phase_drop [of i c _ _ ver val crc v "holders T"] by (simp add: seq_ok_def)
next
  case (read_version ver val crc ops T)
  then have "ver = of_nat (2 * length ops)" using assms(2) phase_even [OF _ even_base] by (auto simp: seq_ok_def)
  then show ?thesis using read_version assms(2) by (simp add: seq_ok_def)
next
  case (read_value ver val crc ops k v T)
  then show ?thesis using assms(2) by (simp add: seq_ok_def)
next
  case (read_return ver v val crc ops k w T)
  have "k = length ops \<and> w = fold rmw_spec ops w0"
    using seen_read_end [of i c w0 ver val crc ops "ReadValue k v w" T k w] assms(2) read_return by blast
  then show ?thesis using assms(2) unfolding read_return(1,2) by (simp add: seq_ok_def)
next
  case (read_sum ver val crc ops k v w T)
  then show ?thesis using assms(2) by (simp add: seq_ok_def)
next
  case (check_return ver v val crc ops k w s T)
  have "s = c w"
    using seen_read_end [of i c w0 ver val crc ops "ReadSum k v w s" T k w s] assms(2) check_return by blast
  then show ?thesis using assms(2) unfolding check_return(1,2) by (simp add: seq_ok_def)
next
  case (retry p k v w s ver val crc ops T)
  then show ?thesis using assms(2) by (auto simp: seq_ok_def)
qed

lemma seq_init_ok: "seq_init crc_of w0 s \<Longrightarrow> seq_ok i crc_of w0 s"
  by (auto simp: seq_init_def seq_ok_def intro: phase.idle)

interpretation seqlock: invariant_system "seq_init crc_of w0" "seq_step i crc_of" "seq_ok i crc_of w0" for i crc_of w0
  by unfold_locales (auto intro: seq_init_ok seq_step_ok)

section \<open>Properties\<close>

text \<open>
  C18. Updates and reads of a numeric item are linearizable. In every interleaving at most one thread holds the lock, and
  one does exactly while the version is odd. Whenever the version is even, the value is the one that the committed updates
  give when applied one after the other, none lost, the version is twice their number, and the checksum belongs to the
  value. What an update or a read returns is the value after a prefix of the committed updates, for a read the prefix
  committed when its last round started. No check of the checksum ever fails.
\<close>

theorem seqlock_linearizable:
  assumes "seq_init crc_of w0 s" and "(seq_step i crc_of)\<^sup>*\<^sup>* s (SeqWorld ver val crc ops T)"
  shows "size (filter_mset is_holder T) = of_bool (odd ver)
    \<and> (even ver \<longrightarrow> val = fold rmw_spec ops w0 \<and> ver = of_nat (2 * length ops) \<and> (i \<longrightarrow> crc = crc_of val))
    \<and> (\<forall>k w. Returned k w \<in># T \<longrightarrow> k \<le> length ops \<and> w = fold rmw_spec (take k ops) w0)
    \<and> Checked False \<notin># T"
proof -
  have ok: "seq_ok i crc_of w0 (SeqWorld ver val crc ops T)" using seqlock.inv_reachable [OF assms] .
  then have ph: "phase i crc_of (fold rmw_spec ops w0) (of_nat (2 * length ops)) ver val crc (holders T)"
    and seen: "all_seen (clean T) w0 val crc ops T" by (simp_all add: seq_ok_def)
  have "seen_ok (clean T) w0 val crc ops p" if "p \<in># T" for p using seen that by (simp add: all_seen_def)
  then have "k \<le> length ops \<and> w = fold rmw_spec (take k ops) w0" if "Returned k w \<in># T" for k w using that by fastforce
  moreover have "Checked False \<notin># T" using \<open>\<And>p. p \<in># T \<Longrightarrow> seen_ok (clean T) w0 val crc ops p\<close> by fastforce
  ultimately show ?thesis using phase_odd [OF ph even_base] phase_even [OF ph even_base] by auto
qed

lemma seq_demo:
  "(seq_step True c)\<^sup>*\<^sup>* (SeqWorld 0 5 (c 5) [] {#})
     (SeqWorld 2 8 (c 8) [Wrapping 3] {#Returned 1 8#})"
proof -
  let ?r = "(seq_step True c)\<^sup>*\<^sup>* (SeqWorld 0 5 (c 5) [] {#})"
  have "?r (SeqWorld 1 5 (c 5) [] {#Holding (Wrapping 3) 0#})"
    using seq_step.lock [of 0 True c 5 "c 5" "[]" "{#}" "Wrapping 3"] by auto
  then have "?r (SeqWorld 1 5 (c 5) [] {#Computed (Wrapping 3) 0 8#})"
    using seq_step.load [of True c 1 5 "c 5" "[]" "Wrapping 3" 0 "{#}"] by (auto intro: rtranclp.rtrancl_into_rtrancl)
  then have "?r (SeqWorld 1 8 (c 5) [] {#Stored (Wrapping 3) 0 8#})"
    using seq_step.store [of True c 1 5 "c 5" "[]" "Wrapping 3" 0 8 "{#}"] by (auto intro: rtranclp.rtrancl_into_rtrancl)
  then have "?r (SeqWorld 1 8 (c 8) [] {#Summed (Wrapping 3) 0 8#})"
    using seq_step.sum [of True c 1 8 "c 5" "[]" "Wrapping 3" 0 8 "{#}"] by (auto intro: rtranclp.rtrancl_into_rtrancl)
  then show ?thesis
    using seq_step.unlock [of "Summed (Wrapping 3) 0 8" True "Wrapping 3" 0 8 "[]" c 1 8 "c 8" "{#}"]
    by (auto intro: rtranclp.rtrancl_into_rtrancl)
qed

theorem seqlock_linearizable_witness:
  "seq_init ucast 5 (SeqWorld 0 5 5 [] {#}) \<and> (8 :: u64) = fold rmw_spec [Wrapping 3] 5"
proof -
  have s: "seq_init (ucast :: u64 \<Rightarrow> u32) 5 (SeqWorld 0 5 (ucast (5 :: u64)) [] {#})" by (simp add: seq_init_def)
  from seqlock_linearizable [OF s seq_demo] s show ?thesis by simp
qed

end
