(* ===== verification/SegStore.thy ===== *)
theory SegStore
  imports SegHeader Location RawItem
begin

unbundle bit_operations_syntax

text \<open>
  The segment store (\<^verbatim>\<open>segments/segments.rs\<close>, \<^verbatim>\<open>free_queue.rs\<close>, \<^verbatim>\<open>builder.rs\<close>, \<^verbatim>\<open>error.rs\<close>): the headers, the item
  memory, the free and spare queues, the pool count, and the operations on them by one thread. A panic of the source (an
  index out of range, a failed assertion) and a spin that no other thread could end are \<^const>\<open>None\<close>. The injector queues
  are lists taken at the front; \<^verbatim>\<open>Steal::Retry\<close> is contention and does not occur. Metrics that count events are
  left out; the four item gauges, which the header operations settle, are kept.
\<close>

section \<open>The store\<close>

datatype segments_error =
    BadSegmentId | RelinkFailure | NoEvictableSegments | EvictFailure | SegmentTooSmall | SegmentSizeUnaligned
  | InvalidHeapSize nat nat | TooManySegments nat nat | SegmentTooLarge nat nat | Mmap

text \<open>\<^verbatim>\<open>Policy\<close>; the admission ratio is a floating-point number, which the model carries without looking at it.\<close>

datatype 'f policy =
    PolicyNone | PolicyRandom | RandomFifo | Fifo | Cte | Util | Merge nat nat nat | S3Fifo 'f

record segments =
  sg_headers :: "seg_header list"
  sg_data :: "u8 list"
  sg_segment_size :: i32
  sg_cap :: u32
  sg_free_queue :: "u32 list"
  sg_freed :: u64
  sg_spare_queue :: "u32 list"
  sg_spare_capacity :: u32
  sg_spare_count :: u32
  sg_admission_cap :: u32
  sg_admission_count :: u32
  sg_gauges :: item_gauges

datatype clear_outcome = CFreed | CDeferred

record reserved_item =
  ri_seg :: u32
  ri_generation :: u16
  ri_offset :: nat

datatype alloc_outcome = AllocReserved reserved_item | Full | NotWritable

text \<open>\<^verbatim>\<open>header\<close>: the header of a 1-based id, and a change of it.\<close>

definition header_of :: "segments \<Rightarrow> u32 \<Rightarrow> seg_header option" where
  "header_of s seg_id = (if seg_id \<noteq> 0 \<and> unat seg_id - 1 < length (sg_headers s)
     then Some (sg_headers s ! (unat seg_id - 1)) else None)"

definition put_header :: "segments \<Rightarrow> u32 \<Rightarrow> seg_header \<Rightarrow> segments" where
  "put_header s seg_id h = s\<lparr>sg_headers := (sg_headers s)[unat seg_id - 1 := h]\<rparr>"

definition on_header :: "segments \<Rightarrow> u32 \<Rightarrow> (seg_header \<Rightarrow> ('a \<times> seg_header) option) \<Rightarrow> ('a \<times> segments) option" where
  "on_header s seg_id f = do {
     h \<leftarrow> header_of s seg_id;
     (r, h) \<leftarrow> f h;
     Some (r, put_header s seg_id h) }"

definition update_header :: "segments \<Rightarrow> u32 \<Rightarrow> (seg_header \<Rightarrow> seg_header option) \<Rightarrow> segments option" where
  "update_header s seg_id f = do {
     h \<leftarrow> header_of s seg_id;
     h \<leftarrow> f h;
     Some (put_header s seg_id h) }"

definition reset_stats_of :: "bool \<Rightarrow> segments \<Rightarrow> u32 \<Rightarrow> segments option" where
  "reset_stats_of integrity s seg_id = do {
     h \<leftarrow> header_of s seg_id;
     let (h, g) = reset_write_stats integrity (h, sg_gauges s);
     Some (put_header (s\<lparr>sg_gauges := g\<rparr>) seg_id h) }"

section \<open>Building\<close>

definition SEG_MAGIC :: u64 where
  "SEG_MAGIC = 0xBADC0FFEEBADCAFE"

definition segment_bytes :: "bool \<Rightarrow> nat \<Rightarrow> u8 list" where
  "segment_bytes integrity sz = (if integrity then be_bytes 8 SEG_MAGIC @ replicate (sz - 8) 0 else replicate sz 0)"

text \<open>
  \<^verbatim>\<open>Segments::from_builder\<close>, with the map a fresh anonymous one, which is zeroed; \<open>admission\<close> is the rounded share of the
  segments that the S3-FIFO ratio asks for.
\<close>

fun spare_capacity_for :: "'f policy \<Rightarrow> nat" where
  "spare_capacity_for (Merge a b c) = 1"
| "spare_capacity_for _ = 0"

fun admission_cap_for :: "('f \<Rightarrow> nat \<Rightarrow> u32) \<Rightarrow> nat \<Rightarrow> 'f policy \<Rightarrow> u32" where
  "admission_cap_for admission n (S3Fifo r) = admission r n"
| "admission_cap_for admission n _ = 0"

definition segments_from_builder ::
  "bool \<Rightarrow> u32 \<Rightarrow> ('f \<Rightarrow> nat \<Rightarrow> u32) \<Rightarrow> nat \<Rightarrow> i32 \<Rightarrow> 'f policy \<Rightarrow> segments_error + segments" where
  "segments_from_builder integrity default_instant admission heap_size segment_size evict_policy =
     (let sz = nat (sint segment_size);
          n = heap_size div sz;
          spare = spare_capacity_for evict_policy;
          ids = map (\<lambda>idx. of_nat idx + 1) [0..<n] in
      if n > unat MAX_SEGMENTS then Inl (TooManySegments n (unat MAX_SEGMENTS))
      else Inr \<lparr>sg_headers = map (\<lambda>seg_id. header_init integrity (header_new integrity default_instant seg_id)) ids,
             sg_data = concat (replicate n (segment_bytes integrity sz)),
             sg_segment_size = segment_size, sg_cap = of_nat n,
             sg_free_queue = drop spare ids, sg_freed = 0, sg_spare_queue = take spare ids,
             sg_spare_capacity = of_nat spare, sg_spare_count = of_nat spare,
             sg_admission_cap = admission_cap_for admission n evict_policy,
             sg_admission_count = 0,
             sg_gauges = \<lparr>ig_current = 0, ig_current_bytes = 0, ig_dead = 0, ig_dead_bytes = 0\<rparr>\<rparr>)"

definition segments_build ::
  "bool \<Rightarrow> u32 \<Rightarrow> ('f \<Rightarrow> nat \<Rightarrow> u32) \<Rightarrow> nat \<Rightarrow> i32 \<Rightarrow> 'f policy \<Rightarrow> segments_error + segments" where
  "segments_build integrity default_instant admission heap_size segment_size evict_policy =
     (let min_size = int (ITEM_HDR_SIZE integrity) + 1 in
      if sint segment_size < min_size then Inl SegmentTooSmall
      else if nat (sint segment_size) > MAX_SEGMENT_BYTES
        then Inl (SegmentTooLarge (nat (sint segment_size)) MAX_SEGMENT_BYTES)
      else if sint segment_size mod 8 \<noteq> 0 then Inl SegmentSizeUnaligned
      else let seg_size = nat (sint segment_size) in
        if heap_size = 0 \<or> heap_size mod seg_size \<noteq> 0 then Inl (InvalidHeapSize heap_size seg_size)
        else segments_from_builder integrity default_instant admission heap_size segment_size evict_policy)"

section \<open>Pools and locations\<close>

definition pool_has_room :: "segments \<Rightarrow> segment_pool \<Rightarrow> bool" where
  "pool_has_room s pool = (case pool of Admission \<Rightarrow> sg_admission_count s < sg_admission_cap s | Main \<Rightarrow> True)"

definition incr_pool :: "segments \<Rightarrow> segment_pool \<Rightarrow> segments" where
  "incr_pool s pool = (if pool = Admission then s\<lparr>sg_admission_count := sg_admission_count s + 1\<rparr> else s)"

definition leave_pool :: "segments \<Rightarrow> u32 \<Rightarrow> segments option" where
  "leave_pool s seg_id = do {
     h \<leftarrow> header_of s seg_id;
     let s = (if header_pool h = Admission then s\<lparr>sg_admission_count := sg_admission_count s - 1\<rparr> else s);
     update_header s seg_id (Some \<circ> reset_pool) }"

definition tag_matches_header :: "location \<Rightarrow> seg_header \<Rightarrow> bool" where
  "tag_matches_header location h \<longleftrightarrow> location_tag location = tag_for_generation (hd_generation h)"

definition resolve :: "segments \<Rightarrow> location \<Rightarrow> (u32 \<times> nat) option option" where
  "resolve s location =
     (let (seg_id, offset) = unpack_location location in
      if seg_id = 0 then Some None
      else if seg_id > sg_cap s then Some None
      else do {
        h \<leftarrow> header_of s seg_id;
        Some (if tag_matches_header location h then Some (seg_id, offset) else None) })"

section \<open>Queues\<close>

definition push_freed :: "segments \<Rightarrow> u32 \<Rightarrow> segments" where
  "push_freed s seg_id = s\<lparr>sg_free_queue := sg_free_queue s @ [seg_id], sg_freed := sg_freed s + 1\<rparr>"

definition return_segment :: "segments \<Rightarrow> u32 \<Rightarrow> segments" where
  "return_segment s seg_id =
     (let count = sg_spare_count s in
      if count \<ge> sg_spare_capacity s then push_freed s seg_id
      else s\<lparr>sg_spare_count := snd (compare_exchange (sg_spare_count s) count (count + 1)),
             sg_spare_queue := sg_spare_queue s @ [seg_id]\<rparr>)"

definition try_reserve_of :: "bool \<Rightarrow> u32 \<Rightarrow> segments \<Rightarrow> u32 \<Rightarrow> (bool \<times> segments) option" where
  "try_reserve_of integrity now s seg_id = do {
     h \<leftarrow> header_of s seg_id;
     (won, h, g) \<leftarrow> try_reserve integrity now (h, sg_gauges s);
     Some (won, put_header (s\<lparr>sg_gauges := g\<rparr>) seg_id h) }"

definition reserve_free :: "bool \<Rightarrow> u32 \<Rightarrow> segments \<Rightarrow> (u32 option \<times> segments) option" where
  "reserve_free integrity now s =
     (case sg_free_queue s of
        [] \<Rightarrow> Some (None, s)
      | raw # rest \<Rightarrow>
          let s = s\<lparr>sg_free_queue := rest\<rparr> in
          if raw = 0 then Some (None, s)
          else do {
            (won, s) \<leftarrow> try_reserve_of integrity now s raw;
            Some (if won then (Some raw, s) else (None, s\<lparr>sg_free_queue := sg_free_queue s @ [raw]\<rparr>)) })"

definition reserve_spare :: "bool \<Rightarrow> u32 \<Rightarrow> segments \<Rightarrow> (u32 option \<times> segments) option" where
  "reserve_spare integrity now s =
     (case sg_spare_queue s of
        [] \<Rightarrow> reserve_free integrity now s
      | raw # rest \<Rightarrow>
          let s = s\<lparr>sg_spare_queue := rest\<rparr> in
          if raw = 0 then Some (None, s)
          else do {
            (won, s) \<leftarrow> try_reserve_of integrity now s raw;
            Some (if won then (Some raw, s\<lparr>sg_spare_count := sg_spare_count s - 1\<rparr>)
                  else (None, s\<lparr>sg_spare_queue := sg_spare_queue s @ [raw]\<rparr>)) })"

definition release_unused :: "segments \<Rightarrow> u32 \<Rightarrow> segments option" where
  "release_unused s seg_id = do {
     (released, s) \<leftarrow> on_header s seg_id try_release;
     if released then Some (return_segment s seg_id) else None }"

section \<open>Chains\<close>

definition unlink :: "segments \<Rightarrow> u32 \<Rightarrow> segments option" where
  "unlink s seg_id = do {
     h \<leftarrow> header_of s seg_id;
     n \<leftarrow> next_seg h;
     s \<leftarrow> (case n of
         Some nx \<Rightarrow> do { p \<leftarrow> prev_seg h; update_header s nx (set_prev_seg p) }
       | None \<Rightarrow> Some s);
     h \<leftarrow> header_of s seg_id;
     p \<leftarrow> prev_seg h;
     case p of
       Some pv \<Rightarrow> do { n \<leftarrow> next_seg h; update_header s pv (set_next_seg n) }
     | None \<Rightarrow> Some s }"

definition recycle :: "bool \<Rightarrow> segments \<Rightarrow> u32 \<Rightarrow> segments option" where
  "recycle integrity s seg_id = do {
     s \<leftarrow> unlink s seg_id;
     s \<leftarrow> leave_pool s seg_id;
     s \<leftarrow> reset_stats_of integrity s seg_id;
     (freed, s) \<leftarrow> on_header s seg_id try_release_drained;
     Some (return_segment s seg_id) }"

definition condemn ::
  "bool \<Rightarrow> segments \<Rightarrow> u32 \<Rightarrow> u32 option \<Rightarrow> u32 option \<Rightarrow> (clear_outcome \<times> segments) option" where
  "condemn integrity s seg_id next' prev' = do {
     s \<leftarrow> leave_pool s seg_id;
     (condemned, s) \<leftarrow> on_header s seg_id cas_condemn;
     s \<leftarrow> (case prev' of Some p \<Rightarrow> update_header s p (update_links (Some next') None) | None \<Rightarrow> Some s);
     s \<leftarrow> (case next' of Some n \<Rightarrow> update_header s n (update_links None (Some prev')) | None \<Rightarrow> Some s);
     h \<leftarrow> header_of s seg_id;
     if hd_ref_count h = 0 then do {
       (freed, s) \<leftarrow> on_header s seg_id try_release_condemned;
       if freed then do {
         s \<leftarrow> reset_stats_of integrity s seg_id;
         Some (CFreed, return_segment s seg_id) }
       else Some (CDeferred, s) }
     else Some (CDeferred, s) }"

text \<open>\<^verbatim>\<open>claim_for_drain\<close>; with a pin outstanding and no other thread to release it, the wait would not end.\<close>

definition wait_unpinned :: "seg_header \<Rightarrow> unit option" where
  "wait_unpinned h = (if hd_active_writers h = 0 \<and> hd_active_removers h = 0 then Some () else None)"

definition claim_for_drain :: "segments \<Rightarrow> u32 \<Rightarrow> (bool \<times> segments) option" where
  "claim_for_drain s seg_id = do {
     (won, s) \<leftarrow> on_header s seg_id (cas_metadata Sealed Draining None None);
     if won then do {
       h \<leftarrow> header_of s seg_id;
       wait_unpinned h;
       Some (True, s) }
     else Some (False, s) }"

section \<open>Items\<close>

definition byte_offset :: "segments \<Rightarrow> u32 \<Rightarrow> nat \<Rightarrow> nat" where
  "byte_offset s seg_id offset = nat (sint (sg_segment_size s)) * (unat seg_id - 1) + offset"

text \<open>The drop of a reader guard, and of a writer pin.\<close>

definition drop_guard :: "bool \<Rightarrow> segments \<Rightarrow> u32 \<Rightarrow> segments option" where
  "drop_guard integrity s seg_id = do {
     (prev, s) \<leftarrow> on_header s seg_id (Some \<circ> release_reader_for_guard);
     if prev = 1 then do {
       (freed, s) \<leftarrow> on_header s seg_id try_release_condemned;
       if freed then do { s \<leftarrow> reset_stats_of integrity s seg_id; Some (push_freed s seg_id) }
       else Some s }
     else Some s }"

definition drop_writer :: "segments \<Rightarrow> u32 \<Rightarrow> segments option" where
  "drop_writer s seg_id = update_header s seg_id (Some \<circ> release_writer)"

definition drop_remover :: "segments \<Rightarrow> u32 \<Rightarrow> segments option" where
  "drop_remover s seg_id = update_header s seg_id (Some \<circ> release_remover)"

definition acquire_item_at :: "bool \<Rightarrow> segments \<Rightarrow> location \<Rightarrow> (nat option \<times> segments) option" where
  "acquire_item_at integrity s location =
     (let (seg_id, offset) = unpack_location location in
      if seg_id = 0 then Some (None, s)
      else if seg_id > sg_cap s then None
      else do {
        (outcome, s) \<leftarrow> on_header s seg_id (try_acquire_reader (\<lambda>_ h. h));
        case outcome of
          NotReadable \<Rightarrow> Some (None, s)
        | ReleaseCondemned \<Rightarrow> do { s \<leftarrow> reset_stats_of integrity s seg_id; Some (None, return_segment s seg_id) }
        | Acquired \<Rightarrow> do {
            h \<leftarrow> header_of s seg_id;
            if \<not> tag_matches_header location h then do { s \<leftarrow> drop_guard integrity s seg_id; Some (None, s) }
            else Some (Some (byte_offset s seg_id offset), s) } })"

definition try_alloc_item :: "segments \<Rightarrow> u32 \<Rightarrow> i32 \<Rightarrow> (alloc_outcome \<times> segments) option" where
  "try_alloc_item s seg_id sz = do {
     (pinned, s) \<leftarrow> on_header s seg_id (try_pin_writer (\<lambda>h. h));
     if \<not> pinned then Some (NotWritable, s)
     else do {
       (granted, s) \<leftarrow> on_header s seg_id (Some \<circ> try_reserve_space sz (sg_segment_size s));
       case granted of
         None \<Rightarrow> do { s \<leftarrow> drop_writer s seg_id; Some (Full, s) }
       | Some offset \<Rightarrow> do {
           s \<leftarrow> update_header s seg_id (Some \<circ> incr_live_items);
           s \<leftarrow> update_header s seg_id (Some \<circ> incr_live_bytes sz);
           let g = sg_gauges s;
           let s = s\<lparr>sg_gauges := g\<lparr>ig_current := ig_current g + 1, ig_current_bytes := ig_current_bytes g + sint sz\<rparr>\<rparr>;
           h \<leftarrow> header_of s seg_id;
           Some (AllocReserved \<lparr>ri_seg = seg_id, ri_generation = hd_generation h, ri_offset = nat (sint offset)\<rparr>, s) } } }"

definition try_pin_remover_of :: "segments \<Rightarrow> u32 \<Rightarrow> (bool \<times> segments) option" where
  "try_pin_remover_of s seg_id = on_header s seg_id (try_pin_remover (\<lambda>h. h))"

end
