(* ===== verification/SegView.thy ===== *)
theory SegView
  imports SegStore Hashtable
begin

unbundle bit_operations_syntax

text \<open>
  The operations on the contents of one segment (\<^verbatim>\<open>segments/segment.rs\<close>) and the drain that ends an incarnation
  (\<^verbatim>\<open>finalize_drained\<close> and \<^verbatim>\<open>clear_segment\<close> of \<^verbatim>\<open>segments/segments.rs\<close>). A \<^verbatim>\<open>Segment\<close> is a view of the store, so its
  operations take the store and the id.
\<close>

section \<open>The view\<close>

abbreviation seg_base :: "segments \<Rightarrow> u32 \<Rightarrow> nat" where
  "seg_base s seg_id \<equiv> byte_offset s seg_id 0"

definition seg_check_magic :: "bool \<Rightarrow> segments \<Rightarrow> u32 \<Rightarrow> unit option" where
  "seg_check_magic integrity s seg_id = do {
     magic \<leftarrow> (if integrity then map_option be_word (load_bytes (sg_data s) (seg_base s seg_id) 8) else Some SEG_MAGIC);
     if magic = SEG_MAGIC then Some () else None }"

definition segment_view :: "bool \<Rightarrow> segments \<Rightarrow> u32 \<Rightarrow> (segments_error + unit) option" where
  "segment_view integrity s seg_id =
     (if unat seg_id - 1 < length (sg_headers s)
      then do { seg_check_magic integrity s seg_id; Some (Inr ()) }
      else Some (Inl BadSegmentId))"

definition max_item_offset :: "bool \<Rightarrow> segments \<Rightarrow> seg_header \<Rightarrow> nat" where
  "max_item_offset integrity s h =
     (if sint (hd_write_offset h) \<ge> int (ITEM_HDR_SIZE integrity)
      then min (nat (sint (hd_write_offset h))) (nat (sint (sg_segment_size s))) - ITEM_HDR_SIZE integrity
      else if integrity then 8 else 0)"

definition seg_item_at :: "bool \<Rightarrow> segments \<Rightarrow> u32 \<Rightarrow> nat \<Rightarrow> nat option" where
  "seg_item_at integrity s seg_id offset = do {
     h \<leftarrow> header_of s seg_id;
     if offset \<le> max_item_offset integrity s h then Some (byte_offset s seg_id offset) else None }"

definition remove_item_at :: "bool \<Rightarrow> segments \<Rightarrow> u32 \<Rightarrow> nat \<Rightarrow> segments option" where
  "remove_item_at integrity s seg_id offset = do {
     item \<leftarrow> seg_item_at integrity s seg_id offset;
     sz \<leftarrow> raw_size integrity (sg_data s) item;
     let sz = (of_nat sz :: i32);
     let g = sg_gauges s;
     let s = s\<lparr>sg_gauges := \<lparr>ig_current = ig_current g - 1, ig_current_bytes = ig_current_bytes g - sint sz,
                            ig_dead = ig_dead g + 1, ig_dead_bytes = ig_dead_bytes g + sint sz\<rparr>\<rparr>;
     seg_check_magic integrity s seg_id;
     s \<leftarrow> update_header s seg_id (Some \<circ> decr_item sz);
     s \<leftarrow> update_header s seg_id (Some \<circ> incr_dead_item sz);
     h \<leftarrow> header_of s seg_id;
     if sint (hd_live_bytes h) \<ge> 0 \<and> sint (hd_live_items h) \<ge> 0
     then do { seg_check_magic integrity s seg_id; Some s } else None }"

section \<open>Clearing\<close>

lemma raw_size_pos: "raw_size i m off = Some n \<Longrightarrow> 0 < n"
  by (auto simp: raw_size_def push_bit_eq_mult split: Option.bind_splits)

text \<open>One item of \<^verbatim>\<open>Segment::clear\<close>, and the loop over the item stream.\<close>

definition clear_item ::
  "bool \<Rightarrow> u32 \<Rightarrow> nat \<Rightarrow> nat \<Rightarrow> segments \<times> hashtable \<Rightarrow> (segments \<times> hashtable) option" where
  "clear_item integrity seg_id offset item sht = do {
     let (s, ht) = sht;
     raw_check_magic integrity (sg_data s) item;
     h \<leftarrow> header_of s seg_id;
     key \<leftarrow> raw_key integrity (sg_data s) item;
     let loc = pack_location seg_id (hd_generation h) (of_nat offset);
     let deleted = (get_item_frequency key loc ht = None);
     if \<not> deleted then (case ht_remove key loc ht of
         (True, ht) \<Rightarrow> do { s \<leftarrow> remove_item_at integrity s seg_id offset; Some (s, ht) }
       | (False, ht) \<Rightarrow> Some (s, ht))
     else Some (s, ht) }"

function clear_loop ::
  "bool \<Rightarrow> u32 \<Rightarrow> nat \<Rightarrow> nat \<Rightarrow> segments \<times> hashtable \<Rightarrow> (segments \<times> hashtable) option" where
  "clear_loop integrity seg_id max_offset offset sht =
     (if offset \<le> max_offset then do {
        item \<leftarrow> seg_item_at integrity (fst sht) seg_id offset;
        klen \<leftarrow> raw_klen integrity (sg_data (fst sht)) item;
        h \<leftarrow> header_of (fst sht) seg_id;
        if klen = 0 \<and> hd_live_items h = 0 then Some sht
        else do {
          sht \<leftarrow> clear_item integrity seg_id offset item sht;
          sz \<leftarrow> raw_size integrity (sg_data (fst sht)) item;
          clear_loop integrity seg_id max_offset (offset + sz) sht } }
      else Some sht)"
  by pat_completeness auto
termination
  by (relation "measure (\<lambda>(_, _, max_offset, offset, _). Suc max_offset - offset)") (auto dest: raw_size_pos)

declare clear_loop.simps [simp del]

definition seg_clear :: "bool \<Rightarrow> segments \<times> hashtable \<Rightarrow> u32 \<Rightarrow> (segments \<times> hashtable) option" where
  "seg_clear integrity sht seg_id = do {
     h \<leftarrow> header_of (fst sht) seg_id;
     (s, ht) \<leftarrow> clear_loop integrity seg_id (max_item_offset integrity (fst sht) h) (if integrity then 8 else 0) sht;
     s \<leftarrow> update_header s seg_id (\<lambda>h. Some (set_write_offset (hd_live_bytes h) h));
     Some (s, ht) }"

definition finalize_drained ::
  "bool \<Rightarrow> segments \<times> hashtable \<Rightarrow> u32 \<Rightarrow> (clear_outcome \<times> segments \<times> hashtable) option" where
  "finalize_drained integrity sht seg_id = do {
     h \<leftarrow> header_of (fst sht) seg_id;
     n \<leftarrow> next_seg h;
     p \<leftarrow> prev_seg h;
     v \<leftarrow> segment_view integrity (fst sht) seg_id;
     case v of Inl _ \<Rightarrow> None
     | Inr _ \<Rightarrow> do {
         (s, ht) \<leftarrow> seg_clear integrity sht seg_id;
         h \<leftarrow> header_of s seg_id;
         if hd_ref_count h = 0 then do { s \<leftarrow> recycle integrity s seg_id; Some (CFreed, s, ht) }
         else do { (r, s) \<leftarrow> condemn integrity s seg_id n p; Some (r, s, ht) } } }"

definition clear_segment ::
  "bool \<Rightarrow> segments \<times> hashtable \<Rightarrow> u32 \<Rightarrow> ((unit + clear_outcome) \<times> segments \<times> hashtable) option" where
  "clear_segment integrity sht seg_id = do {
     (won, s) \<leftarrow> claim_for_drain (fst sht) seg_id;
     if won then do { (r, s, ht) \<leftarrow> finalize_drained integrity (s, snd sht) seg_id; Some (Inr r, s, ht) }
     else Some (Inl (), s, snd sht) }"

end
