(* ===== verification/TtlChain.thy ===== *)
theory TtlChain
  imports SegView TtlIndex
begin

unbundle bit_operations_syntax

text \<open>
  A TTL bucket and its chain of segments (\<^verbatim>\<open>ttl_buckets/ttl_bucket.rs\<close>, \<^verbatim>\<open>error.rs\<close>), by one thread: extending the chain,
  reserving space in its tail, and draining it. The loops of \<^verbatim>\<open>reserve\<close> and of the drain may in principle run for
  ever, so they are partial functions whose not returning is \<^const>\<open>None\<close>, like a panic. Times are seconds; \<open>after\<close> is
  the sum of an instant and a duration, which the clock crate defines.
\<close>

section \<open>The bucket\<close>

record ttl_bucket =
  tb_head :: u32
  tb_tail :: u32
  tb_ttl :: i32
  tb_nseg :: u32
  tb_next_to_merge :: u32

datatype ttl_error = ItemOversized nat | NoFreeSegments

definition bucket_new_ttl :: "i32 \<Rightarrow> ttl_bucket" where
  "bucket_new_ttl ttl = \<lparr>tb_head = 0, tb_tail = 0, tb_ttl = ttl, tb_nseg = 0, tb_next_to_merge = 0\<rparr>"

definition bucket_head :: "ttl_bucket \<Rightarrow> u32 option" where
  "bucket_head b = link_new (tb_head b)"

definition set_head :: "u32 option \<Rightarrow> ttl_bucket \<Rightarrow> ttl_bucket" where
  "set_head seg_id b = b\<lparr>tb_head := link_get seg_id\<rparr>"

definition bucket_tail :: "ttl_bucket \<Rightarrow> u32 option" where
  "bucket_tail b = link_new (tb_tail b)"

definition set_tail :: "u32 option \<Rightarrow> ttl_bucket \<Rightarrow> ttl_bucket" where
  "set_tail seg_id b = b\<lparr>tb_tail := link_get seg_id\<rparr>"

definition cas_tail_none_to :: "u32 \<Rightarrow> ttl_bucket \<Rightarrow> bool \<times> ttl_bucket" where
  "cas_tail_none_to seg_id b =
     (case compare_exchange (tb_tail b) 0 seg_id of
        (Inr _, w) \<Rightarrow> (True, b\<lparr>tb_tail := w\<rparr>)
      | (Inl _, w) \<Rightarrow> (False, b\<lparr>tb_tail := w\<rparr>))"

definition holds_ttl :: "ttl_bucket \<Rightarrow> u32 \<Rightarrow> bool" where
  "holds_ttl b ttl \<longleftrightarrow> ttl = tb_ttl b"

section \<open>Extending the chain\<close>

text \<open>
  The election of \<^verbatim>\<open>try_expand\<close>, whether it was won: with no other thread the seal fails only on a tail that is not
  live.
\<close>

definition elect :: "(u32 \<times> u16) option \<Rightarrow> u32 \<Rightarrow> segments \<times> ttl_bucket \<Rightarrow> (bool \<times> segments \<times> ttl_bucket) option" where
  "elect observed seg_id sb =
     (case observed of
        Some (tail_id, _) \<Rightarrow> do {
          (sealed, s) \<leftarrow> on_header (fst sb) tail_id (cas_metadata Live Sealed (Some (Some seg_id)) None);
          if sealed then do {
            (linked, s) \<leftarrow> on_header s seg_id (cas_metadata Reserved Linking (Some None) (Some (Some tail_id)));
            Some (True, s, set_tail (Some seg_id) (snd sb)) }
          else Some (False, s, snd sb) }
      | None \<Rightarrow>
          (case cas_tail_none_to seg_id (snd sb) of
             (True, b) \<Rightarrow> do {
               (linked, s) \<leftarrow> on_header (fst sb) seg_id (cas_metadata Reserved Linking (Some None) (Some None));
               Some (True, s, set_head (Some seg_id) b) }
           | (False, b) \<Rightarrow> Some (False, fst sb, b)))"

definition try_expand ::
  "bool \<Rightarrow> u32 \<Rightarrow> (u32 \<times> u16) option \<Rightarrow> segments \<times> ttl_bucket \<Rightarrow> ((ttl_error + unit) \<times> segments \<times> ttl_bucket) option" where
  "try_expand integrity now observed sb = do {
     let b = snd sb;
     (reserved, s) \<leftarrow> reserve_free integrity now (fst sb);
     case reserved of
       None \<Rightarrow> Some (Inl NoFreeSegments, s, b)
     | Some seg_id \<Rightarrow> do {
         s \<leftarrow> update_header s seg_id (Some \<circ> set_ttl (tb_ttl b));
         stale \<leftarrow> (case observed of
             Some (tail_id, gen) \<Rightarrow> do {
               h \<leftarrow> header_of s tail_id;
               Some (bucket_tail b \<noteq> Some tail_id \<or> hd_generation h \<noteq> gen) }
           | None \<Rightarrow> Some False);
         if stale then do { s \<leftarrow> release_unused s seg_id; Some (Inr (), s, b) }
         else do {
           (won, s, b) \<leftarrow> elect observed seg_id (s, b);
           if won then do {
             (live, s) \<leftarrow> on_header s seg_id (cas_metadata Linking Live None None);
             Some (Inr (), s, b\<lparr>tb_nseg := tb_nseg b + 1\<rparr>) }
           else if bucket_tail b = map_option fst observed then None
           else do { s \<leftarrow> release_unused s seg_id; Some (Inr (), s, b) } } } }"

section \<open>Reserving space\<close>

partial_function (option) bucket_reserve_loop ::
  "bool \<Rightarrow> u32 \<Rightarrow> i32 \<Rightarrow> segments \<times> ttl_bucket \<Rightarrow> ((ttl_error + reserved_item) \<times> segments \<times> ttl_bucket) option" where
  [code]: "bucket_reserve_loop integrity now sz sb =
     (case bucket_tail (snd sb) of
        Some tail_id \<Rightarrow> do {
          h \<leftarrow> header_of (fst sb) tail_id;
          (outcome, s) \<leftarrow> try_alloc_item (fst sb) tail_id sz;
          (case outcome of
             AllocReserved r \<Rightarrow> Some (Inr r, s, snd sb)
           | NotWritable \<Rightarrow> bucket_reserve_loop integrity now sz (s, snd sb)
           | Full \<Rightarrow> do {
               (r, sb) \<leftarrow> try_expand integrity now (Some (tail_id, hd_generation h)) (s, snd sb);
               (case r of Inl e \<Rightarrow> Some (Inl e, sb) | Inr _ \<Rightarrow> bucket_reserve_loop integrity now sz sb) }) }
      | None \<Rightarrow> do {
          (r, sb) \<leftarrow> try_expand integrity now None sb;
          (case r of Inl e \<Rightarrow> Some (Inl e, sb) | Inr _ \<Rightarrow> bucket_reserve_loop integrity now sz sb) })"

definition bucket_reserve ::
  "bool \<Rightarrow> u32 \<Rightarrow> nat \<Rightarrow> segments \<times> ttl_bucket \<Rightarrow> ((ttl_error + reserved_item) \<times> segments \<times> ttl_bucket) option" where
  "bucket_reserve integrity now sz sb =
     (if sz > nat (sint (sg_segment_size (fst sb))) then Some (Inl (ItemOversized sz), sb)
      else bucket_reserve_loop integrity now (of_nat sz) sb)"

section \<open>Draining\<close>

text \<open>One segment of the drain: its claim, the removal of its items, and its way out of the chain.\<close>

definition drain_segment ::
  "bool \<Rightarrow> u32 \<Rightarrow> segments \<times> hashtable \<times> ttl_bucket \<Rightarrow> (nat \<times> segments \<times> hashtable \<times> ttl_bucket) option" where
  "drain_segment integrity seg_id shb = do {
     let (s, ht, b) = shb;
     h \<leftarrow> header_of s seg_id;
     n \<leftarrow> next_seg h;
     p \<leftarrow> prev_seg h;
     (sealed, s) \<leftarrow> on_header s seg_id (cas_metadata Sealed Draining None None);
     (drained, s) \<leftarrow> (if sealed then Some (True, s) else on_header s seg_id (cas_metadata Live Draining None None));
     if \<not> drained then Some (0, s, ht, b)
     else do {
       h \<leftarrow> header_of s seg_id;
       wait_unpinned h;
       (s, ht) \<leftarrow> seg_clear integrity (s, ht) seg_id;
       let b = (if bucket_head b = Some seg_id then set_head n b else b);
       let b = (if bucket_tail b = Some seg_id then set_tail p b else b);
       h \<leftarrow> header_of s seg_id;
       if hd_ref_count h = 0 then do { s \<leftarrow> recycle integrity s seg_id; Some (1, s, ht, b) }
       else do {
         (r, s) \<leftarrow> condemn integrity s seg_id n p;
         Some (case r of CFreed \<Rightarrow> 1 | CDeferred \<Rightarrow> 0, s, ht, b) } } }"

partial_function (option) drain_loop ::
  "bool \<Rightarrow> (u32 \<Rightarrow> u32 \<Rightarrow> u32) \<Rightarrow> u32 option \<Rightarrow> u32 option \<Rightarrow> nat \<Rightarrow> segments \<times> hashtable \<times> ttl_bucket
   \<Rightarrow> (nat \<times> segments \<times> hashtable \<times> ttl_bucket) option" where
  [code]: "drain_loop integrity after cutoff cursor freed shb =
     (case cursor of
        None \<Rightarrow> Some (freed, shb)
      | Some seg_id \<Rightarrow> do {
          v \<leftarrow> segment_view integrity (fst shb) seg_id;
          (case v of Inl _ \<Rightarrow> None
           | Inr _ \<Rightarrow> do {
               h \<leftarrow> header_of (fst shb) seg_id;
               n \<leftarrow> next_seg h;
               if (case cutoff of Some now \<Rightarrow> after (hd_create_at h) (hd_ttl h) > now | None \<Rightarrow> False)
               then Some (freed, shb)
               else do {
                 (k, shb) \<leftarrow> drain_segment integrity seg_id shb;
                 drain_loop integrity after cutoff n (freed + k) shb } }) })"

definition drain_chain ::
  "bool \<Rightarrow> (u32 \<Rightarrow> u32 \<Rightarrow> u32) \<Rightarrow> u32 option \<Rightarrow> segments \<times> hashtable \<times> ttl_bucket
   \<Rightarrow> (nat \<times> segments \<times> hashtable \<times> ttl_bucket) option" where
  "drain_chain integrity after cutoff shb = drain_loop integrity after cutoff (bucket_head (snd (snd shb))) 0 shb"

definition bucket_expire where
  "bucket_expire integrity after now shb = drain_chain integrity after (Some now) shb"

definition bucket_clear where
  "bucket_clear integrity after shb = drain_chain integrity after None shb"

end
