(* ===== verification/ChainProps.thy ===== *)
theory ChainProps
  imports TtlChain
begin

unbundle bit_operations_syntax

text \<open>
  The chain of a TTL bucket as a list of segment ids: what extending it, reserving in it and draining it do to the
  list, to the queues and to the headers.
\<close>

section \<open>Headers of the store\<close>

lemma header_of_put:
  "header_of s a \<noteq> None \<Longrightarrow> header_of (put_header s a h) b = (if b = a then Some h else header_of s b)"
proof -
  assume a: "header_of s a \<noteq> None"
  have "unat a - 1 = unat b - 1 \<Longrightarrow> a \<noteq> 0 \<Longrightarrow> b \<noteq> 0 \<Longrightarrow> a = b"
    by (metis One_nat_def Suc_pred unat_gt_0 word_unat_eq_iff)
  then show ?thesis using a by (auto simp: header_of_def put_header_def nth_list_update split: if_splits)
qed

lemma put_header_same: "header_of s a = Some h \<Longrightarrow> put_header s a h = s"
  by (auto simp: header_of_def put_header_def split: if_splits)

lemma put_header_fields [simp]:
  "sg_data (put_header s a h) = sg_data s" "sg_segment_size (put_header s a h) = sg_segment_size s"
  "sg_cap (put_header s a h) = sg_cap s" "sg_free_queue (put_header s a h) = sg_free_queue s"
  "sg_spare_queue (put_header s a h) = sg_spare_queue s" "sg_gauges (put_header s a h) = sg_gauges s"
  "sg_spare_count (put_header s a h) = sg_spare_count s" "sg_spare_capacity (put_header s a h) = sg_spare_capacity s"
  "sg_freed (put_header s a h) = sg_freed s" "length (sg_headers (put_header s a h)) = length (sg_headers s)"
  "sg_admission_count (put_header s a h) = sg_admission_count s"
  by (simp_all add: put_header_def)

lemma header_of_other [simp]:
  "header_of (s\<lparr>sg_gauges := g\<rparr>) a = header_of s a" "header_of (s\<lparr>sg_free_queue := q\<rparr>) a = header_of s a"
  "header_of (s\<lparr>sg_spare_queue := q\<rparr>) a = header_of s a" "header_of (s\<lparr>sg_freed := n\<rparr>) a = header_of s a"
  "header_of (s\<lparr>sg_spare_count := c\<rparr>) a = header_of s a" "header_of (s\<lparr>sg_admission_count := c\<rparr>) a = header_of s a"
  by (simp_all add: header_of_def)

lemma on_header_eval: "header_of s a = Some h \<Longrightarrow> on_header s a f = map_option (\<lambda>(r, h'). (r, put_header s a h')) (f h)"
  by (cases "f h") (auto simp: on_header_def)

lemma update_header_eval: "header_of s a = Some h \<Longrightarrow> update_header s a f = map_option (put_header s a) (f h)"
  by (cases "f h") (auto simp: update_header_def)

lemma on_header_cas:
  assumes "header_of s a = Some h" and "holds h m"
  shows "on_header s a (cas_metadata e n nn np) = Some (if md_state m = e
    then (True, put_header s a (h\<lparr>hd_metadata := metadata_pack
       \<lparr>md_next = (case nn of None \<Rightarrow> md_next m | Some x \<Rightarrow> x),
        md_prev = (case np of None \<Rightarrow> md_prev m | Some x \<Rightarrow> x), md_state = n, md_tag = md_tag m\<rparr>\<rparr>)) else (False, s))"
  using assms by (simp add: on_header_eval cas_metadata_eval put_header_same)

section \<open>Chains\<close>

definition link_id :: "u32 \<Rightarrow> bool" where
  "link_id x \<longleftrightarrow> x \<noteq> 0 \<and> unat x < 2 ^ 24"

definition at_head :: "u32 list \<Rightarrow> u32 option" where
  "at_head xs = (case xs of [] \<Rightarrow> None | x # _ \<Rightarrow> Some x)"

definition at_last :: "u32 list \<Rightarrow> u32 option" where
  "at_last xs = (if xs = [] then None else Some (last xs))"

lemma at_head_simps [simp]: "at_head [] = None" "at_head (x # xs) = Some x"
  by (simp_all add: at_head_def)

lemma at_last_simps [simp]: "at_last [] = None" "at_last (xs @ [x]) = Some x" "at_last [x] = Some x"
  "at_last (x # y # ys) = at_last (y # ys)"
  by (simp_all add: at_last_def)

text \<open>A node of a chain, with its neighbours; the last one is live and the others are sealed.\<close>

definition node :: "segments \<Rightarrow> u32 option \<Rightarrow> u32 \<Rightarrow> u32 option \<Rightarrow> bool" where
  "node s p x n \<longleftrightarrow> link_id x \<and> (\<exists>h m. header_of s x = Some h \<and> holds h m \<and> md_prev m = p \<and> md_next m = n
     \<and> md_state m = (if n = None then Live else Sealed))"

fun chain_from :: "segments \<Rightarrow> u32 option \<Rightarrow> u32 list \<Rightarrow> bool" where
  "chain_from s p [] \<longleftrightarrow> True"
| "chain_from s p (x # xs) \<longleftrightarrow> node s p x (at_head xs) \<and> chain_from s (Some x) xs"

definition chain :: "segments \<Rightarrow> ttl_bucket \<Rightarrow> u32 list \<Rightarrow> bool" where
  "chain s b xs \<longleftrightarrow> distinct xs \<and> bucket_head b = at_head xs \<and> bucket_tail b = at_last xs \<and> chain_from s None xs"

lemma node_cong: "header_of s' x = header_of s x \<Longrightarrow> node s' p x n = node s p x n"
  by (simp add: node_def)

lemma chain_from_cong: "(\<And>x. x \<in> set xs \<Longrightarrow> header_of s' x = header_of s x) \<Longrightarrow> chain_from s' p xs = chain_from s p xs"
proof (induction xs arbitrary: p)
  case (Cons y ys)
  show ?case using node_cong [OF Cons.prems [of y]] Cons.IH Cons.prems by simp
qed simp

lemma at_head_append [simp]: "at_head (xs @ ys) = (if xs = [] then at_head ys else at_head xs)"
  by (cases xs) simp_all

lemma chain_from_last: "chain_from s p (xs @ [t]) \<Longrightarrow> node s (if xs = [] then p else Some (last xs)) t None"
proof (induction xs arbitrary: p)
  case (Cons y ys)
  have "chain_from s (Some y) (ys @ [t])" using Cons.prems by simp
  from Cons.IH [OF this] show ?case by (cases ys) simp_all
qed simp

lemma chain_from_append:
  assumes "chain_from s p (xs @ [t])" and "\<And>x. x \<in> set xs \<Longrightarrow> header_of s' x = header_of s x"
    and "\<And>q. node s q t None \<Longrightarrow> node s' q t (Some x)" and "node s' (Some t) x None"
  shows "chain_from s' p (xs @ [t, x])"
  using assms
proof (induction xs arbitrary: p)
  case (Cons y ys)
  have "node s p y (at_head (ys @ [t]))" using Cons.prems(1) by simp
  moreover have "at_head (ys @ [t]) = at_head (ys @ [t, x])" by (cases ys) simp_all
  ultimately have "node s' p y (at_head (ys @ [t, x]))" using node_cong [OF Cons.prems(2) [of y]] by simp
  moreover have "chain_from s' (Some y) (ys @ [t, x])" using Cons by simp
  ultimately show ?case by simp
qed simp

section \<open>Well-formed stores\<close>

definition fits_segment :: "bool \<Rightarrow> segments \<Rightarrow> bool" where
  "fits_segment i s \<longleftrightarrow> sint (initial_offset i) \<le> sint (sg_segment_size s) \<and> 0 < sint (sg_segment_size s)"

definition queued :: "segments \<Rightarrow> u32 list" where
  "queued s = sg_free_queue s @ sg_spare_queue s"

definition header_good :: "segments \<Rightarrow> u32 \<Rightarrow> seg_header \<Rightarrow> bool" where
  "header_good s x h \<longleftrightarrow> (\<exists>m. holds h m \<and> (md_state m = Free \<longleftrightarrow> x \<in> set (queued s)))
     \<and> 0 \<le> sint (hd_write_offset h) \<and> sint (hd_write_offset h) \<le> sint (sg_segment_size s)"

definition store_ok :: "bool \<Rightarrow> segments \<Rightarrow> bool" where
  "store_ok i s \<longleftrightarrow> length (sg_headers s) \<le> 262142 \<and> fits_segment i s \<and> distinct (queued s)
     \<and> (\<forall>x. x \<in> set (queued s) \<longrightarrow> header_of s x \<noteq> None)
     \<and> (\<forall>x h. header_of s x = Some h \<longrightarrow> header_good s x h)"

lemma store_header: "store_ok i s \<Longrightarrow> header_of s x = Some h \<Longrightarrow> header_good s x h"
  by (simp add: store_ok_def)

lemma store_link_id: "store_ok i s \<Longrightarrow> header_of s x = Some h \<Longrightarrow> link_id x"
  by (auto simp: store_ok_def link_id_def header_of_def split: if_splits)

lemma link_id_ok: "link_id x \<Longrightarrow> link_ok (Some x)"
  by (simp add: link_id_def link_ok_def)

section \<open>Reserving in the tail\<close>

lemma put_header_put [simp]: "put_header (put_header s a h) a h' = put_header s a h'"
  by (simp add: put_header_def)

lemma put_header_gauges: "put_header (s\<lparr>sg_gauges := g\<rparr>) a h = (put_header s a h)\<lparr>sg_gauges := g\<rparr>"
  by (simp add: put_header_def)

definition granted_header :: "i32 \<Rightarrow> seg_header \<Rightarrow> seg_header" where
  "granted_header sz h = h\<lparr>hd_active_writers := hd_active_writers h + 1, hd_write_offset := hd_write_offset h + sz,
     hd_live_items := hd_live_items h + 1, hd_live_bytes := hd_live_bytes h + sz\<rparr>"

definition granted_gauges :: "i32 \<Rightarrow> item_gauges \<Rightarrow> item_gauges" where
  "granted_gauges sz g = g\<lparr>ig_current := ig_current g + 1, ig_current_bytes := ig_current_bytes g + sint sz\<rparr>"

lemma try_alloc_live:
  assumes h: "header_of s x = Some h" and m: "holds h m" "md_state m = Live"
    and w: "0 \<le> sint (hd_write_offset h)" "0 < sint sz"
  shows "try_alloc_item s x sz = Some (if sint (hd_write_offset h) + sint sz \<le> sint (sg_segment_size s)
    then (AllocReserved \<lparr>ri_seg = x, ri_generation = hd_generation h, ri_offset = nat (sint (hd_write_offset h))\<rparr>,
          (put_header s x (granted_header sz h))\<lparr>sg_gauges := granted_gauges sz (sg_gauges s)\<rparr>)
    else (Full, s))"
proof -
  let ?h = "h\<lparr>hd_active_writers := hd_active_writers h + 1\<rparr>"
  have pin: "try_pin_writer (\<lambda>h. h) h = Some (True, ?h)"
    using m holds_unpack [OF m(1)] by (simp add: try_pin_writer_def header_metadata_def is_writable_def)
  have h0: "header_of s x \<noteq> None" using h by simp
  note hp = header_of_put [OF h0] put_header_put put_header_same [OF h]
  have r: "try_reserve_space sz (sg_segment_size s) ?h =
    (if sint (hd_write_offset h) + sint sz \<le> sint (sg_segment_size s)
     then (Some (hd_write_offset h), ?h\<lparr>hd_write_offset := hd_write_offset h + sz\<rparr>) else (None, ?h))"
    using try_reserve_space_eval(1) [of ?h sz "sg_segment_size s"] w by simp
  show ?thesis
    by (simp add: try_alloc_item_def h Let_def pin on_header_def update_header_def drop_writer_def hp r
        release_writer_def incr_live_items_def incr_live_bytes_def granted_header_def granted_gauges_def)
qed

section \<open>Extending the chain\<close>

text \<open>A free segment at the head of the queue is reserved with its counters reset and its links clear.\<close>

definition fresh_header :: "bool \<Rightarrow> seg_header \<Rightarrow> bool" where
  "fresh_header i h \<longleftrightarrow> hd_write_offset h = initial_offset i \<and> hd_live_bytes h = initial_offset i \<and> hd_live_items h = 0"

text \<open>What it keeps of the header it had, and the times it is given.\<close>

definition reborn :: "u32 \<Rightarrow> seg_header \<Rightarrow> seg_header \<Rightarrow> bool" where
  "reborn now h h' \<longleftrightarrow> hd_id h' = hd_id h \<and> hd_generation h' = hd_generation h \<and> hd_ref_count h' = hd_ref_count h
     \<and> hd_active_writers h' = hd_active_writers h \<and> hd_active_removers h' = hd_active_removers h \<and> hd_create_at h' = now"

lemma reserve_free_first:
  assumes ok: "store_ok i s" and q: "sg_free_queue s = x # rest"
  obtains h h0 g t where "reserve_free i now s = Some (Some x, put_header (s\<lparr>sg_free_queue := rest, sg_gauges := g\<rparr>) x h)"
    and "holds h \<lparr>md_next = None, md_prev = None, md_state = Reserved, md_tag = t\<rparr>" and "fresh_header i h"
    and "header_of s x = Some h0" and "reborn now h0 h"
proof -
  have "x \<in> set (queued s)" using q by (simp add: queued_def)
  then obtain h m where h: "header_of s x = Some h" and m: "holds h m" "md_state m = Free"
    using ok unfolding store_ok_def header_good_def by blast
  have x: "x \<noteq> 0" using store_link_id [OF ok h] by (simp add: link_id_def)
  let ?h = "h\<lparr>hd_metadata := metadata_pack \<lparr>md_next = None, md_prev = None, md_state = Reserved, md_tag = md_tag m\<rparr>\<rparr>"
  let ?r = "reset_write_stats i (?h, sg_gauges s)"
  have "try_reserve i now (h, sg_gauges s) = Some (True, mark_merged now (mark_created now (fst ?r)), snd ?r)"
    using m(2) by (simp add: try_reserve_def cas_metadata_eval [OF m(1)] split_beta Let_def)
  then have "reserve_free i now s = Some (Some x, put_header (s\<lparr>sg_free_queue := rest, sg_gauges := snd ?r\<rparr>) x
      (mark_merged now (mark_created now (fst ?r))))"
    using x h by (simp add: reserve_free_def q try_reserve_of_def)
  moreover have "holds (mark_merged now (mark_created now (fst ?r)))
      \<lparr>md_next = None, md_prev = None, md_state = Reserved, md_tag = md_tag m\<rparr>"
    by (simp add: holds_def mark_merged_def mark_created_def reset_write_stats_meta)
  moreover have "fresh_header i (mark_merged now (mark_created now (fst ?r)))"
    by (simp add: fresh_header_def mark_merged_def mark_created_def reset_write_stats_def Let_def)
  moreover have "reborn now h (mark_merged now (mark_created now (fst ?r)))"
    by (simp add: reborn_def mark_merged_def mark_created_def reset_write_stats_def Let_def)
  ultimately show thesis using h by (intro that) simp_all
qed

text \<open>The store after the segment \<open>x\<close> at the head of the queue went live behind the tail, the last of \<open>xs\<close>.\<close>

definition appended :: "bool \<Rightarrow> u32 \<Rightarrow> u32 \<Rightarrow> segments \<Rightarrow> u32 list \<Rightarrow> u32 \<Rightarrow> u32 list \<Rightarrow> segments \<Rightarrow> bool" where
  "appended i now ttl s xs x rest s' \<longleftrightarrow>
     (\<exists>h0 hx tag. header_of s x = Some h0 \<and> header_of s' x = Some hx \<and> fresh_header i hx \<and> reborn now h0 hx \<and> hd_ttl hx = ttl
        \<and> holds hx \<lparr>md_next = None, md_prev = at_last xs, md_state = Live, md_tag = tag\<rparr>)
   \<and> (xs \<noteq> [] \<longrightarrow> (\<exists>h m. header_of s (last xs) = Some h \<and> holds h m \<and> header_of s' (last xs) =
        Some (h\<lparr>hd_metadata := metadata_pack (m\<lparr>md_next := Some x, md_state := Sealed\<rparr>)\<rparr>)))
   \<and> (\<forall>y. y \<noteq> x \<longrightarrow> (xs \<noteq> [] \<longrightarrow> y \<noteq> last xs) \<longrightarrow> header_of s' y = header_of s y)
   \<and> sg_free_queue s' = rest \<and> sg_spare_queue s' = sg_spare_queue s \<and> sg_segment_size s' = sg_segment_size s
   \<and> length (sg_headers s') = length (sg_headers s) \<and> sg_data s' = sg_data s \<and> sg_cap s' = sg_cap s
   \<and> sg_spare_count s' = sg_spare_count s \<and> sg_spare_capacity s' = sg_spare_capacity s \<and> sg_freed s' = sg_freed s"

lemma expand_empty:
  assumes ok: "store_ok i s" and b: "bucket_head b = None" "bucket_tail b = None" and q: "sg_free_queue s = x # rest"
  shows "\<exists>s'. try_expand i now None (s, b) = Some (Inr (), s', b\<lparr>tb_head := x, tb_tail := x, tb_nseg := tb_nseg b + 1\<rparr>)
    \<and> appended i now (tb_ttl b) s [] x rest s'"
proof -
  obtain h h0 g t where
    r: "reserve_free i now s = Some (Some x, put_header (s\<lparr>sg_free_queue := rest, sg_gauges := g\<rparr>) x h)"
    and h: "holds h \<lparr>md_next = None, md_prev = None, md_state = Reserved, md_tag = t\<rparr>" and f: "fresh_header i h"
    and h0: "header_of s x = Some h0" and rb: "reborn now h0 h"
    by (rule reserve_free_first [OF ok q, of now]) (rule that)
  have "x \<in> set (queued s)" using q by (simp add: queued_def)
  then have x: "header_of s x \<noteq> None" using ok by (simp add: store_ok_def)
  let ?s = "s\<lparr>sg_free_queue := rest, sg_gauges := g\<rparr>"
  let ?ttl = "set_ttl (tb_ttl b) h"
  let ?link = "?ttl\<lparr>hd_metadata := metadata_pack \<lparr>md_next = None, md_prev = None, md_state = Linking, md_tag = t\<rparr>\<rparr>"
  let ?live = "?ttl\<lparr>hd_metadata := metadata_pack \<lparr>md_next = None, md_prev = None, md_state = Live, md_tag = t\<rparr>\<rparr>"
  have at: "header_of (put_header ?s x a) x = Some a" for a
    using header_of_put [of ?s x a x] x by simp
  have "holds ?ttl \<lparr>md_next = None, md_prev = None, md_state = Reserved, md_tag = t\<rparr>"
    using h by (simp add: holds_def set_ttl_def)
  note c1 = on_header_cas [OF at this]
  have "holds ?link \<lparr>md_next = None, md_prev = None, md_state = Linking, md_tag = t\<rparr>" by (simp add: holds_update)
  note c2 = on_header_cas [OF at this]
  have tail: "tb_tail b = 0" using b(2) by (simp add: bucket_tail_def link_new_def split: if_splits)
  have "try_expand i now None (s, b) = Some (Inr (), put_header ?s x ?live,
      b\<lparr>tb_head := x, tb_tail := x, tb_nseg := tb_nseg b + 1\<rparr>)"
    by (simp add: try_expand_def r update_header_def at elect_def cas_tail_none_to_def compare_exchange_def tail c1 c2
        set_head_def link_get_def)
  moreover have "appended i now (tb_ttl b) s [] x rest (put_header ?s x ?live)"
    using f at [of ?live] x h0 rb unfolding appended_def
    by (auto simp: fresh_header_def set_ttl_def holds_def header_of_put reborn_def)
  ultimately show ?thesis by blast
qed

lemma put_header_swap:
  assumes "header_of s a \<noteq> None" and "header_of s b \<noteq> None" and "a \<noteq> b"
  shows "put_header (put_header s a h) b h' = put_header (put_header s b h') a h"
proof -
  have "unat a - 1 \<noteq> unat b - 1"
    using assms by (metis One_nat_def Suc_pred header_of_def unat_gt_0 word_unat_eq_iff)
  then show ?thesis by (simp add: put_header_def list_update_swap)
qed

lemma chain_tail_header:
  assumes ok: "store_ok i s" and c: "chain s b (xs @ [t])"
  obtains h m where "header_of s t = Some h" and "holds h m" and "md_next m = None" and "md_state m = Live"
    and "bucket_tail b = Some t" and "t \<notin> set (queued s)" and "0 \<le> sint (hd_write_offset h)"
    and "sint (hd_write_offset h) \<le> sint (sg_segment_size s)"
proof -
  have "node s (if xs = [] then None else Some (last xs)) t None"
    using c chain_from_last [of s None xs t] unfolding chain_def by blast
  then obtain h m where h: "header_of s t = Some h" and m: "holds h m" "md_next m = None" "md_state m = Live"
    unfolding node_def by force
  have g: "header_good s t h" using store_header [OF ok h] .
  then obtain m' where "holds h m'" "md_state m' = Free \<longleftrightarrow> t \<in> set (queued s)" unfolding header_good_def by blast
  then have "t \<notin> set (queued s)" using holds_unique [OF m(1)] m(3) by auto
  moreover have "bucket_tail b = Some t" using c by (simp add: chain_def)
  ultimately show thesis using that h m g unfolding header_good_def by blast
qed

lemma expand_tail:
  assumes ok: "store_ok i s" and c: "chain s b (xs @ [t])" and q: "sg_free_queue s = x # rest"
    and ht: "header_of s t = Some ht"
  shows "\<exists>s'. try_expand i now (Some (t, hd_generation ht)) (s, b)
      = Some (Inr (), s', b\<lparr>tb_tail := x, tb_nseg := tb_nseg b + 1\<rparr>)
    \<and> appended i now (tb_ttl b) s (xs @ [t]) x rest s'"
proof -
  obtain h h0 g tag where
    r: "reserve_free i now s = Some (Some x, put_header (s\<lparr>sg_free_queue := rest, sg_gauges := g\<rparr>) x h)"
    and h: "holds h \<lparr>md_next = None, md_prev = None, md_state = Reserved, md_tag = tag\<rparr>" and f: "fresh_header i h"
    and h0: "header_of s x = Some h0" and rb: "reborn now h0 h"
    by (rule reserve_free_first [OF ok q, of now]) (rule that)
  from chain_tail_header [OF ok c] ht obtain m where m: "holds ht m" "md_next m = None" "md_state m = Live"
    and bt: "bucket_tail b = Some t" and tq: "t \<notin> set (queued s)" by (metis option.inject)
  have xq: "x \<in> set (queued s)" using q by (simp add: queued_def)
  then have x: "header_of s x \<noteq> None" and xt: "t \<noteq> x" using ok tq by (auto simp: store_ok_def)
  let ?s = "s\<lparr>sg_free_queue := rest, sg_gauges := g\<rparr>"
  let ?ttl = "set_ttl (tb_ttl b) h"
  let ?md = "\<lambda>p st. \<lparr>md_next = None, md_prev = p, md_state = st, md_tag = tag\<rparr>"
  let ?link = "?ttl\<lparr>hd_metadata := metadata_pack (?md (Some t) Linking)\<rparr>"
  let ?live = "?ttl\<lparr>hd_metadata := metadata_pack (?md (Some t) Live)\<rparr>"
  let ?sealed = "ht\<lparr>hd_metadata := metadata_pack (m\<lparr>md_next := Some x, md_state := Sealed\<rparr>)\<rparr>"
  have lid: "link_ok (Some t)" "link_ok (Some x)"
    using store_link_id [OF ok] ht x by (auto intro: link_id_ok)
  have at: "header_of (put_header ?s x a) x = Some a" "header_of (put_header ?s x a) t = Some ht" for a
    using header_of_put [of ?s x a] x xt ht by simp_all
  have tt: "header_of (put_header ?s t ?sealed) x \<noteq> None" using header_of_put [of ?s t ?sealed x] ht x by simp
  have at': "header_of (put_header (put_header ?s t ?sealed) x a) x = Some a" for a
    using header_of_put [OF tt, of a x] by simp
  have sw: "put_header (put_header ?s x a) t ?sealed = put_header (put_header ?s t ?sealed) x a" for a
    using put_header_swap [of ?s x t] x ht xt by simp
  have me: "\<lparr>md_next = Some x, md_prev = md_prev m, md_state = Sealed, md_tag = md_tag m\<rparr>
      = m\<lparr>md_next := Some x, md_state := Sealed\<rparr>" by (cases m) simp
  have seal: "on_header (put_header ?s x ?ttl) t (cas_metadata Live Sealed (Some (Some x)) None)
      = Some (True, put_header (put_header ?s t ?sealed) x ?ttl)"
    using on_header_cas [OF at(2) m(1)] m(3) sw by (simp add: me)
  have "holds ?ttl (?md None Reserved)" using h by (simp add: holds_def set_ttl_def)
  note c1 = on_header_cas [OF at' this]
  have "holds ?link (?md (Some t) Linking)" using lid by (simp add: holds_update metadata_ok_def)
  note c2 = on_header_cas [OF at' this]
  have "try_expand i now (Some (t, hd_generation ht)) (s, b) = Some (Inr (), put_header (put_header ?s t ?sealed) x ?live,
      b\<lparr>tb_tail := x, tb_nseg := tb_nseg b + 1\<rparr>)"
    by (simp add: try_expand_def r update_header_def at bt elect_def seal c1 c2 set_tail_def link_get_def)
  moreover have "appended i now (tb_ttl b) s (xs @ [t]) x rest (put_header (put_header ?s t ?sealed) x ?live)"
    unfolding appended_def
  proof (intro conjI impI allI)
    show "\<exists>h0 hx tag. header_of s x = Some h0 \<and> header_of (put_header (put_header ?s t ?sealed) x ?live) x = Some hx \<and> fresh_header i hx
        \<and> reborn now h0 hx \<and> hd_ttl hx = tb_ttl b
        \<and> holds hx \<lparr>md_next = None, md_prev = at_last (xs @ [t]), md_state = Live, md_tag = tag\<rparr>"
      using f lid h0 rb by (auto simp: at' fresh_header_def set_ttl_def holds_def metadata_ok_def reborn_def)
    show "\<exists>h m. header_of s (last (xs @ [t])) = Some h \<and> holds h m
        \<and> header_of (put_header (put_header ?s t ?sealed) x ?live) (last (xs @ [t]))
          = Some (h\<lparr>hd_metadata := metadata_pack (m\<lparr>md_next := Some x, md_state := Sealed\<rparr>)\<rparr>)"
      using m(1) ht header_of_put [OF tt, of ?live t] header_of_put [of ?s t ?sealed t] xt by auto
  qed (use header_of_put [OF tt, of ?live] header_of_put [of ?s t ?sealed] ht in auto)
  ultimately show ?thesis by blast
qed

section \<open>The chain after an extension\<close>

lemma nodeI:
  "link_id x \<Longrightarrow> header_of s x = Some h \<Longrightarrow> holds h m \<Longrightarrow> md_state m = (if md_next m = None then Live else Sealed)
   \<Longrightarrow> node s (md_prev m) x (md_next m)"
  unfolding node_def by blast

lemma header_good_state: "header_good s x h \<Longrightarrow> holds h m \<Longrightarrow> md_state m = Free \<longleftrightarrow> x \<in> set (queued s)"
  unfolding header_good_def by (blast dest: holds_unique)

lemma chain_from_not_queued: "store_ok i s \<Longrightarrow> chain_from s p xs \<Longrightarrow> y \<in> set xs \<Longrightarrow> y \<notin> set (queued s)"
proof (induction xs arbitrary: p)
  case (Cons z zs)
  have "z \<notin> set (queued s)"
  proof -
    from Cons.prems(2) obtain h m where h: "header_of s z = Some h" and m: "holds h m" "md_state m \<noteq> Free"
      by (auto simp: node_def split: if_splits)
    then show ?thesis using header_good_state [OF store_header [OF Cons.prems(1) h] m(1)] by simp
  qed
  then show ?case using Cons by auto
qed simp

lemma appended_chain:
  assumes ok: "store_ok i s" and c: "chain s b xs" and q: "sg_free_queue s = x # rest" and a: "appended i now (tb_ttl b) s xs x rest s'"
    and b': "tb_tail b' = x" "tb_head b' = (if xs = [] then x else tb_head b)"
  shows "chain s' b' (xs @ [x])"
proof -
  have x: "link_id x" "x \<in> set (queued s)"
    using ok q store_link_id [OF ok] by (auto simp: store_ok_def queued_def)
  from a obtain hx tag where hx: "header_of s' x = Some hx"
    "holds hx \<lparr>md_next = None, md_prev = at_last xs, md_state = Live, md_tag = tag\<rparr>" unfolding appended_def by blast
  have new: "node s' (at_last xs) x None"
    using nodeI [OF x(1) hx] by simp
  have old: "header_of s' y = header_of s y" if "y \<noteq> x" "xs \<noteq> [] \<longrightarrow> y \<noteq> last xs" for y
    using a that unfolding appended_def by blast
  have x0: "x \<noteq> 0" using x(1) by (simp add: link_id_def)
  have "bucket_head b = at_head xs" using c by (simp add: chain_def)
  then have hd: "bucket_head b' = at_head (xs @ [x])" "bucket_tail b' = at_last (xs @ [x])"
    using b' x0 by (simp_all add: bucket_head_def bucket_tail_def link_new_def split: if_splits)
  show ?thesis
  proof (cases xs rule: rev_cases)
    case Nil
    then show ?thesis using new hd by (simp add: chain_def)
  next
    case (snoc ys t)
    have d: "distinct (ys @ [t])" and cf: "chain_from s None (ys @ [t])" using c snoc by (simp_all add: chain_def)
    have nq: "y \<notin> set (queued s)" if "y \<in> set xs" for y
      using that c chain_from_not_queued [OF ok] unfolding chain_def by blast
    have "chain_from s' None (ys @ [t, x])"
    proof (rule chain_from_append [OF cf])
      show "header_of s' y = header_of s y" if "y \<in> set ys" for y
        using old [of y] that nq [of y] x(2) d snoc by auto
      show "node s' (Some t) x None" using new snoc by simp
      show "node s' p t (Some x)" if n: "node s p t None" for p
      proof -
        from a snoc obtain h m where h: "header_of s t = Some h" "holds h m" and h': "header_of s' t =
            Some (h\<lparr>hd_metadata := metadata_pack (m\<lparr>md_next := Some x, md_state := Sealed\<rparr>)\<rparr>)"
          unfolding appended_def by auto
        from n obtain m' where m': "link_id t" "holds h m'" "md_prev m' = p" unfolding node_def using h(1) by auto
        have "m' = m" using m'(2) h(2) by (rule holds_unique)
        moreover have "metadata_ok (m\<lparr>md_next := Some x, md_state := Sealed\<rparr>)"
          using h(2) link_id_ok [OF x(1)] by (simp add: holds_def metadata_ok_def)
        ultimately show ?thesis using nodeI [OF m'(1) h' holds_update] m'(3) by simp
      qed
    qed
    then show ?thesis using hd d snoc nq x(2) by (auto simp: chain_def)
  qed
qed

lemma appended_store_ok:
  assumes ok: "store_ok i s" and q: "sg_free_queue s = x # rest" and a: "appended i now ttl s xs x rest s'"
    and live: "xs \<noteq> [] \<Longrightarrow> last xs \<notin> set (queued s)"
  shows "store_ok i s'"
proof -
  have x: "x \<in> set (queued s)" "x \<notin> set (queued s')" and q': "distinct (queued s')"
    "\<And>y. y \<in> set (queued s') \<longleftrightarrow> y \<in> set (queued s) \<and> y \<noteq> x"
    using ok q a by (auto simp: store_ok_def appended_def queued_def)
  have sz: "sg_segment_size s' = sg_segment_size s" "length (sg_headers s') = length (sg_headers s)"
    using a by (simp_all add: appended_def)
  have fit: "fits_segment i s" using ok by (simp add: store_ok_def)
  have good: "header_good s' y h" if h: "header_of s' y = Some h" for y h
  proof (cases "y = x \<or> xs \<noteq> [] \<and> y = last xs")
    case True
    have lx: "link_ok (Some x)" using store_link_id [OF ok] ok x(1) by (auto simp: store_ok_def intro!: link_id_ok)
    from True show ?thesis
    proof
      assume [simp]: "y = x"
      from a h obtain tag where "fresh_header i h" "holds h \<lparr>md_next = None, md_prev = at_last xs, md_state = Live, md_tag = tag\<rparr>"
        unfolding appended_def by auto
      then show ?thesis using x(2) fit sz unfolding header_good_def fresh_header_def fits_segment_def
        by (auto simp: initial_offset_def)
    next
      assume y: "xs \<noteq> [] \<and> y = last xs"
      with a h obtain h0 m where h0: "header_of s y = Some h0" "holds h0 m"
        "h = h0\<lparr>hd_metadata := metadata_pack (m\<lparr>md_next := Some x, md_state := Sealed\<rparr>)\<rparr>"
        unfolding appended_def by auto
      have "holds h (m\<lparr>md_next := Some x, md_state := Sealed\<rparr>)"
        using h0(2,3) lx by (simp add: holds_def metadata_ok_def)
      moreover have "y \<notin> set (queued s')" using live y q' by simp
      ultimately show ?thesis using store_header [OF ok h0(1)] h0(3) sz unfolding header_good_def
        by (intro conjI exI [of _ "m\<lparr>md_next := Some x, md_state := Sealed\<rparr>"]) simp_all
    qed
  next
    case False
    then have "header_of s y = Some h" using a h unfolding appended_def by auto
    from store_header [OF ok this] show ?thesis using False q'(2) [of y] sz unfolding header_good_def by auto
  qed
  have "header_of s' y \<noteq> None" if "y \<in> set (queued s')" for y
    using that q' ok a unfolding appended_def store_ok_def by (metis option.distinct(1))
  then show ?thesis using good q'(1) sz ok by (simp add: store_ok_def fits_segment_def)
qed

section \<open>Grants\<close>

lemma node_same_word:
  "map_option hd_metadata (header_of s' x) = map_option hd_metadata (header_of s x) \<Longrightarrow> node s p x n \<Longrightarrow> node s' p x n"
  by (auto simp: node_def holds_def map_option_case split: option.splits)

lemma chain_same_words:
  assumes "\<And>x. map_option hd_metadata (header_of s' x) = map_option hd_metadata (header_of s x)"
  shows "chain s b xs \<Longrightarrow> chain s' b xs"
proof -
  have "chain_from s p ys \<Longrightarrow> chain_from s' p ys" for p ys
    by (induction ys arbitrary: p) (auto intro: node_same_word [OF assms])
  then show "chain s b xs \<Longrightarrow> chain s' b xs" by (simp add: chain_def)
qed

lemma put_same_word:
  assumes "header_of s a = Some h" and "hd_metadata h' = hd_metadata h"
  shows "map_option hd_metadata (header_of (put_header s a h') x) = map_option hd_metadata (header_of s x)"
  using assms by (simp add: header_of_put)

text \<open>A change of one header that keeps its word, and keeps its write offset within the segment.\<close>

lemma store_ok_put:
  assumes ok: "store_ok i s" and h: "header_of s a = Some h" "hd_metadata h' = hd_metadata h"
    and w: "0 \<le> sint (hd_write_offset h')" "sint (hd_write_offset h') \<le> sint (sg_segment_size s)"
  shows "store_ok i (put_header s a h')"
proof -
  have "header_good (put_header s a h') y k" if "header_of (put_header s a h') y = Some k" for y k
    using that store_header [OF ok, of y] h w header_of_put [of s a h' y]
    by (auto simp: header_good_def holds_def queued_def split: if_splits)
  then show ?thesis using ok h(1) by (auto simp: store_ok_def fits_segment_def queued_def header_of_put)
qed

lemma store_ok_gauges [simp]: "store_ok i (s\<lparr>sg_gauges := g\<rparr>) = store_ok i s"
  by (simp add: store_ok_def fits_segment_def queued_def header_good_def)

definition tail_room :: "segments \<Rightarrow> u32 list \<Rightarrow> nat \<Rightarrow> bool" where
  "tail_room s xs sz \<longleftrightarrow> xs \<noteq> [] \<and> (case header_of s (last xs) of None \<Rightarrow> False
     | Some h \<Rightarrow> sint (hd_write_offset h) + int sz \<le> sint (sg_segment_size s))"

text \<open>What a reservation of \<open>sz\<close> bytes in segment \<open>t\<close> leaves behind.\<close>

definition granted :: "bool \<Rightarrow> nat \<Rightarrow> segments \<Rightarrow> u32 \<Rightarrow> segments \<Rightarrow> reserved_item \<Rightarrow> bool" where
  "granted i sz s t s' r \<longleftrightarrow> store_ok i s' \<and> sg_free_queue s' = sg_free_queue s \<and> sg_spare_queue s' = sg_spare_queue s
     \<and> sg_segment_size s' = sg_segment_size s \<and> sg_gauges s' = granted_gauges (of_nat sz) (sg_gauges s)
     \<and> (\<exists>h. header_of s t = Some h \<and> header_of s' t = Some (granted_header (of_nat sz) h)
         \<and> s' = (put_header s t (granted_header (of_nat sz) h))\<lparr>sg_gauges := granted_gauges (of_nat sz) (sg_gauges s)\<rparr>
         \<and> sint (hd_write_offset (granted_header (of_nat sz) h)) = sint (hd_write_offset h) + int sz
         \<and> r = \<lparr>ri_seg = t, ri_generation = hd_generation h, ri_offset = nat (sint (hd_write_offset h))\<rparr>)
     \<and> (\<forall>y. y \<noteq> t \<longrightarrow> header_of s' y = header_of s y)"

lemma sint_of_size:
  assumes "int sz \<le> sint (w :: i32)" shows "sint (of_nat sz :: i32) = int sz"
proof -
  have "int sz < 2 ^ 31" using assms sint_bounds(2) [of w] by simp
  then show ?thesis by (simp add: signed_of_nat signed_take_bit_int_eq_self)
qed

lemma reserve_in_tail:
  assumes ok: "store_ok i s" and c: "chain s b xs" and r: "tail_room s xs sz" and sz: "0 < sz"
  shows "\<exists>s' r. bucket_reserve_loop i now (of_nat sz) (s, b) = Some (Inr r, s', b)
    \<and> granted i sz s (last xs) s' r \<and> chain s' b xs"
proof -
  have "xs \<noteq> []" using r by (simp add: tail_room_def)
  then obtain ys t where xs: "xs = ys @ [t]" by (metis append_butlast_last_id)
  from chain_tail_header [OF ok c [unfolded xs]] obtain h m where h: "header_of s t = Some h" and m: "holds h m"
    "md_state m = Live" and b: "bucket_tail b = Some t" and w: "0 \<le> sint (hd_write_offset h)" by metis
  have room: "sint (hd_write_offset h) + int sz \<le> sint (sg_segment_size s)" using r h xs by (simp add: tail_room_def)
  have z: "sint (of_nat sz :: i32) = int sz" by (rule sint_of_size [of _ "sg_segment_size s"]) (use room w in simp)
  let ?s = "(put_header s t (granted_header (of_nat sz) h))\<lparr>sg_gauges := granted_gauges (of_nat sz) (sg_gauges s)\<rparr>"
  let ?r = "\<lparr>ri_seg = t, ri_generation = hd_generation h, ri_offset = nat (sint (hd_write_offset h))\<rparr>"
  have "bucket_reserve_loop i now (of_nat sz) (s, b) = Some (Inr ?r, ?s, b)"
    using try_alloc_live [OF h m w, of "of_nat sz"] room z sz
    by (subst bucket_reserve_loop.simps) (simp add: b h)
  moreover have wo: "sint (hd_write_offset (granted_header (of_nat sz) h)) = sint (hd_write_offset h) + int sz"
    using try_reserve_space_eval(2) [of h "of_nat sz" "sg_segment_size s"] w z sz room
    by (simp add: granted_header_def)
  have gm: "hd_metadata (granted_header (of_nat sz) h) = hd_metadata h" by (simp add: granted_header_def)
  have "granted i sz s t ?s ?r"
    unfolding granted_def using store_ok_put [OF ok h gm] wo room w h by (simp add: header_of_put)
  moreover have "chain ?s b xs"
    using put_same_word [OF h gm] by (intro chain_same_words [OF _ c]) simp
  ultimately show ?thesis using xs by auto
qed

section \<open>Reserving\<close>

lemma reserve_no_room:
  assumes ok: "store_ok i s" and c: "chain s b xs" and r: "\<not> tail_room s xs sz" and sz: "0 < sz"
    and fit: "int sz \<le> sint (sg_segment_size s)"
  shows "bucket_reserve_loop i now (of_nat sz) (s, b) = do {
     (r, sb) \<leftarrow> try_expand i now (if xs = [] then None else Some (last xs, hd_generation (the (header_of s (last xs))))) (s, b);
     (case r of Inl e \<Rightarrow> Some (Inl e, sb) | Inr _ \<Rightarrow> bucket_reserve_loop i now (of_nat sz) sb) }"
proof (cases xs rule: rev_cases)
  case Nil
  then have "bucket_tail b = None" using c by (simp add: chain_def)
  then show ?thesis using Nil by (subst bucket_reserve_loop.simps) simp
next
  case (snoc ys t)
  from chain_tail_header [OF ok c [unfolded snoc]] obtain h m where h: "header_of s t = Some h" and m: "holds h m"
    "md_state m = Live" and b: "bucket_tail b = Some t" and w: "0 \<le> sint (hd_write_offset h)" by metis
  have "try_alloc_item s t (of_nat sz) = Some (Full, s)"
    using try_alloc_live [OF h m w, of "of_nat sz"] r sz h snoc sint_of_size [OF fit] by (simp add: tail_room_def)
  then show ?thesis using snoc by (subst bucket_reserve_loop.simps) (simp add: b h)
qed

lemma reserve_expands:
  assumes ok: "store_ok i s" and c: "chain s b xs" and r: "\<not> tail_room s xs sz" and sz: "0 < sz"
    and fit: "int sz \<le> sint (sg_segment_size s)" and q: "sg_free_queue s = x # rest"
  obtains s' b' where "bucket_reserve_loop i now (of_nat sz) (s, b) = bucket_reserve_loop i now (of_nat sz) (s', b')"
    and "store_ok i s'" and "chain s' b' (xs @ [x])" and "appended i now (tb_ttl b) s xs x rest s'" and "tb_nseg b' = tb_nseg b + 1"
    and "tb_ttl b' = tb_ttl b"
proof (cases xs rule: rev_cases)
  case Nil
  then have "bucket_head b = None" "bucket_tail b = None" using c by (simp_all add: chain_def)
  from expand_empty [OF ok this q, of now] obtain s' where s': "try_expand i now None (s, b)
      = Some (Inr (), s', b\<lparr>tb_head := x, tb_tail := x, tb_nseg := tb_nseg b + 1\<rparr>)" and a: "appended i now (tb_ttl b) s [] x rest s'" by blast
  show thesis
    by (rule that [of s' "b\<lparr>tb_head := x, tb_tail := x, tb_nseg := tb_nseg b + 1\<rparr>",
          OF _ appended_store_ok [OF ok q a] appended_chain [OF ok c q]])
      (use reserve_no_room [OF ok c r sz fit, of now] s' a Nil in simp_all)
next
  case (snoc ys t)
  from chain_tail_header [OF ok c [unfolded snoc]] obtain h where h: "header_of s t = Some h" and t: "t \<notin> set (queued s)"
    by blast
  from expand_tail [OF ok c [unfolded snoc] q h, of now] obtain s' where s': "try_expand i now (Some (t, hd_generation h)) (s, b)
      = Some (Inr (), s', b\<lparr>tb_tail := x, tb_nseg := tb_nseg b + 1\<rparr>)" and a: "appended i now (tb_ttl b) s xs x rest s'"
    unfolding snoc by blast
  show thesis
    by (rule that [of s' "b\<lparr>tb_tail := x, tb_nseg := tb_nseg b + 1\<rparr>",
          OF _ appended_store_ok [OF ok q a] appended_chain [OF ok c q a]])
      (use reserve_no_room [OF ok c r sz fit, of now] s' a h t snoc in simp_all)
qed

lemma appended_room:
  assumes "appended i now ttl s xs x rest s'"
  shows "tail_room s' (xs @ [x]) sz \<longleftrightarrow> sint (initial_offset i) + int sz \<le> sint (sg_segment_size s)"
  using assms by (auto simp: appended_def tail_room_def fresh_header_def)

lemma reserve_without_free:
  assumes ok: "store_ok i s" and c: "chain s b xs" and r: "\<not> tail_room s xs sz" and sz: "0 < sz"
    and fit: "int sz \<le> sint (sg_segment_size s)" and q: "sg_free_queue s = []"
  shows "bucket_reserve_loop i now (of_nat sz) (s, b) = Some (Inl NoFreeSegments, s, b)"
  using reserve_no_room [OF assms(1-5), of now] by (simp add: try_expand_def reserve_free_def q)

end
