(* ===== verification/ChainReserve.thy ===== *)
theory ChainReserve
  imports ChainProps
begin

unbundle bit_operations_syntax

text \<open>
  What building a store establishes, and the contract of a reservation in a TTL bucket: which segment it comes from,
  when the chain is extended, and when there is no space.
\<close>

section \<open>The built store\<close>

definition built_ids :: "nat \<Rightarrow> u32 list" where
  "built_ids n = map (\<lambda>idx. of_nat idx + 1) [0..<n]"

lemma unat_id: "idx < 262142 \<Longrightarrow> unat (of_nat idx + 1 :: u32) = Suc idx"
proof -
  assume "idx < 262142"
  then have "unat (of_nat (Suc idx) :: u32) = Suc idx" by (simp only: unat_of_nat) (simp add: take_bit_nat_eq_self)
  then show ?thesis by (simp add: add.commute)
qed

lemma built_ids_distinct: "n \<le> 262142 \<Longrightarrow> distinct (built_ids n)"
proof -
  assume n: "n \<le> 262142"
  have "inj_on (\<lambda>idx. of_nat idx + 1 :: u32) {0..<n}"
    by (rule inj_onI) (metis atLeastLessThan_iff n order_less_le_trans unat_id Suc_inject)
  then show ?thesis by (simp add: built_ids_def distinct_map)
qed

lemma built_ids_mem: "n \<le> 262142 \<Longrightarrow> x \<in> set (built_ids n) \<longleftrightarrow> x \<noteq> 0 \<and> unat x - 1 < n"
proof
  assume n: "n \<le> 262142" and "x \<noteq> 0 \<and> unat x - 1 < n"
  then have "unat x - 1 < n" "x = of_nat (unat x - 1) + 1"
    by (simp_all add: of_nat_diff unat_gt_0 Suc_leI)
  then show "x \<in> set (built_ids n)" unfolding built_ids_def by auto
next
  assume n: "n \<le> 262142" and "x \<in> set (built_ids n)"
  then obtain idx where "x = of_nat idx + 1" "idx < n" by (auto simp: built_ids_def)
  then show "x \<noteq> 0 \<and> unat x - 1 < n" using unat_id [of idx] n by (metis Suc_neq_Zero diff_Suc_1 order_less_le_trans unat_0)
qed

lemma segment_bytes_length: "integrity \<longrightarrow> 8 \<le> sz \<Longrightarrow> length (segment_bytes integrity sz) = sz"
  by (simp add: segment_bytes_def be_bytes_def)

lemma drop_concat_replicate: "length l = sz \<Longrightarrow> drop (sz * k) (concat (replicate n l)) = concat (replicate (n - k) l)"
proof (induction k arbitrary: n)
  case (Suc k)
  then show ?case by (cases n) simp_all
qed simp

text \<open>Building: the checks in their order, and the store of a builder that passes them.\<close>

lemma segments_build_ok:
  assumes "segments_build i d adm heap_size segment_size pol = Inr s"
  shows "12 \<le> sint segment_size \<or> \<not> i" "7 \<le> sint segment_size" "heap_size mod nat (sint segment_size) = 0" "heap_size \<noteq> 0"
    "heap_size div nat (sint segment_size) \<le> 262142" "sint segment_size mod 8 = 0"
    "segments_from_builder i d adm heap_size segment_size pol = Inr s"
  using assms by (auto simp: segments_build_def Let_def ITEM_HDR_SIZE_def segments_from_builder_def MAX_SEGMENTS_eq
      split: if_splits)

definition built :: "bool \<Rightarrow> nat \<Rightarrow> 'f policy \<Rightarrow> segments \<Rightarrow> bool" where
  "built i n pol s \<longleftrightarrow> length (sg_headers s) = n \<and> sg_free_queue s = drop (spare_capacity_for pol) (built_ids n)
     \<and> sg_spare_queue s = take (spare_capacity_for pol) (built_ids n)
     \<and> (\<forall>x. x \<in> set (built_ids n) \<longrightarrow> (\<exists>h. header_of s x = Some h \<and> fresh_header i h \<and> hd_id h = x
          \<and> hd_generation h = 0 \<and> holds h metadata_new_free))
     \<and> (\<forall>x. header_of s x \<noteq> None \<longleftrightarrow> x \<in> set (built_ids n))"

lemma segments_build_built:
  assumes "segments_build i d adm heap_size segment_size pol = Inr s"
  shows "built i (heap_size div nat (sint segment_size)) pol s \<and> sg_segment_size s = segment_size"
proof -
  let ?n = "heap_size div nat (sint segment_size)"
  let ?h = "\<lambda>x. header_init i (header_new i d x)"
  note ok = segments_build_ok [OF assms]
  have s: "sg_headers s = map ?h (built_ids ?n)" "sg_segment_size s = segment_size"
    "sg_free_queue s = drop (spare_capacity_for pol) (built_ids ?n)"
    "sg_spare_queue s = take (spare_capacity_for pol) (built_ids ?n)"
    using ok(7) by (auto simp: segments_from_builder_def Let_def built_ids_def split: if_splits)
  have len: "length (built_ids ?n) = ?n" by (simp add: built_ids_def)
  have mem: "x \<in> set (built_ids ?n) \<longleftrightarrow> x \<noteq> 0 \<and> unat x - 1 < ?n" for x by (rule built_ids_mem [OF ok(5)])
  have nth: "built_ids ?n ! (unat x - 1) = x" if "x \<in> set (built_ids ?n)" for x
    using that mem [of x] by (simp add: built_ids_def of_nat_diff unat_gt_0 Suc_leI)
  have "header_of s x = (if x \<in> set (built_ids ?n) then Some (?h x) else None)" for x
    using mem [of x] nth [of x] by (simp add: header_of_def s(1) len)
  moreover have "holds (?h x) metadata_new_free" for x by (simp add: holds_def header_init_def metadata_ok_def metadata_new_free_def)
  ultimately show ?thesis
    using s len unfolding built_def by (simp add: fresh_header_def header_init_def header_new_def)
qed

lemma built_store_ok:
  assumes "segments_build i d adm heap_size segment_size pol = Inr s"
  shows "store_ok i s"
proof -
  let ?n = "heap_size div nat (sint segment_size)"
  note ok = segments_build_ok [OF assms] and b = segments_build_built [OF assms]
  have q: "set (queued s) = set (built_ids ?n)" "distinct (queued s)"
  proof -
    have q: "queued s = drop (spare_capacity_for pol) (built_ids ?n) @ take (spare_capacity_for pol) (built_ids ?n)"
      using b by (simp add: built_def queued_def)
    have "set (built_ids ?n) = set (take (spare_capacity_for pol) (built_ids ?n)) \<union> set (drop (spare_capacity_for pol) (built_ids ?n))"
      by (metis append_take_drop_id set_append)
    then show "set (queued s) = set (built_ids ?n)" unfolding q by auto
    show "distinct (queued s)" unfolding q
      using built_ids_distinct [OF ok(5)] set_take_disj_set_drop_if_distinct [of "built_ids ?n"] by auto
  qed
  have off: "0 \<le> sint (initial_offset i)" "sint (initial_offset i) \<le> sint segment_size"
    using ok(1,2) by (auto simp: initial_offset_def)
  have "header_good s x h" if h: "header_of s x = Some h" for x h
  proof -
    have x: "x \<in> set (queued s)" using h b q unfolding built_def by auto
    then obtain h' where "header_of s x = Some h'" "fresh_header i h'" "holds h' metadata_new_free"
      using b q unfolding built_def by blast
    then show ?thesis using h x off b unfolding header_good_def
      by (intro conjI exI [of _ metadata_new_free]) (auto simp: fresh_header_def metadata_new_free_def)
  qed
  then show ?thesis using b q ok(2,5) off unfolding store_ok_def fits_segment_def built_def by auto
qed

lemma built_view:
  assumes "segments_build i d adm heap_size segment_size pol = Inr s" and x: "header_of s x \<noteq> None"
  shows "segment_view i s x = Some (Inr ())"
proof -
  let ?n = "heap_size div nat (sint segment_size)"
  let ?sz = "nat (sint segment_size)"
  note ok = segments_build_ok [OF assms(1)] and b = segments_build_built [OF assms(1)]
  have d: "sg_data s = concat (replicate ?n (segment_bytes i ?sz))" and size: "sg_segment_size s = segment_size"
    using ok(7) by (auto simp: segments_from_builder_def Let_def split: if_splits)
  have k: "unat x - 1 < ?n" "unat x - 1 < length (sg_headers s)"
    using x b by (auto simp: header_of_def built_def split: if_splits)
  have len: "length (segment_bytes i ?sz) = ?sz" using ok(1) by (intro segment_bytes_length) auto
  have "drop (seg_base s x) (sg_data s) = concat (replicate (?n - (unat x - 1)) (segment_bytes i ?sz))"
    unfolding d byte_offset_def size using drop_concat_replicate [OF len] by simp
  also have "\<dots> = segment_bytes i ?sz @ concat (replicate (?n - (unat x - 1) - 1) (segment_bytes i ?sz))"
    using k(1) by (cases "?n - (unat x - 1)") simp_all
  finally have dr: "drop (seg_base s x) (sg_data s) = \<dots>" .
  have "seg_check_magic i s x = Some ()"
  proof (cases i)
    case True
    then have "take 8 (drop (seg_base s x) (sg_data s)) = be_bytes 8 SEG_MAGIC" unfolding dr by (simp add: segment_bytes_def)
    moreover have "seg_base s x + 8 \<le> length (sg_data s)"
    proof -
      have "8 \<le> length (drop (seg_base s x) (sg_data s))" unfolding dr using len ok(1) True by simp
      then show ?thesis by simp
    qed
    ultimately show ?thesis using True be_word_be_bytes_id [where n = 8 and w = SEG_MAGIC] by (simp add: seg_check_magic_def load_bytes_def)
  qed (simp add: seg_check_magic_def)
  then show ?thesis using k(2) by (simp add: segment_view_def)
qed

section \<open>Properties\<close>

lemma segments_build_facts:
  assumes "segments_build i d adm heap_size segment_size pol = Inr s"
  shows "store_ok i s \<and> heap_size = length (sg_headers s) * nat (sint segment_size) \<and> 0 < heap_size
    \<and> (\<forall>x. header_of s x \<noteq> None \<longleftrightarrow> 1 \<le> unat x \<and> unat x \<le> length (sg_headers s))
    \<and> (\<forall>x h. header_of s x = Some h \<longrightarrow> x \<in> set (queued s) \<and> fresh_header i h \<and> hd_id h = x \<and> hd_generation h = 0
         \<and> header_state h = Some Free \<and> segment_view i s x = Some (Inr ()))
    \<and> length (sg_spare_queue s) = min (spare_capacity_for pol) (length (sg_headers s))"
proof -
  let ?n = "heap_size div nat (sint segment_size)"
  note ok = segments_build_ok [OF assms] and b = segments_build_built [OF assms]
  have n: "length (sg_headers s) = ?n" using b by (simp add: built_def)
  have "x \<in> set (queued s) \<and> fresh_header i h \<and> hd_id h = x \<and> hd_generation h = 0
         \<and> header_state h = Some Free \<and> segment_view i s x = Some (Inr ())" if h: "header_of s x = Some h" for x h
  proof -
    have "x \<in> set (built_ids ?n)" using b h unfolding built_def by auto
    then have f: "fresh_header i h \<and> hd_id h = x \<and> hd_generation h = 0" and m: "holds h metadata_new_free"
      using b h unfolding built_def by fastforce+
    have "x \<in> set (queued s)" using header_good_state [OF store_header [OF built_store_ok [OF assms] h] m]
      by (simp add: metadata_new_free_def)
    then show ?thesis using f holds_state [OF m] built_view [OF assms, of x] h by (simp add: metadata_new_free_def)
  qed
  moreover have "header_of s x \<noteq> None \<longleftrightarrow> 1 \<le> unat x \<and> unat x \<le> length (sg_headers s)" for x
    using unat_gt_0 [of x] by (cases "x = 0") (auto simp: header_of_def)
  moreover have "length (sg_spare_queue s) = min (spare_capacity_for pol) (length (sg_headers s))"
    using b by (simp add: built_def built_ids_def min.commute)
  ultimately show ?thesis using n ok(3,4) built_store_ok [OF assms] by auto
qed

text \<open>
  Building a store. A heap that is a positive whole number of segments within the limits gives a store of exactly
  that many segments, on ids from 1, all free: each is in one of the two queues and in it once, with a header at
  generation 0 and an empty write offset, and its view passes the magic check; any other builder is refused.
\<close>

theorem segments_build_sound:
  assumes "segments_build i d adm heap_size segment_size pol = Inr s"
  shows "store_ok i s \<and> heap_size = length (sg_headers s) * nat (sint segment_size) \<and> 0 < heap_size
    \<and> (\<forall>x. header_of s x \<noteq> None \<longleftrightarrow> 1 \<le> unat x \<and> unat x \<le> length (sg_headers s))
    \<and> (\<forall>x h. header_of s x = Some h \<longrightarrow> x \<in> set (queued s) \<and> fresh_header i h \<and> hd_id h = x \<and> hd_generation h = 0
         \<and> header_state h = Some Free \<and> segment_view i s x = Some (Inr ()))
    \<and> length (sg_spare_queue s) = min (spare_capacity_for pol) (length (sg_headers s))"
  by (rule segments_build_facts [OF assms])

definition demo_store :: segments where
  "demo_store = (case segments_build True 0 (\<lambda>(_::unit) _. 0) 128 64 PolicyNone of Inr s \<Rightarrow> s)"

lemma demo_store_built: "segments_build True 0 (\<lambda>(_::unit) _. 0) 128 64 PolicyNone = Inr demo_store"
  by (simp add: demo_store_def segments_build_def segments_from_builder_def Let_def ITEM_HDR_SIZE_def
      MAX_SEGMENT_BYTES_eq MAX_SEGMENTS_eq)

theorem segments_build_sound_witness: "store_ok True demo_store"
  using segments_build_sound [OF demo_store_built] by blast

lemma bucket_reserve_eval:
  assumes ok: "store_ok i s" and c: "chain s b xs" and sz: "0 < sz"
    and fit: "sint (initial_offset i) + int sz \<le> sint (sg_segment_size s)"
  shows "if tail_room s xs sz
    then \<exists>s' r. bucket_reserve i now sz (s, b) = Some (Inr r, s', b) \<and> granted i sz s (last xs) s' r \<and> chain s' b xs
    else (case sg_free_queue s of
        [] \<Rightarrow> bucket_reserve i now sz (s, b) = Some (Inl NoFreeSegments, s, b)
      | x # rest \<Rightarrow> \<exists>s1 s' b' r. bucket_reserve i now sz (s, b) = Some (Inr r, s', b') \<and> appended i now (tb_ttl b) s xs x rest s1
          \<and> granted i sz s1 x s' r \<and> chain s' b' (xs @ [x]) \<and> tb_nseg b' = tb_nseg b + 1 \<and> tb_ttl b' = tb_ttl b)"
proof -
  have f: "int sz \<le> sint (sg_segment_size s)" using fit by (simp add: initial_offset_def split: if_splits)
  have e: "bucket_reserve i now sz (s, b) = bucket_reserve_loop i now (of_nat sz) (s, b)"
    using f by (auto simp: bucket_reserve_def)
  show ?thesis
  proof (cases "tail_room s xs sz")
    case True
    then show ?thesis using reserve_in_tail [OF ok c True sz, of now] unfolding e by auto
  next
    case False
    show ?thesis
    proof (cases "sg_free_queue s")
      case Nil
      then show ?thesis using False reserve_without_free [OF ok c False sz f Nil] e by simp
    next
      case (Cons x rest)
      from reserve_expands [OF ok c False sz f Cons, of now] obtain s1 b1 where
        l: "bucket_reserve_loop i now (of_nat sz) (s, b) = bucket_reserve_loop i now (of_nat sz) (s1, b1)"
        and s1: "store_ok i s1" "chain s1 b1 (xs @ [x])" "appended i now (tb_ttl b) s xs x rest s1" and n: "tb_nseg b1 = tb_nseg b + 1" "tb_ttl b1 = tb_ttl b"
        by blast
      have "tail_room s1 (xs @ [x]) sz" using appended_room [OF s1(3)] fit by simp
      from reserve_in_tail [OF s1(1,2) this sz, of now] show ?thesis
        using False Cons l s1(3) n unfolding e by auto
    qed
  qed
qed

text \<open>
  C29. A reservation of at most a segment's usable bytes: it always returns. If the tail has room, the item is placed at
  the tail's write offset and the chain is unchanged; otherwise the segment at the head of the free queue is taken,
  the old tail is sealed behind it, it becomes the live tail and the item is placed at its start; and when no segment
  is free nothing changes and the caller is told so. The store and the chain stay well-formed, and only the segments
  named change.
\<close>

theorem bucket_reserve_contract:
  assumes ok: "store_ok i s" and c: "chain s b xs" and sz: "0 < sz"
    and fit: "sint (initial_offset i) + int sz \<le> sint (sg_segment_size s)"
  shows "if tail_room s xs sz
    then \<exists>s' r. bucket_reserve i now sz (s, b) = Some (Inr r, s', b) \<and> granted i sz s (last xs) s' r \<and> chain s' b xs
    else (case sg_free_queue s of
        [] \<Rightarrow> bucket_reserve i now sz (s, b) = Some (Inl NoFreeSegments, s, b)
      | x # rest \<Rightarrow> \<exists>s1 s' b' r. bucket_reserve i now sz (s, b) = Some (Inr r, s', b') \<and> appended i now (tb_ttl b) s xs x rest s1
          \<and> granted i sz s1 x s' r \<and> chain s' b' (xs @ [x]) \<and> tb_nseg b' = tb_nseg b + 1 \<and> tb_ttl b' = tb_ttl b)"
  by (rule bucket_reserve_eval [OF assms])

lemma demo_store_facts: "sg_free_queue demo_store = [1, 2]" "sg_segment_size demo_store = 64"
  "store_ok True demo_store" "chain demo_store (bucket_new_ttl 60) []"
proof -
  have "built_ids 2 = [1, 2]" by (simp add: built_ids_def upt_conv_Cons)
  then show "sg_free_queue demo_store = [1, 2]" "sg_segment_size demo_store = 64"
    using segments_build_built [OF demo_store_built] by (simp_all add: built_def)
  show "store_ok True demo_store" by (rule built_store_ok [OF demo_store_built])
  show "chain demo_store (bucket_new_ttl 60) []"
    by (simp add: chain_def bucket_head_def bucket_tail_def link_new_def bucket_new_ttl_def)
qed

theorem bucket_reserve_contract_witness:
  "\<exists>s' b' r. bucket_reserve True 5 24 (demo_store, bucket_new_ttl 60) = Some (Inr r, s', b') \<and> chain s' b' [1]"
  using bucket_reserve_contract [OF demo_store_facts(3,4), of 24 5]
  by (auto simp: demo_store_facts(1,2) initial_offset_def tail_room_def)

text \<open>The store after every segment of the free queue was linked: they are empty, and of the others only the metadata changed.\<close>

definition all_linked :: "bool \<Rightarrow> segments \<Rightarrow> segments \<Rightarrow> bool" where
  "all_linked i s s' \<longleftrightarrow> sg_free_queue s' = [] \<and> sg_data s' = sg_data s
     \<and> (\<forall>x \<in> set (sg_free_queue s). \<exists>h. header_of s' x = Some h \<and> fresh_header i h)
     \<and> (\<forall>y h. y \<notin> set (sg_free_queue s) \<longrightarrow> header_of s y = Some h \<longrightarrow>
          (\<exists>w. header_of s' y = Some (h\<lparr>hd_metadata := w\<rparr>)))"

lemma metadata_rewritten: "\<exists>w. h = h\<lparr>hd_metadata := w\<rparr>" for h :: seg_header
  by (rule exI [of _ "hd_metadata h"]) simp

lemma all_linked_none: "sg_free_queue s = [] \<Longrightarrow> all_linked i s s"
  using metadata_rewritten by (auto simp: all_linked_def)

lemma all_linked_next:
  assumes ok: "store_ok i s" and q: "sg_free_queue s = x # rest"
    and a: "appended i now ttl s xs x rest s1" and l: "all_linked i s1 s'"
  shows "all_linked i s s'"
proof -
  have q1: "sg_free_queue s1 = rest" "sg_data s1 = sg_data s" using a by (simp_all add: appended_def)
  have x: "x \<notin> set rest" using ok q by (auto simp: store_ok_def queued_def)
  obtain hx where hx: "header_of s1 x = Some hx" "fresh_header i hx" using a unfolding appended_def by blast
  have "\<exists>w. header_of s' x = Some (hx\<lparr>hd_metadata := w\<rparr>)" using l x hx(1) unfolding all_linked_def q1 by blast
  then have "\<exists>h. header_of s' x = Some h \<and> fresh_header i h" using hx(2) by (auto simp: fresh_header_def)
  moreover have "\<exists>w. header_of s' y = Some (h\<lparr>hd_metadata := w\<rparr>)" if y: "y \<notin> set (x # rest)" and h: "header_of s y = Some h" for y h
  proof -
    have "\<exists>w. header_of s1 y = Some (h\<lparr>hd_metadata := w\<rparr>)"
    proof (cases "xs \<noteq> [] \<and> y = last xs")
      case True
      then show ?thesis using a h unfolding appended_def by auto
    next
      case False
      then have "header_of s1 y = Some h" using a h y unfolding appended_def by auto
      then show ?thesis using metadata_rewritten by auto
    qed
    then obtain w where w: "header_of s1 y = Some (h\<lparr>hd_metadata := w\<rparr>)" by blast
    then have "\<exists>v. header_of s' y = Some (h\<lparr>hd_metadata := w\<rparr>\<lparr>hd_metadata := v\<rparr>)"
      using l y unfolding all_linked_def q1 by auto
    then show ?thesis by auto
  qed
  ultimately show ?thesis using l unfolding all_linked_def q q1 by auto
qed

text \<open>
  C30. With the integrity feature a segment starts with eight magic bytes, and an item larger than what they leave but
  not larger than the segment passes the size check of a reservation. No segment can hold it, and the reservation
  seals the tail behind one free segment after the other until none is left, puts them all in the bucket's chain,
  and then answers that no segments are free. Each segment put there is empty: its write offset is that of a new
  segment and it has no live item. Of the other segments only the metadata word may change, and the data is as it was.
\<close>

theorem bucket_reserve_exhausts:
  assumes "store_ok i s" and "chain s b xs" and "\<not> tail_room s xs sz" and "0 < sz"
    and "int sz \<le> sint (sg_segment_size s)" and "sint (sg_segment_size s) < sint (initial_offset i) + int sz"
  shows "\<exists>s' b'. bucket_reserve i now sz (s, b) = Some (Inl NoFreeSegments, s', b') \<and> store_ok i s'
    \<and> chain s' b' (xs @ sg_free_queue s) \<and> all_linked i s s'"
proof -
  have "\<exists>s' b'. bucket_reserve_loop i now (of_nat sz) (s, b) = Some (Inl NoFreeSegments, s', b') \<and> store_ok i s'
    \<and> chain s' b' (xs @ sg_free_queue s) \<and> all_linked i s s'"
    using assms
  proof (induction "sg_free_queue s" arbitrary: s b xs)
    case Nil
    then show ?case using reserve_without_free [OF Nil.prems(1-5)] all_linked_none by auto
  next
    case (Cons x rest)
    note q = Cons.hyps(2) [symmetric]
    from reserve_expands [OF Cons.prems(1-5) q, of now] obtain s1 b1 where
      l: "bucket_reserve_loop i now (of_nat sz) (s, b) = bucket_reserve_loop i now (of_nat sz) (s1, b1)"
      and s1: "store_ok i s1" "chain s1 b1 (xs @ [x])" "appended i now (tb_ttl b) s xs x rest s1" by blast
    have "\<not> tail_room s1 (xs @ [x]) sz" using appended_room [OF s1(3)] Cons.prems(6) by simp
    moreover have q1: "sg_free_queue s1 = rest" "sg_segment_size s1 = sg_segment_size s" using s1(3) by (simp_all add: appended_def)
    ultimately obtain s' b' where "bucket_reserve_loop i now (of_nat sz) (s1, b1) = Some (Inl NoFreeSegments, s', b')"
      "store_ok i s'" "chain s' b' ((xs @ [x]) @ rest)" "all_linked i s1 s'"
      using Cons.hyps(1) [OF _ s1(1,2) _ Cons.prems(4)] Cons.prems(5,6) by auto
    then show ?case using l q all_linked_next [OF Cons.prems(1) q s1(3)] by auto
  qed
  moreover have "bucket_reserve i now sz (s, b) = bucket_reserve_loop i now (of_nat sz) (s, b)"
    using assms(5) by (auto simp: bucket_reserve_def)
  ultimately show ?thesis by simp
qed

theorem bucket_reserve_exhausts_witness:
  "\<exists>s' b'. bucket_reserve True 5 64 (demo_store, bucket_new_ttl 60) = Some (Inl NoFreeSegments, s', b')
     \<and> chain s' b' [1, 2] \<and> sg_free_queue s' = [] \<and> (\<exists>h. header_of s' 2 = Some h \<and> fresh_header True h)"
  using bucket_reserve_exhausts [OF demo_store_facts(3,4), of 64 5]
  by (auto simp: demo_store_facts(1,2) initial_offset_def tail_room_def all_linked_def)

end
