(* ===== verification/Float64.thy ===== *)
theory Float64
  imports Complex_Main
begin

text \<open>
  The 64-bit floating-point numbers the merge policy computes with, as far as the code uses them: a real of the binary64
  format, an infinity or not-a-number. An operation rounds its exact result to 53 significant bits, ties to even. The
  code's values lie far from the smallest and the largest exponent, so neither subnormal results nor overflow are
  modelled, and zeros have no sign.
\<close>

datatype f64 = Fin real | Inf bool | NaN

definition round_even :: "real \<Rightarrow> int" where
  "round_even x = (let f = \<lfloor>x\<rfloor>; d = x - of_int f in
     if d < 1 / 2 then f else if d > 1 / 2 then f + 1 else if even f then f else f + 1)"

definition f64_round :: "real \<Rightarrow> f64" where
  "f64_round x = (if x = 0 then Fin 0
     else let e = \<lfloor>log 2 \<bar>x\<bar>\<rfloor> - 52 in Fin (of_int (round_even (x * 2 powr of_int (- e))) * 2 powr of_int e))"

definition f64_of_int :: "int \<Rightarrow> f64" where
  "f64_of_int n = f64_round (of_int n)"

fun f64_add :: "f64 \<Rightarrow> f64 \<Rightarrow> f64" where
  "f64_add (Fin x) (Fin y) = f64_round (x + y)"
| "f64_add (Inf p) (Inf q) = (if p = q then Inf p else NaN)"
| "f64_add (Inf p) (Fin _) = Inf p"
| "f64_add (Fin _) (Inf q) = Inf q"
| "f64_add NaN _ = NaN"
| "f64_add _ NaN = NaN"

fun f64_neg :: "f64 \<Rightarrow> f64" where
  "f64_neg (Fin x) = Fin (- x)"
| "f64_neg (Inf p) = Inf (\<not> p)"
| "f64_neg NaN = NaN"

definition f64_sub :: "f64 \<Rightarrow> f64 \<Rightarrow> f64" where
  "f64_sub x y = f64_add x (f64_neg y)"

fun f64_mul :: "f64 \<Rightarrow> f64 \<Rightarrow> f64" where
  "f64_mul (Fin x) (Fin y) = f64_round (x * y)"
| "f64_mul (Inf p) (Inf q) = Inf (p = q)"
| "f64_mul (Inf p) (Fin y) = (if y = 0 then NaN else Inf (p = (y > 0)))"
| "f64_mul (Fin x) (Inf q) = (if x = 0 then NaN else Inf ((x > 0) = q))"
| "f64_mul NaN _ = NaN"
| "f64_mul _ NaN = NaN"

text \<open>A quotient by zero takes its sign from the dividend.\<close>

fun f64_div :: "f64 \<Rightarrow> f64 \<Rightarrow> f64" where
  "f64_div (Fin x) (Fin y) = (if y = 0 then (if x = 0 then NaN else Inf (x > 0)) else f64_round (x / y))"
| "f64_div (Inf p) (Fin y) = Inf (p = (y \<ge> 0))"
| "f64_div (Fin _) (Inf _) = Fin 0"
| "f64_div (Inf _) (Inf _) = NaN"
| "f64_div NaN _ = NaN"
| "f64_div _ NaN = NaN"

fun f64_le :: "f64 \<Rightarrow> f64 \<Rightarrow> bool" where
  "f64_le (Fin x) (Fin y) \<longleftrightarrow> x \<le> y"
| "f64_le (Inf p) (Inf q) \<longleftrightarrow> (p \<longrightarrow> q)"
| "f64_le (Inf p) (Fin _) \<longleftrightarrow> \<not> p"
| "f64_le (Fin _) (Inf q) \<longleftrightarrow> q"
| "f64_le NaN _ \<longleftrightarrow> False"
| "f64_le _ NaN \<longleftrightarrow> False"

definition f64_less :: "f64 \<Rightarrow> f64 \<Rightarrow> bool" where
  "f64_less x y \<longleftrightarrow> f64_le x y \<and> \<not> f64_le y x"

text \<open>\<^verbatim>\<open>f64::max\<close> ignores a not-a-number.\<close>

definition f64_max :: "f64 \<Rightarrow> f64 \<Rightarrow> f64" where
  "f64_max x y = (if x = NaN then y else if y = NaN then x else if f64_le x y then y else x)"

fun f64_floor :: "f64 \<Rightarrow> f64" where
  "f64_floor (Fin x) = Fin (of_int \<lfloor>x\<rfloor>)"
| "f64_floor (Inf p) = Inf p"
| "f64_floor NaN = NaN"

fun f64_ceil :: "f64 \<Rightarrow> f64" where
  "f64_ceil (Fin x) = Fin (of_int \<lceil>x\<rceil>)"
| "f64_ceil (Inf p) = Inf p"
| "f64_ceil NaN = NaN"

text \<open>\<^verbatim>\<open>as i32\<close>: towards zero, saturating, and zero for a not-a-number.\<close>

fun f64_to_i32 :: "f64 \<Rightarrow> int" where
  "f64_to_i32 (Fin x) = max (- (2 ^ 31)) (min (2 ^ 31 - 1) (if x < 0 then \<lceil>x\<rceil> else \<lfloor>x\<rfloor>))"
| "f64_to_i32 (Inf p) = (if p then 2 ^ 31 - 1 else - (2 ^ 31))"
| "f64_to_i32 NaN = 0"

fun f64_to_usize :: "f64 \<Rightarrow> nat" where
  "f64_to_usize (Fin x) = min (2 ^ 64 - 1) (nat \<lfloor>x\<rfloor>)"
| "f64_to_usize (Inf p) = (if p then 2 ^ 64 - 1 else 0)"
| "f64_to_usize NaN = 0"

section \<open>Exact results\<close>

lemma round_even_int [simp]: "round_even (of_int n) = n"
  by (simp add: round_even_def)

text \<open>An integer of at most 53 bits times a power of two is a binary64 number: rounding keeps it.\<close>

lemma f64_round_exact:
  assumes "\<bar>m\<bar> < 2 ^ 53"
  shows "f64_round (of_int m * 2 powr of_int k) = Fin (of_int m * 2 powr of_int k)"
proof (cases "m = 0")
  case False
  define l where "l = \<lfloor>log 2 \<bar>of_int m\<bar>\<rfloor>"
  have "real_of_int \<bar>m\<bar> < 2 ^ 53" using assms by (metis of_int_less_iff of_int_numeral of_int_power)
  then have "log 2 \<bar>real_of_int m\<bar> < 53" using False by (simp add: log_less_iff powr_realpow)
  then have l52: "l \<le> 52" by (simp add: l_def floor_le_iff)
  have pw: "2 powr real_of_int (52 - l) = 2 ^ nat (52 - l)" using l52 by (subst powr_real_of_int) simp_all
  have lg: "log 2 \<bar>of_int m * 2 powr of_int k\<bar> = log 2 \<bar>of_int m\<bar> + of_int k"
    using False by (simp add: abs_mult log_mult)
  have e: "\<lfloor>log 2 \<bar>of_int m * 2 powr of_int k\<bar>\<rfloor> - 52 = l + k - 52"
    by (simp add: lg l_def)
  have "(real_of_int m * 2 powr of_int k) * 2 powr of_int (- (l + k - 52)) = of_int m * (2 powr of_int k * 2 powr of_int (- (l + k - 52)))"
    by simp
  also have "\<dots> = of_int m * 2 powr of_int (52 - l)" unfolding powr_add [symmetric] by (simp add: algebra_simps)
  also have "\<dots> = of_int (m * 2 ^ nat (52 - l))" by (simp only: pw of_int_mult of_int_power of_int_numeral)
  finally have r: "round_even ((of_int m * 2 powr of_int k) * 2 powr of_int (- (l + k - 52))) = m * 2 ^ nat (52 - l)"
    by (simp only: round_even_int)
  have "real_of_int (m * 2 ^ nat (52 - l)) * 2 powr of_int (l + k - 52) = of_int m * (2 powr of_int (52 - l) * 2 powr of_int (l + k - 52))"
    by (simp only: pw of_int_mult of_int_power of_int_numeral mult.assoc)
  also have "\<dots> = of_int m * 2 powr of_int k" unfolding powr_add [symmetric] by simp
  finally show ?thesis using False unfolding f64_round_def Let_def e r by simp
qed (simp add: f64_round_def)

lemma f64_of_int_exact: "\<bar>m\<bar> < 2 ^ 53 \<Longrightarrow> f64_of_int m = Fin (of_int m)"
  using f64_round_exact [of m 0] by (simp add: f64_of_int_def)

end
