(* ===== verification/Evictor.thy ===== *)
theory Evictor
  imports SegStore GhostQueue Rand Float64 "HOL-Library.Product_Lexorder"
begin

unbundle bit_operations_syntax

text \<open>
  The ranking of segments for eviction (\<^verbatim>\<open>eviction/mod.rs\<close>): the state behind the eviction mutex, the ranking that the
  Fifo, Cte and Util policies refresh, and the parameters of the merge policy. \<open>after\<close> is an instant plus a duration and
  \<open>since\<close> the whole seconds between two instants, which the clock crate defines.
\<close>

record eviction =
  ev_policy :: "f64 policy"
  ev_last_update :: u32
  ev_ranked :: "u32 option list"
  ev_index :: nat
  ev_rng :: random
  ev_ghost :: ghost_queue

fun ghost_capacity_for :: "nat \<Rightarrow> f64 policy \<Rightarrow> nat" where
  "ghost_capacity_for nseg (S3Fifo r) = max 1024 (nseg * 64)"
| "ghost_capacity_for nseg _ = 0"

definition eviction_new :: "u32 \<Rightarrow> nat \<Rightarrow> f64 policy \<Rightarrow> u64 option \<Rightarrow> eviction" where
  "eviction_new now nseg policy seed =
     \<lparr>ev_policy = policy, ev_last_update = now, ev_ranked = replicate nseg None, ev_index = 0,
      ev_rng = random_new (case seed of Some s \<Rightarrow> s | None \<Rightarrow> DEFAULT_SEED),
      ev_ghost = ghost_new (ghost_capacity_for nseg policy)\<rparr>"

definition ranked_least :: "eviction \<Rightarrow> u32 option \<times> eviction" where
  "ranked_least ev =
     (let index = ev_index ev in
      (if index < length (ev_ranked ev) then ev_ranked ev ! index else None, ev\<lparr>ev_index := index + 1\<rparr>))"

definition eviction_random :: "eviction \<Rightarrow> u32 \<times> eviction" where
  "eviction_random ev = (let (x, rng) = next_u32 (ev_rng ev) in (x, ev\<lparr>ev_rng := rng\<rparr>))"

fun policy_ranks :: "f64 policy \<Rightarrow> bool" where
  "policy_ranks Fifo = True"
| "policy_ranks Cte = True"
| "policy_ranks Util = True"
| "policy_ranks _ = False"

definition should_rerank :: "(u32 \<Rightarrow> u32 \<Rightarrow> u32) \<Rightarrow> u32 \<Rightarrow> eviction \<Rightarrow> (bool \<times> eviction) option" where
  "should_rerank since now ev =
     (if \<not> policy_ranks (ev_policy ev) then Some (False, ev)
      else if ev_ranked ev = [] then None
      else if ev_ranked ev ! 0 = None \<or> since now (ev_last_update ev) > 1 \<or> length (ev_ranked ev) < ev_index ev + 8
        then Some (True, ev\<lparr>ev_last_update := now\<rparr>)
      else Some (False, ev))"

text \<open>
  \<^verbatim>\<open>rank_by\<close>: the tuples of evictability, key and id, sorted; they are distinct because the ids are, so an unstable sort
  gives the same list.
\<close>

definition rank_tuple :: "(seg_header \<Rightarrow> int) \<Rightarrow> seg_header \<Rightarrow> (bool \<times> int \<times> nat) option" where
  "rank_tuple key h = map_option (\<lambda>e. (\<not> e, key h, unat (hd_id h))) (can_evict h)"

definition rank_by :: "seg_header list \<Rightarrow> (seg_header \<Rightarrow> int) \<Rightarrow> eviction \<Rightarrow> eviction option" where
  "rank_by headers key ev =
     do {
       tuples \<leftarrow> those (map (rank_tuple key) headers);
       let ranked = map (\<lambda>(_, _, i). Some (of_nat i)) (sort tuples);
       let n = min (length (ev_ranked ev)) (length ranked);
       Some (ev\<lparr>ev_ranked := take n ranked @ drop n (ev_ranked ev), ev_index := 0\<rparr>)
     }"

fun rerank :: "(u32 \<Rightarrow> u32 \<Rightarrow> u32) \<Rightarrow> seg_header list \<Rightarrow> f64 policy \<Rightarrow> eviction \<Rightarrow> eviction option" where
  "rerank after headers Fifo ev = rank_by headers (\<lambda>h. uint (max (hd_create_at h) (hd_merge_at h))) ev"
| "rerank after headers Cte ev = rank_by headers (\<lambda>h. uint (after (hd_create_at h) (hd_ttl h))) ev"
| "rerank after headers Util ev = rank_by headers (\<lambda>h. sint (hd_live_bytes h)) ev"
| "rerank after headers _ ev = Some ev"

section \<open>Merge parameters\<close>

fun max_merge :: "f64 policy \<Rightarrow> nat" where
  "max_merge (Merge mx m c) = mx"
| "max_merge _ = 8"

fun n_merge :: "f64 policy \<Rightarrow> nat" where
  "n_merge (Merge mx m c) = m"
| "n_merge _ = 4"

fun n_compact :: "f64 policy \<Rightarrow> nat" where
  "n_compact (Merge mx m c) = c"
| "n_compact _ = 2"

definition compact_ratio :: "f64 policy \<Rightarrow> f64" where
  "compact_ratio p = (if n_compact p = 0 then Fin 0 else f64_div (Fin 1) (f64_of_int (int (n_compact p))))"

definition target_ratio :: "f64 policy \<Rightarrow> f64" where
  "target_ratio p = f64_div (Fin 1) (f64_of_int (int (n_merge p)))"

text \<open>The predecessor of a \<^verbatim>\<open>usize\<close> wraps around at zero.\<close>

definition stop_ratio :: "f64 policy \<Rightarrow> f64" where
  "stop_ratio p = f64_add (f64_mul (target_ratio p) (f64_of_int (uint (of_nat (n_merge p) - 1 :: u64)))) (f64_round (5 / 100))"

end
