(* ===== verification/SegMove.thy ===== *)
theory SegMove
  imports SegView Evictor
begin

unbundle bit_operations_syntax

text \<open>
  Moving items between segments (\<^verbatim>\<open>copy_into\<close> and \<^verbatim>\<open>prune\<close> of \<^verbatim>\<open>segments/segment.rs\<close>, the S3-FIFO promotion and ghost scan of
  \<^verbatim>\<open>segments/segments.rs\<close>), by one thread. The scans share the walk over the item stream of a segment.
\<close>

section \<open>One item\<close>

text \<open>
  The copy of one item and its relinking: the item's version lock is held over both, the bytes are copied, the copy is
  stamped with the even version, and the hashtable entry is swung from the old to the new location. On success the
  accounting moves with the item.
\<close>

definition moved_gauges :: "i32 \<Rightarrow> item_gauges \<Rightarrow> item_gauges" where
  "moved_gauges sz g = \<lparr>ig_current = ig_current g + 1, ig_current_bytes = ig_current_bytes g + sint sz,
     ig_dead = ig_dead g - 1, ig_dead_bytes = ig_dead_bytes g - sint sz\<rparr>"

definition account_move :: "bool \<Rightarrow> u32 \<Rightarrow> u32 \<Rightarrow> nat \<Rightarrow> nat \<Rightarrow> i32 \<Rightarrow> segments \<Rightarrow> segments option" where
  "account_move integrity src dst offset write_offset sz s = do {
     s \<leftarrow> remove_item_at integrity s src offset;
     s \<leftarrow> update_header s src (Some \<circ> decr_dead_item sz);
     s \<leftarrow> update_header s dst (Some \<circ> incr_live_items);
     s \<leftarrow> update_header s dst (Some \<circ> incr_live_bytes sz);
     s \<leftarrow> update_header s dst (Some \<circ> set_write_offset (of_nat write_offset + sz));
     Some (s\<lparr>sg_gauges := moved_gauges sz (sg_gauges s)\<rparr>) }"

definition relocate ::
  "bool \<Rightarrow> u32 \<Rightarrow> u32 \<Rightarrow> nat \<Rightarrow> nat \<Rightarrow> nat \<Rightarrow> relink_freq \<Rightarrow> segments \<times> hashtable \<Rightarrow> (bool \<times> segments \<times> hashtable) option" where
  "relocate integrity src dst offset write_offset isize relink sht = do {
     let (s, ht) = sht;
     hs \<leftarrow> header_of s src;
     hd \<leftarrow> header_of s dst;
     let old_loc = pack_location src (hd_generation hs) (of_nat offset);
     let new_loc = pack_location dst (hd_generation hd) (of_nat write_offset);
     let from = byte_offset s src offset;
     let to = byte_offset s dst write_offset;
     key \<leftarrow> raw_key integrity (sg_data s) from;
     lock \<leftarrow> lock_numeric_version integrity (sg_data s) from;
     let m = (case lock of Inl _ \<Rightarrow> sg_data s | Inr (_, m) \<Rightarrow> m);
     bytes \<leftarrow> load_bytes m from isize;
     m \<leftarrow> store_bytes m to bytes;
     m \<leftarrow> (case lock of Inl _ \<Rightarrow> Some m | Inr (v, _) \<Rightarrow> stamp_relocated_copy integrity v m to);
     let (relinked, ht) = cas_location key old_loc new_loc relink ht;
     m \<leftarrow> (case lock of Inl _ \<Rightarrow> Some m | Inr (v, _) \<Rightarrow> guard_drop integrity v m from);
     let s = s\<lparr>sg_data := m\<rparr>;
     if relinked
     then do { s \<leftarrow> account_move integrity src dst offset write_offset (of_nat isize) s; Some (True, s, ht) }
     else Some (False, s, ht) }"

definition item_start :: "bool \<Rightarrow> nat" where
  "item_start integrity = (if integrity then 8 else 0)"

definition frequency_at :: "bool \<Rightarrow> segments \<times> hashtable \<Rightarrow> u32 \<Rightarrow> nat \<Rightarrow> nat \<Rightarrow> u8 option option" where
  "frequency_at integrity sht seg_id offset item = do {
     h \<leftarrow> header_of (fst sht) seg_id;
     key \<leftarrow> raw_key integrity (sg_data (fst sht)) item;
     Some (get_item_frequency key (pack_location seg_id (hd_generation h) (of_nat offset)) (snd sht)) }"

section \<open>Copying the live items\<close>

function copy_loop ::
  "bool \<Rightarrow> u32 \<Rightarrow> u32 \<Rightarrow> nat \<Rightarrow> nat \<Rightarrow> segments \<times> hashtable \<Rightarrow> ((segments_error + unit) \<times> segments \<times> hashtable) option" where
  "copy_loop integrity src dst max_offset offset sht =
     (if offset \<le> max_offset then do {
        item \<leftarrow> seg_item_at integrity (fst sht) src offset;
        klen \<leftarrow> raw_klen integrity (sg_data (fst sht)) item;
        h \<leftarrow> header_of (fst sht) src;
        if klen = 0 \<and> hd_live_items h = 0 then Some (Inr (), sht)
        else do {
          raw_check_magic integrity (sg_data (fst sht)) item;
          isize \<leftarrow> raw_size integrity (sg_data (fst sht)) item;
          hd \<leftarrow> header_of (fst sht) dst;
          let write_offset = nat (sint (hd_write_offset hd));
          deleted \<leftarrow> raw_is_deleted integrity (sg_data (fst sht)) item;
          freq \<leftarrow> frequency_at integrity sht src offset item;
          if deleted \<or> freq = None \<or> write_offset + isize \<ge> nat (sint (sg_segment_size (fst sht)))
          then copy_loop integrity src dst max_offset (offset + isize) sht
          else do {
            (relinked, sht) \<leftarrow> relocate integrity src dst offset write_offset isize Preserve sht;
            if relinked then copy_loop integrity src dst max_offset (offset + isize) sht
            else Some (Inl RelinkFailure, sht) } } }
      else Some (Inr (), sht))"
  by pat_completeness auto
termination
  by (relation "measure (\<lambda>(_, _, _, max_offset, offset, _). Suc max_offset - offset)") (auto dest: raw_size_pos)

declare copy_loop.simps [simp del]

definition copy_into ::
  "bool \<Rightarrow> u32 \<Rightarrow> u32 \<Rightarrow> segments \<times> hashtable \<Rightarrow> ((segments_error + unit) \<times> segments \<times> hashtable) option" where
  "copy_into integrity src dst sht = do {
     h \<leftarrow> header_of (fst sht) src;
     copy_loop integrity src dst (max_item_offset integrity (fst sht) h) (item_start integrity) sht }"

section \<open>Pruning\<close>

record prune_state =
  pr_cutoff :: f64
  pr_scanned :: nat
  pr_dropped :: nat
  pr_retained :: nat
  pr_nth_update :: nat

text \<open>The adjustment of the cutoff at a checkpoint of the scan.\<close>

definition adjust_cutoff :: "nat \<Rightarrow> f64 \<Rightarrow> prune_state \<Rightarrow> prune_state" where
  "adjust_cutoff update_interval target p =
     (if pr_scanned p \<ge> pr_nth_update p * update_interval then
        let t = f64_div (f64_sub (f64_div (f64_of_int (int (pr_retained p))) (f64_of_int (int (pr_scanned p)))) target) target;
            p = p\<lparr>pr_nth_update := pr_nth_update p + 1\<rparr> in
        if \<not> (f64_le (Fin (- (1 / 2))) t \<and> f64_le t (Fin (1 / 2)))
        then p\<lparr>pr_cutoff := f64_mul (pr_cutoff p) (f64_max (f64_add (Fin 1) t) (Fin (1 / 4)))\<rparr>
        else p
      else p)"

definition prune_drops :: "f64 \<Rightarrow> i32 \<Rightarrow> nat \<Rightarrow> u8 \<Rightarrow> prune_state \<Rightarrow> bool" where
  "prune_drops mean_size to_drop isize freq p =
     (let weighted = f64_div (f64_of_int (uint freq)) (f64_div (f64_of_int (int isize)) mean_size) in
      f64_le (f64_round (1 / 10000)) (pr_cutoff p) \<and> 0 < sint to_drop \<and> pr_dropped p < nat (sint to_drop)
        \<and> f64_le weighted (pr_cutoff p))"

function prune_loop ::
  "bool \<Rightarrow> u32 \<Rightarrow> f64 \<Rightarrow> f64 \<Rightarrow> i32 \<Rightarrow> nat \<Rightarrow> nat \<Rightarrow> prune_state \<Rightarrow> segments \<times> hashtable
   \<Rightarrow> (f64 \<times> segments \<times> hashtable) option" where
  "prune_loop integrity seg_id target mean_size to_drop max_offset offset p sht =
     (if offset \<le> max_offset then do {
        item \<leftarrow> seg_item_at integrity (fst sht) seg_id offset;
        klen \<leftarrow> raw_klen integrity (sg_data (fst sht)) item;
        h \<leftarrow> header_of (fst sht) seg_id;
        if klen = 0 \<and> hd_live_items h = 0 then Some (pr_cutoff p, sht)
        else do {
          raw_check_magic integrity (sg_data (fst sht)) item;
          isize \<leftarrow> raw_size integrity (sg_data (fst sht)) item;
          deleted \<leftarrow> raw_is_deleted integrity (sg_data (fst sht)) item;
          freq \<leftarrow> frequency_at integrity sht seg_id offset item;
          if deleted \<or> freq = None
          then prune_loop integrity seg_id target mean_size to_drop max_offset (offset + isize) p sht
          else do {
            let p = p\<lparr>pr_scanned := pr_scanned p + isize\<rparr>;
            let p = adjust_cutoff (nat (sint (sg_segment_size (fst sht))) div 10) target p;
            if prune_drops mean_size to_drop isize (case freq of Some f \<Rightarrow> f | None \<Rightarrow> 0) p then do {
              key \<leftarrow> raw_key integrity (sg_data (fst sht)) item;
              let loc = pack_location seg_id (hd_generation h) (of_nat offset);
              let (removed, ht) = ht_remove key loc (snd sht);
              s \<leftarrow> (if removed then remove_item_at integrity (fst sht) seg_id offset else Some (fst sht));
              prune_loop integrity seg_id target mean_size to_drop max_offset (offset + isize)
                (p\<lparr>pr_dropped := pr_dropped p + isize\<rparr>) (s, ht) }
            else prune_loop integrity seg_id target mean_size to_drop max_offset (offset + isize)
              (p\<lparr>pr_retained := pr_retained p + isize\<rparr>) sht } } }
      else Some (pr_cutoff p, sht))"
  by pat_completeness auto
termination
  by (relation "measure (\<lambda>(_, _, _, _, _, max_offset, offset, _, _). Suc max_offset - offset)") (auto dest: raw_size_pos)

declare prune_loop.simps [simp del]

definition prune ::
  "bool \<Rightarrow> u32 \<Rightarrow> f64 \<Rightarrow> f64 \<Rightarrow> segments \<times> hashtable \<Rightarrow> (f64 \<times> segments \<times> hashtable) option" where
  "prune integrity seg_id cutoff_freq target sht = do {
     h \<leftarrow> header_of (fst sht) seg_id;
     let len = sint (sg_segment_size (fst sht));
     let to_keep = f64_to_i32 (f64_floor (f64_mul (f64_of_int len) target));
     let to_drop = hd_live_bytes h - of_int to_keep;
     let mean_size = f64_div (f64_of_int (sint (hd_live_bytes h))) (f64_of_int (sint (hd_live_items h)));
     let cutoff = f64_div (f64_add (Fin 1) cutoff_freq) (Fin 2);
     prune_loop integrity seg_id target mean_size to_drop (max_item_offset integrity (fst sht) h) (item_start integrity)
       \<lparr>pr_cutoff = cutoff, pr_scanned = 0, pr_dropped = 0, pr_retained = 0, pr_nth_update = 1\<rparr> sht }"

section \<open>S3-FIFO\<close>

function promote_loop ::
  "bool \<Rightarrow> u32 \<Rightarrow> u32 \<Rightarrow> relink_freq \<Rightarrow> nat \<Rightarrow> nat \<Rightarrow> segments \<times> hashtable \<Rightarrow> (segments \<times> hashtable) option" where
  "promote_loop integrity src dst relink max_offset offset sht =
     (if offset \<le> max_offset then do {
        item \<leftarrow> seg_item_at integrity (fst sht) src offset;
        klen \<leftarrow> raw_klen integrity (sg_data (fst sht)) item;
        h \<leftarrow> header_of (fst sht) src;
        if klen = 0 \<and> hd_live_items h = 0 then Some sht
        else do {
          raw_check_magic integrity (sg_data (fst sht)) item;
          isize \<leftarrow> raw_size integrity (sg_data (fst sht)) item;
          deleted \<leftarrow> raw_is_deleted integrity (sg_data (fst sht)) item;
          if deleted then promote_loop integrity src dst relink max_offset (offset + isize) sht
          else do {
            freq \<leftarrow> frequency_at integrity sht src offset item;
            hd \<leftarrow> header_of (fst sht) dst;
            let write_offset = nat (sint (hd_write_offset hd));
            if freq = None \<or> freq = Some 0 \<or> \<not> write_offset + isize < nat (sint (sg_segment_size (fst sht)))
            then promote_loop integrity src dst relink max_offset (offset + isize) sht
            else do {
              (relinked, sht) \<leftarrow> relocate integrity src dst offset write_offset isize relink sht;
              promote_loop integrity src dst relink max_offset (offset + isize) sht } } } }
      else Some sht)"
  by pat_completeness auto
termination
  by (relation "measure (\<lambda>(_, _, _, _, max_offset, offset, _). Suc max_offset - offset)") (auto dest: raw_size_pos)

declare promote_loop.simps [simp del]

definition segment_pair :: "bool \<Rightarrow> segments \<Rightarrow> u32 \<Rightarrow> u32 \<Rightarrow> (segments_error + unit) option" where
  "segment_pair integrity s a b =
     (if a = b then Some (Inl BadSegmentId)
      else if unat a - 1 \<ge> length (sg_headers s) \<or> unat b - 1 \<ge> length (sg_headers s) then Some (Inl BadSegmentId)
      else do { seg_check_magic integrity s a; seg_check_magic integrity s b; Some (Inr ()) })"

definition s3fifo_promote_from ::
  "bool \<Rightarrow> u32 \<Rightarrow> u32 \<Rightarrow> relink_freq \<Rightarrow> segments \<times> hashtable \<Rightarrow> (segments \<times> hashtable) option" where
  "s3fifo_promote_from integrity src dst relink sht = do {
     pair \<leftarrow> segment_pair integrity (fst sht) src dst;
     (case pair of Inl _ \<Rightarrow> Some sht
      | Inr _ \<Rightarrow> do {
          h \<leftarrow> header_of (fst sht) src;
          promote_loop integrity src dst relink (max_item_offset integrity (fst sht) h) (item_start integrity) sht }) }"

text \<open>The hashes of the items still linked, in the order of the stream.\<close>

function ghost_loop :: "bool \<Rightarrow> u32 \<Rightarrow> nat \<Rightarrow> nat \<Rightarrow> segments \<times> hashtable \<Rightarrow> u64 list option" where
  "ghost_loop integrity seg_id max_offset offset sht =
     (if offset \<le> max_offset then do {
        item \<leftarrow> seg_item_at integrity (fst sht) seg_id offset;
        klen \<leftarrow> raw_klen integrity (sg_data (fst sht)) item;
        if klen = 0 then Some []
        else do {
          isize \<leftarrow> raw_size integrity (sg_data (fst sht)) item;
          deleted \<leftarrow> raw_is_deleted integrity (sg_data (fst sht)) item;
          freq \<leftarrow> frequency_at integrity sht seg_id offset item;
          key \<leftarrow> raw_key integrity (sg_data (fst sht)) item;
          rest \<leftarrow> ghost_loop integrity seg_id max_offset (offset + isize) sht;
          Some (if deleted \<or> freq = None then rest else ht_hash (snd sht) key # rest) } }
      else Some [])"
  by pat_completeness auto
termination
  by (relation "measure (\<lambda>(_, _, max_offset, offset, _). Suc max_offset - offset)") (auto dest: raw_size_pos)

declare ghost_loop.simps [simp del]

definition s3fifo_ghost_remaining ::
  "bool \<Rightarrow> u32 \<Rightarrow> segments \<times> hashtable \<Rightarrow> eviction \<Rightarrow> eviction option" where
  "s3fifo_ghost_remaining integrity seg_id sht ev = do {
     v \<leftarrow> segment_view integrity (fst sht) seg_id;
     (case v of Inl _ \<Rightarrow> Some ev
      | Inr _ \<Rightarrow> do {
          h \<leftarrow> header_of (fst sht) seg_id;
          hashes \<leftarrow> ghost_loop integrity seg_id (max_item_offset integrity (fst sht) h) (item_start integrity) sht;
          Some (ev\<lparr>ev_ghost := foldl ghost_insert (ev_ghost ev) hashes\<rparr>) }) }"

end
