(* ===== verification/TtlTable.thy ===== *)
theory TtlTable
  imports TtlChain
begin

text \<open>
  The table of TTL buckets (\<^verbatim>\<open>TtlBuckets\<close> of \<^verbatim>\<open>ttl_buckets/ttl_buckets.rs\<close>): its construction, the bucket of a TTL, and
  the passes of expiry and clearing over all buckets.
\<close>

record ttl_buckets =
  tt_buckets :: "ttl_bucket list"
  tt_last_expired :: u32

definition ttl_buckets_new :: "u32 \<Rightarrow> ttl_buckets" where
  "ttl_buckets_new now = \<lparr>tt_buckets = map (\<lambda>ttl. bucket_new_ttl (of_nat ttl)) bucket_ttls, tt_last_expired = now\<rparr>"

definition bucket_at :: "ttl_buckets \<Rightarrow> nat \<Rightarrow> ttl_bucket option" where
  "bucket_at t i = (if i < length (tt_buckets t) then Some (tt_buckets t ! i) else None)"

definition put_bucket :: "ttl_buckets \<Rightarrow> nat \<Rightarrow> ttl_bucket \<Rightarrow> ttl_buckets" where
  "put_bucket t i b = t\<lparr>tt_buckets := (tt_buckets t)[i := b]\<rparr>"

definition next_to_merge :: "ttl_bucket \<Rightarrow> u32 option" where
  "next_to_merge b = link_new (tb_next_to_merge b)"

definition set_next_to_merge :: "u32 option \<Rightarrow> ttl_bucket \<Rightarrow> ttl_bucket" where
  "set_next_to_merge n b = b\<lparr>tb_next_to_merge := link_get n\<rparr>"

text \<open>The drains of the buckets listed, in order, with the sum of the segments they freed.\<close>

fun drain_buckets ::
  "bool \<Rightarrow> (u32 \<Rightarrow> u32 \<Rightarrow> u32) \<Rightarrow> u32 option \<Rightarrow> nat list \<Rightarrow> segments \<times> hashtable \<times> ttl_buckets
   \<Rightarrow> (nat \<times> segments \<times> hashtable \<times> ttl_buckets) option" where
  "drain_buckets integrity after cutoff [] sht = Some (0, sht)"
| "drain_buckets integrity after cutoff (i # is) (s, ht, t) = do {
     b \<leftarrow> bucket_at t i;
     (k, s, ht, b) \<leftarrow> drain_chain integrity after cutoff (s, ht, b);
     (n, sht) \<leftarrow> drain_buckets integrity after cutoff is (s, ht, put_bucket t i b);
     Some (k + n, sht) }"

definition ttl_expire ::
  "bool \<Rightarrow> (u32 \<Rightarrow> u32 \<Rightarrow> u32) \<Rightarrow> u32 \<Rightarrow> segments \<times> hashtable \<times> ttl_buckets
   \<Rightarrow> (nat \<times> segments \<times> hashtable \<times> ttl_buckets) option" where
  "ttl_expire integrity after now sht =
     (case sht of (s, ht, t) \<Rightarrow>
        if tt_last_expired t = now then Some (0, s, ht, t)
        else drain_buckets integrity after (Some now) [0..<length (tt_buckets t)] (s, ht, t\<lparr>tt_last_expired := now\<rparr>))"

definition ttl_clear ::
  "bool \<Rightarrow> (u32 \<Rightarrow> u32 \<Rightarrow> u32) \<Rightarrow> segments \<times> hashtable \<times> ttl_buckets \<Rightarrow> (nat \<times> segments \<times> hashtable \<times> ttl_buckets) option" where
  "ttl_clear integrity after sht =
     (case sht of (s, ht, t) \<Rightarrow> drain_buckets integrity after None [0..<length (tt_buckets t)] (s, ht, t))"

end
