(* ===== verification/SegEvict.thy ===== *)
theory SegEvict
  imports SegMove TtlTable
begin

unbundle bit_operations_syntax

text \<open>
  Eviction (\<^verbatim>\<open>evict\<close>, \<^verbatim>\<open>remove_at\<close> and the passes of the policies in \<^verbatim>\<open>segments/segments.rs\<close>), by one thread. The state is
  that of the whole cache: the segment store, the eviction state behind its mutex, the hashtable and the table of TTL
  buckets. A panic and a walk that would not end are \<^const>\<open>None\<close>. The clock is read once per operation.
\<close>

section \<open>The state and the surroundings\<close>

record segcache =
  sc_hashtable :: hashtable
  sc_segments :: segments
  sc_evict :: eviction
  sc_ttl_buckets :: ttl_buckets

record env =
  e_integrity :: bool
  e_crc :: "u8 list \<Rightarrow> u32"
  e_now :: u32
  e_after :: "u32 \<Rightarrow> u32 \<Rightarrow> u32"
  e_since :: "u32 \<Rightarrow> u32 \<Rightarrow> u32"

abbreviation sc_sht :: "segcache \<Rightarrow> segments \<times> hashtable" where
  "sc_sht c \<equiv> (sc_segments c, sc_hashtable c)"

definition put_sht :: "segments \<times> hashtable \<Rightarrow> segcache \<Rightarrow> segcache" where
  "put_sht sht c = c\<lparr>sc_segments := fst sht, sc_hashtable := snd sht\<rparr>"

definition put_segments :: "segments \<Rightarrow> segcache \<Rightarrow> segcache" where
  "put_segments s c = c\<lparr>sc_segments := s\<rparr>"

text \<open>A change of the bucket with this index.\<close>

definition on_bucket :: "nat \<Rightarrow> (ttl_bucket \<Rightarrow> ttl_bucket) \<Rightarrow> segcache \<Rightarrow> segcache option" where
  "on_bucket i f c = do {
     b \<leftarrow> bucket_at (sc_ttl_buckets c) i;
     Some (c\<lparr>sc_ttl_buckets := put_bucket (sc_ttl_buckets c) i (f b)\<rparr>) }"

section \<open>Membership and copy destinations\<close>

definition is_sealed_member :: "segments \<Rightarrow> u32 \<Rightarrow> ttl_bucket \<Rightarrow> bool option" where
  "is_sealed_member s seg_id b = do {
     h \<leftarrow> header_of s seg_id;
     st \<leftarrow> header_state h;
     Some (st = Sealed \<and> holds_ttl b (hd_ttl h)) }"

definition lock_sealed_in_bucket :: "segcache \<Rightarrow> u32 \<Rightarrow> nat option option" where
  "lock_sealed_in_bucket c seg_id = do {
     h \<leftarrow> header_of (sc_segments c) seg_id;
     let i = get_bucket_index (hd_ttl h);
     b \<leftarrow> bucket_at (sc_ttl_buckets c) i;
     member \<leftarrow> is_sealed_member (sc_segments c) seg_id b;
     Some (if member then Some i else None) }"

definition inherit_created :: "segments \<Rightarrow> u32 \<Rightarrow> u32 \<Rightarrow> segments option" where
  "inherit_created s dest src = do {
     h \<leftarrow> header_of s src;
     update_header s dest (Some \<circ> set_create_at (hd_create_at h)) }"

definition configure_spare :: "segments \<Rightarrow> u32 \<Rightarrow> u32 \<Rightarrow> u32 \<Rightarrow> segments option" where
  "configure_spare s now spare_id start = do {
     h \<leftarrow> header_of s start;
     s \<leftarrow> update_header s spare_id (Some \<circ> set_ttl (hd_ttl h));
     s \<leftarrow> update_header s spare_id (Some \<circ> reset_pool);
     update_header s spare_id (Some \<circ> mark_merged now) }"

definition link_dest_before :: "u32 \<Rightarrow> u32 \<Rightarrow> segments \<times> ttl_bucket \<Rightarrow> (segments \<times> ttl_bucket) option" where
  "link_dest_before this place sb = do {
     let (s, b) = sb;
     h \<leftarrow> header_of s place;
     p \<leftarrow> prev_seg h;
     (linking, s) \<leftarrow> on_header s this (cas_metadata Reserved Linking (Some (Some place)) (Some p));
     (s, b) \<leftarrow> (case p of
         Some prev_id \<Rightarrow> do { s \<leftarrow> update_header s prev_id (update_links (Some (Some this)) None); Some (s, b) }
       | None \<Rightarrow> Some (s, set_head (Some this) b));
     s \<leftarrow> update_header s place (update_links None (Some (Some this)));
     (relinking, s) \<leftarrow> on_header s this (cas_metadata Linking Relinking None None);
     Some (s, b) }"

definition publish_dest_sealed :: "segments \<Rightarrow> u32 \<Rightarrow> segments option" where
  "publish_dest_sealed s seg_id = do {
     (sealed, s) \<leftarrow> on_header s seg_id (cas_metadata Relinking Sealed None None);
     Some s }"

definition can_evict_at :: "segments \<Rightarrow> u32 \<Rightarrow> bool option" where
  "can_evict_at s seg_id = Option.bind (header_of s seg_id) can_evict"

section \<open>The least valuable segment\<close>

definition probe_order :: "u32 \<Rightarrow> u32 \<Rightarrow> u32 list" where
  "probe_order cap start = map (\<lambda>i. (start + of_nat i) mod cap) [0..<unat cap]"

fun random_probe :: "segments \<Rightarrow> u32 list \<Rightarrow> u32 option option" where
  "random_probe s [] = Some None"
| "random_probe s (idx # is) = do {
     e \<leftarrow> can_evict_at s (idx + 1);
     if e then Some (Some (idx + 1)) else random_probe s is }"

fun fifo_walk :: "nat \<Rightarrow> segments \<Rightarrow> u32 option \<Rightarrow> u32 option option" where
  "fifo_walk 0 s seg = Some None"
| "fifo_walk (Suc n) s None = Some None"
| "fifo_walk (Suc n) s (Some seg_id) = do {
     h \<leftarrow> header_of s seg_id;
     e \<leftarrow> can_evict h;
     if e then Some (Some seg_id) else do { nx \<leftarrow> next_seg h; fifo_walk n s nx } }"

fun random_fifo :: "segments \<Rightarrow> ttl_buckets \<Rightarrow> nat set \<Rightarrow> u32 list \<Rightarrow> u32 option option" where
  "random_fifo s t examined [] = Some None"
| "random_fifo s t examined (idx # is) = do {
     h \<leftarrow> header_of s (idx + 1);
     st \<leftarrow> header_state h;
     let i = get_bucket_index (hd_ttl h);
     if \<not> is_readable st \<or> i \<in> examined then random_fifo s t examined is
     else do {
       b \<leftarrow> bucket_at t i;
       found \<leftarrow> fifo_walk (unat (sg_cap s)) s (bucket_head b);
       (case found of Some seg_id \<Rightarrow> Some (Some seg_id) | None \<Rightarrow> random_fifo s t (insert i examined) is) } }"

function ranked_probe :: "segments \<Rightarrow> eviction \<Rightarrow> (u32 option \<times> eviction) option" where
  "ranked_probe s ev =
     (case ranked_least ev of
        (None, ev') \<Rightarrow> Some (None, ev')
      | (Some seg_id, ev') \<Rightarrow> do {
          e \<leftarrow> can_evict_at s seg_id;
          if e then Some (Some seg_id, ev') else ranked_probe s ev' })"
  by pat_completeness auto
termination
  by (relation "measure (\<lambda>(_, ev). length (ev_ranked ev) - ev_index ev)")
     (auto simp: ranked_least_def Let_def split: if_splits)

declare ranked_probe.simps [simp del]

definition least_valuable_seg :: "env \<Rightarrow> segcache \<Rightarrow> (u32 option \<times> segcache) option" where
  "least_valuable_seg e c = (let s = sc_segments c; ev = sc_evict c in
     if ev_policy ev = PolicyNone then Some (None, c)
     else if ev_policy ev = PolicyRandom \<or> ev_policy ev = RandomFifo then
       let (start, ev) = eviction_random ev; c = c\<lparr>sc_evict := ev\<rparr> in
       if sg_cap s = 0 then None
       else let order = probe_order (sg_cap s) (start mod sg_cap s) in
         map_option (\<lambda>r. (r, c))
           (if ev_policy ev = PolicyRandom then random_probe s order else random_fifo s (sc_ttl_buckets c) {} order)
     else do {
       (again, ev) \<leftarrow> should_rerank (e_since e) (e_now e) ev;
       ev \<leftarrow> (if again then rerank (e_after e) (sg_headers s) (ev_policy ev) ev else Some ev);
       (r, ev) \<leftarrow> ranked_probe s ev;
       Some (r, c\<lparr>sc_evict := ev\<rparr>) })"

section \<open>Dropping a segment whole\<close>

text \<open>
  The drain of a sealed member with the fix of the bucket head, from links read before it; the result is that of
  \<^verbatim>\<open>clear_segment\<close>, with the successor read.
\<close>

definition clear_and_fix_head ::
  "env \<Rightarrow> nat \<Rightarrow> u32 \<Rightarrow> segcache \<Rightarrow> ((unit + clear_outcome) \<times> u32 option \<times> segcache) option" where
  "clear_and_fix_head e i seg_id c = do {
     h \<leftarrow> header_of (sc_segments c) seg_id;
     n \<leftarrow> next_seg h;
     p \<leftarrow> prev_seg h;
     (r, sht) \<leftarrow> clear_segment (e_integrity e) (sc_sht c) seg_id;
     let c = put_sht sht c;
     (case r of
        Inl _ \<Rightarrow> Some (r, n, c)
      | Inr _ \<Rightarrow> do { c \<leftarrow> (if p = None then on_bucket i (set_head n) c else Some c); Some (r, n, c) }) }"

definition evict_ranked :: "env \<Rightarrow> segcache \<Rightarrow> ((segments_error + unit) \<times> segcache) option" where
  "evict_ranked e c = do {
     (lv, c) \<leftarrow> least_valuable_seg e c;
     (case lv of
        None \<Rightarrow> Some (Inl NoEvictableSegments, c)
      | Some seg_id \<Rightarrow> do {
          locked \<leftarrow> lock_sealed_in_bucket c seg_id;
          (case locked of
             None \<Rightarrow> Some (Inl EvictFailure, c)
           | Some i \<Rightarrow> do {
               (r, _, c) \<leftarrow> clear_and_fix_head e i seg_id c;
               Some (if r = Inr CFreed then Inr () else Inl EvictFailure, c) }) }) }"

end
