(* ===== verification/EvictPasses.thy ===== *)
theory EvictPasses
  imports SegEvict
begin

unbundle bit_operations_syntax

text \<open>
  The passes of the merge and the S3-FIFO policies, and \<^verbatim>\<open>evict\<close> and \<^verbatim>\<open>remove_at\<close>, which call them
  (\<^verbatim>\<open>segments/segments.rs\<close>), by one thread.
\<close>

section \<open>Merging\<close>

text \<open>The lengths of the runs of evictable segments; the bound of the walk is the fuel.\<close>

fun merge_evict_chain_len :: "nat \<Rightarrow> segments \<Rightarrow> u32 \<Rightarrow> nat option" where
  "merge_evict_chain_len 0 s seg_id = Some 0"
| "merge_evict_chain_len (Suc n) s seg_id =
     (if unat seg_id - 1 \<ge> length (sg_headers s) then Some 0
      else do {
        h \<leftarrow> header_of s seg_id;
        e \<leftarrow> can_evict h;
        if \<not> e then Some 0
        else do {
          nx \<leftarrow> next_seg h;
          (case nx of None \<Rightarrow> Some 1 | Some i \<Rightarrow> map_option Suc (merge_evict_chain_len n s i)) } })"

fun merge_compact_chain_len :: "nat \<Rightarrow> i32 \<Rightarrow> segments \<Rightarrow> u32 \<Rightarrow> nat option" where
  "merge_compact_chain_len 0 occupied s seg_id = Some 0"
| "merge_compact_chain_len (Suc n) occupied s seg_id =
     (if unat seg_id - 1 \<ge> length (sg_headers s) then Some 0
      else do {
        h \<leftarrow> header_of s seg_id;
        e \<leftarrow> can_evict h;
        if \<not> e then Some 0
        else if sint (occupied + hd_live_bytes h) > sint (sg_segment_size s) then Some 0
        else do {
          nx \<leftarrow> next_seg h;
          (case nx of None \<Rightarrow> Some 1
           | Some i \<Rightarrow> map_option Suc (merge_compact_chain_len n (occupied + hd_live_bytes h) s i)) } })"

definition stop_bytes :: "f64 policy \<Rightarrow> i32 \<Rightarrow> int" where
  "stop_bytes p segment_size = f64_to_i32 (f64_mul (stop_ratio p) (f64_of_int (sint segment_size)))"

text \<open>The claim of a candidate: the first one is claimed already.\<close>

definition claim_candidate :: "u32 \<Rightarrow> u32 \<Rightarrow> segments \<Rightarrow> (bool \<times> segments) option" where
  "claim_candidate start cand s =
     (if cand = start then Some (True, s)
      else do {
        ready \<leftarrow> can_evict_at s cand;
        if \<not> ready then Some (False, s) else claim_for_drain s cand })"

text \<open>The copy of a claimed candidate into the spare, and its drain.\<close>

definition copy_and_drain :: "bool \<Rightarrow> u32 \<Rightarrow> u32 \<Rightarrow> segments \<times> hashtable \<Rightarrow> (segments \<times> hashtable) option" where
  "copy_and_drain integrity cand spare_id sht = do {
     pair \<leftarrow> segment_pair integrity (fst sht) cand spare_id;
     (case pair of Inl _ \<Rightarrow> None
      | Inr _ \<Rightarrow> do {
          (r, sht) \<leftarrow> copy_into integrity cand spare_id sht;
          (outcome, sht) \<leftarrow> finalize_drained integrity sht cand;
          Some sht }) }"

function merge_loop ::
  "bool \<Rightarrow> u32 \<Rightarrow> u32 \<Rightarrow> f64 \<Rightarrow> int \<Rightarrow> nat \<Rightarrow> f64 \<Rightarrow> nat \<Rightarrow> u32 option \<Rightarrow> segments \<times> hashtable
   \<Rightarrow> (u32 option \<times> segments \<times> hashtable) option" where
  "merge_loop integrity spare_id start target stop mx cutoff merged cursor sht =
     (case cursor of
        None \<Rightarrow> Some (None, sht)
      | Some cand \<Rightarrow>
          if merged > mx then Some (cursor, sht)
          else do {
            spare \<leftarrow> header_of (fst sht) spare_id;
            if sint (hd_live_bytes spare) \<ge> stop then Some (cursor, sht)
            else do {
              (won, s) \<leftarrow> claim_candidate start cand (fst sht);
              if \<not> won then Some (cursor, s, snd sht)
              else do {
                h \<leftarrow> header_of s cand;
                nx \<leftarrow> next_seg h;
                v \<leftarrow> segment_view integrity s cand;
                (cutoff, sht) \<leftarrow> (case v of Inl _ \<Rightarrow> None | Inr _ \<Rightarrow> prune integrity cand cutoff target (s, snd sht));
                sht \<leftarrow> copy_and_drain integrity cand spare_id sht;
                merge_loop integrity spare_id start target stop mx cutoff (merged + 1) nx sht } } })"
  by pat_completeness auto
termination by (relation "measure (\<lambda>(_, _, _, _, _, mx, _, merged, _, _). Suc mx - merged)") auto

declare merge_loop.simps [simp del]

function compact_loop ::
  "bool \<Rightarrow> u32 \<Rightarrow> u32 \<Rightarrow> int \<Rightarrow> nat \<Rightarrow> nat \<Rightarrow> u32 option \<Rightarrow> segments \<times> hashtable
   \<Rightarrow> (u32 option \<times> segments \<times> hashtable) option" where
  "compact_loop integrity spare_id start stop mx merged cursor sht =
     (case cursor of
        None \<Rightarrow> Some (None, sht)
      | Some cand \<Rightarrow>
          if merged > mx then Some (cursor, sht)
          else do {
            ready \<leftarrow> (if cand = start then Some True else can_evict_at (fst sht) cand);
            spare \<leftarrow> header_of (fst sht) spare_id;
            ch \<leftarrow> header_of (fst sht) cand;
            if \<not> ready \<or> sint (hd_live_bytes spare) \<ge> stop
               \<or> sint (hd_live_bytes spare + hd_live_bytes ch) > sint (sg_segment_size (fst sht))
            then Some (cursor, sht)
            else do {
              (won, s) \<leftarrow> claim_candidate start cand (fst sht);
              if \<not> won then Some (cursor, s, snd sht)
              else do {
                h \<leftarrow> header_of s cand;
                nx \<leftarrow> next_seg h;
                sht \<leftarrow> copy_and_drain integrity cand spare_id (s, snd sht);
                compact_loop integrity spare_id start stop mx (merged + 1) nx sht } } })"
  by pat_completeness auto
termination by (relation "measure (\<lambda>(_, _, _, _, mx, merged, _, _). Suc mx - merged)") auto

declare compact_loop.simps [simp del]

text \<open>
  The claim of the first candidate and the link of the spare in its place; \<^const>\<open>False\<close> when the candidate is not to be
  had, and then the spare is back in its queue.
\<close>

definition link_spare :: "env \<Rightarrow> nat \<Rightarrow> u32 \<Rightarrow> u32 \<Rightarrow> segcache \<Rightarrow> (bool \<times> segcache) option" where
  "link_spare e i start spare_id c = do {
     b \<leftarrow> bucket_at (sc_ttl_buckets c) i;
     let s = sc_segments c;
     member \<leftarrow> is_sealed_member s start b;
     ready \<leftarrow> (if member then can_evict_at s start else Some False);
     (won, s) \<leftarrow> (if ready then claim_for_drain s start else Some (False, s));
     if \<not> won then do { s \<leftarrow> release_unused s spare_id; Some (False, put_segments s c) }
     else do {
       s \<leftarrow> configure_spare s (e_now e) spare_id start;
       s \<leftarrow> inherit_created s spare_id start;
       (s, b) \<leftarrow> link_dest_before spare_id start (s, b);
       Some (True, c\<lparr>sc_segments := s, sc_ttl_buckets := put_bucket (sc_ttl_buckets c) i b\<rparr>) } }"

definition merge_evict_fallback_drop :: "env \<Rightarrow> nat \<Rightarrow> u32 \<Rightarrow> segcache \<Rightarrow> ((segments_error + u32 option) \<times> segcache) option" where
  "merge_evict_fallback_drop e i start c = do {
     b \<leftarrow> bucket_at (sc_ttl_buckets c) i;
     member \<leftarrow> is_sealed_member (sc_segments c) start b;
     if \<not> member then Some (Inl NoEvictableSegments, c)
     else do {
       (r, n, c) \<leftarrow> clear_and_fix_head e i start c;
       Some (case r of Inl _ \<Rightarrow> Inl NoEvictableSegments | Inr _ \<Rightarrow> Inr n, c) } }"

definition merge_evict :: "env \<Rightarrow> nat \<Rightarrow> u32 \<Rightarrow> segcache \<Rightarrow> ((segments_error + u32 option) \<times> segcache) option" where
  "merge_evict e i start c = (let p = ev_policy (sc_evict c) in do {
     chain_len \<leftarrow> merge_evict_chain_len (max_merge p) (sc_segments c) start;
     if chain_len < 3 then Some (Inl NoEvictableSegments, c)
     else do {
       (spare, s) \<leftarrow> reserve_spare (e_integrity e) (e_now e) (sc_segments c);
       let c = put_segments s c;
       (case spare of
          None \<Rightarrow> merge_evict_fallback_drop e i start c
        | Some spare_id \<Rightarrow> do {
            (linked, c) \<leftarrow> link_spare e i start spare_id c;
            if \<not> linked then Some (Inl NoEvictableSegments, c)
            else do {
              let target = (if chain_len < n_merge p then f64_div (Fin 1) (f64_of_int (int chain_len)) else target_ratio p);
              (n, sht) \<leftarrow> merge_loop (e_integrity e) spare_id start target (stop_bytes p (sg_segment_size (sc_segments c)))
                (max_merge p) (Fin 1) 0 (Some start) (sc_sht c);
              s \<leftarrow> publish_dest_sealed (fst sht) spare_id;
              Some (Inr n, put_sht (s, snd sht) c) } }) } })"

definition merge_compact :: "env \<Rightarrow> nat \<Rightarrow> u32 \<Rightarrow> segcache \<Rightarrow> ((segments_error + u32 option) \<times> segcache) option" where
  "merge_compact e i start c = (let p = ev_policy (sc_evict c) in do {
     chain_len \<leftarrow> merge_compact_chain_len (max_merge p) 0 (sc_segments c) start;
     if chain_len < 2 then Some (Inl NoEvictableSegments, c)
     else do {
       h \<leftarrow> header_of (sc_segments c) start;
       n \<leftarrow> next_seg h;
       if n = None then Some (Inl NoEvictableSegments, c)
       else do {
         (spare, s) \<leftarrow> reserve_spare (e_integrity e) (e_now e) (sc_segments c);
         let c = put_segments s c;
         (case spare of
            None \<Rightarrow> Some (Inr None, c)
          | Some spare_id \<Rightarrow> do {
              (linked, c) \<leftarrow> link_spare e i start spare_id c;
              if \<not> linked then Some (Inl NoEvictableSegments, c)
              else do {
                (n, sht) \<leftarrow> compact_loop (e_integrity e) spare_id start (stop_bytes p (sg_segment_size (sc_segments c)))
                  (max_merge p) 0 (Some start) (sc_sht c);
                s \<leftarrow> publish_dest_sealed (fst sht) spare_id;
                Some (Inr n, put_sht (s, snd sht) c) } }) } } })"

text \<open>The passes over the buckets listed: the first one whose merge succeeds.\<close>

fun merge_buckets :: "env \<Rightarrow> nat list \<Rightarrow> segcache \<Rightarrow> ((segments_error + unit) \<times> segcache) option" where
  "merge_buckets e [] c = Some (Inl NoEvictableSegments, c)"
| "merge_buckets e (i # is) c = do {
     b \<leftarrow> bucket_at (sc_ttl_buckets c) i;
     (case bucket_head b of
        None \<Rightarrow> merge_buckets e is c
      | Some first_seg \<Rightarrow> do {
          (r, c) \<leftarrow> merge_evict e i (case next_to_merge b of Some n \<Rightarrow> n | None \<Rightarrow> first_seg) c;
          (case r of
             Inr n \<Rightarrow> do { c \<leftarrow> on_bucket i (set_next_to_merge n) c; Some (Inr (), c) }
           | Inl _ \<Rightarrow> do { c \<leftarrow> on_bucket i (set_next_to_merge None) c; merge_buckets e is c }) }) }"

section \<open>S3-FIFO\<close>

text \<open>The oldest evictable segment of a pool: the chains are walked until their end.\<close>

definition better_candidate :: "u32 \<Rightarrow> seg_header \<Rightarrow> bool \<Rightarrow> (u32 \<times> u32) option \<Rightarrow> (u32 \<times> u32) option" where
  "better_candidate seg_id h ev best = (let age = max (hd_create_at h) (hd_merge_at h) in
     if ev \<and> (case best of None \<Rightarrow> True | Some (_, a) \<Rightarrow> age < a) then Some (seg_id, age) else best)"

definition oldest_step ::
  "segments \<Rightarrow> segment_pool \<Rightarrow> (u32 \<times> u32) option \<Rightarrow> u32 \<Rightarrow> ((u32 \<times> u32) option \<times> u32 option) option" where
  "oldest_step s pool best seg_id = do {
     h \<leftarrow> header_of s seg_id;
     ev \<leftarrow> (if header_pool h = pool then can_evict h else Some False);
     n \<leftarrow> next_seg h;
     Some (better_candidate seg_id h ev best, n) }"

partial_function (option) oldest_in_chain ::
  "segments \<Rightarrow> segment_pool \<Rightarrow> u32 option \<Rightarrow> (u32 \<times> u32) option \<Rightarrow> (u32 \<times> u32) option option" where
  [code]: "oldest_in_chain s pool cursor best =
     (case cursor of
        None \<Rightarrow> Some best
      | Some seg_id \<Rightarrow> do {
          r \<leftarrow> oldest_step s pool best seg_id;
          oldest_in_chain s pool (snd r) (fst r) })"

fun oldest_in_buckets ::
  "segments \<Rightarrow> segment_pool \<Rightarrow> (u32 \<times> u32) option \<Rightarrow> ttl_bucket list \<Rightarrow> (u32 \<times> u32) option option" where
  "oldest_in_buckets s pool best [] = Some best"
| "oldest_in_buckets s pool best (b # bs) = do {
     best \<leftarrow> oldest_in_chain s pool (bucket_head b) best;
     oldest_in_buckets s pool best bs }"

definition find_oldest_seg_in_pool :: "segcache \<Rightarrow> segment_pool \<Rightarrow> u32 option option" where
  "find_oldest_seg_in_pool c pool =
     map_option (map_option fst) (oldest_in_buckets (sc_segments c) pool None (tt_buckets (sc_ttl_buckets c)))"

text \<open>The promotion of a claimed source into a fresh segment linked in its place, if there is one.\<close>

definition s3fifo_promote :: "env \<Rightarrow> nat \<Rightarrow> u32 \<Rightarrow> relink_freq \<Rightarrow> segcache \<Rightarrow> segcache option" where
  "s3fifo_promote e i seg_id relink c = do {
     h \<leftarrow> header_of (sc_segments c) seg_id;
     (target, s) \<leftarrow> reserve_free (e_integrity e) (e_now e) (sc_segments c);
     (case target of
        None \<Rightarrow> Some (put_segments s c)
      | Some tid \<Rightarrow> do {
          s \<leftarrow> update_header s tid (Some \<circ> reset_pool);
          s \<leftarrow> update_header s tid (Some \<circ> set_ttl (hd_ttl h));
          s \<leftarrow> inherit_created s tid seg_id;
          b \<leftarrow> bucket_at (sc_ttl_buckets c) i;
          (s, b) \<leftarrow> link_dest_before tid seg_id (s, b);
          let c = c\<lparr>sc_ttl_buckets := put_bucket (sc_ttl_buckets c) i b\<rparr>;
          sht \<leftarrow> s3fifo_promote_from (e_integrity e) seg_id tid relink (s, sc_hashtable c);
          s \<leftarrow> publish_dest_sealed (fst sht) tid;
          Some (put_sht (s, snd sht) c) }) }"

text \<open>The drain of the claimed source, with the fix of the bucket head.\<close>

definition s3fifo_finalize :: "env \<Rightarrow> nat \<Rightarrow> u32 \<Rightarrow> segcache \<Rightarrow> ((segments_error + unit) \<times> segcache) option" where
  "s3fifo_finalize e i seg_id c = do {
     h \<leftarrow> header_of (sc_segments c) seg_id;
     n \<leftarrow> next_seg h;
     p \<leftarrow> prev_seg h;
     (outcome, sht) \<leftarrow> finalize_drained (e_integrity e) (sc_sht c) seg_id;
     let c = put_sht sht c;
     c \<leftarrow> (if p = None then on_bucket i (set_head n) c else Some c);
     Some (case outcome of CFreed \<Rightarrow> Inr () | CDeferred \<Rightarrow> Inl EvictFailure, c) }"

definition s3fifo_evict_admission :: "env \<Rightarrow> u32 \<Rightarrow> segcache \<Rightarrow> ((segments_error + unit) \<times> segcache) option" where
  "s3fifo_evict_admission e seg_id c = do {
     locked \<leftarrow> lock_sealed_in_bucket c seg_id;
     (case locked of
        None \<Rightarrow> Some (Inl EvictFailure, c)
      | Some i \<Rightarrow> do {
          (won, s) \<leftarrow> claim_for_drain (sc_segments c) seg_id;
          let c = put_segments s c;
          if \<not> won then Some (Inl EvictFailure, c)
          else do {
            c \<leftarrow> s3fifo_promote e i seg_id Preserve c;
            ev \<leftarrow> s3fifo_ghost_remaining (e_integrity e) seg_id (sc_sht c) (sc_evict c);
            s3fifo_finalize e i seg_id (c\<lparr>sc_evict := ev\<rparr>) } }) }"

definition s3fifo_evict_main :: "env \<Rightarrow> u32 \<Rightarrow> segcache \<Rightarrow> ((segments_error + unit) \<times> segcache) option" where
  "s3fifo_evict_main e seg_id c = do {
     locked \<leftarrow> lock_sealed_in_bucket c seg_id;
     (case locked of
        None \<Rightarrow> Some (Inl EvictFailure, c)
      | Some i \<Rightarrow> do {
          (won, s) \<leftarrow> claim_for_drain (sc_segments c) seg_id;
          let c = put_segments s c;
          if \<not> won then Some (Inl EvictFailure, c)
          else do {
            c \<leftarrow> s3fifo_promote e i seg_id Decrement c;
            s3fifo_finalize e i seg_id c } }) }"

definition s3fifo_evict :: "env \<Rightarrow> segcache \<Rightarrow> ((segments_error + unit) \<times> segcache) option" where
  "s3fifo_evict e c = do {
     admission \<leftarrow> find_oldest_seg_in_pool c Admission;
     (case admission of
        Some seg_id \<Rightarrow> s3fifo_evict_admission e seg_id c
      | None \<Rightarrow> do {
          main \<leftarrow> find_oldest_seg_in_pool c Main;
          (case main of
             Some seg_id \<Rightarrow> s3fifo_evict_main e seg_id c
           | None \<Rightarrow> Some (Inl NoEvictableSegments, c)) }) }"

section \<open>Evicting and removing\<close>

fun evict_by :: "env \<Rightarrow> f64 policy \<Rightarrow> segcache \<Rightarrow> ((segments_error + unit) \<times> segcache) option" where
  "evict_by e (Merge mx m k) c =
     (let (x, ev) = eviction_random (sc_evict c); c = c\<lparr>sc_evict := ev\<rparr>; cap = sg_cap (sc_segments c) in
      if cap = 0 then None
      else do {
        h \<leftarrow> header_of (sc_segments c) (x mod cap + 1);
        let buckets = length (tt_buckets (sc_ttl_buckets c));
        merge_buckets e (map (\<lambda>i. (get_bucket_index (hd_ttl h) + i) mod buckets) [0..<buckets + 1]) c })"
| "evict_by e (S3Fifo r) c = s3fifo_evict e c"
| "evict_by e PolicyNone c = Some (Inl NoEvictableSegments, c)"
| "evict_by e p c = evict_ranked e c"

definition evict :: "env \<Rightarrow> segcache \<Rightarrow> ((segments_error + unit) \<times> segcache) option" where
  "evict e c = do {
     (n, s, ht, t) \<leftarrow> ttl_expire (e_integrity e) (e_after e) (e_now e) (sc_segments c, sc_hashtable c, sc_ttl_buckets c);
     let c = c\<lparr>sc_segments := s, sc_hashtable := ht, sc_ttl_buckets := t\<rparr>;
     if n > 0 then Some (Inr (), c) else evict_by e (ev_policy (sc_evict c)) c }"

text \<open>The compaction that a removal may start under the merge policy.\<close>

definition bytes_ratio :: "segments \<Rightarrow> seg_header \<Rightarrow> f64" where
  "bytes_ratio s h = f64_div (f64_of_int (sint (hd_live_bytes h))) (f64_of_int (sint (sg_segment_size s)))"

fun compact_after_remove :: "env \<Rightarrow> u32 \<Rightarrow> f64 policy \<Rightarrow> segcache \<Rightarrow> segcache option" where
  "compact_after_remove e seg_id (Merge mx m k) c =
     (let target = compact_ratio (Merge mx m k); s = sc_segments c in do {
        h \<leftarrow> header_of s seg_id;
        if f64_less target (bytes_ratio s h) then Some c
        else do {
          n \<leftarrow> next_seg h;
          (case n of
             None \<Rightarrow> Some c
           | Some next_id \<Rightarrow> do {
               nh \<leftarrow> header_of s next_id;
               ready \<leftarrow> can_evict nh;
               if \<not> ready \<or> \<not> f64_le (bytes_ratio s nh) target then Some c
               else do {
                 let i = get_bucket_index (hd_ttl h);
                 (r, c) \<leftarrow> merge_compact e i seg_id c;
                 on_bucket i (set_next_to_merge None) c } }) } })"
| "compact_after_remove e seg_id p c = Some c"

text \<open>\<^verbatim>\<open>remove_at\<close>, with the remover pin the caller took on segment \<open>pin\<close>.\<close>

definition remove_at :: "env \<Rightarrow> location \<Rightarrow> u32 \<Rightarrow> segcache \<Rightarrow> ((segments_error + unit) \<times> segcache) option" where
  "remove_at e loc pin c = do {
     let s = sc_segments c;
     r \<leftarrow> resolve s loc;
     (case r of
        None \<Rightarrow> do { s \<leftarrow> drop_remover s pin; Some (Inr (), put_segments s c) }
      | Some (seg_id, offset) \<Rightarrow> do {
          v \<leftarrow> segment_view (e_integrity e) s seg_id;
          (case v of
             Inl err \<Rightarrow> do { s \<leftarrow> drop_remover s pin; Some (Inl err, put_segments s c) }
           | Inr _ \<Rightarrow> do {
               s \<leftarrow> remove_item_at (e_integrity e) s seg_id offset;
               s \<leftarrow> drop_remover s pin;
               let c = put_segments s c;
               h \<leftarrow> header_of s seg_id;
               ready \<leftarrow> (if hd_live_items h = 0 then can_evict h else Some False);
               if ready then do {
                 locked \<leftarrow> lock_sealed_in_bucket c seg_id;
                 (case locked of
                    None \<Rightarrow> Some (Inr (), c)
                  | Some i \<Rightarrow> do { (_, _, c) \<leftarrow> clear_and_fix_head e i seg_id c; Some (Inr (), c) }) }
               else do { c \<leftarrow> compact_after_remove e seg_id (ev_policy (sc_evict c)) c; Some (Inr (), c) } }) }) }"

end
