(* ===== verification/Segcache.thy ===== *)
theory Segcache
  imports EvictPasses CasToken
begin

unbundle bit_operations_syntax

text \<open>
  The interface of the cache (\<^verbatim>\<open>segcache.rs\<close>, \<^verbatim>\<open>builder.rs\<close>, \<^verbatim>\<open>error.rs\<close>, \<^verbatim>\<open>item/mod.rs\<close>), by one thread. Each operation that
  retries is a loop over a step, and a loop that would not end is \<^const>\<open>None\<close>, like a panic; a snooze changes nothing.
  An item handed out holds its reader pin until it is dropped. Durations are whole seconds.
\<close>

section \<open>Types\<close>

datatype segcache_error =
    HashTableInsertEx | EvictionEx | SegItemOversized nat | SegNoFreeSegments | Exists | NotFound | DataCorrupted | NotNumeric

record item =
  it_raw :: nat
  it_cas :: u64
  it_seg :: u32

definition RESERVE_RETRIES :: nat where "RESERVE_RETRIES = 3"
definition REVALIDATE_RETRIES :: nat where "REVALIDATE_RETRIES = 16"

section \<open>Building\<close>

record builder =
  bd_hash_power :: nat
  bd_heap_size :: nat
  bd_segment_size :: i32
  bd_policy :: "f64 policy"
  bd_seed :: "u64 option"

definition builder_default :: builder where
  "builder_default = \<lparr>bd_hash_power = 16, bd_heap_size = 64 * 1024 * 1024, bd_segment_size = 1024 * 1024,
     bd_policy = PolicyRandom, bd_seed = None\<rparr>"

definition builder_hash_power :: "nat \<Rightarrow> builder \<Rightarrow> builder option" where
  "builder_hash_power pwr b = (if pwr \<ge> 7 then Some (b\<lparr>bd_hash_power := pwr\<rparr>) else None)"

text \<open>
  \<^verbatim>\<open>Builder::build\<close>: the constructor of the keyed hash, the rounding of the admission ratio and the clock are arguments.
\<close>

definition segcache_build ::
  "bool \<Rightarrow> u32 \<Rightarrow> u32 \<Rightarrow> (u64 \<Rightarrow> u64 \<Rightarrow> u64 \<Rightarrow> u64 \<Rightarrow> u8 list \<Rightarrow> u64) \<Rightarrow> (f64 \<Rightarrow> nat \<Rightarrow> u32) \<Rightarrow> builder
   \<Rightarrow> (segments_error + segcache) option" where
  "segcache_build integrity default_instant now with_seeds admission b = do {
     ht \<leftarrow> hashtable_new with_seeds (bd_hash_power b);
     let ht = (case bd_seed b of Some seed \<Rightarrow> set_freq_seed seed ht | None \<Rightarrow> ht);
     (case segments_build integrity default_instant admission (bd_heap_size b) (bd_segment_size b) (bd_policy b) of
        Inl err \<Rightarrow> Some (Inl err)
      | Inr s \<Rightarrow> Some (Inr \<lparr>sc_hashtable = ht, sc_segments = s,
          sc_evict = eviction_new now (unat (sg_cap s)) (bd_policy b) (bd_seed b), sc_ttl_buckets = ttl_buckets_new now\<rparr>)) }"

section \<open>Pins and keys\<close>

text \<open>
  The verifier of the store: the pin of a rejected candidate is dropped again, which leaves its header as it was, so the
  verifier is a function of the store. The key of an item outside the item memory is never asked for.
\<close>

definition acquire_for :: "bool \<Rightarrow> segments \<Rightarrow> location \<Rightarrow> (nat \<times> u32) option" where
  "acquire_for integrity s loc =
     (case acquire_item_at integrity s loc of
        Some (Some item, _) \<Rightarrow> Some (item, fst (unpack_location loc))
      | _ \<Rightarrow> None)"

definition key_of_item :: "bool \<Rightarrow> segments \<Rightarrow> nat \<Rightarrow> u8 list" where
  "key_of_item integrity s item = (case raw_key integrity (sg_data s) item of Some k \<Rightarrow> k | None \<Rightarrow> [])"

definition sc_verifier :: "env \<Rightarrow> segments \<Rightarrow> (nat \<times> u32) verifier" where
  "sc_verifier e s = segments_verify (unat (sg_cap s)) (acquire_for (e_integrity e) s) (key_of_item (e_integrity e) s)"

definition coarse_ttl :: "nat \<Rightarrow> u32" where
  "coarse_ttl secs = of_nat (min (2 ^ 32 - 1) secs)"

definition remaining_ttl :: "env \<Rightarrow> segments \<Rightarrow> u32 \<Rightarrow> (segcache_error + u32) option" where
  "remaining_ttl e s seg_id = do {
     h \<leftarrow> header_of s seg_id;
     Some (if hd_ttl h = 0 then Inr 0
       else let expires_at = e_after e (hd_create_at h) (hd_ttl h) in
         if expires_at \<le> e_now e then Inl NotFound else Inr (e_since e expires_at (e_now e))) }"

definition token_for :: "env \<Rightarrow> segments \<Rightarrow> nat \<Rightarrow> location \<Rightarrow> u16 \<Rightarrow> u64 option" where
  "token_for e s item loc generation = do {
     let base = token_raw (token_new loc generation);
     version \<leftarrow> numeric_version (e_integrity e) (sg_data s) item;
     Some (case version of Some v \<Rightarrow> mix_version base v | None \<Rightarrow> base) }"

text \<open>The pin of the location a lookup found, which the lookup took.\<close>

definition take_pin :: "env \<Rightarrow> location \<Rightarrow> segcache \<Rightarrow> (nat option \<times> segcache) option" where
  "take_pin e loc c = map_option (\<lambda>(r, s). (r, put_segments s c)) (acquire_item_at (e_integrity e) (sc_segments c) loc)"

definition drop_pin :: "env \<Rightarrow> u32 \<Rightarrow> segcache \<Rightarrow> segcache option" where
  "drop_pin e seg_id c = map_option (\<lambda>s. put_segments s c) (drop_guard (e_integrity e) (sc_segments c) seg_id)"

definition put_hashtable :: "hashtable \<Rightarrow> segcache \<Rightarrow> segcache" where
  "put_hashtable ht c = c\<lparr>sc_hashtable := ht\<rparr>"

section \<open>Reading\<close>

definition item_from_pin :: "env \<Rightarrow> location \<Rightarrow> nat \<Rightarrow> segcache \<Rightarrow> (item option \<times> segcache) option" where
  "item_from_pin e loc raw c = (let seg_id = fst (unpack_location loc); s = sc_segments c in
     if seg_id = 0 then do { c \<leftarrow> drop_pin e seg_id c; Some (None, c) }
     else do {
       r \<leftarrow> remaining_ttl e s seg_id;
       (case r of
          Inl _ \<Rightarrow> do { c \<leftarrow> drop_pin e seg_id c; Some (None, c) }
        | Inr _ \<Rightarrow> do {
            raw_check_magic (e_integrity e) (sg_data s) raw;
            h \<leftarrow> header_of s seg_id;
            token \<leftarrow> token_for e s raw loc (hd_generation h);
            Some (Some \<lparr>it_raw = raw, it_cas = token, it_seg = seg_id\<rparr>, c) }) })"

text \<open>Where a \<^verbatim>\<open>get\<close> stands: at a lookup from scratch, or holding the pin of a location to be revalidated.\<close>

datatype get_point = Resolve | Revalidate location nat

type_synonym get_state = "get_point \<times> nat \<times> segcache"
type_synonym get_result = "(item option \<times> segcache) + get_state"

text \<open>\<^verbatim>\<open>triage_unknown_location\<close>: a location of a dead incarnation is charged against the budget.\<close>

definition triage_unknown_location :: "location \<Rightarrow> nat \<Rightarrow> segcache \<Rightarrow> get_result option" where
  "triage_unknown_location loc attempts c = do {
     r \<leftarrow> resolve (sc_segments c) loc;
     let attempts = (if r = None then attempts + 1 else attempts);
     Some (if r = None \<and> attempts \<ge> REVALIDATE_RETRIES then Inl (None, c) else Inr (Resolve, attempts, c)) }"

definition resolve_step :: "env \<Rightarrow> u8 list \<Rightarrow> bool \<Rightarrow> nat \<Rightarrow> segcache \<Rightarrow> get_result option" where
  "resolve_step e key update_freq attempts c =
     (let verify = sc_verifier e (sc_segments c);
          (r, ht) = (if update_freq then ht_lookup key verify (sc_hashtable c)
             else (lookup_no_freq_update key verify (sc_hashtable c), sc_hashtable c));
          c = put_hashtable ht c in
      case r of
        Absent \<Rightarrow> Some (Inl (None, c))
      | LUnknown loc \<Rightarrow> triage_unknown_location loc attempts c
      | Found hit \<Rightarrow> do {
          (_, c) \<leftarrow> take_pin e (hit_location hit) c;
          if slot_publishes (hit_slot hit) (hit_location hit) (sc_hashtable c)
          then map_option Inl (item_from_pin e (hit_location hit) (fst (hit_pin hit)) c)
          else Some (Inr (Revalidate (hit_location hit) (fst (hit_pin hit)), attempts, c)) })"

definition revalidate_step :: "env \<Rightarrow> u8 list \<Rightarrow> location \<Rightarrow> nat \<Rightarrow> nat \<Rightarrow> segcache \<Rightarrow> get_result option" where
  "revalidate_step e key loc raw attempts c =
     (let r = lookup_no_freq_update key (sc_verifier e (sc_segments c)) (sc_hashtable c);
          current = (case r of Found other \<Rightarrow> Some (hit_location other) | _ \<Rightarrow> None) in
      case r of
        LUnknown unknown \<Rightarrow> do { c \<leftarrow> drop_pin e (fst (unpack_location loc)) c; triage_unknown_location unknown attempts c }
      | _ \<Rightarrow>
          if current = Some loc then map_option Inl (item_from_pin e loc raw c)
          else do {
            c \<leftarrow> drop_pin e (fst (unpack_location loc)) c;
            let attempts = attempts + 1;
            if attempts \<ge> REVALIDATE_RETRIES then Some (Inl (None, c))
            else (case current of
                None \<Rightarrow> Some (Inl (None, c))
              | Some loc \<Rightarrow> do {
                  (pin, c) \<leftarrow> take_pin e loc c;
                  (case pin of
                     None \<Rightarrow> triage_unknown_location loc attempts c
                   | Some raw \<Rightarrow> Some (Inr (Revalidate loc raw, attempts, c))) }) })"

fun get_step :: "env \<Rightarrow> u8 list \<Rightarrow> bool \<Rightarrow> get_state \<Rightarrow> get_result option" where
  "get_step e key update_freq (Resolve, attempts, c) = resolve_step e key update_freq attempts c"
| "get_step e key update_freq (Revalidate loc raw, attempts, c) = revalidate_step e key loc raw attempts c"

definition get_pinned :: "env \<Rightarrow> u8 list \<Rightarrow> bool \<Rightarrow> segcache \<Rightarrow> (item option \<times> segcache) option" where
  "get_pinned e key update_freq c = iterate (get_step e key update_freq) (Resolve, 0, c)"

definition segcache_get :: "env \<Rightarrow> u8 list \<Rightarrow> segcache \<Rightarrow> (item option \<times> segcache) option" where
  "segcache_get e key c = get_pinned e key True c"

definition get_no_freq_incr :: "env \<Rightarrow> u8 list \<Rightarrow> segcache \<Rightarrow> (item option \<times> segcache) option" where
  "get_no_freq_incr e key c = get_pinned e key False c"

text \<open>The accessors of an item, and its drop.\<close>

definition sc_item_key :: "env \<Rightarrow> item \<Rightarrow> segcache \<Rightarrow> u8 list option" where
  "sc_item_key e it c = raw_key (e_integrity e) (sg_data (sc_segments c)) (it_raw it)"

definition sc_item_value :: "env \<Rightarrow> item \<Rightarrow> segcache \<Rightarrow> cache_value option" where
  "sc_item_value e it c = raw_value (e_integrity e) (sg_data (sc_segments c)) (it_raw it)"

definition sc_item_optional :: "env \<Rightarrow> item \<Rightarrow> segcache \<Rightarrow> u8 list option option" where
  "sc_item_optional e it c = raw_optional (e_integrity e) (sg_data (sc_segments c)) (it_raw it)"

definition item_drop :: "env \<Rightarrow> item \<Rightarrow> segcache \<Rightarrow> segcache option" where
  "item_drop e it c = drop_pin e (it_seg it) c"

section \<open>Reserving\<close>

definition reserved_location :: "reserved_item \<Rightarrow> location" where
  "reserved_location r = pack_location (ri_seg r) (ri_generation r) (of_nat (ri_offset r))"

definition reserved_addr :: "segments \<Rightarrow> reserved_item \<Rightarrow> nat" where
  "reserved_addr s r = byte_offset s (ri_seg r) (ri_offset r)"

definition drop_reserved :: "reserved_item \<Rightarrow> segcache \<Rightarrow> segcache option" where
  "drop_reserved r c = map_option (\<lambda>s. put_segments s c) (drop_writer (sc_segments c) (ri_seg r))"

text \<open>The pool an S3-FIFO item goes to, and the eviction that makes room in it.\<close>

fun target_pool_for :: "env \<Rightarrow> u8 list \<Rightarrow> f64 policy \<Rightarrow> segcache \<Rightarrow> (segment_pool \<times> segcache) option" where
  "target_pool_for e key (S3Fifo r) c =
     (let hash = ht_hash (sc_hashtable c) key; ev = sc_evict c;
          (pool, c) = (if ghost_contains (ev_ghost ev) hash
             then (Main, c\<lparr>sc_evict := ev\<lparr>ev_ghost := ghost_remove (ev_ghost ev) hash\<rparr>\<rparr>) else (Admission, c)) in
      if \<not> pool_has_room (sc_segments c) pool then do { (_, c) \<leftarrow> evict e c; Some (pool, c) } else Some (pool, c))"
| "target_pool_for e key p c = Some (Main, c)"

definition label_pool :: "segment_pool \<Rightarrow> u32 \<Rightarrow> segments \<Rightarrow> segments option" where
  "label_pool pool seg_id s =
     (if pool = Admission then do {
        (changed, s) \<leftarrow> on_header s seg_id (Some \<circ> cas_pool Main Admission);
        Some (if changed then incr_pool s Admission else s) }
      else Some s)"

text \<open>One round of the reservation: the result, or the retries left.\<close>

definition reserve_step ::
  "env \<Rightarrow> u8 list \<Rightarrow> cache_value \<Rightarrow> u8 list \<Rightarrow> u32 \<Rightarrow> nat \<Rightarrow> segment_pool \<Rightarrow> nat \<times> segcache
   \<Rightarrow> (((segcache_error + reserved_item) \<times> segcache) + (nat \<times> segcache)) option" where
  "reserve_step e key v opt ttl sz pool rc = (let (retries, c) = rc; i = get_bucket_index ttl in do {
     b \<leftarrow> bucket_at (sc_ttl_buckets c) i;
     (r, s, b) \<leftarrow> bucket_reserve (e_integrity e) (e_now e) sz (sc_segments c, b);
     let c = c\<lparr>sc_segments := s, sc_ttl_buckets := put_bucket (sc_ttl_buckets c) i b\<rparr>;
     (case r of
        Inr ri \<Rightarrow> do {
          m \<leftarrow> raw_define (e_integrity e) (e_crc e) (sg_data s) (reserved_addr s ri) key v opt;
          s \<leftarrow> label_pool pool (ri_seg ri) (s\<lparr>sg_data := m\<rparr>);
          Some (Inl (Inr ri, put_segments s c)) }
      | Inl (ItemOversized n) \<Rightarrow> Some (Inl (Inl (SegItemOversized n), c))
      | Inl NoFreeSegments \<Rightarrow> do {
          let freed_before = sg_freed s;
          (_, c) \<leftarrow> evict e c;
          Some (if sg_freed (sc_segments c) \<noteq> freed_before then Inr (retries, c)
            else if retries - 1 = 0 then Inl (Inl SegNoFreeSegments, c) else Inr (retries - 1, c)) }) })"

definition reserve_and_define ::
  "env \<Rightarrow> u8 list \<Rightarrow> cache_value \<Rightarrow> u8 list \<Rightarrow> u32 \<Rightarrow> segcache \<Rightarrow> ((segcache_error + reserved_item) \<times> segcache) option" where
  "reserve_and_define e key v opt ttl c = do {
     let sz = item_size (e_integrity e) (length key) v (length opt);
     (pool, c) \<leftarrow> target_pool_for e key (ev_policy (sc_evict c)) c;
     iterate (reserve_step e key v opt ttl sz pool) (RESERVE_RETRIES, c) }"

text \<open>A removal under a remover pin on a segment, if the pin is to be had.\<close>

definition remove_pinned :: "env \<Rightarrow> location \<Rightarrow> segcache \<Rightarrow> segcache option" where
  "remove_pinned e loc c = (let seg_id = fst (unpack_location loc) in
     if seg_id = 0 then Some c
     else do {
       (pinned, s) \<leftarrow> try_pin_remover_of (sc_segments c) seg_id;
       let c = put_segments s c;
       if pinned then map_option snd (remove_at e loc seg_id c) else Some c })"

definition rollback_reservation :: "env \<Rightarrow> reserved_item \<Rightarrow> location \<Rightarrow> segcache \<Rightarrow> segcache option" where
  "rollback_reservation e r loc c = do {
     c \<leftarrow> drop_reserved r c;
     remove_pinned e loc c }"

text \<open>\<^verbatim>\<open>wait_while_draining_or_filling\<close>: with nobody else to end a drain or a fill the wait would not end.\<close>

definition wait_while_draining_or_filling :: "location \<Rightarrow> segcache \<Rightarrow> unit option" where
  "wait_while_draining_or_filling loc c = do {
     r \<leftarrow> resolve (sc_segments c) loc;
     (case r of
        None \<Rightarrow> Some ()
      | Some (seg_id, _) \<Rightarrow> do {
          h \<leftarrow> header_of (sc_segments c) seg_id;
          st \<leftarrow> header_state h;
          if st = Draining \<or> st = Relinking then None else Some () }) }"

end
