(* ===== verification/SegcacheOps.thy ===== *)
theory SegcacheOps
  imports Segcache
begin

unbundle bit_operations_syntax

text \<open>
  The operations of the cache that change it (\<^verbatim>\<open>insert\<close>, \<^verbatim>\<open>cas\<close>, \<^verbatim>\<open>delete\<close>, the numeric operations, \<^verbatim>\<open>expire\<close> and \<^verbatim>\<open>clear\<close> of
  \<^verbatim>\<open>segcache.rs\<close>), by one thread.
\<close>

section \<open>Inserting\<close>

text \<open>Where an insert stands: about to reserve, or with a reservation to publish.\<close>

datatype insert_point = StartInsert | Publish reserved_item

type_synonym insert_result = "((segcache_error + unit) \<times> segcache) + (insert_point \<times> segcache)"

definition restart_insert :: "env \<Rightarrow> reserved_item \<Rightarrow> location \<Rightarrow> segcache \<Rightarrow> insert_result option" where
  "restart_insert e r loc c = do {
     c \<leftarrow> rollback_reservation e r (reserved_location r) c;
     wait_while_draining_or_filling loc c;
     Some (Inr (StartInsert, c)) }"

text \<open>
  The replacement of the entry found: its segment is pinned against removal, and the slot swung. Where the source spins
  a bounded number of times before it rolls back, the spinning changes nothing.
\<close>

definition insert_replace ::
  "env \<Rightarrow> reserved_item \<Rightarrow> location \<Rightarrow> slot_ref \<Rightarrow> segcache \<Rightarrow> insert_result option" where
  "insert_replace e r old_location slot c = (let new_location = reserved_location r; old_seg = fst (unpack_location old_location) in
     if old_location = new_location then do { c \<leftarrow> drop_reserved r c; Some (Inl (Inr (), c)) }
     else if old_seg = 0 then do {
       c \<leftarrow> rollback_reservation e r new_location c;
       Some (Inl (Inl HashTableInsertEx, c)) }
     else do {
       (pinned, s) \<leftarrow> try_pin_remover_of (sc_segments c) old_seg;
       let c = put_segments s c;
       if \<not> pinned then restart_insert e r old_location c
       else let (swung, ht) = cas_location_at slot old_location new_location True (sc_hashtable c); c = put_hashtable ht c in
         if swung then do {
           c \<leftarrow> drop_reserved r c;
           (_, c) \<leftarrow> remove_at e old_location old_seg c;
           Some (Inl (Inr (), c)) }
         else do {
           s \<leftarrow> drop_remover (sc_segments c) old_seg;
           Some (Inr (Publish r, put_segments s c)) } })"

definition insert_fresh :: "env \<Rightarrow> u8 list \<Rightarrow> reserved_item \<Rightarrow> segcache \<Rightarrow> insert_result option" where
  "insert_fresh e key r c = (let loc = reserved_location r;
       (outcome, ht) = ht_insert (key_of_item (e_integrity e) (sc_segments c) (reserved_addr (sc_segments c) r)) loc
         (sc_verifier e (sc_segments c)) (sc_hashtable c);
       c = put_hashtable ht c in
     case outcome of
       Inr (IUnknown l) \<Rightarrow> restart_insert e r l c
     | Inr Created \<Rightarrow> do { c \<leftarrow> drop_reserved r c; Some (Inl (Inr (), c)) }
     | Inr (Replaced raced_old) \<Rightarrow> do {
         c \<leftarrow> drop_reserved r c;
         c \<leftarrow> remove_pinned e raced_old c;
         Some (Inl (Inr (), c)) }
     | Inl _ \<Rightarrow> do {
         c \<leftarrow> rollback_reservation e r loc c;
         Some (Inl (Inl HashTableInsertEx, c)) })"

fun insert_step ::
  "env \<Rightarrow> u8 list \<Rightarrow> cache_value \<Rightarrow> u8 list \<Rightarrow> u32 \<Rightarrow> insert_point \<times> segcache \<Rightarrow> insert_result option" where
  "insert_step e key v opt ttl (StartInsert, c) = do {
     (r, c) \<leftarrow> reserve_and_define e key v opt ttl c;
     Some (case r of Inl err \<Rightarrow> Inl (Inl err, c) | Inr ri \<Rightarrow> Inr (Publish ri, c)) }"
| "insert_step e key v opt ttl (Publish r, c) =
     (case lookup_slot key (sc_verifier e (sc_segments c)) (sc_hashtable c) of
        LUnknown l \<Rightarrow> restart_insert e r l c
      | Found (old_location, slot) \<Rightarrow> insert_replace e r old_location slot c
      | Absent \<Rightarrow> insert_fresh e key r c)"

definition segcache_insert ::
  "env \<Rightarrow> u8 list \<Rightarrow> cache_value \<Rightarrow> u8 list option \<Rightarrow> nat \<Rightarrow> segcache \<Rightarrow> ((segcache_error + unit) \<times> segcache) option" where
  "segcache_insert e key v opt ttl c =
     iterate (insert_step e key v (case opt of Some o' \<Rightarrow> o' | None \<Rightarrow> []) (coarse_ttl ttl)) (StartInsert, c)"

section \<open>Replacing at a location\<close>

text \<open>
  The second check of a compare-and-swap token, under the remover pin: the memory with the version lock of a numeric
  item taken, or \<^const>\<open>Inl\<close> when the token no longer fits.
\<close>

definition reverify_token ::
  "env \<Rightarrow> u64 \<Rightarrow> location \<Rightarrow> u32 \<Rightarrow> nat \<Rightarrow> segments \<Rightarrow> (unit + (u64 option \<times> segments)) option" where
  "reverify_token e expected loc seg_id offset s = do {
     h \<leftarrow> header_of s seg_id;
     let item = byte_offset s seg_id offset;
     let base = token_raw (token_new loc (hd_generation h));
     lock \<leftarrow> lock_numeric_version (e_integrity e) (sg_data s) item;
     Some (case lock of
         Inr (v, m) \<Rightarrow> if mix_version base v \<noteq> expected then Inl () else Inr (Some v, s\<lparr>sg_data := m\<rparr>)
       | Inl _ \<Rightarrow> if base \<noteq> expected then Inl () else Inr (None, s)) }"

definition unlock_version :: "env \<Rightarrow> u64 option \<Rightarrow> nat \<Rightarrow> segments \<Rightarrow> segments option" where
  "unlock_version e version item s =
     (case version of
        None \<Rightarrow> Some s
      | Some v \<Rightarrow> map_option (\<lambda>m. s\<lparr>sg_data := m\<rparr>) (guard_drop (e_integrity e) v (sg_data s) item))"

type_synonym replace_result = "((segcache_error + unit) \<times> segcache) + segcache"

definition give_up_replace :: "env \<Rightarrow> reserved_item \<Rightarrow> segcache_error \<Rightarrow> segcache \<Rightarrow> replace_result option" where
  "give_up_replace e r err c = do {
     c \<leftarrow> rollback_reservation e r (reserved_location r) c;
     Some (Inl (Inl err, c)) }"

definition replace_step ::
  "env \<Rightarrow> u8 list \<Rightarrow> location \<Rightarrow> slot_ref \<Rightarrow> reserved_item \<Rightarrow> u64 option \<Rightarrow> segcache \<Rightarrow> replace_result option" where
  "replace_step e key old_location old_slot r expected c = (let old_seg = fst (unpack_location old_location) in do {
     (pinned, s) \<leftarrow> try_pin_remover_of (sc_segments c) old_seg;
     let c = put_segments s c;
     if \<not> pinned then give_up_replace e r Exists c
     else do {
       let unpin = (\<lambda>c. map_option (\<lambda>s. put_segments s c) (drop_remover (sc_segments c) old_seg));
       resolved \<leftarrow> resolve (sc_segments c) old_location;
       (case resolved of
          None \<Rightarrow> do { c \<leftarrow> unpin c; give_up_replace e r Exists c }
        | Some (seg_id, offset) \<Rightarrow> do {
            let item = byte_offset (sc_segments c) seg_id offset;
            verified \<leftarrow> (case expected of
                None \<Rightarrow> Some (Inr (None, sc_segments c))
              | Some token \<Rightarrow>
                  if get_item_frequency key old_location (sc_hashtable c) = None then Some (Inl ())
                  else reverify_token e token old_location seg_id offset (sc_segments c));
            (case verified of
               Inl _ \<Rightarrow> do { c \<leftarrow> unpin c; give_up_replace e r Exists c }
             | Inr (version, s) \<Rightarrow> do {
                 let (swung, ht) = cas_location_at old_slot old_location (reserved_location r) True (sc_hashtable c);
                 s \<leftarrow> unlock_version e version item s;
                 let c = put_hashtable ht (put_segments s c);
                 if swung then do {
                   c \<leftarrow> drop_reserved r c;
                   (_, c) \<leftarrow> remove_at e old_location old_seg c;
                   Some (Inl (Inr (), c)) }
                 else do {
                   c \<leftarrow> unpin c;
                   if get_item_frequency key old_location (sc_hashtable c) = None then give_up_replace e r Exists c
                   else Some (Inr c) } }) }) } })"

definition replace_at ::
  "env \<Rightarrow> u8 list \<Rightarrow> location \<Rightarrow> slot_ref \<Rightarrow> reserved_item \<Rightarrow> u64 option \<Rightarrow> segcache \<Rightarrow> ((segcache_error + unit) \<times> segcache) option" where
  "replace_at e key old_location old_slot r expected c =
     (if fst (unpack_location old_location) = 0 then do {
        c \<leftarrow> rollback_reservation e r (reserved_location r) c;
        Some (Inl NotFound, c) }
      else iterate (replace_step e key old_location old_slot r expected) c)"

section \<open>Compare and swap\<close>

text \<open>
  The lookup of the current item, with the mismatches of the slot counted: the error, or the location, the slot and the
  token of the item.
\<close>

type_synonym 'a find_result = "((segcache_error + 'a) \<times> segcache) + (nat \<times> segcache)"

definition cas_find_step :: "env \<Rightarrow> u8 list \<Rightarrow> nat \<times> segcache \<Rightarrow> (location \<times> slot_ref \<times> u64) find_result option" where
  "cas_find_step e key ac = (let (attempts, c) = ac in
     case lookup_no_freq_update key (sc_verifier e (sc_segments c)) (sc_hashtable c) of
       Absent \<Rightarrow> Some (Inl (Inl NotFound, c))
     | LUnknown _ \<Rightarrow> Some (Inr (attempts, c))
     | Found hit \<Rightarrow> (let loc = hit_location hit; seg_id = fst (unpack_location loc); raw = fst (hit_pin hit); s = sc_segments c in
         if seg_id = 0 then Some (Inl (Inl NotFound, c))
         else do {
           ttl \<leftarrow> remaining_ttl e s seg_id;
           (case ttl of
              Inl err \<Rightarrow> Some (Inl (Inl err, c))
            | Inr _ \<Rightarrow>
                if \<not> slot_publishes (hit_slot hit) loc (sc_hashtable c) then
                  Some (if attempts + 1 \<ge> RESERVE_RETRIES then Inl (Inl Exists, c) else Inr (attempts + 1, c))
                else do {
                  h \<leftarrow> header_of s seg_id;
                  token \<leftarrow> token_for e s raw loc (hd_generation h);
                  Some (Inl (Inr (loc, hit_slot hit, token), c)) }) }))"

definition segcache_cas ::
  "env \<Rightarrow> u8 list \<Rightarrow> cache_value \<Rightarrow> u8 list option \<Rightarrow> nat \<Rightarrow> u64 \<Rightarrow> segcache \<Rightarrow> ((segcache_error + unit) \<times> segcache) option" where
  "segcache_cas e key v opt ttl token c = do {
     (found, c) \<leftarrow> iterate (cas_find_step e key) (0, c);
     (case found of
        Inl err \<Rightarrow> Some (Inl err, c)
      | Inr (loc, slot, current) \<Rightarrow>
          if current \<noteq> token then Some (Inl Exists, c)
          else do {
            (r, c) \<leftarrow> reserve_and_define e key v (case opt of Some o' \<Rightarrow> o' | None \<Rightarrow> []) (coarse_ttl ttl) c;
            (case r of
               Inl err \<Rightarrow> Some (Inl err, c)
             | Inr ri \<Rightarrow> replace_at e key loc slot ri (Some token) c) }) }"

section \<open>Deleting\<close>

text \<open>A step of \<^verbatim>\<open>delete\<close>; the flag is whether an entry has been unlinked already.\<close>

definition delete_unpinned :: "env \<Rightarrow> u8 list \<Rightarrow> location \<Rightarrow> bool \<Rightarrow> segcache \<Rightarrow> ((bool \<times> segcache) + (bool \<times> segcache)) option" where
  "delete_unpinned e key loc unlinked c = (let (removed, ht) = ht_remove key loc (sc_hashtable c); c = put_hashtable ht c in
     Some (if removed \<and> (case lookup_no_freq_update key (sc_verifier e (sc_segments c)) ht of Absent \<Rightarrow> True | _ \<Rightarrow> False)
       then Inl (True, c) else Inr (unlinked \<or> removed, c)))"

definition delete_pinned ::
  "env \<Rightarrow> u8 list \<Rightarrow> location \<Rightarrow> bool \<Rightarrow> segcache \<Rightarrow> ((bool \<times> segcache) + (bool \<times> segcache)) option" where
  "delete_pinned e key loc unlinked c = (let (seg_id, offset) = unpack_location loc;
       (removed, ht) = ht_remove key loc (sc_hashtable c); c = put_hashtable ht c in
     if \<not> removed then do { s \<leftarrow> drop_remover (sc_segments c) seg_id; Some (Inl (unlinked, put_segments s c)) }
     else do {
       resolved \<leftarrow> resolve (sc_segments c) loc;
       s \<leftarrow> (case resolved of
           None \<Rightarrow> Some (sc_segments c)
         | Some _ \<Rightarrow> map_option (\<lambda>m. (sc_segments c)\<lparr>sg_data := m\<rparr>)
             (raw_set_deleted (e_integrity e) True (sg_data (sc_segments c)) (byte_offset (sc_segments c) seg_id offset)));
       (_, c) \<leftarrow> remove_at e loc seg_id (put_segments s c);
       Some (Inl (True, c)) })"

definition delete_step :: "env \<Rightarrow> u8 list \<Rightarrow> bool \<times> segcache \<Rightarrow> ((bool \<times> segcache) + (bool \<times> segcache)) option" where
  "delete_step e key uc = (let (unlinked, c) = uc in
     case lookup_no_freq_update key (sc_verifier e (sc_segments c)) (sc_hashtable c) of
       Absent \<Rightarrow> Some (Inl (unlinked, c))
     | LUnknown _ \<Rightarrow> Some (Inr (unlinked, c))
     | Found hit \<Rightarrow> (let loc = hit_location hit; seg_id = fst (unpack_location loc) in
         if seg_id = 0 then
           (if unlinked then Some (Inl (True, c))
            else let (removed, ht) = ht_remove key loc (sc_hashtable c) in Some (Inl (removed, put_hashtable ht c)))
         else do {
           ttl \<leftarrow> remaining_ttl e (sc_segments c) seg_id;
           (case ttl of
              Inl _ \<Rightarrow> Some (Inl (unlinked, c))
            | Inr _ \<Rightarrow> do {
                (pinned, s) \<leftarrow> try_pin_remover_of (sc_segments c) seg_id;
                let c = put_segments s c;
                if pinned then delete_pinned e key loc unlinked c else delete_unpinned e key loc unlinked c }) }))"

definition segcache_delete :: "env \<Rightarrow> u8 list \<Rightarrow> segcache \<Rightarrow> (bool \<times> segcache) option" where
  "segcache_delete e key c = iterate (delete_step e key) (False, c)"

section \<open>Expiring and clearing\<close>

definition put_drained :: "segments \<times> hashtable \<times> ttl_buckets \<Rightarrow> segcache \<Rightarrow> segcache" where
  "put_drained sht c = c\<lparr>sc_segments := fst sht, sc_hashtable := fst (snd sht), sc_ttl_buckets := snd (snd sht)\<rparr>"

definition segcache_expire :: "env \<Rightarrow> segcache \<Rightarrow> (nat \<times> segcache) option" where
  "segcache_expire e c = map_option (\<lambda>(n, sht). (n, put_drained sht c))
     (ttl_expire (e_integrity e) (e_after e) (e_now e) (sc_segments c, sc_hashtable c, sc_ttl_buckets c))"

definition segcache_clear :: "env \<Rightarrow> segcache \<Rightarrow> (nat \<times> segcache) option" where
  "segcache_clear e c = map_option (\<lambda>(n, sht). (n, put_drained sht c))
     (ttl_clear (e_integrity e) (e_after e) (sc_segments c, sc_hashtable c, sc_ttl_buckets c))"

section \<open>Numeric operations\<close>

definition numeric_step ::
  "env \<Rightarrow> u8 list \<Rightarrow> (u64 \<Rightarrow> u64) \<Rightarrow> segcache \<Rightarrow> (((segcache_error + u64) \<times> segcache) + segcache) option" where
  "numeric_step e key f c =
     (let (r, ht) = ht_lookup key (sc_verifier e (sc_segments c)) (sc_hashtable c); c = put_hashtable ht c; s = sc_segments c in
      case r of
        Absent \<Rightarrow> Some (Inl (Inl NotFound, c))
      | LUnknown _ \<Rightarrow> Some (Inr c)
      | Found hit \<Rightarrow> (let loc = hit_location hit; seg_id = fst (unpack_location loc); raw = fst (hit_pin hit);
            published = slot_publishes (hit_slot hit) loc ht in
          if seg_id = 0 then Some (Inl (Inl NotFound, c))
          else do {
            ttl \<leftarrow> remaining_ttl e s seg_id;
            (case ttl of
               Inl err \<Rightarrow> Some (Inl (Inl err, c))
             | Inr _ \<Rightarrow> do {
                 lock \<leftarrow> lock_numeric_version (e_integrity e) (sg_data s) raw;
                 (case lock of
                    Inl _ \<Rightarrow> Some (if published then Inl (Inl NotNumeric, c) else Inr c)
                  | Inr (version, m) \<Rightarrow>
                      if \<not> published then do {
                        m \<leftarrow> guard_drop (e_integrity e) version m raw;
                        Some (Inr (put_segments (s\<lparr>sg_data := m\<rparr>) c)) }
                      else do {
                        (new, m) \<leftarrow> guard_update (e_integrity e) (e_crc e) version f m raw;
                        Some (Inl (Inr new, put_segments (s\<lparr>sg_data := m\<rparr>) c)) }) }) }))"

definition numeric_update :: "env \<Rightarrow> u8 list \<Rightarrow> (u64 \<Rightarrow> u64) \<Rightarrow> segcache \<Rightarrow> ((segcache_error + u64) \<times> segcache) option" where
  "numeric_update e key f c = iterate (numeric_step e key f) c"

definition segcache_wrapping_add :: "env \<Rightarrow> u8 list \<Rightarrow> u64 \<Rightarrow> segcache \<Rightarrow> ((segcache_error + u64) \<times> segcache) option" where
  "segcache_wrapping_add e key rhs c = numeric_update e key (\<lambda>v. v + rhs) c"

definition segcache_saturating_sub :: "env \<Rightarrow> u8 list \<Rightarrow> u64 \<Rightarrow> segcache \<Rightarrow> ((segcache_error + u64) \<times> segcache) option" where
  "segcache_saturating_sub e key rhs c = numeric_update e key (\<lambda>v. saturating_sub v rhs) c"

text \<open>
  The outcome of the lookup of \<^verbatim>\<open>try_into_numeric\<close>: the key is missing, it is numeric already, or it is to be converted.
\<close>

datatype conversion = MissingKey | AlreadyNumeric | Convert location slot_ref u64 "u8 list" u32

definition convert_step :: "env \<Rightarrow> u8 list \<Rightarrow> nat \<times> segcache \<Rightarrow> conversion find_result option" where
  "convert_step e key ac = (let (attempts, c) = ac; s = sc_segments c in
     case lookup_no_freq_update key (sc_verifier e s) (sc_hashtable c) of
       Absent \<Rightarrow> Some (Inl (Inr MissingKey, c))
     | LUnknown _ \<Rightarrow> Some (Inr (attempts, c))
     | Found hit \<Rightarrow> (let loc = hit_location hit; seg_id = fst (unpack_location loc); raw = fst (hit_pin hit) in
         if seg_id = 0 then Some (Inl (Inl NotFound, c))
         else if \<not> slot_publishes (hit_slot hit) loc (sc_hashtable c) then
           Some (if attempts + 1 \<ge> RESERVE_RETRIES then Inl (Inl Exists, c) else Inr (attempts + 1, c))
         else do {
           v \<leftarrow> raw_value (e_integrity e) (sg_data s) raw;
           (case v of
              U64 _ \<Rightarrow> Some (Inl (Inr AlreadyNumeric, c))
            | Bytes bs \<Rightarrow>
                (case parse_simple_numeric bs of
                   None \<Rightarrow> Some (Inl (Inl NotNumeric, c))
                 | Some parsed \<Rightarrow> do {
                     opt \<leftarrow> raw_optional (e_integrity e) (sg_data s) raw;
                     ttl \<leftarrow> remaining_ttl e s seg_id;
                     Some (Inl (case ttl of
                         Inl err \<Rightarrow> (Inl err, c)
                       | Inr left \<Rightarrow> (Inr (Convert loc (hit_slot hit) parsed (case opt of Some o' \<Rightarrow> o' | None \<Rightarrow> []) left), c))) })) }))"

definition try_into_numeric :: "env \<Rightarrow> u8 list \<Rightarrow> u64 \<Rightarrow> nat \<Rightarrow> segcache \<Rightarrow> ((segcache_error + unit) \<times> segcache) option" where
  "try_into_numeric e key initial ttl c = do {
     (found, c) \<leftarrow> iterate (convert_step e key) (0, c);
     (case found of
        Inl err \<Rightarrow> Some (Inl err, c)
      | Inr MissingKey \<Rightarrow> segcache_insert e key (U64 initial) None ttl c
      | Inr AlreadyNumeric \<Rightarrow> Some (Inr (), c)
      | Inr (Convert loc slot parsed opt left) \<Rightarrow> do {
          (r, c) \<leftarrow> reserve_and_define e key (U64 parsed) opt left c;
          (case r of
             Inl err \<Rightarrow> Some (Inl err, c)
           | Inr ri \<Rightarrow> replace_at e key loc slot ri None c) }) }"

end
