(* ===== verification/SegCells.thy ===== *)
theory SegCells
  imports RawItemProps
begin

unbundle bit_operations_syntax

text \<open>
  An item as a region of the item memory: what the accessors read from it depends on its own bytes only, what \<^verbatim>\<open>define\<close>
  and the in-place operations write stays within it, and a copy of its bytes is the same item.
\<close>

section \<open>Cells\<close>

record cell =
  ce_key :: "u8 list"
  ce_value :: cache_value
  ce_opt :: "u8 list"

definition csize :: "bool \<Rightarrow> cell \<Rightarrow> nat" where
  "csize i c = item_size i (length (ce_key c)) (ce_value c) (length (ce_opt c))"

definition cell_tail :: "bool \<Rightarrow> cell \<Rightarrow> u64 \<Rightarrow> u8 list" where
  "cell_tail i c ver = (case ce_value c of Bytes bs \<Rightarrow> bs
     | U64 w \<Rightarrow> num_tail (replicate (pad_of i (ce_opt c) (ce_key c)) 0) w ver [])"

abbreviation cell_mem :: "bool \<Rightarrow> u8 list \<Rightarrow> item_header \<Rightarrow> cell \<Rightarrow> u64 \<Rightarrow> u8 list \<Rightarrow> u8 list" where
  "cell_mem i pre h c ver rest \<equiv> item_mem i pre h (ce_opt c) (ce_key c) (cell_tail i c ver @ rest)"

abbreviation cell_header :: "bool \<Rightarrow> item_header \<Rightarrow> cell \<Rightarrow> bool" where
  "cell_header i h c \<equiv> describes i h (ce_key c) (ce_value c) (ce_opt c)"

definition cell_bytes :: "bool \<Rightarrow> cell \<Rightarrow> u8 list \<Rightarrow> bool" where
  "cell_bytes i c bs \<longleftrightarrow> length bs = csize i c
     \<and> (\<exists>h ver rest. cell_header i h c \<and> even ver \<and> bs = cell_mem i [] h c ver rest)"

definition cell_at :: "bool \<Rightarrow> u8 list \<Rightarrow> nat \<Rightarrow> cell \<Rightarrow> bool" where
  "cell_at i m a c \<longleftrightarrow> a + csize i c \<le> length m \<and> cell_bytes i c (take (csize i c) (drop a m))"

lemma csize_pos: "ITEM_HDR_SIZE i < csize i c" "8 dvd csize i c"
  using item_need_less(1) [of i "length (ce_key c)" "ce_value c" "length (ce_opt c)"]
  by (simp_all add: csize_def item_size_need item_need_def)

lemma cell_mem_split: "cell_mem i (pre @ p) h c ver rest = pre @ cell_mem i p h c ver rest"
  "cell_mem i p h c ver (rest @ post) = cell_mem i p h c ver rest @ post"
  by (simp_all add: item_mem_def)

lemma cell_mem_length:
  "cell_header i h c \<Longrightarrow> length (cell_mem i pre h c ver rest) = length pre + item_need i (length (ce_key c)) (ce_value c) (length (ce_opt c)) + length rest"
  by (cases "ce_value c")
     (simp_all add: item_mem_def length_print_header describes_def fits_def item_need_def cell_tail_def)

lemma cell_atE:
  assumes "cell_at i m a c"
  obtains pre h ver rest where "m = cell_mem i pre h c ver rest" "length pre = a" "cell_header i h c" "even ver"
    "csize i c \<le> item_need i (length (ce_key c)) (ce_value c) (length (ce_opt c)) + length rest"
proof -
  let ?n = "csize i c"
  obtain h ver rest where h: "cell_header i h c" "even ver" and b: "take ?n (drop a m) = cell_mem i [] h c ver rest"
    using assms by (auto simp: cell_at_def cell_bytes_def)
  have "m = take a m @ take ?n (drop a m) @ drop (a + ?n) m"
    by (metis add.commute append_take_drop_id drop_drop)
  also have "\<dots> = cell_mem i (take a m) h c ver (rest @ drop (a + ?n) m)"
    unfolding b cell_mem_split(2) using cell_mem_split(1) [of i "take a m" "[]" h c ver rest] by simp
  finally have m: "m = \<dots>" .
  have l: "length (take a m) = a" using assms by (simp add: cell_at_def)
  have "?n = length (take ?n (drop a m))" using assms unfolding cell_at_def by simp linarith
  also have "\<dots> = item_need i (length (ce_key c)) (ce_value c) (length (ce_opt c)) + length rest"
    unfolding b cell_mem_length [OF h(1)] by simp
  finally show thesis by (intro that [OF m l h]) simp
qed

lemma cell_atI:
  assumes m: "m = cell_mem i pre h c ver rest" "length pre = a" "cell_header i h c" "even ver"
    and n: "csize i c \<le> item_need i (length (ce_key c)) (ce_value c) (length (ce_opt c)) + length rest"
  shows "cell_at i m a c"
proof -
  let ?n = "csize i c" and ?k = "item_need i (length (ce_key c)) (ce_value c) (length (ce_opt c))"
  have k: "?k < ?n" unfolding csize_def by (rule item_need_less)
  have e: "m = pre @ cell_mem i [] h c ver rest" using cell_mem_split(1) [of i pre "[]" h c ver rest] m(1) by simp
  have l: "length (cell_mem i [] h c ver []) = ?k" using cell_mem_length [OF m(3), of "[]" ver "[]"] by simp
  have "drop a m = cell_mem i [] h c ver rest" unfolding e using m(2) by simp
  also have "\<dots> = cell_mem i [] h c ver [] @ rest" using cell_mem_split(2) [of i "[]" h c ver "[]" rest] by simp
  finally have "take ?n (drop a m) = cell_mem i [] h c ver [] @ take (?n - ?k) rest"
    using l k by (simp only: take_append) simp
  also have "\<dots> = cell_mem i [] h c ver (take (?n - ?k) rest)"
    using cell_mem_split(2) [of i "[]" h c ver "[]" "take (?n - ?k) rest"] by simp
  finally have b: "take ?n (drop a m) = \<dots>" .
  have lm: "length m = a + ?k + length rest" using cell_mem_length [OF m(3), of pre ver rest] m(1,2) by simp
  then have "length (take ?n (drop a m)) = ?n" using n by simp
  then show ?thesis unfolding cell_at_def cell_bytes_def using m(3,4) n lm b by auto
qed

section \<open>Reading\<close>

lemma cell_reads:
  assumes "cell_at i m a c"
  shows "raw_key i m a = Some (ce_key c)" and "raw_value i m a = Some (ce_value c)"
    and "raw_optional i m a = Some (if ce_opt c = [] then None else Some (ce_opt c))"
    and "raw_size i m a = Some (csize i c)" and "raw_klen i m a = Some (length (ce_key c))"
    and "raw_check_magic i m a = Some ()" and "\<exists>d. raw_is_deleted i m a = Some d"
    and "numeric_version i m a \<noteq> None"
    and "raw_is_numeric i m a = Some (is_numeric_value (ce_value c))"
proof -
  from assms obtain pre h ver rest where m: "m = cell_mem i pre h c ver rest" and a: "a = length pre"
    and d: "cell_header i h c" and ev: "even ver" by (rule cell_atE) blast
  have h: "fits i h (ce_opt c) (ce_key c)" "ih_is_numeric h = is_numeric_value (ce_value c)"
      "unat (ih_vlen h) = size_of_value (ce_value c)"
    using d by (simp_all add: describes_def)
  have ok: "header_ok i h" using h(1) by (simp add: fits_def)
  note f = item_fields [OF h(1)]
  show "raw_key i m a = Some (ce_key c)" unfolding m a by (rule item_key [OF h(1)])
  show "raw_optional i m a = Some (if ce_opt c = [] then None else Some (ce_opt c))" unfolding m a by (rule item_optional [OF h(1)])
  show "raw_size i m a = Some (csize i c)"
    unfolding m a item_size_at [OF h(1)] by (cases "ce_value c") (simp_all add: h item_size_def is_numeric_value_def csize_def)
  show "raw_klen i m a = Some (length (ce_key c))" "\<exists>d. raw_is_deleted i m a = Some d"
    "raw_is_numeric i m a = Some (is_numeric_value (ce_value c))" unfolding m a by (simp_all add: f h(2))
  show "raw_check_magic i m a = Some ()"
    using d unfolding m a by (simp add: raw_check_magic_def item_header [OF ok] describes_def)
  show "raw_value i m a = Some (ce_value c)"
  proof (cases "ce_value c")
    case (Bytes bs)
    have "load_bytes (item_mem i pre h (ce_opt c) (ce_key c) (bs @ rest)) (length pre + (ITEM_HDR_SIZE i + length (ce_opt c) + length (ce_key c))) (length bs) = Some bs"
      by (rule item_load_tail [OF ok, where a = "[]"]) simp_all
    then show ?thesis using h Bytes by (simp add: m a raw_value_def f is_numeric_value_def cell_tail_def)
  next
    case (U64 w)
    then have n: "ih_is_numeric h" using h(2) by (simp add: is_numeric_value_def)
    show ?thesis using ev
      by (simp add: m a U64 cell_tail_def raw_value_def f(4) n numeric_words [OF h(1) n length_replicate] odd_word)
  qed
  show "numeric_version i m a \<noteq> None"
  proof (cases "ce_value c")
    case (Bytes bs)
    then show ?thesis using h by (simp add: m a numeric_version_def f is_numeric_value_def)
  next
    case (U64 w)
    then have n: "ih_is_numeric h" using h(2) by (simp add: is_numeric_value_def)
    show ?thesis by (simp add: m a U64 cell_tail_def numeric_version_def f(4) n numeric_words [OF h(1) n length_replicate])
  qed
qed

section \<open>Frames\<close>

text \<open>A change of the memory within \<open>n\<close> bytes from \<open>a\<close>.\<close>

definition changed_in :: "nat \<Rightarrow> nat \<Rightarrow> u8 list \<Rightarrow> u8 list \<Rightarrow> bool" where
  "changed_in a n m m' \<longleftrightarrow> length m' = length m \<and> take a m' = take a m \<and> drop (a + n) m' = drop (a + n) m"

lemma changed_in_refl [simp]: "changed_in a n m m"
  by (simp add: changed_in_def)

lemma changed_in_trans: "changed_in a n m m' \<Longrightarrow> changed_in a n m' m'' \<Longrightarrow> changed_in a n m m''"
  by (simp add: changed_in_def)

lemma changed_in_bytes:
  assumes c: "changed_in a n m m'" and "b + k \<le> a \<or> a + n \<le> b"
  shows "take k (drop b m') = take k (drop b m)"
  using assms(2)
proof
  assume "b + k \<le> a"
  then have "take k (drop b x) = drop b (take (b + k) (take a x))" for x :: "u8 list" by (simp add: drop_take min_def)
  then show ?thesis using c by (metis changed_in_def)
next
  assume "a + n \<le> b"
  then have "drop b x = drop (b - (a + n)) (drop (a + n) x)" for x :: "u8 list" by simp
  then show ?thesis using c by (metis changed_in_def)
qed

lemma cell_at_frame:
  "changed_in a n m m' \<Longrightarrow> b + csize i c \<le> a \<or> a + n \<le> b \<Longrightarrow> cell_at i m b c \<Longrightarrow> cell_at i m' b c"
  using changed_in_bytes [of a n m m' b "csize i c"] by (simp add: cell_at_def changed_in_def)

lemma load_bytes_frame:
  "changed_in a n m m' \<Longrightarrow> b + k \<le> a \<or> a + n \<le> b \<Longrightarrow> load_bytes m' b k = load_bytes m b k"
  using changed_in_bytes [of a n m m' b k] by (simp add: load_bytes_def changed_in_def)

text \<open>Two memories around the same place, with blocks that lie in the region.\<close>

lemma changed_inI:
  assumes "m = pre @ x @ post" "m' = pre @ y @ post" "length pre = a" "length x = length y" "length x \<le> n"
  shows "changed_in a n m m'"
  using assms by (simp add: changed_in_def)

lemma cell_mem_changed:
  assumes m: "m = cell_mem i pre h c ver rest" "length pre = a" "cell_header i h c"
    and m': "m' = cell_mem i pre h' c' ver' rest" "cell_header i h' c'"
    and n: "csize i c' = csize i c"
      "item_need i (length (ce_key c')) (ce_value c') (length (ce_opt c')) = item_need i (length (ce_key c)) (ce_value c) (length (ce_opt c))"
  shows "changed_in a (csize i c) m m'"
proof (rule changed_inI)
  show "m = pre @ cell_mem i [] h c ver [] @ rest" "m' = pre @ cell_mem i [] h' c' ver' [] @ rest"
    unfolding m m' by (simp_all add: item_mem_def)
  show "length (cell_mem i [] h c ver []) = length (cell_mem i [] h' c' ver' [])"
    using cell_mem_length [OF m(3), of "[]" ver "[]"] cell_mem_length [OF m'(2), of "[]" ver' "[]"] n(2) by simp
  show "length (cell_mem i [] h c ver []) \<le> csize i c"
    using cell_mem_length [OF m(3), of "[]" ver "[]"] item_need_less(1) [of i "length (ce_key c)" "ce_value c" "length (ce_opt c)"]
    by (simp add: csize_def)
qed (fact m(2))

section \<open>Writing\<close>

lemma define_cell:
  assumes "raw_representable key v opt" and "a + item_size i (length key) v (length opt) \<le> length m"
  obtains m' where "raw_define i crc m a key v opt = Some m'" "cell_at i m' a \<lparr>ce_key = key, ce_value = v, ce_opt = opt\<rparr>"
    "changed_in a (item_size i (length key) v (length opt)) m m'"
proof -
  let ?c = "\<lparr>ce_key = key, ce_value = v, ce_opt = opt\<rparr>" and ?k = "item_need i (length key) v (length opt)"
  from raw_define_split [OF assms] obtain pre blk rest h where m: "m = pre @ blk @ rest" and pre: "length pre = a"
    and blk: "length blk = ?k" and h: "describes i h key v opt"
    and def: "raw_define i crc m a key v opt = Some (item_mem i pre h opt key (value_tail i opt key v @ rest))" .
  let ?m = "item_mem i pre h opt key (value_tail i opt key v @ rest)"
  have t: "value_tail i opt key v = cell_tail i ?c 0" by (cases v) (simp_all add: cell_tail_def)
  have k: "?k < csize i ?c" unfolding csize_def by (simp add: item_need_less)
  show thesis
  proof (rule that [OF def])
    have "csize i ?c \<le> ?k + length rest" using assms(2) m pre blk by (simp add: csize_def)
    then show "cell_at i ?m a ?c"
      by (intro cell_atI [where ver = 0 and rest = rest, OF _ pre]) (use h t in simp_all)
    have "header_ok i h" using h by (simp add: describes_def fits_def)
    then have l: "length (print_header i h @ opt @ key @ value_tail i opt key v) = ?k"
      by (simp add: length_print_header item_need_def length_value_tail)
    show "changed_in a (item_size i (length key) v (length opt)) m ?m"
      by (rule changed_inI [OF m _ pre, where y = "print_header i h @ opt @ key @ value_tail i opt key v"])
         (use l blk k in \<open>simp_all add: item_mem_def csize_def\<close>)
  qed
qed

lemma set_deleted_cell:
  assumes "cell_at i m a c"
  obtains m' where "raw_set_deleted i d m a = Some m'" "cell_at i m' a c" "changed_in a (csize i c) m m'"
proof -
  from assms obtain pre h ver rest where m: "m = cell_mem i pre h c ver rest" and a: "length pre = a"
    and h: "cell_header i h c" and ev: "even ver"
    and n: "csize i c \<le> item_need i (length (ce_key c)) (ce_value c) (length (ce_opt c)) + length rest" by (rule cell_atE)
  let ?h = "ih_set_deleted d h"
  have ok: "header_ok i h" "header_ok i ?h" using h by (simp_all add: describes_def fits_def header_ok_set)
  have "ih_vlen ?h = ih_vlen h" "ih_check_magic i ?h = ih_check_magic i h"
    by (simp_all add: ih_set_deleted_def ih_check_magic_def)
  then have h': "cell_header i ?h c"
    using h by (simp add: describes_def fits_def header_ok_set flag_simps klen_simps)
  show thesis
  proof (rule that)
    show "raw_set_deleted i d m a = Some (cell_mem i pre ?h c ver rest)"
      unfolding raw_set_deleted_def m a [symmetric] by (rule item_header_mut [where f = "ih_set_deleted d", OF ok])
    show "cell_at i (cell_mem i pre ?h c ver rest) a c" by (rule cell_atI [OF refl a h' ev n])
    show "changed_in a (csize i c) m (cell_mem i pre ?h c ver rest)"
      by (rule cell_mem_changed [OF m a h refl h' refl refl])
  qed
qed

lemma bytes_not_locked:
  "cell_at i m a c \<Longrightarrow> ce_value c = Bytes bs \<Longrightarrow> lock_numeric_version i m a = Some (Inl NotNumericError)"
  using cell_reads(9) [of i m a c] by (simp add: lock_numeric_version_def is_numeric_value_def)

text \<open>
  The lock of a numeric item, ended by a drop, which restores the memory, or by an update.
\<close>

lemma numeric_locked:
  assumes "cell_at i m a c" and v: "ce_value c = U64 w"
  obtains ver m1 where "lock_numeric_version i m a = Some (Inr (ver, m1))" "guard_drop i ver m1 a = Some m"
    "changed_in a (csize i c) m m1" "even ver" "numeric_version i m a = Some (Some ver)"
    "\<And>f crc. \<exists>m2. guard_update i crc ver f m1 a = Some (f w, m2) \<and> cell_at i m2 a (c\<lparr>ce_value := U64 (f w)\<rparr>)
       \<and> changed_in a (csize i c) m m2"
proof -
  from assms(1) obtain pre h ver rest where m: "m = cell_mem i pre h c ver rest" and a: "length pre = a"
    and d: "cell_header i h c" and ev: "even ver"
    and n: "csize i c \<le> item_need i (length (ce_key c)) (ce_value c) (length (ce_opt c)) + length rest" by (rule cell_atE)
  have d': "describes i h (ce_key c) (U64 w) (ce_opt c)" using d v by simp
  have h: "fits i h (ce_opt c) (ce_key c)" "ih_is_numeric h" "header_ok i h" using describes_numeric [OF d'] by simp_all
  let ?m = "\<lambda>h w ver. item_mem i pre h (ce_opt c) (ce_key c) (num_tail (replicate (pad_of i (ce_opt c) (ce_key c)) 0) w ver rest)"
  note words = numeric_words [OF h(1,2) length_replicate]
  have mm: "cell_mem i pre h c ver rest = ?m h w ver" for h ver by (simp add: cell_tail_def v)
  have mw: "cell_mem i pre h (c\<lparr>ce_value := U64 x\<rparr>) ver rest = ?m h x ver" for h x ver by (simp add: cell_tail_def)
  have dx: "cell_header i g (c\<lparr>ce_value := U64 x\<rparr>) = cell_header i g c" for g x
    by (simp add: v describes_any [of i g "ce_key c" w "ce_opt c" x])
  have size: "csize i (c\<lparr>ce_value := U64 x\<rparr>) = csize i c" for x by (simp add: csize_def v item_size_def)
  have need: "item_need i k (U64 x) l = item_need i k (U64 w) l" for x k l by (simp add: item_need_def)
  show thesis
  proof (rule that [OF _ _ _ ev])
    show "lock_numeric_version i m a = Some (Inr (ver, ?m h w (ver + 1)))"
      using ev unfolding m mm a [symmetric] lock_numeric_version_def item_fields(4) [OF h(1)]
      by (simp only: h(2) words bind.bind_lunit odd_word) simp
    show "guard_drop i ver (?m h w (ver + 1)) a = Some m"
      unfolding guard_drop_def a [symmetric] m mm by (simp only: words)
    show "numeric_version i m a = Some (Some ver)"
      unfolding m mm a [symmetric] numeric_version_def item_fields(4) [OF h(1)]
      by (simp only: h(2) words bind.bind_lunit) simp
    show "changed_in a (csize i c) m (?m h w (ver + 1))"
      using cell_mem_changed [OF m a d refl d refl refl, of "ver + 1"] unfolding mm .
    fix f crc
    have "\<exists>h'. cell_header i h' c \<and> guard_update i crc ver f (?m h w (ver + 1)) (length pre) = Some (f w, ?m h' (f w) (ver + 2))"
    proof (cases i)
      case True
      then have i: "i = True" by simp
      let ?c = "item_crc crc h (ce_key c) (U64 (f w)) (ce_opt c)"
      let ?h = "ih_set_crc32 ?c h"
      have "describes True ?h (ce_key c) (U64 (f w)) (ce_opt c)"
        using d' True unfolding describes_any [of i h "ce_key c" w "ce_opt c" "f w"]
        by (simp add: describes_def fits_def header_ok_set flag_simps klen_simps)
           (simp add: ih_set_crc32_def ih_check_magic_def)
      note h' = this describes_numeric [OF this]
      have "compute_crc_numeric crc (f w) (?m h (f w) (ver + 1)) (length pre) = Some ?c"
        unfolding i crc_numeric [OF h(1,2) [unfolded i] length_replicate] by (simp add: item_crc_def)
      then have "guard_update i crc ver f (?m h w (ver + 1)) (length pre) = Some (f w, ?m ?h (f w) (ver + 2))"
        unfolding guard_update_def i
        using h' by (simp only: words [unfolded i] if_True Let_def bind.bind_lunit item_store_crc [OF h(3) [unfolded i]]
            numeric_words(4) [OF conjunct1 [OF h'(2)] conjunct1 [OF conjunct2 [OF h'(2)]] length_replicate])
      then show ?thesis using h'(1) describes_any [of True ?h "ce_key c" w "ce_opt c" "f w"] unfolding i v by blast
    next
      case False
      then have i: "i = False" by simp
      have "guard_update i crc ver f (?m h w (ver + 1)) (length pre) = Some (f w, ?m h (f w) (ver + 2))"
        unfolding guard_update_def i by (simp only: words [unfolded i] if_False Let_def bind.bind_lunit)
      then show ?thesis using d by blast
    qed
    then obtain h' where h': "cell_header i h' c" and u: "guard_update i crc ver f (?m h w (ver + 1)) a = Some (f w, ?m h' (f w) (ver + 2))"
      using a by auto
    have hx: "cell_header i h' (c\<lparr>ce_value := U64 (f w)\<rparr>)" unfolding dx by (rule h')
    have "cell_at i (?m h' (f w) (ver + 2)) a (c\<lparr>ce_value := U64 (f w)\<rparr>)"
      by (rule cell_atI [OF mw [symmetric] a hx]) (use ev n need [of _ "f w"] in \<open>simp_all add: size v\<close>)
    moreover have "changed_in a (csize i c) m (?m h' (f w) (ver + 2))"
      by (rule cell_mem_changed [OF m a d mw [symmetric] hx size]) (simp add: v need [of _ "f w"])
    ultimately show "\<exists>m2. guard_update i crc ver f (?m h w (ver + 1)) a = Some (f w, m2)
        \<and> cell_at i m2 a (c\<lparr>ce_value := U64 (f w)\<rparr>) \<and> changed_in a (csize i c) m m2"
      using u by blast
  qed
qed

end
