(* ===== verification/CacheMap.thy ===== *)
theory CacheMap
  imports HashtableSpec
begin

text \<open>
  The hashtable seen from the cache. \<open>cached K h M\<close>: the table stands for the map \<open>M\<close> from keys to locations, under a
  function \<open>K\<close> that tells the key of the item at a location, and no entry dangles. Each operation the cache uses has one
  lemma about it.
\<close>

section \<open>Tables without dangling entries\<close>

text \<open>The verifier that knows the keys; the interface lemmas that need none are taken from its instance.\<close>

definition ghost_verify :: "(location \<Rightarrow> u8 list option) \<Rightarrow> unit verifier" where
  "ghost_verify K k l d = (case K l of None \<Rightarrow> VUnknown l | Some k' \<Rightarrow> if k' = k then Match () else DifferentKey)"

interpretation gv: key_verifier "ghost_verify K" K for K
  by unfold_locales (auto simp: ghost_verify_def split: option.splits if_splits)

definition cached :: "(location \<Rightarrow> u8 list option) \<Rightarrow> hashtable \<Rightarrow> (u8 list \<Rightarrow> location option) \<Rightarrow> bool" where
  "cached K h M \<longleftrightarrow> represents K h M \<and> (\<forall>e \<in># entries h. K (bucket_location (snd e)) \<noteq> None)"

lemma cached_table: "cached K h M \<Longrightarrow> table_ok h"
  by (simp add: cached_def represents_def)

lemma cached_key: "cached K h M \<Longrightarrow> M k = Some l \<Longrightarrow> K l = Some k"
  using represents_iff [of K h M k l] by (simp add: cached_def)

lemma cached_inj: "cached K h M \<Longrightarrow> M k = Some l \<Longrightarrow> M k' = Some l \<Longrightarrow> k' = k"
  by (metis cached_key option.inject)

lemma cached_entry:
  assumes c: "cached K h M" and e: "e \<in># entries h"
  obtains k where "M k = Some (bucket_location (snd e))"
proof -
  obtain k where "K (bucket_location (snd e)) = Some k" using assms by (auto simp: cached_def)
  then have "bucket_location (snd e) \<in># locs_of K h k" using e by (cases e) (auto simp: in_locs_of_iff)
  moreover have "locs_of K h k = (case M k of None \<Rightarrow> {#} | Some l \<Rightarrow> {#l#})"
    using c by (simp add: cached_def represents_def)
  ultimately have "M k = Some (bucket_location (snd e))" by (auto split: option.splits)
  then show thesis by (rule that)
qed

lemma represents_cong:
  assumes "\<forall>e \<in># entries h. K' (bucket_location (snd e)) = K (bucket_location (snd e))"
  shows "represents K' h M = represents K h M"
proof -
  have "locs_of K' h k = locs_of K h k" for k
    unfolding locs_of_def by (rule filter_mset_cong [OF refl]) (use assms in auto)
  moreover have "placed K' h = placed K h" using assms by (fastforce simp: placed_def)
  ultimately show ?thesis by (simp add: represents_def)
qed

text \<open>What is cached depends on the keys at the cached locations only.\<close>

lemma cached_cong:
  assumes c: "cached K h M" and k: "\<And>k l. M k = Some l \<Longrightarrow> K' l = Some k"
  shows "cached K' h M"
proof -
  have "K' (bucket_location (snd e)) = K (bucket_location (snd e)) \<and> K' (bucket_location (snd e)) \<noteq> None"
    if "e \<in># entries h" for e
  proof -
    from cached_entry [OF c that] obtain j where "M j = Some (bucket_location (snd e))" .
    then show ?thesis using k cached_key [OF c] by simp
  qed
  then show ?thesis using c represents_cong [of h K' K M] by (auto simp: cached_def)
qed

lemma cached_freq_only:
  assumes c: "cached K h M" and f: "freq_only h h'"
  shows "cached K h' M"
proof -
  have "K (bucket_location (snd e)) \<noteq> None" if "e \<in># entries h'" for e
  proof -
    have "entry_key e \<in># image_mset entry_key (entries h)" using that entries_freq_only [OF f] by (metis image_eqI set_image_mset)
    then obtain d where d: "d \<in># entries h" "entry_key d = entry_key e" by auto
    have "K (bucket_location (snd d)) \<noteq> None" using c d(1) by (simp add: cached_def)
    then show ?thesis using d(2) by (simp add: entry_key_def)
  qed
  then show ?thesis using c represents_freq_only [OF _ f] by (simp add: cached_def)
qed

section \<open>Removing and moving\<close>

lemma cached_entriesI:
  assumes "cached K h M" and "represents K h' M'" and "set_mset (entries h') \<subseteq> set_mset (E + entries h)"
    and "\<And>e. e \<in># E \<Longrightarrow> K (bucket_location (snd e)) \<noteq> None"
  shows "cached K h' M'"
  using assms unfolding cached_def by auto

lemma entries_diff: "set_mset (A - B) \<subseteq> set_mset A"
  by (rule set_mset_mono) simp

lemma cached_frequency:
  assumes c: "cached K h M" and k: "K l = Some k"
  shows "get_item_frequency k l h = None \<longleftrightarrow> M k \<noteq> Some l"
proof -
  let ?t = "tag_from_hash (ht_hash h k)"
  have "first_some f bs = None \<longleftrightarrow> (\<forall>b \<in> set bs. f b = None)" for f :: "nat \<Rightarrow> u8 option" and bs
    by (induction bs) (auto split: option.split)
  then have "get_item_frequency k l h = None \<longleftrightarrow>
      (\<forall>b \<in> set (choices h k). \<forall>w \<in> set (bucket_items h b). \<not> is_entry ?t l w)"
    by (auto simp: get_item_frequency_def search_bucket_for_item_freq_def find_None_iff fst_probe is_entry_def)
  also have "\<dots> \<longleftrightarrow> l \<notin> set (key_candidates h k)"
    using choices_bound [OF cached_table [OF c]]
    by (auto simp: in_key_candidates_iff [OF cached_table [OF c]] is_entry_iff in_words_iff)
  also have "\<dots> \<longleftrightarrow> M k \<noteq> Some l" using represents_iff [of K h M k l] c k by (simp add: cached_def)
  finally show ?thesis .
qed

lemma cached_remove:
  assumes c: "cached K h M" and k: "K l = Some k"
  shows "case ht_remove k l h of (True, h') \<Rightarrow> M k = Some l \<and> cached K h' (M(k := None))
    | (False, h') \<Rightarrow> M k \<noteq> Some l \<and> h' = h"
proof -
  have m: "represents K h M" using c by (simp add: cached_def)
  note r = gv.remove_map [OF m k] and s = ht_remove_swaps [OF cached_table [OF c], of k l]
  have "cached K h' (M(k := None))" if t: "ht_remove k l h = (True, h')" for h'
  proof -
    obtain b w where "entries h' = entries h - {#(b, w)#}" using s unfolding t by auto
    then have "set_mset (entries h') \<subseteq> set_mset ({#} + entries h)" by (simp add: entries_diff)
    then show ?thesis using r unfolding t by (intro cached_entriesI [OF c, where E = "{#}"]) simp_all
  qed
  then show ?thesis using r by (cases "ht_remove k l h") (auto split: bool.splits)
qed

lemma cached_move:
  assumes c: "cached K h M" and k: "K old = Some k" "K new = Some k" and new: "entry_location new"
  shows "case cas_location k old new fr h of (True, h') \<Rightarrow> M k = Some old \<and> cached K h' (M(k \<mapsto> new))
    | (False, h') \<Rightarrow> M k \<noteq> Some old \<and> h' = h"
proof -
  have m: "represents K h M" using c by (simp add: cached_def)
  note r = gv.cas_map [OF m k new, of fr] and s = cas_location_swaps [OF cached_table [OF c] new, of k old fr]
  have "cached K h' (M(k \<mapsto> new))" if t: "cas_location k old new fr h = (True, h')" for h'
  proof -
    obtain b w w' where w: "is_entry (tag_from_hash (ht_hash h k)) new w'" "entries h' = add_mset (b, w') (entries h - {#(b, w)#})"
      using s unfolding t by auto
    then have "set_mset (entries h') \<subseteq> set_mset ({#(b, w')#} + entries h)"
      using entries_diff [of "entries h" "{#(b, w)#}"] by auto
    then show ?thesis
      using r w(1) k(2) unfolding t by (intro cached_entriesI [OF c, where E = "{#(b, w')#}"]) (simp_all add: is_entry_iff)
  qed
  then show ?thesis using r by (cases "cas_location k old new fr h") (auto split: bool.splits)
qed

section \<open>Looking up\<close>

lemma cached_candidate: "cached K h M \<Longrightarrow> l \<in> set (key_candidates h k) \<Longrightarrow> K l \<noteq> None"
  using in_key_candidates_iff [of h l k] by (fastforce simp: cached_def represents_def)

text \<open>A hit: its location and pin, and a slot that publishes it and can be swung.\<close>

definition good_slot :: "hashtable \<Rightarrow> u8 list \<Rightarrow> slot_ref \<Rightarrow> location \<Rightarrow> bool" where
  "good_slot h k slot l \<longleftrightarrow> unat (sr_bucket slot) \<in> set (choices h k) \<and> unat (sr_bucket slot) < ht_num_buckets h
     \<and> unat (sr_slot slot) < NUM_ITEM_SLOTS \<and> sr_tag slot = tag_from_hash (ht_hash h k)
     \<and> is_entry (sr_tag slot) l (slot_word h slot)"

lemma cached_lookup:
  assumes c: "cached (seg_key_at n acq rk) h M"
  shows "case M k of
      None \<Rightarrow> lookup_no_freq_update k (segments_verify n acq rk) h = Absent
    | Some l \<Rightarrow> \<exists>hit. lookup_no_freq_update k (segments_verify n acq rk) h = Found hit \<and> hit_location hit = l
        \<and> acq l = Some (hit_pin hit) \<and> good_slot h k (hit_slot hit) l"
proof -
  let ?v = "segments_verify n acq rk" and ?K = "seg_key_at n acq rk"
  have ok: "table_ok h" using c by (rule cached_table)
  have m: "represents ?K h M" using c by (simp add: cached_def)
  note sc = seg.scan_map [OF m, where ?k = k and ?d = False]
    and ss = seg.scan_sound [where ?k = k and ?n = n and ?acquire = acq and ?raw_key = rk and ?d = False and ?u = None
      and ?ls = "key_candidates h k"]
  note ls = lookup_no_freq_update_scan [OF ok, of k ?v]
  show ?thesis
  proof (cases "lookup_no_freq_update k ?v h")
    case (Found hit)
    have mk: "M k = Some (hit_location hit)" using sc ls Found by (simp flip: ls)
    from lookup_hit_slot [OF ok Found] obtain b j where b: "b \<in> set (choices h k)" "j < NUM_ITEM_SLOTS" "b < ht_num_buckets h"
      "unat (sr_bucket (hit_slot hit)) = b" "unat (sr_slot (hit_slot hit)) = j" "sr_tag (hit_slot hit) = tag_from_hash (ht_hash h k)"
      "is_entry (tag_from_hash (ht_hash h k)) (hit_location hit) (slot_word h (hit_slot hit))"
      and v: "?v k (hit_location hit) False = Match (hit_pin hit)" by metis
    have "acq (hit_location hit) = Some (hit_pin hit)"
      using v by (auto simp: segments_verify_def split: prod.splits if_splits option.splits)
    then show ?thesis using mk b Found by (simp add: good_slot_def)
  next
    case Absent
    then show ?thesis using sc by (simp flip: ls)
  next
    case (LUnknown l)
    then have "l \<in> set (key_candidates h k)" "?K l = None" using ss by (simp_all flip: ls)
    then show ?thesis using cached_candidate [OF c] by blast
  qed
qed

text \<open>Counting an access leaves the slot of the hit in place.\<close>

lemma good_slot_freq_only:
  assumes g: "good_slot h k slot l" and ok: "table_ok h" and f: "freq_only h h'"
  shows "good_slot h' k slot l"
proof -
  let ?b = "unat (sr_bucket slot)" and ?i = "unat (sr_slot slot)"
  have "list_all2 freq_up (bucket_items h ?b) (bucket_items h' ?b)" "?i < length (bucket_items h ?b)"
    using g f ok by (simp_all add: good_slot_def freq_only_def table_ok_def)
  then have u: "freq_up (slot_word h slot) (slot_word h' slot)" unfolding slot_word_def by (rule list_all2_nthD)
  then have "is_entry (sr_tag slot) l (slot_word h' slot)"
    using g freq_up_live [OF u] by (simp add: good_slot_def is_entry_iff freq_up_def)
  then show ?thesis using g f choices_freq_only [OF f] by (simp add: good_slot_def freq_only_def)
qed

lemma good_slot_publishes: "good_slot h k slot l \<Longrightarrow> slot_publishes slot l h"
  by (simp add: good_slot_def slot_publishes_def is_entry_iff)

lemma cached_lookup_counted:
  assumes c: "cached (seg_key_at n acq rk) h M"
  obtains h' where "ht_lookup k (segments_verify n acq rk) h = (lookup_no_freq_update k (segments_verify n acq rk) h, h')"
    "freq_only h h'"
  using ht_lookup_result [OF cached_table [OF c], of k "segments_verify n acq rk"] by (metis prod.collapse)

section \<open>Publishing\<close>

lemma cached_swing:
  assumes c: "cached K h M" and g: "good_slot h k slot old" and old: "M k = Some old"
    and new: "entry_location new" "K new = Some k"
  obtains h' where "cas_location_at slot old new pf h = (True, h')" "cached K h' (M(k \<mapsto> new))"
proof -
  let ?b = "unat (sr_bucket slot)" and ?i = "unat (sr_slot slot)" and ?w = "slot_word h slot"
  let ?w' = "bucket_pack (sr_tag slot) (if pf then bucket_freq ?w else 1) new"
  have ok: "table_ok h" using c by (rule cached_table)
  have s: "?w = bucket_items h ?b ! ?i" by (simp add: slot_word_def)
  have b: "?b < ht_num_buckets h" "?i < NUM_ITEM_SLOTS" and e: "is_entry (sr_tag slot) old ?w"
    and t: "sr_tag slot = tag_from_hash (ht_hash h k)" and ch: "?b \<in> set (choices h k)"
    using g unfolding good_slot_def by blast+
  note cas = cas_location_at_entry [OF ok b refl refl s e, where ?new = new and ?pf = pf]
  note nw = new_word_fields [OF new(1) tag_from_hash_less]
  let ?h = "set_word h ?b ?i ?w'"
  have live: "live_word ?w" "bucket_location ?w = old" using e by (simp_all add: is_entry_iff)
  have ent: "entries ?h = (if True then {#(?b, ?w')#} else {#}) + (entries h - {#(?b, ?w)#})"
    and we: "(?b, ?w) \<in># entries h"
    using cas(2) live nw t by (simp_all add: swaps_def in_words_iff)
  have m: "represents K h M" using c by (simp add: cached_def)
  have fld: "choices ?h = choices h" "ht_hash ?h = ht_hash h" by (simp_all add: set_word_def)
  have "represents K ?h (M(k := if True then Some (bucket_location ?w') else None))"
    by (rule represents_change [OF m table_ok_set_word [OF ok b(1)] fld _ we _ _ ch ent])
       (use cached_key [OF c old] live t nw new(2) in simp_all)
  moreover have "\<forall>x \<in># entries ?h. K (bucket_location (snd x)) \<noteq> None"
    using c nw t new(2) unfolding ent by (auto simp: cached_def dest: in_diffD)
  ultimately show thesis using that cas(1) nw t by (simp add: cached_def)
qed

text \<open>Every slot a key can take holds a live entry.\<close>

definition choices_full :: "u8 list \<Rightarrow> hashtable \<Rightarrow> bool" where
  "choices_full k h \<longleftrightarrow> (\<forall>b \<in> set (choices h k). \<forall>w \<in> set (bucket_items h b). live_word w)"

lemma cached_empty_room:
  assumes c: "cached K h (\<lambda>_. None)"
  shows "\<not> choices_full k h"
proof
  assume f: "choices_full k h"
  have ok: "table_ok h" using c by (rule cached_table)
  have "choices h k \<noteq> []" using ok by (simp add: choices_def probe_def bucket_indices_def Let_def table_ok_def)
  then obtain b where b: "b \<in> set (choices h k)" by (meson last_in_set)
  have lt: "b < ht_num_buckets h" by (rule choices_bound [OF ok b])
  then have "bucket_items h b \<noteq> []" using ok by (auto simp: table_ok_def NUM_ITEM_SLOTS_def)
  then obtain w where w: "w \<in> set (bucket_items h b)" by (meson last_in_set)
  then have "(b, w) \<in># entries h" using f b lt by (simp add: choices_full_def in_words_iff)
  from cached_entry [OF c this] show False by simp
qed

lemma cached_insert:
  assumes c: "cached (seg_key_at n acq rk) h M" and none: "M k = None"
    and new: "entry_location l" "seg_key_at n acq rk l = Some k"
  shows "case ht_insert k l (segments_verify n acq rk) h of
      (Inr Created, h') \<Rightarrow> cached (seg_key_at n acq rk) h' (M(k \<mapsto> l))
    | (Inr _, h') \<Rightarrow> False
    | (Inl _, h') \<Rightarrow> h' = h \<and> choices_full k h"
proof -
  let ?v = "segments_verify n acq rk" and ?K = "seg_key_at n acq rk"
  have ok: "table_ok h" using c by (rule cached_table)
  have m: "represents ?K h M" using c by (simp add: cached_def)
  note im = seg.insert_map [OF m new] and oc = ht_insert_cases [OF ok, where ?key = k and ?loc = l and ?verify = ?v, unfolded fst_probe]
  note ss = seg.scan_sound [where ?k = k and ?n = n and ?acquire = acq and ?raw_key = rk and ?d = True and ?u = None
      and ?ls = "key_candidates h k"]
  obtain r h' where r: "ht_insert k l ?v h = (r, h')" by force
  show ?thesis
  proof (cases r)
    case (Inl u)
    then show ?thesis using im oc by (simp add: r choices_full_def)
  next
    case (Inr out)
    show ?thesis
    proof (cases out)
      case Created
      obtain b w w' where sw: "swaps h h' b w w'" "\<not> live_word w" "live_word w'" "bucket_location w' = l"
        using created_swaps [OF ok new(1), of k h'] oc Inr Created by (auto simp: r)
      have "\<forall>x \<in># entries h'. ?K (bucket_location (snd x)) \<noteq> None"
        using sw c new(2) by (simp add: swaps_def cached_def)
      then show ?thesis using im Inr Created by (simp add: r cached_def)
    next
      case (Replaced old)
      then show ?thesis using im none Inr by (simp add: r)
    next
      case (IUnknown u)
      then have "u \<in> set (key_candidates h k)" "?K u = None" using oc im ss Inr by (auto simp: r)
      then show ?thesis using cached_candidate [OF c] by blast
    qed
  qed
qed

end
