(* ===== verification/SegStream.thy ===== *)
theory SegStream
  imports SegCells CacheMap ChainProps
begin

unbundle bit_operations_syntax

text \<open>
  The contents of a segment as a list of items: the item stream tiles the segment up to its write offset, the linked
  items are those the hashtable points at, and the counters of the header count them. A drain unlinks exactly the items of
  its segment.
\<close>

section \<open>Streams\<close>

type_synonym stream = "(nat \<times> cell) list"

fun tiled :: "bool \<Rightarrow> u8 list \<Rightarrow> nat \<Rightarrow> nat \<Rightarrow> stream \<Rightarrow> nat \<Rightarrow> bool" where
  "tiled i m base off [] end' \<longleftrightarrow> off = end'"
| "tiled i m base off ((pos, c) # cs) end' \<longleftrightarrow>
     pos = off \<and> cell_at i m (base + off) c \<and> tiled i m base (off + csize i c) cs end'"

lemma tiled_le: "tiled i m base off cs e \<Longrightarrow> off \<le> e"
  by (induction cs arbitrary: off) (auto, fastforce)

lemma tiled_mem:
  "tiled i m base off cs e \<Longrightarrow> (pos, c) \<in> set cs \<Longrightarrow>
   off \<le> pos \<and> pos + csize i c \<le> e \<and> cell_at i m (base + pos) c"
proof (induction cs arbitrary: off)
  case (Cons d cs)
  show ?case
  proof (cases "d = (pos, c)")
    case True
    then show ?thesis using Cons.prems tiled_le by auto
  next
    case False
    then show ?thesis using Cons by (cases d) fastforce
  qed
qed simp

lemma tiled_append:
  "tiled i m base off (as @ bs) e \<longleftrightarrow> (\<exists>k. tiled i m base off as k \<and> tiled i m base k bs e)"
  by (induction as arbitrary: off) auto

lemma tiled_distinct: "tiled i m base off cs e \<Longrightarrow> distinct (map fst cs)"
proof (induction cs arbitrary: off)
  case (Cons d cs)
  obtain pos c where d: "d = (pos, c)" by force
  have t: "tiled i m base (off + csize i c) cs e" and p: "pos = off" using Cons.prems d by simp_all
  have "pos \<notin> fst ` set cs" using tiled_mem [OF t] csize_pos(1) [of i c] p by fastforce
  then show ?case using Cons.IH [OF t] d by simp
qed simp

lemma tiled_mult: "tiled i m base off cs e \<Longrightarrow> 8 dvd off \<Longrightarrow> (pos, c) \<in> set cs \<Longrightarrow> 8 dvd pos"
proof (induction cs arbitrary: off)
  case (Cons d cs)
  then show ?case using csize_pos(2) [of i "snd d"] by (cases d) (auto simp del: csize_pos)
qed simp

lemma tiled_frame:
  "tiled i m base off cs e \<Longrightarrow> changed_in a n m m' \<Longrightarrow> base + e \<le> a \<or> a + n \<le> base + off \<Longrightarrow> tiled i m' base off cs e"
proof (induction cs arbitrary: off)
  case (Cons d cs)
  obtain pos c where d: "d = (pos, c)" by force
  have t: "tiled i m base (off + csize i c) cs e" using Cons.prems d by simp
  have "off + csize i c \<le> e" using tiled_le [OF t] .
  then show ?case using Cons.IH [OF t] Cons.prems d cell_at_frame [of a n m m' "base + off" i c] by auto
qed simp

text \<open>A change within one item of the stream.\<close>

lemma tiled_update:
  assumes t: "tiled i m base off cs e" and p: "(pos, c) \<in> set cs"
    and c': "changed_in (base + pos) (csize i c) m m'" "cell_at i m' (base + pos) c'" "csize i c' = csize i c"
  shows "tiled i m' base off (map (\<lambda>(q, d). (q, if q = pos then c' else d)) cs) e"
proof -
  obtain as bs where cs: "cs = as @ (pos, c) # bs" using p by (meson split_list)
  have t': "tiled i m base off as pos" "tiled i m base (pos + csize i c) bs e" using t by (auto simp: cs tiled_append)
  have ne: "q \<noteq> pos" if "(q, d) \<in> set as \<or> (q, d) \<in> set bs" for q d
    using that tiled_distinct [OF t] by (force simp: cs)
  have id: "map (\<lambda>(q, d). (q, if q = pos then c' else d)) xs = xs" if "set xs \<subseteq> set as \<union> set bs" for xs
    using that by (intro map_idI) (auto dest!: subsetD, (use ne in blast)+)
  have "tiled i m' base off as pos" using tiled_frame [OF t'(1) c'(1)] by simp
  moreover have "tiled i m' base (pos + csize i c) bs e" using tiled_frame [OF t'(2) c'(1)] by simp
  ultimately show ?thesis using c' by (auto simp: cs tiled_append id)
qed

section \<open>Locations of a stream\<close>

definition loc_of :: "u32 \<Rightarrow> seg_header \<Rightarrow> nat \<Rightarrow> location" where
  "loc_of x h pos = pack_location x (hd_generation h) (of_nat pos)"

definition locs :: "u32 \<Rightarrow> seg_header \<Rightarrow> stream \<Rightarrow> location set" where
  "locs x h cs = loc_of x h ` fst ` set cs"

definition linked :: "(u8 list \<Rightarrow> location option) \<Rightarrow> u32 \<Rightarrow> seg_header \<Rightarrow> stream \<Rightarrow> stream" where
  "linked M x h cs = filter (\<lambda>(pos, c). M (ce_key c) = Some (loc_of x h pos)) cs"

definition sizes :: "bool \<Rightarrow> stream \<Rightarrow> nat" where
  "sizes i cs = sum_list (map (\<lambda>(pos, c). csize i c) cs)"

definition forget :: "location set \<Rightarrow> (u8 list \<Rightarrow> location option) \<Rightarrow> u8 list \<Rightarrow> location option" where
  "forget L M k = (case M k of None \<Rightarrow> None | Some l \<Rightarrow> if l \<in> L then None else Some l)"

lemma in_linked_iff: "(pos, c) \<in> set (linked M x h cs) \<longleftrightarrow> (pos, c) \<in> set cs \<and> M (ce_key c) = Some (loc_of x h pos)"
  by (auto simp: linked_def)

lemma linked_simps [simp]:
  "linked M x h [] = []"
  "linked M x h ((pos, c) # cs) = (if M (ce_key c) = Some (loc_of x h pos) then (pos, c) # linked M x h cs else linked M x h cs)"
  "linked M x h (as @ bs) = linked M x h as @ linked M x h bs"
  by (simp_all add: linked_def)

lemma sizes_simps [simp]: "sizes i [] = 0" "sizes i ((pos, c) # cs) = csize i c + sizes i cs" "sizes i (as @ bs) = sizes i as + sizes i bs"
  by (simp_all add: sizes_def)

lemma locs_simps [simp]: "locs x h [] = {}" "locs x h ((pos, c) # cs) = insert (loc_of x h pos) (locs x h cs)"
  "locs x h (as @ bs) = locs x h as \<union> locs x h bs"
  by (auto simp: locs_def)

lemma in_locs_iff: "l \<in> locs x h cs \<longleftrightarrow> (\<exists>pos c. (pos, c) \<in> set cs \<and> l = loc_of x h pos)"
  by (force simp: locs_def)

lemma forget_None [simp]: "forget L M k = None \<longleftrightarrow> M k = None \<or> (\<exists>l \<in> L. M k = Some l)"
  by (auto simp: forget_def split: option.splits)

lemma forget_Some [simp]: "forget L M k = Some l \<longleftrightarrow> M k = Some l \<and> l \<notin> L"
  by (auto simp: forget_def split: option.splits)

lemma forget_empty [simp]: "forget {} M = M"
  by (auto simp: forget_def fun_eq_iff split: option.splits)

lemma forget_un: "forget L (forget L' M) = forget (L \<union> L') M"
  by (auto simp: forget_def fun_eq_iff split: option.splits)

lemma linked_same_word: "hd_generation h' = hd_generation h \<Longrightarrow> linked M x h' cs = linked M x h cs"
  "hd_generation h' = hd_generation h \<Longrightarrow> locs x h' cs = locs x h cs"
  by (simp_all add: linked_def locs_def loc_of_def)

lemma linked_mono:
  "sizes i (linked M x h cs) \<le> sizes i cs" "8 * length (linked M x h cs) \<le> sizes i (linked M x h cs)"
proof -
  show "sizes i (linked M x h cs) \<le> sizes i cs" by (induction cs) auto
  have "8 * length ds \<le> sizes i ds" for ds :: stream
  proof (induction ds)
    case (Cons d ds)
    have "8 \<le> csize i (snd d)" using csize_pos [of i "snd d"] by (auto elim!: dvdE)
    then show ?case using Cons by (cases d) simp
  qed simp
  then show "8 * length (linked M x h cs) \<le> sizes i (linked M x h cs)" .
qed

lemma tiled_sizes: "tiled i m base off cs e \<Longrightarrow> e = off + sizes i cs"
  by (induction cs arbitrary: off) (auto, fastforce)

section \<open>One item of the drain\<close>

abbreviation seg_bytes :: "segments \<Rightarrow> nat" where
  "seg_bytes s \<equiv> nat (sint (sg_segment_size s))"

definition removed_header :: "i32 \<Rightarrow> seg_header \<Rightarrow> seg_header" where
  "removed_header sz h = incr_dead_item sz (decr_item sz h)"

definition removed_gauges :: "i32 \<Rightarrow> item_gauges \<Rightarrow> item_gauges" where
  "removed_gauges sz g = \<lparr>ig_current = ig_current g - 1, ig_current_bytes = ig_current_bytes g - sint sz,
     ig_dead = ig_dead g + 1, ig_dead_bytes = ig_dead_bytes g + sint sz\<rparr>"

abbreviation removed_store :: "segments \<Rightarrow> u32 \<Rightarrow> i32 \<Rightarrow> seg_header \<Rightarrow> segments" where
  "removed_store s x sz h \<equiv> (put_header s x (removed_header sz h))\<lparr>sg_gauges := removed_gauges sz (sg_gauges s)\<rparr>"

lemma removed_header_fields [simp]:
  "hd_write_offset (removed_header sz h) = hd_write_offset h" "hd_generation (removed_header sz h) = hd_generation h"
  "hd_metadata (removed_header sz h) = hd_metadata h" "hd_ref_count (removed_header sz h) = hd_ref_count h"
  "hd_live_items (removed_header sz h) = hd_live_items h - 1" "hd_live_bytes (removed_header sz h) = hd_live_bytes h - sz"
  "hd_active_writers (removed_header sz h) = hd_active_writers h" "hd_active_removers (removed_header sz h) = hd_active_removers h"
  "hd_ttl (removed_header sz h) = hd_ttl h" "hd_create_at (removed_header sz h) = hd_create_at h"
  by (simp_all add: removed_header_def incr_dead_item_def decr_item_def decr_live_bytes_def decr_live_items_def)

lemma seg_check_magic_cong:
  "sg_data s' = sg_data s \<Longrightarrow> sg_segment_size s' = sg_segment_size s \<Longrightarrow> seg_check_magic i s' x = seg_check_magic i s x"
  by (simp add: seg_check_magic_def byte_offset_def)

lemma max_item_offset_cong:
  "hd_write_offset h' = hd_write_offset h \<Longrightarrow> sg_segment_size s' = sg_segment_size s \<Longrightarrow> max_item_offset i s' h' = max_item_offset i s h"
  by (simp add: max_item_offset_def)

lemma gauges_fields [simp]: "put_header (s\<lparr>sg_gauges := g\<rparr>) a h = (put_header s a h)\<lparr>sg_gauges := g\<rparr>"
  by (rule put_header_gauges)

lemma header_of_same: "header_of s x \<noteq> None \<Longrightarrow> header_of (put_header s x h) x = Some h"
  by (simp add: header_of_put)

lemma remove_item_eval:
  assumes h: "header_of s x = Some h" and o: "pos \<le> max_item_offset i s h"
    and c: "cell_at i (sg_data s) (seg_base s x + pos) c" and mg: "seg_check_magic i s x = Some ()"
    and n: "0 \<le> sint (hd_live_items h - 1)" "0 \<le> sint (hd_live_bytes h - of_nat (csize i c))"
  shows "remove_item_at i s x pos = Some (removed_store s x (of_nat (csize i c)) h)"
proof -
  let ?sz = "of_nat (csize i c) :: i32"
  have b: "byte_offset s x pos = seg_base s x + pos" by (simp add: byte_offset_def)
  have it: "seg_item_at i s x pos = Some (seg_base s x + pos)" using h o b by (simp add: seg_item_at_def)
  have m: "seg_check_magic i s' x = Some ()" if "sg_data s' = sg_data s" "sg_segment_size s' = sg_segment_size s" for s'
    using seg_check_magic_cong [OF that] mg by simp
  have hs: "header_of s x \<noteq> None" using h by simp
  show ?thesis
    using n by (simp add: remove_item_at_def it cell_reads(4) [OF c] Let_def m update_header_def h
        header_of_same [OF hs] removed_header_def removed_gauges_def incr_dead_item_def decr_item_def
        decr_live_bytes_def decr_live_items_def)
qed

lemma i32_eqI: "sint (w :: i32) = k \<Longrightarrow> w = of_int k"
  by auto

lemma i32_dec:
  fixes w :: i32
  assumes "sint w = int n + k" and "0 \<le> k" and "of_nat n = (v :: i32)"
  shows "sint (w - v) = k"
proof -
  have kb: "k < 2 ^ 31" using assms sint_bounds(2) [of w] by linarith
  have "w = of_int (int n + k)" using i32_eqI [OF assms(1)] .
  then have "w - v = of_int k" using assms(3) by simp
  then show ?thesis using kb assms(2) by (simp add: signed_of_int signed_take_bit_int_eq_self)
qed

lemma clear_item_eval:
  assumes h: "header_of s x = Some h" and o: "pos \<le> max_item_offset i s h"
    and c: "cell_at i (sg_data s) (seg_base s x + pos) c" and mg: "seg_check_magic i s x = Some ()"
    and K: "K (loc_of x h pos) = Some (ce_key c)" and ca: "cached K ht M"
    and n: "M (ce_key c) = Some (loc_of x h pos) \<Longrightarrow> 0 \<le> sint (hd_live_items h - 1)"
      "M (ce_key c) = Some (loc_of x h pos) \<Longrightarrow> 0 \<le> sint (hd_live_bytes h - of_nat (csize i c))"
  shows "if M (ce_key c) = Some (loc_of x h pos)
    then \<exists>ht'. clear_item i x pos (seg_base s x + pos) (s, ht) = Some (removed_store s x (of_nat (csize i c)) h, ht')
      \<and> cached K ht' (M(ce_key c := None))
    else clear_item i x pos (seg_base s x + pos) (s, ht) = Some (s, ht)"
proof -
  note f = cached_frequency [OF ca K] and r = cached_remove [OF ca K]
  have e: "clear_item i x pos (seg_base s x + pos) (s, ht) =
      (if get_item_frequency (ce_key c) (loc_of x h pos) ht \<noteq> None then (case ht_remove (ce_key c) (loc_of x h pos) ht of
         (True, ht) \<Rightarrow> do { s \<leftarrow> remove_item_at i s x pos; Some (s, ht) }
       | (False, ht) \<Rightarrow> Some (s, ht)) else Some (s, ht))"
    by (simp add: clear_item_def cell_reads [OF c] h loc_of_def)
  show ?thesis
    using f r n remove_item_eval [OF h o c mg] unfolding e
    by (cases "ht_remove (ce_key c) (loc_of x h pos) ht") (auto split: bool.splits)
qed

section \<open>The drain loop\<close>

text \<open>The counters of a header that counts the linked items over a base, and the header with these counts gone.\<close>

definition counts :: "bool \<Rightarrow> int \<Rightarrow> stream \<Rightarrow> seg_header \<Rightarrow> bool" where
  "counts i base cs h \<longleftrightarrow> sint (hd_live_items h) = int (length cs) \<and> sint (hd_live_bytes h) = int (sizes i cs) + base"

definition cleared :: "int \<Rightarrow> seg_header \<Rightarrow> seg_header \<Rightarrow> bool" where
  "cleared base h h' \<longleftrightarrow> (\<exists>d b. h' = h\<lparr>hd_live_items := 0, hd_live_bytes := of_int base, hd_dead_items := d, hd_dead_bytes := b\<rparr>)"

lemma counts_removed:
  assumes c: "counts i base ((pos, c) # cs) h" and b: "0 \<le> base"
  shows "counts i base cs (removed_header (of_nat (csize i c)) h)"
    and "0 \<le> sint (hd_live_items h - 1)" "0 \<le> sint (hd_live_bytes h - of_nat (csize i c))"
proof -
  have "sint (hd_live_items h) = int 1 + int (length cs)" "sint (hd_live_bytes h) = int (csize i c) + (int (sizes i cs) + base)"
    using c by (simp_all add: counts_def)
  from i32_dec [OF this(1)] i32_dec [OF this(2)] b
  have "sint (hd_live_items h - 1) = int (length cs)" "sint (hd_live_bytes h - of_nat (csize i c)) = int (sizes i cs) + base"
    by simp_all
  then show "counts i base cs (removed_header (of_nat (csize i c)) h)"
    "0 \<le> sint (hd_live_items h - 1)" "0 \<le> sint (hd_live_bytes h - of_nat (csize i c))"
    using b by (simp_all add: counts_def)
qed

lemma cleared_done: "counts i base [] h \<Longrightarrow> cleared base h h"
  using i32_eqI [of "hd_live_items h" 0] i32_eqI [of "hd_live_bytes h" base]
  by (cases h) (simp add: counts_def cleared_def)

lemma cleared_removed: "cleared base (removed_header sz h) h' \<Longrightarrow> cleared base h h'"
  by (cases h) (auto simp: cleared_def removed_header_def incr_dead_item_def decr_item_def decr_live_bytes_def decr_live_items_def)

lemma forget_skip:
  assumes "M (ce_key c) \<noteq> Some l" and u: "\<And>k. M k = Some l \<Longrightarrow> k = ce_key c"
  shows "forget (insert l L) M = forget L M"
proof -
  have "M k \<noteq> Some l" for k using assms(1) u [of k] by auto
  then show ?thesis by (auto simp: forget_def fun_eq_iff split: option.split)
qed

lemma forget_removed:
  assumes "M k = Some l" and u: "\<And>j. M j = Some l \<Longrightarrow> j = k"
  shows "forget (insert l L) M = forget L (M(k := None))"
proof
  fix j
  show "forget (insert l L) M j = forget L (M(k := None)) j"
    using assms(1) u [of j] by (cases "j = k") (auto simp: forget_def split: option.split)
qed

lemma linked_removed:
  assumes "M k = Some l" and "\<And>pos c. (pos, c) \<in> set cs \<Longrightarrow> loc_of x h pos \<noteq> l"
  shows "linked (M(k := None)) x h cs = linked M x h cs"
  unfolding linked_def by (rule filter_cong [OF refl]) (use assms in auto)

lemma loc_of_inj:
  assumes "loc_of x h pos = loc_of x h' pos'" and "8 dvd pos" "8 dvd pos'" "pos < MAX_SEGMENT_BYTES" "pos' < MAX_SEGMENT_BYTES"
  shows "pos = pos'"
proof -
  have u: "unat (of_nat n :: u64) = n" if "n < MAX_SEGMENT_BYTES" for n
    using that by (simp add: unat_of_nat MAX_SEGMENT_BYTES_eq)
  show ?thesis
    using arg_cong [OF assms(1), of unpack_location] assms(2-) u by (simp add: loc_of_def unpack_pack_location)
qed

lemma tiled_locs_distinct:
  assumes t: "tiled i m base off ((pos, c) # cs) e" and o: "8 dvd off" "e \<le> MAX_SEGMENT_BYTES" and d: "(pos', c') \<in> set cs"
  shows "loc_of x h pos' \<noteq> loc_of x h pos"
proof
  assume eq: "loc_of x h pos' = loc_of x h pos"
  have p: "pos = off" and t': "tiled i m base (off + csize i c) cs e" using t by simp_all
  note mem = tiled_mem [OF t' d] and sz = csize_pos [of i c] and sz' = csize_pos [of i c']
  have "8 dvd off + csize i c" using o(1) sz(2) by simp
  from tiled_mult [OF t' this d] have "8 dvd pos'" .
  then have "pos' = pos" using loc_of_inj [OF eq] o mem p sz(1) sz'(1) by simp
  then show False using mem p sz(1) by simp
qed

lemma clear_loop_drains:
  assumes "tiled i (sg_data s) (seg_base s x) off cs e" and "8 dvd off" and "e \<le> MAX_SEGMENT_BYTES"
    and "header_of s x = Some h" and "mx = max_item_offset i s h" and "mx + ITEM_HDR_SIZE i = e"
    and "\<And>pos c. (pos, c) \<in> set cs \<Longrightarrow> K (loc_of x h pos) = Some (ce_key c)" and "cached K ht M"
    and "counts i base (linked M x h cs) h" and "0 \<le> base" and "seg_check_magic i s x = Some ()"
  shows "\<exists>h' g ht'. clear_loop i x mx off (s, ht) = Some ((put_header s x h')\<lparr>sg_gauges := g\<rparr>, ht')
    \<and> cached K ht' (forget (locs x h cs) M) \<and> cleared base h h'"
  using assms
proof (induction cs arbitrary: off s h ht M)
  case Nil
  have "\<not> off \<le> mx" using Nil.prems(1,6) by (simp add: ITEM_HDR_SIZE_def split: if_splits)
  moreover have "cleared base h h" using Nil.prems(9) by (intro cleared_done [of i]) simp
  moreover have "s = (put_header s x h)\<lparr>sg_gauges := sg_gauges s\<rparr>" using put_header_same [OF Nil.prems(4)] by simp
  ultimately show ?case using Nil.prems(8) by (subst clear_loop.simps) (metis forget_empty locs_simps(1))
next
  case (Cons d cs)
  obtain c where d: "d = (off, c)" using Cons.prems(1) by (cases d) simp
  let ?l = "loc_of x h off" and ?sz = "of_nat (csize i c) :: i32"
  have t: "cell_at i (sg_data s) (seg_base s x + off) c" "tiled i (sg_data s) (seg_base s x) (off + csize i c) cs e"
    using Cons.prems(1) d by auto
  have off: "off + csize i c \<le> e" using tiled_le [OF t(2)] .
  then have le: "off \<le> mx" "off \<le> max_item_offset i s h" using Cons.prems(5,6) csize_pos(1) [of i c] by simp_all
  have K: "K ?l = Some (ce_key c)" using Cons.prems(7) d by simp
  note ca = Cons.prems(8)
  have uniq: "k = ce_key c" if "M k = Some ?l" for k using cached_key [OF ca that] K by simp
  have it: "seg_item_at i s x off = Some (seg_base s x + off)"
    using Cons.prems(4) le by (simp add: seg_item_at_def byte_offset_def)
  note rd = cell_reads [OF t(1)]
  have dv: "8 dvd off + csize i c" using Cons.prems(2) csize_pos(2) by simp
  have step: "clear_loop i x mx off (s, ht) = (if length (ce_key c) = 0 \<and> hd_live_items h = 0 then Some (s, ht)
      else do {
        sht \<leftarrow> clear_item i x off (seg_base s x + off) (s, ht);
        sz \<leftarrow> raw_size i (sg_data (fst sht)) (seg_base s x + off);
        clear_loop i x mx (off + sz) sht })"
    using le(1) by (subst clear_loop.simps) (simp add: it rd Cons.prems(4))
  show ?case
  proof (cases "length (ce_key c) = 0 \<and> hd_live_items h = 0")
    case True
    then have n: "linked M x h (d # cs) = []" using Cons.prems(9) by (simp add: counts_def)
    have "M k \<noteq> Some l" if "l \<in> locs x h (d # cs)" for k l
    proof
      assume a: "M k = Some l"
      from that obtain pos c where pc: "(pos, c) \<in> set (d # cs)" "l = loc_of x h pos" unfolding in_locs_iff by blast
      then have "k = ce_key c" using cached_key [OF ca a] Cons.prems(7) by auto
      then have "(pos, c) \<in> set (linked M x h (d # cs))" using pc a unfolding in_linked_iff by simp
      then show False using n by simp
    qed
    then have f: "forget (locs x h (d # cs)) M = M" by (auto simp: forget_def fun_eq_iff split: option.splits)
    have "s = (put_header s x h)\<lparr>sg_gauges := sg_gauges s\<rparr>" using put_header_same [OF Cons.prems(4)] by simp
    moreover have "cleared base h h" using Cons.prems(9) n by (intro cleared_done [of i]) simp
    ultimately show ?thesis using ca True step f by metis
  next
    case False
    note step = step [unfolded if_not_P [OF False]]
    note ev = clear_item_eval [OF Cons.prems(4) le(2) t(1) Cons.prems(11) K ca]
    show ?thesis
    proof (cases "M (ce_key c) = Some ?l")
      case True
      have cn: "counts i base ((off, c) # linked M x h cs) h" using Cons.prems(9) True d by simp
      note cr = counts_removed [OF cn Cons.prems(10)]
      obtain ht1 where ci: "clear_item i x off (seg_base s x + off) (s, ht) = Some (removed_store s x ?sz h, ht1)"
        and ca1: "cached K ht1 (M(ce_key c := None))" using ev cr True by auto
      let ?s = "removed_store s x ?sz h" and ?h = "removed_header ?sz h" and ?M = "M(ce_key c := None)"
      have hs: "header_of s x \<noteq> None" using Cons.prems(4) by simp
      have far: "loc_of x h p' \<noteq> ?l" if "(p', c') \<in> set cs" for p' c'
        using tiled_locs_distinct [OF Cons.prems(1) [unfolded d] Cons.prems(2,3) that] .
      have "linked ?M x h cs = linked M x h cs" by (rule linked_removed [where M = M and k = "ce_key c", OF True]) (rule far)
      then have same: "linked ?M x ?h cs = linked M x h cs" "locs x ?h cs = locs x h cs"
        using linked_same_word [of ?h h] by simp_all
      have lo: "loc_of x ?h = loc_of x h" by (simp add: loc_of_def fun_eq_iff)
      have "\<exists>h' g ht'. clear_loop i x mx (off + csize i c) (?s, ht1) = Some ((put_header ?s x h')\<lparr>sg_gauges := g\<rparr>, ht')
          \<and> cached K ht' (forget (locs x ?h cs) ?M) \<and> cleared base ?h h'"
      proof (rule Cons.IH [OF _ dv Cons.prems(3) _ _ Cons.prems(6) _ ca1 _ Cons.prems(10)])
        show "tiled i (sg_data ?s) (seg_base ?s x) (off + csize i c) cs e" using t(2) by (simp add: byte_offset_def)
        show "header_of ?s x = Some ?h" using header_of_same [OF hs] by simp
        show "mx = max_item_offset i ?s ?h" using Cons.prems(5) by (simp add: max_item_offset_def)
        show "K (loc_of x ?h p) = Some (ce_key c')" if "(p, c') \<in> set cs" for p c' using Cons.prems(7) that unfolding lo by simp
        show "counts i base (linked ?M x ?h cs) ?h" unfolding same by (rule cr)
        show "seg_check_magic i ?s x = Some ()" using Cons.prems(11) seg_check_magic_cong [of ?s s] by simp
      qed
      then obtain h' g ht' where r: "clear_loop i x mx (off + csize i c) (?s, ht1) = Some ((put_header ?s x h')\<lparr>sg_gauges := g\<rparr>, ht')"
        "cached K ht' (forget (locs x h cs) ?M)" "cleared base ?h h'" unfolding same by blast
      have "raw_size i (sg_data ?s) (seg_base s x + off) = Some (csize i c)" using rd(4) by simp
      then have "clear_loop i x mx off (s, ht) = Some ((put_header s x h')\<lparr>sg_gauges := g\<rparr>, ht')"
        using step ci r(1) by (simp add: put_header_gauges)
      moreover have "forget (locs x h (d # cs)) M = forget (locs x h cs) ?M" unfolding d using forget_removed [where M = M and k = "ce_key c", OF True uniq] by simp
      ultimately show ?thesis using r(2) cleared_removed [OF r(3)] by metis
    next
      case F: False
      have ci: "clear_item i x off (seg_base s x + off) (s, ht) = Some (s, ht)" using ev F by simp
      have cn: "counts i base (linked M x h cs) h" using Cons.prems(9) F d by simp
      have "\<exists>h' g ht'. clear_loop i x mx (off + csize i c) (s, ht) = Some ((put_header s x h')\<lparr>sg_gauges := g\<rparr>, ht')
          \<and> cached K ht' (forget (locs x h cs) M) \<and> cleared base h h'"
        by (rule Cons.IH [OF t(2) dv Cons.prems(3,4,5,6) _ ca cn Cons.prems(10,11)]) (use Cons.prems(7) in simp)
      moreover have "forget (locs x h (d # cs)) M = forget (locs x h cs) M" unfolding d using forget_skip [where M = M and c = c, OF F uniq] by simp
      ultimately show ?thesis using step ci rd(4) by simp
    qed
  qed
qed

end
