(* ===== verification/CacheInv.thy ===== *)
theory CacheInv
  imports SegStream Segcache
begin

unbundle bit_operations_syntax

text \<open>
  The invariant of the composed cache. Its abstract content is a ghost record: the item stream of each segment, the map
  from keys to locations the hashtable stands for, and the chain of each TTL bucket; an operation in progress also has
  items counted but not linked, and at most one writer and one remover pin. Reader pins are not restricted.
\<close>

section \<open>The ghost state\<close>

record ghost =
  g_items :: "u32 \<Rightarrow> stream"
  g_map :: "u8 list \<Rightarrow> location option"
  g_chains :: "nat \<Rightarrow> u32 list"
  g_extra :: "location set"
  g_writer :: "u32 option"
  g_remover :: "u32 option"

definition readable_header :: "seg_header \<Rightarrow> bool" where
  "readable_header h \<longleftrightarrow> (case header_state h of None \<Rightarrow> False | Some st \<Rightarrow> is_readable st)"

text \<open>The key of the item at a location.\<close>

definition key_in :: "segments \<Rightarrow> (u32 \<Rightarrow> stream) \<Rightarrow> location \<Rightarrow> u8 list option" where
  "key_in s G l = (let (x, pos) = unpack_location l in
     case header_of s x of None \<Rightarrow> None
     | Some h \<Rightarrow> if readable_header h \<and> l = loc_of x h pos then map_option ce_key (map_of (G x) pos) else None)"

definition counted :: "ghost \<Rightarrow> u32 \<Rightarrow> seg_header \<Rightarrow> stream" where
  "counted g x h = filter (\<lambda>(pos, c). g_map g (ce_key c) = Some (loc_of x h pos) \<or> loc_of x h pos \<in> g_extra g) (g_items g x)"

definition chained :: "ttl_bucket list \<Rightarrow> ghost \<Rightarrow> u32 \<Rightarrow> bool" where
  "chained bs g x \<longleftrightarrow> (\<exists>i < length bs. x \<in> set (g_chains g i))"

definition item_start_ok :: "bool \<Rightarrow> segments \<Rightarrow> u32 \<Rightarrow> bool" where
  "item_start_ok i s x \<longleftrightarrow> (let a = seg_base s x + item_start i in
     raw_klen i (sg_data s) a = Some 0 \<or> (\<exists>c. cell_at i (sg_data s) a c \<and> item_start i + csize i c \<le> seg_bytes s))"

section \<open>The invariant\<close>

definition shape :: "bool \<Rightarrow> segments \<Rightarrow> bool" where
  "shape i s \<longleftrightarrow> store_ok i s \<and> length (sg_data s) = length (sg_headers s) * seg_bytes s \<and> 8 dvd seg_bytes s
     \<and> seg_bytes s \<le> MAX_SEGMENT_BYTES \<and> item_start i + ITEM_HDR_SIZE i \<le> seg_bytes s \<and> unat (sg_cap s) = length (sg_headers s)
     \<and> unat (sg_spare_count s) = length (sg_spare_queue s) \<and> length (sg_spare_queue s) \<le> unat (sg_spare_capacity s)
     \<and> (\<forall>x h. header_of s x = Some h \<longrightarrow> hd_id h = x \<and> seg_check_magic i s x = Some () \<and> item_start_ok i s x)"

definition head_ok :: "bool \<Rightarrow> segments \<Rightarrow> ttl_bucket list \<Rightarrow> ghost \<Rightarrow> u32 \<Rightarrow> seg_header \<Rightarrow> bool" where
  "head_ok i s bs g x h \<longleftrightarrow>
     (\<exists>m. holds h m \<and> md_state m \<in> {Free, Live, Sealed, AwaitingRelease}
        \<and> (md_state m = AwaitingRelease \<longrightarrow> hd_ref_count h \<noteq> 0) \<and> (is_readable (md_state m) \<longleftrightarrow> chained bs g x))
     \<and> hd_active_writers h = (if g_writer g = Some x then 1 else 0)
     \<and> hd_active_removers h = (if g_remover g = Some x then 1 else 0)
     \<and> (if chained bs g x
        then tiled i (sg_data s) (seg_base s x) (item_start i) (g_items g x) (nat (sint (hd_write_offset h)))
          \<and> counts i (sint (initial_offset i)) (counted g x h) h
        else g_items g x = [])"

definition chains_ok :: "segments \<Rightarrow> ttl_bucket list \<Rightarrow> ghost \<Rightarrow> bool" where
  "chains_ok s bs g \<longleftrightarrow> length bs = length bucket_ttls
     \<and> (\<forall>i < length bs. tb_ttl (bs ! i) = of_nat (bucket_ttls ! i) \<and> chain s (bs ! i) (g_chains g i)
          \<and> (g_chains g i \<noteq> [] \<longrightarrow> get_bucket_index (tb_ttl (bs ! i)) = i)
          \<and> (\<forall>x h. x \<in> set (g_chains g i) \<longrightarrow> header_of s x = Some h \<longrightarrow> hd_ttl h = tb_ttl (bs ! i)))
     \<and> (\<forall>i < length bs. \<forall>j < length bs. i \<noteq> j \<longrightarrow> set (g_chains g i) \<inter> set (g_chains g j) = {})"

definition cinv :: "bool \<Rightarrow> segments \<Rightarrow> hashtable \<Rightarrow> ttl_bucket list \<Rightarrow> ghost \<Rightarrow> bool" where
  "cinv i s ht bs g \<longleftrightarrow> shape i s \<and> (\<forall>x h. header_of s x = Some h \<longrightarrow> head_ok i s bs g x h)
     \<and> cached (key_in s (g_items g)) ht (g_map g) \<and> chains_ok s bs g"

definition quiescent :: "ghost \<Rightarrow> bool" where
  "quiescent g \<longleftrightarrow> g_extra g = {} \<and> g_writer g = None \<and> g_remover g = None"

definition cache_inv :: "env \<Rightarrow> segcache \<Rightarrow> ghost \<Rightarrow> bool" where
  "cache_inv e c g \<longleftrightarrow> cinv (e_integrity e) (sc_segments c) (sc_hashtable c) (tt_buckets (sc_ttl_buckets c)) g"

section \<open>Access to the parts\<close>

lemma cinv_parts:
  assumes "cinv i s ht bs g"
  shows "shape i s" "store_ok i s" "cached (key_in s (g_items g)) ht (g_map g)" "chains_ok s bs g"
    and "header_of s x = Some h \<Longrightarrow> head_ok i s bs g x h"
  using assms by (simp_all add: cinv_def shape_def)

lemma shape_parts:
  assumes "shape i s"
  shows "store_ok i s" "length (sg_data s) = length (sg_headers s) * seg_bytes s" "8 dvd seg_bytes s"
    "seg_bytes s \<le> MAX_SEGMENT_BYTES" "item_start i + ITEM_HDR_SIZE i \<le> seg_bytes s" "unat (sg_cap s) = length (sg_headers s)"
  using assms by (simp_all add: shape_def)

lemma item_start_eq: "item_start i = nat (sint (initial_offset i))" "8 dvd item_start i" "item_start i < ITEM_HDR_SIZE i"
  by (simp_all add: item_start_def initial_offset_def ITEM_HDR_SIZE_def)

lemma shape_header:
  assumes "shape i s" and "header_of s x = Some h"
  shows "hd_id h = x" "seg_check_magic i s x = Some ()" "item_start_ok i s x" "x \<noteq> 0" "x \<le> sg_cap s"
    "unat x \<le> length (sg_headers s)" "length (sg_headers s) \<le> 262142" "0 \<le> sint (hd_write_offset h)"
    "sint (hd_write_offset h) \<le> sint (sg_segment_size s)" "x \<le> MAX_SEGMENTS"
proof -
  show "hd_id h = x" "seg_check_magic i s x = Some ()" "item_start_ok i s x" using assms by (simp_all add: shape_def)
  show x: "x \<noteq> 0" "unat x \<le> length (sg_headers s)" using assms(2) by (auto simp: header_of_def split: if_splits)
  show n: "length (sg_headers s) \<le> 262142" using assms(1) by (simp add: shape_def store_ok_def)
  show "x \<le> sg_cap s" using x(2) shape_parts(6) [OF assms(1)] by (simp add: word_le_nat_alt)
  show "x \<le> MAX_SEGMENTS" using x(2) n by (simp add: word_le_nat_alt MAX_SEGMENTS_eq)
  show "0 \<le> sint (hd_write_offset h)" "sint (hd_write_offset h) \<le> sint (sg_segment_size s)"
    using store_header [OF shape_parts(1) [OF assms(1)] assms(2)] by (simp_all add: header_good_def)
qed

text \<open>A segment in a chain, and the items in it.\<close>

lemma chained_header:
  assumes c: "cinv i s ht bs g" and x: "chained bs g x"
  obtains h m where "header_of s x = Some h" "holds h m" "md_state m \<in> {Live, Sealed}" "readable_header h"
    "tiled i (sg_data s) (seg_base s x) (item_start i) (g_items g x) (nat (sint (hd_write_offset h)))"
    "counts i (sint (initial_offset i)) (counted g x h) h"
proof -
  obtain j where j: "j < length bs" "x \<in> set (g_chains g j)" using x by (auto simp: chained_def)
  have "chain s (bs ! j) (g_chains g j)" using cinv_parts(4) [OF c] j(1) by (simp add: chains_ok_def)
  then have cf: "chain_from s None (g_chains g j)" by (simp add: chain_def)
  have "header_of s y \<noteq> None" if "chain_from s p ys" "y \<in> set ys" for y p ys
    using that by (induction ys arbitrary: p) (auto simp: node_def)
  from this [OF cf j(2)] obtain h where h: "header_of s x = Some h" by blast
  then have ok: "head_ok i s bs g x h" using c by (simp add: cinv_def)
  then obtain m where m: "holds h m" "md_state m \<in> {Free, Live, Sealed, AwaitingRelease}" "is_readable (md_state m)"
    using x by (auto simp: head_ok_def)
  then have "md_state m \<in> {Live, Sealed}" "readable_header h" by (auto simp: readable_header_def holds_state)
  then show thesis using that h m ok x by (simp add: head_ok_def)
qed

lemma readable_chained:
  assumes "cinv i s ht bs g" and "header_of s x = Some h" and "readable_header h"
  shows "chained bs g x"
proof -
  have "head_ok i s bs g x h" using assms by (simp add: cinv_def)
  then show ?thesis using assms(3) by (auto simp: head_ok_def readable_header_def holds_state)
qed

lemma in_bounds:
  assumes c: "cinv i s ht bs g" and h: "header_of s x = Some h" and p: "(pos, d) \<in> set (g_items g x)"
  shows "chained bs g x" "8 dvd pos" "item_start i \<le> pos" "pos + csize i d \<le> nat (sint (hd_write_offset h))"
    "pos + csize i d \<le> seg_bytes s" "pos < MAX_SEGMENT_BYTES" "cell_at i (sg_data s) (seg_base s x + pos) d"
    "distinct (map fst (g_items g x))" "unpack_location (loc_of x h pos) = (x, pos)" "readable_header h"
    "pos \<le> max_item_offset i s h"
proof -
  have ok: "head_ok i s bs g x h" using c h by (simp add: cinv_def)
  then show x: "chained bs g x" using p by (auto simp: head_ok_def split: if_splits)
  from chained_header [OF c x] h show "readable_header h" by (metis option.inject)
  have t: "tiled i (sg_data s) (seg_base s x) (item_start i) (g_items g x) (nat (sint (hd_write_offset h)))"
    using ok x by (simp add: head_ok_def)
  note mem = tiled_mem [OF t p]
  show "item_start i \<le> pos" "cell_at i (sg_data s) (seg_base s x + pos) d" using mem by simp_all
  show w: "pos + csize i d \<le> nat (sint (hd_write_offset h))" using mem by simp
  show "distinct (map fst (g_items g x))" by (rule tiled_distinct [OF t])
  show d: "8 dvd pos" using tiled_mult [OF t item_start_eq(2) p] .
  note sh = shape_header [OF cinv_parts(1) [OF c] h]
  show b: "pos + csize i d \<le> seg_bytes s" using w sh(9) by linarith
  note cp = csize_pos [of i d]
  show mx: "pos < MAX_SEGMENT_BYTES" using b cp shape_parts(4) [OF cinv_parts(1) [OF c]] by linarith
  have "unat (of_nat pos :: u64) = pos" using mx by (simp add: unat_of_nat MAX_SEGMENT_BYTES_eq)
  then show "unpack_location (loc_of x h pos) = (x, pos)" using mx d by (simp add: loc_of_def unpack_pack_location)
  have "int (ITEM_HDR_SIZE i) \<le> sint (hd_write_offset h)" using w cp(1) by linarith
  moreover have "pos \<le> min (nat (sint (hd_write_offset h))) (seg_bytes s) - ITEM_HDR_SIZE i" using w b cp(1) by linarith
  ultimately show "pos \<le> max_item_offset i s h" by (simp add: max_item_offset_def)
qed

lemma key_in_item:
  assumes c: "cinv i s ht bs g" and h: "header_of s x = Some h" and p: "(pos, d) \<in> set (g_items g x)"
  shows "key_in s (g_items g) (loc_of x h pos) = Some (ce_key d)"
proof -
  note b = in_bounds [OF c h p]
  have "map_of (g_items g x) pos = Some d" using b(8) p by simp
  then show ?thesis using b(9,10) h by (simp add: key_in_def)
qed

lemma key_in_Some:
  assumes "key_in s G l = Some k"
  obtains x h pos d where "header_of s x = Some h" "readable_header h" "l = loc_of x h pos" "(pos, d) \<in> set (G x)" "ce_key d = k"
    "unpack_location l = (x, pos)"
proof -
  obtain x pos where u: "unpack_location l = (x, pos)" by force
  then obtain h d where "header_of s x = Some h" "readable_header h" "l = loc_of x h pos" "map_of (G x) pos = Some d" "ce_key d = k"
    using assms by (auto simp: key_in_def split: option.splits if_splits)
  then show thesis using that u map_of_SomeD by fast
qed

text \<open>An entry of the map and the item it leads to.\<close>

lemma entry_item:
  assumes c: "cinv i s ht bs g" and m: "g_map g k = Some l"
  obtains x h pos d where "header_of s x = Some h" "readable_header h" "l = loc_of x h pos" "(pos, d) \<in> set (g_items g x)"
    "ce_key d = k" "unpack_location l = (x, pos)"
  using key_in_Some [OF cached_key [OF cinv_parts(3) [OF c] m]] by metis

section \<open>What the cache holds\<close>

definition item_of :: "ghost \<Rightarrow> location \<Rightarrow> (u32 \<times> cell) option" where
  "item_of g l = (let (x, pos) = unpack_location l in map_option (Pair x) (map_of (g_items g x) pos))"

definition content :: "ghost \<Rightarrow> u8 list \<Rightarrow> (u32 \<times> cell) option" where
  "content g k = Option.bind (g_map g k) (item_of g)"

text \<open>The ranking of the eviction state names segments of a store with \<open>n\<close> of them.\<close>

definition ranking_ok :: "nat \<Rightarrow> eviction \<Rightarrow> bool" where
  "ranking_ok n ev \<longleftrightarrow> n \<noteq> 0 \<and> length (ev_ranked ev) = n \<and> (\<forall>x. Some x \<in> set (ev_ranked ev) \<longrightarrow> x \<noteq> 0 \<and> unat x \<le> n)"

text \<open>The cache holds the items \<open>A\<close>, each with the segment it lies in.\<close>

definition models :: "env \<Rightarrow> segcache \<Rightarrow> (u8 list \<Rightarrow> (u32 \<times> cell) option) \<Rightarrow> bool" where
  "models e c A \<longleftrightarrow> (\<exists>g. cache_inv e c g \<and> quiescent g \<and> A = content g)
     \<and> ranking_ok (length (sg_headers (sc_segments c))) (sc_evict c)"

text \<open>What no operation changes: the size of a segment and the policy.\<close>

definition same_config :: "segcache \<Rightarrow> segcache \<Rightarrow> bool" where
  "same_config c c' \<longleftrightarrow> sg_segment_size (sc_segments c') = sg_segment_size (sc_segments c)
     \<and> ev_policy (sc_evict c') = ev_policy (sc_evict c)"

lemma item_of_loc:
  assumes "cinv i s ht bs g" and "header_of s x = Some h" and "(pos, d) \<in> set (g_items g x)"
  shows "item_of g (loc_of x h pos) = Some (x, d)"
  using in_bounds(8,9) [OF assms] assms(3) by (simp add: item_of_def)

lemma content_None:
  assumes c: "cinv i s ht bs g"
  shows "content g k = None \<longleftrightarrow> g_map g k = None"
proof (cases "g_map g k")
  case (Some l)
  from entry_item [OF c Some] obtain x h pos d where "header_of s x = Some h" "l = loc_of x h pos" "(pos, d) \<in> set (g_items g x)"
    by metis
  then show ?thesis using item_of_loc [OF c] Some by (simp add: content_def)
qed (simp add: content_def)

lemma content_Some:
  assumes c: "cinv i s ht bs g" and k: "content g k = Some (x, d)"
  obtains h pos where "header_of s x = Some h" "readable_header h" "g_map g k = Some (loc_of x h pos)"
    "(pos, d) \<in> set (g_items g x)" "ce_key d = k" "unpack_location (loc_of x h pos) = (x, pos)"
proof -
  obtain l where l: "g_map g k = Some l" using k by (auto simp: content_def split: Option.bind_splits)
  from entry_item [OF c l] obtain y h pos d' where h: "header_of s y = Some h" "readable_header h" "l = loc_of y h pos"
    "(pos, d') \<in> set (g_items g y)" "ce_key d' = k" "unpack_location l = (y, pos)" by metis
  then have "content g k = Some (y, d')" using l item_of_loc [OF c h(1,4)] by (simp add: content_def)
  then show thesis using that h l k by simp
qed

end
