(* ===== verification/CacheGet.thy ===== *)
theory CacheGet
  imports CacheInv
begin

unbundle bit_operations_syntax

text \<open>
  Reading through the composed cache: a lookup answers from what the cache holds, an item handed out pins its segment and
  reads as it was written, and dropping it gives the pin back.
\<close>

section \<open>A change of one header\<close>

text \<open>What a header has in common with another one of the same incarnation and extent.\<close>

definition same_life :: "seg_header \<Rightarrow> seg_header \<Rightarrow> bool" where
  "same_life h h' \<longleftrightarrow> hd_id h' = hd_id h \<and> hd_metadata h' = hd_metadata h \<and> hd_generation h' = hd_generation h
     \<and> hd_write_offset h' = hd_write_offset h \<and> hd_ttl h' = hd_ttl h \<and> hd_create_at h' = hd_create_at h"

lemma same_life_simps:
  assumes "same_life h h'"
  shows "loc_of x h' pos = loc_of x h pos" "readable_header h' = readable_header h" "holds h' m = holds h m"
    "counted g x h' = counted g x h"
  using assms by (simp_all add: same_life_def loc_of_def readable_header_def header_state_def header_metadata_def holds_def
      counted_def)

lemma key_in_put:
  assumes "header_of s x = Some h" and "same_life h h'"
  shows "key_in (put_header s x h') G = key_in s G"
proof
  fix l
  obtain y pos where u: "unpack_location l = (y, pos)" by force
  show "key_in (put_header s x h') G l = key_in s G l"
    using assms same_life_simps [OF assms(2)] by (simp add: key_in_def u header_of_put)
qed

lemma store_gauges_same [simp]:
  "key_in (s\<lparr>sg_gauges := q\<rparr>) G = key_in s G" "item_start_ok i (s\<lparr>sg_gauges := q\<rparr>) x = item_start_ok i s x"
  "seg_check_magic i (s\<lparr>sg_gauges := q\<rparr>) x = seg_check_magic i s x" "shape i (s\<lparr>sg_gauges := q\<rparr>) = shape i s"
  "head_ok i (s\<lparr>sg_gauges := q\<rparr>) bs g x h = head_ok i s bs g x h" "node (s\<lparr>sg_gauges := q\<rparr>) a b c = node s a b c"
  "tag_matches_header l h = (location_tag l = tag_for_generation (hd_generation h))"
  by (simp_all add: key_in_def fun_eq_iff item_start_ok_def seg_check_magic_def byte_offset_def shape_def head_ok_def
      node_def tag_matches_header_def)

lemma chain_gauges [simp]: "chain (s\<lparr>sg_gauges := q\<rparr>) b xs = chain s b xs" "chains_ok (s\<lparr>sg_gauges := q\<rparr>) bs g = chains_ok s bs g"
proof -
  have "chain_from (s\<lparr>sg_gauges := q\<rparr>) p xs = chain_from s p xs" for p xs by (rule chain_from_cong) simp
  then show c: "chain (s\<lparr>sg_gauges := q\<rparr>) b xs = chain s b xs" for b xs by (simp add: chain_def)
  show "chains_ok (s\<lparr>sg_gauges := q\<rparr>) bs g = chains_ok s bs g" by (simp add: chains_ok_def c)
qed

lemma cinv_gauges [simp]: "cinv i (s\<lparr>sg_gauges := q\<rparr>) ht bs g = cinv i s ht bs g"
  by (simp add: cinv_def)

lemma put_header_view [simp]:
  "item_start_ok i (put_header s x h) y = item_start_ok i s y" "seg_check_magic i (put_header s x h) y = seg_check_magic i s y"
  by (simp_all add: item_start_ok_def seg_check_magic_def byte_offset_def)

lemma shape_put:
  assumes sh: "shape i s" and h: "header_of s x = Some h" and sl: "same_life h h'"
  shows "shape i (put_header s x h')"
proof -
  note sp = shape_header [OF sh h]
  have "store_ok i (put_header s x h')"
    by (rule store_ok_put [OF shape_parts(1) [OF sh] h]) (use sl sp in \<open>simp_all add: same_life_def\<close>)
  then show ?thesis using sh h sl by (auto simp: shape_def header_of_put same_life_def)
qed

text \<open>
  The header of one segment changes within its life, and the ghost state follows: the pins and counters of that segment
  are accounted for, and nothing changes for the others.
\<close>

lemma cinv_put:
  assumes c: "cinv i s ht bs g" and h: "header_of s x = Some h" and sl: "same_life h h'"
    and ht: "cached (key_in s (g_items g)) ht' (g_map g')"
    and same: "g_items g' = g_items g" "g_chains g' = g_chains g"
    and others: "\<And>y k. y \<noteq> x \<Longrightarrow> header_of s y = Some k \<Longrightarrow> counted g' y k = counted g y k"
      "\<And>y. y \<noteq> x \<Longrightarrow> g_writer g' = Some y \<longleftrightarrow> g_writer g = Some y"
      "\<And>y. y \<noteq> x \<Longrightarrow> g_remover g' = Some y \<longleftrightarrow> g_remover g = Some y"
    and pins: "hd_active_writers h' = (if g_writer g' = Some x then 1 else 0)"
      "hd_active_removers h' = (if g_remover g' = Some x then 1 else 0)"
    and cn: "chained bs g x \<Longrightarrow> counts i (sint (initial_offset i)) (counted g' x h) h'"
    and rc: "\<not> chained bs g x \<Longrightarrow> hd_ref_count h' = hd_ref_count h"
  shows "cinv i ((put_header s x h')\<lparr>sg_gauges := q\<rparr>) ht' bs g'"
proof -
  let ?s = "put_header s x h'"
  have hs: "header_of s x \<noteq> None" using h by simp
  have ch: "chained bs g' y = chained bs g y" for y by (simp add: chained_def same)
  have b: "seg_base ?s y = seg_base s y" for y by (simp add: byte_offset_def)
  have "head_ok i ?s bs g' y k" if k: "header_of ?s y = Some k" for y k
  proof (cases "y = x")
    case True
    have k': "k = h'" using k True header_of_put [OF hs] by simp
    have ok: "head_ok i s bs g x h" using c h by (simp add: cinv_def)
    then obtain m where m: "holds h m" "md_state m \<in> {Free, Live, Sealed, AwaitingRelease}"
      "md_state m = AwaitingRelease \<Longrightarrow> hd_ref_count h \<noteq> 0" "is_readable (md_state m) \<longleftrightarrow> chained bs g x"
      by (auto simp: head_ok_def)
    have "md_state m = AwaitingRelease \<Longrightarrow> hd_ref_count h' \<noteq> 0" using m rc by (auto simp: is_readable_def)
    then have "\<exists>m. holds h' m \<and> md_state m \<in> {Free, Live, Sealed, AwaitingRelease}
        \<and> (md_state m = AwaitingRelease \<longrightarrow> hd_ref_count h' \<noteq> 0) \<and> (is_readable (md_state m) \<longleftrightarrow> chained bs g x)"
      using m same_life_simps(3) [OF sl] by auto
    moreover have "hd_write_offset h' = hd_write_offset h" using sl by (simp add: same_life_def)
    ultimately show ?thesis
      using ok pins cn same_life_simps(4) [OF sl] unfolding head_ok_def True k' ch b same by simp
  next
    case False
    then have "header_of s y = Some k" using k header_of_put [OF hs] by simp
    moreover from this have "head_ok i s bs g y k" using c by (simp add: cinv_def)
    ultimately show ?thesis using others [OF False] unfolding head_ok_def ch b same by simp
  qed
  moreover have "chains_ok ?s bs g'"
  proof -
    have "hd_metadata h' = hd_metadata h" "hd_ttl h' = hd_ttl h" using sl by (simp_all add: same_life_def)
    then show ?thesis using chain_same_words [OF put_same_word [OF h]] cinv_parts(4) [OF c] h
      unfolding chains_ok_def same by (auto simp: header_of_put)
  qed
  ultimately show ?thesis
    using ht same shape_put [OF cinv_parts(1) [OF c] h sl] key_in_put [OF h sl] by (simp add: cinv_def)
qed

section \<open>The verifier\<close>

lemma acquire_item_at_item:
  assumes c: "cinv i s ht bs g" and h: "header_of s x = Some h" and p: "(pos, d) \<in> set (g_items g x)"
  shows "acquire_item_at i s (loc_of x h pos) = Some (Some (seg_base s x + pos), put_header s x (ref_count_incr h))"
proof -
  note b = in_bounds [OF c h p]
  note sh = shape_header [OF cinv_parts(1) [OF c] h]
  have hs: "header_of s x \<noteq> None" using h by simp
  obtain m where m: "header_metadata h = Some m" "is_readable (md_state m)"
    using b(10) by (auto simp: readable_header_def header_state_def split: option.splits)
  have "try_acquire_reader (\<lambda>_ h. h) h = Some (Acquired, ref_count_incr h)"
    using m by (simp add: try_acquire_reader_def ref_count_incr_def header_metadata_def)
  moreover have "tag_matches_header (loc_of x h pos) (ref_count_incr h)"
    by (simp add: loc_of_def tag_pack_location ref_count_incr_def)
  ultimately show ?thesis using sh(4,5) h
    by (simp add: acquire_item_at_def b(9) on_header_eval header_of_put byte_offset_def)
qed

lemma item_key_at:
  assumes c: "cinv i s ht bs g" and h: "header_of s x = Some h" and p: "(pos, d) \<in> set (g_items g x)"
  shows "seg_key_at (unat (sg_cap s)) (acquire_for i s) (key_of_item i s) (loc_of x h pos) = Some (ce_key d)"
proof -
  note sh = shape_header [OF cinv_parts(1) [OF c] h]
  have "\<not> unat x > unat (sg_cap s)" using sh(5) by (simp add: word_le_nat_alt)
  moreover have "raw_key i (sg_data s) (seg_base s x + pos) = Some (ce_key d)"
    using cell_reads(1) [OF in_bounds(7) [OF c h p]] .
  ultimately show ?thesis using in_bounds(9) [OF c h p] sh(4) acquire_item_at_item [OF c h p]
    by (simp add: seg_key_at_def acquire_for_def key_of_item_def)
qed

lemma cinv_acquire:
  assumes c: "cinv i s ht bs g" and m: "g_map g k = Some l"
  shows "seg_key_at (unat (sg_cap s)) (acquire_for i s) (key_of_item i s) l = Some k"
  using entry_item [OF c m] item_key_at [OF c] by metis

text \<open>The table stands for its map under the verifier the cache uses.\<close>

lemma cinv_cached:
  assumes c: "cinv i s ht bs g"
  shows "cached (seg_key_at (unat (sg_cap s)) (acquire_for i s) (key_of_item i s)) ht (g_map g)"
  by (rule cached_cong [OF cinv_parts(3) [OF c]]) (rule cinv_acquire [OF c])

lemma cinv_freq_only:
  assumes c: "cinv i s ht bs g" and f: "freq_only ht ht'"
  shows "cinv i s ht' bs g"
  using c cached_freq_only [OF cinv_parts(3) [OF c] f] by (simp add: cinv_def)

text \<open>A lookup: absent, or the item the map has, in a slot that publishes it.\<close>

definition found_hit :: "hashtable \<Rightarrow> u8 list \<Rightarrow> segments \<Rightarrow> u32 \<Rightarrow> seg_header \<Rightarrow> nat \<Rightarrow> (nat \<times> u32) hit \<Rightarrow> bool" where
  "found_hit ht k s x h pos hit \<longleftrightarrow> hit_location hit = loc_of x h pos \<and> fst (hit_pin hit) = seg_base s x + pos
     \<and> good_slot ht k (hit_slot hit) (loc_of x h pos)"

lemma cinv_lookup:
  assumes c: "cinv (e_integrity e) s ht bs g"
  shows "case content g k of
      None \<Rightarrow> lookup_no_freq_update k (sc_verifier e s) ht = Absent
    | Some (x, d) \<Rightarrow> \<exists>h pos hit. lookup_no_freq_update k (sc_verifier e s) ht = Found hit \<and> found_hit ht k s x h pos hit
        \<and> header_of s x = Some h \<and> (pos, d) \<in> set (g_items g x) \<and> ce_key d = k \<and> g_map g k = Some (loc_of x h pos)"
proof (cases "content g k")
  case None
  then show ?thesis using cached_lookup [OF cinv_cached [OF c], of k] content_None [OF c, of k] by (simp add: sc_verifier_def None)
next
  case (Some xd)
  then obtain x d where xd: "content g k = Some (x, d)" by (cases xd) simp
  from content_Some [OF c xd] obtain h pos where h: "header_of s x = Some h" "g_map g k = Some (loc_of x h pos)"
    "(pos, d) \<in> set (g_items g x)" "ce_key d = k" "unpack_location (loc_of x h pos) = (x, pos)" by metis
  from cached_lookup [OF cinv_cached [OF c], of k] h(2) obtain hit where
    hit: "lookup_no_freq_update k (sc_verifier e s) ht = Found hit" "hit_location hit = loc_of x h pos"
    "acquire_for (e_integrity e) s (loc_of x h pos) = Some (hit_pin hit)" "good_slot ht k (hit_slot hit) (loc_of x h pos)"
    by (auto simp: sc_verifier_def)
  have "fst (hit_pin hit) = seg_base s x + pos"
    using hit(3) acquire_item_at_item [OF c h(1,3)] by (cases "hit_pin hit") (simp add: acquire_for_def)
  then have "found_hit ht k s x h pos hit" using hit by (simp add: found_hit_def)
  then show ?thesis using xd h hit(1) by auto
qed

section \<open>Dropping a reader pin\<close>

lemma cinv_readers:
  assumes c: "cinv i s ht bs g" and h: "header_of s x = Some h" and x: "chained bs g x"
  shows "cinv i (put_header s x (h\<lparr>hd_ref_count := n\<rparr>)) ht bs g"
proof -
  have ok: "head_ok i s bs g x h" using c h by (simp add: cinv_def)
  have "cinv i ((put_header s x (h\<lparr>hd_ref_count := n\<rparr>))\<lparr>sg_gauges := sg_gauges s\<rparr>) ht bs g"
    by (rule cinv_put [OF c h _ cinv_parts(3) [OF c]]) (use ok x in \<open>auto simp: same_life_def head_ok_def counts_def\<close>)
  then show ?thesis by simp
qed

lemma drop_guard_readable:
  assumes c: "cinv i s ht bs g" and h: "header_of s x = Some h" and x: "chained bs g x"
  shows "drop_guard i s x = Some (put_header s x (h\<lparr>hd_ref_count := hd_ref_count h - 1\<rparr>))"
proof -
  from chained_header [OF c x] h obtain m where m: "holds h m" "md_state m \<in> {Live, Sealed}" by (metis option.inject)
  have hs: "header_of s x \<noteq> None" using h by simp
  let ?h = "h\<lparr>hd_ref_count := hd_ref_count h - 1\<rparr>"
  have "holds ?h m" using m(1) by (simp add: holds_def)
  from try_release_condemned_moves [OF this] m(2) have "try_release_condemned ?h = Some (False, ?h)" by (auto simp: moves_def)
  then show ?thesis
    by (cases "hd_ref_count h = 1") (simp_all add: drop_guard_def on_header_eval [OF h] on_header_eval header_of_put [OF hs] release_reader_for_guard_def)
qed

section \<open>Getting\<close>

definition expired :: "env \<Rightarrow> seg_header \<Rightarrow> bool" where
  "expired e h \<longleftrightarrow> hd_ttl h \<noteq> 0 \<and> e_after e (hd_create_at h) (hd_ttl h) \<le> e_now e"

lemma remaining_ttl_eval:
  "header_of s x = Some h \<Longrightarrow> \<exists>n. remaining_ttl e s x = Some (if expired e h then Inl NotFound else Inr n)"
  by (auto simp: remaining_ttl_def expired_def Let_def)

lemma token_for_eval:
  assumes "cell_at (e_integrity e) (sg_data s) a d"
  shows "\<exists>t. token_for e s a l gen = Some t"
proof -
  obtain v where "numeric_version (e_integrity e) (sg_data s) a = Some v" using cell_reads(8) [OF assms] by blast
  then show ?thesis by (cases v) (simp_all add: token_for_def Let_def)
qed

definition put_readers :: "u32 \<Rightarrow> u32 \<Rightarrow> segments \<Rightarrow> segments" where
  "put_readers x n s = (case header_of s x of None \<Rightarrow> s | Some h \<Rightarrow> put_header s x (h\<lparr>hd_ref_count := n\<rparr>))"

lemma item_from_pin_eval:
  assumes c: "cinv (e_integrity e) s ht bs g" and h: "header_of s x = Some h" and p: "(pos, d) \<in> set (g_items g x)"
  shows "\<exists>t. item_from_pin e (loc_of x h pos) (seg_base s x + pos) (put_segments (put_header s x (ref_count_incr h)) cc) = Some (
    if expired e h then (None, put_segments s cc)
    else (Some \<lparr>it_raw = seg_base s x + pos, it_cas = t, it_seg = x\<rparr>, put_segments (put_header s x (ref_count_incr h)) cc))"
proof -
  note b = in_bounds [OF c h p] and sh = shape_header [OF cinv_parts(1) [OF c] h]
  let ?s = "put_header s x (ref_count_incr h)"
  have hs: "header_of s x \<noteq> None" using h by simp
  have h': "header_of ?s x = Some (ref_count_incr h)" by (simp add: header_of_put [OF hs])
  have c': "cinv (e_integrity e) ?s ht bs g" using cinv_readers [OF c h b(1)] by (simp add: ref_count_incr_def)
  have "put_header ?s x (h\<lparr>hd_ref_count := hd_ref_count (ref_count_incr h) - 1\<rparr>) = s"
    using put_header_same [OF h] by (simp add: ref_count_incr_def)
  then have dp: "drop_pin e x (put_segments ?s cc) = Some (put_segments s cc)"
    using drop_guard_readable [OF c' h' b(1)] by (simp add: drop_pin_def put_segments_def ref_count_incr_def)
  obtain n where r: "remaining_ttl e ?s x = Some (if expired e h then Inl NotFound else Inr n)"
    using remaining_ttl_eval [OF h', of e] by (auto simp: expired_def ref_count_incr_def)
  have cl: "cell_at (e_integrity e) (sg_data ?s) (seg_base s x + pos) d" using b(7) by simp
  obtain t where t: "token_for e ?s (seg_base s x + pos) (loc_of x h pos) (hd_generation (ref_count_incr h)) = Some t"
    using token_for_eval [OF cl] by metis
  show ?thesis
    using r dp t sh(4) h' cell_reads(6) [OF cl] by (auto simp: item_from_pin_def b(9) Let_def put_segments_def)
qed

text \<open>What a get returns, and the store it leaves: the reader pin of the item handed out, and nothing else.\<close>

definition got :: "env \<Rightarrow> ghost \<Rightarrow> u8 list \<Rightarrow> segcache \<Rightarrow> item option \<Rightarrow> segments \<Rightarrow> bool" where
  "got e g k c r s' \<longleftrightarrow> (case content g k of
      None \<Rightarrow> r = None \<and> s' = sc_segments c
    | Some (x, d) \<Rightarrow> \<exists>h pos t. header_of (sc_segments c) x = Some h \<and> (pos, d) \<in> set (g_items g x)
        \<and> (if expired e h then r = None \<and> s' = sc_segments c
           else r = Some \<lparr>it_raw = seg_base (sc_segments c) x + pos, it_cas = t, it_seg = x\<rparr>
             \<and> s' = put_header (sc_segments c) x (ref_count_incr h)))"

lemma get_pinned_eval:
  assumes c: "cache_inv e c g"
  obtains r ht' s' where "get_pinned e k fr c = Some (r, c\<lparr>sc_hashtable := ht', sc_segments := s'\<rparr>)"
    "got e g k c r s'" "freq_only (sc_hashtable c) ht'"
proof -
  let ?s = "sc_segments c" and ?ht = "sc_hashtable c" and ?v = "sc_verifier e (sc_segments c)"
  have ci: "cinv (e_integrity e) ?s ?ht (tt_buckets (sc_ttl_buckets c)) g" using c by (simp add: cache_inv_def)
  define rh where "rh = (if fr then ht_lookup k ?v ?ht else (lookup_no_freq_update k ?v ?ht, ?ht))"
  obtain ht' where rh: "rh = (lookup_no_freq_update k ?v ?ht, ht')" and f: "freq_only ?ht ht'"
  proof (cases fr)
    case True
    from cached_lookup_counted [OF cinv_cached [OF ci], of k] obtain h' where
      "ht_lookup k ?v ?ht = (lookup_no_freq_update k ?v ?ht, h')" "freq_only ?ht h'" by (auto simp: sc_verifier_def)
    then show thesis using that True by (simp add: rh_def)
  next
    case False
    then show thesis using that [of ?ht] by (simp add: rh_def freq_only_refl)
  qed
  have st: "get_pinned e k fr c = do { r \<leftarrow> resolve_step e k fr 0 c;
      (case r of Inl x \<Rightarrow> Some x | Inr s \<Rightarrow> iterate (get_step e k fr) s) }"
    unfolding get_pinned_def by (subst iterate.simps) simp
  note lk = cinv_lookup [OF ci, of k]
  show thesis
  proof (cases "content g k")
    case None
    then have "resolve_step e k fr 0 c = Some (Inl (None, put_hashtable ht' c))"
      using lk rh by (simp add: resolve_step_def rh_def [symmetric])
    then show thesis using that [of None ?s ht'] None f by (simp add: st got_def put_hashtable_def)
  next
    case (Some xd)
    then obtain x d where xd: "content g k = Some (x, d)" by (cases xd) simp
    from lk xd obtain h pos hit where hit: "lookup_no_freq_update k ?v ?ht = Found hit" "found_hit ?ht k ?s x h pos hit"
      and h: "header_of ?s x = Some h" "(pos, d) \<in> set (g_items g x)" by auto
    note fh = hit(2) [unfolded found_hit_def]
    have "good_slot ?ht k (hit_slot hit) (loc_of x h pos)" using fh by simp
    from good_slot_publishes [OF good_slot_freq_only [OF this cached_table [OF cinv_cached [OF ci]] f]]
    have pub: "slot_publishes (hit_slot hit) (loc_of x h pos) ht'" .
    have tp: "take_pin e (loc_of x h pos) (put_hashtable ht' c) =
        Some (Some (seg_base ?s x + pos), put_segments (put_header ?s x (ref_count_incr h)) (put_hashtable ht' c))"
      using acquire_item_at_item [OF ci h] by (simp add: take_pin_def put_hashtable_def)
    from item_from_pin_eval [OF ci h, of "put_hashtable ht' c"] obtain t where
      ip: "item_from_pin e (loc_of x h pos) (seg_base ?s x + pos) (put_segments (put_header ?s x (ref_count_incr h)) (put_hashtable ht' c)) = Some (
        if expired e h then (None, put_segments ?s (put_hashtable ht' c))
        else (Some \<lparr>it_raw = seg_base ?s x + pos, it_cas = t, it_seg = x\<rparr>,
          put_segments (put_header ?s x (ref_count_incr h)) (put_hashtable ht' c)))" by blast
    have "resolve_step e k fr 0 c = map_option Inl (item_from_pin e (loc_of x h pos) (seg_base ?s x + pos)
        (put_segments (put_header ?s x (ref_count_incr h)) (put_hashtable ht' c)))"
      using fh hit(1) rh tp pub by (simp add: resolve_step_def rh_def [symmetric] put_hashtable_def put_segments_def)
    then have gp: "get_pinned e k fr c = Some (if expired e h then (None, put_segments ?s (put_hashtable ht' c))
        else (Some \<lparr>it_raw = seg_base ?s x + pos, it_cas = t, it_seg = x\<rparr>,
          put_segments (put_header ?s x (ref_count_incr h)) (put_hashtable ht' c)))" using ip by (simp add: st)
    show thesis
    proof (cases "expired e h")
      case True
      then show thesis using that [of None ?s ht'] gp h xd f by (auto simp: got_def put_hashtable_def put_segments_def)
    next
      case False
      then show thesis
        using that [of "Some \<lparr>it_raw = seg_base ?s x + pos, it_cas = t, it_seg = x\<rparr>" "put_header ?s x (ref_count_incr h)" ht'] gp h xd f
        by (auto simp: got_def put_hashtable_def put_segments_def)
    qed
  qed
qed

lemma got_inv:
  assumes c: "cache_inv e c g" and r: "got e g k c r s'" and f: "freq_only (sc_hashtable c) ht'"
  shows "cache_inv e (c\<lparr>sc_hashtable := ht', sc_segments := s'\<rparr>) g"
proof -
  have ci: "cinv (e_integrity e) (sc_segments c) (sc_hashtable c) (tt_buckets (sc_ttl_buckets c)) g" using c by (simp add: cache_inv_def)
  have "s' = sc_segments c \<or> (\<exists>x h. header_of (sc_segments c) x = Some h \<and> chained (tt_buckets (sc_ttl_buckets c)) g x
      \<and> s' = put_header (sc_segments c) x (ref_count_incr h))"
    using r in_bounds(1) [OF ci] by (fastforce simp: got_def split: option.splits if_splits)
  then have "cinv (e_integrity e) s' (sc_hashtable c) (tt_buckets (sc_ttl_buckets c)) g"
    using ci cinv_readers [OF ci] by (auto simp: ref_count_incr_def)
  then show ?thesis using cinv_freq_only [OF _ f] by (simp add: cache_inv_def)
qed

text \<open>The item handed out reads as the cache holds it, under a pin that its drop gives back.\<close>

definition holds_item :: "env \<Rightarrow> segcache \<Rightarrow> item \<Rightarrow> cell \<Rightarrow> bool" where
  "holds_item e c it d \<longleftrightarrow> sc_item_key e it c = Some (ce_key d) \<and> sc_item_value e it c = Some (ce_value d)
     \<and> sc_item_optional e it c = Some (if ce_opt d = [] then None else Some (ce_opt d))"

lemma got_item:
  assumes c: "cache_inv e c g" and k: "content g k = Some (x, d)" and r: "got e g k c (Some it) s'"
  shows "it_seg it = x" "ce_key d = k" "holds_item e (c\<lparr>sc_hashtable := ht', sc_segments := s'\<rparr>) it d"
    "item_drop e it (c\<lparr>sc_hashtable := ht', sc_segments := s'\<rparr>) = Some (c\<lparr>sc_hashtable := ht'\<rparr>)"
proof -
  let ?s = "sc_segments c" and ?c = "c\<lparr>sc_hashtable := ht', sc_segments := s'\<rparr>"
  have ci: "cinv (e_integrity e) ?s (sc_hashtable c) (tt_buckets (sc_ttl_buckets c)) g" using c by (simp add: cache_inv_def)
  from r k obtain h pos t where h: "header_of ?s x = Some h" "(pos, d) \<in> set (g_items g x)" "\<not> expired e h"
    and it: "it = \<lparr>it_raw = seg_base ?s x + pos, it_cas = t, it_seg = x\<rparr>" and s': "s' = put_header ?s x (ref_count_incr h)"
    by (auto simp: got_def split: if_splits)
  show "it_seg it = x" using it by simp
  from content_Some [OF ci k] show "ce_key d = k" by metis
  note b = in_bounds [OF ci h(1,2)]
  show "holds_item e ?c it d"
    using cell_reads(1-3) [OF b(7)] by (simp add: holds_item_def it s' sc_item_key_def sc_item_value_def sc_item_optional_def)
  have hs: "header_of ?s x \<noteq> None" using h by simp
  have "header_of s' x = Some (ref_count_incr h)" by (simp add: s' header_of_put [OF hs])
  moreover have "cinv (e_integrity e) s' (sc_hashtable c) (tt_buckets (sc_ttl_buckets c)) g"
    using cinv_readers [OF ci h(1) b(1)] by (simp add: s' ref_count_incr_def)
  ultimately have "drop_guard (e_integrity e) s' x = Some ?s"
    using drop_guard_readable [OF _ _ b(1)] put_header_same [OF h(1)] by (simp add: s' ref_count_incr_def)
  then show "item_drop e it ?c = Some (c\<lparr>sc_hashtable := ht'\<rparr>)"
    by (simp add: item_drop_def drop_pin_def it put_segments_def)
qed

text \<open>
  A get answers from what the cache holds, with or without counting the access: it returns for a cache with content
  \<open>A\<close>, and leaves the content as it was. A key the cache does not hold and a key whose segment is past its expiry give no
  item. Any other key gives an item that reads back the key, value and optional data the cache holds for it, and whose
  drop restores the segment store.
\<close>

lemma get_content:
  assumes "models e c A"
  shows "\<exists>r c'. get_pinned e k fr c = Some (r, c') \<and> models e c' A \<and> same_config c c' \<and> (case A k of
      None \<Rightarrow> r = None \<and> sc_segments c' = sc_segments c
    | Some (x, d) \<Rightarrow> \<exists>h. header_of (sc_segments c) x = Some h \<and> ce_key d = k \<and> (if expired e h
        then r = None \<and> sc_segments c' = sc_segments c
        else \<exists>it c''. r = Some it \<and> it_seg it = x \<and> holds_item e c' it d
          \<and> item_drop e it c' = Some c'' \<and> sc_segments c'' = sc_segments c \<and> models e c'' A))"
proof -
  from assms obtain g where g: "cache_inv e c g" "quiescent g" "A = content g"
    and rk: "ranking_ok (length (sg_headers (sc_segments c))) (sc_evict c)" by (auto simp: models_def)
  from get_pinned_eval [OF g(1), of k fr] obtain r ht' s' where
    r: "get_pinned e k fr c = Some (r, c\<lparr>sc_hashtable := ht', sc_segments := s'\<rparr>)" (is "_ = Some (_, ?c)")
    "got e g k c r s'" "freq_only (sc_hashtable c) ht'" by metis
  have "length (sg_headers s') = length (sg_headers (sc_segments c))"
    using r(2) by (auto simp: got_def split: option.splits if_splits)
  moreover have cf: "same_config c ?c" using r(2) by (auto simp: got_def same_config_def split: option.splits if_splits)
  ultimately have m: "models e ?c A" using got_inv [OF g(1) r(2,3)] g rk by (auto simp: models_def)
  have "cache_inv e (c\<lparr>sc_hashtable := ht'\<rparr>) g"
    using g(1) cinv_freq_only [OF _ r(3)] by (simp add: cache_inv_def)
  then have m'': "models e (c\<lparr>sc_hashtable := ht'\<rparr>) A" using g rk by (auto simp: models_def)
  show ?thesis
  proof (cases "content g k")
    case None
    then show ?thesis using r(1,2) m g(3) cf by (intro exI [of _ r] exI [of _ ?c]) (simp add: got_def)
  next
    case (Some xd)
    then obtain x d where xd: "content g k = Some (x, d)" by (cases xd) simp
    obtain h where h: "header_of (sc_segments c) x = Some h" using r(2) xd by (auto simp: got_def)
    have kd: "ce_key d = k" using g(1) content_Some [OF _ xd] by (metis cache_inv_def)
    show ?thesis
    proof (cases r)
      case None
      then show ?thesis using r(1,2) m g(3) xd h kd cf by (intro exI [of _ r] exI [of _ ?c]) (auto simp: got_def split: if_splits)
    next
      case (Some it)
      then have "\<not> expired e h" using r(2) xd h by (auto simp: got_def split: if_splits)
      moreover note got_item(1) [OF g(1) xd r(2) [unfolded Some]] got_item(3,4) [OF g(1) xd r(2) [unfolded Some], of ht']
      ultimately show ?thesis using r(1) m m'' g(3) xd h kd Some cf by (intro exI [of _ r] exI [of _ ?c]) simp
    qed
  qed
qed

end
