(* ===== verification/CacheNew.thy ===== *)
theory CacheNew
  imports CacheGet ChainReserve
begin

text \<open>
  A new cache holds nothing: what \<^verbatim>\<open>Builder::build\<close> returns satisfies the invariant of the composed cache.
\<close>

section \<open>The store\<close>

definition new_ghost :: ghost where
  "new_ghost = \<lparr>g_items = \<lambda>_. [], g_map = \<lambda>_. None, g_chains = \<lambda>_. [], g_extra = {}, g_writer = None, g_remover = None\<rparr>"

lemma built_data:
  assumes "segments_build i d adm heap_size segment_size pol = Inr s"
  shows "length (sg_data s) = length (sg_headers s) * seg_bytes s" "sg_cap s = of_nat (length (sg_headers s))"
    "sg_spare_capacity s = of_nat (spare_capacity_for pol)" "sg_spare_count s = of_nat (spare_capacity_for pol)"
    "k < length (sg_headers s) \<Longrightarrow> take (seg_bytes s) (drop (seg_bytes s * k) (sg_data s)) = segment_bytes i (seg_bytes s)"
    "\<And>h. h \<in> set (sg_headers s) \<Longrightarrow> hd_ref_count h = 0 \<and> hd_active_writers h = 0 \<and> hd_active_removers h = 0"
proof -
  let ?n = "heap_size div nat (sint segment_size)" and ?sz = "nat (sint segment_size)"
  note ok = segments_build_ok [OF assms] and b = segments_build_built [OF assms]
  have d: "sg_data s = concat (replicate ?n (segment_bytes i ?sz))" "sg_cap s = of_nat ?n"
    "sg_spare_capacity s = of_nat (spare_capacity_for pol)" "sg_spare_count s = of_nat (spare_capacity_for pol)"
    "sg_headers s = map (\<lambda>x. header_init i (header_new i d x)) (map (\<lambda>idx. of_nat idx + 1) [0..<?n])"
    using ok(7) by (auto simp: segments_from_builder_def Let_def split: if_splits)
  have n: "length (sg_headers s) = ?n" "sg_segment_size s = segment_size" using b by (simp_all add: built_def)
  have len: "length (segment_bytes i ?sz) = ?sz" using ok(1) by (intro segment_bytes_length) auto
  show "length (sg_data s) = length (sg_headers s) * seg_bytes s"
    by (simp add: d(1) n length_concat len sum_list_replicate)
  show "sg_cap s = of_nat (length (sg_headers s))" "sg_spare_capacity s = of_nat (spare_capacity_for pol)"
    "sg_spare_count s = of_nat (spare_capacity_for pol)" using d n by simp_all
  show "take (seg_bytes s) (drop (seg_bytes s * k) (sg_data s)) = segment_bytes i (seg_bytes s)" if "k < length (sg_headers s)"
    using that len by (cases "?n - k") (simp_all add: d(1) n drop_concat_replicate [OF len])
  show "hd_ref_count h = 0 \<and> hd_active_writers h = 0 \<and> hd_active_removers h = 0" if "h \<in> set (sg_headers s)" for h
    using that by (auto simp: d(5) header_init_def header_new_def)
qed

lemma header_of_mem: "header_of s x = Some h \<Longrightarrow> h \<in> set (sg_headers s)"
  by (auto simp: header_of_def split: if_splits)

lemma zero_klen: "raw_klen i m a = Some 0"
  if "load_bytes m a (ITEM_HDR_SIZE i) = Some (replicate (ITEM_HDR_SIZE i) 0)"
  using that by (cases i) (simp_all add: raw_klen_def raw_header_def parse_header_def ITEM_HDR_SIZE_def Let_def eval_nat_numeral)

lemma built_shape:
  assumes s: "segments_build i d adm heap_size segment_size pol = Inr s" and room: "i \<Longrightarrow> 24 \<le> sint segment_size"
  shows "shape i s"
proof -
  note ok = segments_build_ok [OF s] and b = segments_build_built [OF s] and da = built_data [OF s]
  note snd' = segments_build_facts [OF s]
  have size: "sg_segment_size s = segment_size" using b by simp
  have hdr: "item_start i + ITEM_HDR_SIZE i \<le> seg_bytes s" "8 dvd seg_bytes s" "seg_bytes s \<le> MAX_SEGMENT_BYTES"
    "ITEM_HDR_SIZE i < seg_bytes s" "i \<Longrightarrow> 8 \<le> seg_bytes s"
  proof -
    have "sint segment_size \<ge> int (ITEM_HDR_SIZE i) + 1" "nat (sint segment_size) \<le> MAX_SEGMENT_BYTES"
      using s by (auto simp: segments_build_def Let_def split: if_splits)
    then show "ITEM_HDR_SIZE i < seg_bytes s" "seg_bytes s \<le> MAX_SEGMENT_BYTES" by (simp_all add: size)
    then show "item_start i + ITEM_HDR_SIZE i \<le> seg_bytes s" "i \<Longrightarrow> 8 \<le> seg_bytes s"
      using room by (cases i; simp add: item_start_def ITEM_HDR_SIZE_def size)+
    have "int (seg_bytes s) = sint segment_size" using ok(2) by (simp add: size)
    then have "int (seg_bytes s) mod 8 = 0" using ok(6) by simp
    then show "8 dvd seg_bytes s" by presburger
  qed
  have start: "item_start_ok i s x" if h: "header_of s x = Some h" for x h
  proof -
    have k: "unat x - 1 < length (sg_headers s)" "seg_base s x = seg_bytes s * (unat x - 1)"
      using h by (auto simp: header_of_def byte_offset_def split: if_splits)
    let ?n = "ITEM_HDR_SIZE i" and ?a = "seg_bytes s * (unat x - 1)" and ?t = "item_start i"
    have "take ?n (drop ?t (take (seg_bytes s) (drop ?a (sg_data s)))) = replicate ?n 0"
      unfolding da(5) [OF k(1)] using hdr(1,5) by (cases i) (simp_all add: segment_bytes_def item_start_def)
    then have "take ?n (drop (?a + ?t) (sg_data s)) = replicate ?n 0"
      using hdr(1) by (simp add: drop_take min_def add.commute split: if_splits)
    moreover have "?a + seg_bytes s \<le> length (sg_data s)"
    proof -
      have "(unat x - 1 + 1) * seg_bytes s \<le> length (sg_headers s) * seg_bytes s" using k(1) by (intro mult_le_mono1) simp
      then show ?thesis by (simp add: da(1) algebra_simps)
    qed
    ultimately have "load_bytes (sg_data s) (?a + ?t) ?n = Some (replicate ?n 0)" using hdr(1) by (simp add: load_bytes_def)
    then show ?thesis using zero_klen k(2) by (simp add: item_start_ok_def)
  qed
  have magic: "seg_check_magic i s x = Some ()" if "header_of s x = Some h" for x h
    using snd' that by (auto simp: segment_view_def split: if_splits Option.bind_splits)
  have "unat (sg_cap s) = length (sg_headers s)" using ok(5) b by (simp add: da(2) unat_of_nat built_def)
  moreover have "spare_capacity_for pol \<le> 1" "unat (of_nat (spare_capacity_for pol) :: u32) = spare_capacity_for pol"
    by (cases pol; simp)+
  moreover have "1 \<le> length (sg_headers s)" using snd' by (cases "length (sg_headers s)") auto
  ultimately show ?thesis
    using hdr start magic da(1,3,4) snd' unfolding shape_def by (auto simp: min_def)
qed

section \<open>The cache\<close>

lemma segcache_build_parts:
  assumes "segcache_build i d now ws adm bd = Some (Inr c)"
  obtains ht where "sc_evict c = eviction_new now (unat (sg_cap (sc_segments c))) (bd_policy bd) (bd_seed bd)"
    "hashtable_new ws (bd_hash_power bd) = Some ht"
    "sc_hashtable c = (case bd_seed bd of Some seed \<Rightarrow> set_freq_seed seed ht | None \<Rightarrow> ht)"
    "segments_build i d adm (bd_heap_size bd) (bd_segment_size bd) (bd_policy bd) = Inr (sc_segments c)"
    "sc_ttl_buckets c = ttl_buckets_new now"
  using assms by (auto simp: segcache_build_def split: Option.bind_splits sum.splits)

lemma new_cache_models:
  assumes b: "segcache_build i d now ws adm bd = Some (Inr c)" and room: "i \<Longrightarrow> 24 \<le> sint (bd_segment_size bd)"
    and e: "e_integrity e = i"
  shows "models e c (\<lambda>_. None)"
proof -
  from b obtain ht where ev: "sc_evict c = eviction_new now (unat (sg_cap (sc_segments c))) (bd_policy bd) (bd_seed bd)"
    and ht: "hashtable_new ws (bd_hash_power bd) = Some ht"
    "sc_hashtable c = (case bd_seed bd of Some seed \<Rightarrow> set_freq_seed seed ht | None \<Rightarrow> ht)"
    and s: "segments_build i d adm (bd_heap_size bd) (bd_segment_size bd) (bd_policy bd) = Inr (sc_segments c)"
    and t: "sc_ttl_buckets c = ttl_buckets_new now" by (rule segcache_build_parts)
  let ?s = "sc_segments c" and ?bs = "tt_buckets (sc_ttl_buckets c)"
  note bu = segments_build_built [OF s]
  have h0: "hd_metadata h = hd_metadata h" for h :: seg_header ..
  have bs: "length ?bs = length bucket_ttls" "i < length bucket_ttls \<Longrightarrow> ?bs ! i = bucket_new_ttl (of_nat (bucket_ttls ! i))" for i
    by (simp_all add: t ttl_buckets_new_def)
  have ch: "\<not> chained ?bs new_ghost x" for x by (simp add: chained_def new_ghost_def)
  have "head_ok i ?s ?bs new_ghost x h" if h: "header_of ?s x = Some h" for x h
  proof -
    have "holds h metadata_new_free" using bu h unfolding built_def by (metis option.inject option.discI)
    then show ?thesis using built_data(6) [OF s header_of_mem [OF h]] ch unfolding head_ok_def
      by (auto simp: metadata_new_free_def is_readable_def new_ghost_def)
  qed
  moreover have "cached K (sc_hashtable c) (\<lambda>_. None)" for K
  proof -
    have "represents K ht (\<lambda>_. None)" "entries ht = {#}"
      using with_choices_represents with_choices_table(2) [of ws _ 2 ht live_word] ht(1) live_word_0
      by (auto simp: hashtable_new_def)
    then have "cached K ht (\<lambda>_. None)" by (simp add: cached_def)
    moreover have "freq_only ht (set_freq_seed x ht)" for x
      using freq_only_refl [of ht] unfolding freq_only_def set_freq_seed_def bucket_items_def by simp
    ultimately show ?thesis using cached_freq_only ht(2) by (auto split: option.split)
  qed
  moreover have "chains_ok ?s ?bs new_ghost"
    using bs by (simp add: chains_ok_def new_ghost_def chain_def bucket_new_ttl_def bucket_head_def bucket_tail_def link_new_def)
  ultimately have "cinv i ?s (sc_hashtable c) ?bs new_ghost"
    using built_shape [OF s room] by (simp add: cinv_def new_ghost_def)
  moreover have "length (sg_headers ?s) \<noteq> 0" using segments_build_facts [OF s] by auto
  then have "ranking_ok (length (sg_headers ?s)) (sc_evict c)"
    using shape_parts(6) [OF built_shape [OF s room]] by (simp add: ev ranking_ok_def eviction_new_def)
  ultimately show ?thesis
    by (intro exI [of _ new_ghost] conjI | simp add: models_def cache_inv_def e quiescent_def new_ghost_def content_def fun_eq_iff)+
qed

text \<open>What was asked for: segment size, policy, heap and table of the requested size, every segment queued once, no chain.\<close>

definition as_configured :: "builder \<Rightarrow> segcache \<Rightarrow> bool" where
  "as_configured bd c \<longleftrightarrow> sg_segment_size (sc_segments c) = bd_segment_size bd \<and> ev_policy (sc_evict c) = bd_policy bd
     \<and> length (sg_headers (sc_segments c)) * seg_bytes (sc_segments c) = bd_heap_size bd
     \<and> 8 * ht_num_buckets (sc_hashtable c) = 2 ^ bd_hash_power bd \<and> length (ht_buckets (sc_hashtable c)) = ht_num_buckets (sc_hashtable c)
     \<and> distinct (queued (sc_segments c)) \<and> (\<forall>x. x \<in> set (queued (sc_segments c)) \<longleftrightarrow> header_of (sc_segments c) x \<noteq> None)
     \<and> (\<forall>b \<in> set (tt_buckets (sc_ttl_buckets c)). bucket_head b = None)"

lemma new_cache_configured:
  assumes "segcache_build i d now ws adm bd = Some (Inr c)"
  shows "as_configured bd c"
proof -
  from assms obtain ht where ev: "sc_evict c = eviction_new now (unat (sg_cap (sc_segments c))) (bd_policy bd) (bd_seed bd)"
    and ht: "hashtable_new ws (bd_hash_power bd) = Some ht"
    "sc_hashtable c = (case bd_seed bd of Some seed \<Rightarrow> set_freq_seed seed ht | None \<Rightarrow> ht)"
    and s: "segments_build i d adm (bd_heap_size bd) (bd_segment_size bd) (bd_policy bd) = Inr (sc_segments c)"
    and t: "sc_ttl_buckets c = ttl_buckets_new now" by (rule segcache_build_parts)
  let ?s = "sc_segments c"
  have bu: "built i (bd_heap_size bd div nat (sint (bd_segment_size bd))) (bd_policy bd) ?s" "sg_segment_size ?s = bd_segment_size bd"
    using segments_build_built [OF s] by simp_all
  have "bd_heap_size bd mod nat (sint (bd_segment_size bd)) = 0"
    using s by (auto simp: segments_build_def Let_def split: if_splits)
  then have heap: "length (sg_headers ?s) * seg_bytes ?s = bd_heap_size bd" using bu by (simp add: built_def mod_eq_0_iff_dvd)
  have q: "set (queued ?s) = set (built_ids (bd_heap_size bd div nat (sint (bd_segment_size bd))))"
    using bu(1) unfolding built_def queued_def by (metis append_take_drop_id set_append Un_commute)
  have "store_ok i ?s" using segments_build_facts [OF s] by simp
  then have "distinct (queued ?s)" by (simp add: store_ok_def)
  moreover have "8 * ht_num_buckets ht = 2 ^ bd_hash_power bd" "length (ht_buckets ht) = ht_num_buckets ht"
  proof -
    have p: "7 \<le> bd_hash_power bd" "ht_num_buckets ht = 2 ^ (bd_hash_power bd - 3)" "length (ht_buckets ht) = ht_num_buckets ht"
      using ht(1) by (auto simp: hashtable_new_def with_choices_def Let_def push_bit_eq_mult split: if_splits)
    then have "2 ^ bd_hash_power bd = (2 :: nat) ^ (3 + (bd_hash_power bd - 3))" by simp
    then show "8 * ht_num_buckets ht = 2 ^ bd_hash_power bd" unfolding p(2) power_add by simp
    show "length (ht_buckets ht) = ht_num_buckets ht" by (rule p(3))
  qed
  moreover have "\<forall>b \<in> set (tt_buckets (sc_ttl_buckets c)). bucket_head b = None"
    by (auto simp: t ttl_buckets_new_def bucket_new_ttl_def bucket_head_def link_new_def)
  ultimately show ?thesis
    unfolding as_configured_def using bu heap q ht(2)
    by (auto simp: built_def ev eviction_new_def set_freq_seed_def split: option.splits)
qed

end
