(* ===== verification/ChainUnlink.thy ===== *)
theory ChainUnlink
  imports ChainProps
begin

unbundle bit_operations_syntax

text \<open>
  A segment leaves its chain: the drained segment is recycled, or condemned when a reader still holds it, its neighbours
  are linked around it, and the chain goes on without it.
\<close>

section \<open>Chains by position\<close>

lemma at_last_snoc_Cons [simp]: "at_last (xs @ y # ys) = (if ys = [] then Some y else at_last ys)"
  by (simp add: at_last_def)

lemma chain_from_iff:
  "chain_from s p xs \<longleftrightarrow> (\<forall>us y vs. xs = us @ y # vs \<longrightarrow> node s (if us = [] then p else at_last us) y (at_head vs))"
proof (induction xs arbitrary: p)
  case (Cons x xs)
  show ?case (is "?l \<longleftrightarrow> ?r")
  proof
    assume l: ?l
    have t: "node s (if ws = [] then Some x else at_last ws) y (at_head vs)" if "xs = ws @ y # vs" for ws y vs
      using l that Cons.IH by simp
    show ?r
    proof (intro allI impI)
      fix us y vs assume e: "x # xs = us @ y # vs"
      show "node s (if us = [] then p else at_last us) y (at_head vs)"
      proof (cases us)
        case Nil
        then show ?thesis using l e by simp
      next
        case u: (Cons u ws)
        then have w: "u = x" "xs = ws @ y # vs" using e by simp_all
        then show ?thesis using t [OF w(2)] u by (cases ws) simp_all
      qed
    qed
  next
    assume r: ?r
    have "node s p x (at_head xs)" using r [rule_format, of "[]" x xs] by simp
    moreover have "node s (if us = [] then Some x else at_last us) y (at_head vs)" if "xs = us @ y # vs" for us y vs
      using r [rule_format, of "x # us" y vs] that by (cases us) simp_all
    ultimately show ?l using Cons.IH by simp
  qed
qed simp

section \<open>Linking around a segment\<close>

definition with_prev :: "u32 option \<Rightarrow> seg_header \<Rightarrow> seg_header" where
  "with_prev p h = (case header_metadata h of None \<Rightarrow> h | Some m \<Rightarrow> h\<lparr>hd_metadata := metadata_pack (m\<lparr>md_prev := p\<rparr>)\<rparr>)"

definition with_next :: "u32 option \<Rightarrow> seg_header \<Rightarrow> seg_header" where
  "with_next n h = (case header_metadata h of None \<Rightarrow> h | Some m \<Rightarrow> h\<lparr>hd_metadata := metadata_pack (m\<lparr>md_next := n\<rparr>)\<rparr>)"

lemma with_links:
  assumes "holds h m"
  shows "update_links None (Some p) h = Some (with_prev p h)" "update_links (Some n) None h = Some (with_next n h)"
    "link_ok p \<Longrightarrow> holds (with_prev p h) (m\<lparr>md_prev := p\<rparr>)" "link_ok n \<Longrightarrow> holds (with_next n h) (m\<lparr>md_next := n\<rparr>)"
proof -
  have "m\<lparr>md_prev := p\<rparr> = \<lparr>md_next = md_next m, md_prev = p, md_state = md_state m, md_tag = md_tag m\<rparr>"
    "m\<lparr>md_next := n\<rparr> = \<lparr>md_next = n, md_prev = md_prev m, md_state = md_state m, md_tag = md_tag m\<rparr>" by (cases m; simp)+
  then show "update_links None (Some p) h = Some (with_prev p h)" "update_links (Some n) None h = Some (with_next n h)"
    unfolding with_prev_def with_next_def update_links_def
    by (simp_all only: holds_metadata [OF assms] option.case Let_def holds_unpack [OF assms] bind.bind_lunit cas_word_same snd_conv)
  show "link_ok p \<Longrightarrow> holds (with_prev p h) (m\<lparr>md_prev := p\<rparr>)" "link_ok n \<Longrightarrow> holds (with_next n h) (m\<lparr>md_next := n\<rparr>)"
    using assms by (simp_all add: with_prev_def with_next_def holds_metadata [OF assms] holds_def metadata_ok_def)
qed

lemma with_links_fields [simp]:
  "hd_id (with_prev p h) = hd_id h" "hd_generation (with_prev p h) = hd_generation h" "hd_ttl (with_prev p h) = hd_ttl h"
  "hd_write_offset (with_prev p h) = hd_write_offset h" "hd_live_items (with_prev p h) = hd_live_items h"
  "hd_live_bytes (with_prev p h) = hd_live_bytes h" "hd_active_writers (with_prev p h) = hd_active_writers h"
  "hd_active_removers (with_prev p h) = hd_active_removers h" "hd_ref_count (with_prev p h) = hd_ref_count h"
  "hd_create_at (with_prev p h) = hd_create_at h"
  "hd_id (with_next n h) = hd_id h" "hd_generation (with_next n h) = hd_generation h" "hd_ttl (with_next n h) = hd_ttl h"
  "hd_write_offset (with_next n h) = hd_write_offset h" "hd_live_items (with_next n h) = hd_live_items h"
  "hd_live_bytes (with_next n h) = hd_live_bytes h" "hd_active_writers (with_next n h) = hd_active_writers h"
  "hd_active_removers (with_next n h) = hd_active_removers h" "hd_ref_count (with_next n h) = hd_ref_count h"
  "hd_create_at (with_next n h) = hd_create_at h"
  by (simp_all add: with_prev_def with_next_def split: option.split)

definition same_store :: "segments \<Rightarrow> segments \<Rightarrow> bool" where
  "same_store s s' \<longleftrightarrow> sg_data s' = sg_data s \<and> sg_segment_size s' = sg_segment_size s \<and> sg_cap s' = sg_cap s
     \<and> length (sg_headers s') = length (sg_headers s) \<and> sg_spare_capacity s' = sg_spare_capacity s"

definition same_queues :: "segments \<Rightarrow> segments \<Rightarrow> bool" where
  "same_queues s s' \<longleftrightarrow> sg_free_queue s' = sg_free_queue s \<and> sg_spare_queue s' = sg_spare_queue s
     \<and> sg_spare_count s' = sg_spare_count s \<and> sg_freed s' = sg_freed s"

definition unlinked :: "segments \<Rightarrow> u32 option \<Rightarrow> u32 \<Rightarrow> u32 option \<Rightarrow> seg_header \<Rightarrow> segments \<Rightarrow> bool" where
  "unlinked s p x n h' s' \<longleftrightarrow> (\<forall>y. header_of s' y = (if y = x then Some h'
       else if n = Some y then map_option (with_prev p) (header_of s y)
       else if p = Some y then map_option (with_next n) (header_of s y) else header_of s y)) \<and> same_store s s'"

definition requeued :: "u32 \<Rightarrow> segments \<Rightarrow> segments \<Rightarrow> bool" where
  "requeued x s s' \<longleftrightarrow>
     (sg_free_queue s' = sg_free_queue s @ [x] \<and> sg_spare_queue s' = sg_spare_queue s \<and> sg_spare_count s' = sg_spare_count s
        \<and> sg_freed s' = sg_freed s + 1 \<and> sg_spare_capacity s \<le> sg_spare_count s)
   \<or> (sg_free_queue s' = sg_free_queue s \<and> sg_spare_queue s' = sg_spare_queue s @ [x]
        \<and> sg_spare_count s' = sg_spare_count s + 1 \<and> sg_freed s' = sg_freed s \<and> sg_spare_count s < sg_spare_capacity s)"

text \<open>The header of a segment that left its chain: free and in its next incarnation, or waiting for its last reader.\<close>

definition gone :: "bool \<Rightarrow> seg_state \<Rightarrow> seg_header \<Rightarrow> seg_header \<Rightarrow> bool" where
  "gone i st h h' \<longleftrightarrow> (\<exists>t. holds h' \<lparr>md_next = None, md_prev = None, md_state = st, md_tag = t\<rparr>)
     \<and> hd_id h' = hd_id h \<and> hd_ref_count h' = hd_ref_count h \<and> hd_active_writers h' = hd_active_writers h
     \<and> hd_active_removers h' = hd_active_removers h \<and> hd_write_offset h' \<in> {initial_offset i, hd_write_offset h}
     \<and> hd_generation h' = hd_generation h + (if st = Free then 1 else 0) \<and> hd_create_at h' = hd_create_at h \<and> hd_ttl h' = hd_ttl h"

text \<open>The neighbours of a segment, if there are any, are other segments with valid words.\<close>

definition neighbours :: "segments \<Rightarrow> u32 option \<Rightarrow> u32 \<Rightarrow> u32 option \<Rightarrow> bool" where
  "neighbours s p x n \<longleftrightarrow> (\<forall>y. p = Some y \<or> n = Some y \<longrightarrow> y \<noteq> x \<and> (\<exists>h m. header_of s y = Some h \<and> holds h m)) \<and> (p = n \<longrightarrow> p = None)"

lemma update_links_eval:
  assumes "neighbours s p x n"
  shows "n = Some y \<Longrightarrow> update_header s y (set_prev_seg p) = Some (put_header s y (with_prev p (the (header_of s y))))"
    "p = Some y \<Longrightarrow> update_header s y (set_next_seg n) = Some (put_header s y (with_next n (the (header_of s y))))"
  using assms by (auto simp: neighbours_def update_header_def set_prev_seg_def set_next_seg_def with_links)

lemma neighbours_put:
  "neighbours s p x n \<Longrightarrow> header_of s x \<noteq> None \<Longrightarrow> neighbours (put_header s x h) p x n"
  by (simp add: neighbours_def header_of_put)

lemma neighbours_header: "neighbours s p x n \<Longrightarrow> p = Some y \<or> n = Some y \<Longrightarrow> header_of s y \<noteq> None \<and> y \<noteq> x"
  by (fastforce simp: neighbours_def)

lemma same_store_put: "same_store s (put_header s x h)" "same_store s s'' \<Longrightarrow> same_store s (put_header s'' x h)"
  by (simp_all add: same_store_def)

lemma unlink_eval:
  assumes h: "header_of s x = Some h" and m: "holds h m" and nb: "neighbours s (md_prev m) x (md_next m)"
  obtains s' where "unlink s x = Some s'" "unlinked s (md_prev m) x (md_next m) h s'" "same_queues s s'"
    "sg_admission_count s' = sg_admission_count s" "sg_gauges s' = sg_gauges s"
proof -
  let ?p = "md_prev m" and ?n = "md_next m"
  let ?s1 = "case ?n of Some y \<Rightarrow> put_header s y (with_prev ?p (the (header_of s y))) | None \<Rightarrow> s"
  let ?s2 = "case ?p of Some y \<Rightarrow> put_header ?s1 y (with_next ?n (the (header_of s y))) | None \<Rightarrow> ?s1"
  have lk: "next_seg h = Some ?n" "prev_seg h = Some ?p" using m by (simp_all add: next_seg_def prev_seg_def holds_metadata)
  have h1: "header_of ?s1 x = Some h" "?p = Some y \<Longrightarrow> header_of ?s1 y = header_of s y" for y
    using nb h neighbours_header [OF nb] unfolding neighbours_def
    by (auto simp: header_of_put split: option.split)
  have "(case ?p of Some pv \<Rightarrow> do { n \<leftarrow> next_seg h; update_header ?s1 pv (set_next_seg n) } | None \<Rightarrow> Some ?s1) = Some ?s2"
  proof (cases ?p)
    case (Some y)
    then obtain hy my where y: "header_of s y = Some hy" "holds hy my" using nb unfolding neighbours_def by blast
    then have "update_header ?s1 y (set_next_seg ?n) = Some (put_header ?s1 y (with_next ?n hy))"
      using h1(2) [OF Some] by (simp add: update_header_def set_next_seg_def with_links)
    then show ?thesis using Some lk y by simp
  qed simp
  moreover have "(case ?n of Some nx \<Rightarrow> do { p \<leftarrow> prev_seg h; update_header s nx (set_prev_seg p) } | None \<Rightarrow> Some s) = Some ?s1"
    using update_links_eval(1) [OF nb] lk by (simp split: option.split)
  ultimately have "unlink s x = Some ?s2" unfolding unlink_def by (simp only: h bind.bind_lunit lk h1(1))
  moreover have "header_of ?s2 y = (if y = x then Some h
       else if ?n = Some y then map_option (with_prev ?p) (header_of s y)
       else if ?p = Some y then map_option (with_next ?n) (header_of s y) else header_of s y)" for y
    using nb h neighbours_header [OF nb] unfolding neighbours_def
    by (cases ?n; cases ?p) (auto simp: header_of_put)
  moreover have "same_store s ?s2" "same_queues s ?s2" "sg_admission_count ?s2 = sg_admission_count s" "sg_gauges ?s2 = sg_gauges s"
    by (simp_all add: same_store_def same_queues_def split: option.split)
  ultimately show thesis using that by (simp add: unlinked_def)
qed

lemma same_other [simp]:
  "same_store s (s'\<lparr>sg_gauges := q\<rparr>) = same_store s s'" "same_store s (s'\<lparr>sg_admission_count := a\<rparr>) = same_store s s'"
  "same_store s (put_header s' x h) = same_store s s'" "same_queues s (s'\<lparr>sg_gauges := q\<rparr>) = same_queues s s'"
  "same_queues s (s'\<lparr>sg_admission_count := a\<rparr>) = same_queues s s'" "same_queues s (put_header s' x h) = same_queues s s'"
  "unlinked s p x n h (s'\<lparr>sg_gauges := q\<rparr>) = unlinked s p x n h s'"
  "unlinked s p x n h (s'\<lparr>sg_admission_count := a\<rparr>) = unlinked s p x n h s'"
  by (simp_all add: same_store_def same_queues_def unlinked_def)

lemma put_header_admission: "put_header (s\<lparr>sg_admission_count := a\<rparr>) x h = (put_header s x h)\<lparr>sg_admission_count := a\<rparr>"
  by (simp add: put_header_def)

lemma unlinked_put: "unlinked s p x n h s' \<Longrightarrow> unlinked s p x n h' (put_header s' x h')"
proof -
  assume u: "unlinked s p x n h s'"
  then have "header_of s' x \<noteq> None" by (simp add: unlinked_def)
  then show ?thesis using u by (simp add: unlinked_def header_of_put)
qed

lemma return_segment_eval:
  "unlinked s p x n h s' \<Longrightarrow> unlinked s p x n h (return_segment s' y)" "same_queues s s' \<Longrightarrow> same_store s s' \<Longrightarrow> requeued y s (return_segment s' y)"
  by (auto simp: return_segment_def push_freed_def Let_def compare_exchange_def unlinked_def same_store_def same_queues_def requeued_def)

lemma leave_pool_eval:
  assumes "header_of s x = Some h"
  obtains n where "leave_pool s x = Some (put_header (s\<lparr>sg_admission_count := n\<rparr>) x (reset_pool h))"
proof (cases "header_pool h")
  case Main
  have "s\<lparr>sg_admission_count := sg_admission_count s\<rparr> = s" by simp
  then show thesis using that [of "sg_admission_count s"] assms Main by (simp add: leave_pool_def update_header_def)
next
  case Admission
  then show thesis using that [of "sg_admission_count s - 1"] assms by (simp add: leave_pool_def update_header_def)
qed

lemma reset_stats_eval:
  assumes "header_of s x = Some h"
  obtains q where "reset_stats_of i s x = Some ((put_header s x (fst (reset_write_stats i (h, sg_gauges s))))\<lparr>sg_gauges := q\<rparr>)"
  using assms by (simp add: reset_stats_of_def split_beta Let_def put_header_gauges)

text \<open>Recycling a drained segment.\<close>

lemma recycle_eval:
  assumes h: "header_of s x = Some h" and m: "holds h m" "md_state m = Draining" and nb: "neighbours s (md_prev m) x (md_next m)"
  obtains s' h' where "recycle i s x = Some s'" "unlinked s (md_prev m) x (md_next m) h' s'" "gone i Free h h'" "requeued x s s'"
proof -
  let ?p = "md_prev m" and ?n = "md_next m"
  from unlink_eval [OF h m(1) nb] obtain s1 where s1: "unlink s x = Some s1" "unlinked s ?p x ?n h s1" "same_queues s s1" by metis
  have h1: "header_of s1 x = Some h" using s1(2) by (simp add: unlinked_def)
  from leave_pool_eval [OF h1] obtain n where s2: "leave_pool s1 x = Some (put_header (s1\<lparr>sg_admission_count := n\<rparr>) x (reset_pool h))" (is "_ = Some ?s2") .
  have h2: "header_of ?s2 x = Some (reset_pool h)" using h1 by (simp add: header_of_put)
  define k where "k = fst (reset_write_stats i (reset_pool h, sg_gauges ?s2))"
  from reset_stats_eval [OF h2] obtain q where s3: "reset_stats_of i ?s2 x = Some ((put_header ?s2 x k)\<lparr>sg_gauges := q\<rparr>)" (is "_ = Some ?s3")
    unfolding k_def .
  have k: "hd_metadata k = hd_metadata h" "hd_write_offset k = initial_offset i" "hd_id k = hd_id h" "hd_ref_count k = hd_ref_count h"
    "hd_active_writers k = hd_active_writers h" "hd_active_removers k = hd_active_removers h" "hd_generation k = hd_generation h"
    "hd_create_at k = hd_create_at h" "hd_ttl k = hd_ttl h"
    unfolding k_def by (simp_all add: reset_write_stats_def reset_pool_def Let_def)
  have h3: "header_of ?s3 x = Some k" using h1 by (simp add: header_of_put)
  have hk: "holds k m" using m(1) by (simp add: holds_def k(1))
  from try_release_drained_moves [OF hk] m(2) obtain r where r: "try_release_drained k = Some r" "moves [Draining] Free True k m r" by blast
  have "\<exists>w. r = (True, (k\<lparr>hd_metadata := w\<rparr>)\<lparr>hd_generation := hd_generation k + 1\<rparr>)"
    using r(1) hk m(2) by (auto simp: try_release_drained_def bump_generation_def cas_metadata_eval)
  then obtain k' where r': "r = (True, k')" "gone i Free k k'" using r(2) m(2) by (fastforce simp: moves_def gone_def)
  have "recycle i s x = Some (return_segment (put_header ?s3 x k') x)"
    unfolding recycle_def by (simp only: s1 s2 s3 bind.bind_lunit on_header_eval [OF h3] r(1) r' option.map prod.case)
  moreover have u: "unlinked s ?p x ?n k' (put_header ?s3 x k')"
    by (simp add: put_header_gauges put_header_admission unlinked_put [OF s1(2)])
  moreover have "requeued x s (return_segment (put_header ?s3 x k') x)"
    by (rule return_segment_eval(2)) (use s1(3) u in \<open>simp_all add: unlinked_def\<close>)
  moreover have "gone i Free h k'" using r'(2) k by (auto simp: gone_def)
  ultimately show thesis by (intro that [OF _ return_segment_eval(1) [OF u]])
qed

text \<open>Condemning one that a reader still holds.\<close>

lemma condemn_eval:
  assumes h: "header_of s x = Some h" and m: "holds h m" "md_state m = Draining" and nb: "neighbours s p x n"
    and r: "hd_ref_count h \<noteq> 0"
  obtains s' h' where "condemn i s x n p = Some (CDeferred, s')" "unlinked s p x n h' s'" "gone i AwaitingRelease h h'" "same_queues s s'"
proof -
  from leave_pool_eval [OF h] obtain a where s1: "leave_pool s x = Some (put_header (s\<lparr>sg_admission_count := a\<rparr>) x (reset_pool h))" (is "_ = Some ?s1") .
  let ?w = "metadata_pack \<lparr>md_next = None, md_prev = None, md_state = AwaitingRelease, md_tag = ucast (hd_generation h AND 0xFF)\<rparr>"
  let ?h' = "(reset_pool h)\<lparr>hd_metadata := ?w\<rparr>"
  have hs: "header_of s x \<noteq> None" using h by simp
  have h1: "header_of ?s1 x = Some (reset_pool h)" using hs by (simp add: header_of_put)
  have gr: "hd_generation (reset_pool h) = hd_generation h" by (simp add: reset_pool_def)
  have "holds (reset_pool h) m" using m(1) by (simp add: holds_def reset_pool_def)
  then have "cas_condemn (reset_pool h) = Some (True, ?h')"
    using m(2) gr by (simp add: cas_condemn_def holds_unpack cas_word_same Let_def)
  then have s2: "on_header ?s1 x cas_condemn = Some (True, put_header ?s1 x ?h')" (is "_ = Some (True, ?s2)") using h1 by (simp add: on_header_eval)
  have o2: "header_of ?s2 y = (if y = x then Some ?h' else header_of s y)" for y using hs by (simp add: header_of_put)
  have nb2: "neighbours ?s2 p x n" using nb o2 by (simp add: neighbours_def)
  let ?s3 = "case p of Some y \<Rightarrow> put_header ?s2 y (with_next n (the (header_of s y))) | None \<Rightarrow> ?s2"
  let ?s4 = "case n of Some y \<Rightarrow> put_header ?s3 y (with_prev p (the (header_of s y))) | None \<Rightarrow> ?s3"
  have e3: "(case p of Some y \<Rightarrow> update_header ?s2 y (update_links (Some n) None) | None \<Rightarrow> Some ?s2) = Some ?s3"
    using update_links_eval(2) [OF nb2] neighbours_header [OF nb] o2 by (auto simp: set_next_seg_def [abs_def] split: option.split)
  have o3: "n = Some y \<Longrightarrow> header_of ?s3 y = header_of s y" for y
    using nb neighbours_header [OF nb2] neighbours_header [OF nb] o2 unfolding neighbours_def
    by (auto simp: header_of_put split: option.split)
  have e4: "(case n of Some y \<Rightarrow> update_header ?s3 y (update_links None (Some p)) | None \<Rightarrow> Some ?s3) = Some ?s4"
  proof (cases n)
    case (Some y)
    then obtain hy my where y: "header_of s y = Some hy" "holds hy my" using nb unfolding neighbours_def by blast
    then show ?thesis using o3 [OF Some] Some by (simp add: update_header_def with_links)
  qed simp
  have o4: "header_of ?s4 y = (if y = x then Some ?h' else if n = Some y then map_option (with_prev p) (header_of s y)
       else if p = Some y then map_option (with_next n) (header_of s y) else header_of s y)" for y
    using nb2 nb neighbours_header [OF nb2] o2 unfolding neighbours_def
    by (cases n; cases p) (auto simp: header_of_put)
  have h4: "header_of ?s4 x = Some ?h'" using o4 [of x] by simp
  have "condemn i s x n p = Some (CDeferred, ?s4)"
    unfolding condemn_def
    by (simp only: s1 s2 e3 e4 h4 bind.bind_lunit prod.case) (simp add: r reset_pool_def)
  moreover have "same_store s ?s4" "same_queues s ?s4"
    by (simp_all add: same_store_def same_queues_def split: option.split)
  moreover have "gone i AwaitingRelease h ?h'" by (auto simp: gone_def holds_def reset_pool_def)
  ultimately show thesis using that o4 by (simp add: unlinked_def)
qed

end
