(* ===== verification/CacheDrain.thy ===== *)
theory CacheDrain
  imports CacheGet ChainUnlink
begin

unbundle bit_operations_syntax

text \<open>
  Draining a segment out of the composed cache: its items are unlinked from the hashtable, it leaves its chain, and
  everything else is as it was.
\<close>

section \<open>The chain without a segment\<close>

lemma chain_from_node: "chain_from s None (as @ x # cs) \<Longrightarrow> node s (at_last as) x (at_head cs)"
proof -
  assume "chain_from s None (as @ x # cs)"
  from this [unfolded chain_from_iff, rule_format, of as x cs] show ?thesis by (cases as) simp_all
qed

lemma chain_drop:
  assumes ch: "chain_from s None (as @ x # cs)" and d: "distinct (as @ x # cs)" and e: "as = [] \<or> cs \<noteq> []"
    and u: "unlinked s (at_last as) x (at_head cs) h' s'"
  shows "chain_from s' None (as @ cs)"
  unfolding chain_from_iff
proof (intro allI impI)
  fix us y vs assume sp: "as @ cs = us @ y # vs"
  have lk: "link_ok (at_last as)" "link_ok (at_head cs)"
  proof -
    have "\<And>z. z \<in> set (as @ cs) \<Longrightarrow> link_ok (Some z)"
    proof -
      fix z assume "z \<in> set (as @ cs)"
      then obtain a b where "as @ x # cs = a @ z # b" by (metis in_set_conv_decomp set_append Un_iff append.assoc append_Cons)
      then show "link_ok (Some z)" using ch unfolding chain_from_iff node_def by (metis link_id_ok)
    qed
    then show "link_ok (at_last as)" "link_ok (at_head cs)" by (cases as; cases cs; auto simp: at_last_def at_head_def)+
  qed
  have hd': "header_of s' z = (if z = x then Some h' else if at_head cs = Some z then map_option (with_prev (at_last as)) (header_of s z)
       else if at_last as = Some z then map_option (with_next (at_head cs)) (header_of s z) else header_of s z)" for z
    using u by (simp add: unlinked_def)
  have nb: "node s q z r \<Longrightarrow> z \<noteq> x \<Longrightarrow> node s' (if at_head cs = Some z then at_last as else q) z
      (if at_last as = Some z then at_head cs else r)" if "at_head cs = Some z \<Longrightarrow> at_last as \<noteq> Some z"
      "at_last as = Some z \<Longrightarrow> r \<noteq> None" for q z r
  proof -
    assume n: "node s q z r" and z: "z \<noteq> x"
    then obtain h m where h: "link_id z" "header_of s z = Some h" "holds h m" "md_prev m = q" "md_next m = r"
      "md_state m = (if r = None then Live else Sealed)" by (auto simp: node_def)
    show ?thesis
    proof (cases "at_head cs = Some z")
      case True
      then show ?thesis using that z h hd' [of z] with_links(3) [OF h(3) lk(1)]
          nodeI [OF h(1), of s' "with_prev (at_last as) h" "m\<lparr>md_prev := at_last as\<rparr>"] by simp
    next
      case F: False
      show ?thesis
      proof (cases "at_last as = Some z")
        case True
        then have "cs \<noteq> []" using e by auto
        then have "at_head cs \<noteq> None" by (cases cs) simp_all
        then show ?thesis using that z h F True hd' [of z] with_links(4) [OF h(3) lk(2)]
          nodeI [OF h(1), of s' "with_next (at_head cs) h" "m\<lparr>md_next := at_head cs\<rparr>"] by simp
      next
        case False
        then show ?thesis using F n z hd' [of z] node_cong [of s' z s] by simp
      qed
    qed
  qed
  from sp consider (left) ws where "as = us @ y # ws" "vs = ws @ cs" | (right) ws where "us = as @ ws" "cs = ws @ y # vs"
    by (auto simp: append_eq_append_conv2 append_eq_Cons_conv Cons_eq_append_conv)
  then show "node s' (if us = [] then None else at_last us) y (at_head vs)"
  proof cases
    case left
    have n: "node s (if us = [] then None else at_last us) y (at_head (ws @ x # cs))"
      using ch unfolding chain_from_iff left(1) by (auto dest!: spec [of _ us])
    have ne: "y \<noteq> x" "at_head cs \<noteq> Some y" using d left(1) by (cases cs; auto)+
    have la: "at_last as = Some y \<longleftrightarrow> ws = []" using d left(1) by (auto simp: at_last_def)
    show ?thesis
    proof (cases ws)
      case Nil
      then show ?thesis using nb [OF _ _ n ne(1)] ne la left by simp
    next
      case (Cons w ws')
      then show ?thesis using nb [OF _ _ n ne(1)] ne la left by simp
    qed
  next
    case right
    have n: "node s (at_last (as @ x # ws)) y (at_head vs)"
      using ch chain_from_node [of s "as @ x # ws" y vs] right(2) by simp
    have ne: "y \<noteq> x" "at_last as \<noteq> Some y" using d right(2) by (cases as rule: rev_cases; auto)+
    have la: "at_head cs = Some y \<longleftrightarrow> ws = []" using d right(2) by (cases ws) auto
    have "(if us = [] then None else at_last us) = (if ws = [] then at_last as else at_last ws)"
      using right(1) by (cases ws rule: rev_cases; cases as) (simp_all add: at_last_def)
    then show ?thesis using nb [OF _ _ n ne(1)] ne la by (cases ws rule: rev_cases) (auto simp: at_last_def)
  qed
qed

section \<open>Clearing a segment\<close>

definition at_seg :: "u32 \<Rightarrow> location set" where
  "at_seg x = {l. fst (unpack_location l) = x}"

text \<open>The memory of an empty segment may hold a stale item, which no entry leads to.\<close>

lemma clear_stale:
  assumes h: "header_of s x = Some h" and mx: "mx = max_item_offset i s h" "mx = item_start i"
    and st: "item_start_ok i s x" and li: "hd_live_items h = 0" and ca: "cached K ht M" and K: "K (loc_of x h (item_start i)) = None"
  shows "clear_loop i x mx (item_start i) (s, ht) = Some (s, ht)"
proof -
  let ?o = "item_start i" and ?a = "seg_base s x + item_start i"
  have it: "seg_item_at i s x ?o = Some ?a" using h mx by (simp add: seg_item_at_def byte_offset_def)
  from st consider (zero) "raw_klen i (sg_data s) ?a = Some 0" | (stale) c where "cell_at i (sg_data s) ?a c"
    by (auto simp: item_start_ok_def Let_def)
  then show ?thesis
  proof cases
    case zero
    then show ?thesis using it h li mx by (subst clear_loop.simps) simp
  next
    case stale
    note rd = cell_reads [OF stale]
    let ?K = "K(loc_of x h ?o := Some (ce_key c))"
    have "cached ?K ht M"
      by (rule cached_cong [OF ca]) (use cached_key [OF ca] K in \<open>auto split: if_splits\<close>)
    moreover have "M (ce_key c) \<noteq> Some (loc_of x h ?o)" using cached_key [OF ca] K by fastforce
    ultimately have "get_item_frequency (ce_key c) (loc_of x h ?o) ht = None" using cached_frequency [of ?K ht M] by simp
    then have ci: "clear_item i x ?o ?a (s, ht) = Some (s, ht)" using rd h by (simp add: clear_item_def loc_of_def)
    have "clear_loop i x mx (?o + csize i c) (s, ht) = Some (s, ht)"
      using csize_pos(1) [of i c] mx by (subst clear_loop.simps) simp
    then show ?thesis using it h rd ci mx by (subst clear_loop.simps) simp
  qed
qed

lemma seg_clear_drains:
  assumes t: "tiled i (sg_data s) (seg_base s x) (item_start i) cs (nat (sint (hd_write_offset h)))"
    and h: "header_of s x = Some h" and w: "0 \<le> sint (hd_write_offset h)" "sint (hd_write_offset h) \<le> sint (sg_segment_size s)"
    and sz: "seg_bytes s \<le> MAX_SEGMENT_BYTES" and st: "item_start_ok i s x" and mg: "seg_check_magic i s x = Some ()"
    and K: "\<And>pos c. (pos, c) \<in> set cs \<Longrightarrow> K (loc_of x h pos) = Some (ce_key c)" "cs = [] \<Longrightarrow> K (loc_of x h (item_start i)) = None"
    and ca: "cached K ht M" and cn: "counts i (sint (initial_offset i)) (linked M x h cs) h"
  obtains h' q ht' where "seg_clear i (s, ht) x = Some ((put_header s x h')\<lparr>sg_gauges := q\<rparr>, ht')"
    "cached K ht' (forget (locs x h cs) M)" "same_life (h\<lparr>hd_write_offset := initial_offset i\<rparr>) h'" "hd_ref_count h' = hd_ref_count h"
    "hd_active_writers h' = hd_active_writers h" "hd_active_removers h' = hd_active_removers h"
proof -
  let ?e = "nat (sint (hd_write_offset h))" and ?mx = "max_item_offset i s h"
  have ini: "(if i then 8 else 0) = item_start i" by (simp add: item_start_def)
  have hs: "header_of s x \<noteq> None" using h by simp
  have "\<exists>h' q ht'. clear_loop i x ?mx (item_start i) (s, ht) = Some ((put_header s x h')\<lparr>sg_gauges := q\<rparr>, ht')
      \<and> cached K ht' (forget (locs x h cs) M) \<and> cleared (sint (initial_offset i)) h h'"
  proof (cases cs)
    case Nil
    have "?e = item_start i" using t Nil by simp
    then have mx: "?mx = item_start i"
      using item_start_eq(3) [of i] w by (auto simp: max_item_offset_def item_start_def ITEM_HDR_SIZE_def split: if_splits)
    have c0: "cleared (sint (initial_offset i)) h h" using cn Nil by (intro cleared_done [of i]) simp
    have "hd_live_items h = 0" using cn Nil i32_eqI [of "hd_live_items h" 0] by (simp add: counts_def)
    from clear_stale [OF h refl mx st this ca K(2) [OF Nil]] ca Nil c0 show ?thesis
      using put_header_same [OF h] by (intro exI [of _ h] exI [of _ "sg_gauges s"] exI [of _ ht]) simp
  next
    case (Cons d ds)
    then obtain c where "tiled i (sg_data s) (seg_base s x) (item_start i + csize i c) ds ?e" using t by (cases d) auto
    then have "ITEM_HDR_SIZE i < ?e" using tiled_le csize_pos(1) [of i c] by fastforce
    then have "?mx + ITEM_HDR_SIZE i = ?e" using w by (auto simp: max_item_offset_def)
    moreover have "?e \<le> MAX_SEGMENT_BYTES" using w sz by linarith
    moreover have "0 \<le> sint (initial_offset i)" by (simp add: initial_offset_def)
    ultimately show ?thesis
      using clear_loop_drains [OF t item_start_eq(2) _ h refl _ K(1) ca cn _ mg] by metis
  qed
  then obtain h1 q ht' where r: "clear_loop i x ?mx (item_start i) (s, ht) = Some ((put_header s x h1)\<lparr>sg_gauges := q\<rparr>, ht')"
    "cached K ht' (forget (locs x h cs) M)" and cl: "cleared (sint (initial_offset i)) h h1" by blast
  let ?h' = "set_write_offset (hd_live_bytes h1) h1"
  have "seg_clear i (s, ht) x = Some ((put_header s x ?h')\<lparr>sg_gauges := q\<rparr>, ht')"
    using r(1) h unfolding seg_clear_def ini by (simp add: update_header_def header_of_put [OF hs] put_header_gauges)
  moreover have "same_life (h\<lparr>hd_write_offset := initial_offset i\<rparr>) ?h'" "hd_ref_count ?h' = hd_ref_count h"
    "hd_active_writers ?h' = hd_active_writers h" "hd_active_removers ?h' = hd_active_removers h"
    using cl by (auto simp: cleared_def same_life_def set_write_offset_def)
  ultimately show thesis using that r(2) by metis
qed

section \<open>The invariant after a segment left\<close>

definition without_seg :: "u32 \<Rightarrow> nat \<Rightarrow> ghost \<Rightarrow> ghost" where
  "without_seg x j g = g\<lparr>g_items := (g_items g)(x := []), g_map := forget (at_seg x) (g_map g),
     g_chains := (g_chains g)(j := remove1 x (g_chains g j))\<rparr>"

lemma without_seg_fields [simp]:
  "g_items (without_seg x j g) = (g_items g)(x := [])" "g_map (without_seg x j g) = forget (at_seg x) (g_map g)"
  "g_chains (without_seg x j g) = (g_chains g)(j := remove1 x (g_chains g j))" "g_extra (without_seg x j g) = g_extra g"
  "g_writer (without_seg x j g) = g_writer g" "g_remover (without_seg x j g) = g_remover g"
  "quiescent (without_seg x j g) = quiescent g"
  by (simp_all add: without_seg_def quiescent_def)

lemma content_without:
  assumes c: "cinv i s ht bs g"
  shows "content (without_seg x j g) k = (case content g k of Some (y, d) \<Rightarrow> if y = x then None else Some (y, d) | None \<Rightarrow> None)"
proof (cases "content g k")
  case None
  then show ?thesis using content_None [OF c, of k] by (simp add: content_def forget_def)
next
  case (Some yd)
  then obtain y d where yd: "content g k = Some (y, d)" by (cases yd) simp
  from content_Some [OF c yd] obtain h pos where h: "header_of s y = Some h" "g_map g k = Some (loc_of y h pos)"
    "(pos, d) \<in> set (g_items g y)" "unpack_location (loc_of y h pos) = (y, pos)" by metis
  then show ?thesis using yd in_bounds(8) [OF c h(1,3)] by (simp add: content_def forget_def at_seg_def item_of_def)
qed

lemma forget_at_seg:
  assumes c: "cinv i s ht bs g" and h: "header_of s x = Some h"
  shows "forget (locs x h (g_items g x)) (g_map g) = forget (at_seg x) (g_map g)"
proof
  fix k
  show "forget (locs x h (g_items g x)) (g_map g) k = forget (at_seg x) (g_map g) k"
  proof (cases "g_map g k")
    case (Some l)
    from entry_item [OF c Some] obtain y hy pos d where y: "header_of s y = Some hy" "l = loc_of y hy pos" "(pos, d) \<in> set (g_items g y)"
      "unpack_location l = (y, pos)" by metis
    have "l \<in> locs x h (g_items g x) \<longleftrightarrow> y = x"
    proof
      assume "l \<in> locs x h (g_items g x)"
      then obtain p' d' where "(p', d') \<in> set (g_items g x)" "l = loc_of x h p'" unfolding in_locs_iff by blast
      then show "y = x" using in_bounds(9) [OF c h] y(4) by fastforce
    next
      assume "y = x"
      then show "l \<in> locs x h (g_items g x)" using y h unfolding in_locs_iff by auto
    qed
    then show ?thesis using Some y(4) by (simp add: forget_def at_seg_def)
  qed (simp add: forget_def)
qed

text \<open>
  The segment \<open>x\<close> leaves the chain of the bucket with index \<open>j\<close>, from between \<open>as\<close> and \<open>cs\<close>.
\<close>

definition leaves :: "bool \<Rightarrow> segments \<Rightarrow> u32 list \<Rightarrow> u32 \<Rightarrow> u32 list \<Rightarrow> seg_header \<Rightarrow> segments \<Rightarrow> bool" where
  "leaves i s as x cs h s' \<longleftrightarrow> (\<exists>h' st. unlinked s (at_last as) x (at_head cs) h' s' \<and> gone i st h h'
     \<and> (st = Free \<and> requeued x s s' \<or> st = AwaitingRelease \<and> hd_ref_count h \<noteq> 0 \<and> same_queues s s'))"

lemma unlinked_header:
  assumes u: "unlinked s p x n h' s'" and nb: "neighbours s p x n" and lk: "link_ok p" "link_ok n" and y: "y \<noteq> x"
    and k: "header_of s' y = Some k"
  obtains k0 where "header_of s y = Some k0" "k = k0 \<or> k = with_prev p k0 \<or> k = with_next n k0"
    "\<And>m. holds k0 m \<Longrightarrow> \<exists>m'. holds k m' \<and> md_state m' = md_state m"
proof -
  obtain k0 where k0: "header_of s y = Some k0" "k = k0 \<or> k = with_prev p k0 \<or> k = with_next n k0"
    using u y k by (auto simp: unlinked_def split: if_splits)
  moreover have "\<exists>m'. holds k m' \<and> md_state m' = md_state m" if "holds k0 m" for m
    using k0(2) that with_links(3) [OF that lk(1)] with_links(4) [OF that lk(2)] by auto
  ultimately show thesis using that by metis
qed

lemma requeued_queued: "requeued x s s' \<Longrightarrow> set (queued s') = insert x (set (queued s)) \<and> (distinct (queued s) \<and> x \<notin> set (queued s) \<longrightarrow> distinct (queued s'))"
  by (auto simp: requeued_def queued_def)

lemma same_queues_queued: "same_queues s s' \<Longrightarrow> queued s' = queued s"
  by (simp add: same_queues_def queued_def)

lemma unat_less_incr: "a < b \<Longrightarrow> unat (a + 1) = Suc (unat a)" for a b :: u32
  using unsigned_less [of b, where ?'a = nat] by (simp add: unat_word_ariths word_less_nat_alt)

lemma leaves_shape:
  assumes sh: "shape i s" and l: "leaves i s as x cs h s'" and h: "header_of s x = Some h" and q: "x \<notin> set (queued s)"
    and nb: "neighbours s (at_last as) x (at_head cs)" and lk: "link_ok (at_last as)" "link_ok (at_head cs)"
  shows "shape i s'"
proof -
  obtain h' st where u: "unlinked s (at_last as) x (at_head cs) h' s'" and g: "gone i st h h'"
    and r: "st = Free \<and> requeued x s s' \<or> st = AwaitingRelease \<and> same_queues s s'" using l by (auto simp: leaves_def)
  have same: "sg_data s' = sg_data s" "sg_segment_size s' = sg_segment_size s" "sg_cap s' = sg_cap s"
    "length (sg_headers s') = length (sg_headers s)" "sg_spare_capacity s' = sg_spare_capacity s"
    using u by (simp_all add: unlinked_def same_store_def)
  have st: "item_start_ok i s' y = item_start_ok i s y" "seg_check_magic i s' y = seg_check_magic i s y" for y
    by (simp_all add: item_start_ok_def seg_check_magic_def byte_offset_def same)
  have ok: "store_ok i s" by (rule shape_parts(1) [OF sh])
  have dom: "header_of s' y = None \<longleftrightarrow> header_of s y = None" for y
    using same(4) by (simp add: header_of_def)
  have fit: "0 \<le> sint (initial_offset i)" "sint (initial_offset i) \<le> sint (sg_segment_size s)"
    using ok by (simp_all add: store_ok_def fits_segment_def initial_offset_def)
  have qs: "set (queued s') = (if st = Free then insert x (set (queued s)) else set (queued s))" "distinct (queued s')"
    using r requeued_queued [of x s s'] same_queues_queued [of s s'] q ok by (auto simp: store_ok_def)
  have good: "header_good s' y k" if k: "header_of s' y = Some k" for y k
  proof (cases "y = x")
    case True
    then have [simp]: "k = h'" using k u by (simp add: unlinked_def)
    obtain t where t: "holds h' \<lparr>md_next = None, md_prev = None, md_state = st, md_tag = t\<rparr>" using g by (auto simp: gone_def)
    have "0 \<le> sint (hd_write_offset h')" "sint (hd_write_offset h') \<le> sint (sg_segment_size s)"
      using g fit shape_header(8,9) [OF sh h] by (auto simp: gone_def)
    moreover have "st = Free \<longleftrightarrow> x \<in> set (queued s')" using qs q by auto
    ultimately show ?thesis using t True same unfolding header_good_def by auto
  next
    case False
    from unlinked_header [OF u nb lk False k] obtain k0 where k0: "header_of s y = Some k0"
      "k = k0 \<or> k = with_prev (at_last as) k0 \<or> k = with_next (at_head cs) k0"
      "\<And>m. holds k0 m \<Longrightarrow> \<exists>m'. holds k m' \<and> md_state m' = md_state m" by metis
    from store_header [OF ok k0(1)] obtain m where m: "holds k0 m" "md_state m = Free \<longleftrightarrow> y \<in> set (queued s)"
      "0 \<le> sint (hd_write_offset k0)" "sint (hd_write_offset k0) \<le> sint (sg_segment_size s)" by (auto simp: header_good_def)
    moreover have "y \<in> set (queued s') \<longleftrightarrow> y \<in> set (queued s)" using qs False by auto
    moreover have "hd_write_offset k = hd_write_offset k0" using k0(2) by auto
    ultimately show ?thesis using k0(3) [OF m(1)] same unfolding header_good_def by metis
  qed
  have "store_ok i s'"
    using ok good qs dom h same unfolding store_ok_def fits_segment_def by (auto split: if_splits)
  moreover have "hd_id k = y" if k: "header_of s' y = Some k" for y k
  proof (cases "y = x")
    case True
    then show ?thesis using k u g shape_header(1) [OF sh h] by (simp add: unlinked_def gone_def)
  next
    case False
    from unlinked_header [OF u nb lk False k] obtain k0 where "header_of s y = Some k0"
      "k = k0 \<or> k = with_prev (at_last as) k0 \<or> k = with_next (at_head cs) k0" by metis
    then show ?thesis using shape_header(1) [OF sh] by auto
  qed
  moreover have "unat (sg_spare_count s') = length (sg_spare_queue s') \<and> length (sg_spare_queue s') \<le> unat (sg_spare_capacity s')"
  proof -
    have c: "unat (sg_spare_count s) = length (sg_spare_queue s)" "length (sg_spare_queue s) \<le> unat (sg_spare_capacity s)"
      using sh by (simp_all add: shape_def)
    show ?thesis using r
    proof
      assume "st = AwaitingRelease \<and> same_queues s s'"
      then show ?thesis using c same by (simp add: same_queues_def)
    next
      assume "st = Free \<and> requeued x s s'"
      then show ?thesis using c same unat_less_incr [of "sg_spare_count s"] by (auto simp: requeued_def word_less_nat_alt)
    qed
  qed
  moreover have "seg_check_magic i s' y = Some () \<and> item_start_ok i s' y" if "header_of s' y = Some k" for y k
    using that dom [of y] shape_header(2,3) [OF sh, of y] st by (cases "header_of s y") auto
  ultimately show ?thesis using sh same unfolding shape_def by auto
qed

lemma chain_member_header:
  assumes ch: "chain_from s None xs" and x: "x \<in> set xs"
  obtains h m where "header_of s x = Some h" "holds h m" "md_state m \<in> {Live, Sealed}" "link_id x"
proof -
  obtain us vs where "xs = us @ x # vs" using x by (meson split_list)
  then have "node s (at_last us) x (at_head vs)" using chain_from_node ch by simp
  then show thesis using that by (auto simp: node_def split: if_splits)
qed

lemma chain_neighbours:
  assumes ch: "chain_from s None (as @ x # cs)" and d: "distinct (as @ x # cs)"
  shows "neighbours s (at_last as) x (at_head cs)" "link_ok (at_last as)" "link_ok (at_head cs)"
proof -
  have nb: "y \<in> set as \<or> y \<in> set cs" if "at_last as = Some y \<or> at_head cs = Some y" for y
    using that by (cases cs) (auto simp: at_last_def split: if_splits)
  have hd': "\<exists>h m. header_of s y = Some h \<and> holds h m" "link_ok (Some y)" if "at_last as = Some y \<or> at_head cs = Some y" for y
    using chain_member_header [OF ch, of y] nb [OF that] link_id_ok by (auto, metis+)
  have "at_last as = at_head cs \<longrightarrow> at_last as = None"
    using d by (cases cs) (auto simp: at_last_def split: if_splits)
  then show "neighbours s (at_last as) x (at_head cs)"
    unfolding neighbours_def using nb hd'(1) d by fastforce
  show "link_ok (at_last as)" "link_ok (at_head cs)"
    using hd'(2) by (cases "at_last as"; simp) (cases "at_head cs"; simp add: hd'(2))
qed

lemma chains_okD:
  assumes c: "chains_ok s bs g" and j: "j < length bs"
  shows "tb_ttl (bs ! j) = of_nat (bucket_ttls ! j)" "chain s (bs ! j) (g_chains g j)" "distinct (g_chains g j)"
    "chain_from s None (g_chains g j)" "g_chains g j \<noteq> [] \<Longrightarrow> get_bucket_index (tb_ttl (bs ! j)) = j"
    "x \<in> set (g_chains g j) \<Longrightarrow> header_of s x = Some h \<Longrightarrow> hd_ttl h = tb_ttl (bs ! j)" "length bs = length bucket_ttls"
    "l < length bs \<Longrightarrow> l \<noteq> j \<Longrightarrow> x \<in> set (g_chains g j) \<Longrightarrow> x \<notin> set (g_chains g l)"
proof -
  have all: "tb_ttl (bs ! j) = of_nat (bucket_ttls ! j) \<and> chain s (bs ! j) (g_chains g j)
      \<and> (g_chains g j \<noteq> [] \<longrightarrow> get_bucket_index (tb_ttl (bs ! j)) = j)
      \<and> (\<forall>x h. x \<in> set (g_chains g j) \<longrightarrow> header_of s x = Some h \<longrightarrow> hd_ttl h = tb_ttl (bs ! j))"
    using assms unfolding chains_ok_def by blast
  then show "tb_ttl (bs ! j) = of_nat (bucket_ttls ! j)" "chain s (bs ! j) (g_chains g j)" "distinct (g_chains g j)"
    "chain_from s None (g_chains g j)" "g_chains g j \<noteq> [] \<Longrightarrow> get_bucket_index (tb_ttl (bs ! j)) = j"
    "x \<in> set (g_chains g j) \<Longrightarrow> header_of s x = Some h \<Longrightarrow> hd_ttl h = tb_ttl (bs ! j)" by (auto simp: chain_def)
  show "length bs = length bucket_ttls" using c by (simp add: chains_ok_def)
  show "l < length bs \<Longrightarrow> l \<noteq> j \<Longrightarrow> x \<in> set (g_chains g j) \<Longrightarrow> x \<notin> set (g_chains g l)"
    using c j unfolding chains_ok_def by blast
qed

lemma chains_okI:
  assumes "length bs = length bucket_ttls"
    and "\<And>l. l < length bs \<Longrightarrow> tb_ttl (bs ! l) = of_nat (bucket_ttls ! l) \<and> chain s (bs ! l) (g_chains g l)
        \<and> (g_chains g l \<noteq> [] \<longrightarrow> get_bucket_index (tb_ttl (bs ! l)) = l)
        \<and> (\<forall>y k. y \<in> set (g_chains g l) \<longrightarrow> header_of s y = Some k \<longrightarrow> hd_ttl k = tb_ttl (bs ! l))"
    and "\<And>a b. a < length bs \<Longrightarrow> b < length bs \<Longrightarrow> a \<noteq> b \<Longrightarrow> set (g_chains g a) \<inter> set (g_chains g b) = {}"
  shows "chains_ok s bs g"
  unfolding chains_ok_def using assms by blast

lemma remove1_middle: "distinct (as @ x # cs) \<Longrightarrow> remove1 x (as @ x # cs) = as @ cs"
  by (simp add: remove1_append)

lemma cinv_leaves:
  assumes c: "cinv i s ht bs g" and qu: "quiescent g" and j: "j < length bs" "g_chains g j = as @ x # cs" "as = [] \<or> cs \<noteq> []"
    and h: "header_of s x = Some h" and l: "leaves i s as x cs h s'"
    and ca: "cached (key_in s (g_items g)) ht' (forget (at_seg x) (g_map g))"
    and b': "bucket_head b' = at_head (as @ cs)" "bucket_tail b' = at_last (as @ cs)" "tb_ttl b' = tb_ttl (bs ! j)"
  shows "cinv i s' ht' (bs[j := b']) (without_seg x j g)"
proof -
  let ?g = "without_seg x j g" and ?bs = "bs[j := b']"
  note co = chains_okD [OF cinv_parts(4) [OF c]]
  have d: "distinct (as @ x # cs)" and ch: "chain_from s None (as @ x # cs)" using co(3,4) [OF j(1)] j(2) by simp_all
  note nb = chain_neighbours [OF ch d]
  have sx: "x \<in> set (g_chains g j)" using j(2) by simp
  have cx: "chained bs g x" using j(1) sx by (auto simp: chained_def)
  obtain h' st where u: "unlinked s (at_last as) x (at_head cs) h' s'" and go: "gone i st h h'"
    and r: "st = Free \<and> requeued x s s' \<or> st = AwaitingRelease \<and> hd_ref_count h \<noteq> 0 \<and> same_queues s s'" using l by (auto simp: leaves_def)
  have data: "sg_data s' = sg_data s" "sg_segment_size s' = sg_segment_size s" using u by (simp_all add: unlinked_def same_store_def)
  have sb: "seg_base s' y = seg_base s y" for y by (simp add: byte_offset_def data)
  have xq: "x \<notin> set (queued s)" using chain_from_not_queued [OF cinv_parts(2) [OF c] ch] by simp
  have other: "\<exists>k0 m m'. header_of s y = Some k0 \<and> holds k0 m \<and> holds k m' \<and> md_state m' = md_state m \<and> hd_generation k = hd_generation k0
      \<and> hd_write_offset k = hd_write_offset k0 \<and> hd_live_items k = hd_live_items k0 \<and> hd_live_bytes k = hd_live_bytes k0
      \<and> hd_active_writers k = hd_active_writers k0 \<and> hd_active_removers k = hd_active_removers k0 \<and> hd_ref_count k = hd_ref_count k0
      \<and> hd_ttl k = hd_ttl k0" if y: "y \<noteq> x" and k: "header_of s' y = Some k" for y k
  proof -
    from unlinked_header [OF u nb y k] obtain k0 where k0: "header_of s y = Some k0"
      "k = k0 \<or> k = with_prev (at_last as) k0 \<or> k = with_next (at_head cs) k0"
      "\<And>m. holds k0 m \<Longrightarrow> \<exists>m'. holds k m' \<and> md_state m' = md_state m" by metis
    obtain m where m: "holds k0 m" using cinv_parts(5) [OF c k0(1)] by (auto simp: head_ok_def)
    from k0(3) [OF this] obtain m' where "holds k m'" "md_state m' = md_state m" by blast
    then show ?thesis using k0(1,2) m by (intro exI [of _ k0] exI [of _ m] exI [of _ m']) auto
  qed
  have lk: "chained ?bs ?g y \<longleftrightarrow> y \<noteq> x \<and> chained bs g y" for y
  proof -
    have "y \<in> set (g_chains ?g l) \<longleftrightarrow> y \<noteq> x \<and> y \<in> set (g_chains g l)" if "l < length bs" for l
      using co(3) [OF j(1)] co(8) [OF j(1) that _ sx] by (auto simp: set_remove1_eq)
    then show ?thesis unfolding chained_def length_list_update by blast
  qed
  have cached': "cached (key_in s' (g_items ?g)) ht' (g_map ?g)"
  proof (simp, rule cached_cong [OF ca])
    fix k l assume m: "forget (at_seg x) (g_map g) k = Some l"
    then have m': "g_map g k = Some l" "l \<notin> at_seg x" by simp_all
    from entry_item [OF c m'(1)] obtain y hy pos e where y: "header_of s y = Some hy" "readable_header hy" "l = loc_of y hy pos"
      "(pos, e) \<in> set (g_items g y)" "ce_key e = k" "unpack_location l = (y, pos)" by metis
    have yx: "y \<noteq> x" using m'(2) y(6) by (simp add: at_seg_def)
    have "header_of s' y \<noteq> None" using y(1) u by (simp add: unlinked_def header_of_def same_store_def split: if_splits)
    then obtain k' where k': "header_of s' y = Some k'" by blast
    from other [OF yx k'] y(1) obtain m m' where "holds hy m" "holds k' m'" "md_state m' = md_state m" "hd_generation k' = hd_generation hy" by auto
    then have "readable_header k'" "loc_of y k' pos = loc_of y hy pos" using y(2) by (simp_all add: readable_header_def holds_state loc_of_def)
    moreover have "map_of (g_items g y) pos = Some e" using in_bounds(8) [OF c y(1,4)] y(4) by simp
    ultimately show "key_in s' ((g_items g)(x := [])) l = Some k" using y yx k' by (simp add: key_in_def)
  qed
  have heads: "head_ok i s' ?bs ?g y k" if k: "header_of s' y = Some k" for y k
  proof (cases "y = x")
    case True
    then have [simp]: "k = h'" using k u by (simp add: unlinked_def)
    have ok: "head_ok i s bs g x h" using c h by (simp add: cinv_def)
    obtain t where t: "holds h' \<lparr>md_next = None, md_prev = None, md_state = st, md_tag = t\<rparr>" using go by (auto simp: gone_def)
    have "\<exists>m. holds h' m \<and> md_state m \<in> {Free, Live, Sealed, AwaitingRelease} \<and> (md_state m = AwaitingRelease \<longrightarrow> hd_ref_count h' \<noteq> 0)
        \<and> (is_readable (md_state m) \<longleftrightarrow> chained ?bs ?g x)"
      using t r go lk [of x] by (intro exI [of _ "\<lparr>md_next = None, md_prev = None, md_state = st, md_tag = t\<rparr>"]) (auto simp: is_readable_def gone_def)
    moreover have "hd_active_writers h' = 0" "hd_active_removers h' = 0" using ok go qu by (simp_all add: head_ok_def gone_def quiescent_def)
    ultimately show ?thesis using True lk [of x] qu unfolding head_ok_def by (simp add: quiescent_def)
  next
    case False
    from other [OF False k] obtain k0 m m' where k0: "header_of s y = Some k0" "holds k0 m" "holds k m'" "md_state m' = md_state m"
      and f: "hd_generation k = hd_generation k0" "hd_write_offset k = hd_write_offset k0" "hd_live_items k = hd_live_items k0"
        "hd_live_bytes k = hd_live_bytes k0" "hd_active_writers k = hd_active_writers k0" "hd_active_removers k = hd_active_removers k0"
        "hd_ref_count k = hd_ref_count k0" by blast
    have ok: "head_ok i s bs g y k0" using c k0(1) by (simp add: cinv_def)
    then obtain m0 where "holds k0 m0" "md_state m0 \<in> {Free, Live, Sealed, AwaitingRelease}"
      "md_state m0 = AwaitingRelease \<longrightarrow> hd_ref_count k0 \<noteq> 0" "is_readable (md_state m0) \<longleftrightarrow> chained bs g y" by (auto simp: head_ok_def)
    then have 1: "\<exists>m. holds k m \<and> md_state m \<in> {Free, Live, Sealed, AwaitingRelease} \<and> (md_state m = AwaitingRelease \<longrightarrow> hd_ref_count k \<noteq> 0)
        \<and> (is_readable (md_state m) \<longleftrightarrow> chained ?bs ?g y)"
      using k0 f(7) False lk [of y] holds_unique [OF k0(2)] by (intro exI [of _ m']) auto
    have "counted ?g y k = counted g y k0"
    proof -
      have "forget (at_seg x) (g_map g) (ce_key e) = Some (loc_of y k pos) \<longleftrightarrow> g_map g (ce_key e) = Some (loc_of y k0 pos)"
        if p: "(pos, e) \<in> set (g_items g y)" for pos e
        using in_bounds(9) [OF c k0(1) p] False f(1) by (auto simp: at_seg_def loc_of_def)
      then show ?thesis using False qu f(1) unfolding counted_def quiescent_def
        by (intro filter_cong) (auto simp: loc_of_def)
    qed
    then show ?thesis using ok 1 f False lk [of y] unfolding head_ok_def sb data counts_def
      by (simp split: if_splits)
  qed
  have lo: "length ?bs = length bucket_ttls" using co(7) [OF j(1)] by simp
  have chains: "chains_ok s' ?bs ?g"
  proof -
    have ac: "remove1 x (g_chains g j) = as @ cs" using remove1_middle [OF d] j(2) by simp
    have "set (g_chains ?g l) \<subseteq> set (g_chains g l)" for l by (simp add: set_remove1_subset)
    then have disj: "set (g_chains ?g a) \<inter> set (g_chains ?g b) = {}" if "a < length bs" "b < length bs" "a \<noteq> b" for a b
      using cinv_parts(4) [OF c] that unfolding chains_ok_def by blast
    have one: "tb_ttl (?bs ! l) = of_nat (bucket_ttls ! l) \<and> chain s' (?bs ! l) (g_chains ?g l)
        \<and> (g_chains ?g l \<noteq> [] \<longrightarrow> get_bucket_index (tb_ttl (?bs ! l)) = l)
        \<and> (\<forall>y k. y \<in> set (g_chains ?g l) \<longrightarrow> header_of s' y = Some k \<longrightarrow> hd_ttl k = tb_ttl (?bs ! l))" if ll: "l < length bs" for l
    proof (cases "l = j")
      case True
      have "chain s' b' (as @ cs)"
        using chain_drop [OF ch d j(3) u] b' d by (simp add: chain_def)
      moreover have "hd_ttl k = tb_ttl b'" if y: "y \<in> set (as @ cs)" and k: "header_of s' y = Some k" for y k
      proof -
        have "y \<noteq> x" using y d by auto
        from other [OF this k] obtain k0 where "header_of s y = Some k0" "hd_ttl k = hd_ttl k0" by blast
        then show ?thesis using co(6) [OF j(1), of y k0] y j(2) b'(3) by auto
      qed
      ultimately show ?thesis using True ac co(1,5) [OF j(1)] j b'(3) by simp
    next
      case False
      have no: "x \<notin> set (g_chains g l)" "z \<in> set as \<union> set cs \<Longrightarrow> z \<notin> set (g_chains g l)" for z
        using co(8) [OF j(1) ll False] j(2) by auto
      have "header_of s' y = header_of s y" if y: "y \<in> set (g_chains g l)" for y
      proof -
        have "y \<noteq> x" "at_head cs \<noteq> Some y" "at_last as \<noteq> Some y"
          using y no by (cases cs; auto simp: at_last_def split: if_splits)+
        then show ?thesis using u by (simp add: unlinked_def)
      qed
      then have "chain s' (bs ! l) (g_chains g l)" "\<forall>y k. y \<in> set (g_chains g l) \<longrightarrow> header_of s' y = Some k \<longrightarrow> hd_ttl k = tb_ttl (bs ! l)"
        using co(2) [OF ll] co(6) [OF ll] chain_from_cong [of "g_chains g l" s' s None] by (auto simp: chain_def)
      then show ?thesis using False co(1,5) [OF ll] by simp
    qed
    show ?thesis by (rule chains_okI [OF lo]; unfold length_list_update; (rule one | rule disj); assumption)
  qed
  show ?thesis
    unfolding cinv_def using leaves_shape [OF cinv_parts(1) [OF c] l h xq nb] heads cached' chains by blast
qed

section \<open>A drain\<close>

definition draining :: "seg_header \<Rightarrow> metadata \<Rightarrow> seg_header" where
  "draining h m = h\<lparr>hd_metadata := metadata_pack (m\<lparr>md_state := Draining\<rparr>)\<rparr>"

lemma unlinked_trans:
  assumes "unlinked s2 p x n h' s'" and "\<And>y. y \<noteq> x \<Longrightarrow> header_of s2 y = header_of s y" and "same_store s s2"
  shows "unlinked s p x n h' s'"
  using assms by (auto simp: unlinked_def same_store_def)

lemma drain_out:
  assumes c: "cinv i s ht bs g" and qu: "quiescent g" and j: "j < length bs" "g_chains g j = as @ x # cs"
    and h: "header_of s x = Some h" and m: "holds h m"
  obtains s2 ht' h2 where "seg_clear i (put_header s x (draining h m), ht) x = Some (s2, ht')"
    "cached (key_in s (g_items g)) ht' (forget (at_seg x) (g_map g))" "header_of s2 x = Some h2" "hd_ref_count h2 = hd_ref_count h"
    "hd_ref_count h = 0 \<Longrightarrow> \<exists>s'. recycle i s2 x = Some s' \<and> leaves i s as x cs h s' \<and> requeued x s s'"
    "hd_ref_count h \<noteq> 0 \<Longrightarrow> \<exists>s'. condemn i s2 x (at_head cs) (at_last as) = Some (CDeferred, s') \<and> leaves i s as x cs h s' \<and> same_queues s s'"
proof -
  note co = chains_okD [OF cinv_parts(4) [OF c] j(1)]
  have d: "distinct (as @ x # cs)" and ch: "chain_from s None (as @ x # cs)" using co(3,4) j(2) by simp_all
  note nb = chain_neighbours [OF ch d]
  have cx: "chained bs g x" using j by (auto simp: chained_def)
  have hs: "header_of s x \<noteq> None" using h by simp
  note sh = cinv_parts(1) [OF c]
  let ?h1 = "draining h m" and ?G = "g_items g" and ?M = "g_map g"
  let ?s1 = "put_header s x ?h1"
  have h1: "header_of ?s1 x = Some ?h1" using hs by (simp add: header_of_put)
  have mk: "md_prev m = at_last as" "md_next m = at_head cs"
    using chain_from_node [OF ch] h holds_unique [OF m] by (auto simp: node_def)
  have f1: "hd_write_offset ?h1 = hd_write_offset h" "hd_generation ?h1 = hd_generation h" "hd_ref_count ?h1 = hd_ref_count h"
    "hd_active_writers ?h1 = hd_active_writers h" "hd_active_removers ?h1 = hd_active_removers h" "hd_live_items ?h1 = hd_live_items h"
    "hd_live_bytes ?h1 = hd_live_bytes h" "hd_id ?h1 = hd_id h" "hd_create_at ?h1 = hd_create_at h" "hd_ttl ?h1 = hd_ttl h"
    by (simp_all add: draining_def)
  have m1: "holds ?h1 (m\<lparr>md_state := Draining\<rparr>)" using m by (simp add: draining_def holds_def metadata_ok_def)
  have lo: "loc_of x ?h1 = loc_of x h" by (simp add: loc_of_def fun_eq_iff f1)
  from chained_header [OF c cx] h have t: "tiled i (sg_data s) (seg_base s x) (item_start i) (?G x) (nat (sint (hd_write_offset h)))"
    and cn: "counts i (sint (initial_offset i)) (counted g x h) h" and rd: "readable_header h" by (metis option.inject)+
  have K: "key_in s ?G (loc_of x ?h1 pos) = Some (ce_key d)" if "(pos, d) \<in> set (?G x)" for pos d
    using key_in_item [OF c h that] by (simp add: lo)
  have K0: "key_in s ?G (loc_of x ?h1 (item_start i)) = None" if e: "?G x = []"
  proof -
    have "item_start i < MAX_SEGMENT_BYTES" by (simp add: item_start_def MAX_SEGMENT_BYTES_eq)
    then have "unpack_location (loc_of x h (item_start i)) = (x, item_start i)"
      using item_start_eq(2) [of i] by (simp add: loc_of_def unpack_pack_location unat_of_nat MAX_SEGMENT_BYTES_eq)
    then show ?thesis using e h by (simp add: key_in_def lo)
  qed
  have lk: "linked ?M x ?h1 (?G x) = counted g x h" using qu by (simp add: linked_def counted_def quiescent_def lo)
  have st: "item_start_ok i ?s1 x" "seg_check_magic i ?s1 x = Some ()" using shape_header(2,3) [OF sh h] by simp_all
  have t1: "tiled i (sg_data ?s1) (seg_base ?s1 x) (item_start i) (?G x) (nat (sint (hd_write_offset ?h1)))"
    using t by (simp add: byte_offset_def f1)
  have cn1: "counts i (sint (initial_offset i)) (linked ?M x ?h1 (?G x)) ?h1" using cn unfolding lk by (simp add: counts_def f1)
  have w: "0 \<le> sint (hd_write_offset ?h1)" "sint (hd_write_offset ?h1) \<le> sint (sg_segment_size ?s1)" "seg_bytes ?s1 \<le> MAX_SEGMENT_BYTES"
    using shape_header(8,9) [OF sh h] shape_parts(4) [OF sh] by (simp_all add: f1)
  from seg_clear_drains [OF t1 h1 w st K K0 cinv_parts(3) [OF c] cn1] obtain h2 q ht' where
    sc: "seg_clear i (?s1, ht) x = Some ((put_header ?s1 x h2)\<lparr>sg_gauges := q\<rparr>, ht')" "cached (key_in s ?G) ht' (forget (locs x ?h1 (?G x)) ?M)"
      "same_life (?h1\<lparr>hd_write_offset := initial_offset i\<rparr>) h2" "hd_ref_count h2 = hd_ref_count ?h1"
      "hd_active_writers h2 = hd_active_writers ?h1" "hd_active_removers h2 = hd_active_removers ?h1" by blast
  let ?s2 = "(put_header ?s1 x h2)\<lparr>sg_gauges := q\<rparr>"
  have ca: "cached (key_in s ?G) ht' (forget (at_seg x) ?M)"
    using sc(2) forget_at_seg [OF c h] by (simp add: locs_def lo)
  have h2: "header_of ?s2 x = Some h2" using hs by (simp add: header_of_put)
  have o2: "header_of ?s2 y = header_of s y" if "y \<noteq> x" for y using that hs by (simp add: header_of_put)
  have ss: "same_store s ?s2" "same_queues s ?s2" by (simp_all add: same_store_def same_queues_def)
  have m2: "holds h2 (m\<lparr>md_state := Draining\<rparr>)" using sc(3) m1 by (simp add: same_life_def holds_def)
  have nb2: "neighbours ?s2 (at_last as) x (at_head cs)" using nb(1) o2 unfolding neighbours_def by metis
  have go: "gone i st h h'" if "gone i st h2 h'" for st h'
    using that sc(3-6) f1 by (auto simp: gone_def same_life_def)
  have rc: "\<exists>s'. recycle i ?s2 x = Some s' \<and> leaves i s as x cs h s' \<and> requeued x s s'"
  proof -
    from recycle_eval [OF h2 m2] nb2 mk obtain s' h' where r: "recycle i ?s2 x = Some s'"
      "unlinked ?s2 (at_last as) x (at_head cs) h' s'" "gone i Free h2 h'" "requeued x ?s2 s'" by auto
    have "requeued x s s'" using r(4) by (simp add: requeued_def)
    then show ?thesis using r(1) unlinked_trans [OF r(2) o2 ss(1)] go [OF r(3)] by (auto simp: leaves_def)
  qed
  have cd: "\<exists>s'. condemn i ?s2 x (at_head cs) (at_last as) = Some (CDeferred, s') \<and> leaves i s as x cs h s' \<and> same_queues s s'"
    if "hd_ref_count h \<noteq> 0"
  proof -
    from condemn_eval [OF h2 m2 _ nb2] that sc(4) f1(3) obtain s' h' where r: "condemn i ?s2 x (at_head cs) (at_last as) = Some (CDeferred, s')"
      "unlinked ?s2 (at_last as) x (at_head cs) h' s'" "gone i AwaitingRelease h2 h'" "same_queues ?s2 s'" by auto
    have "same_queues s s'" using r(4) by (simp add: same_queues_def)
    then show ?thesis using r(1) unlinked_trans [OF r(2) o2 ss(1)] go [OF r(3)] that by (auto simp: leaves_def)
  qed
  show thesis using that [OF sc(1) ca h2 _ rc cd] sc(4) f1(3) by simp
qed

text \<open>The drain of the head of a chain, and its effect on the bucket.\<close>

lemma drain_segment_eval:
  assumes c: "cinv i s ht bs g" and qu: "quiescent g" and j: "j < length bs" "g_chains g j = x # cs"
  obtains h s' ht' b' where "header_of s x = Some h"
    "drain_segment i x (s, ht, bs ! j) = Some (if hd_ref_count h = 0 then 1 else 0, s', ht', b')"
    "cinv i s' ht' (bs[j := b']) (without_seg x j g)" "leaves i s [] x cs h s'" "bucket_head b' = at_head cs"
proof -
  note co = chains_okD [OF cinv_parts(4) [OF c] j(1)]
  have cx: "chained bs g x" using j by (auto simp: chained_def)
  from chained_header [OF c cx] obtain h m where h: "header_of s x = Some h" and m: "holds h m" "md_state m \<in> {Live, Sealed}" by metis
  have j': "g_chains g j = [] @ x # cs" using j(2) by simp
  from drain_out [OF c qu j(1) j' h m(1)] obtain s2 ht' h2 where
    sc: "seg_clear i (put_header s x (draining h m), ht) x = Some (s2, ht')"
    and ca: "cached (key_in s (g_items g)) ht' (forget (at_seg x) (g_map g))" and h2: "header_of s2 x = Some h2" "hd_ref_count h2 = hd_ref_count h"
    and rc: "hd_ref_count h = 0 \<Longrightarrow> \<exists>s'. recycle i s2 x = Some s' \<and> leaves i s [] x cs h s' \<and> requeued x s s'"
    and cd: "hd_ref_count h \<noteq> 0 \<Longrightarrow> \<exists>s'. condemn i s2 x (at_head cs) (at_last []) = Some (CDeferred, s') \<and> leaves i s [] x cs h s' \<and> same_queues s s'"
    by metis
  have ch: "chain_from s None (x # cs)" "bucket_head (bs ! j) = Some x" "bucket_tail (bs ! j) = at_last (x # cs)" "distinct (x # cs)"
    using co(2,3,4) j(2) by (simp_all add: chain_def)
  have mk: "md_prev m = None" "md_next m = at_head cs"
    using ch(1) h holds_unique [OF m(1)] by (auto simp: node_def)
  have lk: "next_seg h = Some (at_head cs)" "prev_seg h = Some None" using m(1) mk by (simp_all add: next_seg_def prev_seg_def holds_metadata)
  have dr: "on_header s x (cas_metadata st Draining None None) = Some (if md_state m = st then (True, put_header s x (draining h m)) else (False, s))" for st
  proof -
    have eq: "m\<lparr>md_state := Draining\<rparr> = \<lparr>md_next = md_next m, md_prev = md_prev m, md_state = Draining, md_tag = md_tag m\<rparr>" by (cases m) simp
    show ?thesis using on_header_cas [OF h m(1), of st Draining None None] unfolding draining_def eq by simp
  qed
  have w: "wait_unpinned (draining h m) = Some ()"
    using cinv_parts(5) [OF c h] qu by (simp add: wait_unpinned_def draining_def head_ok_def quiescent_def)
  have hs: "header_of s x \<noteq> None" using h by simp
  let ?b1 = "set_head (at_head cs) (bs ! j)"
  let ?b = "if cs = [] then set_tail None ?b1 else ?b1"
  have bt: "bucket_tail ?b1 = Some x \<longleftrightarrow> cs = []"
    using ch(3,4) by (auto simp: set_head_def bucket_tail_def at_last_def split: if_splits)
  have hl: "link_new (link_get (at_head cs)) = at_head cs"
    using chain_neighbours(3) [of s "[]" x cs] ch(1,4) by (intro link_new_get) simp
  have bh: "bucket_head ?b = at_head cs" "bucket_tail ?b = at_last cs" "tb_ttl ?b = tb_ttl (bs ! j)"
    using hl ch(3) by (auto simp: set_head_def set_tail_def bucket_head_def bucket_tail_def at_last_def link_new_def link_get_def)
  have e: "drain_segment i x (s, ht, bs ! j) = do {
      (s, ht) \<leftarrow> Some (s2, ht');
      h \<leftarrow> header_of s x;
      if hd_ref_count h = 0 then do { s \<leftarrow> recycle i s x; Some (1, s, ht, ?b) }
      else do { (r, s) \<leftarrow> condemn i s x (at_head cs) None; Some (case r of CFreed \<Rightarrow> 1 | CDeferred \<Rightarrow> 0, s, ht, ?b) } }"
    using m(2) bt ch(2) unfolding drain_segment_def Let_def
    by (auto simp: h lk dr header_of_put [OF hs] w sc)
  show thesis
  proof (cases "hd_ref_count h = 0")
    case True
    from rc [OF True] obtain s' where s': "recycle i s2 x = Some s'" "leaves i s [] x cs h s'" by blast
    have "cinv i s' ht' (bs[j := ?b]) (without_seg x j g)"
      by (rule cinv_leaves [OF c qu j(1) j' _ h s'(2) ca]) (use bh in simp_all)
    then show thesis using that [OF h _ _ s'(2) bh(1)] e h2 True s'(1) by simp
  next
    case False
    from cd [OF False] obtain s' where s': "condemn i s2 x (at_head cs) None = Some (CDeferred, s')" "leaves i s [] x cs h s'" by auto
    have "cinv i s' ht' (bs[j := ?b]) (without_seg x j g)"
      by (rule cinv_leaves [OF c qu j(1) j' _ h s'(2) ca]) (use bh in simp_all)
    then show thesis using that [OF h _ _ s'(2) bh(1)] e h2 False s'(1) by simp
  qed
qed

end
