(* ===== verification/CacheExpire.thy ===== *)
theory CacheExpire
  imports CacheDrain SegcacheOps
begin

text \<open>
  Expiry and clearing of the composed cache: the pass over a chain drains exactly its due prefix, the pass over the table
  every chain, and the content of the cache loses the items of the drained segments and no other.
\<close>

section \<open>What a drain leaves\<close>

type_synonym content = "u8 list \<Rightarrow> (u32 \<times> cell) option"

definition minus_segs :: "u32 set \<Rightarrow> content \<Rightarrow> content" where
  "minus_segs D A k = (case A k of None \<Rightarrow> None | Some (x, d) \<Rightarrow> if x \<in> D then None else Some (x, d))"

lemma minus_segs_simps [simp]: "minus_segs {} A = A" "minus_segs D (minus_segs D' A) = minus_segs (D \<union> D') A"
  by (auto simp: minus_segs_def fun_eq_iff split: option.splits)

lemma minus_segs_Some: "minus_segs D A k = Some (x, d) \<longleftrightarrow> A k = Some (x, d) \<and> x \<notin> D"
  by (auto simp: minus_segs_def split: option.splits if_splits)

lemma content_without_seg: "cinv i s ht bs g \<Longrightarrow> content (without_seg x j g) = minus_segs {x} (content g)"
  by (rule ext) (auto simp: content_without minus_segs_def split: option.splits)

definition due :: "(u32 \<Rightarrow> u32 \<Rightarrow> u32) \<Rightarrow> u32 option \<Rightarrow> segments \<Rightarrow> u32 \<Rightarrow> bool" where
  "due after cutoff s x = (case cutoff of None \<Rightarrow> True
     | Some now \<Rightarrow> (case header_of s x of None \<Rightarrow> False | Some h \<Rightarrow> after (hd_create_at h) (hd_ttl h) \<le> now))"

text \<open>The segments other than the drained ones keep their headers, up to the links; a segment freed ends in a queue.\<close>

definition same_times :: "u32 set \<Rightarrow> segments \<Rightarrow> segments \<Rightarrow> bool" where
  "same_times D s s' \<longleftrightarrow> (\<forall>y. y \<notin> D \<longrightarrow> map_option (\<lambda>h. (hd_create_at h, hd_ttl h, hd_ref_count h)) (header_of s' y)
     = map_option (\<lambda>h. (hd_create_at h, hd_ttl h, hd_ref_count h)) (header_of s y))"

definition queue_grew :: "segments \<Rightarrow> segments \<Rightarrow> bool" where
  "queue_grew s s' \<longleftrightarrow> sg_freed s' = sg_freed s \<and> sg_free_queue s' = sg_free_queue s \<or> sg_free_queue s' \<noteq> []"

text \<open>When each segment was linked, and with which TTL: draining leaves it, also for the segments drained.\<close>

definition stamp :: "segments \<Rightarrow> u32 \<Rightarrow> (u32 \<times> u32) option" where
  "stamp s x = map_option (\<lambda>h. (hd_create_at h, hd_ttl h)) (header_of s x)"

lemma stamp_fields [simp]: "stamp (s\<lparr>sg_data := m\<rparr>) = stamp s" "stamp (s\<lparr>sg_gauges := q\<rparr>) = stamp s"
  by (simp_all add: stamp_def fun_eq_iff header_of_def)

lemma stamp_put:
  "header_of s x = Some h \<Longrightarrow> hd_create_at h' = hd_create_at h \<Longrightarrow> hd_ttl h' = hd_ttl h \<Longrightarrow> stamp (put_header s x h') = stamp s"
  by (auto simp: stamp_def header_of_put fun_eq_iff)

definition drained_by :: "u32 set \<Rightarrow> segments \<Rightarrow> segments \<Rightarrow> bool" where
  "drained_by D s s' \<longleftrightarrow> same_times D s s' \<and> queue_grew s s' \<and> sg_segment_size s' = sg_segment_size s \<and> sg_cap s' = sg_cap s
     \<and> length (sg_headers s') = length (sg_headers s) \<and> stamp s' = stamp s"

lemma drained_by_refl [simp]: "drained_by D s s"
  by (simp add: drained_by_def same_times_def queue_grew_def)

lemma drained_by_trans: "drained_by D s s' \<Longrightarrow> drained_by D' s' s'' \<Longrightarrow> drained_by (D \<union> D') s s''"
  by (auto simp: drained_by_def same_times_def queue_grew_def)

lemma leaves_drained:
  assumes "leaves i s as x cs h s'" and h: "header_of s x = Some h"
  shows "drained_by {x} s s'"
proof -
  obtain h' st where u: "unlinked s (at_last as) x (at_head cs) h' s'" and r: "requeued x s s' \<or> same_queues s s'"
    and g: "gone i st h h'" using assms(1) by (auto simp: leaves_def)
  have "stamp s' y = stamp s y" for y
    using u g h by (auto simp: stamp_def unlinked_def gone_def option.map_comp comp_def)
  then have "stamp s' = stamp s" by blast
  moreover have "same_times {x} s s'" using u by (auto simp: same_times_def unlinked_def option.map_comp comp_def)
  moreover have "queue_grew s s'" using r by (auto simp: queue_grew_def requeued_def same_queues_def)
  ultimately show ?thesis using u by (simp add: drained_by_def unlinked_def same_store_def)
qed

lemma same_times_due: "same_times D s s' \<Longrightarrow> y \<notin> D \<Longrightarrow> due after cutoff s' y = due after cutoff s y"
  unfolding same_times_def due_def
  by (drule spec [of _ y]) (auto split: option.split)

section \<open>One chain\<close>

lemma segment_view_ok: "shape i s \<Longrightarrow> header_of s x = Some h \<Longrightarrow> segment_view i s x = Some (Inr ())"
  using shape_header(2) [of i s x h] by (auto simp: segment_view_def header_of_def split: if_splits)

lemma without_set_bucket: "length bs = n \<Longrightarrow> (bs[j := b])[j := b'] = bs[j := b']"
  by simp

lemma drain_loop_eval:
  assumes "cinv i s ht bs g" and "quiescent g" and "j < length bs" and "g_chains g j = xs"
  shows "\<exists>n s' ht' b' g'. drain_loop i after cutoff (at_head xs) freed (s, ht, bs ! j) = Some (n, s', ht', b')
    \<and> cinv i s' ht' (bs[j := b']) g' \<and> quiescent g' \<and> content g' = minus_segs (set (takeWhile (due after cutoff s) xs)) (content g)
    \<and> g_chains g' = (g_chains g)(j := dropWhile (due after cutoff s) xs) \<and> drained_by (set (takeWhile (due after cutoff s) xs)) s s'"
  using assms
proof (induction xs arbitrary: s ht bs g freed)
  case Nil
  then show ?case
    by (intro exI [of _ freed] exI [of _ s] exI [of _ ht] exI [of _ "bs ! j"] exI [of _ g])
      (simp add: drain_loop.simps [of _ _ _ None] fun_upd_idem)
next
  case (Cons x xs)
  note c = Cons.prems(1)
  note co = chains_okD [OF cinv_parts(4) [OF c] Cons.prems(3)]
  from drain_segment_eval [OF c Cons.prems(2-4)] obtain h s1 ht1 b1 where h: "header_of s x = Some h"
    and d: "drain_segment i x (s, ht, bs ! j) = Some (if hd_ref_count h = 0 then 1 else 0, s1, ht1, b1)"
    and c1: "cinv i s1 ht1 (bs[j := b1]) (without_seg x j g)" and l: "leaves i s [] x xs h s1" and b1: "bucket_head b1 = at_head xs" by metis
  have v: "segment_view i s x = Some (Inr ())" by (rule segment_view_ok [OF cinv_parts(1) [OF c] h])
  have n: "next_seg h = Some (at_head xs)"
  proof -
    have "node s None x (at_head xs)" using co(4) Cons.prems(4) by simp
    then show ?thesis using h by (auto simp: node_def next_seg_def holds_metadata)
  qed
  have dx: "x \<notin> set xs" using co(3) Cons.prems(4) by simp
  have stop: "(case cutoff of Some now \<Rightarrow> after (hd_create_at h) (hd_ttl h) > now | None \<Rightarrow> False) \<longleftrightarrow> \<not> due after cutoff s x"
    using h by (auto simp: due_def not_le split: option.split)
  show ?case
  proof (cases "due after cutoff s x")
    case False
    then show ?thesis
      using v h n stop c Cons.prems
      by (intro exI [of _ freed] exI [of _ s] exI [of _ ht] exI [of _ "bs ! j"] exI [of _ g])
        (simp add: drain_loop.simps [of _ _ _ "Some x"] fun_upd_idem)
  next
    case True
    let ?bs = "bs[j := b1]" and ?g = "without_seg x j g" and ?k = "if hd_ref_count h = 0 then 1 else 0"
    have rm: "g_chains ?g j = xs" using Cons.prems(4) by simp
    have j1: "j < length ?bs" "?bs ! j = b1" using Cons.prems(3) by simp_all
    have q1: "quiescent ?g" using Cons.prems(2) by simp
    note ld = leaves_drained [OF l h]
    have sd: "due after cutoff s1 y = due after cutoff s y" if "y \<in> set xs" for y
      by (rule same_times_due [of "{x}"]) (use ld that dx in \<open>auto simp: drained_by_def\<close>)
    have tw: "takeWhile (due after cutoff s1) xs = takeWhile (due after cutoff s) xs" "dropWhile (due after cutoff s1) xs = dropWhile (due after cutoff s) xs"
      using sd by (auto intro: takeWhile_cong dropWhile_cong)
    from Cons.IH [OF c1 q1 j1(1) rm, of "freed + ?k"] obtain n s' ht' b' g' where
      r: "drain_loop i after cutoff (at_head xs) (freed + ?k) (s1, ht1, b1) = Some (n, s', ht', b')"
      "cinv i s' ht' (?bs[j := b']) g'" "quiescent g'" "content g' = minus_segs (set (takeWhile (due after cutoff s) xs)) (content ?g)"
      "g_chains g' = (g_chains ?g)(j := dropWhile (due after cutoff s) xs)" "drained_by (set (takeWhile (due after cutoff s) xs)) s1 s'"
      unfolding tw j1(2) by blast
    have "drain_loop i after cutoff (Some x) freed (s, ht, bs ! j) = Some (n, s', ht', b')"
      using v h n stop True d r(1) by (subst drain_loop.simps) simp
    moreover have "content g' = minus_segs (insert x (set (takeWhile (due after cutoff s) xs))) (content g)"
      using r(4) content_without_seg [OF c] by simp
    moreover have "drained_by (insert x (set (takeWhile (due after cutoff s) xs))) s s'"
      using drained_by_trans [OF ld r(6)] by simp
    moreover have "g_chains g' = (g_chains g)(j := dropWhile (due after cutoff s) xs)" using r(5) by simp
    ultimately show ?thesis using r(2,3) True
      by (intro exI [of _ n] exI [of _ s'] exI [of _ ht'] exI [of _ b'] exI [of _ g']) simp
  qed
qed

section \<open>The table\<close>

definition due_of :: "(u32 \<Rightarrow> u32 \<Rightarrow> u32) \<Rightarrow> u32 option \<Rightarrow> segments \<Rightarrow> (nat \<Rightarrow> u32 list) \<Rightarrow> nat list \<Rightarrow> u32 set" where
  "due_of after cutoff s G is = (\<Union>j \<in> set is. set (takeWhile (due after cutoff s) (G j)))"

lemma drain_buckets_eval:
  assumes "cinv i s ht (tt_buckets t) g" and "quiescent g" and "set is \<subseteq> {..<length (tt_buckets t)}" and "distinct is"
  shows "\<exists>n s' ht' bs' g'. drain_buckets i after cutoff is (s, ht, t) = Some (n, s', ht', t\<lparr>tt_buckets := bs'\<rparr>)
    \<and> cinv i s' ht' bs' g' \<and> quiescent g' \<and> content g' = minus_segs (due_of after cutoff s (g_chains g) is) (content g)
    \<and> drained_by (due_of after cutoff s (g_chains g) is) s s'
    \<and> (\<forall>j. g_chains g' j = (if j \<in> set is then dropWhile (due after cutoff s) (g_chains g j) else g_chains g j))"
  using assms
proof (induction "is" arbitrary: s ht t g)
  case Nil
  then show ?case
    by (intro exI [of _ 0] exI [of _ s] exI [of _ ht] exI [of _ "tt_buckets t"] exI [of _ g]) (simp add: due_of_def)
next
  case (Cons j js)
  let ?bs = "tt_buckets t" and ?D = "set (takeWhile (due after cutoff s) (g_chains g j))"
  have j: "j < length ?bs" "j \<notin> set js" using Cons.prems by auto
  note co = chains_okD [OF cinv_parts(4) [OF Cons.prems(1)] j(1)]
  have hd': "bucket_head (?bs ! j) = at_head (g_chains g j)" using co(2) by (simp add: chain_def)
  from drain_loop_eval [OF Cons.prems(1,2) j(1) refl, of "after" cutoff 0] obtain k s1 ht1 b1 g1 where
    d: "drain_chain i after cutoff (s, ht, ?bs ! j) = Some (k, s1, ht1, b1)" "cinv i s1 ht1 (?bs[j := b1]) g1" "quiescent g1"
    "content g1 = minus_segs ?D (content g)" "g_chains g1 = (g_chains g)(j := dropWhile (due after cutoff s) (g_chains g j))" "drained_by ?D s s1"
    unfolding drain_chain_def snd_conv hd' by blast
  let ?t = "put_bucket t j b1"
  have t: "tt_buckets ?t = ?bs[j := b1]" by (simp add: put_bucket_def)
  have sd: "due after cutoff s1 y = due after cutoff s y" if y: "y \<in> set (g_chains g a)" "a < length ?bs" "a \<noteq> j" for y a
  proof (rule same_times_due [of ?D])
    show "same_times ?D s s1" using d(6) by (simp add: drained_by_def)
    show "y \<notin> ?D" using co(8) [OF y(2,3)] y(1) set_takeWhileD [of y "due after cutoff s" "g_chains g j"] by blast
  qed
  have a: "a < length ?bs \<and> a \<noteq> j" if "a \<in> set js" for a using that Cons.prems(3) j(2) by auto
  have tw: "takeWhile (due after cutoff s1) (g_chains g a) = takeWhile (due after cutoff s) (g_chains g a)"
    "dropWhile (due after cutoff s1) (g_chains g a) = dropWhile (due after cutoff s) (g_chains g a)" if "a \<in> set js" for a
    using sd a [OF that] by (auto intro: takeWhile_cong dropWhile_cong)
  have same: "g_chains g1 a = g_chains g a" if "a \<noteq> j" for a using that d(5) by simp
  have dd: "due_of after cutoff s1 (g_chains g1) js = due_of after cutoff s (g_chains g) js"
    unfolding due_of_def using tw same a by (intro SUP_cong) auto
  have js: "set js \<subseteq> {..<length (tt_buckets ?t)}" "distinct js" using Cons.prems(3,4) by (simp_all add: t)
  from Cons.IH [OF d(2) [folded t] d(3) js] obtain n s' ht' bs' g' where
    r: "drain_buckets i after cutoff js (s1, ht1, ?t) = Some (n, s', ht', ?t\<lparr>tt_buckets := bs'\<rparr>)" "cinv i s' ht' bs' g'" "quiescent g'"
      "content g' = minus_segs (due_of after cutoff s (g_chains g) js) (content g1)" "drained_by (due_of after cutoff s (g_chains g) js) s1 s'"
      "\<And>a. g_chains g' a = (if a \<in> set js then dropWhile (due after cutoff s1) (g_chains g1 a) else g_chains g1 a)"
    unfolding dd by blast
  have du: "due_of after cutoff s (g_chains g) (j # js) = ?D \<union> due_of after cutoff s (g_chains g) js" by (simp add: due_of_def)
  have "drain_buckets i after cutoff (j # js) (s, ht, t) = Some (k + n, s', ht', t\<lparr>tt_buckets := bs'\<rparr>)"
    using r(1) d(1) j(1) by (simp add: bucket_at_def put_bucket_def)
  moreover have "content g' = minus_segs (due_of after cutoff s (g_chains g) (j # js)) (content g)" using r(4) d(4) by (simp add: du Un_commute)
  moreover have "drained_by (due_of after cutoff s (g_chains g) (j # js)) s s'" using drained_by_trans [OF d(6) r(5)] by (simp add: du)
  moreover have "g_chains g' a = (if a \<in> set (j # js) then dropWhile (due after cutoff s) (g_chains g a) else g_chains g a)" for a
    using r(6) [of a] tw(2) [of a] d(5) j(2) a [of a] by auto
  ultimately show ?case using r(2,3) by blast
qed

section \<open>Expiry and clearing of the cache\<close>

lemma cache_inv_drained:
  assumes "cinv (e_integrity e) s ht bs g"
  shows "cache_inv e (put_drained (s, ht, t\<lparr>tt_buckets := bs\<rparr>) c) g"
  using assms by (simp add: cache_inv_def put_drained_def)

lemma ttl_expire_eval:
  assumes c: "cinv i s ht (tt_buckets t) g" and qu: "quiescent g" and n: "tt_last_expired t \<noteq> now"
  obtains n s' ht' bs' g' where "ttl_expire i after now (s, ht, t) = Some (n, s', ht', t\<lparr>tt_last_expired := now, tt_buckets := bs'\<rparr>)"
    "cinv i s' ht' bs' g'" "quiescent g'"
    "content g' = minus_segs (due_of after (Some now) s (g_chains g) [0..<length (tt_buckets t)]) (content g)"
    "drained_by (due_of after (Some now) s (g_chains g) [0..<length (tt_buckets t)]) s s'"
    "\<And>j. j < length (tt_buckets t) \<Longrightarrow> g_chains g' j = dropWhile (due after (Some now) s) (g_chains g j)"
proof -
  let ?t = "t\<lparr>tt_last_expired := now\<rparr>"
  have "cinv i s ht (tt_buckets ?t) g" "set [0..<length (tt_buckets ?t)] \<subseteq> {..<length (tt_buckets ?t)}" "distinct [0..<length (tt_buckets ?t)]"
    using c by auto
  from drain_buckets_eval [OF this(1) qu this(2,3), of "after" "Some now"] show thesis
    using that n by (fastforce simp: ttl_expire_def)
qed

lemma dropWhile_head_due:
  assumes x: "at_head (dropWhile P (g_chains g j)) = Some x"
    and P: "P = due after cutoff s"
  shows "x \<in> set (g_chains g j)" "x \<notin> due_of after cutoff s (g_chains g) is" "\<not> due after cutoff s x"
proof -
  obtain ys where ys: "dropWhile P (g_chains g j) = x # ys" using x by (cases "dropWhile P (g_chains g j)") auto
  show n: "\<not> due after cutoff s x" using ys P by (simp add: dropWhile_eq_Cons_conv)
  show m: "x \<in> set (g_chains g j)" using ys set_dropWhileD [of x P "g_chains g j"] by simp
  show "x \<notin> due_of after cutoff s (g_chains g) is"
    using n set_takeWhileD [of x "due after cutoff s"] by (auto simp: due_of_def)
qed

text \<open>
  Expiry. Called at most once per reading of the clock, it returns, drops from the content exactly the items of some
  segments that are all past their expiry, keeps every other item, and stops in each bucket at a segment that is not due:
  no bucket starts with an expired segment after it.
\<close>

lemma expire_content:
  assumes "models e c A"
  shows "\<exists>n c'. segcache_expire e c = Some (n, c') \<and> same_config c c' \<and> stamp (sc_segments c') = stamp (sc_segments c) \<and> (if tt_last_expired (sc_ttl_buckets c) = e_now e then n = 0 \<and> c' = c
    else tt_last_expired (sc_ttl_buckets c') = e_now e
      \<and> (\<exists>D. models e c' (minus_segs D A) \<and> (\<forall>x \<in> D. due (e_after e) (Some (e_now e)) (sc_segments c) x))
      \<and> (\<forall>b \<in> set (tt_buckets (sc_ttl_buckets c')). \<forall>x. bucket_head b = Some x \<longrightarrow> \<not> due (e_after e) (Some (e_now e)) (sc_segments c') x))"
proof (cases "tt_last_expired (sc_ttl_buckets c) = e_now e")
  case True
  then show ?thesis by (simp add: segcache_expire_def ttl_expire_def put_drained_def same_config_def)
next
  case False
  let ?i = "e_integrity e" and ?s = "sc_segments c" and ?t = "sc_ttl_buckets c" and ?d = "due (e_after e) (Some (e_now e))"
  let ?is = "[0..<length (tt_buckets ?t)]"
  from assms obtain g where g: "cinv ?i ?s (sc_hashtable c) (tt_buckets ?t) g" "quiescent g" "A = content g"
    and rk: "ranking_ok (length (sg_headers ?s)) (sc_evict c)"
    by (auto simp: models_def cache_inv_def)
  from ttl_expire_eval [OF g(1,2) False] obtain n s' ht' bs' g' where
    r: "ttl_expire ?i (e_after e) (e_now e) (?s, sc_hashtable c, ?t) = Some (n, s', ht', ?t\<lparr>tt_last_expired := e_now e, tt_buckets := bs'\<rparr>)"
    "cinv ?i s' ht' bs' g'" "quiescent g'" "content g' = minus_segs (due_of (e_after e) (Some (e_now e)) ?s (g_chains g) ?is) (content g)"
    "drained_by (due_of (e_after e) (Some (e_now e)) ?s (g_chains g) ?is) ?s s'"
    "\<And>j. j < length (tt_buckets ?t) \<Longrightarrow> g_chains g' j = dropWhile (?d ?s) (g_chains g j)" by metis
  let ?D = "due_of (e_after e) (Some (e_now e)) ?s (g_chains g) ?is"
  let ?c = "put_drained (s', ht', ?t\<lparr>tt_last_expired := e_now e, tt_buckets := bs'\<rparr>) c"
  have D: "?d ?s x" if "x \<in> ?D" for x using that set_takeWhileD [of x "?d ?s"] by (auto simp: due_of_def)
  have len: "length bs' = length (tt_buckets ?t)"
    using cinv_parts(4) [OF r(2)] cinv_parts(4) [OF g(1)] by (simp add: chains_ok_def)
  have fresh: "\<not> ?d s' x" if b: "b \<in> set bs'" and x: "bucket_head b = Some x" for b x
  proof -
    obtain j where j: "j < length bs'" "b = bs' ! j" using b by (metis in_set_conv_nth)
    have "at_head (g_chains g' j) = Some x" using chains_okD(2) [OF cinv_parts(4) [OF r(2)] j(1)] x j(2) by (simp add: chain_def)
    then have "at_head (dropWhile (?d ?s) (g_chains g j)) = Some x" using r(6) [of j] j(1) len by simp
    from dropWhile_head_due(2,3) [OF this refl] have "x \<notin> ?D" "\<not> ?d ?s x" .
    moreover have "same_times ?D ?s s'" using r(5) by (simp add: drained_by_def)
    ultimately show ?thesis using same_times_due by metis
  qed
  have "models e ?c (minus_segs ?D A)"
    unfolding models_def using cache_inv_drained [OF r(2)] r(3-5) g(3) rk
    by (intro conjI exI [of _ g']) (simp_all add: put_drained_def drained_by_def)
  moreover have "same_config c ?c" "stamp (sc_segments ?c) = stamp (sc_segments c)"
    using r(5) by (simp_all add: same_config_def put_drained_def drained_by_def)
  moreover have "segcache_expire e c = Some (n, ?c)" using r(1) by (simp add: segcache_expire_def)
  moreover have "tt_last_expired (sc_ttl_buckets ?c) = e_now e" "tt_buckets (sc_ttl_buckets ?c) = bs'" "sc_segments ?c = s'"
    by (simp_all add: put_drained_def)
  ultimately show ?thesis using False D fresh by auto
qed

text \<open>
  Clearing. It returns, the cache is empty after it, and no bucket holds a segment: each segment is in a free queue
  again, or waits for the readers that still hold it.
\<close>

lemma clear_content:
  assumes "models e c A"
  shows "\<exists>n c'. segcache_clear e c = Some (n, c') \<and> same_config c c' \<and> stamp (sc_segments c') = stamp (sc_segments c) \<and> models e c' (\<lambda>_. None)
    \<and> (\<forall>b \<in> set (tt_buckets (sc_ttl_buckets c')). bucket_head b = None)
    \<and> (\<forall>x h. header_of (sc_segments c') x = Some h \<longrightarrow> x \<in> set (queued (sc_segments c')) \<or> hd_ref_count h \<noteq> 0)"
proof -
  let ?i = "e_integrity e" and ?s = "sc_segments c" and ?t = "sc_ttl_buckets c"
  let ?is = "[0..<length (tt_buckets ?t)]"
  from assms obtain g where g: "cinv ?i ?s (sc_hashtable c) (tt_buckets ?t) g" "quiescent g" "A = content g"
    and rk: "ranking_ok (length (sg_headers ?s)) (sc_evict c)"
    by (auto simp: models_def cache_inv_def)
  have "set ?is \<subseteq> {..<length (tt_buckets ?t)}" "distinct ?is" by auto
  from drain_buckets_eval [OF g(1,2) this, of "e_after e" None] obtain n s' ht' bs' g' where
    r: "drain_buckets ?i (e_after e) None ?is (?s, sc_hashtable c, ?t) = Some (n, s', ht', ?t\<lparr>tt_buckets := bs'\<rparr>)"
    "cinv ?i s' ht' bs' g'" "quiescent g'" "content g' = minus_segs (due_of (e_after e) None ?s (g_chains g) ?is) (content g)"
    "\<And>j. g_chains g' j = (if j \<in> set ?is then dropWhile (due (e_after e) None ?s) (g_chains g j) else g_chains g j)"
    "drained_by (due_of (e_after e) None ?s (g_chains g) ?is) ?s s'" by blast
  let ?c = "put_drained (s', ht', ?t\<lparr>tt_buckets := bs'\<rparr>) c"
  have all: "due (e_after e) None ?s = (\<lambda>_. True)" by (simp add: due_def fun_eq_iff)
  have len: "length bs' = length (tt_buckets ?t)"
    using cinv_parts(4) [OF r(2)] cinv_parts(4) [OF g(1)] by (simp add: chains_ok_def)
  have nil: "g_chains g' j = []" if "j < length bs'" for j using r(5) [of j] that len by (simp add: all)
  have "content g' k = None" for k
  proof (rule ccontr)
    assume "content g' k \<noteq> None"
    then obtain x d where "content g' k = Some (x, d)" by auto
    from content_Some [OF r(2) this] obtain h where "header_of s' x = Some h" "readable_header h" by metis
    then have "chained bs' g' x" by (rule readable_chained [OF r(2)])
    then show False using nil by (auto simp: chained_def)
  qed
  then have "content g' = (\<lambda>_. None)" by (rule ext)
  then have "models e ?c (\<lambda>_. None)"
    unfolding models_def using cache_inv_drained [OF r(2)] r(3,6) rk
    by (intro conjI exI [of _ g']) (simp_all add: put_drained_def drained_by_def)
  moreover have "same_config c ?c" "stamp (sc_segments ?c) = stamp (sc_segments c)"
    using r(6) by (simp_all add: same_config_def put_drained_def drained_by_def)
  moreover have "segcache_clear e c = Some (n, ?c)" using r(1) by (simp add: segcache_clear_def ttl_clear_def)
  moreover have "bucket_head b = None" if b: "b \<in> set bs'" for b
  proof -
    obtain j where j: "j < length bs'" "b = bs' ! j" using b by (metis in_set_conv_nth)
    then show ?thesis using chains_okD(2) [OF cinv_parts(4) [OF r(2)] j(1)] nil [OF j(1)] by (simp add: chain_def)
  qed
  moreover have "x \<in> set (queued s') \<or> hd_ref_count h \<noteq> 0" if h: "header_of s' x = Some h" for x h
  proof -
    have "\<not> chained bs' g' x" using nil by (auto simp: chained_def)
    then obtain m where m: "holds h m" "md_state m \<in> {Free, AwaitingRelease}" "md_state m = AwaitingRelease \<Longrightarrow> hd_ref_count h \<noteq> 0"
      using cinv_parts(5) [OF r(2) h] by (auto simp: head_ok_def is_readable_def)
    then show ?thesis using header_good_state [OF store_header [OF cinv_parts(2) [OF r(2)] h] m(1)] by auto
  qed
  moreover have "tt_buckets (sc_ttl_buckets ?c) = bs'" "sc_segments ?c = s'" by (simp_all add: put_drained_def)
  ultimately show ?thesis by auto
qed

end
