(* ===== verification/CacheEvict.thy ===== *)
theory CacheEvict
  imports CacheExpire ChainReserve
begin

unbundle bit_operations_syntax

text \<open>
  Eviction from the composed cache under the policies that drop whole segments (random, random-FIFO, FIFO, CTE, Util and
  none): it always returns, and drops at most one sealed, unpinned segment beside the expired ones.
\<close>

section \<open>The segment chosen\<close>

fun drops_whole :: "f64 policy \<Rightarrow> bool" where
  "drops_whole (Merge a b d) = False"
| "drops_whole (S3Fifo r) = False"
| "drops_whole p = True"

definition evict_ok :: "segments \<Rightarrow> eviction \<Rightarrow> bool" where
  "evict_ok s ev \<longleftrightarrow> drops_whole (ev_policy ev) \<and> ranking_ok (length (sg_headers s)) ev"

lemma header_exists: "header_of s x \<noteq> None \<longleftrightarrow> x \<noteq> 0 \<and> unat x \<le> length (sg_headers s)"
  using unat_gt_0 [of x] by (auto simp: header_of_def)

lemma evict_ok_iff:
  "evict_ok s ev \<longleftrightarrow> drops_whole (ev_policy ev) \<and> sg_headers s \<noteq> [] \<and> length (ev_ranked ev) = length (sg_headers s)
     \<and> (\<forall>x. Some x \<in> set (ev_ranked ev) \<longrightarrow> header_of s x \<noteq> None)"
  unfolding evict_ok_def ranking_ok_def header_exists by simp

lemma evict_ok_cong:
  "length (sg_headers s') = length (sg_headers s) \<Longrightarrow> evict_ok s' ev = evict_ok s ev"
  by (simp add: evict_ok_def)

lemma cinv_can_evict:
  assumes "cinv i s ht bs g" and "header_of s x = Some h"
  obtains b where "can_evict h = Some b" "b \<Longrightarrow> \<exists>m. holds h m \<and> md_state m = Sealed" "b \<Longrightarrow> hd_ref_count h = 0"
proof -
  obtain m where m: "holds h m" using assms by (auto simp: cinv_def head_ok_def)
  then have "can_evict h = Some (is_evictable (md_state m) \<and> hd_ref_count h = 0)" by (simp add: can_evict_def holds_state)
  then show thesis by (rule that) (use m in \<open>auto simp: is_evictable_def\<close>)
qed

lemma can_evict_atD: "can_evict_at s x = Some b \<longleftrightarrow> (\<exists>h. header_of s x = Some h \<and> can_evict h = Some b)"
  by (auto simp: can_evict_at_def bind_eq_Some_conv)

lemma random_probe_eval:
  assumes c: "cinv i s ht bs g" and o: "\<And>k. k \<in> set ks \<Longrightarrow> header_of s (k + 1) \<noteq> None"
  shows "\<exists>r. random_probe s ks = Some r \<and> (\<forall>x. r = Some x \<longrightarrow> can_evict_at s x = Some True)"
  using o
proof (induction ks)
  case (Cons k ks)
  obtain h where h: "header_of s (k + 1) = Some h" using Cons.prems by fastforce
  from cinv_can_evict [OF c h] obtain b where "can_evict h = Some b" .
  then have b: "can_evict_at s (k + 1) = Some b" using h can_evict_atD by blast
  obtain r where "random_probe s ks = Some r" "\<forall>x. r = Some x \<longrightarrow> can_evict_at s x = Some True" using Cons by auto
  then show ?case using b by simp
qed simp

lemma fifo_walk_eval:
  assumes c: "cinv i s ht bs g" and "chain_from s p xs"
  shows "\<exists>r. fifo_walk n s (at_head xs) = Some r \<and> (\<forall>x. r = Some x \<longrightarrow> can_evict_at s x = Some True)"
  using assms(2)
proof (induction xs arbitrary: n p)
  case Nil
  then show ?case by (cases n) simp_all
next
  case (Cons x xs)
  show ?case
  proof (cases n)
    case (Suc k)
    have "node s p x (at_head xs)" and t: "chain_from s (Some x) xs" using Cons.prems by simp_all
    then obtain h m where h: "header_of s x = Some h" "holds h m" "md_next m = at_head xs" by (auto simp: node_def)
    from cinv_can_evict [OF c h(1)] obtain b where b: "can_evict h = Some b" .
    have "next_seg h = Some (at_head xs)" using h by (simp add: next_seg_def holds_metadata)
    then show ?thesis using Cons.IH [OF t, of k] Suc h(1) b by (auto simp: can_evict_atD)
  qed simp
qed

lemma bucket_at_index: "length (tt_buckets t) = length bucket_ttls \<Longrightarrow> bucket_at t (get_bucket_index w) = Some (tt_buckets t ! get_bucket_index w)"
  using ttl_floor by (simp add: bucket_at_def get_bucket_index_def)

lemma random_fifo_eval:
  assumes c: "cinv i s ht (tt_buckets t) g" and o: "\<And>k. k \<in> set ks \<Longrightarrow> header_of s (k + 1) \<noteq> None"
  shows "\<exists>r. random_fifo s t E ks = Some r \<and> (\<forall>x. r = Some x \<longrightarrow> can_evict_at s x = Some True)"
  using o
proof (induction ks arbitrary: E)
  case (Cons k ks)
  obtain h where h: "header_of s (k + 1) = Some h" using Cons.prems by fastforce
  obtain m where m: "holds h m" using c h by (auto simp: cinv_def head_ok_def)
  let ?j = "get_bucket_index (hd_ttl h)"
  have co: "length (tt_buckets t) = length bucket_ttls" using cinv_parts(4) [OF c] by (simp add: chains_ok_def)
  note bk = bucket_at_index [OF co, of "hd_ttl h"]
  then have j: "?j < length (tt_buckets t)" by (simp add: bucket_at_def split: if_splits)
  have "bucket_head (tt_buckets t ! ?j) = at_head (g_chains g ?j)"
    using chains_okD(2) [OF cinv_parts(4) [OF c] j] by (simp add: chain_def)
  with fifo_walk_eval [OF c chains_okD(4) [OF cinv_parts(4) [OF c] j]] obtain r where
    r: "fifo_walk (unat (sg_cap s)) s (bucket_head (tt_buckets t ! ?j)) = Some r" "\<forall>x. r = Some x \<longrightarrow> can_evict_at s x = Some True" by metis
  have IH: "\<exists>r. random_fifo s t E' ks = Some r \<and> (\<forall>x. r = Some x \<longrightarrow> can_evict_at s x = Some True)" for E' using Cons by simp
  show ?case using h holds_state [OF m] bk r IH [of E] IH [of "insert ?j E"] by (cases r) (auto simp: Let_def)
qed simp

lemma probe_order_headers:
  assumes sh: "shape i s" and k: "k \<in> set (probe_order (sg_cap s) start)"
  shows "header_of s (k + 1) \<noteq> None"
proof -
  have n: "unat (sg_cap s) = length (sg_headers s)" "length (sg_headers s) \<le> 262142"
    using shape_parts(1,6) [OF sh] by (simp_all add: store_ok_def)
  have "sg_cap s \<noteq> 0" using k by (auto simp: probe_order_def)
  then have "k < sg_cap s" using k by (auto simp: probe_order_def word_less_nat_alt unat_mod intro!: mod_less_divisor simp: unat_gt_0)
  then have "unat (k + 1) = Suc (unat k)" "unat k < length (sg_headers s)" using unat_less_incr [of k "sg_cap s"] n(1) by (auto simp: word_less_nat_alt)
  then show ?thesis unfolding header_exists by (metis Suc_leI nat.distinct(1) unat_0)
qed

lemma header_in_store:
  assumes sh: "shape i s" and h: "h \<in> set (sg_headers s)"
  shows "header_of s (hd_id h) = Some h"
proof -
  obtain k where k: "k < length (sg_headers s)" "h = sg_headers s ! k" using h by (metis in_set_conv_nth)
  have n: "length (sg_headers s) \<le> 262142" using shape_parts(1) [OF sh] by (simp add: store_ok_def)
  then have u: "unat (of_nat k + 1 :: u32) = Suc k" using k(1) by (intro unat_id) simp
  have "(of_nat k + 1 :: u32) \<noteq> 0" using u by (metis nat.distinct(1) unat_0)
  then have "header_of s (of_nat k + 1) = Some h" using u k by (simp add: header_of_def)
  then show ?thesis using shape_header(1) [OF sh] by metis
qed

lemma rank_by_ok:
  assumes c: "cinv i s ht bs g" and ev: "evict_ok s ev"
  shows "\<exists>ev'. rank_by (sg_headers s) key ev = Some ev' \<and> evict_ok s ev' \<and> ev_policy ev' = ev_policy ev"
proof -
  have "\<exists>b. rank_tuple key h = Some (b, key h, unat (hd_id h))" if h: "h \<in> set (sg_headers s)" for h
    using cinv_can_evict [OF c header_in_store [OF cinv_parts(1) [OF c] h]] by (auto simp: rank_tuple_def)
  then obtain f where f: "\<And>h. h \<in> set (sg_headers s) \<Longrightarrow> rank_tuple key h = Some (f h, key h, unat (hd_id h))" by metis
  let ?ts = "map (\<lambda>h. (f h, key h, unat (hd_id h))) (sg_headers s)"
  have "those (map (rank_tuple key) hs) = Some (map (\<lambda>h. (f h, key h, unat (hd_id h))) hs)" if "set hs \<subseteq> set (sg_headers s)" for hs
    using that by (induction hs) (simp_all add: f)
  then have th: "those (map (rank_tuple key) (sg_headers s)) = Some ?ts" by simp
  let ?r = "map (\<lambda>(_, _, i). Some (of_nat i :: u32)) (sort ?ts)"
  have len: "length ?r = length (ev_ranked ev)" using ev by (simp add: evict_ok_iff)
  have "header_of s x \<noteq> None" if "Some x \<in> set ?r" for x
    using that header_in_store [OF cinv_parts(1) [OF c]] by auto
  moreover have "rank_by (sg_headers s) key ev = Some (ev\<lparr>ev_ranked := ?r, ev_index := 0\<rparr>)"
    using len th by (simp add: rank_by_def Let_def)
  ultimately show ?thesis using ev len by (auto simp: evict_ok_iff)
qed

lemma ranked_probe_eval:
  assumes c: "cinv i s ht bs g" and ev: "evict_ok s ev"
  shows "\<exists>r ev'. ranked_probe s ev = Some (r, ev') \<and> evict_ok s ev' \<and> ev_policy ev' = ev_policy ev
    \<and> (\<forall>x. r = Some x \<longrightarrow> can_evict_at s x = Some True)"
  using ev
proof (induction "length (ev_ranked ev) - ev_index ev" arbitrary: ev rule: less_induct)
  case less
  obtain r ev1 where l: "ranked_least ev = (r, ev1)" by force
  have ok1: "evict_ok s ev1" "ev_policy ev1 = ev_policy ev" using l less.prems by (auto simp: ranked_least_def Let_def evict_ok_iff)
  show ?case
  proof (cases r)
    case None
    then show ?thesis using l ok1 by (subst ranked_probe.simps) simp
  next
    case (Some x)
    then have k: "ev_index ev < length (ev_ranked ev)" "ev_ranked ev ! ev_index ev = Some x" "ev1 = ev\<lparr>ev_index := ev_index ev + 1\<rparr>"
      using l by (auto simp: ranked_least_def Let_def split: if_splits)
    then have "Some x \<in> set (ev_ranked ev)" by (metis nth_mem)
    then obtain h where h: "header_of s x = Some h" using less.prems by (fastforce simp: evict_ok_iff)
    from cinv_can_evict [OF c h] obtain b where "can_evict h = Some b" .
    then have b: "can_evict_at s x = Some b" using h can_evict_atD by blast
    have "length (ev_ranked ev1) - ev_index ev1 < length (ev_ranked ev) - ev_index ev" using k by simp
    from less.hyps [OF this ok1(1)] show ?thesis using l Some b ok1 by (subst ranked_probe.simps) (cases b; simp)
  qed
qed

lemma least_valuable_eval:
  assumes c: "cache_inv e c g" and ev: "evict_ok (sc_segments c) (sc_evict c)"
  obtains r ev' where "least_valuable_seg e c = Some (r, c\<lparr>sc_evict := ev'\<rparr>)" "evict_ok (sc_segments c) ev'"
    "ev_policy ev' = ev_policy (sc_evict c)" "\<And>x. r = Some x \<Longrightarrow> can_evict_at (sc_segments c) x = Some True"
proof -
  let ?s = "sc_segments c" and ?ev = "sc_evict c"
  have ci: "cinv (e_integrity e) ?s (sc_hashtable c) (tt_buckets (sc_ttl_buckets c)) g" using c by (simp add: cache_inv_def)
  note sh = cinv_parts(1) [OF ci]
  have cap: "sg_cap ?s \<noteq> 0" using shape_parts(6) [OF sh] ev unfolding evict_ok_iff by (metis length_0_conv unat_0)
  consider (none) "ev_policy ?ev = PolicyNone" | (random) "ev_policy ?ev = PolicyRandom" | (fifo) "ev_policy ?ev = RandomFifo"
    | (ranks) "ev_policy ?ev = Fifo \<or> ev_policy ?ev = Cte \<or> ev_policy ?ev = Util"
    using ev by (cases "ev_policy ?ev") (auto simp: evict_ok_iff)
  then show thesis
  proof cases
    case none
    then show ?thesis using that [of None ?ev] ev by (simp add: least_valuable_seg_def)
  next
    case random
    obtain x ev' where x: "eviction_random ?ev = (x, ev')" by force
    then have ev': "evict_ok ?s ev'" "ev_policy ev' = PolicyRandom" using ev random by (auto simp: eviction_random_def evict_ok_iff split: prod.splits)
    from random_probe_eval [OF ci, of "probe_order (sg_cap ?s) (x mod sg_cap ?s)"] probe_order_headers [OF sh] obtain r where
      "random_probe ?s (probe_order (sg_cap ?s) (x mod sg_cap ?s)) = Some r" "\<forall>x. r = Some x \<longrightarrow> can_evict_at ?s x = Some True" by blast
    then show ?thesis using that [of r ev'] x ev' random cap by (simp add: least_valuable_seg_def Let_def)
  next
    case fifo
    obtain x ev' where x: "eviction_random ?ev = (x, ev')" by force
    then have ev': "evict_ok ?s ev'" "ev_policy ev' = RandomFifo" using ev fifo by (auto simp: eviction_random_def evict_ok_iff split: prod.splits)
    from random_fifo_eval [OF ci, of "probe_order (sg_cap ?s) (x mod sg_cap ?s)" "{}"] probe_order_headers [OF sh] obtain r where
      "random_fifo ?s (sc_ttl_buckets c) {} (probe_order (sg_cap ?s) (x mod sg_cap ?s)) = Some r" "\<forall>x. r = Some x \<longrightarrow> can_evict_at ?s x = Some True" by blast
    then show ?thesis using that [of r ev'] x ev' fifo cap by (simp add: least_valuable_seg_def Let_def)
  next
    case ranks
    have "ev_ranked ?ev \<noteq> []" using ev by (auto simp: evict_ok_iff)
    then have "\<exists>again ev1. should_rerank (e_since e) (e_now e) ?ev = Some (again, ev1) \<and> (ev1 = ?ev \<or> ev1 = ?ev\<lparr>ev_last_update := e_now e\<rparr>)"
      using ranks by (auto simp: should_rerank_def)
    then obtain again ev1 where s1: "should_rerank (e_since e) (e_now e) ?ev = Some (again, ev1)" and ev1: "ev1 = ?ev \<or> ev1 = ?ev\<lparr>ev_last_update := e_now e\<rparr>"
      by blast
    have ok1: "evict_ok ?s ev1" "ev_policy ev1 = ev_policy ?ev" using ev ev1 by (auto simp: evict_ok_iff)
    have "\<exists>ev2. (if again then rerank (e_after e) (sg_headers ?s) (ev_policy ev1) ev1 else Some ev1) = Some ev2
        \<and> evict_ok ?s ev2 \<and> ev_policy ev2 = ev_policy ?ev"
      using rank_by_ok [OF ci ok1(1)] ranks ok1 by (cases again) auto
    then obtain ev2 where s2: "(if again then rerank (e_after e) (sg_headers ?s) (ev_policy ev1) ev1 else Some ev1) = Some ev2"
      and ok2: "evict_ok ?s ev2" "ev_policy ev2 = ev_policy ?ev" by blast
    from ranked_probe_eval [OF ci ok2(1)] ok2(2) obtain r ev' where "ranked_probe ?s ev2 = Some (r, ev')" "evict_ok ?s ev'"
      "ev_policy ev' = ev_policy ?ev" "\<forall>x. r = Some x \<longrightarrow> can_evict_at ?s x = Some True" by metis
    then show ?thesis using that [of r ev'] s1 s2 ranks by (auto simp: least_valuable_seg_def Let_def)
  qed
qed

section \<open>The drain of a sealed segment\<close>

lemma sealed_position:
  assumes c: "cinv i s ht bs g" and h: "header_of s x = Some h" "holds h m" "md_state m = Sealed"
  obtains as cs where "get_bucket_index (hd_ttl h) < length bs" "g_chains g (get_bucket_index (hd_ttl h)) = as @ x # cs" "cs \<noteq> []"
    "md_next m = at_head cs" "md_prev m = at_last as" "hd_ttl h = tb_ttl (bs ! get_bucket_index (hd_ttl h))"
proof -
  have "readable_header h" using h by (simp add: readable_header_def holds_state)
  then obtain j where j: "j < length bs" "x \<in> set (g_chains g j)" using readable_chained [OF c h(1)] by (auto simp: chained_def)
  note co = chains_okD [OF cinv_parts(4) [OF c] j(1)]
  have t: "hd_ttl h = tb_ttl (bs ! j)" by (rule co(6) [OF j(2) h(1)])
  have "g_chains g j \<noteq> []" using j(2) by auto
  then have ji: "get_bucket_index (hd_ttl h) = j" using co(5) t by simp
  obtain as cs where sp: "g_chains g j = as @ x # cs" using j(2) by (meson split_list)
  have "node s (at_last as) x (at_head cs)" using chain_from_node co(4) sp by simp
  then obtain m' where m': "holds h m'" "md_prev m' = at_last as" "md_next m' = at_head cs" "md_state m' = (if at_head cs = None then Live else Sealed)"
    using h(1) by (auto simp: node_def)
  have "m' = m" using m'(1) h(2) by (rule holds_unique)
  then show thesis using that [of as cs] m' h(3) sp j(1) ji t by (cases cs) auto
qed

lemma segment_view_put: "segment_view i (put_header s x h) y = segment_view i s y"
  by (simp add: segment_view_def)

lemma clear_segment_eval:
  assumes c: "cinv i s ht bs g" and qu: "quiescent g" and j: "j < length bs" "g_chains g j = as @ x # cs"
    and h: "header_of s x = Some h" "holds h m" "md_state m = Sealed" "hd_ref_count h = 0"
  obtains s' ht' where "clear_segment i (s, ht) x = Some (Inr CFreed, s', ht')" "leaves i s as x cs h s'" "requeued x s s'"
    "cached (key_in s (g_items g)) ht' (forget (at_seg x) (g_map g))"
proof -
  from drain_out [OF c qu j h(1,2)] obtain s2 ht' h2 where
    sc: "seg_clear i (put_header s x (draining h m), ht) x = Some (s2, ht')"
    "cached (key_in s (g_items g)) ht' (forget (at_seg x) (g_map g))" "header_of s2 x = Some h2" "hd_ref_count h2 = hd_ref_count h"
    and rc: "hd_ref_count h = 0 \<Longrightarrow> \<exists>s'. recycle i s2 x = Some s' \<and> leaves i s as x cs h s' \<and> requeued x s s'" by metis
  from rc [OF h(4)] obtain s' where s': "recycle i s2 x = Some s'" "leaves i s as x cs h s'" "requeued x s s'" by blast
  have hs: "header_of s x \<noteq> None" using h by simp
  let ?s1 = "put_header s x (draining h m)"
  have eq: "m\<lparr>md_state := Draining\<rparr> = \<lparr>md_next = md_next m, md_prev = md_prev m, md_state = Draining, md_tag = md_tag m\<rparr>" by (cases m) simp
  have dr: "on_header s x (cas_metadata Sealed Draining None None) = Some (True, ?s1)"
    using on_header_cas [OF h(1,2), of Sealed Draining None None] h(3) unfolding draining_def eq by simp
  have h1: "header_of ?s1 x = Some (draining h m)" using hs by (simp add: header_of_put)
  have w: "wait_unpinned (draining h m) = Some ()"
    using cinv_parts(5) [OF c h(1)] qu by (simp add: wait_unpinned_def draining_def head_ok_def quiescent_def)
  have m1: "holds (draining h m) (m\<lparr>md_state := Draining\<rparr>)" using h(2) by (simp add: draining_def holds_def metadata_ok_def)
  have lk: "next_seg (draining h m) = Some (md_next m)" "prev_seg (draining h m) = Some (md_prev m)"
    using m1 by (simp_all add: next_seg_def prev_seg_def holds_metadata)
  have v: "segment_view i ?s1 x = Some (Inr ())"
    using segment_view_ok [OF cinv_parts(1) [OF c] h(1)] unfolding segment_view_put .
  have "claim_for_drain s x = Some (True, ?s1)" using dr h1 w by (simp add: claim_for_drain_def)
  moreover have "finalize_drained i (?s1, ht) x = Some (CFreed, s', ht')"
    unfolding finalize_drained_def fst_conv by (simp only: h1 lk v bind.bind_lunit sum.case sc prod.case) (simp add: h(4) s'(1))
  ultimately show thesis using that s'(2,3) sc(2) by (simp add: clear_segment_def)
qed

lemma clear_and_fix_head_eval:
  assumes c: "cache_inv e c g" and qu: "quiescent g" and h: "header_of (sc_segments c) x = Some h" "can_evict h = Some True"
  obtains j n c' where "lock_sealed_in_bucket c x = Some (Some j)" "clear_and_fix_head e j x c = Some (Inr CFreed, n, c')"
    "cache_inv e c' (without_seg x j g)" "drained_by {x} (sc_segments c) (sc_segments c')" "sc_evict c' = sc_evict c"
    "requeued x (sc_segments c) (sc_segments c')"
proof -
  let ?i = "e_integrity e" and ?s = "sc_segments c" and ?ht = "sc_hashtable c" and ?bs = "tt_buckets (sc_ttl_buckets c)"
  let ?j = "get_bucket_index (hd_ttl h)"
  have ci: "cinv ?i ?s ?ht ?bs g" using c by (simp add: cache_inv_def)
  from cinv_can_evict [OF ci h(1)] h(2) obtain m where m: "holds h m" "md_state m = Sealed" "hd_ref_count h = 0"
    by (metis option.inject)
  from sealed_position [OF ci h(1) m(1,2)] obtain as cs where p: "?j < length ?bs" "g_chains g ?j = as @ x # cs" "cs \<noteq> []"
    "md_next m = at_head cs" "md_prev m = at_last as" "hd_ttl h = tb_ttl (?bs ! ?j)" by metis
  note co = chains_okD [OF cinv_parts(4) [OF ci] p(1)]
  have lk: "next_seg h = Some (at_head cs)" "prev_seg h = Some (at_last as)" using m p by (simp_all add: next_seg_def prev_seg_def holds_metadata)
  from clear_segment_eval [OF ci qu p(1,2) h(1) m] obtain s' ht' where
    cl: "clear_segment ?i (?s, ?ht) x = Some (Inr CFreed, s', ht')" "leaves ?i ?s as x cs h s'" "requeued x ?s s'"
    "cached (key_in ?s (g_items g)) ht' (forget (at_seg x) (g_map g))" by metis
  let ?b = "if at_last as = None then set_head (at_head cs) (?bs ! ?j) else ?bs ! ?j"
  let ?c = "put_sht (s', ht') c"
  let ?c' = "if at_last as = None then ?c\<lparr>sc_ttl_buckets := put_bucket (sc_ttl_buckets ?c) ?j ?b\<rparr> else ?c"
  have ch: "bucket_head (?bs ! ?j) = at_head (as @ x # cs)" "bucket_tail (?bs ! ?j) = at_last (as @ x # cs)"
    "chain_from ?s None (as @ x # cs)" "distinct (as @ x # cs)" using co(2,3,4) p(2) by (simp_all add: chain_def)
  have hl: "link_new (link_get (at_head cs)) = at_head cs" using chain_neighbours(3) [OF ch(3,4)] by (rule link_new_get)
  have b: "bucket_head ?b = at_head (as @ cs)" "bucket_tail ?b = at_last (as @ cs)" "tb_ttl ?b = tb_ttl (?bs ! ?j)"
    using ch(1,2) p(3) hl by (cases as; auto simp: set_head_def bucket_head_def bucket_tail_def at_last_def)+
  have "cinv ?i s' ht' (?bs[?j := ?b]) (without_seg x ?j g)"
    by (rule cinv_leaves [OF ci qu p(1,2) _ h(1) cl(2,4) b]) (use p(3) in simp)
  moreover have "tt_buckets (sc_ttl_buckets ?c') = ?bs[?j := ?b]" "sc_segments ?c' = s'" "sc_hashtable ?c' = ht'" "sc_evict ?c' = sc_evict c"
    by (auto simp: put_sht_def put_bucket_def)
  moreover have "clear_and_fix_head e ?j x c = Some (Inr CFreed, at_head cs, ?c')"
    using h(1) lk cl(1) p(1) by (auto simp: clear_and_fix_head_def on_bucket_def bucket_at_def put_sht_def)
  moreover have "lock_sealed_in_bucket c x = Some (Some ?j)"
    using h(1) p(1,6) holds_state [OF m(1)] m(2) by (simp add: lock_sealed_in_bucket_def Let_def bucket_at_def is_sealed_member_def holds_ttl_def)
  ultimately show thesis using that leaves_drained [OF cl(2) h(1)] cl(3) by (simp add: cache_inv_def)
qed

section \<open>Evicting\<close>

text \<open>The segments eviction may take: those past their expiry, and those no reader pins.\<close>

definition may_go :: "env \<Rightarrow> segments \<Rightarrow> u32 \<Rightarrow> bool" where
  "may_go e s x \<longleftrightarrow> due (e_after e) (Some (e_now e)) s x \<or> (\<exists>h. header_of s x = Some h \<and> hd_ref_count h = 0)"

lemma same_times_may_go: "same_times D s s' \<Longrightarrow> y \<notin> D \<Longrightarrow> may_go e s' y = may_go e s y"
  using same_times_due [of D s s' y] unfolding same_times_def may_go_def
  by (cases "header_of s' y"; cases "header_of s y") fastforce+

text \<open>All but \<open>n\<close> of the segments dropped are past their expiry.\<close>

definition mostly_due :: "env \<Rightarrow> segments \<Rightarrow> nat \<Rightarrow> u32 set \<Rightarrow> bool" where
  "mostly_due e s n D \<longleftrightarrow> finite D \<and> card {x \<in> D. \<not> due (e_after e) (Some (e_now e)) s x} \<le> n"

lemma due_stamp: "stamp s' = stamp s \<Longrightarrow> due after cutoff s' = due after cutoff s"
proof
  fix x assume "stamp s' = stamp s"
  then have "stamp s' x = stamp s x" by simp
  then show "due after cutoff s' x = due after cutoff s x"
    unfolding due_def stamp_def by (cases "header_of s' x"; cases "header_of s x") (simp_all split: option.split)
qed

lemma mostly_due_stamp:
  assumes "stamp s' = stamp s"
  shows "mostly_due e s' n D = mostly_due e s n D"
  unfolding mostly_due_def due_stamp [OF assms] ..

lemma mostly_due_simps [simp]: "mostly_due e s n {}" "mostly_due e s (Suc 0) {x}"
proof -
  have "card {y \<in> {x}. \<not> due (e_after e) (Some (e_now e)) s y} \<le> card {x}" by (rule card_mono) auto
  then show "mostly_due e s (Suc 0) {x}" by (simp add: mostly_due_def)
qed (simp add: mostly_due_def)

lemma mostly_due_all: "finite D \<Longrightarrow> (\<And>x. x \<in> D \<Longrightarrow> due (e_after e) (Some (e_now e)) s x) \<Longrightarrow> mostly_due e s 0 D"
  by (auto simp: mostly_due_def card_eq_0_iff)

lemma mostly_due_mono: "mostly_due e s n D \<Longrightarrow> n \<le> m \<Longrightarrow> mostly_due e s m D"
  by (simp add: mostly_due_def)

lemma mostly_due_Un:
  assumes "mostly_due e s n D" and "mostly_due e s m D'"
  shows "mostly_due e s (n + m) (D \<union> D')"
proof -
  have "{x \<in> D \<union> D'. \<not> due (e_after e) (Some (e_now e)) s x}
      = {x \<in> D. \<not> due (e_after e) (Some (e_now e)) s x} \<union> {x \<in> D'. \<not> due (e_after e) (Some (e_now e)) s x}" by blast
  then have "card {x \<in> D \<union> D'. \<not> due (e_after e) (Some (e_now e)) s x} \<le> card {x \<in> D. \<not> due (e_after e) (Some (e_now e)) s x}
      + card {x \<in> D'. \<not> due (e_after e) (Some (e_now e)) s x}" by (simp only: card_Un_le)
  then show ?thesis using assms by (simp add: mostly_due_def)
qed

text \<open>The cache after an operation that only dropped the segments \<open>D\<close>.\<close>

definition evicted :: "env \<Rightarrow> u32 set \<Rightarrow> segcache \<Rightarrow> ghost \<Rightarrow> segcache \<Rightarrow> ghost \<Rightarrow> bool" where
  "evicted e D c g c' g' \<longleftrightarrow> cache_inv e c' g' \<and> quiescent g' \<and> content g' = minus_segs D (content g)
     \<and> drained_by D (sc_segments c) (sc_segments c') \<and> evict_ok (sc_segments c') (sc_evict c')
     \<and> ev_policy (sc_evict c') = ev_policy (sc_evict c) \<and> (\<forall>x \<in> D. may_go e (sc_segments c) x)"

lemma evictedI:
  assumes "cache_inv e c' g'" "quiescent g'" "content g' = minus_segs D (content g)" "drained_by D (sc_segments c) (sc_segments c')"
    "evict_ok (sc_segments c) (sc_evict c')" "ev_policy (sc_evict c') = ev_policy (sc_evict c)"
    "\<forall>x \<in> D. may_go e (sc_segments c) x"
  shows "evicted e D c g c' g'"
proof -
  have "length (sg_headers (sc_segments c')) = length (sg_headers (sc_segments c))" using assms(4) by (simp add: drained_by_def)
  from evict_ok_cong [OF this] show ?thesis using assms by (simp add: evicted_def)
qed

lemma evicted_trans:
  assumes "evicted e D c g c1 g1" and "evicted e D' c1 g1 c2 g2"
  shows "evicted e (D \<union> D') c g c2 g2"
proof -
  note a = assms [unfolded evicted_def]
  have "drained_by (D \<union> D') (sc_segments c) (sc_segments c2)" using a drained_by_trans by blast
  moreover have "same_times D (sc_segments c) (sc_segments c1)" using a by (simp add: drained_by_def)
  then have "\<forall>x \<in> D \<union> D'. may_go e (sc_segments c) x" using a same_times_may_go by (metis Un_iff)
  ultimately show ?thesis using a by (simp add: evicted_def Un_commute)
qed

lemma evict_ranked_eval:
  assumes c: "cache_inv e c g" and qu: "quiescent g" and ev: "evict_ok (sc_segments c) (sc_evict c)"
  shows "\<exists>r c' g' D. evict_ranked e c = Some (r, c') \<and> evicted e D c g c' g' \<and> mostly_due e (sc_segments c) 1 D"
proof -
  from least_valuable_eval [OF c ev] obtain r ev' where l: "least_valuable_seg e c = Some (r, c\<lparr>sc_evict := ev'\<rparr>)"
    "evict_ok (sc_segments c) ev'" "ev_policy ev' = ev_policy (sc_evict c)" "\<And>x. r = Some x \<Longrightarrow> can_evict_at (sc_segments c) x = Some True" by metis
  let ?c = "c\<lparr>sc_evict := ev'\<rparr>"
  have c1: "cache_inv e ?c g" using c by (simp add: cache_inv_def)
  show ?thesis
  proof (cases r)
    case None
    have "evicted e {} c g ?c g" using c1 qu l by (intro evictedI) simp_all
    then show ?thesis using l(1) None by (auto simp: evict_ranked_def intro!: exI [of _ "{}"])
  next
    case (Some x)
    then obtain h where h: "header_of (sc_segments ?c) x = Some h" "can_evict h = Some True" using l(4) can_evict_atD by fastforce
    from clear_and_fix_head_eval [OF c1 qu h] obtain j n c' where
      r: "lock_sealed_in_bucket ?c x = Some (Some j)" "clear_and_fix_head e j x ?c = Some (Inr CFreed, n, c')"
      "cache_inv e c' (without_seg x j g)" "drained_by {x} (sc_segments ?c) (sc_segments c')" "sc_evict c' = sc_evict ?c" by metis
    have "content (without_seg x j g) = minus_segs {x} (content g)"
      using content_without_seg c1 unfolding cache_inv_def by blast
    moreover have "hd_ref_count h = 0" using c1 h cinv_can_evict unfolding cache_inv_def by (metis option.inject)
    then have "may_go e (sc_segments c) x" using h(1) by (simp add: may_go_def)
    ultimately have "evicted e {x} c g c' (without_seg x j g)" using r qu l by (intro evictedI) simp_all
    then show ?thesis using l(1) Some r(1,2) by (auto simp: evict_ranked_def intro!: exI [of _ "{x}"])
  qed
qed

lemma evict_eval:
  assumes c: "cache_inv e c g" and qu: "quiescent g" and ev: "evict_ok (sc_segments c) (sc_evict c)"
  obtains r c' g' D where "evict e c = Some (r, c')" "evicted e D c g c' g'" "mostly_due e (sc_segments c) 1 D"
proof -
  let ?s = "sc_segments c" and ?t = "sc_ttl_buckets c"
  have ci: "cinv (e_integrity e) ?s (sc_hashtable c) (tt_buckets ?t) g" using c by (simp add: cache_inv_def)
  obtain n c1 g1 D where x: "ttl_expire (e_integrity e) (e_after e) (e_now e) (?s, sc_hashtable c, ?t)
      = Some (n, sc_segments c1, sc_hashtable c1, sc_ttl_buckets c1)"
    "c1 = c\<lparr>sc_segments := sc_segments c1, sc_hashtable := sc_hashtable c1, sc_ttl_buckets := sc_ttl_buckets c1\<rparr>" "evicted e D c g c1 g1" "mostly_due e (sc_segments c) 0 D"
  proof (cases "tt_last_expired ?t = e_now e")
    case True
    have "evicted e {} c g c g" using c qu ev by (intro evictedI) simp_all
    then show thesis using that [of 0 c] True by (simp add: ttl_expire_def)
  next
    case False
    from ttl_expire_eval [OF ci qu False, of "e_after e"] obtain n s' ht' bs' g' where
      r: "ttl_expire (e_integrity e) (e_after e) (e_now e) (?s, sc_hashtable c, ?t) = Some (n, s', ht', ?t\<lparr>tt_last_expired := e_now e, tt_buckets := bs'\<rparr>)"
      "cinv (e_integrity e) s' ht' bs' g'" "quiescent g'"
      "content g' = minus_segs (due_of (e_after e) (Some (e_now e)) ?s (g_chains g) [0..<length (tt_buckets ?t)]) (content g)"
      "drained_by (due_of (e_after e) (Some (e_now e)) ?s (g_chains g) [0..<length (tt_buckets ?t)]) ?s s'" by metis
    let ?c = "c\<lparr>sc_segments := s', sc_hashtable := ht', sc_ttl_buckets := ?t\<lparr>tt_last_expired := e_now e, tt_buckets := bs'\<rparr>\<rparr>"
    have "cache_inv e ?c g'" using r(2) by (simp add: cache_inv_def)
    moreover have "\<forall>x \<in> due_of (e_after e) (Some (e_now e)) ?s (g_chains g) [0..<length (tt_buckets ?t)]. may_go e ?s x"
      by (auto simp: due_of_def may_go_def dest: set_takeWhileD)
    ultimately have "evicted e (due_of (e_after e) (Some (e_now e)) ?s (g_chains g) [0..<length (tt_buckets ?t)]) c g ?c g'"
      using r(3-5) ev by (intro evictedI) simp_all
    moreover have "mostly_due e ?s 0 (due_of (e_after e) (Some (e_now e)) ?s (g_chains g) [0..<length (tt_buckets ?t)])"
      by (rule mostly_due_all) (auto simp: due_of_def dest: set_takeWhileD)
    ultimately show thesis using that [of n ?c] r(1) by simp
  qed
  have cc: "c\<lparr>sc_segments := sc_segments c1, sc_hashtable := sc_hashtable c1, sc_ttl_buckets := sc_ttl_buckets c1\<rparr> = c1" using x(2) by simp
  have step: "evict e c = (if n > 0 then Some (Inr (), c1) else evict_by e (ev_policy (sc_evict c1)) c1)"
    by (simp add: evict_def x(1) cc)
  note e1 = x(3) [unfolded evicted_def]
  show thesis
  proof (cases "n > 0")
    case True
    then show thesis using that step x(3) mostly_due_mono [OF x(4)] by simp
  next
    case False
    obtain r c2 g2 D2 where r: "evict_ranked e c1 = Some (r, c2)" "evicted e D2 c1 g1 c2 g2" "mostly_due e (sc_segments c1) 1 D2" using evict_ranked_eval e1 by metis
    have "stamp (sc_segments c1) = stamp ?s" using e1 by (simp add: drained_by_def)
    from mostly_due_stamp [OF this] have du: "mostly_due e ?s 1 (D \<union> D2)" using mostly_due_Un [OF x(4), of 1 D2] r(3) by simp
    have "\<exists>r c' g' D. evict_by e (ev_policy (sc_evict c1)) c1 = Some (r, c') \<and> evicted e D c g c' g' \<and> mostly_due e ?s 1 D"
    proof (cases "ev_policy (sc_evict c1) = PolicyNone")
      case True
      then show ?thesis using x(3) mostly_due_mono [OF x(4)] by auto
    next
      case F: False
      then have "evict_by e (ev_policy (sc_evict c1)) c1 = evict_ranked e c1"
        using e1 by (cases "ev_policy (sc_evict c1)") (auto simp: evict_ok_iff)
      then show ?thesis using r evicted_trans [OF x(3) r(2)] du by auto
    qed
    then show thesis using that step False by auto
  qed
qed

end
