(* ===== verification/CacheWrite.thy ===== *)
theory CacheWrite
  imports CacheEvict
begin

unbundle bit_operations_syntax

text \<open>
  Writes to the item memory of the composed cache, and the removal of an item: a write within an item changes this item
  only, and removing an item that is no longer linked changes no content, even when it drops the emptied segment.
\<close>

section \<open>Frames\<close>

lemma seg_disjoint:
  assumes "header_of s x \<noteq> None" and "header_of s y \<noteq> None" and "x \<noteq> y"
  shows "seg_base s y + seg_bytes s \<le> seg_base s x \<or> seg_base s x + seg_bytes s \<le> seg_base s y"
proof -
  let ?a = "unat x - 1" and ?b = "unat y - 1"
  have "unat x \<noteq> 0" "unat y \<noteq> 0" using assms by (simp_all add: header_of_def unat_eq_0 split: if_splits)
  moreover have "unat x \<noteq> unat y" using assms(3) by (simp add: word_unat_eq_iff)
  ultimately have "?b < ?a \<or> ?a < ?b" by linarith
  then show ?thesis
    using mult_le_mono2 [of "Suc ?b" ?a "seg_bytes s"] mult_le_mono2 [of "Suc ?a" ?b "seg_bytes s"]
    by (auto simp: byte_offset_def Suc_le_eq)
qed

text \<open>A write of \<open>n\<close> bytes at offset \<open>pos\<close> of segment \<open>x\<close>, past the magic.\<close>

definition seg_write :: "bool \<Rightarrow> segments \<Rightarrow> u32 \<Rightarrow> nat \<Rightarrow> nat \<Rightarrow> u8 list \<Rightarrow> bool" where
  "seg_write i s x pos n m' \<longleftrightarrow> changed_in (seg_base s x + pos) n (sg_data s) m' \<and> item_start i \<le> pos \<and> pos + n \<le> seg_bytes s
     \<and> header_of s x \<noteq> None"

lemma seg_write_other:
  assumes w: "seg_write i s x pos n m'" and y: "header_of s y \<noteq> None" "y \<noteq> x"
  shows "tiled i (sg_data s) (seg_base s y) off cs e \<Longrightarrow> e \<le> seg_bytes s \<Longrightarrow> tiled i m' (seg_base s y) off cs e"
    and "o' + k \<le> seg_bytes s \<Longrightarrow> load_bytes m' (seg_base s y + o') k = load_bytes (sg_data s) (seg_base s y + o') k"
    and "o' + csize i c \<le> seg_bytes s \<Longrightarrow> cell_at i (sg_data s) (seg_base s y + o') c \<longleftrightarrow> cell_at i m' (seg_base s y + o') c"
proof -
  have ch: "changed_in (seg_base s x + pos) n (sg_data s) m'" and ch': "changed_in (seg_base s x + pos) n m' (sg_data s)"
    and b: "pos + n \<le> seg_bytes s" and x: "header_of s x \<noteq> None"
    using w by (simp_all add: seg_write_def changed_in_def)
  note d = seg_disjoint [OF x y(1) y(2) [symmetric]]
  show "tiled i m' (seg_base s y) off cs e" if "tiled i (sg_data s) (seg_base s y) off cs e" "e \<le> seg_bytes s"
    by (rule tiled_frame [OF that(1) ch]) (use d b that(2) in linarith)
  show "load_bytes m' (seg_base s y + o') k = load_bytes (sg_data s) (seg_base s y + o') k" if "o' + k \<le> seg_bytes s"
    by (rule load_bytes_frame [OF ch]) (use d b that in linarith)
  show "cell_at i (sg_data s) (seg_base s y + o') c \<longleftrightarrow> cell_at i m' (seg_base s y + o') c" if k: "o' + csize i c \<le> seg_bytes s"
  proof -
    have "seg_base s y + o' + csize i c \<le> seg_base s x + pos \<or> seg_base s x + pos + n \<le> seg_base s y + o'"
      using d b k by linarith
    then show ?thesis using cell_at_frame [OF ch, of "seg_base s y + o'" i c] cell_at_frame [OF ch', of "seg_base s y + o'" i c] by blast
  qed
qed

lemma data_simps [simp]:
  "header_of (s\<lparr>sg_data := m\<rparr>) y = header_of s y" "queued (s\<lparr>sg_data := m\<rparr>) = queued s" "node (s\<lparr>sg_data := m\<rparr>) a b c = node s a b c"
  "store_ok i (s\<lparr>sg_data := m\<rparr>) = store_ok i s" "byte_offset (s\<lparr>sg_data := m\<rparr>) y p = byte_offset s y p"
  "key_in (s\<lparr>sg_data := m\<rparr>) G = key_in s G"
proof -
  show h: "header_of (s\<lparr>sg_data := m\<rparr>) y = header_of s y" for y by (simp add: header_of_def)
  show q: "queued (s\<lparr>sg_data := m\<rparr>) = queued s" by (simp add: queued_def)
  show "node (s\<lparr>sg_data := m\<rparr>) a b c = node s a b c" by (simp add: node_def h)
  show "store_ok i (s\<lparr>sg_data := m\<rparr>) = store_ok i s" by (simp add: store_ok_def fits_segment_def q h header_good_def)
  show "byte_offset (s\<lparr>sg_data := m\<rparr>) y p = byte_offset s y p" by (simp add: byte_offset_def)
  show "key_in (s\<lparr>sg_data := m\<rparr>) G = key_in s G" by (simp add: key_in_def fun_eq_iff h)
qed

lemma chain_data [simp]: "chain (s\<lparr>sg_data := m\<rparr>) b xs = chain s b xs" "chains_ok (s\<lparr>sg_data := m\<rparr>) bs g = chains_ok s bs g"
proof -
  have "chain_from (s\<lparr>sg_data := m\<rparr>) p xs = chain_from s p xs" for p xs by (rule chain_from_cong) simp
  then show c: "chain (s\<lparr>sg_data := m\<rparr>) b xs = chain s b xs" for b xs by (simp add: chain_def)
  show "chains_ok (s\<lparr>sg_data := m\<rparr>) bs g = chains_ok s bs g" by (simp add: chains_ok_def c)
qed

lemma shape_write:
  assumes sh: "shape i s" and w: "seg_write i s x pos n m'" and st: "item_start_ok i (s\<lparr>sg_data := m'\<rparr>) x"
  shows "shape i (s\<lparr>sg_data := m'\<rparr>)"
proof -
  have x: "header_of s x \<noteq> None" and len: "length m' = length (sg_data s)" using w by (simp_all add: seg_write_def changed_in_def)
  note room = shape_parts(5) [OF sh]
  have "item_start_ok i (s\<lparr>sg_data := m'\<rparr>) y" if y: "header_of s y = Some k" "y \<noteq> x" for y k
  proof -
    have "raw_klen i m' (seg_base s y + item_start i) = raw_klen i (sg_data s) (seg_base s y + item_start i)"
      using seg_write_other(2) [OF w _ y(2), of "item_start i" "ITEM_HDR_SIZE i"] y(1) room by (simp add: raw_klen_def raw_header_def)
    then show ?thesis using shape_header(3) [OF sh y(1)] seg_write_other(3) [OF w _ y(2), where o' = "item_start i"] y(1)
      unfolding item_start_ok_def by (auto simp: Let_def)
  qed
  moreover have "seg_check_magic i (s\<lparr>sg_data := m'\<rparr>) y = Some ()" if y: "header_of s y = Some k" for y k
  proof (cases "y = x \<or> \<not> i")
    case False
    have "8 \<le> seg_bytes s" using room False by (simp add: item_start_def)
    then have "load_bytes m' (seg_base s y + 0) 8 = load_bytes (sg_data s) (seg_base s y + 0) 8"
      using seg_write_other(2) [OF w, of y 0 8] y False by simp
    then show ?thesis using shape_header(2) [OF sh y] by (cases i) (simp_all add: seg_check_magic_def)
  next
    case True
    have "i \<Longrightarrow> load_bytes m' (seg_base s x) 8 = load_bytes (sg_data s) (seg_base s x) 8"
      by (rule load_bytes_frame [of "seg_base s x + pos" n]) (use w in \<open>simp_all add: seg_write_def item_start_def\<close>)
    then show ?thesis using shape_header(2) [OF sh y] True by (auto simp: seg_check_magic_def)
  qed
  ultimately show ?thesis using sh st len unfolding shape_def by auto
qed

lemma chains_ok_cong: "g_chains g' = g_chains g \<Longrightarrow> chains_ok s bs g' = chains_ok s bs g"
  unfolding chains_ok_def by (simp only:)

section \<open>Writing one item\<close>

definition put_cell :: "nat \<Rightarrow> cell \<Rightarrow> stream \<Rightarrow> stream" where
  "put_cell pos d cs = map (\<lambda>(q, e). (q, if q = pos then d else e)) cs"

definition with_cell :: "u32 \<Rightarrow> nat \<Rightarrow> cell \<Rightarrow> ghost \<Rightarrow> ghost" where
  "with_cell x pos d g = g\<lparr>g_items := (g_items g)(x := put_cell pos d (g_items g x))\<rparr>"

lemma with_cell_fields [simp]:
  "g_map (with_cell x pos d g) = g_map g" "g_chains (with_cell x pos d g) = g_chains g" "g_extra (with_cell x pos d g) = g_extra g"
  "g_writer (with_cell x pos d g) = g_writer g" "g_remover (with_cell x pos d g) = g_remover g"
  "g_items (with_cell x pos d g) = (g_items g)(x := put_cell pos d (g_items g x))" "quiescent (with_cell x pos d g) = quiescent g"
  "chained bs (with_cell x pos d g) y = chained bs g y"
  by (simp_all add: with_cell_def quiescent_def chained_def)

lemma put_cell_map:
  assumes "\<And>e. (pos, e) \<in> set cs \<Longrightarrow> f pos e = f pos d"
  shows "map (\<lambda>(q, e). f q e) (put_cell pos d cs) = map (\<lambda>(q, e). f q e) cs"
  using assms by (auto simp: put_cell_def)

lemma map_of_put_cell:
  assumes "(pos, e) \<in> set cs"
  shows "map_of (put_cell pos d cs) q = (if q = pos then Some d else map_of cs q)"
proof -
  have "map_of (put_cell pos d cs) q = (if q = pos \<and> pos \<in> fst ` set cs then Some d else map_of cs q)"
    by (induction cs) (force simp: put_cell_def)+
  moreover have "pos \<in> fst ` set cs" using assms by force
  ultimately show ?thesis by simp
qed

lemma put_cell_same: "distinct (map fst cs) \<Longrightarrow> (pos, d) \<in> set cs \<Longrightarrow> put_cell pos d cs = cs"
  unfolding put_cell_def by (rule map_idI) (auto dest: eq_key_imp_eq_value)

lemma with_cell_same: "distinct (map fst (g_items g x)) \<Longrightarrow> (pos, d) \<in> set (g_items g x) \<Longrightarrow> with_cell x pos d g = g"
  by (simp add: with_cell_def put_cell_same fun_upd_idem)

lemma filter_put_cell:
  assumes "P (pos, d) = P (pos, e)" and "distinct (map fst cs)" and "(pos, e) \<in> set cs"
  shows "filter P (put_cell pos d cs) = put_cell pos d (filter P cs)"
  using assms(2,3)
proof (induction cs)
  case (Cons c cs)
  obtain q k where c: "c = (q, k)" by force
  show ?case
  proof (cases "q = pos")
    case True
    then have "k = e" "pos \<notin> fst ` set cs" using Cons.prems c by (auto dest: set_zip_leftD intro: rev_image_eqI)
    then have "put_cell pos d cs = cs" "put_cell pos d (filter P cs) = filter P cs"
      unfolding put_cell_def by (force intro!: map_idI)+
    then show ?thesis using assms(1) c True \<open>k = e\<close> by (simp add: put_cell_def)
  next
    case False
    then have "filter P (put_cell pos d cs) = put_cell pos d (filter P cs)" using Cons c by auto
    then show ?thesis using c False by (simp add: put_cell_def)
  qed
qed simp

lemma cinv_write:
  assumes c: "cinv i s ht bs g" and h: "header_of s x = Some h" and p: "(pos, d) \<in> set (g_items g x)"
    and w: "changed_in (seg_base s x + pos) (csize i d) (sg_data s) m'" "cell_at i m' (seg_base s x + pos) d'"
    and d': "ce_key d' = ce_key d" "csize i d' = csize i d"
  shows "cinv i (s\<lparr>sg_data := m'\<rparr>) ht bs (with_cell x pos d' g)"
proof -
  let ?s = "s\<lparr>sg_data := m'\<rparr>" and ?g = "with_cell x pos d' g"
  note b = in_bounds [OF c h p]
  note sh = cinv_parts(1) [OF c]
  have sw: "seg_write i s x pos (csize i d) m'" using w(1) b(3,5) h by (simp add: seg_write_def)
  have ok: "head_ok i s bs g x h" using c h by (simp add: cinv_def)
  then have t: "tiled i (sg_data s) (seg_base s x) (item_start i) (g_items g x) (nat (sint (hd_write_offset h)))"
    and cn: "counts i (sint (initial_offset i)) (counted g x h) h" using b(1) by (simp_all add: head_ok_def)
  have t': "tiled i m' (seg_base s x) (item_start i) (put_cell pos d' (g_items g x)) (nat (sint (hd_write_offset h)))"
    unfolding put_cell_def by (rule tiled_update [OF t p w d'(2)])
  have "item_start_ok i ?s x"
  proof -
    obtain q e cs where i: "g_items ?g x = (q, e) # cs" using p by (cases "g_items ?g x") (auto simp: put_cell_def)
    then have "q = item_start i" "cell_at i m' (seg_base s x + item_start i) e" "item_start i + csize i e \<le> nat (sint (hd_write_offset h))"
      using t' tiled_le by fastforce+
    then show ?thesis using shape_header(9) [OF sh h] unfolding item_start_ok_def by (auto simp: Let_def)
  qed
  note sh' = shape_write [OF sh sw this]
  have keys: "key_in ?s (g_items ?g) = key_in s (g_items g)"
  proof
    fix l
    have "map_option ce_key (map_of (g_items ?g y) q) = map_option ce_key (map_of (g_items g y) q)" for y q
      using map_of_put_cell [OF p] b(8) p d'(1) by auto
    then show "key_in ?s (g_items ?g) l = key_in s (g_items g) l"
      unfolding data_simps(6) key_in_def split_beta Let_def by presburger
  qed
  have cnt: "counts i k (counted ?g y hy) hz = counts i k (counted g y hy) hz" for y k hy hz
  proof (cases "y = x")
    case True
    have "counted ?g x hy = put_cell pos d' (counted g x hy)"
      unfolding counted_def by (simp add: filter_put_cell [OF _ b(8) p] d'(1))
    moreover have "sizes i (put_cell pos d' ds) = sizes i ds" if "\<And>e. (pos, e) \<in> set ds \<Longrightarrow> e = d" for ds
      unfolding sizes_def using put_cell_map [of pos ds "\<lambda>_ e. csize i e" d'] that d'(2) by metis
    moreover have "e = d" if "(pos, e) \<in> set (counted g x hy)" for e
      using that p b(8) by (auto simp: counted_def dest: eq_key_imp_eq_value)
    ultimately show ?thesis using True by (simp add: counts_def put_cell_def)
  qed (simp add: counted_def counts_def)
  have "head_ok i ?s bs ?g y k" if k: "header_of ?s y = Some k" for y k
  proof -
    have k': "header_of s y = Some k" using k by simp
    have oky: "head_ok i s bs g y k" using c k' by (simp add: cinv_def)
    show ?thesis
    proof (cases "y = x")
      case True
      then have "k = h" using k' h by simp
      then show ?thesis using oky t' True b(1) unfolding head_ok_def by (simp add: cnt)
    next
      case False
      have e: "nat (sint (hd_write_offset k)) \<le> seg_bytes s" using shape_header(9) [OF sh k'] by linarith
      then show ?thesis using oky seg_write_other(1) [OF sw _ False] k' False unfolding head_ok_def by (auto simp: cnt)
    qed
  qed
  moreover have "chains_ok ?s bs ?g" using cinv_parts(4) [OF c] chains_ok_cong [of ?g g] by simp
  ultimately show ?thesis using sh' keys cinv_parts(3) [OF c] by (simp add: cinv_def del: data_simps)
qed

end
