(* ===== verification/CacheReserve.thy ===== *)
theory CacheReserve
  imports CacheWrite
begin

unbundle bit_operations_syntax

text \<open>
  Reserving space in the composed cache: a free segment appended to the chain of a bucket, an item placing at the write
  offset of its tail, and the rounds of reservation and eviction, which end.
\<close>

section \<open>Appending a segment\<close>

definition with_tail :: "nat \<Rightarrow> u32 \<Rightarrow> ghost \<Rightarrow> ghost" where
  "with_tail j x g = g\<lparr>g_chains := (g_chains g)(j := g_chains g j @ [x])\<rparr>"

lemma with_tail_fields [simp]:
  "g_items (with_tail j x g) = g_items g" "g_map (with_tail j x g) = g_map g" "g_extra (with_tail j x g) = g_extra g"
  "g_chains (with_tail j x g) = (g_chains g)(j := g_chains g j @ [x])" "g_writer (with_tail j x g) = g_writer g"
  "g_remover (with_tail j x g) = g_remover g" "quiescent (with_tail j x g) = quiescent g"
  "content (with_tail j x g) = content g" "counted (with_tail j x g) y k = counted g y k"
  by (simp_all add: with_tail_def quiescent_def content_def item_of_def [abs_def] fun_eq_iff counted_def)

lemma appended_headers:
  assumes c: "cinv i s ht bs g" and j: "j < length bs" and a: "appended i now ttl s (g_chains g j) x rest s'" and yx: "y \<noteq> x"
    and k: "header_of s' y = Some k"
  obtains k0 m m' w where "header_of s y = Some k0" "holds k0 m" "holds k m'" "is_readable (md_state m') = is_readable (md_state m)"
    "md_state m' = md_state m \<or> md_state m' = Sealed" "k = k0\<lparr>hd_metadata := w\<rparr>"
proof (cases "g_chains g j \<noteq> [] \<and> y = last (g_chains g j)")
  case False
  then have k0: "header_of s y = Some k" using a k yx unfolding appended_def by auto
  obtain m where "holds k m" using cinv_parts(5) [OF c k0] by (auto simp: head_ok_def)
  then show thesis using that [OF k0, of m m "hd_metadata k"] by simp
next
  case True
  then obtain h m where h: "header_of s y = Some h" "holds h m" "k = h\<lparr>hd_metadata := metadata_pack (m\<lparr>md_next := Some x, md_state := Sealed\<rparr>)\<rparr>"
    using a k unfolding appended_def by auto
  have "y \<in> set (g_chains g j)" using True by auto
  then have "chained bs g y" using j by (auto simp: chained_def)
  then have r: "is_readable (md_state m)" using cinv_parts(5) [OF c h(1)] holds_unique [OF h(2)] by (auto simp: head_ok_def)
  have "header_of s x \<noteq> None" using a by (auto simp: appended_def)
  then have "link_ok (Some x)" using store_link_id [OF cinv_parts(2) [OF c]] link_id_ok by blast
  then have "holds k (m\<lparr>md_next := Some x, md_state := Sealed\<rparr>)" using h(2) unfolding h(3) by (simp add: holds_def metadata_ok_def)
  from that [OF h(1,2) this] show thesis using r h(3) by (simp add: is_readable_def)
qed

text \<open>A queued segment is in no chain and holds nothing.\<close>

lemma queued_empty:
  assumes c: "cinv i s ht bs g" and q: "x \<in> set (queued s)" and h: "header_of s x = Some h"
  shows "\<not> chained bs g x" "g_items g x = []" "content g k \<noteq> Some (x, d)"
proof -
  show nx: "\<not> chained bs g x"
  proof
    assume "chained bs g x"
    then obtain l where l: "l < length bs" "x \<in> set (g_chains g l)" by (auto simp: chained_def)
    then show False using chain_from_not_queued [OF cinv_parts(2) [OF c] chains_okD(4) [OF cinv_parts(4) [OF c] l(1)]] q by blast
  qed
  then show e: "g_items g x = []" using cinv_parts(5) [OF c h] by (simp add: head_ok_def)
  show "content g k \<noteq> Some (x, d)" using content_Some [OF c, of k x d] e by fastforce
qed

lemma appended_stamp: "appended i now ttl s xs x rest s' \<Longrightarrow> stamp s' = (stamp s)(x \<mapsto> (now, ttl))"
proof
  fix y assume a: "appended i now ttl s xs x rest s'"
  show "stamp s' y = ((stamp s)(x \<mapsto> (now, ttl))) y"
    using a unfolding appended_def by (cases "y = x"; cases "xs \<noteq> [] \<and> y = last xs") (auto simp: stamp_def reborn_def)
qed

lemma granted_stamp: "granted i sz s t s' r \<Longrightarrow> stamp s' = stamp s"
  using stamp_put unfolding granted_def by (fastforce simp: granted_header_def)

lemma cinv_appended:
  assumes c: "cinv i s ht bs g" and qu: "quiescent g" and j: "j < length bs" "get_bucket_index (tb_ttl (bs ! j)) = j"
    and q: "sg_free_queue s = x # rest" and a: "appended i now (tb_ttl (bs ! j)) s (g_chains g j) x rest s'"
    and ok': "store_ok i s'" and ch': "chain s' b' (g_chains g j @ [x])" "tb_ttl b' = tb_ttl (bs ! j)"
  shows "cinv i s' ht (bs[j := b']) (with_tail j x g)"
proof -
  let ?g = "with_tail j x g" and ?bs = "bs[j := b']"
  note sh = cinv_parts(1) [OF c] and co = chains_okD [OF cinv_parts(4) [OF c]]
  from a obtain h0 hx tag where hx: "header_of s x = Some h0" "header_of s' x = Some hx" "fresh_header i hx" "reborn now h0 hx"
    "hd_ttl hx = tb_ttl (bs ! j)" "holds hx \<lparr>md_next = None, md_prev = at_last (g_chains g j), md_state = Live, md_tag = tag\<rparr>"
    unfolding appended_def by blast
  have sz: "sg_segment_size s' = sg_segment_size s" "sg_data s' = sg_data s" "sg_cap s' = sg_cap s" "sg_spare_count s' = sg_spare_count s"
    "sg_spare_queue s' = sg_spare_queue s" "sg_spare_capacity s' = sg_spare_capacity s" "length (sg_headers s') = length (sg_headers s)"
    using a by (simp_all add: appended_def)
  have sb: "seg_base s' y = seg_base s y" for y by (simp add: byte_offset_def sz)
  have ok0: "head_ok i s bs g x h0" using c hx(1) by (simp add: cinv_def)
  have xq: "x \<in> set (queued s)" using q by (simp add: queued_def)
  note nx = queued_empty(1) [OF c xq hx(1)] and empty = queued_empty(2) [OF c xq hx(1)]
  have lk: "chained ?bs ?g y \<longleftrightarrow> y = x \<or> chained bs g y" for y
    using j(1) by (auto simp: chained_def)
  have "shape i s'"
  proof -
    have "hd_id h = y \<and> seg_check_magic i s' y = Some () \<and> item_start_ok i s' y" if h: "header_of s' y = Some h" for y h
    proof (cases "y = x")
      case True
      then show ?thesis using h hx(1,2,4) shape_header(1-3) [OF sh hx(1)] seg_check_magic_cong [OF sz(2,1)]
        by (simp add: reborn_def item_start_ok_def sb sz)
    next
      case False
      from appended_headers [OF c j(1) a False h] obtain k0 w where "header_of s y = Some k0" "h = k0\<lparr>hd_metadata := w\<rparr>" .
      then show ?thesis using shape_header(1-3) [OF sh] seg_check_magic_cong [OF sz(2,1)]
        by (simp add: item_start_ok_def sb sz)
    qed
    then show ?thesis using sh ok' by (simp add: shape_def sz)
  qed
  moreover have "head_ok i s' ?bs ?g y k" if k: "header_of s' y = Some k" for y k
  proof (cases "y = x")
    case True
    then have [simp]: "k = hx" using k hx(2) by simp
    have "hd_active_writers hx = 0" "hd_active_removers hx = 0"
      using ok0 qu hx(4) by (simp_all add: head_ok_def reborn_def quiescent_def)
    moreover have "counted g x hx = []" by (simp add: counted_def empty)
    moreover have "\<exists>m. holds hx m \<and> md_state m \<in> {Free, Live, Sealed, AwaitingRelease} \<and> (md_state m = AwaitingRelease \<longrightarrow> hd_ref_count hx \<noteq> 0)
        \<and> (is_readable (md_state m) \<longleftrightarrow> chained ?bs ?g x)"
      using hx(6) lk [of x] by (intro exI [of _ "\<lparr>md_next = None, md_prev = at_last (g_chains g j), md_state = Live, md_tag = tag\<rparr>"]) (simp add: is_readable_def)
    moreover have "nat (sint (hd_write_offset hx)) = item_start i" "counts i (sint (initial_offset i)) [] hx"
      using hx(3) by (simp_all add: item_start_eq(1) counts_def fresh_header_def)
    ultimately show ?thesis using qu True lk [of x] empty unfolding head_ok_def by (simp add: quiescent_def)
  next
    case False
    from appended_headers [OF c j(1) a False k] obtain k0 m m' w where k0: "header_of s y = Some k0" "holds k0 m" "holds k m'"
      "is_readable (md_state m') = is_readable (md_state m)" "md_state m' = md_state m \<or> md_state m' = Sealed"
      and w: "k = k0\<lparr>hd_metadata := w\<rparr>" .
    have oky: "head_ok i s bs g y k0" using c k0(1) by (simp add: cinv_def)
    then obtain m0 where "holds k0 m0" "md_state m0 \<in> {Free, Live, Sealed, AwaitingRelease}"
      "md_state m0 = AwaitingRelease \<longrightarrow> hd_ref_count k0 \<noteq> 0" "is_readable (md_state m0) \<longleftrightarrow> chained bs g y" by (auto simp: head_ok_def)
    then have "\<exists>m. holds k m \<and> md_state m \<in> {Free, Live, Sealed, AwaitingRelease} \<and> (md_state m = AwaitingRelease \<longrightarrow> hd_ref_count k \<noteq> 0)
        \<and> (is_readable (md_state m) \<longleftrightarrow> chained ?bs ?g y)"
      using k0 False lk [of y] holds_unique [OF k0(2)] w by (intro exI [of _ m']) auto
    moreover have "counted g y k = counted g y k0" "counts i b cs k = counts i b cs k0" for b cs
      by (simp_all add: w counted_def loc_of_def counts_def)
    ultimately show ?thesis using oky lk [of y] False w unfolding head_ok_def sb sz by simp
  qed
  moreover have "cached (key_in s' (g_items ?g)) ht (g_map ?g)"
  proof (simp, rule cached_cong [OF cinv_parts(3) [OF c]])
    fix k l assume m: "g_map g k = Some l"
    from entry_item [OF c m] obtain y hy pos e where y: "header_of s y = Some hy" "readable_header hy" "l = loc_of y hy pos"
      "(pos, e) \<in> set (g_items g y)" "ce_key e = k" "unpack_location l = (y, pos)" by metis
    have yx: "y \<noteq> x" using y(4) empty by auto
    have "header_of s' y \<noteq> None" using y(1) sz(7) by (simp add: header_of_def split: if_splits)
    then obtain k' where k': "header_of s' y = Some k'" by blast
    from appended_headers [OF c j(1) a yx k'] y(1) obtain m m' w where mm: "holds hy m" "holds k' m'"
      "is_readable (md_state m') = is_readable (md_state m)" "k' = hy\<lparr>hd_metadata := w\<rparr>" by (metis option.inject)
    have "readable_header k'" using mm y(2) by (simp add: readable_header_def holds_state)
    moreover have "hd_generation k' = hd_generation hy" by (simp add: mm(4))
    moreover have "map_of (g_items g y) pos = Some e" using in_bounds(8) [OF c y(1,4)] y(4) by simp
    ultimately show "key_in s' (g_items g) l = Some k" using y k' by (simp add: key_in_def loc_of_def)
  qed
  moreover have "chains_ok s' ?bs ?g"
  proof (rule chains_okI)
    show "length ?bs = length bucket_ttls" using co(7) [OF j(1)] by simp
    have mem: "y \<notin> set (g_chains g l)" if "l < length bs" "y = x" for l y using nx that by (auto simp: chained_def)
    have ttl: "hd_ttl k = tb_ttl (bs ! l)" if l: "l < length bs" "y \<in> set (g_chains g l)" "header_of s' y = Some k" for l y k
    proof -
      have yx: "y \<noteq> x" using mem l by blast
      from appended_headers [OF c j(1) a yx l(3)] obtain k0 w where k0: "header_of s y = Some k0" "k = k0\<lparr>hd_metadata := w\<rparr>" .
      have "hd_ttl k = hd_ttl k0" by (simp add: k0(2))
      then show ?thesis using co(6) [OF l(1,2) k0(1)] by simp
    qed
    fix l assume l: "l < length ?bs"
    show "tb_ttl (?bs ! l) = of_nat (bucket_ttls ! l) \<and> chain s' (?bs ! l) (g_chains ?g l)
        \<and> (g_chains ?g l \<noteq> [] \<longrightarrow> get_bucket_index (tb_ttl (?bs ! l)) = l)
        \<and> (\<forall>y k. y \<in> set (g_chains ?g l) \<longrightarrow> header_of s' y = Some k \<longrightarrow> hd_ttl k = tb_ttl (?bs ! l))"
    proof (cases "l = j")
      case True
      then show ?thesis using j ch' co(1) [OF j(1)] hx(2,5) ttl [OF j(1)] by auto
    next
      case False
      have lb: "l < length bs" using l by simp
      have same: "header_of s' y = header_of s y" if y: "y \<in> set (g_chains g l)" for y
      proof -
        have "y \<noteq> x" using mem [OF lb] y by blast
        moreover have "y \<noteq> last (g_chains g j)" if "g_chains g j \<noteq> []"
          using co(8) [OF lb j(1) _ y] False last_in_set [OF that] by auto
        ultimately show ?thesis using a unfolding appended_def by blast
      qed
      have "chain_from s' None (g_chains g l) = chain_from s None (g_chains g l)" by (rule chain_from_cong) (rule same)
      then have "chain s' (bs ! l) (g_chains g l)" using co(2) [OF lb] by (simp add: chain_def)
      moreover have "?bs ! l = bs ! l" "g_chains ?g l = g_chains g l" using False by simp_all
      ultimately show ?thesis using co(1,5) [OF lb] ttl [OF lb] by metis
    qed
  next
    fix a b assume ab: "a < length ?bs" "b < length ?bs" "a \<noteq> b"
    have "x \<notin> set (g_chains g l)" if "l < length bs" for l using nx that by (auto simp: chained_def)
    then show "set (g_chains ?g a) \<inter> set (g_chains ?g b) = {}"
      using ab cinv_parts(4) [OF c] unfolding chains_ok_def by (auto; blast)
  qed
  ultimately show ?thesis by (simp add: cinv_def)
qed

section \<open>Placing an item\<close>

definition placing :: "u32 \<Rightarrow> nat \<Rightarrow> cell \<Rightarrow> location \<Rightarrow> ghost \<Rightarrow> ghost" where
  "placing t pos d l g = g\<lparr>g_items := (g_items g)(t := g_items g t @ [(pos, d)]), g_extra := {l}, g_writer := Some t\<rparr>"

lemma placing_fields [simp]:
  "g_items (placing t pos d l g) = (g_items g)(t := g_items g t @ [(pos, d)])" "g_map (placing t pos d l g) = g_map g"
  "g_chains (placing t pos d l g) = g_chains g" "g_extra (placing t pos d l g) = {l}" "g_writer (placing t pos d l g) = Some t"
  "g_remover (placing t pos d l g) = g_remover g" "chained bs (placing t pos d l g) y = chained bs g y"
  by (simp_all add: placing_def chained_def)

lemma sizes_filter: "sizes i (filter P cs) \<le> sizes i cs" "8 * length cs \<le> sizes i cs"
proof -
  show "sizes i (filter P cs) \<le> sizes i cs" by (induction cs) auto
  show "8 * length cs \<le> sizes i cs"
  proof (induction cs)
    case (Cons d cs)
    have "8 \<le> csize i (snd d)" using csize_pos [of i "snd d"] by (auto elim!: dvdE)
    then show ?case using Cons by (cases d) simp
  qed simp
qed

lemma i32_inc:
  fixes w :: i32
  assumes "sint w = k" and "0 \<le> k" and "k + int n < 2 ^ 31"
  shows "sint (w + of_nat n) = k + int n"
proof -
  have w: "w + of_nat n = of_int (k + int n)" using i32_eqI [OF assms(1)] by simp
  have j: "sint (of_int j :: i32) = j" if "0 \<le> j" "j < 2 ^ 31" for j
    using that by (simp add: signed_of_int signed_take_bit_int_eq_self)
  show ?thesis unfolding w by (rule j) (use assms(2,3) in linarith)+
qed

lemma shape_grown:
  assumes sh: "shape i s" and h: "header_of s x = Some h" and same: "hd_id h' = hd_id h" "hd_metadata h' = hd_metadata h"
    and w: "0 \<le> sint (hd_write_offset h')" "sint (hd_write_offset h') \<le> sint (sg_segment_size s)"
  shows "shape i (put_header s x h')"
  using sh h same store_ok_put [OF shape_parts(1) [OF sh] h same(2) w] by (auto simp: shape_def header_of_put)

lemma tiled_end: "tiled i m base off cs e \<Longrightarrow> 8 dvd off \<Longrightarrow> 8 dvd e"
proof (induction cs arbitrary: off)
  case (Cons d cs)
  then show ?case using csize_pos(2) [of i "snd d"] by (cases d) (auto simp del: csize_pos)
qed simp

lemma counts_placed:
  assumes c: "counts i base cs h" and b: "0 \<le> base" and r: "base + int (sizes i cs) + int (csize i d) < 2 ^ 31"
  shows "counts i base (cs @ [(pos, d)]) (granted_header (of_nat (csize i d)) h)"
proof -
  have l: "sint (hd_live_items h) = int (length cs)" "sint (hd_live_bytes h) = int (sizes i cs) + base" using c by (simp_all add: counts_def)
  have "int (length cs) + int 1 < 2 ^ 31" using sizes_filter(2) [of cs i] csize_pos(1) [of i d] r b by linarith
  from i32_inc [OF l(1) _ this] have "sint (hd_live_items h + 1) = int (length cs) + 1" by simp
  moreover from i32_inc [OF l(2), of "csize i d"] r b have "sint (hd_live_bytes h + of_nat (csize i d)) = int (sizes i cs) + base + int (csize i d)" by simp
  ultimately show ?thesis by (simp add: counts_def granted_header_def)
qed

text \<open>Where the item goes: at the write offset of its segment, which is a location of its own.\<close>

lemma write_offset_free:
  assumes c: "cinv i s ht bs g" and t: "chained bs g t" and h: "header_of s t = Some h"
    and room: "sint (hd_write_offset h) + int (csize i d) \<le> sint (sg_segment_size s)"
  shows "item_start i \<le> nat (sint (hd_write_offset h))" "nat (sint (hd_write_offset h)) + csize i d \<le> seg_bytes s"
    "unpack_location (loc_of t h (nat (sint (hd_write_offset h)))) = (t, nat (sint (hd_write_offset h)))"
    "(q, e) \<in> set (g_items g t) \<Longrightarrow> q \<noteq> nat (sint (hd_write_offset h))"
proof -
  let ?pos = "nat (sint (hd_write_offset h))"
  have ok: "head_ok i s bs g t h" using c h by (simp add: cinv_def)
  then have ti: "tiled i (sg_data s) (seg_base s t) (item_start i) (g_items g t) ?pos" using t by (simp add: head_ok_def)
  note sh = shape_header [OF cinv_parts(1) [OF c] h]
  show "item_start i \<le> ?pos" by (rule tiled_le [OF ti])
  show b: "?pos + csize i d \<le> seg_bytes s" using room sh(8) by linarith
  have d: "8 dvd ?pos" by (rule tiled_end [OF ti item_start_eq(2)])
  have mx: "?pos < MAX_SEGMENT_BYTES" using b csize_pos(1) [of i d] shape_parts(4) [OF cinv_parts(1) [OF c]] by linarith
  then have "unat (of_nat ?pos :: u64) = ?pos" by (simp add: unat_of_nat MAX_SEGMENT_BYTES_eq)
  then show "unpack_location (loc_of t h ?pos) = (t, ?pos)" using mx d by (simp add: loc_of_def unpack_pack_location)
  show "q \<noteq> ?pos" if "(q, e) \<in> set (g_items g t)"
    using tiled_mem [OF ti that] csize_pos(1) [of i e] by linarith
qed

lemma cinv_placed:
  assumes c: "cinv i s ht bs g" and qu: "quiescent g" and t: "chained bs g t" and h: "header_of s t = Some h"
    and room: "sint (hd_write_offset h) + int (csize i d) \<le> sint (sg_segment_size s)"
    and pos: "pos = nat (sint (hd_write_offset h))"
    and w: "changed_in (seg_base s t + pos) (csize i d) (sg_data s) m'" "cell_at i m' (seg_base s t + pos) d"
    and wo: "sint (hd_write_offset (granted_header (of_nat (csize i d)) h)) = sint (hd_write_offset h) + int (csize i d)"
  shows "cinv i ((put_header (s\<lparr>sg_data := m'\<rparr>) t (granted_header (of_nat (csize i d)) h))\<lparr>sg_gauges := q\<rparr>) ht bs (placing t pos d (loc_of t h pos) g)"
proof -
  let ?h = "granted_header (of_nat (csize i d)) h" and ?g = "placing t pos d (loc_of t h pos) g" and ?s1 = "s\<lparr>sg_data := m'\<rparr>"
  let ?s = "put_header ?s1 t ?h"
  note sh = cinv_parts(1) [OF c] and wf = write_offset_free [OF c t h room, folded pos]
  note hb = shape_header [OF sh h]
  have sw: "seg_write i s t pos (csize i d) m'" using w(1) wf(1,2) h by (simp add: seg_write_def)
  have ok: "head_ok i s bs g t h" using c h by (simp add: cinv_def)
  then have ti: "tiled i (sg_data s) (seg_base s t) (item_start i) (g_items g t) pos"
    and cn: "counts i (sint (initial_offset i)) (counted g t h) h" using t pos by (simp_all add: head_ok_def)
  have e: "nat (sint (hd_write_offset h) + int (csize i d)) = pos + csize i d" using pos hb(8) by (simp add: nat_add_distrib)
  have "tiled i m' (seg_base s t) (item_start i) (g_items g t) pos" by (rule tiled_frame [OF ti w(1)]) simp
  then have ti': "tiled i m' (seg_base s t) (item_start i) (g_items g t @ [(pos, d)]) (pos + csize i d)"
    using w(2) by (auto simp: tiled_append)
  have "item_start_ok i ?s1 t"
  proof -
    obtain q b cs where i: "g_items g t @ [(pos, d)] = (q, b) # cs" by (cases "g_items g t @ [(pos, d)]") auto
    then have "q = item_start i" "cell_at i m' (seg_base s t + item_start i) b" "item_start i + csize i b \<le> pos + csize i d"
      using ti' tiled_le by fastforce+
    then show ?thesis using wf(2) unfolding item_start_ok_def by (auto simp: Let_def)
  qed
  note sh1 = shape_write [OF sh sw this]
  have h1: "header_of ?s1 t = Some h" using h by simp
  have ht0: "header_of ?s1 t \<noteq> None" using h by simp
  have f: "hd_metadata ?h = hd_metadata h" "hd_id ?h = hd_id h" "hd_generation ?h = hd_generation h" "hd_ttl ?h = hd_ttl h"
    "hd_ref_count ?h = hd_ref_count h" "hd_active_writers ?h = hd_active_writers h + 1" "hd_active_removers ?h = hd_active_removers h"
    by (simp_all add: granted_header_def)
  have sh2: "shape i ?s" by (rule shape_grown [OF sh1 h1]) (use f wo room hb(8) in simp_all)
  have head: "head_ok i ?s bs ?g y k" if k: "header_of ?s y = Some k" for y k
  proof (cases "y = t")
    case True
    then have [simp]: "k = ?h" using k header_of_put [OF ht0, of ?h t] by simp
    have "counted ?g t ?h = counted g t h @ [(pos, d)]"
    proof -
      have "loc_of t h q \<noteq> loc_of t h pos" if qe: "(q, b) \<in> set (g_items g t)" for q b
      proof
        assume eq: "loc_of t h q = loc_of t h pos"
        have "(t, q) = (t, pos)" using in_bounds(9) [OF c h qe] wf(3) unfolding eq by simp
        then show False using wf(4) [OF qe] by simp
      qed
      then have "filter (\<lambda>(p, b). g_map g (ce_key b) = Some (loc_of t h p) \<or> loc_of t h p \<in> {loc_of t h pos}) (g_items g t) = counted g t h"
        unfolding counted_def using qu by (intro filter_cong) (auto simp: quiescent_def)
      then show ?thesis by (simp add: counted_def loc_of_def f)
    qed
    moreover have "counts i (sint (initial_offset i)) (counted g t h @ [(pos, d)]) ?h"
    proof (rule counts_placed [OF cn])
      have "sizes i (counted g t h) \<le> sizes i (g_items g t)" unfolding counted_def by (rule sizes_filter)
      moreover have "pos = item_start i + sizes i (g_items g t)" using tiled_sizes [OF ti] .
      moreover have "sint (initial_offset i) = int (item_start i)" by (simp add: item_start_eq(1) initial_offset_def)
      ultimately show "sint (initial_offset i) + int (sizes i (counted g t h)) + int (csize i d) < 2 ^ 31"
        using wf(2) sint_lt [of "sg_segment_size s"] by simp
    qed (simp add: initial_offset_def)
    moreover have "\<exists>m. holds ?h m \<and> md_state m \<in> {Free, Live, Sealed, AwaitingRelease} \<and> (md_state m = AwaitingRelease \<longrightarrow> hd_ref_count ?h \<noteq> 0)
        \<and> (is_readable (md_state m) \<longleftrightarrow> chained bs ?g t)"
      using ok f(1) by (simp add: head_ok_def holds_def f(5))
    moreover have "nat (sint (hd_write_offset ?h)) = pos + csize i d" unfolding wo by (rule e)
    ultimately show ?thesis using ok ti' True t qu f unfolding head_ok_def by (simp add: quiescent_def byte_offset_def)
  next
    case False
    then have k': "header_of s y = Some k" using k header_of_put [OF ht0, of ?h y] by simp
    have oky: "head_ok i s bs g y k" using c k' by (simp add: cinv_def)
    have "loc_of y k q \<noteq> loc_of t h pos" if qe: "(q, b) \<in> set (g_items g y)" for q b
      using in_bounds(9) [OF c k' qe] wf(3) False by auto
    then have "counted ?g y k = counted g y k"
      using qu False unfolding counted_def by (auto simp: quiescent_def intro!: filter_cong)
    moreover have "nat (sint (hd_write_offset k)) \<le> seg_bytes s" using shape_header(9) [OF sh k'] by linarith
    ultimately show ?thesis using oky seg_write_other(1) [OF sw _ False] k' False qu unfolding head_ok_def
      by (auto simp: quiescent_def byte_offset_def)
  qed
  have keys: "cached (key_in ?s (g_items ?g)) ht (g_map ?g)"
  proof (simp only: placing_fields, rule cached_cong [OF cinv_parts(3) [OF c]])
    fix k l assume m: "g_map g k = Some l"
    from entry_item [OF c m] obtain y hy p b where y: "header_of s y = Some hy" "readable_header hy" "l = loc_of y hy p"
      "(p, b) \<in> set (g_items g y)" "ce_key b = k" "unpack_location l = (y, p)" by metis
    have mp: "map_of (g_items g y) p = Some b" using in_bounds(8) [OF c y(1,4)] y(4) by simp
    then have "map_of (((g_items g)(t := g_items g t @ [(pos, d)])) y) p = Some b" by (auto simp: map_add_Some_iff)
    moreover have "\<exists>k'. header_of ?s y = Some k' \<and> readable_header k' \<and> loc_of y k' = loc_of y hy"
      using y(1,2) h header_of_put [OF ht0, of ?h y] f by (auto simp: readable_header_def header_state_def header_metadata_def loc_of_def)
    ultimately show "key_in ?s ((g_items g)(t := g_items g t @ [(pos, d)])) l = Some k" using y by (auto simp: key_in_def)
  qed
  have "chains_ok ?s bs ?g"
  proof -
    have "chains_ok ?s1 bs ?g" using cinv_parts(4) [OF c] chains_ok_cong [of ?g g] by simp
    moreover have "chain ?s1 b xs \<Longrightarrow> chain ?s b xs" for b xs by (rule chain_same_words [OF put_same_word [OF h1 f(1)]])
    ultimately show ?thesis using h1 f(4) unfolding chains_ok_def by (auto simp: header_of_put)
  qed
  then have "cinv i ?s ht bs ?g" using sh2 head keys by (simp add: cinv_def)
  then show ?thesis by simp
qed

lemma content_placed:
  assumes c: "cinv i s ht bs g"
  shows "content (placing t pos d l g) = content g"
proof
  fix k
  show "content (placing t pos d l g) k = content g k"
  proof (cases "g_map g k")
    case (Some l')
    from entry_item [OF c Some] obtain x h p b where b: "header_of s x = Some h" "l' = loc_of x h p" "(p, b) \<in> set (g_items g x)"
      "unpack_location l' = (x, p)" by metis
    have "map_of (g_items g x) p = Some b" using in_bounds(8) [OF c b(1,3)] b(3) by simp
    then have "item_of (placing t pos d l g) l' = item_of g l'" using b(4) by (auto simp: item_of_def map_add_Some_iff)
    then show ?thesis using Some by (simp add: content_def)
  qed (simp add: content_def)
qed

text \<open>A granted reservation, with the item written into it.\<close>

lemma place_eval:
  assumes c: "cinv i s ht bs g" and qu: "quiescent g" and t: "chained bs g t" and gr: "granted i (csize i d) s t s' r"
    and rep: "raw_representable (ce_key d) (ce_value d) (ce_opt d)" and lv: "\<exists>k. header_of s t = Some k \<and> header_state k = Some Live"
  obtains m' h where "raw_define i crc (sg_data s') (reserved_addr s' r) (ce_key d) (ce_value d) (ce_opt d) = Some m'"
    "cinv i (s'\<lparr>sg_data := m'\<rparr>) ht bs (placing t (ri_offset r) d (reserved_location r) g)" "ri_seg r = t"
    "header_of s' t = Some h" "reserved_location r = loc_of t h (ri_offset r)" "\<forall>k. g_map g k \<noteq> Some (reserved_location r)"
    "length (sg_headers s') = length (sg_headers s)" "sg_segment_size s' = sg_segment_size s"
    "header_state h = Some Live"
proof -
  from gr obtain h where h: "header_of s t = Some h" and s': "header_of s' t = Some (granted_header (of_nat (csize i d)) h)"
    "s' = (put_header s t (granted_header (of_nat (csize i d)) h))\<lparr>sg_gauges := granted_gauges (of_nat (csize i d)) (sg_gauges s)\<rparr>"
    "sint (hd_write_offset (granted_header (of_nat (csize i d)) h)) = sint (hd_write_offset h) + int (csize i d)"
    "r = \<lparr>ri_seg = t, ri_generation = hd_generation h, ri_offset = nat (sint (hd_write_offset h))\<rparr>" and ok': "store_ok i s'"
    and size: "sg_segment_size s' = sg_segment_size s"
    by (auto simp: granted_def)
  let ?pos = "nat (sint (hd_write_offset h))" and ?h = "granted_header (of_nat (csize i d)) h"
  have room: "sint (hd_write_offset h) + int (csize i d) \<le> sint (sg_segment_size s)"
    using store_header [OF ok' s'(1)] s'(3) size by (simp add: header_good_def)
  note wf = write_offset_free [OF c t h room] and sh = cinv_parts(1) [OF c]
  have l: "reserved_location r = loc_of t h ?pos" "loc_of t ?h = loc_of t h" by (simp_all add: s'(4) reserved_location_def loc_of_def granted_header_def fun_eq_iff)
  have data: "sg_data s' = sg_data s" unfolding s'(2) by simp
  have addr: "reserved_addr s' r = seg_base s t + ?pos" by (simp add: reserved_addr_def s'(4) byte_offset_def size)
  have "unat t - 1 < length (sg_headers s)" using h by (simp add: header_of_def split: if_splits)
  then have "(unat t - 1 + 1) * seg_bytes s \<le> length (sg_headers s) * seg_bytes s" by (intro mult_le_mono1) simp
  then have "seg_base s t + ?pos + csize i d \<le> length (sg_data s)"
    using wf(2) shape_parts(2) [OF sh] by (simp add: byte_offset_def algebra_simps)
  then have fits: "seg_base s t + ?pos + item_size i (length (ce_key d)) (ce_value d) (length (ce_opt d)) \<le> length (sg_data s)"
    by (simp add: csize_def)
  have dd: "\<lparr>ce_key = ce_key d, ce_value = ce_value d, ce_opt = ce_opt d\<rparr> = d" by simp
  obtain m' where m': "raw_define i crc (sg_data s) (seg_base s t + ?pos) (ce_key d) (ce_value d) (ce_opt d) = Some m'"
    "cell_at i m' (seg_base s t + ?pos) d" "changed_in (seg_base s t + ?pos) (csize i d) (sg_data s) m'"
    by (rule define_cell [OF rep fits, of crc, unfolded dd, folded csize_def])
  have "s'\<lparr>sg_data := m'\<rparr> = (put_header (s\<lparr>sg_data := m'\<rparr>) t ?h)\<lparr>sg_gauges := granted_gauges (of_nat (csize i d)) (sg_gauges s)\<rparr>"
    unfolding s'(2) by (simp add: put_header_def)
  then have c': "cinv i (s'\<lparr>sg_data := m'\<rparr>) ht bs (placing t ?pos d (loc_of t h ?pos) g)"
    using cinv_placed [OF c qu t h room refl m'(3,2) s'(3)] by simp
  have o: "ri_offset r = ?pos" by (simp add: s'(4))
  show thesis
  proof (rule that)
    show "raw_define i crc (sg_data s') (reserved_addr s' r) (ce_key d) (ce_value d) (ce_opt d) = Some m'" unfolding data addr by (rule m'(1))
    show "cinv i (s'\<lparr>sg_data := m'\<rparr>) ht bs (placing t (ri_offset r) d (reserved_location r) g)" unfolding l(1) o by (rule c')
    show "ri_seg r = t" by (simp add: s'(4))
    show "header_of s' t = Some ?h" by (rule s'(1))
    show "reserved_location r = loc_of t ?h (ri_offset r)" unfolding l o ..
    show "length (sg_headers s') = length (sg_headers s)" unfolding s'(2) by simp
    show "sg_segment_size s' = sg_segment_size s" by (rule size)
    show "header_state ?h = Some Live" using lv h by (simp add: header_state_def header_metadata_def granted_header_def)
    show "\<forall>k. g_map g k \<noteq> Some (reserved_location r)"
    proof (intro allI notI)
      fix k assume k: "g_map g k = Some (reserved_location r)"
      from entry_item [OF c k] obtain x hx p b where "(p, b) \<in> set (g_items g x)" "unpack_location (reserved_location r) = (x, p)" by metis
      then show False using wf(3,4) l(1) by auto
    qed
  qed
qed

section \<open>A round of the reservation\<close>

text \<open>The item goes into the open tail, or into a segment linked now, which held nothing.\<close>

definition stamped_for :: "env \<Rightarrow> u32 \<Rightarrow> u32 \<Rightarrow> content \<Rightarrow> segments \<Rightarrow> segments \<Rightarrow> bool" where
  "stamped_for e ttl x A s s' \<longleftrightarrow> stamp s' = stamp s
     \<or> stamp s' = (stamp s)(x \<mapsto> (e_now e, of_nat (bucket_ttls ! get_bucket_index ttl))) \<and> (\<forall>k d. A k \<noteq> Some (x, d))"

text \<open>The cache with an item reserved and written, not yet published; its writer pin is held.\<close>

definition holding :: "env \<Rightarrow> segcache \<Rightarrow> ghost \<Rightarrow> cell \<Rightarrow> u32 \<Rightarrow> reserved_item \<Rightarrow> segcache \<Rightarrow> ghost \<Rightarrow> bool" where
  "holding e c g d ttl r c' g' \<longleftrightarrow> cache_inv e c' g' \<and> g_writer g' = Some (ri_seg r) \<and> g_remover g' = None
     \<and> g_extra g' = {reserved_location r} \<and> (\<forall>k. g_map g' k \<noteq> Some (reserved_location r)) \<and> content g' = content g
     \<and> (\<exists>h. header_of (sc_segments c') (ri_seg r) = Some h \<and> reserved_location r = loc_of (ri_seg r) h (ri_offset r)
          \<and> hd_ttl h = of_nat (bucket_ttls ! get_bucket_index ttl) \<and> header_state h = Some Live)
     \<and> (ri_offset r, d) \<in> set (g_items g' (ri_seg r)) \<and> stamped_for e ttl (ri_seg r) (content g) (sc_segments c) (sc_segments c')
     \<and> sc_evict c' = sc_evict c \<and> length (sg_headers (sc_segments c')) = length (sg_headers (sc_segments c)) \<and> same_config c c'"

definition room_for :: "segcache \<Rightarrow> ghost \<Rightarrow> u32 \<Rightarrow> nat \<Rightarrow> bool" where
  "room_for c g ttl sz \<longleftrightarrow> sg_free_queue (sc_segments c) \<noteq> [] \<or> tail_room (sc_segments c) (g_chains g (get_bucket_index ttl)) sz"

lemma reserve_step_places:
  assumes ci: "cache_inv e c g" and qu: "quiescent g" and rep: "raw_representable (ce_key d) (ce_value d) (ce_opt d)"
    and fit: "sint (initial_offset (e_integrity e)) + int (csize (e_integrity e) d) \<le> sint (sg_segment_size (sc_segments c))"
    and room: "room_for c g ttl (csize (e_integrity e) d)"
  obtains r c' g' where "reserve_step e (ce_key d) (ce_value d) (ce_opt d) ttl (csize (e_integrity e) d) Main (n, c) = Some (Inl (Inr r, c'))"
    "holding e c g d ttl r c' g'"
proof -
  let ?i = "e_integrity e" and ?s = "sc_segments c" and ?bs = "tt_buckets (sc_ttl_buckets c)" and ?j = "get_bucket_index ttl"
    and ?sz = "csize (e_integrity e) d" and ?b = "tt_buckets (sc_ttl_buckets c) ! get_bucket_index ttl"
  have c: "cinv ?i ?s (sc_hashtable c) ?bs g" using ci by (simp add: cache_inv_def)
  have j: "?j < length ?bs" "bucket_at (sc_ttl_buckets c) ?j = Some ?b"
    using bucket_at_index [of "sc_ttl_buckets c" ttl] cinv_parts(4) [OF c] by (auto simp: chains_ok_def bucket_at_def split: if_splits)
  note co = chains_okD [OF cinv_parts(4) [OF c] j(1)]
  have idem: "get_bucket_index (tb_ttl ?b) = ?j" unfolding co(1) by (rule get_bucket_index_idem)
  have sz0: "0 < ?sz" using csize_pos(1) [of ?i d] by linarith
  note ev = bucket_reserve_eval [OF cinv_parts(2) [OF c] co(2) sz0 fit, of "e_now e"]
  have step: "reserve_step e (ce_key d) (ce_value d) (ce_opt d) ttl ?sz Main (n, c) = Some (Inl (Inr r,
      c\<lparr>sc_segments := s'\<lparr>sg_data := m\<rparr>, sc_ttl_buckets := put_bucket (sc_ttl_buckets c) ?j b'\<rparr>))"
    if "bucket_reserve ?i (e_now e) ?sz (?s, ?b) = Some (Inr r, s', b')"
      "raw_define ?i (e_crc e) (sg_data s') (reserved_addr s' r) (ce_key d) (ce_value d) (ce_opt d) = Some m" for r s' b' m
    using that j(2) by (simp add: reserve_step_def Let_def label_pool_def put_segments_def)
  show thesis
  proof (cases "tail_room ?s (g_chains g ?j) ?sz")
    case True
    then obtain s' r where br: "bucket_reserve ?i (e_now e) ?sz (?s, ?b) = Some (Inr r, s', ?b)"
      and gr: "granted ?i ?sz ?s (last (g_chains g ?j)) s' r" using ev by auto
    have ne: "last (g_chains g ?j) \<in> set (g_chains g ?j)" using True by (simp add: tail_room_def)
    then have t: "chained ?bs g (last (g_chains g ?j))" using j(1) by (auto simp: chained_def)
    have lv: "\<exists>k. header_of ?s (last (g_chains g ?j)) = Some k \<and> header_state k = Some Live"
    proof -
      have "g_chains g ?j = butlast (g_chains g ?j) @ [last (g_chains g ?j)]" using True by (simp add: tail_room_def)
      then have "chain ?s ?b (butlast (g_chains g ?j) @ [last (g_chains g ?j)])" using co(2) by metis
      from chain_tail_header [OF cinv_parts(2) [OF c] this] show ?thesis by (metis holds_state)
    qed
    from place_eval [OF c qu t gr rep lv, of "e_crc e"] obtain m' h where
      m': "raw_define ?i (e_crc e) (sg_data s') (reserved_addr s' r) (ce_key d) (ce_value d) (ce_opt d) = Some m'"
      "cinv ?i (s'\<lparr>sg_data := m'\<rparr>) (sc_hashtable c) ?bs (placing (last (g_chains g ?j)) (ri_offset r) d (reserved_location r) g)"
      "ri_seg r = last (g_chains g ?j)" "header_of s' (last (g_chains g ?j)) = Some h"
      "reserved_location r = loc_of (last (g_chains g ?j)) h (ri_offset r)" "\<forall>k. g_map g k \<noteq> Some (reserved_location r)"
      "length (sg_headers s') = length (sg_headers ?s)" "sg_segment_size s' = sg_segment_size ?s" "header_state h = Some Live" .
    have "chains_ok (s'\<lparr>sg_data := m'\<rparr>) ?bs (placing (last (g_chains g ?j)) (ri_offset r) d (reserved_location r) g)"
      by (rule cinv_parts(4) [OF m'(2)])
    from chains_okD(6,1) [OF this j(1)] ne m'(4) have ttl: "hd_ttl h = of_nat (bucket_ttls ! ?j)" by simp
    have pb: "put_bucket (sc_ttl_buckets c) ?j ?b = sc_ttl_buckets c" by (simp add: put_bucket_def)
    have st: "stamped_for e ttl (ri_seg r) (content g) ?s (s'\<lparr>sg_data := m'\<rparr>)" using granted_stamp [OF gr] by (simp add: stamped_for_def)
    show thesis
      by (rule that [OF step [OF br m'(1)], of "placing (last (g_chains g ?j)) (ri_offset r) d (reserved_location r) g"])
         (use m' ttl qu content_placed [OF c] st in \<open>simp add: holding_def cache_inv_def pb quiescent_def same_config_def\<close>)
  next
    case False
    then obtain x rest where q: "sg_free_queue ?s = x # rest" using room by (auto simp: room_for_def neq_Nil_conv)
    with ev False obtain s1 s' b' r where br: "bucket_reserve ?i (e_now e) ?sz (?s, ?b) = Some (Inr r, s', b')"
      and ap: "appended ?i (e_now e) (tb_ttl ?b) ?s (g_chains g ?j) x rest s1" and gr: "granted ?i ?sz s1 x s' r"
      and ch': "chain s' b' (g_chains g ?j @ [x])" "tb_ttl b' = tb_ttl ?b" by auto
    have live: "last (g_chains g ?j) \<notin> set (queued ?s)" if "g_chains g ?j \<noteq> []"
      using chain_from_not_queued [OF cinv_parts(2) [OF c] co(4)] last_in_set [OF that] by blast
    have ok1: "store_ok ?i s1" by (rule appended_store_ok [OF cinv_parts(2) [OF c] q ap live])
    from gr obtain hx where hx: "header_of s1 x = Some hx" "s' = (put_header s1 x (granted_header (of_nat ?sz) hx))\<lparr>sg_gauges := granted_gauges (of_nat ?sz) (sg_gauges s1)\<rparr>"
      by (auto simp: granted_def)
    have "map_option hd_metadata (header_of s1 y) = map_option hd_metadata (header_of s' y)" for y
      using put_same_word [OF hx(1), of "granted_header (of_nat ?sz) hx" y] unfolding hx(2) by (simp add: granted_header_def)
    from chain_same_words [OF this ch'(1)] have ch1: "chain s1 b' (g_chains g ?j @ [x])" .
    note c1 = cinv_appended [OF c qu j(1) idem q ap ok1 ch1 ch'(2)]
    let ?bs1 = "?bs[?j := b']" and ?g1 = "with_tail ?j x g"
    have t: "chained ?bs1 ?g1 x" using j(1) by (auto simp: chained_def)
    have qu1: "quiescent ?g1" using qu by simp
    have lv: "\<exists>k. header_of s1 x = Some k \<and> header_state k = Some Live"
      using ap unfolding appended_def by (metis holds_state metadata.select_convs(3))
    from place_eval [OF c1 qu1 t gr rep lv, of "e_crc e"] obtain m' h where
      m': "raw_define ?i (e_crc e) (sg_data s') (reserved_addr s' r) (ce_key d) (ce_value d) (ce_opt d) = Some m'"
      "cinv ?i (s'\<lparr>sg_data := m'\<rparr>) (sc_hashtable c) ?bs1 (placing x (ri_offset r) d (reserved_location r) ?g1)"
      "ri_seg r = x" "header_of s' x = Some h"
      "reserved_location r = loc_of x h (ri_offset r)" "\<forall>k. g_map ?g1 k \<noteq> Some (reserved_location r)"
      "length (sg_headers s') = length (sg_headers s1)" "sg_segment_size s' = sg_segment_size s1" "header_state h = Some Live" .
    have len: "length (sg_headers s1) = length (sg_headers ?s)" "sg_segment_size s1 = sg_segment_size ?s" using ap by (simp_all add: appended_def)
    have j1: "?j < length ?bs1" using j(1) by simp
    have "chains_ok (s'\<lparr>sg_data := m'\<rparr>) ?bs1 (placing x (ri_offset r) d (reserved_location r) ?g1)" by (rule cinv_parts(4) [OF m'(2)])
    from chains_okD(6) [OF this j1, of x h] chains_okD(1) [OF this j1] m'(4) have ttl: "hd_ttl h = of_nat (bucket_ttls ! ?j)" by simp
    have pb: "tt_buckets (put_bucket (sc_ttl_buckets c) ?j b') = ?bs1" by (simp add: put_bucket_def)
    have "x \<in> set (queued ?s)" "header_of ?s x \<noteq> None" using q ap by (auto simp: queued_def appended_def)
    then have "\<forall>k d. content g k \<noteq> Some (x, d)" using queued_empty(3) [OF c] by blast
    then have st: "stamped_for e ttl (ri_seg r) (content g) ?s (s'\<lparr>sg_data := m'\<rparr>)"
      using granted_stamp [OF gr] appended_stamp [OF ap] co(1) m'(3) by (simp add: stamped_for_def)
    show thesis
      by (rule that [OF step [OF br m'(1)], of "placing x (ri_offset r) d (reserved_location r) ?g1"])
         (use m' ttl qu len content_placed [OF c1] st in \<open>simp add: holding_def cache_inv_def pb quiescent_def same_config_def\<close>)
  qed
qed

section \<open>The rounds of the reservation\<close>

lemma evicted_refl: "cache_inv e c g \<Longrightarrow> quiescent g \<Longrightarrow> evict_ok (sc_segments c) (sc_evict c) \<Longrightarrow> evicted e {} c g c g"
  by (simp add: evicted_def)

lemma reserve_step_evicts:
  assumes ci: "cache_inv e c g" and qu: "quiescent g" and ok: "evict_ok (sc_segments c) (sc_evict c)"
    and fit: "sint (initial_offset (e_integrity e)) + int (csize (e_integrity e) d) \<le> sint (sg_segment_size (sc_segments c))"
    and room: "\<not> room_for c g ttl (csize (e_integrity e) d)"
  obtains c' g' D where "evicted e D c g c' g'" "mostly_due e (sc_segments c) 1 D"
    "reserve_step e (ce_key d) (ce_value d) (ce_opt d) ttl (csize (e_integrity e) d) Main (n, c) =
       Some (if sg_freed (sc_segments c') \<noteq> sg_freed (sc_segments c) then Inr (n, c')
         else if n - 1 = 0 then Inl (Inl SegNoFreeSegments, c') else Inr (n - 1, c'))"
proof -
  let ?i = "e_integrity e" and ?s = "sc_segments c" and ?bs = "tt_buckets (sc_ttl_buckets c)" and ?j = "get_bucket_index ttl"
    and ?sz = "csize (e_integrity e) d" and ?b = "tt_buckets (sc_ttl_buckets c) ! get_bucket_index ttl"
  have c: "cinv ?i ?s (sc_hashtable c) ?bs g" using ci by (simp add: cache_inv_def)
  have j: "?j < length ?bs" "bucket_at (sc_ttl_buckets c) ?j = Some ?b"
    using bucket_at_index [of "sc_ttl_buckets c" ttl] cinv_parts(4) [OF c] by (auto simp: chains_ok_def bucket_at_def split: if_splits)
  note co = chains_okD [OF cinv_parts(4) [OF c] j(1)]
  have sz0: "0 < ?sz" using csize_pos(1) [of ?i d] by linarith
  have br: "bucket_reserve ?i (e_now e) ?sz (?s, ?b) = Some (Inl NoFreeSegments, ?s, ?b)"
    using bucket_reserve_eval [OF cinv_parts(2) [OF c] co(2) sz0 fit, of "e_now e"] room by (simp add: room_for_def)
  have pb: "put_bucket (sc_ttl_buckets c) ?j ?b = sc_ttl_buckets c" by (simp add: put_bucket_def)
  from evict_eval [OF ci qu ok] obtain r c' g' D where ev: "evict e c = Some (r, c')" "evicted e D c g c' g'" "mostly_due e ?s 1 D" .
  have "reserve_step e (ce_key d) (ce_value d) (ce_opt d) ttl ?sz Main (n, c) =
       Some (if sg_freed (sc_segments c') \<noteq> sg_freed ?s then Inr (n, c')
         else if n - 1 = 0 then Inl (Inl SegNoFreeSegments, c') else Inr (n - 1, c'))"
    by (simp add: reserve_step_def Let_def j(2) br pb ev(1))
  from that [OF ev(2,3) this] show thesis .
qed

lemma reserve_rounds:
  assumes ci: "cache_inv e c g" and qu: "quiescent g" and ok: "evict_ok (sc_segments c) (sc_evict c)"
    and rep: "raw_representable (ce_key d) (ce_value d) (ce_opt d)"
    and fit: "sint (initial_offset (e_integrity e)) + int (csize (e_integrity e) d) \<le> sint (sg_segment_size (sc_segments c))"
    and n: "0 < n"
  shows "\<exists>r c' c1 g1 D. iterate (reserve_step e (ce_key d) (ce_value d) (ce_opt d) ttl (csize (e_integrity e) d) Main) (n, c) = Some (r, c')
    \<and> evicted e D c g c1 g1 \<and> mostly_due e (sc_segments c) n D \<and> (case r of Inr ri \<Rightarrow> \<exists>g'. holding e c1 g1 d ttl ri c' g' | Inl err \<Rightarrow> err = SegNoFreeSegments \<and> c' = c1)
    \<and> (room_for c g ttl (csize (e_integrity e) d) \<longrightarrow> D = {} \<and> (\<exists>ri. r = Inr ri))"
  using ci qu ok fit n
proof (induction n arbitrary: c g rule: less_induct)
  case (less n)
  let ?sz = "csize (e_integrity e) d" and ?step = "reserve_step e (ce_key d) (ce_value d) (ce_opt d) ttl (csize (e_integrity e) d) Main"
  have it: "iterate ?step s = (case ?step s of None \<Rightarrow> None | Some (Inl x) \<Rightarrow> Some x | Some (Inr s') \<Rightarrow> iterate ?step s')" for s
    by (rule iterate_unfold)
  have placed: "\<exists>r c'. iterate ?step (m, c1) = Some (Inr r, c') \<and> (\<exists>g'. holding e c1 g1 d ttl r c' g')"
    if "cache_inv e c1 g1" "quiescent g1" "sg_segment_size (sc_segments c1) = sg_segment_size (sc_segments c)" "room_for c1 g1 ttl ?sz" for c1 g1 m
  proof -
    have "sint (initial_offset (e_integrity e)) + int ?sz \<le> sint (sg_segment_size (sc_segments c1))" using that(3) less.prems(4) by simp
    from reserve_step_places [OF that(1,2) rep this that(4), of m] obtain r c' g' where "?step (m, c1) = Some (Inl (Inr r, c'))"
      "holding e c1 g1 d ttl r c' g'" .
    then show ?thesis by (subst it) auto
  qed
  show ?case
  proof (cases "room_for c g ttl ?sz")
    case True
    from placed [OF less.prems(1,2) refl True] obtain r c' where "iterate ?step (n, c) = Some (Inr r, c')"
      "\<exists>g'. holding e c g d ttl r c' g'" by blast
    then show ?thesis using evicted_refl [OF less.prems(1-3)] by (intro exI [of _ "Inr r"] exI [of _ c'] exI [of _ c] exI [of _ g] exI [of _ "{}"]) simp
  next
    case False
    from reserve_step_evicts [OF less.prems(1-4) False, of n] obtain c1 g1 D where ev: "evicted e D c g c1 g1"
      and du: "mostly_due e (sc_segments c) 1 D"
      and st: "?step (n, c) = Some (if sg_freed (sc_segments c1) \<noteq> sg_freed (sc_segments c) then Inr (n, c1)
         else if n - 1 = 0 then Inl (Inl SegNoFreeSegments, c1) else Inr (n - 1, c1))" .
    note e1 = ev [unfolded evicted_def drained_by_def]
    have du': "mostly_due e (sc_segments c) n D" using mostly_due_mono [OF du] less.prems(5) by simp
    have size: "sg_segment_size (sc_segments c1) = sg_segment_size (sc_segments c)" using e1 by blast
    consider (freed) "sg_freed (sc_segments c1) \<noteq> sg_freed (sc_segments c)"
      | (last) "sg_freed (sc_segments c1) = sg_freed (sc_segments c)" "n - 1 = 0"
      | (again) "sg_freed (sc_segments c1) = sg_freed (sc_segments c)" "n - 1 \<noteq> 0" by blast
    then show ?thesis
    proof cases
      case freed
      then have "room_for c1 g1 ttl ?sz" using e1 by (auto simp: room_for_def queue_grew_def)
      from placed [OF _ _ size this] e1 obtain r c' where r: "iterate ?step (n, c1) = Some (Inr r, c')"
        "\<exists>g'. holding e c1 g1 d ttl r c' g'" by blast
      have "iterate ?step (n, c) = Some (Inr r, c')" by (subst it) (simp add: st freed r(1))
      then show ?thesis using ev du' r(2) False by (intro exI [of _ "Inr r"] exI [of _ c'] exI [of _ c1] exI [of _ g1] exI [of _ D]) simp
    next
      case last
      have "iterate ?step (n, c) = Some (Inl SegNoFreeSegments, c1)" by (subst it) (use last(2) in \<open>simp add: st last(1)\<close>)
      then show ?thesis using ev du' False by (intro exI [of _ "Inl SegNoFreeSegments"] exI [of _ c1] exI [of _ g1] exI [of _ D]) simp
    next
      case again
      have lt: "n - 1 < n" using again(2) by simp
      have "sint (initial_offset (e_integrity e)) + int ?sz \<le> sint (sg_segment_size (sc_segments c1))" using size less.prems(4) by simp
      from less.IH [OF lt, of c1 g1] this e1 again(2) obtain r c' c2 g2 D2 where r: "iterate ?step (n - 1, c1) = Some (r, c')" "evicted e D2 c1 g1 c2 g2"
        and d2: "mostly_due e (sc_segments c1) (n - 1) D2" and o: "case r of Inr ri \<Rightarrow> \<exists>g'. holding e c2 g2 d ttl ri c' g' | Inl err \<Rightarrow> err = SegNoFreeSegments \<and> c' = c2" by blast
      have "iterate ?step (n, c) = Some (r, c')" by (subst it) (use again(2) r(1) in \<open>simp add: st again(1)\<close>)
      moreover have "mostly_due e (sc_segments c) (1 + (n - 1)) (D \<union> D2)"
        by (rule mostly_due_Un [OF du]) (use d2 mostly_due_stamp e1 in blast)
      then have "mostly_due e (sc_segments c) n (D \<union> D2)" using less.prems(5) by simp
      ultimately show ?thesis using evicted_trans [OF ev r(2)] o False by blast
    qed
  qed
qed

text \<open>
  The reservation of an insert. With the integrity feature the sizes that pass the size check but fit no segment are left
  out: see the exhaustion of a bucket.
\<close>

definition in_gap :: "bool \<Rightarrow> i32 \<Rightarrow> nat \<Rightarrow> bool" where
  "in_gap i w sz \<longleftrightarrow> sz \<le> nat (sint w) \<and> sint w < sint (initial_offset i) + int sz"

lemma reserve_and_define_eval:
  assumes ci: "cache_inv e c g" and qu: "quiescent g" and ok: "evict_ok (sc_segments c) (sc_evict c)"
    and rep: "raw_representable (ce_key d) (ce_value d) (ce_opt d)" and gap: "\<not> in_gap (e_integrity e) (sg_segment_size (sc_segments c)) (csize (e_integrity e) d)"
  obtains r c' c1 g1 D where "reserve_and_define e (ce_key d) (ce_value d) (ce_opt d) ttl c = Some (r, c')" "evicted e D c g c1 g1"
    "case r of Inr ri \<Rightarrow> csize (e_integrity e) d \<le> seg_bytes (sc_segments c) \<and> (\<exists>g'. holding e c1 g1 d ttl ri c' g')
      | Inl err \<Rightarrow> c' = c1 \<and> (if csize (e_integrity e) d \<le> seg_bytes (sc_segments c)
          then err = SegNoFreeSegments \<and> sg_free_queue (sc_segments c) = [] else err = SegItemOversized (csize (e_integrity e) d) \<and> D = {})"
    "sg_free_queue (sc_segments c) \<noteq> [] \<longrightarrow> D = {}" "mostly_due e (sc_segments c) RESERVE_RETRIES D"
proof -
  let ?i = "e_integrity e" and ?s = "sc_segments c" and ?bs = "tt_buckets (sc_ttl_buckets c)" and ?j = "get_bucket_index ttl"
    and ?sz = "csize (e_integrity e) d" and ?b = "tt_buckets (sc_ttl_buckets c) ! get_bucket_index ttl"
  let ?step = "reserve_step e (ce_key d) (ce_value d) (ce_opt d) ttl (csize (e_integrity e) d) Main"
  have pool: "target_pool_for e (ce_key d) (ev_policy (sc_evict c)) c = Some (Main, c)"
    using ok by (cases "ev_policy (sc_evict c)") (simp_all add: evict_ok_def)
  have st: "reserve_and_define e (ce_key d) (ce_value d) (ce_opt d) ttl c = iterate ?step (RESERVE_RETRIES, c)"
    unfolding reserve_and_define_def by (simp add: pool csize_def)
  show thesis
  proof (cases "?sz \<le> seg_bytes ?s")
    case True
    then have "sint (initial_offset ?i) + int ?sz \<le> sint (sg_segment_size ?s)" using gap by (simp add: in_gap_def)
    moreover have "0 < RESERVE_RETRIES" by (simp add: RESERVE_RETRIES_def)
    ultimately obtain r c' c1 g1 D where
      "iterate ?step (RESERVE_RETRIES, c) = Some (r, c')" "evicted e D c g c1 g1" "mostly_due e ?s RESERVE_RETRIES D"
      "case r of Inr ri \<Rightarrow> \<exists>g'. holding e c1 g1 d ttl ri c' g' | Inl err \<Rightarrow> err = SegNoFreeSegments \<and> c' = c1"
      "room_for c g ttl ?sz \<longrightarrow> D = {} \<and> (\<exists>ri. r = Inr ri)" using reserve_rounds [OF ci qu ok rep] by blast
    then show thesis using True st by (intro that [of r c' D c1 g1]) (auto simp: room_for_def split: sum.splits)
  next
    case False
    have c: "cinv ?i ?s (sc_hashtable c) ?bs g" using ci by (simp add: cache_inv_def)
    have j: "bucket_at (sc_ttl_buckets c) ?j = Some ?b"
      using bucket_at_index [of "sc_ttl_buckets c" ttl] cinv_parts(4) [OF c] by (auto simp: chains_ok_def)
    have pb: "put_bucket (sc_ttl_buckets c) ?j ?b = sc_ttl_buckets c" by (simp add: put_bucket_def)
    have "?step (RESERVE_RETRIES, c) = Some (Inl (Inl (SegItemOversized ?sz), c))"
      using False by (simp add: reserve_step_def Let_def j bucket_reserve_def pb)
    then have "iterate ?step (RESERVE_RETRIES, c) = Some (Inl (SegItemOversized ?sz), c)" by (subst iterate.simps) simp
    then show thesis using False st evicted_refl [OF ci qu ok] by (intro that [of "Inl (SegItemOversized ?sz)" c "{}" c g]) simp_all
  qed
qed

end
