(* ===== verification/CacheRemove.thy ===== *)
theory CacheRemove
  imports CacheWrite
begin

unbundle bit_operations_syntax

text \<open>
  Removing items from the composed cache: the remover pin, the removal of an item that is no longer linked, and the
  deletion of a key.
\<close>

section \<open>The remover pin\<close>

definition remover_on :: "u32 \<Rightarrow> ghost \<Rightarrow> ghost" where
  "remover_on x g = g\<lparr>g_remover := Some x\<rparr>"

definition settled :: "ghost \<Rightarrow> ghost" where
  "settled g = g\<lparr>g_extra := {}, g_writer := None, g_remover := None\<rparr>"

lemma settled_fields [simp]: "quiescent (settled g)" "content (settled g) = content g" "g_map (settled g) = g_map g"
  "g_items (settled g) = g_items g" "g_chains (settled g) = g_chains g" "g_extra (settled g) = {}"
  "g_writer (settled g) = None" "g_remover (settled g) = None" "quiescent g \<Longrightarrow> settled g = g"
proof -
  show "content (settled g) = content g" by (rule ext) (simp add: settled_def content_def item_of_def [abs_def])
qed (simp_all add: settled_def quiescent_def)

lemma pin_remover_eval:
  assumes c: "cinv i s ht bs g" and x: "chained bs g x" and r: "g_remover g = None" and h: "header_of s x = Some h"
  shows "try_pin_remover_of s x = Some (True, put_header s x (h\<lparr>hd_active_removers := 1\<rparr>))"
    and "cinv i (put_header s x (h\<lparr>hd_active_removers := 1\<rparr>)) ht bs (remover_on x g)"
proof -
  from chained_header [OF c x] h obtain m where m: "holds h m" "md_state m \<in> {Live, Sealed}" by (metis option.inject)
  have ok: "head_ok i s bs g x h" using c h by (simp add: cinv_def)
  have z: "hd_active_removers h = 0" using ok r by (simp add: head_ok_def)
  let ?h = "h\<lparr>hd_active_removers := 1\<rparr>"
  have "holds ?h m" using m(1) by (simp add: holds_def)
  then show "try_pin_remover_of s x = Some (True, put_header s x ?h)"
    using m h z by (auto simp: try_pin_remover_of_def on_header_eval try_pin_remover_def holds_metadata state_is_removable_def)
  have "cinv i ((put_header s x ?h)\<lparr>sg_gauges := sg_gauges s\<rparr>) ht bs (remover_on x g)"
    by (rule cinv_put [OF c h]) (use ok r x cinv_parts(3) [OF c] in \<open>auto simp: same_life_def head_ok_def counts_def counted_def remover_on_def\<close>)
  then show "cinv i (put_header s x ?h) ht bs (remover_on x g)" by simp
qed

section \<open>Removing an item\<close>

fun merges :: "f64 policy \<Rightarrow> bool" where
  "merges (Merge a b d) = True"
| "merges p = False"

lemma no_compaction: "\<not> merges p \<Longrightarrow> compact_after_remove e x p c = Some c"
  by (cases p) simp_all

lemma counts_middle: "counts i base (as @ c # bs) h \<longleftrightarrow> counts i base (c # as @ bs) h"
  by (cases c) (simp add: counts_def ac_simps)

lemma resolve_item:
  assumes c: "cinv i s ht bs g" and h: "header_of s x = Some h" and p: "(pos, d) \<in> set (g_items g x)"
  shows "resolve s (loc_of x h pos) = Some (Some (x, pos))"
proof -
  note b = in_bounds [OF c h p] and sh = shape_header [OF cinv_parts(1) [OF c] h]
  have "tag_matches_header (loc_of x h pos) h" by (simp add: loc_of_def tag_pack_location tag_matches_header_def)
  then show ?thesis using b(9) sh(4,5) h by (simp add: resolve_def)
qed

lemma put_segments_fields [simp]:
  "sc_segments (put_segments s c) = s" "sc_hashtable (put_segments s c) = sc_hashtable c" "sc_evict (put_segments s c) = sc_evict c"
  "sc_ttl_buckets (put_segments s c) = sc_ttl_buckets c" "put_segments s (put_segments s' c) = put_segments s c"
  by (simp_all add: put_segments_def)

lemma put_hashtable_fields [simp]:
  "sc_segments (put_hashtable ht c) = sc_segments c" "sc_hashtable (put_hashtable ht c) = ht" "sc_evict (put_hashtable ht c) = sc_evict c"
  "sc_ttl_buckets (put_hashtable ht c) = sc_ttl_buckets c"
  by (simp_all add: put_hashtable_def)

text \<open>The cache after an operation that kept its content: a segment that left held nothing.\<close>

definition kept :: "segments \<Rightarrow> segments \<Rightarrow> ghost \<Rightarrow> bool" where
  "kept s s' g' \<longleftrightarrow> (\<exists>D. same_times D s s' \<and> (\<forall>y \<in> D. g_items g' y = [])) \<and> sg_segment_size s' = sg_segment_size s
     \<and> stamp s' = stamp s"

definition same_content :: "env \<Rightarrow> segcache \<Rightarrow> ghost \<Rightarrow> segcache \<Rightarrow> ghost \<Rightarrow> bool" where
  "same_content e c g c' g' \<longleftrightarrow> cache_inv e c' g' \<and> quiescent g' \<and> content g' = content g \<and> sc_evict c' = sc_evict c
     \<and> length (sg_headers (sc_segments c')) = length (sg_headers (sc_segments c)) \<and> kept (sc_segments c) (sc_segments c') g'"

lemma counted_unlinked:
  assumes c: "cinv i s ht bs g" and h: "header_of s x = Some h" and p: "(pos, d) \<in> set (g_items g x)"
    and ex: "g_extra g = {loc_of x h pos}" and un: "g_map g (ce_key d) \<noteq> Some (loc_of x h pos)"
  obtains as bs where "counted g x h = as @ (pos, d) # bs" "counted (settled g) x h = as @ bs"
proof -
  obtain As Bs where sp: "g_items g x = As @ (pos, d) # Bs" using p by (meson split_list)
  let ?P = "\<lambda>(q, e). g_map g (ce_key e) = Some (loc_of x h q)"
  have ne: "loc_of x h q \<noteq> loc_of x h pos" if q: "(q, e) \<in> set As \<union> set Bs" for q e
  proof
    assume eq: "loc_of x h q = loc_of x h pos"
    have "(q, e) \<in> set (g_items g x)" using q sp by auto
    from in_bounds(9) [OF c h this] in_bounds(9) [OF c h p] have "(x, q) = (x, pos)" unfolding eq by (rule trans [OF sym])
    then have "q = pos" by simp
    then show False using in_bounds(8) [OF c h p] q by (force simp: sp)
  qed
  have f: "filter (\<lambda>(q, e). g_map g (ce_key e) = Some (loc_of x h q) \<or> loc_of x h q \<in> g_extra g) cs = filter ?P cs"
    if "set cs \<subseteq> set As \<union> set Bs" for cs
  proof (rule filter_cong [OF refl])
    fix qe assume qe: "qe \<in> set cs"
    obtain q e where q: "qe = (q, e)" by force
    then have "loc_of x h q \<notin> g_extra g" using ne [of q e] qe that ex by auto
    then show "(case qe of (q, e) \<Rightarrow> g_map g (ce_key e) = Some (loc_of x h q) \<or> loc_of x h q \<in> g_extra g) = ?P qe" by (simp add: q)
  qed
  have "counted g x h = filter ?P As @ (pos, d) # filter ?P Bs"
    using f [of As] f [of Bs] ex by (simp add: counted_def sp)
  moreover have "counted (settled g) x h = filter ?P As @ filter ?P Bs" using un by (simp add: counted_def sp)
  ultimately show thesis by (rule that)
qed

lemma remove_at_eval:
  assumes c: "cache_inv e c g" and h: "header_of (sc_segments c) x = Some h" and p: "(pos, d) \<in> set (g_items g x)"
    and ex: "g_extra g = {loc_of x h pos}" and pins: "g_writer g = None" "g_remover g = Some x"
    and un: "g_map g (ce_key d) \<noteq> Some (loc_of x h pos)" and pol: "\<not> merges (ev_policy (sc_evict c))"
  obtains c' g' where "remove_at e (loc_of x h pos) x c = Some (Inr (), c')" "same_content e c g c' g'"
    "header_state h = Some Live \<longrightarrow> sc_hashtable c' = sc_hashtable c"
proof -
  let ?i = "e_integrity e" and ?s = "sc_segments c" and ?bs = "tt_buckets (sc_ttl_buckets c)"
  have ci: "cinv ?i ?s (sc_hashtable c) ?bs g" using c by (simp add: cache_inv_def)
  note b = in_bounds [OF ci h p] and sh = cinv_parts(1) [OF ci]
  have ok: "head_ok ?i ?s ?bs g x h" using ci h by (simp add: cinv_def)
  let ?base = "sint (initial_offset ?i)" and ?sz = "of_nat (csize ?i d) :: i32"
  have cn: "counts ?i ?base (counted g x h) h" using ok b(1) by (simp add: head_ok_def)
  from counted_unlinked [OF ci h p ex un] obtain as bs where sp: "counted g x h = as @ (pos, d) # bs" "counted (settled g) x h = as @ bs" .
  have b0: "0 \<le> ?base" by (simp add: initial_offset_def)
  have "counts ?i ?base ((pos, d) # as @ bs) h" using cn unfolding sp(1) counts_middle .
  note cr = counts_removed [OF this b0]
  let ?h2 = "release_remover (removed_header ?sz h)"
  let ?s2 = "(put_header ?s x ?h2)\<lparr>sg_gauges := removed_gauges ?sz (sg_gauges ?s)\<rparr>"
  have hs: "header_of ?s x \<noteq> None" using h by simp
  have ri: "remove_item_at ?i ?s x pos = Some (removed_store ?s x ?sz h)"
    by (rule remove_item_eval [OF h b(11) b(7) shape_header(2) [OF sh h] cr(2,3)])
  have dr: "drop_remover (removed_store ?s x ?sz h) x = Some ?s2"
    by (simp add: drop_remover_def update_header_def header_of_put [OF hs] put_header_gauges)
  have c2: "cinv ?i ?s2 (sc_hashtable c) ?bs (settled g)"
  proof (rule cinv_put [OF ci h])
    show "same_life h ?h2" by (simp add: same_life_def release_remover_def removed_header_def incr_dead_item_def decr_item_def decr_live_bytes_def decr_live_items_def)
    show "cached (key_in ?s (g_items g)) (sc_hashtable c) (g_map (settled g))" using cinv_parts(3) [OF ci] by simp
    show "counted (settled g) y k = counted g y k" if "y \<noteq> x" "header_of ?s y = Some k" for y k
    proof -
      have "loc_of y k q \<noteq> loc_of x h pos" if q: "(q, e') \<in> set (g_items g y)" for q e'
        using in_bounds(9) [OF ci \<open>header_of ?s y = Some k\<close> q] b(9) \<open>y \<noteq> x\<close> by auto
      then show ?thesis unfolding counted_def using ex by (auto intro!: filter_cong)
    qed
    show "hd_active_writers ?h2 = (if g_writer (settled g) = Some x then 1 else 0)" "hd_active_removers ?h2 = (if g_remover (settled g) = Some x then 1 else 0)"
      using ok pins by (simp_all add: head_ok_def release_remover_def)
    show "counts ?i ?base (counted (settled g) x h) ?h2" using cr(1) unfolding sp(2) by (simp add: counts_def release_remover_def)
  qed (use b(1) pins in simp_all)
  let ?c2 = "put_segments ?s2 c"
  have ci2: "cache_inv e ?c2 (settled g)" using c2 by (simp add: cache_inv_def put_segments_def)
  have h2: "header_of ?s2 x = Some ?h2" by (simp add: header_of_put [OF hs])
  from cinv_can_evict [OF c2 h2] obtain ev where ev: "can_evict ?h2 = Some ev" by metis
  have times: "same_times {} ?s ?s2"
    using h by (auto simp: same_times_def header_of_put [OF hs] release_remover_def)
  have stm: "stamp (put_header ?s x ?h2) = stamp ?s"
    by (rule stamp_put [OF h]) (simp_all add: release_remover_def)
  have un: "(if hd_live_items ?h2 = 0 then can_evict ?h2 else Some False) = Some (hd_live_items ?h2 = 0 \<and> ev)" using ev by simp
  have step: "remove_at e (loc_of x h pos) x c = do {
      if hd_live_items ?h2 = 0 \<and> ev then do {
        locked \<leftarrow> lock_sealed_in_bucket ?c2 x;
        (case locked of None \<Rightarrow> Some (Inr (), ?c2)
         | Some i \<Rightarrow> do { (_, _, c) \<leftarrow> clear_and_fix_head e i x ?c2; Some (Inr (), c) }) }
      else Some (Inr (), ?c2) }"
    unfolding remove_at_def Let_def
    by (simp only: resolve_item [OF ci h p] segment_view_ok [OF sh h] bind.bind_lunit option.case sum.case prod.case ri dr h2 un)
       (simp add: no_compaction pol)
  show thesis
  proof (cases "hd_live_items ?h2 = 0 \<and> ev")
    case False
    have "kept ?s ?s2 (settled g)" unfolding kept_def by (intro conjI exI [of _ "{}"]) (simp_all add: times stm)
    then have "same_content e c g ?c2 (settled g)" using ci2 by (simp add: same_content_def put_segments_def)
    moreover have "sc_hashtable ?c2 = sc_hashtable c" by simp
    ultimately show thesis using that [of ?c2 "settled g"] step unfolding if_not_P [OF False] by blast
  next
    case True
    have hc: "header_of (sc_segments ?c2) x = Some ?h2" using h2 by (simp add: put_segments_def)
    have cev: "can_evict ?h2 = Some True" using ev True by simp
    from cinv_can_evict [OF c2 h2] cev obtain m where m: "holds ?h2 m" "md_state m = Sealed" by (metis option.inject)
    have "hd_metadata ?h2 = hd_metadata h" by (simp add: release_remover_def)
    then have nl: "header_state h \<noteq> Some Live" using holds_state [OF m(1)] m(2) by (auto simp: header_state_def header_metadata_def)
    from clear_and_fix_head_eval [OF ci2 settled_fields(1) hc cev] obtain j n c' where
      r: "lock_sealed_in_bucket ?c2 x = Some (Some j)" "clear_and_fix_head e j x ?c2 = Some (Inr CFreed, n, c')"
      "cache_inv e c' (without_seg x j (settled g))" "drained_by {x} (sc_segments ?c2) (sc_segments c')" "sc_evict c' = sc_evict ?c2" by metis
    have "counts ?i ?base (counted (settled g) x ?h2) ?h2" using c2 h2 b(1) by (auto simp: cinv_def head_ok_def chained_def)
    then have nil: "counted (settled g) x ?h2 = []" using True by (simp add: counts_def)
    have "minus_segs {x} (content (settled g)) = content (settled g)"
    proof
      fix k
      have "y \<noteq> x" if k: "content (settled g) k = Some (y, d')" for y d'
      proof
        assume y: "y = x"
        from content_Some [OF c2 k [unfolded y]] obtain hh q where "header_of ?s2 x = Some hh" "g_map g k = Some (loc_of x hh q)"
          "(q, d') \<in> set (g_items g x)" "ce_key d' = k" by (metis settled_fields(3,4))
        then have "(q, d') \<in> set (counted (settled g) x ?h2)" using h2 by (simp add: counted_def)
        then show False using nil by simp
      qed
      then show "minus_segs {x} (content (settled g)) k = content (settled g) k"
        by (auto simp: minus_segs_def split: option.split)
    qed
    then have "content (without_seg x j (settled g)) = content g" using content_without_seg [OF c2] by simp
    moreover have "kept ?s (sc_segments c') (without_seg x j (settled g))"
    proof -
      have "same_times {x} ?s2 (sc_segments c')" using r(4) by (simp add: drained_by_def)
      then have "same_times {x} ?s (sc_segments c')" using times by (simp add: same_times_def)
      then show ?thesis using r(4) unfolding kept_def by (intro conjI exI [of _ "{x}"]) (simp_all add: drained_by_def stm)
    qed
    ultimately have "same_content e c g c' (without_seg x j (settled g))"
      using r(3-5) by (simp add: same_content_def drained_by_def put_segments_def)
    then show thesis using that step True r(1,2) nl by simp
  qed
qed

section \<open>Changing where a key points\<close>

text \<open>
  The key \<open>k\<close> lets go of its location, for the new one that the operation holds or for none: the old item is counted on,
  until it is removed.
\<close>

lemma cinv_relink:
  assumes c: "cinv i s ht bs g" and k: "g_map g k = Some old" and ca: "cached (key_in s (g_items g)) ht' ((g_map g)(k := v))"
    and ex: "g_extra g = set_option v" and new: "\<And>l. v = Some l \<Longrightarrow> key_in s (g_items g) l = Some k \<and> l \<noteq> old"
  shows "cinv i s ht' bs (g\<lparr>g_map := (g_map g)(k := v), g_extra := {old}\<rparr>)" (is "cinv i s ht' bs ?g")
proof -
  have ko: "key_in s (g_items g) old = Some k" by (rule cached_key [OF cinv_parts(3) [OF c] k])
  have "counted ?g y hy = counted g y hy" if hy: "header_of s y = Some hy" for y hy
  proof -
    have "counted ?g y hy = filter (\<lambda>(pos, c). ((g_map g)(k := v)) (ce_key c) = Some (loc_of y hy pos) \<or> loc_of y hy pos = old) (g_items g y)"
      by (simp add: counted_def)
    also have "\<dots> = counted g y hy"
      unfolding counted_def
  proof (rule filter_cong [OF refl])
    fix qe assume qe: "qe \<in> set (g_items g y)"
    obtain q e where q: "qe = (q, e)" by force
    let ?l = "loc_of y hy q"
    have key: "key_in s (g_items g) ?l = Some (ce_key e)" using key_in_item [OF c hy] qe q by simp
    have "(((g_map g)(k := v)) (ce_key e) = Some ?l \<or> ?l = old) = (g_map g (ce_key e) = Some ?l \<or> ?l \<in> g_extra g)"
    proof (cases "?l = old")
      case True
      then show ?thesis using key ko k by simp
    next
      case False
      then show ?thesis using key k new [of ?l] ex by (cases "ce_key e = k") auto
    qed
    then show "(case qe of (pos, c) \<Rightarrow> ((g_map g)(k := v)) (ce_key c) = Some (loc_of y hy pos) \<or> loc_of y hy pos = old)
      = (case qe of (pos, c) \<Rightarrow> g_map g (ce_key c) = Some (loc_of y hy pos) \<or> loc_of y hy pos \<in> g_extra g)" by (simp only: q prod.case)
  qed
    finally show ?thesis .
  qed
  moreover have "chained bs ?g y = chained bs g y" for y by (simp add: chained_def)
  ultimately have "head_ok i s bs ?g y hy" if "header_of s y = Some hy" for y hy
    using cinv_parts(5) [OF c that] that by (simp add: head_ok_def)
  moreover have "chains_ok s bs ?g" using cinv_parts(4) [OF c] chains_ok_cong [of ?g g] by simp
  ultimately show ?thesis using cinv_parts(1) [OF c] ca by (simp add: cinv_def)
qed

section \<open>Deleting\<close>

lemma content_relink:
  "content (g\<lparr>g_map := (g_map g)(k := v), g_extra := E\<rparr>) = (content g)(k := Option.bind v (item_of g))"
  by (rule ext) (simp add: content_def item_of_def [abs_def])

lemma content_remover: "content (remover_on x g) = content g" "item_of (remover_on x g) = item_of g"
  by (rule ext, simp add: remover_on_def content_def item_of_def [abs_def])+

lemma delete_pinned_eval:
  assumes c: "cache_inv e c (remover_on x g)" and h: "header_of (sc_segments c) x = Some h" and p: "(pos, d) \<in> set (g_items g x)"
    and k: "g_map g (ce_key d) = Some (loc_of x h pos)" and q: "quiescent g" and pol: "\<not> merges (ev_policy (sc_evict c))"
  obtains c' g' where "delete_pinned e (ce_key d) (loc_of x h pos) u c = Some (Inl (True, c'))" "cache_inv e c' g'" "quiescent g'"
    "content g' = (content g)(ce_key d := None)" "sc_evict c' = sc_evict c"
    "length (sg_headers (sc_segments c')) = length (sg_headers (sc_segments c))" "sg_segment_size (sc_segments c') = sg_segment_size (sc_segments c)"
    "stamp (sc_segments c') = stamp (sc_segments c)"
proof -
  let ?i = "e_integrity e" and ?s = "sc_segments c" and ?bs = "tt_buckets (sc_ttl_buckets c)" and ?k = "ce_key d" and ?l = "loc_of x h pos"
  let ?g = "remover_on x g"
  have ci: "cinv ?i ?s (sc_hashtable c) ?bs ?g" using c by (simp add: cache_inv_def)
  have f: "g_map ?g = g_map g" "g_items ?g = g_items g" "g_extra ?g = {}" "g_writer ?g = None" "g_remover ?g = Some x"
    using q by (simp_all add: remover_on_def quiescent_def)
  have p': "(pos, d) \<in> set (g_items ?g x)" using p by (simp add: f)
  note b = in_bounds [OF ci h p']
  have K: "key_in ?s (g_items ?g) ?l = Some ?k" by (rule key_in_item [OF ci h p'])
  obtain ht' where rm: "ht_remove ?k ?l (sc_hashtable c) = (True, ht')" and ca: "cached (key_in ?s (g_items ?g)) ht' ((g_map ?g)(?k := None))"
    using cached_remove [OF cinv_parts(3) [OF ci] K] k by (auto simp: f split: prod.splits bool.splits)
  let ?g3 = "?g\<lparr>g_map := (g_map ?g)(?k := None), g_extra := {?l}\<rparr>"
  have c2: "cinv ?i ?s ht' ?bs ?g3" by (rule cinv_relink [OF ci _ ca]) (use k f in simp_all)
  from set_deleted_cell [OF b(7), of True] obtain m' where
    m': "raw_set_deleted ?i True (sg_data ?s) (seg_base ?s x + pos) = Some m'" "cell_at ?i m' (seg_base ?s x + pos) d"
      "changed_in (seg_base ?s x + pos) (csize ?i d) (sg_data ?s) m'" .
  have p3: "(pos, d) \<in> set (g_items ?g3 x)" using p' by simp
  from cinv_write [OF c2 h p3 m'(3,2) refl refl] have c3: "cinv ?i (?s\<lparr>sg_data := m'\<rparr>) ht' ?bs ?g3"
    using with_cell_same [of ?g3 x pos d] b(8) p3 by simp
  let ?c3 = "put_segments (?s\<lparr>sg_data := m'\<rparr>) (put_hashtable ht' c)"
  have ci3: "cache_inv e ?c3 ?g3" using c3 by (simp add: cache_inv_def)
  have h3: "header_of (sc_segments ?c3) x = Some h" using h by simp
  have pol3: "\<not> merges (ev_policy (sc_evict ?c3))" using pol by simp
  have ex: "g_extra ?g3 = {?l}" "g_writer ?g3 = None" "g_remover ?g3 = Some x" "g_map ?g3 ?k \<noteq> Some ?l" by (simp_all add: f)
  from remove_at_eval [OF ci3 h3 p3 ex pol3] obtain c' g' where
    r: "remove_at e ?l x ?c3 = Some (Inr (), c')" "same_content e ?c3 ?g3 c' g'" .
  have rs: "resolve ?s ?l = Some (Some (x, pos))" by (rule resolve_item [OF ci h p'])
  have bo: "byte_offset ?s x pos = seg_base ?s x + pos" by (simp add: byte_offset_def)
  have "delete_pinned e ?k ?l u c = Some (Inl (True, c'))"
    unfolding delete_pinned_def b(9) prod.case Let_def rm
    by (simp add: rs bo m'(1) r(1))
  moreover have "content ?g3 = (content g)(?k := None)" unfolding content_relink by (simp add: content_remover)
  ultimately show thesis using r(2) unfolding same_content_def kept_def by (intro that [where c' = c' and g' = g']) simp_all
qed

lemma delete_step_eval:
  assumes c: "cache_inv e c g" and q: "quiescent g" and pol: "\<not> merges (ev_policy (sc_evict c))"
  shows "case content g k of
      None \<Rightarrow> delete_step e k (False, c) = Some (Inl (False, c))
    | Some (x, d) \<Rightarrow> \<exists>h. header_of (sc_segments c) x = Some h \<and> (if expired e h then delete_step e k (False, c) = Some (Inl (False, c))
        else \<exists>c' g'. delete_step e k (False, c) = Some (Inl (True, c')) \<and> cache_inv e c' g' \<and> quiescent g'
          \<and> content g' = (content g)(k := None) \<and> sc_evict c' = sc_evict c
          \<and> length (sg_headers (sc_segments c')) = length (sg_headers (sc_segments c)) \<and> sg_segment_size (sc_segments c') = sg_segment_size (sc_segments c)
          \<and> stamp (sc_segments c') = stamp (sc_segments c))"
proof -
  let ?s = "sc_segments c" and ?v = "sc_verifier e (sc_segments c)"
  have ci: "cinv (e_integrity e) ?s (sc_hashtable c) (tt_buckets (sc_ttl_buckets c)) g" using c by (simp add: cache_inv_def)
  note lk = cinv_lookup [OF ci, of k]
  show ?thesis
  proof (cases "content g k")
    case None
    then show ?thesis using lk by (simp add: delete_step_def)
  next
    case (Some xd)
    then obtain x d where xd: "content g k = Some (x, d)" by (cases xd) simp
    from lk xd obtain h pos hit where hit: "lookup_no_freq_update k ?v (sc_hashtable c) = Found hit" "hit_location hit = loc_of x h pos"
      and h: "header_of ?s x = Some h" "(pos, d) \<in> set (g_items g x)" "ce_key d = k" "g_map g k = Some (loc_of x h pos)"
      by (auto simp: found_hit_def)
    note b = in_bounds [OF ci h(1,2)]
    obtain n where ttl: "remaining_ttl e ?s x = Some (if expired e h then Inl NotFound else Inr n)" using remaining_ttl_eval [OF h(1)] by blast
    note x0 = shape_header(4) [OF cinv_parts(1) [OF ci] h(1)]
    have step: "delete_step e k (False, c) = do {
        ttl \<leftarrow> remaining_ttl e ?s x;
        (case ttl of Inl _ \<Rightarrow> Some (Inl (False, c))
         | Inr _ \<Rightarrow> do {
             (pinned, s) \<leftarrow> try_pin_remover_of ?s x;
             if pinned then delete_pinned e k (loc_of x h pos) False (put_segments s c)
             else delete_unpinned e k (loc_of x h pos) False (put_segments s c) }) }"
      using hit x0 by (simp add: delete_step_def b(9) Let_def)
    show ?thesis
    proof (cases "expired e h")
      case True
      then show ?thesis using step ttl xd h(1) by simp
    next
      case False
      let ?h = "h\<lparr>hd_active_removers := 1\<rparr>"
      note pin = pin_remover_eval [OF ci b(1) _ h(1)]
      let ?c1 = "put_segments (put_header ?s x ?h) c"
      have q0: "g_remover g = None" using q by (simp add: quiescent_def)
      have c1: "cache_inv e ?c1 (remover_on x g)" using pin(2) [OF q0] by (simp add: cache_inv_def)
      have h1: "header_of (sc_segments ?c1) x = Some ?h" using h(1) by (simp add: header_of_put)
      have lo: "loc_of x ?h pos = loc_of x h pos" by (simp add: loc_of_def)
      have k1: "g_map g (ce_key d) = Some (loc_of x ?h pos)" using h lo by simp
      have pol1: "\<not> merges (ev_policy (sc_evict ?c1))" using pol by simp
      from delete_pinned_eval [OF c1 h1 h(2) k1 q pol1, of False] obtain c' g' where
        r: "delete_pinned e (ce_key d) (loc_of x ?h pos) False ?c1 = Some (Inl (True, c'))" "cache_inv e c' g'" "quiescent g'"
        "content g' = (content g)(ce_key d := None)" "sc_evict c' = sc_evict ?c1"
        "length (sg_headers (sc_segments c')) = length (sg_headers (sc_segments ?c1))"
        "sg_segment_size (sc_segments c') = sg_segment_size (sc_segments ?c1)" "stamp (sc_segments c') = stamp (sc_segments ?c1)" by metis
      have "stamp (sc_segments c') = stamp ?s" using r(8) stamp_put [OF h(1), of ?h] by simp
      moreover have "delete_step e k (False, c) = Some (Inl (True, c'))"
        using step ttl False pin(1) [OF q0] r(1) h(3) lo by simp
      ultimately show ?thesis using xd h(1,3) False r by auto
    qed
  qed
qed

text \<open>
  Deletion. It returns. A key the cache holds in a segment that is not past its expiry is deleted: the result is true
  and the content loses exactly that key, even when the removal empties a sealed segment and drops it. Any other key
  leaves the cache as it was, with the result false.
\<close>

lemma delete_content:
  assumes "models e c A" and "\<not> merges (ev_policy (sc_evict c))"
  shows "\<exists>r c'. segcache_delete e k c = Some (r, c') \<and> same_config c c' \<and> stamp (sc_segments c') = stamp (sc_segments c) \<and> (case A k of
      None \<Rightarrow> \<not> r \<and> c' = c
    | Some (x, d) \<Rightarrow> \<exists>h. header_of (sc_segments c) x = Some h
        \<and> (if expired e h then \<not> r \<and> c' = c else r \<and> models e c' (A(k := None))))"
proof -
  from assms obtain g where g: "cache_inv e c g" "quiescent g" "A = content g"
    and rk: "ranking_ok (length (sg_headers (sc_segments c))) (sc_evict c)" by (auto simp: models_def)
  have st: "segcache_delete e k c = do { r \<leftarrow> delete_step e k (False, c);
      (case r of Inl x \<Rightarrow> Some x | Inr s \<Rightarrow> iterate (delete_step e k) s) }"
    unfolding segcache_delete_def by (subst iterate.simps) simp
  note ev = delete_step_eval [OF g(1,2) assms(2), of k]
  show ?thesis
  proof (cases "content g k")
    case None
    then show ?thesis using ev st g(3) by (simp add: same_config_def)
  next
    case (Some xd)
    then obtain x d where xd: "content g k = Some (x, d)" by (cases xd) simp
    with ev obtain h where h: "header_of (sc_segments c) x = Some h"
      and r: "if expired e h then delete_step e k (False, c) = Some (Inl (False, c))
        else \<exists>c' g'. delete_step e k (False, c) = Some (Inl (True, c')) \<and> cache_inv e c' g' \<and> quiescent g'
          \<and> content g' = (content g)(k := None) \<and> sc_evict c' = sc_evict c
          \<and> length (sg_headers (sc_segments c')) = length (sg_headers (sc_segments c)) \<and> sg_segment_size (sc_segments c') = sg_segment_size (sc_segments c)
          \<and> stamp (sc_segments c') = stamp (sc_segments c)" by auto
    show ?thesis
    proof (cases "expired e h")
      case True
      then show ?thesis using r st g(3) xd h by (simp add: same_config_def)
    next
      case False
      then obtain c' g' where r': "delete_step e k (False, c) = Some (Inl (True, c'))" "cache_inv e c' g'" "quiescent g'"
        "content g' = (content g)(k := None)" "sc_evict c' = sc_evict c"
        "length (sg_headers (sc_segments c')) = length (sg_headers (sc_segments c))"
        "sg_segment_size (sc_segments c') = sg_segment_size (sc_segments c)" "stamp (sc_segments c') = stamp (sc_segments c)" using r by auto
      then have "models e c' (A(k := None))" using g(3) rk unfolding models_def by (intro conjI exI [of _ g']) simp_all
      moreover have "same_config c c'" using r'(5,7) by (simp add: same_config_def)
      ultimately show ?thesis using st r'(1,8) False g(3) xd h by simp
    qed
  qed
qed

end
