(* ===== verification/CacheInsert.thy ===== *)
theory CacheInsert
  imports CacheReserve CacheRemove
begin

unbundle bit_operations_syntax

text \<open>
  Inserting into the composed cache: the reserved item is published in place of the one the key has, or as a new entry, its
  writer pin is dropped, and the item replaced is removed.
\<close>

section \<open>Headers along the way\<close>

definition still :: "segments \<Rightarrow> segments \<Rightarrow> bool" where
  "still s s' \<longleftrightarrow> (\<forall>y h. header_of s y = Some h \<longrightarrow> (\<exists>h'. header_of s' y = Some h' \<and> same_life h h'))"

lemma still_refl [simp]: "still s s"
  by (simp add: still_def same_life_def)

lemma still_put: "header_of s x = Some h \<Longrightarrow> same_life h h' \<Longrightarrow> still s (put_header s x h')"
  by (auto simp: still_def header_of_put same_life_def)

lemma stillD:
  assumes "still s s'" and "header_of s y = Some h"
  obtains h' where "header_of s' y = Some h'" "loc_of y h' = loc_of y h" "hd_ttl h' = hd_ttl h" "hd_metadata h' = hd_metadata h"
  using assms same_life_simps(1) unfolding still_def same_life_def by (metis loc_of_def ext)

lemma still_stamp:
  assumes st: "still s s'" and len: "length (sg_headers s') = length (sg_headers s)"
  shows "stamp s' = stamp s"
proof
  fix y
  have "header_of s' y = None \<longleftrightarrow> header_of s y = None" using len by (simp add: header_of_def)
  then show "stamp s' y = stamp s y"
    using st unfolding still_def stamp_def same_life_def by (cases "header_of s y") fastforce+
qed

lemma content_pins [simp]: "content (g\<lparr>g_writer := w\<rparr>) = content g" "content (g\<lparr>g_extra := E\<rparr>) = content g"
  by (simp_all add: content_def item_of_def [abs_def] fun_eq_iff)

lemma same_times_ttl: "same_times D s s' \<Longrightarrow> y \<notin> D \<Longrightarrow> map_option hd_ttl (header_of s' y) = map_option hd_ttl (header_of s y)"
  unfolding same_times_def by (cases "header_of s' y"; cases "header_of s y") fastforce+

section \<open>The writer pin\<close>

lemma drop_reserved_eval:
  assumes c: "cache_inv e c g" and t: "chained (tt_buckets (sc_ttl_buckets c)) g t" and w: "g_writer g = Some t"
    and r: "ri_seg r = t"
  obtains s' where "drop_reserved r c = Some (put_segments s' c)" "cache_inv e (put_segments s' c) (g\<lparr>g_writer := None\<rparr>)"
    "still (sc_segments c) s'" "length (sg_headers s') = length (sg_headers (sc_segments c))"
    "sg_segment_size s' = sg_segment_size (sc_segments c)"
proof -
  let ?s = "sc_segments c"
  have ci: "cinv (e_integrity e) ?s (sc_hashtable c) (tt_buckets (sc_ttl_buckets c)) g" using c by (simp add: cache_inv_def)
  from chained_header [OF ci t] obtain h where h: "header_of ?s t = Some h" by metis
  have ok: "head_ok (e_integrity e) ?s (tt_buckets (sc_ttl_buckets c)) g t h" using ci h by (simp add: cinv_def)
  have sl: "same_life h (release_writer h)" by (simp add: same_life_def release_writer_def)
  have "cinv (e_integrity e) ((put_header ?s t (release_writer h))\<lparr>sg_gauges := sg_gauges ?s\<rparr>) (sc_hashtable c) (tt_buckets (sc_ttl_buckets c))
      (g\<lparr>g_writer := None\<rparr>)"
    by (rule cinv_put [OF ci h sl])
       (use ok w t cinv_parts(3) [OF ci] in \<open>auto simp: head_ok_def counted_def release_writer_def counts_def\<close>)
  then show thesis
    using h r still_put [OF h sl] by (intro that [of "put_header ?s t (release_writer h)"])
      (simp_all add: drop_reserved_def drop_writer_def update_header_def cache_inv_def)
qed

section \<open>Publishing over an entry\<close>

lemma loc_entry:
  assumes sh: "shape i s" and h: "header_of s x = Some h" and u: "unpack_location (loc_of x h pos) = (x, pos)"
  shows "entry_location (loc_of x h pos)"
proof -
  note b = shape_header [OF sh h]
  have "as_raw (loc_of x h pos) \<noteq> 0"
  proof
    assume z: "as_raw (loc_of x h pos) = 0"
    have "fst (unpack_location (loc_of x h pos)) = 0" unfolding unpack_location_def z by simp
    then show False using u b(4) by simp
  qed
  then show ?thesis using pack_location_range [of x "hd_generation h" "of_nat pos"] b(10)
    by (simp add: entry_location_def loc_of_def)
qed

text \<open>What publishing comes to: the item is the content of its key, or the table has no room and it is gone again.\<close>

definition published :: "env \<Rightarrow> segcache \<Rightarrow> ghost \<Rightarrow> cell \<Rightarrow> u32 \<Rightarrow> (segcache_error + unit) \<Rightarrow> segcache \<Rightarrow> ghost \<Rightarrow> bool" where
  "published e c g d x r c' g' \<longleftrightarrow> cache_inv e c' g' \<and> quiescent g' \<and> sc_evict c' = sc_evict c
     \<and> length (sg_headers (sc_segments c')) = length (sg_headers (sc_segments c)) \<and> same_config c c'
     \<and> stamp (sc_segments c') = stamp (sc_segments c)
     \<and> (case r of Inr _ \<Rightarrow> content g' = (content g)(ce_key d \<mapsto> (x, d))
          \<and> map_option hd_ttl (header_of (sc_segments c') x) = map_option hd_ttl (header_of (sc_segments c) x)
        | Inl err \<Rightarrow> err = HashTableInsertEx \<and> content g (ce_key d) = None \<and> content g' = content g
          \<and> choices_full (ce_key d) (sc_hashtable c'))"

lemma item_of_pins: "item_of (g\<lparr>g_map := M, g_extra := E\<rparr>) = item_of g" "item_of (g\<lparr>g_writer := w\<rparr>) = item_of g"
  by (simp_all add: item_of_def [abs_def])

lemma insert_replace_eval:
  assumes h: "holding e c0 g0 d ttl r c g" and k: "content g (ce_key d) = Some (x, d0)" and pol: "\<not> merges (ev_policy (sc_evict c))"
  shows "\<exists>c' g'. insert_step e (ce_key d) (ce_value d) opt ttl' (Publish r, c) = Some (Inl (Inr (), c')) \<and> published e c g d (ri_seg r) (Inr ()) c' g'"
proof -
  let ?i = "e_integrity e" and ?s = "sc_segments c" and ?bs = "tt_buckets (sc_ttl_buckets c)" and ?k = "ce_key d" and ?t = "ri_seg r"
    and ?new = "reserved_location r"
  have c: "cache_inv e c g" and wr: "g_writer g = Some ?t" and rm: "g_remover g = None" and ex: "g_extra g = {?new}"
    and fresh: "\<And>k. g_map g k \<noteq> Some ?new" and it: "(ri_offset r, d) \<in> set (g_items g ?t)"
    using h by (auto simp: holding_def)
  obtain ht where ht: "header_of ?s ?t = Some ht" "?new = loc_of ?t ht (ri_offset r)" using h by (auto simp: holding_def)
  have ci: "cinv ?i ?s (sc_hashtable c) ?bs g" using c by (simp add: cache_inv_def)
  from cinv_lookup [OF ci, of ?k] k obtain hx pos hit where lk: "lookup_no_freq_update ?k (sc_verifier e ?s) (sc_hashtable c) = Found hit"
    and fh: "found_hit (sc_hashtable c) ?k ?s x hx pos hit" and hx: "header_of ?s x = Some hx" "(pos, d0) \<in> set (g_items g x)" "ce_key d0 = ?k"
    "g_map g ?k = Some (loc_of x hx pos)" by auto
  let ?old = "loc_of x hx pos"
  note bx = in_bounds [OF ci hx(1,2)] and bt = in_bounds [OF ci ht(1) it]
  note x0 = shape_header(4) [OF cinv_parts(1) [OF ci] hx(1)]
  note pin = pin_remover_eval [OF ci bx(1) rm hx(1)]
  let ?hx = "hx\<lparr>hd_active_removers := 1\<rparr>" and ?g1 = "remover_on x g"
  let ?s1 = "put_header ?s x ?hx"
  have f1: "g_map ?g1 = g_map g" "g_items ?g1 = g_items g" "g_extra ?g1 = g_extra g" "g_writer ?g1 = g_writer g" "g_chains ?g1 = g_chains g"
    by (simp_all add: remover_on_def)
  have sl: "same_life hx ?hx" by (simp add: same_life_def)
  have st1: "still ?s ?s1" by (rule still_put [OF hx(1) sl])
  from stillD [OF st1 ht(1)] obtain ht1 where ht1: "header_of ?s1 ?t = Some ht1" "loc_of ?t ht1 = loc_of ?t ht" "hd_ttl ht1 = hd_ttl ht" .
  have it1: "(ri_offset r, d) \<in> set (g_items ?g1 ?t)" using it by (simp add: f1)
  have new: "entry_location ?new" "key_in ?s1 (g_items ?g1) ?new = Some ?k"
    using loc_entry [OF cinv_parts(1) [OF ci] ht(1) bt(9)] key_in_item [OF pin(2) ht1(1) it1] by (simp_all add: ht(2) ht1(2))
  have gs: "good_slot (sc_hashtable c) ?k (hit_slot hit) ?old" and hl: "hit_location hit = ?old" using fh by (simp_all add: found_hit_def)
  have mk: "g_map ?g1 ?k = Some ?old" using hx(4) by (simp add: f1)
  from cached_swing [OF cinv_parts(3) [OF pin(2)] gs mk new, of True] obtain ht' where
    sw: "cas_location_at (hit_slot hit) ?old ?new True (sc_hashtable c) = (True, ht')"
      "cached (key_in ?s1 (g_items ?g1)) ht' ((g_map ?g1)(?k \<mapsto> ?new))" .
  let ?g2 = "?g1\<lparr>g_map := (g_map ?g1)(?k \<mapsto> ?new), g_extra := {?old}\<rparr>"
  have on: "?old \<noteq> ?new" using hx(4) fresh by metis
  have c2: "cinv ?i ?s1 ht' ?bs ?g2"
    by (rule cinv_relink [OF pin(2) mk sw(2)]) (use ex new on in \<open>auto simp: f1\<close>)
  let ?c2 = "put_hashtable ht' (put_segments ?s1 c)"
  have ci2: "cache_inv e ?c2 ?g2" using c2 by (simp add: cache_inv_def)
  have t2: "chained (tt_buckets (sc_ttl_buckets ?c2)) ?g2 ?t" using bt(1) by (simp add: chained_def f1)
  have w2: "g_writer ?g2 = Some ?t" using wr by (simp add: f1)
  from drop_reserved_eval [OF ci2 t2 w2 refl] obtain s3 where
    dr: "drop_reserved r ?c2 = Some (put_segments s3 ?c2)" "cache_inv e (put_segments s3 ?c2) (?g2\<lparr>g_writer := None\<rparr>)"
      "still (sc_segments ?c2) s3" "length (sg_headers s3) = length (sg_headers (sc_segments ?c2))"
      "sg_segment_size s3 = sg_segment_size (sc_segments ?c2)" .
  let ?c3 = "put_segments s3 ?c2" and ?g3 = "?g2\<lparr>g_writer := None\<rparr>"
  have st3: "still ?s1 s3" using dr(3) by simp
  have "header_of ?s1 x = Some ?hx" using hx(1) by (simp add: header_of_put)
  from stillD [OF st3 this] obtain hx3 where hx3: "header_of s3 x = Some hx3" "loc_of x hx3 = loc_of x ?hx" .
  have lo: "?old = loc_of x hx3 pos" using hx3(2) same_life_simps(1) [OF sl] by metis
  from stillD [OF st3 ht1(1)] obtain ht3 where ht3: "header_of s3 ?t = Some ht3" "loc_of ?t ht3 = loc_of ?t ht1" "hd_ttl ht3 = hd_ttl ht1" .
  have a: "header_of (sc_segments ?c3) x = Some hx3" "(pos, d0) \<in> set (g_items ?g3 x)" "g_extra ?g3 = {loc_of x hx3 pos}" "g_writer ?g3 = None"
    "g_remover ?g3 = Some x" "g_map ?g3 (ce_key d0) \<noteq> Some (loc_of x hx3 pos)" "\<not> merges (ev_policy (sc_evict ?c3))"
    using hx3(1) hx(2,3) on pol by (simp_all add: f1 remover_on_def flip: lo)
  from remove_at_eval [OF dr(2) a] obtain c' g' where ra: "remove_at e ?old x ?c3 = Some (Inr (), c')" "same_content e ?c3 ?g3 c' g'"
    unfolding lo by blast
  have step: "insert_step e ?k (ce_value d) opt ttl' (Publish r, c) = Some (Inl (Inr (), c'))"
    using on x0 pin(1) sw(1) dr(1) ra(1)
    by (simp add: lookup_slot_def lk hl insert_replace_def bx(9) Let_def)
  have ci3: "cinv ?i s3 ht' ?bs ?g3" using dr(2) by (simp add: cache_inv_def)
  have it3: "(ri_offset r, d) \<in> set (g_items ?g3 ?t)" using it1 by simp
  have "item_of ?g3 ?new = Some (?t, d)" using item_of_loc [OF ci3 ht3(1) it3] by (simp add: ht(2) ht1(2) ht3(2))
  then have "item_of ?g1 ?new = Some (?t, d)" by (simp add: item_of_pins)
  then have "content ?g3 = (content g)(?k \<mapsto> (?t, d))" unfolding content_pins(1) content_relink by (simp add: content_remover)
  then have ct: "content g' = (content g)(?k \<mapsto> (?t, d))" using ra(2) by (simp add: same_content_def)
  have "map_option hd_ttl (header_of (sc_segments c') ?t) = Some (hd_ttl ht)"
  proof -
    obtain D where D: "same_times D (sc_segments ?c3) (sc_segments c')" "\<And>y. y \<in> D \<Longrightarrow> g_items g' y = []"
      using ra(2) by (auto simp: same_content_def kept_def)
    have c': "cinv ?i (sc_segments c') (sc_hashtable c') (tt_buckets (sc_ttl_buckets c')) g'" using ra(2) by (simp add: same_content_def cache_inv_def)
    have "content g' ?k = Some (?t, d)" by (simp add: ct)
    from content_Some [OF c' this] D(2) have "?t \<notin> D" by (metis empty_iff list.set(1))
    then show ?thesis using same_times_ttl [OF D(1)] ht3(1,3) ht1(3) by simp
  qed
  moreover have "stamp (sc_segments c') = stamp ?s"
    using ra(2) still_stamp [OF st1] still_stamp [OF st3] dr(4) by (simp add: same_content_def kept_def)
  ultimately have "published e c g d ?t (Inr ()) c' g'"
    using ra(2) ct ht(1) dr(4,5) unfolding published_def same_content_def same_config_def kept_def by simp
  then show ?thesis using step by blast
qed

section \<open>Publishing a new entry\<close>

lemma cinv_link:
  assumes c: "cinv i s ht bs g" and k: "g_map g k = None" and ex: "g_extra g = {l}" and key: "key_in s (g_items g) l = Some k"
    and ca: "cached (key_in s (g_items g)) ht' ((g_map g)(k \<mapsto> l))"
  shows "cinv i s ht' bs (g\<lparr>g_map := (g_map g)(k \<mapsto> l), g_extra := {}\<rparr>)" (is "cinv i s ht' bs ?g")
proof -
  have "counted ?g y hy = counted g y hy" if hy: "header_of s y = Some hy" for y hy
    unfolding counted_def
  proof (intro filter_cong refl)
    fix qe assume qe: "qe \<in> set (g_items g y)"
    obtain q e where q: "qe = (q, e)" by force
    have key': "key_in s (g_items g) (loc_of y hy q) = Some (ce_key e)" using key_in_item [OF c hy] qe q by simp
    have "(((g_map g)(k \<mapsto> l)) (ce_key e) = Some (loc_of y hy q)) = (g_map g (ce_key e) = Some (loc_of y hy q) \<or> loc_of y hy q = l)"
      using key key' k by (cases "loc_of y hy q = l") auto
    then show "(case qe of (pos, c) \<Rightarrow> g_map ?g (ce_key c) = Some (loc_of y hy pos) \<or> loc_of y hy pos \<in> g_extra ?g)
      = (case qe of (pos, c) \<Rightarrow> g_map g (ce_key c) = Some (loc_of y hy pos) \<or> loc_of y hy pos \<in> g_extra g)" using ex by (simp add: q)
  qed simp
  moreover have "chained bs ?g y = chained bs g y" for y by (simp add: chained_def)
  ultimately have "head_ok i s bs ?g y hy" if "header_of s y = Some hy" for y hy
    using cinv_parts(5) [OF c that] that by (simp add: head_ok_def)
  moreover have "chains_ok s bs ?g" using cinv_parts(4) [OF c] chains_ok_cong [of ?g g] by simp
  ultimately show ?thesis using cinv_parts(1) [OF c] ca by (simp add: cinv_def)
qed

lemma insert_fresh_eval:
  assumes h: "holding e c0 g0 d ttl r c g" and k: "content g (ce_key d) = None" and pol: "\<not> merges (ev_policy (sc_evict c))"
  shows "\<exists>res c' g'. insert_step e (ce_key d) (ce_value d) opt ttl' (Publish r, c) = Some (Inl (res, c')) \<and> published e c g d (ri_seg r) res c' g'"
proof -
  let ?i = "e_integrity e" and ?s = "sc_segments c" and ?bs = "tt_buckets (sc_ttl_buckets c)" and ?k = "ce_key d" and ?t = "ri_seg r"
    and ?new = "reserved_location r"
  have c: "cache_inv e c g" and wr: "g_writer g = Some ?t" and rm: "g_remover g = None" and ex: "g_extra g = {?new}"
    and it: "(ri_offset r, d) \<in> set (g_items g ?t)" using h by (auto simp: holding_def)
  obtain ht where ht: "header_of ?s ?t = Some ht" "?new = loc_of ?t ht (ri_offset r)" "header_state ht = Some Live" using h by (auto simp: holding_def)
  have ci: "cinv ?i ?s (sc_hashtable c) ?bs g" using c by (simp add: cache_inv_def)
  note bt = in_bounds [OF ci ht(1) it] and t0 = shape_header(4) [OF cinv_parts(1) [OF ci] ht(1)]
  have mk: "g_map g ?k = None" using content_None [OF ci] k by simp
  have lk: "lookup_no_freq_update ?k (sc_verifier e ?s) (sc_hashtable c) = Absent" using cinv_lookup [OF ci, of ?k] k by simp
  have "raw_key ?i (sg_data ?s) (reserved_addr ?s r) = Some ?k"
    using cell_reads(1) [OF bt(7)] by (simp add: reserved_addr_def byte_offset_def)
  then have key: "key_of_item ?i ?s (reserved_addr ?s r) = ?k" by (simp add: key_of_item_def)
  have new: "entry_location ?new" "seg_key_at (unat (sg_cap ?s)) (acquire_for ?i ?s) (key_of_item ?i ?s) ?new = Some ?k"
    "key_in ?s (g_items g) ?new = Some ?k"
    using loc_entry [OF cinv_parts(1) [OF ci] ht(1) bt(9)] item_key_at [OF ci ht(1) it] key_in_item [OF ci ht(1) it] by (simp_all add: ht(2))
  note ins = cached_insert [OF cinv_cached [OF ci] mk new(1,2), folded sc_verifier_def]
  obtain out ht' where o: "ht_insert ?k ?new (sc_verifier e ?s) (sc_hashtable c) = (out, ht')" by force
  have step: "insert_step e ?k (ce_value d) opt ttl' (Publish r, c) = (case out of
       Inr (IUnknown l) \<Rightarrow> restart_insert e r l (put_hashtable ht' c)
     | Inr Created \<Rightarrow> do { c \<leftarrow> drop_reserved r (put_hashtable ht' c); Some (Inl (Inr (), c)) }
     | Inr (Replaced raced_old) \<Rightarrow> do {
         c \<leftarrow> drop_reserved r (put_hashtable ht' c);
         c \<leftarrow> remove_pinned e raced_old c;
         Some (Inl (Inr (), c)) }
     | Inl _ \<Rightarrow> do {
         c \<leftarrow> rollback_reservation e r ?new (put_hashtable ht' c);
         Some (Inl (Inl HashTableInsertEx, c)) })"
    by (simp add: lookup_slot_def lk insert_fresh_def key o Let_def)
  let ?c1 = "put_hashtable ht' c"
  consider (created) "out = Inr Created" "cached (seg_key_at (unat (sg_cap ?s)) (acquire_for ?i ?s) (key_of_item ?i ?s)) ht' ((g_map g)(?k \<mapsto> ?new))"
    | (full) u where "out = Inl u" "ht' = sc_hashtable c" "choices_full ?k (sc_hashtable c)"
    using ins o by (cases out) (auto split: insert_outcome.splits)
  then show ?thesis
  proof cases
    case created
    let ?g1 = "g\<lparr>g_map := (g_map g)(?k \<mapsto> ?new), g_extra := {}\<rparr>"
    have "cached (key_in ?s (g_items g)) ht' ((g_map g)(?k \<mapsto> ?new))"
      by (rule cached_cong [OF created(2)]) (use new(3) cached_key [OF cinv_parts(3) [OF ci]] in \<open>auto split: if_splits\<close>)
    from cinv_link [OF ci mk ex new(3) this] have c1: "cache_inv e ?c1 ?g1" by (simp add: cache_inv_def)
    have t1: "chained (tt_buckets (sc_ttl_buckets ?c1)) ?g1 ?t" using bt(1) by (simp add: chained_def)
    have w1: "g_writer ?g1 = Some ?t" using wr by simp
    from drop_reserved_eval [OF c1 t1 w1 refl] obtain s' where
      dr: "drop_reserved r ?c1 = Some (put_segments s' ?c1)" "cache_inv e (put_segments s' ?c1) (?g1\<lparr>g_writer := None\<rparr>)"
        "still (sc_segments ?c1) s'" "length (sg_headers s') = length (sg_headers (sc_segments ?c1))"
        "sg_segment_size s' = sg_segment_size (sc_segments ?c1)" .
    have "item_of g ?new = Some (?t, d)" using item_of_loc [OF ci ht(1) it] by (simp add: ht(2))
    then have "content (?g1\<lparr>g_writer := None\<rparr>) = (content g)(?k \<mapsto> (?t, d))" unfolding content_pins(1) content_relink by simp
    moreover have "map_option hd_ttl (header_of s' ?t) = map_option hd_ttl (header_of ?s ?t)"
      using stillD [OF dr(3), of ?t ht] ht(1) by (auto elim: stillD)
    moreover have "stamp s' = stamp ?s" using still_stamp [OF dr(3)] dr(4) by simp
    ultimately have "published e c g d ?t (Inr ()) (put_segments s' ?c1) (?g1\<lparr>g_writer := None\<rparr>)"
      using dr rm unfolding published_def same_config_def by (simp add: quiescent_def)
    moreover have "insert_step e ?k (ce_value d) opt ttl' (Publish r, c) = Some (Inl (Inr (), put_segments s' ?c1))"
      unfolding step by (simp add: created(1) dr(1))
    ultimately show ?thesis by blast
  next
    case full
    have cc: "?c1 = c" by (simp add: full(2) put_hashtable_def)
    from drop_reserved_eval [OF c bt(1) wr refl] obtain s2 where
      dr: "drop_reserved r c = Some (put_segments s2 c)" "cache_inv e (put_segments s2 c) (g\<lparr>g_writer := None\<rparr>)"
        "still ?s s2" "length (sg_headers s2) = length (sg_headers ?s)"
        "sg_segment_size s2 = sg_segment_size ?s" .
    let ?g2 = "g\<lparr>g_writer := None\<rparr>" and ?c2 = "put_segments s2 c"
    from stillD [OF dr(3) ht(1)] obtain ht2 where ht2: "header_of s2 ?t = Some ht2" "loc_of ?t ht2 = loc_of ?t ht"
      "hd_metadata ht2 = hd_metadata ht" .
    have ci2: "cinv ?i s2 (sc_hashtable c) ?bs ?g2" using dr(2) by (simp add: cache_inv_def)
    have t2: "chained ?bs ?g2 ?t" "g_remover ?g2 = None" using bt(1) rm by (simp_all add: chained_def)
    note pin = pin_remover_eval [OF ci2 t2 ht2(1)]
    let ?h3 = "ht2\<lparr>hd_active_removers := 1\<rparr>" and ?g3 = "remover_on ?t ?g2"
    let ?s3 = "put_header s2 ?t ?h3"
    let ?c3 = "put_segments ?s3 c"
    have c3: "cache_inv e ?c3 ?g3" using pin(2) by (simp add: cache_inv_def)
    have live: "header_state ?h3 = Some Live" using ht(3) ht2(3) by (simp add: header_state_def header_metadata_def)
    have lo: "?new = loc_of ?t ?h3 (ri_offset r)" by (simp add: ht(2) ht2(2) [symmetric] loc_of_def)
    have a: "header_of (sc_segments ?c3) ?t = Some ?h3" "(ri_offset r, d) \<in> set (g_items ?g3 ?t)" "g_extra ?g3 = {loc_of ?t ?h3 (ri_offset r)}"
      "g_writer ?g3 = None" "g_remover ?g3 = Some ?t" "g_map ?g3 (ce_key d) \<noteq> Some (loc_of ?t ?h3 (ri_offset r))" "\<not> merges (ev_policy (sc_evict ?c3))"
      using ht2(1) it ex pol mk by (simp_all add: remover_on_def header_of_put flip: lo)
    from remove_at_eval [OF c3 a] obtain c' g' where ra: "remove_at e ?new ?t ?c3 = Some (Inr (), c')" "same_content e ?c3 ?g3 c' g'"
      "sc_hashtable c' = sc_hashtable c"
      unfolding lo using live by auto
    have "rollback_reservation e r ?new c = Some c'"
      using t0 pin(1) ra(1) bt(9) by (simp add: rollback_reservation_def dr(1) remove_pinned_def Let_def ht(2))
    then have "insert_step e ?k (ce_value d) opt ttl' (Publish r, c) = Some (Inl (Inl HashTableInsertEx, c'))"
      unfolding step cc by (simp add: full(1))
    moreover have "published e c g d ?t (Inl HashTableInsertEx) c' g'"
    proof -
      have "content g' = content g" using ra(2) by (simp add: same_content_def content_remover)
      moreover have "stamp ?s3 = stamp s2" by (rule stamp_put [OF ht2(1)]) simp_all
      then have "stamp (sc_segments c') = stamp ?s" using ra(2) still_stamp [OF dr(3,4)] by (simp add: same_content_def kept_def)
      ultimately show ?thesis
      using ra(2,3) k dr(4,5) full(3) unfolding published_def same_content_def same_config_def kept_def by simp
    qed
    ultimately show ?thesis by blast
  qed
qed

section \<open>The insert\<close>

text \<open>The outcome of an insert: what was dropped to make room, and the item or the error.\<close>

definition inserted :: "env \<Rightarrow> cell \<Rightarrow> u32 \<Rightarrow> segments \<Rightarrow> content \<Rightarrow> (segcache_error + unit) \<Rightarrow> segcache \<Rightarrow> content \<Rightarrow> bool" where
  "inserted e d ttl s A r c' A' \<longleftrightarrow> (\<exists>D. (\<forall>x \<in> D. may_go e s x) \<and> mostly_due e s RESERVE_RETRIES D \<and> (sg_free_queue s \<noteq> [] \<longrightarrow> D = {})
     \<and> (case r of
          Inr _ \<Rightarrow> csize (e_integrity e) d \<le> seg_bytes s \<and> (\<exists>x h. A' = (minus_segs D A)(ce_key d \<mapsto> (x, d))
            \<and> header_of (sc_segments c') x = Some h \<and> hd_ttl h = of_nat (bucket_ttls ! get_bucket_index ttl)
            \<and> stamped_for e ttl x (minus_segs D A) s (sc_segments c'))
        | Inl err \<Rightarrow> A' = minus_segs D A
            \<and> (err = SegItemOversized (csize (e_integrity e) d) \<and> seg_bytes s < csize (e_integrity e) d \<and> D = {}
                \<and> stamp (sc_segments c') = stamp s
              \<or> err = SegNoFreeSegments \<and> csize (e_integrity e) d \<le> seg_bytes s \<and> sg_free_queue s = []
                \<and> stamp (sc_segments c') = stamp s
              \<or> err = HashTableInsertEx \<and> csize (e_integrity e) d \<le> seg_bytes s \<and> A' (ce_key d) = None
                \<and> (\<exists>x. stamped_for e ttl x A' s (sc_segments c')) \<and> choices_full (ce_key d) (sc_hashtable c'))))"

lemma insert_publish_eval:
  assumes "holding e c0 g0 d ttl r c g" and "\<not> merges (ev_policy (sc_evict c))"
  shows "\<exists>res c' g'. insert_step e (ce_key d) (ce_value d) opt ttl' (Publish r, c) = Some (Inl (res, c')) \<and> published e c g d (ri_seg r) res c' g'"
  using insert_fresh_eval [OF assms(1) _ assms(2)] insert_replace_eval [OF assms(1) _ assms(2)]
  by (cases "content g (ce_key d)") fastforce+

lemma insert_content:
  assumes m: "models e c A" and pol: "drops_whole (ev_policy (sc_evict c))"
    and rep: "raw_representable (ce_key d) (ce_value d) (ce_opt d)" and gap: "\<not> in_gap (e_integrity e) (sg_segment_size (sc_segments c)) (csize (e_integrity e) d)"
    and opt: "ce_opt d = (case opt of Some o' \<Rightarrow> o' | None \<Rightarrow> [])"
  shows "\<exists>r c' A'. segcache_insert e (ce_key d) (ce_value d) opt ttl c = Some (r, c') \<and> same_config c c' \<and> models e c' A'
    \<and> inserted e d (coarse_ttl ttl) (sc_segments c) A r c' A'"
proof -
  let ?step = "insert_step e (ce_key d) (ce_value d) (ce_opt d) (coarse_ttl ttl)" and ?sz = "csize (e_integrity e) d"
  from m obtain g where g: "cache_inv e c g" "quiescent g" "A = content g"
    and rk: "ranking_ok (length (sg_headers (sc_segments c))) (sc_evict c)" by (auto simp: models_def)
  have ok: "evict_ok (sc_segments c) (sc_evict c)" using rk pol by (simp add: evict_ok_def)
  have ins: "segcache_insert e (ce_key d) (ce_value d) opt ttl c = iterate ?step (StartInsert, c)"
    by (simp add: segcache_insert_def opt)
  have it: "iterate ?step s = (case ?step s of None \<Rightarrow> None | Some (Inl x) \<Rightarrow> Some x | Some (Inr s') \<Rightarrow> iterate ?step s')" for s
    by (rule iterate_unfold)
  from reserve_and_define_eval [OF g(1,2) ok rep gap, of "coarse_ttl ttl"] obtain r c1 c0 g0 D where
    r: "reserve_and_define e (ce_key d) (ce_value d) (ce_opt d) (coarse_ttl ttl) c = Some (r, c1)" "evicted e D c g c0 g0"
    and o: "case r of Inr ri \<Rightarrow> ?sz \<le> seg_bytes (sc_segments c) \<and> (\<exists>g'. holding e c0 g0 d (coarse_ttl ttl) ri c1 g')
      | Inl err \<Rightarrow> c1 = c0 \<and> (if ?sz \<le> seg_bytes (sc_segments c)
          then err = SegNoFreeSegments \<and> sg_free_queue (sc_segments c) = [] else err = SegItemOversized ?sz \<and> D = {})"
    and D: "sg_free_queue (sc_segments c) \<noteq> [] \<longrightarrow> D = {}" "mostly_due e (sc_segments c) RESERVE_RETRIES D" .
  note e0 = r(2) [unfolded evicted_def]
  have cf: "same_config c c0" using e0 by (simp add: same_config_def drained_by_def)
  have len: "length (sg_headers (sc_segments c0)) = length (sg_headers (sc_segments c))" using e0 by (simp add: drained_by_def)
  have mod0: "ranking_ok (length (sg_headers (sc_segments c0))) (sc_evict c0)" using e0 by (simp add: evict_ok_def)
  have A0: "content g0 = minus_segs D A" using e0 g(3) by simp
  have may: "\<forall>x \<in> D. may_go e (sc_segments c) x" using e0 by simp
  have st0: "stamp (sc_segments c0) = stamp (sc_segments c)" using e0 by (simp add: drained_by_def)
  show ?thesis
  proof (cases r)
    case (Inl err)
    have "iterate ?step (StartInsert, c) = Some (Inl err, c1)" by (subst it) (simp add: r(1) Inl)
    moreover have "models e c1 (minus_segs D A)" using e0 o Inl A0 mod0 by (auto simp: models_def)
    moreover have "same_config c c1" using cf o Inl by simp
    moreover have "inserted e d (coarse_ttl ttl) (sc_segments c) A (Inl err) c1 (minus_segs D A)"
      unfolding inserted_def using o D may Inl st0 by (intro exI [of _ D]) (auto split: if_splits)
    ultimately show ?thesis unfolding ins by blast
  next
    case (Inr ri)
    then obtain g1 where h: "holding e c0 g0 d (coarse_ttl ttl) ri c1 g1" and fit: "?sz \<le> seg_bytes (sc_segments c)" using o by auto
    have h1: "sc_evict c1 = sc_evict c0" "length (sg_headers (sc_segments c1)) = length (sg_headers (sc_segments c0))" "same_config c0 c1"
      "content g1 = content g0" using h by (simp_all add: holding_def)
    have st1: "stamped_for e (coarse_ttl ttl) (ri_seg ri) (minus_segs D A) (sc_segments c) (sc_segments c1)"
      using h A0 st0 by (simp add: holding_def stamped_for_def)
    have "\<not> merges (ev_policy (sc_evict c1))" using e0 h1(1) pol by (cases "ev_policy (sc_evict c)") auto
    from insert_publish_eval [OF h this] obtain res c' g' where
      p: "?step (Publish ri, c1) = Some (Inl (res, c'))" "published e c1 g1 d (ri_seg ri) res c' g'" by blast
    note p' = p(2) [unfolded published_def]
    have "iterate ?step (Publish ri, c1) = Some (res, c')" by (subst it) (simp only: p(1) option.case sum.case)
    then have "iterate ?step (StartInsert, c) = Some (res, c')" by (subst it) (simp add: r(1) Inr)
    moreover have "models e c' (content g')" using p' h1 mod0 unfolding models_def by (intro conjI exI [of _ g']) simp_all
    moreover have "same_config c c'" using cf h1(3) p' by (simp add: same_config_def)
    moreover have st': "stamped_for e (coarse_ttl ttl) (ri_seg ri) (minus_segs D A) (sc_segments c) (sc_segments c')"
      using st1 p' by (simp add: stamped_for_def)
    moreover have "inserted e d (coarse_ttl ttl) (sc_segments c) A res c' (content g')"
    proof (cases res)
      case (Inl err)
      then show ?thesis unfolding inserted_def using p' A0 h1(4) D may fit st' by (intro exI [of _ D]) auto
    next
      case (Inr u)
      obtain hh where hh: "header_of (sc_segments c1) (ri_seg ri) = Some hh" "hd_ttl hh = of_nat (bucket_ttls ! get_bucket_index (coarse_ttl ttl))"
        using h by (auto simp: holding_def)
      have "content g' = (minus_segs D A)(ce_key d \<mapsto> (ri_seg ri, d))" "map_option hd_ttl (header_of (sc_segments c') (ri_seg ri)) = Some (hd_ttl hh)"
        using p' Inr A0 h1(4) hh(1) by simp_all
      then obtain h' where "header_of (sc_segments c') (ri_seg ri) = Some h'" "hd_ttl h' = hd_ttl hh" by auto
      then show ?thesis unfolding inserted_def using D may fit Inr \<open>content g' = _\<close> hh(2) st' by (intro exI [of _ D]) auto
    qed
    ultimately show ?thesis unfolding ins by blast
  qed
qed

end
