(* ===== verification/CacheUpdate.thy ===== *)
theory CacheUpdate
  imports CacheRemove
begin

text \<open>
  The in-place numeric operations on the composed cache: \<^verbatim>\<open>wrapping_add\<close> and \<^verbatim>\<open>saturating_sub\<close> replace the integer of the
  item, and everything else stays.
\<close>

lemma content_with_cell:
  assumes c: "cinv i s ht bs g" and h: "header_of s x = Some h" and p: "(pos, d) \<in> set (g_items g x)"
    and k: "g_map g (ce_key d) = Some (loc_of x h pos)"
  shows "content (with_cell x pos d' g) = (content g)(ce_key d \<mapsto> (x, d'))"
proof
  fix j
  note b = in_bounds [OF c h p]
  show "content (with_cell x pos d' g) j = ((content g)(ce_key d \<mapsto> (x, d'))) j"
  proof (cases "j = ce_key d")
    case True
    then show ?thesis using k b(9) by (simp add: content_def item_of_def map_of_put_cell [OF p])
  next
    case j: False
    show ?thesis
    proof (cases "g_map g j")
      case None
      then show ?thesis using j by (simp add: content_def)
    next
      case (Some l)
      from entry_item [OF c Some] obtain y hy q e where y: "header_of s y = Some hy" "l = loc_of y hy q" "(q, e) \<in> set (g_items g y)"
        "ce_key e = j" "unpack_location l = (y, q)" by metis
      have "\<not> (y = x \<and> q = pos)" using y(3,4) p b(8) j by (auto dest: eq_key_imp_eq_value)
      then have "map_of (g_items (with_cell x pos d' g) y) q = map_of (g_items g y) q" by (auto simp: map_of_put_cell [OF p])
      then show ?thesis using Some y(5) j by (simp add: content_def item_of_def del: with_cell_fields(6))
    qed
  qed
qed

text \<open>The outcome of a numeric operation on what the cache holds under the key.\<close>

definition updated :: "env \<Rightarrow> (u64 \<Rightarrow> u64) \<Rightarrow> u8 list \<Rightarrow> segments \<Rightarrow> content \<Rightarrow> (segcache_error + u64) \<Rightarrow> content \<Rightarrow> bool" where
  "updated e f k s A r A' \<longleftrightarrow> (case A k of
      None \<Rightarrow> r = Inl NotFound \<and> A' = A
    | Some (x, d) \<Rightarrow> \<exists>h. header_of s x = Some h \<and> (if expired e h then r = Inl NotFound \<and> A' = A
        else case ce_value d of
            Bytes _ \<Rightarrow> r = Inl NotNumeric \<and> A' = A
          | U64 w \<Rightarrow> r = Inr (f w) \<and> A' = A(k \<mapsto> (x, d\<lparr>ce_value := U64 (f w)\<rparr>))))"

lemma numeric_step_eval:
  assumes c: "cache_inv e c g" and q: "quiescent g"
  obtains r c' g' where "numeric_step e k f c = Some (Inl (r, c'))" "cache_inv e c' g'" "quiescent g'"
    "updated e f k (sc_segments c) (content g) r (content g')" "sc_evict c' = sc_evict c"
    "sg_headers (sc_segments c') = sg_headers (sc_segments c)" "sg_segment_size (sc_segments c') = sg_segment_size (sc_segments c)"
proof -
  let ?i = "e_integrity e" and ?s = "sc_segments c" and ?v = "sc_verifier e (sc_segments c)" and ?ht = "sc_hashtable c"
  let ?bs = "tt_buckets (sc_ttl_buckets c)"
  have ci: "cinv ?i ?s ?ht ?bs g" using c by (simp add: cache_inv_def)
  from cached_lookup_counted [OF cinv_cached [OF ci], of k] obtain ht' where
    l: "ht_lookup k ?v ?ht = (lookup_no_freq_update k ?v ?ht, ht')" "freq_only ?ht ht'" by (auto simp: sc_verifier_def)
  let ?c = "put_hashtable ht' c"
  have c1: "cinv ?i ?s ht' ?bs g" by (rule cinv_freq_only [OF ci l(2)])
  then have ci1: "cache_inv e ?c g" by (simp add: cache_inv_def)
  note lk = cinv_lookup [OF ci, of k]
  show thesis
  proof (cases "content g k")
    case None
    have "numeric_step e k f c = Some (Inl (Inl NotFound, ?c))" using None lk by (simp add: numeric_step_def l)
    then show thesis using that ci1 q None by (simp add: updated_def)
  next
    case (Some xd)
    then obtain x d where xd: "content g k = Some (x, d)" by (cases xd) simp
    from lk xd obtain h pos hit where hit: "lookup_no_freq_update k ?v ?ht = Found hit" "found_hit ?ht k ?s x h pos hit"
      and h: "header_of ?s x = Some h" "(pos, d) \<in> set (g_items g x)" "ce_key d = k" "g_map g k = Some (loc_of x h pos)" by auto
    note fh = hit(2) [unfolded found_hit_def]
    have "good_slot ?ht k (hit_slot hit) (loc_of x h pos)" using fh by simp
    from good_slot_publishes [OF good_slot_freq_only [OF this cached_table [OF cinv_cached [OF ci]] l(2)]]
    have pub: "slot_publishes (hit_slot hit) (loc_of x h pos) ht'" .
    note b = in_bounds [OF ci h(1,2)]
    let ?a = "seg_base ?s x + pos"
    obtain n where ttl: "remaining_ttl e ?s x = Some (if expired e h then Inl NotFound else Inr n)" using remaining_ttl_eval [OF h(1)] by blast
    note x0 = shape_header(4) [OF cinv_parts(1) [OF ci] h(1)]
    have step: "numeric_step e k f c = do {
        ttl \<leftarrow> remaining_ttl e ?s x;
        (case ttl of Inl err \<Rightarrow> Some (Inl (Inl err, ?c))
         | Inr _ \<Rightarrow> do {
             lock \<leftarrow> lock_numeric_version ?i (sg_data ?s) ?a;
             (case lock of Inl _ \<Rightarrow> Some (Inl (Inl NotNumeric, ?c))
              | Inr (version, m) \<Rightarrow> do {
                  (new, m) \<leftarrow> guard_update ?i (e_crc e) version f m ?a;
                  Some (Inl (Inr new, put_segments (?s\<lparr>sg_data := m\<rparr>) ?c)) }) }) }"
      using hit(1) fh x0 pub by (simp add: numeric_step_def l b(9) Let_def)
    show thesis
    proof (cases "expired e h")
      case True
      then show thesis using that ci1 q xd h(1) step ttl by (simp add: updated_def)
    next
      case ne: False
      show thesis
      proof (cases "ce_value d")
        case (Bytes bs)
        then have "numeric_step e k f c = Some (Inl (Inl NotNumeric, ?c))"
          using step ttl ne bytes_not_locked [OF b(7) Bytes] by simp
        then show thesis using that ci1 q xd h(1) ne Bytes by (simp add: updated_def)
      next
        case (U64 w)
        let ?d = "d\<lparr>ce_value := U64 (f w)\<rparr>"
        from numeric_locked [OF b(7) U64] obtain ver m1 where m1: "lock_numeric_version ?i (sg_data ?s) ?a = Some (Inr (ver, m1))"
          and up: "\<exists>m2. guard_update ?i (e_crc e) ver f m1 ?a = Some (f w, m2) \<and> cell_at ?i m2 ?a ?d \<and> changed_in ?a (csize ?i d) (sg_data ?s) m2" by metis
        from up obtain m2 where m2: "guard_update ?i (e_crc e) ver f m1 ?a = Some (f w, m2)" "cell_at ?i m2 ?a ?d"
          "changed_in ?a (csize ?i d) (sg_data ?s) m2" by blast
        have d: "ce_key ?d = ce_key d" "csize ?i ?d = csize ?i d" by (simp_all add: csize_def U64 item_size_def)
        let ?c' = "put_segments (?s\<lparr>sg_data := m2\<rparr>) ?c" and ?g = "with_cell x pos ?d g"
        have "cache_inv e ?c' ?g" using cinv_write [OF c1 h(1,2) m2(3,2) d] by (simp add: cache_inv_def)
        moreover have "numeric_step e k f c = Some (Inl (Inr (f w), ?c'))" using step ttl ne m1 m2(1) by simp
        moreover have "content ?g = (content g)(k \<mapsto> (x, ?d))" using content_with_cell [OF ci h(1,2)] h(3,4) by simp
        ultimately show thesis using that q xd h(1) ne U64 by (simp add: updated_def)
      qed
    qed
  qed
qed

text \<open>
  The numeric operations. Each returns. On an integer the cache holds, under a key not past its expiry, the result is
  the new value, which is the wrapped sum or the difference bounded at zero, and the content changes at that key only, to
  the new value with the same optional data, in the same segment. A byte value is refused as not numeric and a key that
  is missing or past its expiry as not found; then the content stays.
\<close>

lemma numeric_content:
  assumes "models e c A"
  shows "(\<exists>r c' A'. segcache_wrapping_add e k rhs c = Some (r, c') \<and> same_config c c' \<and> stamp (sc_segments c') = stamp (sc_segments c)
        \<and> models e c' A' \<and> updated e (\<lambda>v. v + rhs) k (sc_segments c) A r A')
    \<and> (\<exists>r c' A'. segcache_saturating_sub e k rhs c = Some (r, c') \<and> same_config c c' \<and> stamp (sc_segments c') = stamp (sc_segments c)
        \<and> models e c' A' \<and> updated e (\<lambda>v. if v \<ge> rhs then v - rhs else 0) k (sc_segments c) A r A')"
proof -
  from assms obtain g where g: "cache_inv e c g" "quiescent g" "A = content g"
    and rk: "ranking_ok (length (sg_headers (sc_segments c))) (sc_evict c)" by (auto simp: models_def)
  have "\<exists>r c' A'. numeric_update e k f c = Some (r, c') \<and> same_config c c' \<and> stamp (sc_segments c') = stamp (sc_segments c)
        \<and> models e c' A' \<and> updated e f k (sc_segments c) A r A'" for f
  proof -
    from numeric_step_eval [OF g(1,2), of k f] obtain r c' g' where
      r: "numeric_step e k f c = Some (Inl (r, c'))" "cache_inv e c' g'" "quiescent g'"
      "updated e f k (sc_segments c) (content g) r (content g')" "sc_evict c' = sc_evict c"
      "sg_headers (sc_segments c') = sg_headers (sc_segments c)" "sg_segment_size (sc_segments c') = sg_segment_size (sc_segments c)" by metis
    have "models e c' (content g')" unfolding models_def using r(2,3,5,6) rk by (intro conjI exI [of _ g']) simp_all
    moreover have "same_config c c'" using r(5,7) by (simp add: same_config_def)
    moreover have "stamp (sc_segments c') = stamp (sc_segments c)" using r(6) by (simp add: stamp_def fun_eq_iff header_of_def)
    moreover have "numeric_update e k f c = Some (r, c')" unfolding numeric_update_def by (subst iterate.simps) (simp add: r(1))
    ultimately show ?thesis using r(4) g(3) by blast
  qed
  moreover have "(\<lambda>v. saturating_sub v rhs) = (\<lambda>v. if v \<ge> rhs then v - rhs else 0)" by (simp add: fun_eq_iff saturating_sub_def)
  ultimately show ?thesis by (simp add: segcache_wrapping_add_def segcache_saturating_sub_def)
qed

end
