(* ===== verification/CacheSpec.thy ===== *)
theory CacheSpec
  imports CacheNew CacheInsert CacheUpdate
begin

unbundle bit_operations_syntax

text \<open>
  The cache as a whole: each operation on a cache that holds a content, under the policies that drop whole segments, and
  any sequence of operations from a new cache, which refines an abstract store whose segments expire and may be dropped.
\<close>

section \<open>The client's view\<close>

text \<open>
  An abstract store: what each key has, with the segment it is in, and when each segment was linked and with which TTL. A
  key whose segment is past its expiry is not seen.
\<close>

record store =
  st_items :: "u8 list \<Rightarrow> (u32 \<times> cache_value \<times> u8 list) option"
  st_stamp :: "u32 \<Rightarrow> (u32 \<times> u32) option"

definition past :: "env \<Rightarrow> store \<Rightarrow> u32 \<Rightarrow> bool" where
  "past e M x = (case st_stamp M x of None \<Rightarrow> False | Some (created, ttl) \<Rightarrow> ttl \<noteq> 0 \<and> e_after e created ttl \<le> e_now e)"

definition is_due :: "env \<Rightarrow> store \<Rightarrow> u32 \<Rightarrow> bool" where
  "is_due e M x = (case st_stamp M x of None \<Rightarrow> False | Some (created, ttl) \<Rightarrow> e_after e created ttl \<le> e_now e)"

definition seen :: "env \<Rightarrow> store \<Rightarrow> u8 list \<Rightarrow> (u32 \<times> cache_value \<times> u8 list) option" where
  "seen e M k = (case st_items M k of None \<Rightarrow> None | Some (x, v) \<Rightarrow> if past e M x then None else Some (x, v))"

definition put_item :: "u8 list \<Rightarrow> u32 \<times> cache_value \<times> u8 list \<Rightarrow> store \<Rightarrow> store" where
  "put_item k v M = M\<lparr>st_items := (st_items M)(k \<mapsto> v)\<rparr>"

definition drop_segs :: "u32 set \<Rightarrow> store \<Rightarrow> store" where
  "drop_segs D M = M\<lparr>st_items := (\<lambda>k. case st_items M k of None \<Rightarrow> None | Some (x, v) \<Rightarrow> if x \<in> D then None else Some (x, v))\<rparr>"

datatype cache_op =
    OpGet "u8 list" bool | OpInsert "u8 list" cache_value "u8 list option" nat | OpDelete "u8 list"
  | OpAdd "u8 list" u64 | OpSub "u8 list" u64 | OpExpire | OpClear

text \<open>The result of an insert also says whether a segment was free before it, and whether the table has no slot left for its key after it.\<close>

datatype cache_result =
    RGet "(cache_value \<times> u8 list) option" | RInsert bool bool "segcache_error + unit" | RDelete bool | RNumeric "segcache_error + u64" | RCount nat

definition given :: "u8 list option \<Rightarrow> u8 list" where
  "given o' = (case o' of None \<Rightarrow> [] | Some b \<Rightarrow> b)"

text \<open>An operation of a client that reads an item it gets and drops it.\<close>

definition read_item :: "env \<Rightarrow> item option \<times> segcache \<Rightarrow> (cache_result \<times> segcache) option" where
  "read_item e ic = (case ic of
       (None, c) \<Rightarrow> Some (RGet None, c)
     | (Some it, c) \<Rightarrow> do {
         v \<leftarrow> sc_item_value e it c;
         o' \<leftarrow> sc_item_optional e it c;
         c \<leftarrow> item_drop e it c;
         Some (RGet (Some (v, given o')), c) })"

fun run_op :: "env \<times> cache_op \<Rightarrow> segcache \<Rightarrow> (cache_result \<times> segcache) option" where
  "run_op (e, OpGet k fr) c = Option.bind (get_pinned e k fr c) (read_item e)"
| "run_op (e, OpInsert k v o' ttl) c = map_option (\<lambda>(r, c').
     (RInsert (sg_free_queue (sc_segments c) \<noteq> []) (choices_full k (sc_hashtable c')) r, c')) (segcache_insert e k v o' ttl c)"
| "run_op (e, OpDelete k) c = map_option (apfst RDelete) (segcache_delete e k c)"
| "run_op (e, OpAdd k n) c = map_option (apfst RNumeric) (segcache_wrapping_add e k n c)"
| "run_op (e, OpSub k n) c = map_option (apfst RNumeric) (segcache_saturating_sub e k n c)"
| "run_op (e, OpExpire) c = map_option (apfst RCount) (segcache_expire e c)"
| "run_op (e, OpClear) c = map_option (apfst RCount) (segcache_clear e c)"

text \<open>What the operations do to the store.\<close>

definition numeric_spec :: "env \<Rightarrow> (u64 \<Rightarrow> u64) \<Rightarrow> u8 list \<Rightarrow> store \<Rightarrow> (segcache_error + u64) \<Rightarrow> store \<Rightarrow> bool" where
  "numeric_spec e f k M r M' \<longleftrightarrow> (case seen e M k of
      None \<Rightarrow> r = Inl NotFound \<and> M' = M
    | Some (x, Bytes _, _) \<Rightarrow> r = Inl NotNumeric \<and> M' = M
    | Some (x, U64 w, o') \<Rightarrow> r = Inr (f w) \<and> M' = put_item k (x, U64 (f w), o') M)"

text \<open>A segment is ready for an item of a TTL: it was, or it holds nothing and is linked now.\<close>

definition opened :: "env \<Rightarrow> nat \<Rightarrow> u32 \<Rightarrow> store \<Rightarrow> store \<Rightarrow> bool" where
  "opened e ttl x M M' \<longleftrightarrow> M' = M
     \<or> M' = M\<lparr>st_stamp := (st_stamp M)(x \<mapsto> (e_now e, of_nat (bucket_ttls ! get_bucket_index (coarse_ttl ttl))))\<rparr>
       \<and> (\<forall>k v. st_items M k \<noteq> Some (x, v))"

text \<open>The segments an insert may drop: any that are past their expiry, and a few others.\<close>

definition few_alive :: "env \<Rightarrow> store \<Rightarrow> u32 set \<Rightarrow> bool" where
  "few_alive e M D \<longleftrightarrow> card {x \<in> D. \<not> is_due e M x} \<le> RESERVE_RETRIES"

definition insert_spec ::
  "i32 \<Rightarrow> env \<Rightarrow> u8 list \<Rightarrow> cache_value \<Rightarrow> u8 list \<Rightarrow> nat \<Rightarrow> store \<Rightarrow> bool \<Rightarrow> bool \<Rightarrow> (segcache_error + unit) \<Rightarrow> store \<Rightarrow> bool" where
  "insert_spec sz e k v opt ttl M free full r M' \<longleftrightarrow> (let n = item_size (e_integrity e) (length k) v (length opt) in
     if nat (sint sz) < n then r = Inl (SegItemOversized n) \<and> M' = M
     else \<exists>D x. few_alive e M D \<and> (free \<longrightarrow> D = {}) \<and> (case r of
         Inr _ \<Rightarrow> \<exists>M1 created. opened e ttl x (drop_segs D M) M1 \<and> M' = put_item k (x, v, opt) M1
           \<and> st_stamp M1 x = Some (created, of_nat (bucket_ttls ! get_bucket_index (coarse_ttl ttl)))
       | Inl err \<Rightarrow> err = SegNoFreeSegments \<and> \<not> free \<and> M' = drop_segs D M
           \<or> err = HashTableInsertEx \<and> full \<and> st_items M' k = None \<and> opened e ttl x (drop_segs D M) M'))"

fun kv_spec :: "i32 \<Rightarrow> env \<times> cache_op \<Rightarrow> store \<Rightarrow> cache_result \<Rightarrow> store \<Rightarrow> bool" where
  "kv_spec sz (e, OpGet k fr) M (RGet r) M' \<longleftrightarrow> r = map_option snd (seen e M k) \<and> M' = M"
| "kv_spec sz (e, OpInsert k v o' ttl) M (RInsert free full r) M' \<longleftrightarrow> insert_spec sz e k v (given o') ttl M free full r M'"
| "kv_spec sz (e, OpDelete k) M (RDelete r) M' \<longleftrightarrow>
     (r \<longleftrightarrow> seen e M k \<noteq> None) \<and> M' = (if r then M\<lparr>st_items := (st_items M)(k := None)\<rparr> else M)"
| "kv_spec sz (e, OpAdd k n) M (RNumeric r) M' \<longleftrightarrow> numeric_spec e (\<lambda>w. w + n) k M r M'"
| "kv_spec sz (e, OpSub k n) M (RNumeric r) M' \<longleftrightarrow> numeric_spec e (\<lambda>w. if w \<ge> n then w - n else 0) k M r M'"
| "kv_spec sz (e, OpExpire) M (RCount n) M' \<longleftrightarrow> (\<exists>D. M' = drop_segs D M \<and> (\<forall>x \<in> D. is_due e M x))"
| "kv_spec sz (e, OpClear) M (RCount n) M' \<longleftrightarrow> M' = M\<lparr>st_items := Map.empty\<rparr>"
| "kv_spec sz _ _ _ _ \<longleftrightarrow> False"

section \<open>Sequences of operations\<close>

fun run_ops :: "('o \<Rightarrow> 's \<Rightarrow> ('r \<times> 's) option) \<Rightarrow> 'o list \<Rightarrow> 's \<Rightarrow> ('r list \<times> 's) option" where
  "run_ops step [] s = Some ([], s)"
| "run_ops step (x # xs) s = do {
     (r, s) \<leftarrow> step x s;
     (rs, s) \<leftarrow> run_ops step xs s;
     Some (r # rs, s) }"

fun spec_runs :: "('o \<Rightarrow> 'm \<Rightarrow> 'r \<Rightarrow> 'm \<Rightarrow> bool) \<Rightarrow> 'o list \<Rightarrow> 'm \<Rightarrow> 'r list \<Rightarrow> 'm \<Rightarrow> bool" where
  "spec_runs spec [] m rs m' \<longleftrightarrow> rs = [] \<and> m' = m"
| "spec_runs spec (x # xs) m rs m' \<longleftrightarrow> (\<exists>r rs' m1. rs = r # rs' \<and> spec x m r m1 \<and> spec_runs spec xs m1 rs' m')"

text \<open>A deterministic component that returns from each permitted operation, and does what a specification allows.\<close>

locale op_simulation =
  fixes step :: "'o \<Rightarrow> 's \<Rightarrow> ('r \<times> 's) option"
    and spec :: "'o \<Rightarrow> 'm \<Rightarrow> 'r \<Rightarrow> 'm \<Rightarrow> bool"
    and rel :: "'s \<Rightarrow> 'm \<Rightarrow> bool"
    and ok :: "'o \<Rightarrow> bool"
  assumes simulates: "rel s m \<Longrightarrow> ok x \<Longrightarrow> \<exists>r s' m'. step x s = Some (r, s') \<and> spec x m r m' \<and> rel s' m'"
begin

lemma run_simulates:
  "rel s m \<Longrightarrow> list_all ok xs \<Longrightarrow> \<exists>rs s' m'. run_ops step xs s = Some (rs, s') \<and> spec_runs spec xs m rs m' \<and> rel s' m'"
proof (induction xs arbitrary: s m)
  case (Cons x xs)
  then obtain r s1 m1 where 1: "step x s = Some (r, s1)" "spec x m r m1" "rel s1 m1" using simulates by fastforce
  with Cons obtain rs s' m' where "run_ops step xs s1 = Some (rs, s')" "spec_runs spec xs m1 rs m'" "rel s' m'" by fastforce
  with 1 show ?case by (intro exI [of _ "r # rs"] exI [of _ s'] exI [of _ m']) auto
qed simp

end

section \<open>The simulation\<close>

lemma models_env: "e_integrity e' = e_integrity e \<Longrightarrow> models e' c A = models e c A"
  by (simp add: models_def cache_inv_def)

text \<open>The store a cache stands for: what it holds, and the stamps of its segments.\<close>

definition store_of :: "segments \<Rightarrow> content \<Rightarrow> store" where
  "store_of s A = \<lparr>st_items = (\<lambda>k. map_option (\<lambda>(x, d). (x, ce_value d, ce_opt d)) (A k)), st_stamp = stamp s\<rparr>"

text \<open>The cache represents a store, in segments of a given size, under a policy that drops whole segments.\<close>

definition serves :: "bool \<Rightarrow> i32 \<Rightarrow> segcache \<Rightarrow> store \<Rightarrow> bool" where
  "serves i sz c M \<longleftrightarrow> (\<exists>A. (\<forall>e. e_integrity e = i \<longrightarrow> models e c A) \<and> M = store_of (sc_segments c) A)
     \<and> sg_segment_size (sc_segments c) = sz \<and> drops_whole (ev_policy (sc_evict c))"

fun op_ok :: "bool \<Rightarrow> i32 \<Rightarrow> env \<times> cache_op \<Rightarrow> bool" where
  "op_ok i sz (e, OpInsert k v o' ttl) \<longleftrightarrow> e_integrity e = i \<and> raw_representable k v (given o')
     \<and> \<not> in_gap i sz (item_size i (length k) v (length (given o')))"
| "op_ok i sz (e, _) \<longleftrightarrow> e_integrity e = i"

lemma servesI: "models e c A \<Longrightarrow> same_config c0 c \<Longrightarrow> serves (e_integrity e) sz c0 M
  \<Longrightarrow> serves (e_integrity e) sz c (store_of (sc_segments c) A)"
  using models_env unfolding serves_def same_config_def by metis

lemma store_of_items: "st_items (store_of s A) k = map_option (\<lambda>(x, d). (x, ce_value d, ce_opt d)) (A k)" "st_stamp (store_of s A) = stamp s"
  by (simp_all add: store_of_def)

lemma store_of_stamp: "stamp s' = stamp s \<Longrightarrow> store_of s' A = store_of s A"
  by (simp add: store_of_def)

lemma store_of_restamp: "stamp s' = (stamp s)(x \<mapsto> t) \<Longrightarrow> store_of s' A = (store_of s A)\<lparr>st_stamp := (st_stamp (store_of s A))(x \<mapsto> t)\<rparr>"
  by (simp add: store_of_def)

lemma store_of_upd: "store_of s (A(k := None)) = (store_of s A)\<lparr>st_items := (st_items (store_of s A))(k := None)\<rparr>"
  "store_of s (A(k \<mapsto> (x, d))) = put_item k (x, ce_value d, ce_opt d) (store_of s A)"
  "store_of s (\<lambda>_. None) = (store_of s A)\<lparr>st_items := Map.empty\<rparr>"
  "store_of s (minus_segs D A) = drop_segs D (store_of s A)"
  by (auto simp: store_of_def put_item_def drop_segs_def minus_segs_def fun_eq_iff split: option.split)

lemma past_expired: "header_of s x = Some h \<Longrightarrow> past e (store_of s A) x = expired e h"
  by (simp add: past_def store_of_items stamp_def expired_def)

lemma seen_content: "seen e (store_of s A) k = (case A k of None \<Rightarrow> None
    | Some (x, d) \<Rightarrow> if past e (store_of s A) x then None else Some (x, ce_value d, ce_opt d))"
  by (auto simp: seen_def store_of_items split: option.split)

lemma drops_whole_merges: "drops_whole p \<Longrightarrow> \<not> merges p"
  by (cases p) simp_all

lemma numeric_kv:
  assumes u: "updated e f k s A r A'" and st: "stamp s' = stamp s"
  shows "numeric_spec e f k (store_of s A) r (store_of s' A')"
proof (cases "A k")
  case None
  then show ?thesis using u by (simp add: updated_def numeric_spec_def seen_content store_of_stamp [OF st])
next
  case (Some xd)
  then obtain x d where d: "A k = Some (x, d)" by (cases xd) simp
  with u obtain h where h: "header_of s x = Some h" by (auto simp: updated_def)
  show ?thesis
    using u d h by (cases "ce_value d")
      (auto simp: updated_def numeric_spec_def seen_content past_expired store_of_stamp [OF st] store_of_upd split: if_splits)
qed

lemma due_store: "due (e_after e) (Some (e_now e)) s = is_due e (store_of s A)"
  by (auto simp: due_def is_due_def store_of_items stamp_def fun_eq_iff split: option.split)

lemma opened_content:
  assumes "stamped_for e (coarse_ttl ttl) x A s s'"
  shows "opened e ttl x (store_of s A) (store_of s' A)"
  using assms store_of_stamp [of s' s A] store_of_restamp [of s' s x _ A]
  unfolding stamped_for_def opened_def by (auto simp: store_of_items)

definition simulated :: "env \<times> cache_op \<Rightarrow> bool \<Rightarrow> i32 \<Rightarrow> segcache \<Rightarrow> store \<Rightarrow> bool" where
  "simulated x i sz c M \<longleftrightarrow> (\<exists>r c' M'. run_op x c = Some (r, c') \<and> kv_spec sz x M r M' \<and> serves i sz c' M')"

lemma servesE:
  assumes "serves (e_integrity e) sz c M"
  obtains A where "models e c A" "M = store_of (sc_segments c) A" "drops_whole (ev_policy (sc_evict c))" "sg_segment_size (sc_segments c) = sz"
  using assms unfolding serves_def by blast

lemma simulatedI:
  "serves (e_integrity e) sz c M \<Longrightarrow> run_op (e, x) c = Some (r, c') \<Longrightarrow> models e c' A \<Longrightarrow> same_config c c'
   \<Longrightarrow> kv_spec sz (e, x) M r (store_of (sc_segments c') A) \<Longrightarrow> simulated (e, x) (e_integrity e) sz c M"
  unfolding simulated_def using servesI by blast

lemma sim_get:
  assumes s: "serves (e_integrity e) sz c M"
  shows "simulated (e, OpGet k fr) (e_integrity e) sz c M"
proof -
  from s obtain A where A: "models e c A" "M = store_of (sc_segments c) A" by (rule servesE)
  from get_content [OF A(1), of k fr] obtain r c' where g: "get_pinned e k fr c = Some (r, c')" "models e c' A" "same_config c c'"
    and o: "case A k of None \<Rightarrow> r = None \<and> sc_segments c' = sc_segments c
      | Some (x, d) \<Rightarrow> \<exists>h. header_of (sc_segments c) x = Some h \<and> ce_key d = k \<and> (if expired e h
        then r = None \<and> sc_segments c' = sc_segments c
        else \<exists>it c''. r = Some it \<and> it_seg it = x \<and> holds_item e c' it d
          \<and> item_drop e it c' = Some c'' \<and> sc_segments c'' = sc_segments c \<and> models e c'' A)" by blast
  show ?thesis
  proof (cases r)
    case None
    then have run: "run_op (e, OpGet k fr) c = Some (RGet None, c')" using g(1) by (simp add: read_item_def)
    have "seen e M k = None" "sc_segments c' = sc_segments c"
      using o None by (auto simp: A(2) seen_content past_expired split: option.splits if_splits)
    then show ?thesis using simulatedI [OF s run g(2,3)] by (simp add: A(2))
  next
    case (Some it)
    then obtain x d h c'' where d: "A k = Some (x, d)" "holds_item e c' it d" "item_drop e it c' = Some c''" "models e c'' A"
      "sc_segments c'' = sc_segments c" and h: "header_of (sc_segments c) x = Some h" "\<not> expired e h"
      using o by (auto split: option.splits if_splits)
    have cf: "same_config c c''" using g(3) d(3,5) by (auto simp: same_config_def item_drop_def drop_pin_def)
    have run: "run_op (e, OpGet k fr) c = Some (RGet (Some (ce_value d, ce_opt d)), c'')"
      using g(1) Some d(2,3) by (simp add: read_item_def holds_item_def given_def)
    have "seen e M k = Some (x, ce_value d, ce_opt d)" using d(1) h by (simp add: A(2) seen_content past_expired)
    then show ?thesis using simulatedI [OF s run d(4) cf] d(5) by (simp add: A(2))
  qed
qed

lemma insert_kv:
  assumes i: "inserted e \<lparr>ce_key = k, ce_value = v, ce_opt = given o'\<rparr> (coarse_ttl ttl) (sc_segments c) A r c' A'"
    and sz: "sg_segment_size (sc_segments c) = sz"
  shows "kv_spec sz (e, OpInsert k v o' ttl) (store_of (sc_segments c) A)
    (RInsert (sg_free_queue (sc_segments c) \<noteq> []) (choices_full k (sc_hashtable c')) r) (store_of (sc_segments c') A')"
proof -
  let ?d = "\<lparr>ce_key = k, ce_value = v, ce_opt = given o'\<rparr>" and ?s = "sc_segments c" and ?M = "store_of (sc_segments c) A"
  let ?n = "item_size (e_integrity e) (length k) v (length (given o'))"
  have n: "csize (e_integrity e) ?d = ?n" by (simp add: csize_def)
  from i [unfolded inserted_def n sz cell.select_convs] obtain D where D: "mostly_due e ?s RESERVE_RETRIES D" "sg_free_queue ?s \<noteq> [] \<longrightarrow> D = {}"
    and o: "case r of Inr _ \<Rightarrow> ?n \<le> nat (sint sz) \<and> (\<exists>x h. A' = (minus_segs D A)(k \<mapsto> (x, ?d))
            \<and> header_of (sc_segments c') x = Some h \<and> hd_ttl h = of_nat (bucket_ttls ! get_bucket_index (coarse_ttl ttl))
            \<and> stamped_for e (coarse_ttl ttl) x (minus_segs D A) ?s (sc_segments c'))
        | Inl err \<Rightarrow> A' = minus_segs D A
            \<and> (err = SegItemOversized ?n \<and> nat (sint sz) < ?n \<and> D = {} \<and> stamp (sc_segments c') = stamp ?s
              \<or> err = SegNoFreeSegments \<and> ?n \<le> nat (sint sz) \<and> sg_free_queue ?s = [] \<and> stamp (sc_segments c') = stamp ?s
              \<or> err = HashTableInsertEx \<and> ?n \<le> nat (sint sz) \<and> A' k = None
                \<and> (\<exists>x. stamped_for e (coarse_ttl ttl) x A' ?s (sc_segments c')) \<and> choices_full k (sc_hashtable c'))"
    by blast
  have few: "few_alive e ?M D" using D(1) by (simp add: few_alive_def mostly_due_def due_store [of e ?s A])
  show ?thesis
  proof (cases r)
    case (Inl err)
    then consider (big) "err = SegItemOversized ?n" "nat (sint sz) < ?n" "D = {}" "stamp (sc_segments c') = stamp ?s"
      | (none) "err = SegNoFreeSegments" "?n \<le> nat (sint sz)" "sg_free_queue ?s = []" "stamp (sc_segments c') = stamp ?s"
      | (full) x where "err = HashTableInsertEx" "?n \<le> nat (sint sz)" "A' k = None" "stamped_for e (coarse_ttl ttl) x A' ?s (sc_segments c')"
          "choices_full k (sc_hashtable c')" using o by auto
    then show ?thesis
    proof cases
      case big
      then show ?thesis using o Inl by (simp add: insert_spec_def store_of_stamp [OF big(4)] minus_segs_simps)
    next
      case none
      then show ?thesis using o Inl D(2) few by (auto simp: insert_spec_def store_of_stamp [OF none(4)] store_of_upd intro!: exI [of _ D])
    next
      case full
      have "opened e ttl x (drop_segs D ?M) (store_of (sc_segments c') A')"
        using opened_content [OF full(4)] o Inl by (simp add: store_of_upd)
      then show ?thesis using full D(2) few Inl by (auto simp: insert_spec_def store_of_items intro!: exI [of _ D] exI [of _ x])
    qed
  next
    case (Inr u)
    then obtain x h where x: "?n \<le> nat (sint sz)" "A' = (minus_segs D A)(k \<mapsto> (x, ?d))" "header_of (sc_segments c') x = Some h"
      "hd_ttl h = of_nat (bucket_ttls ! get_bucket_index (coarse_ttl ttl))"
      "stamped_for e (coarse_ttl ttl) x (minus_segs D A) ?s (sc_segments c')" using o by auto
    let ?M1 = "store_of (sc_segments c') (minus_segs D A)"
    have "opened e ttl x (drop_segs D ?M) ?M1" using opened_content [OF x(5)] by (simp add: store_of_upd)
    moreover have "store_of (sc_segments c') A' = put_item k (x, v, given o') ?M1" by (simp add: x(2) store_of_upd)
    moreover have "st_stamp ?M1 x = Some (hd_create_at h, of_nat (bucket_ttls ! get_bucket_index (coarse_ttl ttl)))"
      using x(3,4) by (simp add: store_of_items stamp_def)
    ultimately have ex: "\<exists>M1 created. opened e ttl x (drop_segs D ?M) M1 \<and> store_of (sc_segments c') A' = put_item k (x, v, given o') M1
        \<and> st_stamp M1 x = Some (created, of_nat (bucket_ttls ! get_bucket_index (coarse_ttl ttl)))" by blast
    have nn: "\<not> nat (sint sz) < ?n" using x(1) by simp
    have "(sg_free_queue ?s \<noteq> []) \<longrightarrow> D = {}" using D(2) by simp
    then show ?thesis using few ex unfolding kv_spec.simps insert_spec_def Let_def if_not_P [OF nn] Inr sum.case by blast
  qed
qed

lemma sim_insert:
  assumes s: "serves (e_integrity e) sz c M" and ok: "op_ok (e_integrity e) sz (e, OpInsert k v o' ttl)"
  shows "simulated (e, OpInsert k v o' ttl) (e_integrity e) sz c M"
proof -
  let ?d = "\<lparr>ce_key = k, ce_value = v, ce_opt = given o'\<rparr>"
  from s obtain A where A: "models e c A" "M = store_of (sc_segments c) A" "drops_whole (ev_policy (sc_evict c))"
    "sg_segment_size (sc_segments c) = sz" by (rule servesE)
  have "raw_representable (ce_key ?d) (ce_value ?d) (ce_opt ?d)" "\<not> in_gap (e_integrity e) (sg_segment_size (sc_segments c)) (csize (e_integrity e) ?d)"
    "ce_opt ?d = (case o' of Some b \<Rightarrow> b | None \<Rightarrow> [])" using ok A(4) by (simp_all add: csize_def given_def split: option.split)
  from insert_content [OF A(1,3) this, of ttl] obtain r c' A' where i: "segcache_insert e k v o' ttl c = Some (r, c')" "same_config c c'" "models e c' A'"
    "inserted e ?d (coarse_ttl ttl) (sc_segments c) A r c' A'" by auto
  have run: "run_op (e, OpInsert k v o' ttl) c
      = Some (RInsert (sg_free_queue (sc_segments c) \<noteq> []) (choices_full k (sc_hashtable c')) r, c')" using i(1) by simp
  show ?thesis by (rule simulatedI [OF s run i(3,2)]) (use insert_kv [OF i(4) A(4)] A(2) in simp)
qed

lemma sim_delete:
  assumes s: "serves (e_integrity e) sz c M"
  shows "simulated (e, OpDelete k) (e_integrity e) sz c M"
proof -
  from s obtain A where A: "models e c A" "M = store_of (sc_segments c) A" "drops_whole (ev_policy (sc_evict c))" by (rule servesE)
  from delete_content [OF A(1) drops_whole_merges [OF A(3)], of k] obtain r c' where d: "segcache_delete e k c = Some (r, c')" "same_config c c'"
    and st: "stamp (sc_segments c') = stamp (sc_segments c)"
    and o: "case A k of None \<Rightarrow> \<not> r \<and> c' = c | Some (x, d) \<Rightarrow> \<exists>h. header_of (sc_segments c) x = Some h
        \<and> (if expired e h then \<not> r \<and> c' = c else r \<and> models e c' (A(k := None)))" by blast
  have run: "run_op (e, OpDelete k) c = Some (RDelete r, c')" using d(1) by simp
  have r: "r \<longleftrightarrow> seen e M k \<noteq> None" using o by (auto simp: A(2) seen_content past_expired split: option.splits if_splits)
  show ?thesis
  proof (cases r)
    case True
    then have "models e c' (A(k := None))" using o by (auto split: option.splits if_splits)
    from simulatedI [OF s run this d(2)] r True show ?thesis by (simp add: A(2) store_of_stamp [OF st] store_of_upd)
  next
    case False
    then have "models e c' A" "c' = c" using o A(1) by (auto split: option.splits if_splits)
    from simulatedI [OF s run this(1) d(2)] r False this(2) show ?thesis by (simp add: A(2))
  qed
qed

lemma sim_numeric:
  assumes s: "serves (e_integrity e) sz c M"
  shows "simulated (e, OpAdd k n) (e_integrity e) sz c M" "simulated (e, OpSub k n) (e_integrity e) sz c M"
proof -
  from s obtain A where A: "models e c A" "M = store_of (sc_segments c) A" by (rule servesE)
  note u = numeric_content [OF A(1), of k n]
  from u obtain r c' A' where "segcache_wrapping_add e k n c = Some (r, c')" "same_config c c'" "models e c' A'"
    "stamp (sc_segments c') = stamp (sc_segments c)" "updated e (\<lambda>v. v + n) k (sc_segments c) A r A'" by blast
  then show "simulated (e, OpAdd k n) (e_integrity e) sz c M"
    using numeric_kv by (intro simulatedI [OF s, of _ "RNumeric r" c' A']) (simp_all add: A(2))
  from u obtain r c' A' where "segcache_saturating_sub e k n c = Some (r, c')" "same_config c c'" "models e c' A'"
    "stamp (sc_segments c') = stamp (sc_segments c)" "updated e (\<lambda>v. if v \<ge> n then v - n else 0) k (sc_segments c) A r A'" by blast
  then show "simulated (e, OpSub k n) (e_integrity e) sz c M"
    using numeric_kv by (intro simulatedI [OF s, of _ "RNumeric r" c' A']) (simp_all add: A(2))
qed

lemma sim_expire:
  assumes s: "serves (e_integrity e) sz c M"
  shows "simulated (e, OpExpire) (e_integrity e) sz c M"
proof -
  from s obtain A where A: "models e c A" "M = store_of (sc_segments c) A" by (rule servesE)
  from expire_content [OF A(1)] obtain n c' D where x: "segcache_expire e c = Some (n, c')" "same_config c c'" "models e c' (minus_segs D A)"
    "stamp (sc_segments c') = stamp (sc_segments c)" "\<forall>x \<in> D. due (e_after e) (Some (e_now e)) (sc_segments c) x"
    using A(1) by (metis minus_segs_simps(1) empty_iff)
  have "\<forall>x \<in> D. is_due e M x" using x(5) unfolding due_store [of e "sc_segments c" A] A(2) .
  then have "kv_spec sz (e, OpExpire) M (RCount n) (store_of (sc_segments c') (minus_segs D A))"
    by (auto simp: store_of_stamp [OF x(4)] store_of_upd A(2))
  then show ?thesis by (intro simulatedI [OF s, of OpExpire "RCount n", OF _ x(3,2)]) (simp_all add: x(1))
qed

lemma sim_clear:
  assumes s: "serves (e_integrity e) sz c M"
  shows "simulated (e, OpClear) (e_integrity e) sz c M"
proof -
  from s obtain A where A: "models e c A" "M = store_of (sc_segments c) A" by (rule servesE)
  from clear_content [OF A(1)] obtain n c' where x: "segcache_clear e c = Some (n, c')" "same_config c c'" "models e c' (\<lambda>_. None)"
    "stamp (sc_segments c') = stamp (sc_segments c)" by blast
  show ?thesis by (rule simulatedI [OF s, of OpClear "RCount n", OF _ x(3,2)])
    (simp_all add: x(1) store_of_stamp [OF x(4)] store_of_upd(3) [of _ A] A(2))
qed

interpretation seg_ops: op_simulation run_op "kv_spec sz" "serves i sz" "op_ok i sz" for i sz
proof
  fix c M x assume s: "serves i sz c M" and ok: "op_ok i sz x"
  obtain e y where x: "x = (e, y)" by force
  have i: "i = e_integrity e" using ok x by (cases y) simp_all
  have "simulated x i sz c M"
    using s ok unfolding x i by (cases y) (simp_all only: sim_get sim_insert sim_delete sim_numeric sim_expire sim_clear)
  then show "\<exists>r s' m'. run_op x c = Some (r, s') \<and> kv_spec sz x M r m' \<and> serves i sz s' m'" by (simp only: simulated_def)
qed

section \<open>A small cache\<close>

text \<open>Two segments of 64 bytes, at the start of the clock, and one item in the first.\<close>

definition demo_env :: env where
  "demo_env = \<lparr>e_integrity = True, e_crc = (\<lambda>bs. of_nat (length bs)), e_now = 0,
     e_after = (\<lambda>t d. of_nat (min (2 ^ 32 - 1) (unat t + unat d))), e_since = (\<lambda>a b. a - b)\<rparr>"

definition demo_config :: builder where
  "demo_config = \<lparr>bd_hash_power = 7, bd_heap_size = 128, bd_segment_size = 64, bd_policy = PolicyRandom, bd_seed = None\<rparr>"

definition demo_segcache :: segcache where
  "demo_segcache = (case segcache_build True 0 0 (\<lambda>_ _ _ _ k. of_nat (length k)) (\<lambda>_ _. 0) demo_config of Some (Inr c) \<Rightarrow> c)"

definition demo_item :: cell where
  "demo_item = \<lparr>ce_key = [107], ce_value = U64 7, ce_opt = []\<rparr>"

lemma demo_segcache_built:
  "segcache_build True 0 0 (\<lambda>_ _ _ _ k. of_nat (length k)) (\<lambda>_ _. 0) demo_config = Some (Inr demo_segcache)"
proof -
  have "hashtable_new (\<lambda>_ _ _ _ k. of_nat (length k)) 7 \<noteq> None" by (simp add: hashtable_new_def with_choices_def Let_def MAX_CHOICES_def)
  moreover have "\<exists>s. segments_build True 0 (\<lambda>(_ :: f64) _. 0) 128 64 PolicyRandom = Inr s"
    by (simp add: segments_build_def segments_from_builder_def Let_def ITEM_HDR_SIZE_def MAX_SEGMENT_BYTES_eq MAX_SEGMENTS_eq)
  ultimately show ?thesis unfolding demo_segcache_def by (auto simp: segcache_build_def demo_config_def)
qed

lemma demo_segcache_facts:
  "models demo_env demo_segcache (\<lambda>_. None)" "ev_policy (sc_evict demo_segcache) = PolicyRandom"
  "sg_segment_size (sc_segments demo_segcache) = 64" "sg_free_queue (sc_segments demo_segcache) = [1, 2]"
proof -
  show "models demo_env demo_segcache (\<lambda>_. None)"
    by (rule new_cache_models [OF demo_segcache_built]) (simp_all add: demo_config_def demo_env_def)
  have s: "segments_build True 0 (\<lambda>(_ :: f64) _. 0) 128 64 PolicyRandom = Inr (sc_segments demo_segcache)"
    and ev: "sc_evict demo_segcache = eviction_new 0 (unat (sg_cap (sc_segments demo_segcache))) PolicyRandom None"
    by (rule segcache_build_parts [OF demo_segcache_built], simp add: demo_config_def)+
  show "ev_policy (sc_evict demo_segcache) = PolicyRandom" by (simp add: ev eviction_new_def)
  have "built_ids 2 = [1, 2]" by (simp add: built_ids_def upt_conv_Cons)
  then show "sg_segment_size (sc_segments demo_segcache) = 64" "sg_free_queue (sc_segments demo_segcache) = [1, 2]"
    using segments_build_built [OF s] by (simp_all add: built_def)
qed

lemma demo_item_facts:
  "raw_representable (ce_key demo_item) (ce_value demo_item) (ce_opt demo_item)" "\<not> in_gap True 64 (csize True demo_item)"
  "csize True demo_item = 40"
proof -
  show "raw_representable (ce_key demo_item) (ce_value demo_item) (ce_opt demo_item)" by (simp add: demo_item_def raw_representable_def)
  show sz: "csize True demo_item = 40" by code_simp
  show "\<not> in_gap True 64 (csize True demo_item)" by (simp add: sz in_gap_def initial_offset_def)
qed

lemma demo_after: "e_after demo_env t 56 \<noteq> 0"
proof -
  let ?n = "min (2 ^ 32 - 1) (unat t + unat (56 :: u32))"
  have "?n \<noteq> 0" "?n < 2 ^ 32" by (auto simp: min_def)
  then have "unat (of_nat ?n :: u32) = ?n" by (simp only: unat_of_nat) (simp add: take_bit_nat_eq_self)
  then have "(of_nat ?n :: u32) \<noteq> 0" using \<open>?n \<noteq> 0\<close> by (metis unat_0)
  then show ?thesis by (simp add: demo_env_def)
qed

lemma demo_ttl: "of_nat (bucket_ttls ! get_bucket_index (coarse_ttl 60)) = (56 :: u32)"
proof -
  have "get_bucket_index (coarse_ttl 60) = 7" by (simp add: get_bucket_index_def coarse_ttl_def bucket_index_eq)
  moreover have "bucket_ttls ! 7 = 56" using tier_nth(1) [of 7] by simp
  ultimately show ?thesis by simp
qed

lemma demo_fresh: "hd_ttl h = 56 \<Longrightarrow> \<not> expired demo_env h"
  using demo_after [of "hd_create_at h"] by (simp add: expired_def) (simp add: demo_env_def)

text \<open>The item is inserted: the table is empty, so it has room.\<close>

lemma demo_insert:
  obtains c x h where "segcache_insert demo_env [107] (U64 7) None 60 demo_segcache = Some (Inr (), c)" "models demo_env c [[107] \<mapsto> (x, demo_item)]"
    "header_of (sc_segments c) x = Some h" "\<not> expired demo_env h" "ev_policy (sc_evict c) = PolicyRandom" "sg_segment_size (sc_segments c) = 64"
proof -
  note f = demo_segcache_facts and d = demo_item_facts
  have i: "e_integrity demo_env = True" by (simp add: demo_env_def)
  have k: "ce_key demo_item = [107]" "ce_value demo_item = U64 7" "ce_opt demo_item = []" by (simp_all add: demo_item_def)
  from insert_content [OF f(1), of demo_item None 60] d f(2,3) i k obtain r c A' where
    r: "segcache_insert demo_env [107] (U64 7) None 60 demo_segcache = Some (r, c)" "same_config demo_segcache c" "models demo_env c A'"
      "inserted demo_env demo_item (coarse_ttl 60) (sc_segments demo_segcache) (\<lambda>_. None) r c A'" by auto
  have m: "minus_segs D (\<lambda>_. None) = (\<lambda>_. None)" for D by (simp add: minus_segs_def fun_eq_iff)
  obtain u where u: "r = Inr u"
  proof (cases r)
    case (Inl err)
    then have A': "A' = (\<lambda>_. None)" and full: "choices_full [107] (sc_hashtable c)"
      using r(4) d(3) f(3,4) by (auto simp: inserted_def m k i)
    from r(3) obtain g where g: "cinv True (sc_segments c) (sc_hashtable c) (tt_buckets (sc_ttl_buckets c)) g" "content g = (\<lambda>_. None)"
      unfolding A' models_def cache_inv_def i by auto
    then have "g_map g = (\<lambda>_. None)" using content_None [OF g(1)] by (simp add: fun_eq_iff)
    then have "cached (key_in (sc_segments c) (g_items g)) (sc_hashtable c) (\<lambda>_. None)" using cinv_parts(3) [OF g(1)] by simp
    then show thesis using cached_empty_room full by blast
  qed
  then obtain x h where x: "A' = [[107] \<mapsto> (x, demo_item)]" "header_of (sc_segments c) x = Some h"
    "hd_ttl h = of_nat (bucket_ttls ! get_bucket_index (coarse_ttl 60))" using r(4) by (auto simp: inserted_def m k i)
  from demo_fresh [of h] x(3) demo_ttl show thesis
    using that r(1-3) x(1,2) u f(2,3) by (auto simp: same_config_def)
qed

section \<open>Properties\<close>



text \<open>
  C1. The cache refines a store with expiry, under a policy that drops whole segments and for inserts whose key, value and
  optional data the item format can represent and whose size is not one of those that pass the size check but fit no
  segment beside its magic bytes (for the items left out see the key length and the exhaustion of a bucket); with the
  integrity feature segments have at least 24 bytes. From a new cache, every sequence of gets, such inserts, deletes,
  numeric operations, expiries and clears returns, at any clock, without a panic, an access outside the item memory or an endless loop. Its results are those of an abstract store, which
  has for each key the value, the optional data and the segment, and for each segment when it was linked and its TTL:
  a get returns exactly the value of a key whose segment is not past its expiry, and nothing otherwise; a delete removes
  exactly such a key and tells whether there was one; a numeric operation computes on the integer of such a key, and is
  refused as not found or not numeric otherwise; an expiry drops whole segments that are past their expiry, and nothing
  else; a clear drops everything. An insert too large for a segment changes nothing. Any other drops nothing while a
  segment is free, and otherwise whole segments, of which at most \<^verbatim>\<open>RESERVE_RETRIES\<close> are not past their expiry; it sets the key
  in a segment stamped with the TTL of its bucket, that was open or held nothing and is linked now; it fails only when
  no segment was free, or when the table has no slot left for the key, which then has no item. Nothing else changes the
  store, and the cache stands for it at the end.
\<close>

theorem segcache_refines_map:
  assumes "segcache_build i d now ws adm bd = Some (Inr c)" and "i \<Longrightarrow> 24 \<le> sint (bd_segment_size bd)"
    and "drops_whole (bd_policy bd)" and "list_all (op_ok i (bd_segment_size bd)) ops"
  shows "\<exists>rs c' M. run_ops run_op ops c = Some (rs, c') \<and> serves i (bd_segment_size bd) c' M
    \<and> spec_runs (kv_spec (bd_segment_size bd)) ops \<lparr>st_items = Map.empty, st_stamp = stamp (sc_segments c)\<rparr> rs M"
proof -
  have cf: "sg_segment_size (sc_segments c) = bd_segment_size bd" "ev_policy (sc_evict c) = bd_policy bd"
    using new_cache_configured [OF assms(1)] by (simp_all add: as_configured_def)
  have "store_of (sc_segments c) (\<lambda>_. None) = \<lparr>st_items = Map.empty, st_stamp = stamp (sc_segments c)\<rparr>" by (simp add: store_of_def)
  then have "serves i (bd_segment_size bd) c \<lparr>st_items = Map.empty, st_stamp = stamp (sc_segments c)\<rparr>"
    using new_cache_models [OF assms(1,2)] assms(3) cf unfolding serves_def by (intro conjI exI [of _ "\<lambda>_. None"]) auto
  from seg_ops.run_simulates [OF this assms(4)] show ?thesis by blast
qed

theorem segcache_refines_map_witness:
  "\<exists>full c'. run_ops run_op [(demo_env, OpInsert [107] (U64 7) None 60), (demo_env, OpGet [107] True)] demo_segcache
     = Some ([RInsert True full (Inr ()), RGet (Some (U64 7, []))], c')"
proof -
  let ?ops = "[(demo_env, OpInsert [107] (U64 7) None 60), (demo_env, OpGet [107] True)]"
  obtain c where c: "segcache_insert demo_env [107] (U64 7) None 60 demo_segcache = Some (Inr (), c)" by (rule demo_insert)
  have pre: "True \<Longrightarrow> 24 \<le> sint (bd_segment_size demo_config)" "drops_whole (bd_policy demo_config)" by (simp_all add: demo_config_def)
  have "list_all (op_ok True (bd_segment_size demo_config)) ?ops"
    using demo_item_facts by (simp add: demo_env_def demo_config_def given_def demo_item_def csize_def)
  from segcache_refines_map [OF demo_segcache_built pre this] obtain rs c' M where
    r: "run_ops run_op ?ops demo_segcache = Some (rs, c')" and sp: "spec_runs (kv_spec (bd_segment_size demo_config)) ?ops
      \<lparr>st_items = Map.empty, st_stamp = stamp (sc_segments demo_segcache)\<rparr> rs M" by blast
  from sp obtain r1 r2 M1 where rs: "rs = [r1, r2]" "kv_spec (bd_segment_size demo_config) (demo_env, OpInsert [107] (U64 7) None 60)
      \<lparr>st_items = Map.empty, st_stamp = stamp (sc_segments demo_segcache)\<rparr> r1 M1"
    "kv_spec (bd_segment_size demo_config) (demo_env, OpGet [107] True) M1 r2 M" by auto
  have r1: "r1 = RInsert True (choices_full [107] (sc_hashtable c)) (Inr ())"
    using r c demo_segcache_facts(4) by (auto simp: rs(1) split: Option.bind_splits)
  then obtain x M0 created where "M1 = put_item [107] (x, U64 7, []) M0" "st_stamp M0 x = Some (created, 56)"
    using rs(2) demo_ttl by (auto simp: insert_spec_def Let_def given_def split: if_splits)
  then have "seen demo_env M1 [107] = Some (x, U64 7, [])"
    using demo_after [of created] by (simp add: seen_def put_item_def past_def) (simp add: demo_env_def)
  then have "r2 = RGet (Some (U64 7, []))" using rs(3) by (cases r2) simp_all
  then show ?thesis using r by (simp add: rs(1) r1)
qed

text \<open>
  C3. A get answers from what the cache holds, with or without counting the access: it returns for a cache with content
  \<open>A\<close>, and leaves the content as it was. A key the cache does not hold and a key whose segment is past its expiry give no
  item. Any other key gives an item that reads back the key, value and optional data the cache holds for it, and whose
  drop restores the segment store.
\<close>

theorem get_serves_content:
  assumes "models e c A"
  shows "\<exists>r c'. get_pinned e k fr c = Some (r, c') \<and> models e c' A \<and> same_config c c' \<and> (case A k of
      None \<Rightarrow> r = None \<and> sc_segments c' = sc_segments c
    | Some (x, d) \<Rightarrow> \<exists>h. header_of (sc_segments c) x = Some h \<and> ce_key d = k \<and> (if expired e h
        then r = None \<and> sc_segments c' = sc_segments c
        else \<exists>it c''. r = Some it \<and> it_seg it = x \<and> holds_item e c' it d
          \<and> item_drop e it c' = Some c'' \<and> sc_segments c'' = sc_segments c \<and> models e c'' A))"
  by (rule get_content [OF assms])

theorem get_serves_content_witness:
  "\<exists>c it c'. get_pinned demo_env [107] True c = Some (Some it, c') \<and> sc_item_value demo_env it c' = Some (U64 7)"
proof -
  obtain c x h where c: "models demo_env c [[107] \<mapsto> (x, demo_item)]" "header_of (sc_segments c) x = Some h" "\<not> expired demo_env h"
    by (rule demo_insert)
  from get_serves_content [OF c(1), of "[107]" True] c(2,3) obtain it c' where
    "get_pinned demo_env [107] True c = Some (Some it, c')" "holds_item demo_env c' it demo_item" by auto
  then show ?thesis by (auto simp: holds_item_def demo_item_def)
qed

text \<open>
  C2. An insert, under a policy that drops whole segments (none, random, random FIFO, FIFO, closest to expiry and least
  utilised; not S3-FIFO and not merge), of a key, value and optional data that the item format can represent, and of a size
  outside the gap: with the integrity feature, a size that passes the size check but does not fit a segment beside its
  magic bytes is left out, since such an insert links, evicts and retries as the exhaustion of a bucket shows. It returns.
  On success the key has exactly the new item, in a segment stamped with the TTL of the bucket its TTL belongs to, which was
  open or held nothing and is linked now; for a TTL of zero that is the last bucket, whose TTL is finite. A failed insert
  leaves the key as it was or dropped. The only items lost besides the one replaced are those of segments that were past
  their expiry or not pinned by a reader, at most \<^verbatim>\<open>RESERVE_RETRIES\<close> of them not past their expiry, and none is lost while a
  free segment is left; no other segment changes its stamp. It fails only for an item larger than a segment, when no
  segment is free, or when every slot the key can take in the hashtable holds a live entry.
\<close>

theorem insert_updates_content:
  assumes "models e c A" and "drops_whole (ev_policy (sc_evict c))"
    and "raw_representable key v (given opt)"
    and "\<not> in_gap (e_integrity e) (sg_segment_size (sc_segments c)) (item_size (e_integrity e) (length key) v (length (given opt)))"
  shows "\<exists>r c' A'. segcache_insert e key v opt ttl c = Some (r, c') \<and> same_config c c' \<and> models e c' A'
    \<and> inserted e \<lparr>ce_key = key, ce_value = v, ce_opt = given opt\<rparr> (coarse_ttl ttl) (sc_segments c) A r c' A'"
  using insert_content [OF assms(1,2), of "\<lparr>ce_key = key, ce_value = v, ce_opt = given opt\<rparr>" opt ttl] assms(3,4)
  by (simp add: csize_def given_def split: option.splits)

theorem insert_updates_content_witness:
  "\<exists>r c' A'. segcache_insert demo_env [107] (U64 7) None 60 demo_segcache = Some (r, c') \<and> models demo_env c' A'
    \<and> inserted demo_env demo_item (coarse_ttl 60) (sc_segments demo_segcache) (\<lambda>_. None) r c' A'"
  using insert_updates_content [OF demo_segcache_facts(1), of "[107]" "U64 7" None 60] demo_segcache_facts demo_item_facts
  by (auto simp: demo_item_def given_def csize_def demo_env_def)

text \<open>
  C4. Deletion, under every policy but merge (which may compact the segment it removes from, and the compaction drops an
  item that would fill its target exactly). It returns. A key the cache holds in a segment that is not past its expiry is deleted: the result is true
  and the content loses exactly that key, even when the removal empties a sealed segment and drops it. Any other key
  leaves the cache as it was, with the result false.
\<close>

theorem delete_removes_key:
  assumes "models e c A" and "\<not> merges (ev_policy (sc_evict c))"
  shows "\<exists>r c'. segcache_delete e k c = Some (r, c') \<and> same_config c c' \<and> (case A k of
      None \<Rightarrow> \<not> r \<and> c' = c
    | Some (x, d) \<Rightarrow> \<exists>h. header_of (sc_segments c) x = Some h
        \<and> (if expired e h then \<not> r \<and> c' = c else r \<and> models e c' (A(k := None))))"
  using delete_content [OF assms, of k] by blast

theorem delete_removes_key_witness:
  "\<exists>c c'. segcache_delete demo_env [107] c = Some (True, c') \<and> models demo_env c' (\<lambda>_. None)"
proof -
  obtain c x h where c: "models demo_env c [[107] \<mapsto> (x, demo_item)]" "header_of (sc_segments c) x = Some h" "\<not> expired demo_env h"
    "ev_policy (sc_evict c) = PolicyRandom" by (rule demo_insert)
  have m: "\<not> merges (ev_policy (sc_evict c))" using c(4) by simp
  have "([[107] \<mapsto> (x, demo_item)])([107] := None) = (\<lambda>_. None)" by simp
  with delete_removes_key [OF c(1) m, of "[107]"] c(2,3) show ?thesis by force
qed

text \<open>
  C5. The numeric operations. Each returns. On an integer the cache holds, under a key not past its expiry, the result is
  the new value, which is the wrapped sum or the difference bounded at zero, and the content changes at that key only, to
  the new value with the same optional data, in the same segment. A byte value is refused as not numeric and a key that
  is missing or past its expiry as not found; then the content stays.
\<close>

theorem numeric_updates_content:
  assumes "models e c A"
  shows "(\<exists>r c' A'. segcache_wrapping_add e k rhs c = Some (r, c') \<and> same_config c c' \<and> models e c' A'
        \<and> updated e (\<lambda>v. v + rhs) k (sc_segments c) A r A')
    \<and> (\<exists>r c' A'. segcache_saturating_sub e k rhs c = Some (r, c') \<and> same_config c c' \<and> models e c' A'
        \<and> updated e (\<lambda>v. if v \<ge> rhs then v - rhs else 0) k (sc_segments c) A r A')"
  using numeric_content [OF assms, of k rhs] by blast

theorem numeric_updates_content_witness:
  "\<exists>c c' x. segcache_wrapping_add demo_env [107] 3 c = Some (Inr 10, c') \<and> models demo_env c' [[107] \<mapsto> (x, demo_item\<lparr>ce_value := U64 10\<rparr>)]"
proof -
  obtain c x h where c: "models demo_env c [[107] \<mapsto> (x, demo_item)]" "header_of (sc_segments c) x = Some h" "\<not> expired demo_env h"
    by (rule demo_insert)
  have v: "ce_value demo_item = U64 7" by (simp add: demo_item_def)
  from numeric_updates_content [OF c(1), of "[107]" 3] obtain r c' A' where
    "segcache_wrapping_add demo_env [107] 3 c = Some (r, c')" "models demo_env c' A'"
    "updated demo_env (\<lambda>v. v + 3) [107] (sc_segments c) [[107] \<mapsto> (x, demo_item)] r A'" by blast
  then show ?thesis using c(2,3) v by (auto simp: updated_def)
qed

text \<open>
  C6. Expiry. Called at most once per reading of the clock, it returns, drops from the content exactly the items of some
  segments that are all past their expiry, keeps every other item, and stops in each bucket at a segment that is not due:
  no bucket starts with an expired segment after it.
\<close>

theorem expire_drops_due:
  assumes "models e c A"
  shows "\<exists>n c'. segcache_expire e c = Some (n, c') \<and> same_config c c' \<and> (if tt_last_expired (sc_ttl_buckets c) = e_now e then n = 0 \<and> c' = c
    else tt_last_expired (sc_ttl_buckets c') = e_now e
      \<and> (\<exists>D. models e c' (minus_segs D A) \<and> (\<forall>x \<in> D. due (e_after e) (Some (e_now e)) (sc_segments c) x))
      \<and> (\<forall>b \<in> set (tt_buckets (sc_ttl_buckets c')). \<forall>x. bucket_head b = Some x \<longrightarrow> \<not> due (e_after e) (Some (e_now e)) (sc_segments c') x))"
  using expire_content [OF assms] by blast

theorem expire_drops_due_witness:
  "\<exists>n c' D. segcache_expire (demo_env\<lparr>e_now := 5\<rparr>) demo_segcache = Some (n, c') \<and> tt_last_expired (sc_ttl_buckets c') = 5
    \<and> models (demo_env\<lparr>e_now := 5\<rparr>) c' (minus_segs D (\<lambda>_. None))"
proof -
  let ?e = "demo_env\<lparr>e_now := 5\<rparr>"
  have m: "models ?e demo_segcache (\<lambda>_. None)" using demo_segcache_facts(1) models_env [of ?e demo_env] by simp
  have "sc_ttl_buckets demo_segcache = ttl_buckets_new 0" by (rule segcache_build_parts [OF demo_segcache_built])
  then have "tt_last_expired (sc_ttl_buckets demo_segcache) \<noteq> e_now ?e" by (simp add: ttl_buckets_new_def)
  then show ?thesis using expire_drops_due [OF m] by auto
qed

text \<open>
  C7. Clearing. It returns, the cache is empty after it, and no bucket holds a segment: each segment is in a free queue
  again, or waits for the readers that still hold it.
\<close>

theorem clear_empties:
  assumes "models e c A"
  shows "\<exists>n c'. segcache_clear e c = Some (n, c') \<and> same_config c c' \<and> models e c' (\<lambda>_. None)
    \<and> (\<forall>b \<in> set (tt_buckets (sc_ttl_buckets c')). bucket_head b = None)
    \<and> (\<forall>x h. header_of (sc_segments c') x = Some h \<longrightarrow> x \<in> set (queued (sc_segments c')) \<or> hd_ref_count h \<noteq> 0)"
  using clear_content [OF assms] by blast

theorem clear_empties_witness:
  "\<exists>c n c' x. models demo_env c [[107] \<mapsto> (x, demo_item)] \<and> segcache_clear demo_env c = Some (n, c') \<and> models demo_env c' (\<lambda>_. None)"
proof -
  obtain c x where c: "models demo_env c [[107] \<mapsto> (x, demo_item)]" by (rule demo_insert)
  then show ?thesis using clear_empties [OF c] by blast
qed

text \<open>
  C8. The reservation of space ends. Its rounds of reserving and evicting return for every item that the item format can
  represent and that fits a segment or is larger than one, under a policy that drops whole segments: an eviction that frees a segment lets the next round succeed,
  and the others are counted. While a free segment is left the reservation succeeds.
\<close>

theorem reserve_returns:
  assumes "models e c A" and "drops_whole (ev_policy (sc_evict c))" and "raw_representable key v opt"
    and "\<not> in_gap (e_integrity e) (sg_segment_size (sc_segments c)) (item_size (e_integrity e) (length key) v (length opt))"
  shows "\<exists>r c'. reserve_and_define e key v opt ttl c = Some (r, c')
    \<and> (if item_size (e_integrity e) (length key) v (length opt) \<le> seg_bytes (sc_segments c)
       then (\<exists>ri. r = Inr ri) \<or> r = Inl SegNoFreeSegments \<and> sg_free_queue (sc_segments c) = [] \<and> (\<exists>D. models e c' (minus_segs D A))
       else r = Inl (SegItemOversized (item_size (e_integrity e) (length key) v (length opt))) \<and> models e c' A)"
proof -
  let ?d = "\<lparr>ce_key = key, ce_value = v, ce_opt = opt\<rparr>" and ?sz = "item_size (e_integrity e) (length key) v (length opt)"
  from assms(1) obtain g where g: "cache_inv e c g" "quiescent g" "A = content g"
    and rk: "ranking_ok (length (sg_headers (sc_segments c))) (sc_evict c)" by (auto simp: models_def)
  have ok: "evict_ok (sc_segments c) (sc_evict c)" using rk assms(2) by (simp add: evict_ok_def)
  have sz: "csize (e_integrity e) ?d = ?sz" by (simp add: csize_def)
  have rep: "raw_representable (ce_key ?d) (ce_value ?d) (ce_opt ?d)" using assms(3) by simp
  have gap: "\<not> in_gap (e_integrity e) (sg_segment_size (sc_segments c)) (csize (e_integrity e) ?d)" using assms(4) sz by simp
  obtain r c' c1 g1 D where r: "reserve_and_define e (ce_key ?d) (ce_value ?d) (ce_opt ?d) ttl c = Some (r, c')" "evicted e D c g c1 g1"
    "case r of Inr ri \<Rightarrow> csize (e_integrity e) ?d \<le> seg_bytes (sc_segments c) \<and> (\<exists>g'. holding e c1 g1 ?d ttl ri c' g')
      | Inl err \<Rightarrow> c' = c1 \<and> (if csize (e_integrity e) ?d \<le> seg_bytes (sc_segments c)
          then err = SegNoFreeSegments \<and> sg_free_queue (sc_segments c) = [] else err = SegItemOversized (csize (e_integrity e) ?d) \<and> D = {})"
    by (rule reserve_and_define_eval [OF g(1,2) ok rep gap])
  have "models e c1 (minus_segs D A)" using r(2) g(3) unfolding evicted_def evict_ok_def models_def by (intro conjI exI [of _ g1]) simp_all
  moreover have "models e c1 A" if "D = {}" using calculation that by (simp add: minus_segs_def)
  ultimately show ?thesis using r(1,3) sz by (cases r) (auto split: if_splits)
qed

theorem reserve_returns_witness: "\<exists>ri c'. reserve_and_define demo_env [107] (U64 7) [] 60 demo_segcache = Some (Inr ri, c')"
  using reserve_returns [OF demo_segcache_facts(1), of "[107]" "U64 7" "[]" 60] demo_segcache_facts demo_item_facts
  by (auto simp: demo_item_def csize_def demo_env_def)

end
