(* ===== verification/TagScan.thy ===== *)
theory TagScan
  imports HashtableProps
begin

text \<open>
  The tag scans of \<^verbatim>\<open>segcache/src/hashtable/table.rs\<close> with vector instructions, for AVX2 and for NEON. A vector register is
  a word of its width; its lanes are the 64-bit words it holds, the first in the low bits, as the loads of both
  architectures place them. The instructions are those of \<^verbatim>\<open>core::arch\<close>. Both scans are shown to compute the mask of the
  portable scan, on which the model of the hashtable is built.
\<close>

unbundle bit_operations_syntax

type_synonym m256i = "256 word"
type_synonym uint64x2 = "128 word"
type_synonym uint32x4 = "128 word"

section \<open>Vector instructions\<close>

primrec of_lanes :: "u64 list \<Rightarrow> 'a::len word" where
  "of_lanes [] = 0"
| "of_lanes (w # ws) = ucast w OR push_bit 64 (of_lanes ws)"

definition lane :: "nat \<Rightarrow> 'a::len word \<Rightarrow> u64" where
  "lane i v = ucast (drop_bit (64 * i) v)"

definition load_lanes :: "nat \<Rightarrow> u64 list \<Rightarrow> nat \<Rightarrow> 'a::len word" where
  "load_lanes n items first = of_lanes (map (\<lambda>i. items ! (first + i)) [0..<n])"

definition splat :: "nat \<Rightarrow> u64 \<Rightarrow> 'a::len word" where
  "splat n x = of_lanes (replicate n x)"

definition cmpeq_lanes :: "nat \<Rightarrow> 'a::len word \<Rightarrow> 'a word \<Rightarrow> 'a word" where
  "cmpeq_lanes n a b = of_lanes (map (\<lambda>i. if lane i a = lane i b then - 1 else 0) [0..<n])"

text \<open>AVX2: four lanes in a register; \<^verbatim>\<open>_mm256_movemask_pd\<close> collects the sign bits.\<close>

abbreviation mm256_load :: "u64 list \<Rightarrow> nat \<Rightarrow> m256i" where "mm256_load \<equiv> load_lanes 4"
abbreviation mm256_set1_epi64x :: "u64 \<Rightarrow> m256i" where "mm256_set1_epi64x \<equiv> splat 4"
abbreviation mm256_cmpeq_epi64 :: "m256i \<Rightarrow> m256i \<Rightarrow> m256i" where "mm256_cmpeq_epi64 \<equiv> cmpeq_lanes 4"

definition mm256_movemask_pd :: "m256i \<Rightarrow> u32" where
  "mm256_movemask_pd v = horner_sum of_bool 2 (map (\<lambda>i. bit (lane i v) 63) [0..<4])"

text \<open>NEON: two lanes in a register; the reinterpretations between 64-bit and 32-bit lanes keep the register.\<close>

abbreviation ld1_2d :: "u64 list \<Rightarrow> nat \<Rightarrow> uint64x2" where "ld1_2d \<equiv> load_lanes 2"
abbreviation vdupq_n_u64 :: "u64 \<Rightarrow> uint64x2" where "vdupq_n_u64 \<equiv> splat 2"
abbreviation vceqq_u64 :: "uint64x2 \<Rightarrow> uint64x2 \<Rightarrow> uint64x2" where "vceqq_u64 \<equiv> cmpeq_lanes 2"
abbreviation vmvnq_u32 :: "uint32x4 \<Rightarrow> uint32x4" where "vmvnq_u32 v \<equiv> NOT v"
abbreviation vgetq_lane_u64 :: "uint64x2 \<Rightarrow> nat \<Rightarrow> u64" where "vgetq_lane_u64 v i \<equiv> lane i v"

section \<open>The scans\<close>

definition avx2_valid :: "m256i \<Rightarrow> u64 \<Rightarrow> m256i" where
  "avx2_valid slots tag_shifted = (let
       tag_mask = mm256_set1_epi64x 0xFFF0000000000000;
       tag_vec = mm256_set1_epi64x tag_shifted;
       ghost_vec = mm256_set1_epi64x 0x00000FFFFFFFFFFF;
       zero = 0;
       all_ones = mm256_set1_epi64x (- 1);
       tags = slots AND tag_mask;
       tag_match = mm256_cmpeq_epi64 tags tag_vec;
       nonzero = mm256_cmpeq_epi64 slots zero XOR all_ones;
       locs = slots AND mm256_set1_epi64x 0x00000FFFFFFFFFFF;
       nonghost = mm256_cmpeq_epi64 locs ghost_vec XOR all_ones
     in tag_match AND (nonzero AND nonghost))"

definition find_tag_matches_avx2 :: "u64 list \<Rightarrow> u64 \<Rightarrow> u8" where
  "find_tag_matches_avx2 items tag_shifted = (let
       slots_0_3 = mm256_load items 0;
       slots_4_7 = mm256_load items 4;
       mask_0_3 = ucast (mm256_movemask_pd (avx2_valid slots_0_3 tag_shifted));
       mask_4_7 = ucast (mm256_movemask_pd (avx2_valid slots_4_7 tag_shifted))
     in mask_0_3 OR push_bit 4 mask_4_7)"

definition neon_valid :: "uint64x2 \<Rightarrow> u64 \<Rightarrow> uint32x4" where
  "neon_valid slots tag_shifted = (let
       tag_mask_vec = vdupq_n_u64 0xFFF0000000000000;
       tag_vec = vdupq_n_u64 tag_shifted;
       ghost_vec = vdupq_n_u64 0x00000FFFFFFFFFFF;
       zero_vec = vdupq_n_u64 0;
       tags = slots AND tag_mask_vec;
       tag_match = vceqq_u64 tags tag_vec;
       nonzero = vmvnq_u32 (vceqq_u64 slots zero_vec);
       locs = slots AND vdupq_n_u64 0x00000FFFFFFFFFFF;
       nonghost = vmvnq_u32 (vceqq_u64 locs ghost_vec)
     in tag_match AND (nonzero AND nonghost))"

definition find_tag_matches_neon :: "u64 list \<Rightarrow> u64 \<Rightarrow> u8" where
  "find_tag_matches_neon items tag_shifted = (let
       v0_1 = neon_valid (ld1_2d items 0) tag_shifted;
       v2_3 = neon_valid (ld1_2d items 2) tag_shifted;
       v4_5 = neon_valid (ld1_2d items 4) tag_shifted;
       v6_7 = neon_valid (ld1_2d items 6) tag_shifted;
       r0 = ucast (drop_bit 63 (vgetq_lane_u64 v0_1 0));
       r1 = ucast (push_bit 1 (drop_bit 63 (vgetq_lane_u64 v0_1 1)));
       r2 = ucast (push_bit 2 (drop_bit 63 (vgetq_lane_u64 v2_3 0)));
       r3 = ucast (push_bit 3 (drop_bit 63 (vgetq_lane_u64 v2_3 1)));
       r4 = ucast (push_bit 4 (drop_bit 63 (vgetq_lane_u64 v4_5 0)));
       r5 = ucast (push_bit 5 (drop_bit 63 (vgetq_lane_u64 v4_5 1)));
       r6 = ucast (push_bit 6 (drop_bit 63 (vgetq_lane_u64 v6_7 0)));
       r7 = ucast (push_bit 7 (drop_bit 63 (vgetq_lane_u64 v6_7 1)))
     in r0 OR r1 OR r2 OR r3 OR r4 OR r5 OR r6 OR r7)"

section \<open>Lanes\<close>

lemma bit_of_lanes:
  "bit (of_lanes ws :: 'a::len word) n \<longleftrightarrow> n < LENGTH('a) \<and> n div 64 < length ws \<and> bit (ws ! (n div 64)) (n mod 64)"
proof (induction ws arbitrary: n)
  case (Cons w ws)
  show ?case
  proof (cases "n < 64")
    case True
    then show ?thesis by (auto simp: bit_simps)
  next
    case False
    then have "n div 64 = Suc ((n - 64) div 64)" "(n - 64) mod 64 = n mod 64" by (auto simp: le_mod_geq div_if)
    moreover have "\<not> bit w n" using False by (simp add: impossible_bit)
    ultimately show ?thesis using False by (auto simp: bit_simps Cons.IH)
  qed
qed simp

lemma bit_lane: "bit (lane i (v :: 'a::len word)) j \<longleftrightarrow> j < 64 \<and> bit v (64 * i + j)"
  by (auto simp: lane_def bit_simps add.commute)

lemma lane_ops:
  "lane i (v AND w) = lane i v AND lane i w"
  "lane i (v XOR w) = lane i v XOR lane i w"
  "64 * i + 64 \<le> LENGTH('a) \<Longrightarrow> lane i (NOT v) = NOT (lane i v)"
  for v w :: "'a::len word"
  by (auto simp: bit_eq_iff bit_lane bit_simps)

lemma lane_zero: "lane i (0 :: 'a::len word) = 0"
  by (simp add: lane_def)

lemma lane_of_lanes:
  assumes "i < length ws" and "64 * i + 64 \<le> LENGTH('a)"
  shows "lane i (of_lanes ws :: 'a::len word) = ws ! i"
proof (rule bit_eqI)
  fix n assume "possible_bit TYPE(64 word) n"
  then have "n < 64" by simp
  then have "(64 * i + n) div 64 = i" "(64 * i + n) mod 64 = n" by simp_all
  then show "bit (lane i (of_lanes ws :: 'a word)) n \<longleftrightarrow> bit (ws ! i) n"
    using assms \<open>n < 64\<close> by (simp add: bit_lane bit_of_lanes)
qed

lemmas lanes = load_lanes_def splat_def cmpeq_lanes_def lane_of_lanes lane_ops lane_zero

text \<open>Whether a slot of a bucket matches, as the portable scan decides it.\<close>

definition slot_matches :: "u64 \<Rightarrow> u64 \<Rightarrow> bool" where
  "slot_matches tag_shifted w \<longleftrightarrow> w \<noteq> 0 \<and> w AND 0x00000FFFFFFFFFFF \<noteq> 0x00000FFFFFFFFFFF \<and> w AND 0xFFF0000000000000 = tag_shifted"

lemma lane_avx2_valid:
  "i < 4 \<Longrightarrow> lane i (avx2_valid slots ts) = (if slot_matches ts (lane i slots) then - 1 else 0)"
  by (simp add: avx2_valid_def Let_def lanes slot_matches_def)

lemma lane_load: "i < n \<Longrightarrow> 64 * i + 64 \<le> LENGTH('a) \<Longrightarrow> lane i (load_lanes n items b :: 'a::len word) = items ! (b + i)"
  by (simp add: lanes)

lemma find_tag_matches_bit_iff: "bit (find_tag_matches items ts) i \<longleftrightarrow> i < 8 \<and> slot_matches ts (items ! i)"
  by (simp add: find_tag_matches_bit slot_matches_def)

lemma lane_neon_valid:
  "i < 2 \<Longrightarrow> lane i (neon_valid slots ts) = (if slot_matches ts (lane i slots) then - 1 else 0)"
  by (simp add: neon_valid_def Let_def lanes slot_matches_def)

section \<open>Equivalence with the portable scan\<close>

lemma bit_movemask: "bit (mm256_movemask_pd v) i \<longleftrightarrow> i < 4 \<and> bit (lane i v) 63"
  by (auto simp: mm256_movemask_pd_def bit_horner_sum_bit_word_iff)

lemma avx2_half:
  assumes "b + 4 \<le> 8"
  shows "bit (mm256_movemask_pd (avx2_valid (mm256_load items b) ts)) i \<longleftrightarrow> i < 4 \<and> bit (find_tag_matches items ts) (b + i)"
  using assms by (auto simp: bit_movemask lane_avx2_valid lane_load find_tag_matches_bit_iff split: if_splits)

lemma neon_lane:
  assumes "b + i < 8" and "i < 2"
  shows "drop_bit 63 (lane i (neon_valid (ld1_2d items b) ts)) = of_bool (bit (find_tag_matches items ts) (b + i))"
proof -
  have "drop_bit 63 (- 1 :: u64) = 1" by (simp add: bit_eq_iff)
  then show ?thesis using assms by (simp add: lane_neon_valid lane_load find_tag_matches_bit_iff)
qed

lemma avx2_scan: "find_tag_matches_avx2 items ts = find_tag_matches items ts"
proof (rule bit_eqI)
  fix i assume "possible_bit TYPE(8 word) i"
  then have i: "i < 8" by simp
  have m: "bit (find_tag_matches_avx2 items ts) i \<longleftrightarrow> (if i < 4 then bit (find_tag_matches items ts) i
      else i - 4 < 4 \<and> bit (find_tag_matches items ts) (4 + (i - 4)))"
    using i by (auto simp: find_tag_matches_avx2_def Let_def bit_simps avx2_half)
  then show "bit (find_tag_matches_avx2 items ts) i \<longleftrightarrow> bit (find_tag_matches items ts) i"
    using i by (auto split: if_splits)
qed

lemma bit_at: "bit (push_bit k (of_bool b) :: u8) i \<longleftrightarrow> i = k \<and> k < 8 \<and> b"
  by (auto simp: bit_simps)

lemma byte_of_bits:
  "of_bool (bit w 0) OR push_bit 1 (of_bool (bit w 1)) OR push_bit 2 (of_bool (bit w 2)) OR push_bit 3 (of_bool (bit w 3))
     OR push_bit 4 (of_bool (bit w 4)) OR push_bit 5 (of_bool (bit w 5)) OR push_bit 6 (of_bool (bit w 6)) OR push_bit 7 (of_bool (bit w 7)) = w"
  (is "?l = w") for w :: u8
proof (rule bit_eqI)
  fix i assume "possible_bit TYPE(8 word) i"
  then have i: "i = 0 \<or> i = 1 \<or> i = 2 \<or> i = 3 \<or> i = 4 \<or> i = 5 \<or> i = 6 \<or> i = 7" by auto
  have "bit (of_bool (bit w 0) :: u8) i \<longleftrightarrow> i = 0 \<and> bit w 0" using bit_at [of 0 "bit w 0" i] by simp
  then have "bit ?l i \<longleftrightarrow> i = 0 \<and> bit w 0 \<or> i = 1 \<and> bit w 1 \<or> i = 2 \<and> bit w 2 \<or> i = 3 \<and> bit w 3
      \<or> i = 4 \<and> bit w 4 \<or> i = 5 \<and> bit w 5 \<or> i = 6 \<and> bit w 6 \<or> i = 7 \<and> bit w 7"
    by (simp only: bit_or_iff bit_at) simp
  with i show "bit ?l i = bit w i" by (elim disjE) simp_all
qed

lemma neon_scan: "find_tag_matches_neon items ts = find_tag_matches items ts"
proof -
  let ?w = "find_tag_matches items ts"
  have c: "ucast (push_bit k (of_bool b :: u64)) = push_bit k (of_bool b :: u8)" for k b
    by (auto simp: bit_eq_iff bit_simps)
  have "find_tag_matches_neon items ts = of_bool (bit ?w 0) OR push_bit 1 (of_bool (bit ?w 1)) OR push_bit 2 (of_bool (bit ?w 2))
     OR push_bit 3 (of_bool (bit ?w 3)) OR push_bit 4 (of_bool (bit ?w 4)) OR push_bit 5 (of_bool (bit ?w 5))
     OR push_bit 6 (of_bool (bit ?w 6)) OR push_bit 7 (of_bool (bit ?w 7))"
    unfolding find_tag_matches_neon_def Let_def by (simp add: neon_lane c [symmetric])
  also have "\<dots> = ?w" by (rule byte_of_bits)
  finally show ?thesis .
qed

text \<open>
  C31. The tag scans agree on every bucket and every tag: the AVX2 scan and the NEON scan compute the mask of the portable
  scan, a bit for each slot that is neither empty nor a ghost and carries the tag. So the lookups, which follow this mask
  bit by bit, do not depend on the architecture.
\<close>

theorem tag_scans_agree:
  "find_tag_matches_avx2 items tag_shifted = find_tag_matches items tag_shifted
   \<and> find_tag_matches_neon items tag_shifted = find_tag_matches items tag_shifted"
  by (simp add: avx2_scan neon_scan)

end
