(* ===== verification/DataTier.thy ===== *)
theory DataTier
  imports Prelude Float64
begin

text \<open>
  The data pools of \<^verbatim>\<open>datatier/src/lib.rs\<close>: anonymous memory, a file that is mapped, and memory backed by a file. The
  state is the one file at the path of the pool and the cursor of its handle. Each call to the operating system takes its
  answer from a list: an error, or a number of bytes that a read or write moves at most; where the list has ended, a call
  succeeds and moves everything. A shared mapping is the file itself. The hash function is an argument, applied to all the
  bytes the hasher was given, and so are the time stamps. Sizes are natural numbers; those so large that adding the
  header overflows 64 bits are outside the model. A panic, and a loop that does not end, is \<^const>\<open>None\<close>.
\<close>

section \<open>Calls to the operating system\<close>

datatype io_error = OsError nat | OtherError string
datatype answer = Fault nat | Moves nat

record disk =
  d_exists :: bool
  d_bytes :: "u8 list"
  d_cursor :: nat
  d_answers :: "answer list"

type_synonym 'a io = "disk \<Rightarrow> ((io_error + 'a) \<times> disk) option"

definition io_return :: "'a \<Rightarrow> 'a io" where
  "io_return x w = Some (Inr x, w)"

definition io_fail :: "io_error \<Rightarrow> 'a io" where
  "io_fail e w = Some (Inl e, w)"

definition io_bind :: "'a io \<Rightarrow> ('a \<Rightarrow> 'b io) \<Rightarrow> 'b io" where
  "io_bind m f w = (case m w of None \<Rightarrow> None | Some (Inl e, w) \<Rightarrow> Some (Inl e, w) | Some (Inr x, w) \<Rightarrow> f x w)"

definition io_check :: "(io_error + 'a) \<Rightarrow> 'a io" where
  "io_check r w = Some (r, w)"

definition io_access :: "'a option \<Rightarrow> 'a io" where
  "io_access x w = map_option (\<lambda>x. (Inr x, w)) x"

text \<open>A call: the error of its answer, or what it does, given the bound on the bytes it moves.\<close>

definition os_call :: "(nat option \<Rightarrow> 'a io) \<Rightarrow> 'a io" where
  "os_call f w = (case d_answers w of
       [] \<Rightarrow> f None w
     | Fault e # as \<Rightarrow> Some (Inl (OsError e), w\<lparr>d_answers := as\<rparr>)
     | Moves n # as \<Rightarrow> f (Some n) (w\<lparr>d_answers := as\<rparr>))"

definition plain_call :: "unit io" where
  "plain_call = os_call (\<lambda>_. io_return ())"

definition ENOENT :: nat where "ENOENT = 2"
definition EEXIST :: nat where "EEXIST = 17"

definition open_existing :: "unit io" where
  "open_existing = os_call (\<lambda>_ w. if d_exists w then Some (Inr (), w\<lparr>d_cursor := 0\<rparr>) else Some (Inl (OsError ENOENT), w))"

definition create_new :: "unit io" where
  "create_new = os_call (\<lambda>_ w. if d_exists w then Some (Inl (OsError EEXIST), w)
     else Some (Inr (), w\<lparr>d_exists := True, d_bytes := [], d_cursor := 0\<rparr>))"

definition file_len :: "nat io" where
  "file_len = os_call (\<lambda>_ w. Some (Inr (length (d_bytes w)), w))"

definition set_len :: "nat \<Rightarrow> unit io" where
  "set_len n = os_call (\<lambda>_ w. Some (Inr (), w\<lparr>d_bytes := take n (d_bytes w) @ replicate (n - length (d_bytes w)) 0\<rparr>))"

definition file_seek :: "nat \<Rightarrow> unit io" where
  "file_seek p = os_call (\<lambda>_ w. Some (Inr (), w\<lparr>d_cursor := p\<rparr>))"

definition moved :: "nat option \<Rightarrow> nat \<Rightarrow> nat" where
  "moved k n = (case k of None \<Rightarrow> n | Some k \<Rightarrow> min k n)"

definition file_read :: "nat \<Rightarrow> u8 list io" where
  "file_read n = os_call (\<lambda>k w. let bs = take (moved k n) (drop (d_cursor w) (d_bytes w)) in
     Some (Inr bs, w\<lparr>d_cursor := d_cursor w + length bs\<rparr>))"

definition overwrite :: "u8 list \<Rightarrow> nat \<Rightarrow> u8 list \<Rightarrow> u8 list" where
  "overwrite f p bs = take p f @ replicate (p - length f) 0 @ bs @ drop (p + length bs) f"

definition file_write :: "u8 list \<Rightarrow> nat io" where
  "file_write bs = os_call (\<lambda>k w. let n = moved k (length bs) in
     Some (Inr n, w\<lparr>d_bytes := (if n = 0 then d_bytes w else overwrite (d_bytes w) (d_cursor w) (take n bs)), d_cursor := d_cursor w + n\<rparr>))"

definition map_anon :: "nat \<Rightarrow> u8 list io" where
  "map_anon n = os_call (\<lambda>_. io_return (replicate n 0))"

definition mapped :: "nat \<Rightarrow> nat \<Rightarrow> u8 list io" where
  "mapped a b w = io_access (load_bytes (d_bytes w) a (b - a)) w"

definition store_mapped :: "nat \<Rightarrow> u8 list \<Rightarrow> unit io" where
  "store_mapped a bs w = map_option (\<lambda>f. (Inr (), w\<lparr>d_bytes := f\<rparr>)) (store_bytes (d_bytes w) a bs)"

section \<open>Memory\<close>

definition PAGE_SIZE :: nat where "PAGE_SIZE = 4096"
definition HEADER_SIZE :: nat where "HEADER_SIZE = 4096"
definition MAGIC :: "u8 list" where "MAGIC = [80, 69, 76, 73, 75, 65, 78, 33]"
definition VERSION :: u64 where "VERSION = 0"

record memory =
  mem_mmap :: "u8 list"
  mem_size :: nat

text \<open>A zero is written at the start of each page.\<close>

function prefault :: "nat \<Rightarrow> nat \<Rightarrow> u8 list \<Rightarrow> u8 list option" where
  "prefault n offset m = (if offset < n then do { m \<leftarrow> store_bytes m offset [0]; prefault n (offset + PAGE_SIZE) m } else Some m)"
  by pat_completeness auto
termination by (relation "measure (\<lambda>(n, offset, _). n - offset)") (auto simp: PAGE_SIZE_def)

declare prefault.simps [simp del]

definition memory_create :: "nat \<Rightarrow> memory io" where
  "memory_create n = io_bind (map_anon n) (\<lambda>m. io_bind (io_access (prefault n 0 m)) (\<lambda>m. io_return \<lparr>mem_mmap = m, mem_size = n\<rparr>))"

definition memory_as_slice :: "memory \<Rightarrow> u8 list" where
  "memory_as_slice m = take (mem_size m) (mem_mmap m)"

definition memory_flush :: "memory \<Rightarrow> unit io" where
  "memory_flush m = plain_call"

section \<open>The header\<close>

record stamps =
  time_monotonic_s :: "u8 list"
  time_unix_s :: "u8 list"
  time_monotonic_ns :: "u8 list"
  time_unix_ns :: "u8 list"

definition stamps_ok :: "stamps \<Rightarrow> bool" where
  "stamps_ok t \<longleftrightarrow> length (time_monotonic_s t) = 4 \<and> length (time_unix_s t) = 4
     \<and> length (time_monotonic_ns t) = 8 \<and> length (time_unix_ns t) = 8"

record header =
  h_checksum :: "u8 list"
  h_magic :: "u8 list"
  h_version :: u64
  h_times :: stamps
  h_user_version :: u64
  h_options :: u64
  h_pad :: "u8 list"

definition pool_header_new :: "stamps \<Rightarrow> header" where
  "pool_header_new now = \<lparr>h_checksum = replicate 32 0, h_magic = MAGIC, h_version = VERSION, h_times = now,
     h_user_version = 0, h_options = 0, h_pad = replicate 4008 0\<rparr>"

definition header_bytes :: "header \<Rightarrow> u8 list" where
  "header_bytes h = h_checksum h @ h_magic h @ le_bytes 8 (h_version h)
     @ time_monotonic_s (h_times h) @ time_unix_s (h_times h) @ time_monotonic_ns (h_times h) @ time_unix_ns (h_times h)
     @ le_bytes 8 (h_user_version h) @ le_bytes 8 (h_options h) @ h_pad h"

definition field :: "u8 list \<Rightarrow> nat \<Rightarrow> nat \<Rightarrow> u8 list" where
  "field bs off n = take n (drop off bs)"

definition header_of_bytes :: "u8 list \<Rightarrow> header" where
  "header_of_bytes bs = \<lparr>h_checksum = field bs 0 32, h_magic = field bs 32 8, h_version = le_word (field bs 40 8),
     h_times = \<lparr>time_monotonic_s = field bs 48 4, time_unix_s = field bs 52 4, time_monotonic_ns = field bs 56 8, time_unix_ns = field bs 64 8\<rparr>,
     h_user_version = le_word (field bs 72 8), h_options = le_word (field bs 80 8), h_pad = field bs 88 4008\<rparr>"

definition set_checksum :: "u8 list \<Rightarrow> header \<Rightarrow> header" where
  "set_checksum hash h = h\<lparr>h_checksum := take 32 hash\<rparr>"

definition zero_checksum :: "header \<Rightarrow> header" where
  "zero_checksum h = h\<lparr>h_checksum := replicate (length (h_checksum h)) 0\<rparr>"

definition check_magic :: "header \<Rightarrow> io_error + unit" where
  "check_magic h = (if h_magic h = MAGIC then Inr () else Inl (OtherError ''header is not recognized''))"

definition check_version :: "header \<Rightarrow> io_error + unit" where
  "check_version h = (if h_version h \<noteq> VERSION then Inl (OtherError ''file has incompatible version'') else Inr ())"

definition header_check :: "header \<Rightarrow> io_error + unit" where
  "header_check h = (case check_magic h of Inl e \<Rightarrow> Inl e | Inr _ \<Rightarrow> check_version h)"

text \<open>The number of pages of a pool, computed in floating point.\<close>

definition pages_for :: "nat \<Rightarrow> nat" where
  "pages_for data_size = f64_to_usize (f64_ceil (f64_div (f64_of_int (int (HEADER_SIZE + data_size))) (f64_of_int (int PAGE_SIZE))))"

text \<open>The hashing of a sequence of pages.\<close>

fun hash_pages :: "u8 list \<Rightarrow> nat \<Rightarrow> nat list \<Rightarrow> u8 list \<Rightarrow> u8 list option" where
  "hash_pages m base [] hashed = Some hashed"
| "hash_pages m base (p # ps) hashed = do { bs \<leftarrow> load_bytes m (p * PAGE_SIZE + base) PAGE_SIZE; hash_pages m base ps (hashed @ bs) }"

section \<open>A mapped file\<close>

record mmap_file =
  mf_data :: "nat \<times> nat"
  mf_user_version :: u64

definition mmap_open :: "(u8 list \<Rightarrow> u8 list) \<Rightarrow> nat \<Rightarrow> u64 \<Rightarrow> mmap_file io" where
  "mmap_open blake3 data_size user_version = (let total_size = pages_for data_size * PAGE_SIZE in
     io_bind open_existing (\<lambda>_.
     io_bind file_len (\<lambda>len.
       if len \<noteq> total_size then io_fail (OtherError ''filesize mismatch'') else
     let data = (HEADER_SIZE, HEADER_SIZE + data_size) in
     io_bind plain_call (\<lambda>_.
     io_bind (mapped 0 HEADER_SIZE) (\<lambda>bs. let header = header_of_bytes bs in
     io_bind (io_check (header_check header)) (\<lambda>_.
       if h_user_version header \<noteq> user_version then io_fail (OtherError ''user version mismatch'') else
     let header = zero_checksum header in
     io_bind (mapped (fst data) (snd data)) (\<lambda>content.
     let hash = blake3 (header_bytes header @ content) in
     io_bind (mapped 0 32) (\<lambda>checksum.
       if checksum \<noteq> take 32 hash then io_fail (OtherError ''checksum mismatch'')
       else io_return \<lparr>mf_data = data, mf_user_version = user_version\<rparr>))))))))"

definition mmap_create :: "nat \<Rightarrow> u64 \<Rightarrow> mmap_file io" where
  "mmap_create data_size user_version = (let total_size = pages_for data_size * PAGE_SIZE; data = (HEADER_SIZE, total_size) in
     io_bind create_new (\<lambda>_.
     io_bind (set_len total_size) (\<lambda>_.
     io_bind plain_call (\<lambda>_.
     io_bind (\<lambda>w. map_option (\<lambda>f. (Inr (), w\<lparr>d_bytes := f\<rparr>)) (prefault total_size 0 (d_bytes w))) (\<lambda>_.
     io_bind plain_call (\<lambda>_.
     io_return \<lparr>mf_data = data, mf_user_version = user_version\<rparr>))))))"

definition mmap_as_slice :: "mmap_file \<Rightarrow> u8 list io" where
  "mmap_as_slice mf = mapped (fst (mf_data mf)) (snd (mf_data mf))"

definition mmap_flush :: "(u8 list \<Rightarrow> u8 list) \<Rightarrow> stamps \<Rightarrow> mmap_file \<Rightarrow> unit io" where
  "mmap_flush blake3 now mf =
     io_bind plain_call (\<lambda>_ w. (let header = (pool_header_new now)\<lparr>h_user_version := mf_user_version mf\<rparr>;
         len = length (d_bytes w); data_pages = (len - HEADER_SIZE) div PAGE_SIZE in
       if len < HEADER_SIZE then None
       else io_bind (io_access (hash_pages (d_bytes w) HEADER_SIZE [0..<data_pages] (header_bytes header))) (\<lambda>hashed.
         let header = set_checksum (blake3 hashed) header in
         io_bind (store_mapped 0 (header_bytes header)) (\<lambda>_. plain_call)) w))"

section \<open>Memory backed by a file\<close>

record file_backed =
  fb_memory :: memory
  fb_header :: "u8 list"
  fb_file_data :: "nat \<times> nat"
  fb_user_version :: u64

text \<open>A read of a page into the buffer \<open>m\<close> at \<open>start\<close>, repeated until it is complete.\<close>

definition read_step :: "nat \<Rightarrow> nat \<Rightarrow> u8 list \<times> disk \<Rightarrow> (((io_error + u8 list) \<times> disk) + (u8 list \<times> disk)) option" where
  "read_step base start mw = (let (m, w) = mw in do {
     _ \<leftarrow> load_bytes m start PAGE_SIZE;
     (r, w) \<leftarrow> file_read PAGE_SIZE w;
     (case r of
        Inl e \<Rightarrow> Some (Inl (Inl e, w))
      | Inr bs \<Rightarrow> do {
          m \<leftarrow> store_bytes m start bs;
          if length bs = PAGE_SIZE then Some (Inl (Inr m, w))
          else do {
            (r, w) \<leftarrow> file_seek (base + start) w;
            Some (case r of Inl e \<Rightarrow> Inl (Inl e, w) | Inr _ \<Rightarrow> Inr (m, w)) } }) })"

definition read_page :: "nat \<Rightarrow> nat \<Rightarrow> u8 list \<Rightarrow> u8 list io" where
  "read_page base start m w = iterate (read_step base start) (m, w)"

text \<open>A write of a page at \<open>p\<close>, repeated until it is complete.\<close>

definition write_step :: "nat \<Rightarrow> u8 list \<Rightarrow> disk \<Rightarrow> (((io_error + unit) \<times> disk) + disk) option" where
  "write_step p bs w = do {
     (r, w) \<leftarrow> file_write bs w;
     (case r of
        Inl e \<Rightarrow> Some (Inl (Inl e, w))
      | Inr n \<Rightarrow>
          if n = PAGE_SIZE then Some (Inl (Inr (), w))
          else do {
            (r, w) \<leftarrow> file_seek p w;
            Some (case r of Inl e \<Rightarrow> Inl (Inl e, w) | Inr _ \<Rightarrow> Inr w) }) }"

definition write_page :: "nat \<Rightarrow> u8 list \<Rightarrow> unit io" where
  "write_page p bs w = iterate (write_step p bs) w"

fun read_pages :: "nat list \<Rightarrow> u8 list \<Rightarrow> u8 list \<Rightarrow> (u8 list \<times> u8 list) io" where
  "read_pages [] m hashed = io_return (m, hashed)"
| "read_pages (p # ps) m hashed =
     io_bind (read_page HEADER_SIZE (p * PAGE_SIZE) m) (\<lambda>m.
     io_bind (io_access (load_bytes m (p * PAGE_SIZE) PAGE_SIZE)) (\<lambda>bs. read_pages ps m (hashed @ bs)))"

fun write_pages :: "nat list \<Rightarrow> u8 list \<Rightarrow> u8 list \<Rightarrow> u8 list io" where
  "write_pages [] m hashed = io_return hashed"
| "write_pages (p # ps) m hashed =
     io_bind (io_access (load_bytes m (p * PAGE_SIZE) PAGE_SIZE)) (\<lambda>bs.
     io_bind (write_page (HEADER_SIZE + p * PAGE_SIZE) bs) (\<lambda>_. write_pages ps m (hashed @ bs)))"

fun write_zeros :: "nat list \<Rightarrow> unit io" where
  "write_zeros [] = io_return ()"
| "write_zeros (p # ps) = io_bind (write_page (p * PAGE_SIZE) (replicate PAGE_SIZE 0)) (\<lambda>_. write_zeros ps)"

definition file_backed_open :: "(u8 list \<Rightarrow> u8 list) \<Rightarrow> nat \<Rightarrow> u64 \<Rightarrow> file_backed io" where
  "file_backed_open blake3 data_size user_version = (let
       file_total_size = pages_for data_size * PAGE_SIZE;
       file_data = (HEADER_SIZE, HEADER_SIZE + data_size);
       data_pages = (snd file_data - fst file_data) div PAGE_SIZE in
     io_bind open_existing (\<lambda>_.
     io_bind file_len (\<lambda>len.
       if len \<noteq> file_total_size then io_fail (OtherError ''filesize mismatch'') else
     io_bind (memory_create data_size) (\<lambda>memory.
     io_bind (file_seek 0) (\<lambda>_.
     io_bind (read_page 0 0 (replicate HEADER_SIZE 0)) (\<lambda>bs. let header = header_of_bytes bs in
     io_bind (io_check (header_check header)) (\<lambda>_.
       if h_user_version header \<noteq> user_version then io_fail (OtherError ''user version mismatch'') else
     let file_checksum = h_checksum header; header = zero_checksum header in
     io_bind (file_seek (fst file_data)) (\<lambda>_.
     io_bind (read_pages [0..<data_pages] (memory_as_slice memory) (header_bytes header)) (\<lambda>(m, hashed).
     let hash = blake3 hashed in
       if file_checksum \<noteq> take 32 hash then io_fail (OtherError ''checksum mismatch'')
       else io_return \<lparr>fb_memory = memory\<lparr>mem_mmap := m\<rparr>, fb_header = header_bytes header,
         fb_file_data = file_data, fb_user_version = user_version\<rparr>)))))))))"

definition file_backed_create :: "nat \<Rightarrow> u64 \<Rightarrow> file_backed io" where
  "file_backed_create data_size user_version = (let pages = pages_for data_size;
       file_total_size = pages * PAGE_SIZE; file_data = (HEADER_SIZE, pages * PAGE_SIZE) in
     io_bind create_new (\<lambda>_.
     io_bind (set_len file_total_size) (\<lambda>_.
     io_bind (write_zeros [0..<pages]) (\<lambda>_.
     io_bind plain_call (\<lambda>_.
     io_bind (memory_create data_size) (\<lambda>memory.
     io_return \<lparr>fb_memory = memory, fb_header = replicate HEADER_SIZE 0, fb_file_data = file_data, fb_user_version = user_version\<rparr>))))))"

definition file_backed_header :: "file_backed \<Rightarrow> header" where
  "file_backed_header fb = header_of_bytes (fb_header fb)"

definition file_backed_flush :: "(u8 list \<Rightarrow> u8 list) \<Rightarrow> stamps \<Rightarrow> file_backed \<Rightarrow> unit io" where
  "file_backed_flush blake3 now fb = (let
       header = (pool_header_new now)\<lparr>h_user_version := fb_user_version fb\<rparr>;
       data_pages = (snd (fb_file_data fb) - fst (fb_file_data fb)) div PAGE_SIZE in
     io_bind (file_seek HEADER_SIZE) (\<lambda>_.
     io_bind (write_pages [0..<data_pages] (memory_as_slice (fb_memory fb)) (header_bytes header)) (\<lambda>hashed.
     let header = set_checksum (blake3 hashed) header in
     io_bind (file_seek 0) (\<lambda>_.
     io_bind (write_page 0 (header_bytes header)) (\<lambda>_. plain_call)))))"

end
