(* ===== verification/DataTierProps.thy ===== *)
theory DataTierProps
  imports DataTier
begin

text \<open>
  Properties of the data pools. The calls are reasoned about with weakest preconditions, under answers without errors but
  with any finite number of incomplete reads and writes. Both kinds of pool are shown to accept the same files and to read
  the same data from them, and what one flushes is what the other opens, for sizes of whole pages; for other sizes the
  pools are shown not to come back.
\<close>

section \<open>Weakest preconditions\<close>

definition wp :: "'a io \<Rightarrow> (io_error + 'a \<Rightarrow> disk \<Rightarrow> bool) \<Rightarrow> disk \<Rightarrow> bool" where
  "wp m Q w \<longleftrightarrow> (\<exists>r w'. m w = Some (r, w') \<and> Q r w')"

named_theorems wp_rules \<open>weakest preconditions of the calls\<close>

lemma wp_bind: "wp (io_bind m f) Q w \<longleftrightarrow> wp m (\<lambda>r w'. case r of Inl e \<Rightarrow> Q (Inl e) w' | Inr x \<Rightarrow> wp (f x) Q w') w"
  by (auto simp: wp_def io_bind_def split: option.split sum.split)

lemma wp_pure:
  "wp (io_return x) Q w \<longleftrightarrow> Q (Inr x) w"
  "wp (io_fail e) Q w \<longleftrightarrow> Q (Inl e) w"
  "wp (io_check r) Q w \<longleftrightarrow> Q r w"
  "wp (io_access y) Q w \<longleftrightarrow> (\<exists>x. y = Some x \<and> Q (Inr x) w)"
  "wp (if b then m else m') Q w \<longleftrightarrow> (if b then wp m Q w else wp m' Q w)"
  by (auto simp: wp_def io_return_def io_fail_def io_check_def io_access_def)

lemma wp_mono: "wp m Q w \<Longrightarrow> (\<And>r w'. Q r w' \<Longrightarrow> Q' r w') \<Longrightarrow> wp m Q' w"
  by (auto simp: wp_def)

text \<open>Answers without an error, and a handle on a file with given content and cursor.\<close>

definition honest :: "disk \<Rightarrow> bool" where
  "honest w \<longleftrightarrow> list_all (\<lambda>a. case a of Moves _ \<Rightarrow> True | Fault _ \<Rightarrow> False) (d_answers w)"

definition handle :: "disk \<Rightarrow> u8 list \<Rightarrow> nat \<Rightarrow> bool" where
  "handle w f c \<longleftrightarrow> honest w \<and> d_exists w \<and> d_bytes w = f \<and> d_cursor w = c"

definition limit :: "disk \<Rightarrow> nat option" where
  "limit w = (case d_answers w of Moves n # _ \<Rightarrow> Some n | _ \<Rightarrow> None)"

definition tick :: "disk \<Rightarrow> disk" where
  "tick w = w\<lparr>d_answers := tl (d_answers w)\<rparr>"

lemma tick_nil: "d_answers w = [] \<Longrightarrow> tick w = w"
  by (cases w) (simp add: tick_def)

lemma os_call_honest: "honest w \<Longrightarrow> os_call f w = f (limit w) (tick w)"
proof (cases "d_answers w")
  case Nil
  then show ?thesis by (simp add: tick_nil os_call_def limit_def)
qed (auto simp: honest_def os_call_def limit_def tick_def split: answer.splits)

lemma tick_simps [simp]:
  "d_exists (tick w) = d_exists w" "d_bytes (tick w) = d_bytes w" "d_cursor (tick w) = d_cursor w"
  "d_answers (tick w) = tl (d_answers w)" "honest w \<Longrightarrow> honest (tick w)"
  by (cases "d_answers w"; simp add: tick_def honest_def)+

lemma honest_update [simp]:
  "honest (w\<lparr>d_cursor := c\<rparr>) = honest w" "honest (w\<lparr>d_bytes := f\<rparr>) = honest w" "honest (w\<lparr>d_exists := b\<rparr>) = honest w"
  by (simp_all add: honest_def)

lemma wp_plain [wp_rules]: "handle w f c \<Longrightarrow> (\<And>w'. handle w' f c \<Longrightarrow> Q (Inr ()) w') \<Longrightarrow> wp plain_call Q w"
  by (auto simp: wp_def plain_call_def os_call_honest handle_def io_return_def)

lemma wp_len [wp_rules]: "handle w f c \<Longrightarrow> (\<And>w'. handle w' f c \<Longrightarrow> Q (Inr (length f)) w') \<Longrightarrow> wp file_len Q w"
  by (auto simp: wp_def file_len_def os_call_honest handle_def)

lemma wp_seek [wp_rules]: "handle w f c \<Longrightarrow> (\<And>w'. handle w' f p \<Longrightarrow> Q (Inr ()) w') \<Longrightarrow> wp (file_seek p) Q w"
  by (auto simp: wp_def file_seek_def os_call_honest handle_def)

lemma wp_open [wp_rules]: "handle w f c \<Longrightarrow> (\<And>w'. handle w' f 0 \<Longrightarrow> Q (Inr ()) w') \<Longrightarrow> wp open_existing Q w"
  by (auto simp: wp_def open_existing_def os_call_honest handle_def)

lemma wp_create_new: "honest w \<Longrightarrow> \<not> d_exists w \<Longrightarrow> (\<And>w'. handle w' [] 0 \<Longrightarrow> Q (Inr ()) w') \<Longrightarrow> wp create_new Q w"
  by (auto simp: wp_def create_new_def os_call_honest handle_def)

lemma wp_set_len: "handle w [] c \<Longrightarrow> (\<And>w'. handle w' (replicate n 0) c \<Longrightarrow> Q (Inr ()) w') \<Longrightarrow> wp (set_len n) Q w"
  by (auto simp: wp_def set_len_def os_call_honest handle_def)

lemma wp_map_anon [wp_rules]: "handle w f c \<Longrightarrow> (\<And>w'. handle w' f c \<Longrightarrow> Q (Inr (replicate n 0)) w') \<Longrightarrow> wp (map_anon n) Q w"
  by (auto simp: wp_def map_anon_def os_call_honest handle_def io_return_def)

lemma wp_mapped [wp_rules]:
  "handle w f c \<Longrightarrow> b \<le> length f \<Longrightarrow> a \<le> b \<Longrightarrow> Q (Inr (take (b - a) (drop a f))) w \<Longrightarrow> wp (mapped a b) Q w"
  by (auto simp: wp_def mapped_def io_access_def load_bytes_def handle_def)

lemma wp_store_mapped [wp_rules]:
  "handle w f c \<Longrightarrow> a + length bs \<le> length f \<Longrightarrow>
   (\<And>w'. handle w' (take a f @ bs @ drop (a + length bs) f) c \<Longrightarrow> Q (Inr ()) w') \<Longrightarrow> wp (store_mapped a bs) Q w"
  by (auto simp: wp_def store_mapped_def store_bytes_def handle_def)

section \<open>Transfers of pages\<close>

lemma read_page_wp [wp_rules]:
  assumes "handle w f (base + start)" and "base + start + PAGE_SIZE \<le> length f" and "start + PAGE_SIZE \<le> length m"
    and "\<And>w'. handle w' f (base + start + PAGE_SIZE) \<Longrightarrow>
      Q (Inr (take start m @ take PAGE_SIZE (drop (base + start) f) @ drop (start + PAGE_SIZE) m)) w'"
  shows "wp (read_page base start m) Q w"
  using assms
proof (induction "length (d_answers w)" arbitrary: w m rule: less_induct)
  case less
  note h = less.prems(1) [unfolded handle_def]
  let ?k = "moved (limit w) PAGE_SIZE" and ?p = "drop (base + start) f"
  let ?m = "take start m @ take ?k ?p @ drop (start + ?k) m"
  have k: "?k \<le> PAGE_SIZE" by (simp add: moved_def split: option.split)
  then have len: "length (take ?k ?p) = ?k" using less.prems(2) by simp
  have ld: "\<exists>x. load_bytes m start PAGE_SIZE = Some x" using less.prems(3) by (simp add: load_bytes_def)
  have rd: "file_read PAGE_SIZE w = Some (Inr (take ?k ?p), (tick w)\<lparr>d_cursor := base + start + ?k\<rparr>)"
    using h len by (simp add: file_read_def os_call_honest Let_def)
  have st: "store_bytes m start (take ?k ?p) = Some ?m" using less.prems(3) k len by (simp add: store_bytes_def)
  show ?case
  proof (cases "?k = PAGE_SIZE")
    case True
    then have "read_step base start (m, w) = Some (Inl (Inr ?m, (tick w)\<lparr>d_cursor := base + start + ?k\<rparr>))"
      using ld rd st len by (auto simp: read_step_def)
    then have "read_page base start m w = Some (Inr ?m, (tick w)\<lparr>d_cursor := base + start + ?k\<rparr>)"
      by (simp add: read_page_def iterate_unfold [of _ "(m, w)"])
    moreover have "handle ((tick w)\<lparr>d_cursor := base + start + ?k\<rparr>) f (base + start + PAGE_SIZE)" using h True by (simp add: handle_def)
    ultimately show ?thesis using less.prems(4) True by (auto simp: wp_def)
  next
    case False
    define w1 where "w1 = tick ((tick w)\<lparr>d_cursor := base + start + ?k\<rparr>)\<lparr>d_cursor := base + start\<rparr>"
    have "limit w \<noteq> None" using False by (cases "limit w") (auto simp: moved_def)
    then have lt: "length (d_answers w1) < length (d_answers w)"
      by (cases "d_answers w") (auto simp: w1_def limit_def)
    have "file_seek (base + start) ((tick w)\<lparr>d_cursor := base + start + ?k\<rparr>) = Some (Inr (), w1)"
      using h by (simp add: file_seek_def os_call_honest w1_def)
    then have "read_step base start (m, w) = Some (Inr (?m, w1))"
      using ld rd st len False by (auto simp: read_step_def)
    then have eq: "read_page base start m w = read_page base start ?m w1"
      by (simp add: read_page_def iterate_unfold [of _ "(m, w)"])
    have "wp (read_page base start ?m) Q w1"
    proof (rule less.hyps [OF lt])
      show "handle w1 f (base + start)" using h by (simp add: handle_def w1_def)
      show "base + start + PAGE_SIZE \<le> length f" by (rule less.prems(2))
      show "start + PAGE_SIZE \<le> length ?m" using less.prems(3) k len by simp
      have "take start ?m = take start m" "drop (start + PAGE_SIZE) ?m = drop (start + PAGE_SIZE) m"
        using less.prems(3) k len by (simp_all add: add.commute)
      then show "Q (Inr (take start ?m @ take PAGE_SIZE ?p @ drop (start + PAGE_SIZE) ?m)) w'"
        if "handle w' f (base + start + PAGE_SIZE)" for w' using less.prems(4) [OF that] by (simp only:)
    qed
    then show ?thesis by (simp add: wp_def eq)
  qed
qed

lemma write_page_wp [wp_rules]:
  assumes "handle w f p" and "length bs = PAGE_SIZE" and "p + PAGE_SIZE \<le> length f"
    and "\<And>w'. handle w' (take p f @ bs @ drop (p + PAGE_SIZE) f) (p + PAGE_SIZE) \<Longrightarrow> Q (Inr ()) w'"
  shows "wp (write_page p bs) Q w"
  using assms
proof (induction "length (d_answers w)" arbitrary: w f rule: less_induct)
  case less
  note h = less.prems(1) [unfolded handle_def]
  let ?k = "moved (limit w) (length bs)"
  let ?f = "take p f @ take ?k bs @ drop (p + ?k) f"
  let ?w = "(tick w)\<lparr>d_bytes := ?f, d_cursor := p + ?k\<rparr>"
  have k: "?k \<le> PAGE_SIZE" using less.prems(2) by (simp add: moved_def split: option.split)
  then have "overwrite f p (take ?k bs) = ?f" using less.prems(2,3) by (simp add: overwrite_def min_absorb2)
  moreover have "(tick w)\<lparr>d_cursor := p + ?k\<rparr> = ?w" if "?k = 0" using h that by (cases w) (simp add: tick_def)
  ultimately have wr: "file_write bs w = Some (Inr ?k, ?w)"
    using h by (cases "?k = 0") (simp_all add: file_write_def os_call_honest Let_def)
  show ?case
  proof (cases "?k = PAGE_SIZE")
    case True
    then have "write_page p bs w = Some (Inr (), ?w)"
      unfolding write_page_def by (subst iterate_unfold) (simp add: write_step_def wr)
    moreover have "handle ?w (take p f @ bs @ drop (p + PAGE_SIZE) f) (p + PAGE_SIZE)"
      using h True less.prems(2) by (simp add: handle_def)
    ultimately show ?thesis using less.prems(4) by (auto simp: wp_def)
  next
    case False
    define w1 where "w1 = (tick ?w)\<lparr>d_cursor := p\<rparr>"
    have "limit w \<noteq> None" using False less.prems(2) by (cases "limit w") (auto simp: moved_def)
    then have lt: "length (d_answers w1) < length (d_answers w)"
      by (cases "d_answers w") (auto simp: w1_def limit_def)
    have "file_seek p ?w = Some (Inr (), w1)" using h by (simp add: file_seek_def os_call_honest w1_def)
    then have eq: "write_page p bs w = write_page p bs w1"
      unfolding write_page_def using False by (subst iterate_unfold) (simp add: write_step_def wr)
    have "wp (write_page p bs) Q w1"
    proof (rule less.hyps [OF lt])
      show "handle w1 ?f p" using h by (simp add: handle_def w1_def)
      show "length bs = PAGE_SIZE" by (rule less.prems(2))
      show "p + PAGE_SIZE \<le> length ?f" using less.prems(2,3) k by simp
      have "take p ?f = take p f" "drop (p + PAGE_SIZE) ?f = drop (p + PAGE_SIZE) f"
        using less.prems(2,3) k by (simp_all add: add.commute)
      then show "Q (Inr ()) w'" if "handle w' (take p ?f @ bs @ drop (p + PAGE_SIZE) ?f) (p + PAGE_SIZE)" for w'
        using less.prems(4) that by (simp only:)
    qed
    then show ?thesis by (simp add: wp_def eq)
  qed
qed

text \<open>Runs of pages.\<close>

lemma upt_from: "q < n \<Longrightarrow> [q..<n] = q # [Suc q..<n]"
  by (rule upt_conv_Cons)

lemma page_step: "take PAGE_SIZE (drop (b + q * PAGE_SIZE) m) @ drop (b + Suc q * PAGE_SIZE) m = drop (b + q * PAGE_SIZE) m"
  by (metis add.assoc add.commute append_take_drop_id drop_drop mult_Suc)

lemma write_pages_wp:
  assumes "handle w f (HEADER_SIZE + q * PAGE_SIZE)" and "q \<le> n" and "length m = n * PAGE_SIZE" and "length f = HEADER_SIZE + n * PAGE_SIZE"
    and "\<And>w'. handle w' (take (HEADER_SIZE + q * PAGE_SIZE) f @ drop (q * PAGE_SIZE) m) (HEADER_SIZE + n * PAGE_SIZE) \<Longrightarrow>
      Q (Inr (hashed @ drop (q * PAGE_SIZE) m)) w'"
  shows "wp (write_pages [q..<n] m hashed) Q w"
  using assms
proof (induction "n - q" arbitrary: w f q hashed)
  case 0
  then show ?case by (simp add: wp_pure)
next
  case (Suc d)
  then have q: "q < n" "d = n - Suc q" by auto
  have fit: "Suc q * PAGE_SIZE \<le> n * PAGE_SIZE" using q(1) by (intro mult_le_mono1) simp
  let ?bs = "take PAGE_SIZE (drop (q * PAGE_SIZE) m)" and ?p = "HEADER_SIZE + q * PAGE_SIZE"
  have ld: "load_bytes m (q * PAGE_SIZE) PAGE_SIZE = Some ?bs" using fit Suc.prems(3) by (simp add: load_bytes_def add.commute)
  have bs: "length ?bs = PAGE_SIZE" using fit Suc.prems(3) by simp
  have pf: "?p + PAGE_SIZE \<le> length f" using fit Suc.prems(4) by simp
  show ?case
    unfolding upt_from [OF q(1)] write_pages.simps wp_bind wp_pure ld
  proof (simp, rule write_page_wp [OF Suc.prems(1) bs pf], simp)
    let ?f = "take ?p f @ ?bs @ drop (?p + PAGE_SIZE) f"
    fix w' assume "handle w' ?f (?p + PAGE_SIZE)"
    then have h: "handle w' ?f (HEADER_SIZE + Suc q * PAGE_SIZE)" by (simp add: ac_simps)
    have t: "take (HEADER_SIZE + Suc q * PAGE_SIZE) ?f @ drop (Suc q * PAGE_SIZE) m = take ?p f @ drop (q * PAGE_SIZE) m"
      using bs pf page_step [of 0 q m] by (simp add: add.assoc)
    show "wp (write_pages [Suc q..<n] m (hashed @ ?bs)) Q w'"
    proof (rule Suc.hyps(1) [OF q(2) h])
      show "length ?f = HEADER_SIZE + n * PAGE_SIZE" using bs pf Suc.prems(4) by simp
      show "Q (Inr ((hashed @ ?bs) @ drop (Suc q * PAGE_SIZE) m)) w''"
        if "handle w'' (take (HEADER_SIZE + Suc q * PAGE_SIZE) ?f @ drop (Suc q * PAGE_SIZE) m) (HEADER_SIZE + n * PAGE_SIZE)" for w''
        using Suc.prems(5) that page_step [of 0 q m] unfolding t by simp
    qed (use q Suc.prems in simp_all)
  qed
qed

lemma read_pages_wp:
  assumes "handle w f (HEADER_SIZE + q * PAGE_SIZE)" and "q \<le> n" and "length m = n * PAGE_SIZE" and "length f = HEADER_SIZE + n * PAGE_SIZE"
    and "\<And>w'. handle w' f (HEADER_SIZE + n * PAGE_SIZE) \<Longrightarrow>
      Q (Inr (take (q * PAGE_SIZE) m @ drop (HEADER_SIZE + q * PAGE_SIZE) f, hashed @ drop (HEADER_SIZE + q * PAGE_SIZE) f)) w'"
  shows "wp (read_pages [q..<n] m hashed) Q w"
  using assms
proof (induction "n - q" arbitrary: w m q hashed)
  case 0
  then show ?case by (simp add: wp_pure)
next
  case (Suc d)
  then have q: "q < n" "d = n - Suc q" by auto
  have fit: "Suc q * PAGE_SIZE \<le> n * PAGE_SIZE" using q(1) by (intro mult_le_mono1) simp
  let ?p = "HEADER_SIZE + q * PAGE_SIZE"
  let ?bs = "take PAGE_SIZE (drop ?p f)"
  let ?m = "take (q * PAGE_SIZE) m @ ?bs @ drop (q * PAGE_SIZE + PAGE_SIZE) m"
  have bs: "length ?bs = PAGE_SIZE" using fit Suc.prems(4) by simp
  have pf: "?p + PAGE_SIZE \<le> length f" "q * PAGE_SIZE + PAGE_SIZE \<le> length m" using fit Suc.prems(3,4) by simp_all
  have qm: "length (take (q * PAGE_SIZE) m) = q * PAGE_SIZE" using pf(2) by simp
  have ld: "load_bytes ?m (q * PAGE_SIZE) PAGE_SIZE = Some ?bs" by (rule load_bytes_append) (simp_all only: qm bs)
  have t: "take (Suc q * PAGE_SIZE) ?m @ drop (HEADER_SIZE + Suc q * PAGE_SIZE) f = take (q * PAGE_SIZE) m @ drop ?p f"
    using bs pf page_step [of HEADER_SIZE q f] by (simp add: add.commute)
  have rest: "wp (read_pages [Suc q..<n] ?m (hashed @ ?bs)) Q w'" if "handle w' f (?p + PAGE_SIZE)" for w'
  proof (rule Suc.hyps(1) [OF q(2)])
    show "handle w' f (HEADER_SIZE + Suc q * PAGE_SIZE)" using that by (simp add: ac_simps)
    show "length ?m = n * PAGE_SIZE" using bs pf Suc.prems(3) by simp
    show "Q (Inr (take (Suc q * PAGE_SIZE) ?m @ drop (HEADER_SIZE + Suc q * PAGE_SIZE) f,
        (hashed @ ?bs) @ drop (HEADER_SIZE + Suc q * PAGE_SIZE) f)) w''"
      if "handle w'' f (HEADER_SIZE + n * PAGE_SIZE)" for w''
      using Suc.prems(5) [OF that] unfolding t append_assoc page_step .
  qed (use q Suc.prems in simp_all)
  show ?case
    unfolding upt_from [OF q(1)] read_pages.simps
  proof (subst wp_bind, rule read_page_wp [OF Suc.prems(1) pf], subst sum.case, subst wp_bind)
    fix w' assume "handle w' f (?p + PAGE_SIZE)"
    from rest [OF this] show "wp (io_access (load_bytes ?m (q * PAGE_SIZE) PAGE_SIZE))
        (\<lambda>r w'. case r of Inl e \<Rightarrow> Q (Inl e) w' | Inr bs \<Rightarrow> wp (read_pages [Suc q..<n] ?m (hashed @ bs)) Q w') w'"
      unfolding ld wp_pure by (intro exI [of _ ?bs]) simp
  qed
qed

lemma write_zeros_wp:
  assumes "handle w (replicate (n * PAGE_SIZE) 0) (q * PAGE_SIZE)" and "q \<le> n"
    and "\<And>w'. handle w' (replicate (n * PAGE_SIZE) 0) (n * PAGE_SIZE) \<Longrightarrow> Q (Inr ()) w'"
  shows "wp (write_zeros [q..<n]) Q w"
  using assms
proof (induction "n - q" arbitrary: w q)
  case 0
  then show ?case by (simp add: wp_pure)
next
  case (Suc d)
  then have q: "q < n" "d = n - Suc q" by auto
  have fit: "Suc q * PAGE_SIZE \<le> n * PAGE_SIZE" using q(1) by (intro mult_le_mono1) simp
  let ?z = "\<lambda>n. replicate n (0 :: u8)"
  have "take (q * PAGE_SIZE) (?z (n * PAGE_SIZE)) @ ?z PAGE_SIZE @ drop (q * PAGE_SIZE + PAGE_SIZE) (?z (n * PAGE_SIZE)) = ?z (n * PAGE_SIZE)"
    using fit by (simp add: replicate_add [symmetric] min_def)
  then show ?case
    unfolding upt_from [OF q(1)] write_zeros.simps wp_bind
    using fit Suc.hyps(1) [OF q(2), of _] Suc.prems q
    by (intro write_page_wp [OF Suc.prems(1)]) (auto simp: add.commute)
qed

lemma prefault_zero: "prefault n q (replicate n 0) = Some (replicate n 0)"
proof (induction "n - q" arbitrary: q rule: less_induct)
  case less
  show ?case
  proof (cases "q < n")
    case True
    then have "store_bytes (replicate n 0) q [0 :: u8] = Some (replicate n 0)"
      by (simp add: store_bytes_def list_eq_iff_nth_eq nth_append nth_Cons')
    moreover have "prefault n (q + PAGE_SIZE) (replicate n 0) = Some (replicate n 0)"
      by (rule less) (use True in \<open>simp add: PAGE_SIZE_def\<close>)
    ultimately show ?thesis by (simp add: prefault.simps [of n q])
  qed (simp add: prefault.simps)
qed

lemma hash_pages_all:
  assumes "length m = base + n * PAGE_SIZE" and "q \<le> n"
  shows "hash_pages m base [q..<n] hashed = Some (hashed @ drop (base + q * PAGE_SIZE) m)"
  using assms
proof (induction "n - q" arbitrary: q hashed)
  case (Suc d)
  then have q: "q < n" "d = n - Suc q" by auto
  have "Suc q * PAGE_SIZE \<le> n * PAGE_SIZE" using q(1) by (intro mult_le_mono1) simp
  then have "load_bytes m (q * PAGE_SIZE + base) PAGE_SIZE = Some (take PAGE_SIZE (drop (base + q * PAGE_SIZE) m))"
    using Suc.prems(1) by (simp add: load_bytes_def add.commute)
  then show ?case using Suc.hyps(1) [OF q(2)] Suc.prems q page_step [of base q m] by (simp add: upt_from)
qed simp

section \<open>Pages and headers\<close>

lemma pages_for_eq:
  assumes "HEADER_SIZE + n < 2 ^ 53"
  shows "pages_for n = (HEADER_SIZE + n + (PAGE_SIZE - 1)) div PAGE_SIZE"
proof -
  let ?n = "int (HEADER_SIZE + n)"
  have n: "\<bar>?n\<bar> < 2 ^ 53" using assms by simp
  have p: "2 powr real_of_int (- 12) = 1 / 4096" by (subst powr_int) simp_all
  have "f64_round (real_of_int ?n / 4096) = Fin (real_of_int ?n / 4096)"
    using f64_round_exact [OF n, of "- 12", unfolded p] by (simp only: mult_1_right times_divide_eq_right)
  then have "pages_for n = min (2 ^ 64 - 1) (nat \<lceil>real_of_int ?n / real_of_int 4096\<rceil>)"
    using n by (simp add: pages_for_def f64_of_int_exact PAGE_SIZE_def)
  also have "\<lceil>real_of_int ?n / real_of_int 4096\<rceil> = (?n + 4095) div 4096"
    by (simp only: ceiling_divide_eq_div)
  also have "nat ((?n + 4095) div 4096) = (HEADER_SIZE + n + 4095) div 4096" by (simp add: nat_div_distrib nat_add_distrib)
  finally have "pages_for n = min (2 ^ 64 - 1) ((HEADER_SIZE + n + 4095) div 4096)" .
  moreover have "(HEADER_SIZE + n + 4095) div 4096 \<le> 2 ^ 64 - 1" using assms by simp
  ultimately show ?thesis by (simp add: PAGE_SIZE_def)
qed

lemma pages_for_pages:
  assumes "HEADER_SIZE + n * PAGE_SIZE < 2 ^ 53"
  shows "pages_for (n * PAGE_SIZE) * PAGE_SIZE = HEADER_SIZE + n * PAGE_SIZE"
  using pages_for_eq [OF assms] by (simp add: HEADER_SIZE_def PAGE_SIZE_def)

definition header_ok :: "header \<Rightarrow> bool" where
  "header_ok h \<longleftrightarrow> length (h_checksum h) = 32 \<and> length (h_magic h) = 8 \<and> stamps_ok (h_times h) \<and> length (h_pad h) = 4008"

lemma length_header_bytes: "header_ok h \<Longrightarrow> length (header_bytes h) = HEADER_SIZE"
  by (simp add: header_ok_def stamps_ok_def header_bytes_def HEADER_SIZE_def)

lemma header_codec: "header_ok h \<Longrightarrow> header_of_bytes (header_bytes h) = h"
  by (cases h; cases "h_times h")
    (simp add: header_ok_def stamps_ok_def header_bytes_def header_of_bytes_def field_def le_word_le_bytes_id)

interpretation header_codec: packed_codec header_ok header_bytes header_of_bytes
  by unfold_locales (rule header_codec)

end
