(* ===== verification/DataPools.thy ===== *)
theory DataPools
  imports DataTierProps
begin

text \<open>
  What the two kinds of pool promise: the image a flush leaves in the file, the verdict of an open on any file, and the
  interface of a pool that may be flushed and opened again, as a locale that both kinds implement.
\<close>

section \<open>The image of a pool and the verdict on a file\<close>

definition stamped_header :: "stamps \<Rightarrow> u64 \<Rightarrow> header" where
  "stamped_header now v = (pool_header_new now)\<lparr>h_user_version := v\<rparr>"

definition saved :: "(u8 list \<Rightarrow> u8 list) \<Rightarrow> stamps \<Rightarrow> u64 \<Rightarrow> u8 list \<Rightarrow> u8 list" where
  "saved blake3 now v content =
     header_bytes (set_checksum (blake3 (header_bytes (stamped_header now v) @ content)) (stamped_header now v)) @ content"

definition open_verdict :: "(u8 list \<Rightarrow> u8 list) \<Rightarrow> nat \<Rightarrow> u64 \<Rightarrow> u8 list \<Rightarrow> io_error option" where
  "open_verdict blake3 n v f = (let h = header_of_bytes (take HEADER_SIZE f) in
     if length f \<noteq> pages_for n * PAGE_SIZE then Some (OtherError ''filesize mismatch'')
     else if h_magic h \<noteq> MAGIC then Some (OtherError ''header is not recognized'')
     else if h_version h \<noteq> VERSION then Some (OtherError ''file has incompatible version'')
     else if h_user_version h \<noteq> v then Some (OtherError ''user version mismatch'')
     else if h_checksum h \<noteq> take 32 (blake3 (header_bytes (zero_checksum h) @ take n (drop HEADER_SIZE f)))
       then Some (OtherError ''checksum mismatch'')
     else None)"

lemma stamped_header_ok: "stamps_ok now \<Longrightarrow> header_ok (stamped_header now v)"
  by (simp add: header_ok_def stamped_header_def pool_header_new_def MAGIC_def)

lemma set_checksum_ok: "header_ok h \<Longrightarrow> length hash = 32 \<Longrightarrow> header_ok (set_checksum hash h)"
  by (simp add: header_ok_def set_checksum_def)

lemma zero_set_checksum:
  "length hash = 32 \<Longrightarrow> zero_checksum (set_checksum hash (stamped_header now v)) = stamped_header now v"
  by (simp add: zero_checksum_def set_checksum_def stamped_header_def pool_header_new_def)

lemma stamped_header_fields:
  "h_magic (set_checksum hash (stamped_header now v)) = MAGIC" "h_version (set_checksum hash (stamped_header now v)) = VERSION"
  "h_user_version (set_checksum hash (stamped_header now v)) = v" "h_times (set_checksum hash (stamped_header now v)) = now"
  "h_checksum (set_checksum hash (stamped_header now v)) = take 32 hash"
  by (simp_all add: set_checksum_def stamped_header_def pool_header_new_def)

text \<open>The parts of an image.\<close>

lemma saved_parts:
  assumes "\<And>bs. length (blake3 bs) = 32" and "stamps_ok now"
  shows "take HEADER_SIZE (saved blake3 now v content)
      = header_bytes (set_checksum (blake3 (header_bytes (stamped_header now v) @ content)) (stamped_header now v))"
    and "drop HEADER_SIZE (saved blake3 now v content) = content"
    and "header_of_bytes (take HEADER_SIZE (saved blake3 now v content))
      = set_checksum (blake3 (header_bytes (stamped_header now v) @ content)) (stamped_header now v)"
    and "length (saved blake3 now v content) = HEADER_SIZE + length content"
proof -
  let ?h = "set_checksum (blake3 (header_bytes (stamped_header now v) @ content)) (stamped_header now v)"
  have ok: "header_ok ?h" using assms by (intro set_checksum_ok stamped_header_ok)
  note len = length_header_bytes [OF ok]
  show "take HEADER_SIZE (saved blake3 now v content) = header_bytes ?h" "drop HEADER_SIZE (saved blake3 now v content) = content"
    "length (saved blake3 now v content) = HEADER_SIZE + length content"
    by (simp_all add: saved_def len)
  then show "header_of_bytes (take HEADER_SIZE (saved blake3 now v content)) = ?h" by (simp add: header_codec [OF ok])
qed

lemma open_verdict_saved:
  assumes "\<And>bs. length (blake3 bs) = 32" and "stamps_ok now" and "length content = pages_for n * PAGE_SIZE - HEADER_SIZE"
    and "HEADER_SIZE \<le> pages_for n * PAGE_SIZE"
  shows "open_verdict blake3 n v' (saved blake3 now v content) =
    (if v' \<noteq> v then Some (OtherError ''user version mismatch'')
     else if blake3 (header_bytes (stamped_header now v) @ content) \<noteq> blake3 (header_bytes (stamped_header now v) @ take n content)
       then Some (OtherError ''checksum mismatch'') else None)"
proof -
  have full: "take 32 (blake3 bs) = blake3 bs" for bs by (simp add: assms(1))
  have len: "length (saved blake3 now v content) = pages_for n * PAGE_SIZE" using assms(3,4) by (simp only: saved_parts(4) [OF assms(1,2)])
  show ?thesis
    unfolding open_verdict_def Let_def len saved_parts(2,3) [OF assms(1,2)] stamped_header_fields zero_set_checksum [OF assms(1)] full
    by (cases "v = v'") simp_all
qed

section \<open>Opening\<close>

lemma check_verdict:
  "header_check h = (if h_magic h \<noteq> MAGIC then Inl (OtherError ''header is not recognized'')
     else if h_version h \<noteq> VERSION then Inl (OtherError ''file has incompatible version'') else Inr ())"
  by (simp add: header_check_def check_magic_def check_version_def)

definition as_result :: "io_error option \<Rightarrow> 'a \<Rightarrow> io_error + 'a" where
  "as_result e x = (case e of None \<Rightarrow> Inr x | Some e \<Rightarrow> Inl e)"

lemma as_result_simps [simp]: "as_result None x = Inr x" "as_result (Some e) x = Inl e"
  by (simp_all add: as_result_def)

lemma wp_call_eqs:
  assumes "honest w"
  shows "wp plain_call R w \<longleftrightarrow> R (Inr ()) (tick w)"
    "wp file_len Q w \<longleftrightarrow> Q (Inr (length (d_bytes w))) (tick w)"
    "wp (file_seek p) R w \<longleftrightarrow> R (Inr ()) ((tick w)\<lparr>d_cursor := p\<rparr>)"
    "wp open_existing R w \<longleftrightarrow> (if d_exists w then R (Inr ()) ((tick w)\<lparr>d_cursor := 0\<rparr>) else R (Inl (OsError ENOENT)) (tick w))"
    "wp (map_anon n) S w \<longleftrightarrow> S (Inr (replicate n 0)) (tick w)"
  using assms by (simp_all add: wp_def plain_call_def file_len_def file_seek_def open_existing_def map_anon_def os_call_honest io_return_def)

lemma wp_mapped_eq:
  "wp (mapped a b) Q w \<longleftrightarrow> (\<exists>bs. load_bytes (d_bytes w) a (b - a) = Some bs \<and> Q (Inr bs) w)"
  by (auto simp: wp_def mapped_def io_access_def)

lemma handle_simps:
  "handle w f c \<Longrightarrow> honest w" "handle w f c \<Longrightarrow> d_exists w" "handle w f c \<Longrightarrow> d_bytes w = f"
  "handle w f c \<Longrightarrow> handle (tick w) f c" "handle w f c \<Longrightarrow> handle (w\<lparr>d_cursor := p\<rparr>) f p"
  by (simp_all add: handle_def)

lemma mmap_open_eval:
  assumes "handle w f c" and "HEADER_SIZE + n \<le> pages_for n * PAGE_SIZE"
  obtains w' where "handle w' f 0"
    "mmap_open blake3 n v w = Some (as_result (open_verdict blake3 n v f) \<lparr>mf_data = (HEADER_SIZE, HEADER_SIZE + n), mf_user_version = v\<rparr>, w')"
proof -
  define h where "h = header_of_bytes (take HEADER_SIZE f)"
  note a = handle_simps(1-3) [OF assms(1)]
  have sum: "take 32 f = h_checksum h" by (simp add: h_def header_of_bytes_def field_def HEADER_SIZE_def min_def)
  let ?Q = "\<lambda>r w'. r = as_result (open_verdict blake3 n v f) \<lparr>mf_data = (HEADER_SIZE, HEADER_SIZE + n), mf_user_version = v\<rparr> \<and> handle w' f 0"
  have hd: "handle (tick ((tick w)\<lparr>d_cursor := 0\<rparr>)) f 0" "handle (tick (tick ((tick w)\<lparr>d_cursor := 0\<rparr>))) f 0"
    using assms(1) by (simp_all add: handle_def)
  have "wp (mmap_open blake3 n v) ?Q w"
  proof (cases "length f = pages_for n * PAGE_SIZE")
    case False
    then show ?thesis using hd a by (simp add: mmap_open_def Let_def wp_bind wp_pure wp_call_eqs open_verdict_def)
  next
    case True
    then have ld: "load_bytes f 0 HEADER_SIZE = Some (take HEADER_SIZE f)" "load_bytes f HEADER_SIZE n = Some (take n (drop HEADER_SIZE f))"
      "load_bytes f 0 32 = Some (h_checksum h)" using assms(2) by (simp_all add: load_bytes_def HEADER_SIZE_def sum)
    show ?thesis
      unfolding mmap_open_def Let_def wp_bind
      using hd a True
      by (simp add: wp_bind wp_pure wp_call_eqs wp_mapped_eq ld h_def [symmetric] check_verdict open_verdict_def Let_def)
  qed
  then show thesis using that by (auto simp: wp_def)
qed

lemma wp_eval: "m w = Some (r, w') \<Longrightarrow> wp m Q w \<longleftrightarrow> Q r w'"
  by (simp add: wp_def)

lemma wp_obtain:
  assumes "wp m (\<lambda>r w'. r = x \<and> P w') w"
  obtains w' where "m w = Some (x, w')" "P w'"
  using assms by (auto simp: wp_def)

lemma wp_memory_create: "honest w \<Longrightarrow> wp (memory_create n) Q w \<longleftrightarrow> Q (Inr \<lparr>mem_mmap = replicate n 0, mem_size = n\<rparr>) (tick w)"
  by (simp add: memory_create_def wp_bind wp_pure wp_call_eqs prefault_zero)

lemma file_backed_open_eval:
  assumes "handle w f c" and "HEADER_SIZE + k * PAGE_SIZE < 2 ^ 53"
  obtains w' c' where "handle w' f c'"
    "file_backed_open blake3 (k * PAGE_SIZE) v w = Some (as_result (open_verdict blake3 (k * PAGE_SIZE) v f)
       \<lparr>fb_memory = \<lparr>mem_mmap = drop HEADER_SIZE f, mem_size = k * PAGE_SIZE\<rparr>,
         fb_header = header_bytes (zero_checksum (header_of_bytes (take HEADER_SIZE f))),
         fb_file_data = (HEADER_SIZE, HEADER_SIZE + k * PAGE_SIZE), fb_user_version = v\<rparr>, w')"
proof -
  let ?n = "k * PAGE_SIZE" and ?h = "header_of_bytes (take HEADER_SIZE f)"
  let ?r = "as_result (open_verdict blake3 ?n v f) \<lparr>fb_memory = \<lparr>mem_mmap = drop HEADER_SIZE f, mem_size = ?n\<rparr>,
      fb_header = header_bytes (zero_checksum ?h), fb_file_data = (HEADER_SIZE, HEADER_SIZE + ?n), fb_user_version = v\<rparr>"
  define w0 where "w0 = (tick (tick (tick ((tick w)\<lparr>d_cursor := 0\<rparr>))))\<lparr>d_cursor := 0\<rparr>"
  note a = handle_simps(1-3) [OF assms(1)] and total = pages_for_pages [OF assms(2)]
  have w0: "handle w0 f (0 + 0)" and wl: "handle (tick ((tick w)\<lparr>d_cursor := 0\<rparr>)) f 0" using assms(1) by (simp_all add: handle_def w0_def)
  have data_pages: "(HEADER_SIZE + ?n - HEADER_SIZE) div PAGE_SIZE = k" by (simp add: PAGE_SIZE_def)
  have "\<exists>w' c'. file_backed_open blake3 ?n v w = Some (?r, w') \<and> handle w' f c'"
  proof (cases "length f = HEADER_SIZE + ?n")
    case False
    then have "wp (file_backed_open blake3 ?n v) (\<lambda>r w'. r = ?r \<and> handle w' f 0) w"
      using wl a by (simp add: file_backed_open_def Let_def wp_bind wp_pure wp_call_eqs open_verdict_def total)
    then show ?thesis by (auto simp: wp_def)
  next
    case True
    have PH: "PAGE_SIZE = HEADER_SIZE" by (simp add: PAGE_SIZE_def HEADER_SIZE_def)
    have fits: "0 + 0 + PAGE_SIZE \<le> length f" "0 + PAGE_SIZE \<le> length (replicate HEADER_SIZE (0 :: u8))" using True PH by simp_all
    have "wp (read_page 0 0 (replicate HEADER_SIZE 0)) (\<lambda>r w'. r = Inr (take HEADER_SIZE f) \<and> handle w' f (0 + 0 + PAGE_SIZE)) w0"
      by (rule read_page_wp [OF w0 fits]) (simp add: PH)
    then obtain w1 where rd: "read_page 0 0 (replicate HEADER_SIZE 0) w0 = Some (Inr (take HEADER_SIZE f), w1)" and w1: "handle w1 f (0 + 0 + PAGE_SIZE)"
      by (rule wp_obtain)
    define w2 where "w2 = (tick w1)\<lparr>d_cursor := HEADER_SIZE\<rparr>"
    have w2: "handle w2 f (HEADER_SIZE + 0 * PAGE_SIZE)" using w1 by (simp add: handle_def w2_def)
    have "wp (read_pages [0..<k] (replicate ?n 0) (header_bytes (zero_checksum ?h)))
        (\<lambda>r w'. r = Inr (drop HEADER_SIZE f, header_bytes (zero_checksum ?h) @ drop HEADER_SIZE f) \<and> handle w' f (HEADER_SIZE + k * PAGE_SIZE)) w2"
      by (rule read_pages_wp [OF w2 le0 _ True]) simp_all
    then obtain w3 where rp: "read_pages [0..<k] (replicate ?n 0) (header_bytes (zero_checksum ?h)) w2
        = Some (Inr (drop HEADER_SIZE f, header_bytes (zero_checksum ?h) @ drop HEADER_SIZE f), w3)"
      and w3: "handle w3 f (HEADER_SIZE + k * PAGE_SIZE)"
      by (rule wp_obtain)
    note rd_wp = wp_eval [where m = "read_page 0 0 (replicate HEADER_SIZE 0)", OF rd]
      and rp_wp = wp_eval [where m = "read_pages [0..<k] (replicate ?n 0) (header_bytes (zero_checksum ?h))", OF rp]
    have data: "take ?n (drop HEADER_SIZE f) = drop HEADER_SIZE f" using True by simp
    have hw: "honest w1" using w1 by (simp add: handle_def)
    have "wp (file_backed_open blake3 ?n v) (\<lambda>r w'. r = ?r \<and> (\<exists>c'. handle w' f c')) w"
      unfolding file_backed_open_def Let_def fst_conv snd_conv data_pages
      using w1 w3 a hw True
      by (auto simp: wp_bind wp_pure wp_call_eqs wp_memory_create total memory_as_slice_def w0_def [symmetric] rd_wp
        rp_wp w2_def [symmetric] check_verdict open_verdict_def Let_def data simp del: read_pages.simps)
    then show ?thesis by (auto simp: wp_def)
  qed
  then show thesis using that by blast
qed

section \<open>Creating and flushing\<close>

lemma mmap_flush_eval:
  assumes "handle w f c" and "length f = HEADER_SIZE + k * PAGE_SIZE"
    and "\<And>bs. length (blake3 bs) = 32" and "stamps_ok now"
  obtains w' where "mmap_flush blake3 now mf w = Some (Inr (), w')" "handle w' (saved blake3 now (mf_user_version mf) (drop HEADER_SIZE f)) c"
proof -
  let ?fresh = "stamped_header now (mf_user_version mf)" and ?d = "drop HEADER_SIZE f"
  let ?h = "set_checksum (blake3 (header_bytes ?fresh @ ?d)) ?fresh"
  have hash: "hash_pages f HEADER_SIZE [0..<k] (header_bytes ?fresh) = Some (header_bytes ?fresh @ ?d)"
    using hash_pages_all [OF assms(2) le0] by simp
  have len: "length (header_bytes ?h) = HEADER_SIZE"
    using assms by (intro length_header_bytes set_checksum_ok stamped_header_ok)
  have pages: "(length f - HEADER_SIZE) div PAGE_SIZE = k" "\<not> length f < HEADER_SIZE" using assms(2) by (simp_all add: PAGE_SIZE_def)
  have st: "store_bytes f 0 (header_bytes ?h) = Some (saved blake3 now (mf_user_version mf) ?d)"
    using assms(2) len by (simp add: store_bytes_def saved_def)
  define w1 where "w1 = (tick w)\<lparr>d_bytes := saved blake3 now (mf_user_version mf) ?d\<rparr>"
  have w1: "handle w1 (saved blake3 now (mf_user_version mf) ?d) c" using assms(1) by (simp add: handle_def w1_def)
  have p: "plain_call u = Some (Inr (), tick u)" if "honest u" for u using that by (simp add: plain_call_def os_call_honest io_return_def)
  have "mmap_flush blake3 now mf w = Some (Inr (), tick w1)"
    using handle_simps(1,3) [OF assms(1)] handle_simps(1) [OF w1]
    by (simp add: mmap_flush_def io_bind_def Let_def p pages stamped_header_def [symmetric] hash io_access_def store_mapped_def st w1_def [symmetric])
  then show thesis using handle_simps(4) [OF w1] by (rule that)
qed

lemma file_backed_flush_eval:
  assumes "handle w f c" and "length f = HEADER_SIZE + k * PAGE_SIZE"
    and "\<And>bs. length (blake3 bs) = 32" and "stamps_ok now"
    and "fb_file_data fb = (HEADER_SIZE, HEADER_SIZE + k * PAGE_SIZE)" and "length (memory_as_slice (fb_memory fb)) = k * PAGE_SIZE"
  obtains w' c' where "file_backed_flush blake3 now fb w = Some (Inr (), w')"
    "handle w' (saved blake3 now (fb_user_version fb) (memory_as_slice (fb_memory fb))) c'"
proof -
  let ?fresh = "stamped_header now (fb_user_version fb)" and ?m = "memory_as_slice (fb_memory fb)"
  let ?h = "set_checksum (blake3 (header_bytes ?fresh @ ?m)) ?fresh"
  have PH: "PAGE_SIZE = HEADER_SIZE" by (simp add: PAGE_SIZE_def HEADER_SIZE_def)
  have len: "length (header_bytes ?h) = HEADER_SIZE"
    using assms(3,4) by (intro length_header_bytes set_checksum_ok stamped_header_ok)
  have pages: "(HEADER_SIZE + k * PAGE_SIZE - HEADER_SIZE) div PAGE_SIZE = k" by (simp add: PAGE_SIZE_def)
  define w1 where "w1 = (tick w)\<lparr>d_cursor := HEADER_SIZE\<rparr>"
  have w1: "handle w1 f (HEADER_SIZE + 0 * PAGE_SIZE)" using assms(1) by (simp add: handle_def w1_def)
  have "wp (write_pages [0..<k] ?m (header_bytes ?fresh))
      (\<lambda>r w'. r = Inr (header_bytes ?fresh @ ?m) \<and> handle w' (take HEADER_SIZE f @ ?m) (HEADER_SIZE + k * PAGE_SIZE)) w1"
    by (rule write_pages_wp [OF w1 le0 assms(6,2)]) simp
  then obtain w2 where wr: "write_pages [0..<k] ?m (header_bytes ?fresh) w1 = Some (Inr (header_bytes ?fresh @ ?m), w2)"
    and w2: "handle w2 (take HEADER_SIZE f @ ?m) (HEADER_SIZE + k * PAGE_SIZE)" by (rule wp_obtain)
  define w3 where "w3 = (tick w2)\<lparr>d_cursor := 0\<rparr>"
  have w3: "handle w3 (take HEADER_SIZE f @ ?m) 0" using w2 by (simp add: handle_def w3_def)
  have "wp (write_page 0 (header_bytes ?h)) (\<lambda>r w'. r = Inr () \<and> handle w' (saved blake3 now (fb_user_version fb) ?m) PAGE_SIZE) w3"
    by (rule write_page_wp [OF w3]) (use len assms(2) in \<open>simp_all add: PH saved_def\<close>)
  then obtain w4 where wh: "write_page 0 (header_bytes ?h) w3 = Some (Inr (), w4)"
    and w4: "handle w4 (saved blake3 now (fb_user_version fb) ?m) PAGE_SIZE" by (rule wp_obtain)
  note wr_wp = wp_eval [where m = "write_pages [0..<k] ?m (header_bytes ?fresh)", OF wr]
    and wh_wp = wp_eval [where m = "write_page 0 (header_bytes ?h)", OF wh]
  have "wp (file_backed_flush blake3 now fb) (\<lambda>r w'. r = Inr () \<and> handle w' (saved blake3 now (fb_user_version fb) ?m) PAGE_SIZE) w"
    unfolding file_backed_flush_def Let_def assms(5) fst_conv snd_conv pages stamped_header_def [symmetric]
    using handle_simps(1) [OF assms(1)] handle_simps(1) [OF w2] handle_simps(1,4) [OF w4]
    by (simp add: wp_bind wp_call_eqs w1_def [symmetric] wr_wp w3_def [symmetric] wh_wp del: write_pages.simps)
  then show thesis using that by (auto simp: wp_def)
qed

lemma mmap_create_eval:
  assumes "honest w" and "\<not> d_exists w"
  obtains w' where "mmap_create n v w = Some (Inr \<lparr>mf_data = (HEADER_SIZE, pages_for n * PAGE_SIZE), mf_user_version = v\<rparr>, w')"
    "handle w' (replicate (pages_for n * PAGE_SIZE) 0) 0"
proof -
  let ?z = "replicate (pages_for n * PAGE_SIZE) 0 :: u8 list"
  have p: "plain_call u = Some (Inr (), tick u)" if "honest u" for u using that by (simp add: plain_call_def os_call_honest io_return_def)
  have "\<exists>w'. mmap_create n v w = Some (Inr \<lparr>mf_data = (HEADER_SIZE, pages_for n * PAGE_SIZE), mf_user_version = v\<rparr>, w') \<and> handle w' ?z 0"
    using assms by (simp add: mmap_create_def Let_def io_bind_def create_new_def set_len_def os_call_honest p prefault_zero io_return_def handle_def)
  then show thesis using that by blast
qed

lemma file_backed_create_eval:
  assumes "honest w" and "\<not> d_exists w"
  obtains w' c' where "file_backed_create n v w = Some (Inr \<lparr>fb_memory = \<lparr>mem_mmap = replicate n 0, mem_size = n\<rparr>,
      fb_header = replicate HEADER_SIZE 0, fb_file_data = (HEADER_SIZE, pages_for n * PAGE_SIZE), fb_user_version = v\<rparr>, w')"
    "handle w' (replicate (pages_for n * PAGE_SIZE) 0) c'"
proof -
  let ?z = "replicate (pages_for n * PAGE_SIZE) 0 :: u8 list" and ?p = "pages_for n"
  let ?r = "\<lparr>fb_memory = \<lparr>mem_mmap = replicate n 0, mem_size = n\<rparr>,
      fb_header = replicate HEADER_SIZE 0, fb_file_data = (HEADER_SIZE, pages_for n * PAGE_SIZE), fb_user_version = v\<rparr>"
  define w1 where "w1 = tick ((tick w)\<lparr>d_exists := True, d_bytes := [], d_cursor := 0\<rparr>)\<lparr>d_bytes := ?z\<rparr>"
  have w1: "handle w1 ?z (0 * PAGE_SIZE)" using assms by (simp add: handle_def w1_def)
  have "wp (write_zeros [0..<?p]) (\<lambda>r w'. r = Inr () \<and> handle w' ?z (?p * PAGE_SIZE)) w1"
    by (rule write_zeros_wp [OF w1 le0]) simp
  then obtain w2 where wz: "write_zeros [0..<?p] w1 = Some (Inr (), w2)" and w2: "handle w2 ?z (?p * PAGE_SIZE)" by (rule wp_obtain)
  note wz_wp = wp_eval [where m = "write_zeros [0..<?p]", OF wz]
  have c: "wp create_new Q w \<longleftrightarrow> Q (Inr ()) ((tick w)\<lparr>d_exists := True, d_bytes := [], d_cursor := 0\<rparr>)" for Q
    using assms by (simp add: wp_def create_new_def os_call_honest)
  have s: "wp (set_len n) Q u \<longleftrightarrow> Q (Inr ()) ((tick u)\<lparr>d_bytes := replicate n 0\<rparr>)" if "honest u" "d_bytes u = []" for n Q u
    using that by (simp add: wp_def set_len_def os_call_honest)
  have "wp (file_backed_create n v) (\<lambda>r w'. r = Inr ?r \<and> handle w' ?z (?p * PAGE_SIZE)) w"
    unfolding file_backed_create_def Let_def
    using assms(1) handle_simps(1) [OF w2] handle_simps(4) [OF handle_simps(4) [OF w2]]
    by (simp add: wp_bind c s w1_def [symmetric] wz_wp wp_call_eqs wp_memory_create wp_pure del: write_zeros.simps)
  then show thesis using that by (auto simp: wp_def)
qed

section \<open>The interface of a pool\<close>

text \<open>
  A pool of \<open>k\<close> whole pages: created, opened, flushed, with its content in some state of the file. An open answers with the
  verdict on the file and otherwise holds the data behind the header; a flush leaves the image of the content.
\<close>

definition hash_ok :: "(u8 list \<Rightarrow> u8 list) \<Rightarrow> bool" where
  "hash_ok blake3 \<longleftrightarrow> (\<forall>bs. length (blake3 bs) = 32)"

definition sized :: "nat \<Rightarrow> bool" where
  "sized k \<longleftrightarrow> HEADER_SIZE + k * PAGE_SIZE < 2 ^ 53"

locale datapool =
  fixes create_pool :: "nat \<Rightarrow> u64 \<Rightarrow> 'p io"
    and open_pool :: "(u8 list \<Rightarrow> u8 list) \<Rightarrow> nat \<Rightarrow> u64 \<Rightarrow> 'p io"
    and flush_pool :: "(u8 list \<Rightarrow> u8 list) \<Rightarrow> stamps \<Rightarrow> 'p \<Rightarrow> unit io"
    and content :: "'p \<Rightarrow> disk \<Rightarrow> u8 list"
    and pool_ok :: "nat \<Rightarrow> u64 \<Rightarrow> 'p \<Rightarrow> disk \<Rightarrow> bool"
  assumes creates: "sized k \<Longrightarrow> honest w \<Longrightarrow> \<not> d_exists w \<Longrightarrow>
      \<exists>p w'. create_pool (k * PAGE_SIZE) v w = Some (Inr p, w') \<and> pool_ok k v p w' \<and> content p w' = replicate (k * PAGE_SIZE) 0"
    and opens: "sized k \<Longrightarrow> handle w f c \<Longrightarrow> \<exists>r w'. open_pool blake3 (k * PAGE_SIZE) v w = Some (r, w')
      \<and> (case open_verdict blake3 (k * PAGE_SIZE) v f of
           Some e \<Rightarrow> r = Inl e
         | None \<Rightarrow> \<exists>p. r = Inr p \<and> pool_ok k v p w' \<and> content p w' = drop HEADER_SIZE f)"
    and flushes: "hash_ok blake3 \<Longrightarrow> stamps_ok now \<Longrightarrow> pool_ok k v p w \<Longrightarrow>
      \<exists>w' c. flush_pool blake3 now p w = Some (Inr (), w') \<and> handle w' (saved blake3 now v (content p w)) c
        \<and> pool_ok k v p w' \<and> content p w' = content p w"
    and content_size: "pool_ok k v p w \<Longrightarrow> length (content p w) = k * PAGE_SIZE"

text \<open>What one pool flushed another opens.\<close>

definition reopens ::
  "(stamps \<Rightarrow> 'p \<Rightarrow> unit io) \<Rightarrow> ('p \<Rightarrow> disk \<Rightarrow> u8 list) \<Rightarrow> (u64 \<Rightarrow> 'q io) \<Rightarrow> ('q \<Rightarrow> disk \<Rightarrow> u8 list)
   \<Rightarrow> (u64 \<Rightarrow> 'q \<Rightarrow> disk \<Rightarrow> bool) \<Rightarrow> u64 \<Rightarrow> stamps \<Rightarrow> 'p \<Rightarrow> disk \<Rightarrow> bool" where
  "reopens flush_pool content open_pool content' ok' v now p w \<longleftrightarrow>
     (\<exists>w1. flush_pool now p w = Some (Inr (), w1) \<and> content p w1 = content p w
       \<and> (\<forall>w2 v'. honest w2 \<and> d_exists w2 \<and> d_bytes w2 = d_bytes w1 \<longrightarrow> (\<exists>r w3. open_pool v' w2 = Some (r, w3)
         \<and> (if v' = v then \<exists>q. r = Inr q \<and> content' q w3 = content p w \<and> ok' v q w3
            else r = Inl (OtherError ''user version mismatch'')))))"

locale pool_transfer =
  from_pool: datapool create_pool open_pool flush_pool content pool_ok +
  to_pool: datapool create_pool' open_pool' flush_pool' content' pool_ok'
  for create_pool :: "nat \<Rightarrow> u64 \<Rightarrow> 'p io" and open_pool flush_pool content pool_ok
    and create_pool' :: "nat \<Rightarrow> u64 \<Rightarrow> 'q io" and open_pool' flush_pool' content' pool_ok'
begin

lemma transfer:
  assumes "hash_ok blake3" and "sized k" and "stamps_ok now" and "pool_ok k v p w"
  shows "reopens (flush_pool blake3) content (open_pool' blake3 (k * PAGE_SIZE)) content' (pool_ok' k) v now p w"
proof -
  from from_pool.flushes [OF assms(1,3,4)] obtain w1 c where f: "flush_pool blake3 now p w = Some (Inr (), w1)"
    "handle w1 (saved blake3 now v (content p w)) c" "content p w1 = content p w" by blast
  have h32: "\<And>bs. length (blake3 bs) = 32" using assms(1) by (simp add: hash_ok_def)
  have tot: "pages_for (k * PAGE_SIZE) * PAGE_SIZE = HEADER_SIZE + k * PAGE_SIZE"
    using assms(2) by (simp add: sized_def pages_for_pages)
  note len = from_pool.content_size [OF assms(4)]
  have verdict: "open_verdict blake3 (k * PAGE_SIZE) v' (saved blake3 now v (content p w))
      = (if v' = v then None else Some (OtherError ''user version mismatch''))" for v'
    using open_verdict_saved [where content = "content p w" and n = "k * PAGE_SIZE" and v' = v' and v = v, OF h32 assms(3)] len tot by simp
  have "\<exists>r w3. open_pool' blake3 (k * PAGE_SIZE) v' w2 = Some (r, w3) \<and> (if v' = v then \<exists>q. r = Inr q \<and> content' q w3 = content p w \<and> pool_ok' k v q w3
      else r = Inl (OtherError ''user version mismatch''))"
    if "honest w2" "d_exists w2" "d_bytes w2 = d_bytes w1" for w2 v'
  proof -
    have "handle w2 (saved blake3 now v (content p w)) (d_cursor w2)" using that f(2) by (simp add: handle_def)
    from to_pool.opens [OF assms(2) this, of blake3 v'] show ?thesis
      using saved_parts(2) [where content = "content p w" and v = v, OF h32 assms(3)] by (cases "v' = v") (auto simp: verdict)
  qed
  then show ?thesis using f(1,3) unfolding reopens_def by blast
qed

end

text \<open>The mapped file.\<close>

definition mmap_content :: "mmap_file \<Rightarrow> disk \<Rightarrow> u8 list" where
  "mmap_content mf w = take (snd (mf_data mf) - fst (mf_data mf)) (drop (fst (mf_data mf)) (d_bytes w))"

definition mmap_ok :: "nat \<Rightarrow> u64 \<Rightarrow> mmap_file \<Rightarrow> disk \<Rightarrow> bool" where
  "mmap_ok k v mf w \<longleftrightarrow> mf = \<lparr>mf_data = (HEADER_SIZE, HEADER_SIZE + k * PAGE_SIZE), mf_user_version = v\<rparr>
     \<and> honest w \<and> d_exists w \<and> length (d_bytes w) = HEADER_SIZE + k * PAGE_SIZE"

lemma mmap_slice_content: "mmap_ok k v mf w \<Longrightarrow> mmap_as_slice mf w = Some (Inr (mmap_content mf w), w)"
  by (auto simp: mmap_ok_def mmap_as_slice_def mapped_def io_access_def load_bytes_def mmap_content_def)

interpretation mmap_pool: datapool mmap_create mmap_open mmap_flush mmap_content mmap_ok
proof unfold_locales
  fix k :: nat and v :: u64 and w assume k: "sized k" and w: "honest w" "\<not> d_exists w"
  have tot: "pages_for (k * PAGE_SIZE) * PAGE_SIZE = HEADER_SIZE + k * PAGE_SIZE" using k by (simp add: sized_def pages_for_pages)
  obtain w' where "mmap_create (k * PAGE_SIZE) v w = Some (Inr \<lparr>mf_data = (HEADER_SIZE, pages_for (k * PAGE_SIZE) * PAGE_SIZE), mf_user_version = v\<rparr>, w')"
    "handle w' (replicate (pages_for (k * PAGE_SIZE) * PAGE_SIZE) 0) 0" by (rule mmap_create_eval [OF w])
  then show "\<exists>p w'. mmap_create (k * PAGE_SIZE) v w = Some (Inr p, w') \<and> mmap_ok k v p w' \<and> mmap_content p w' = replicate (k * PAGE_SIZE) 0"
    by (auto simp: tot mmap_ok_def mmap_content_def handle_def)
next
  fix k :: nat and v :: u64 and w f c and blake3 :: "u8 list \<Rightarrow> u8 list" assume k: "sized k" and h: "handle w f c"
  have tot: "pages_for (k * PAGE_SIZE) * PAGE_SIZE = HEADER_SIZE + k * PAGE_SIZE" using k by (simp add: sized_def pages_for_pages)
  obtain w' where r: "handle w' f 0" "mmap_open blake3 (k * PAGE_SIZE) v w = Some (as_result (open_verdict blake3 (k * PAGE_SIZE) v f)
      \<lparr>mf_data = (HEADER_SIZE, HEADER_SIZE + k * PAGE_SIZE), mf_user_version = v\<rparr>, w')"
    by (rule mmap_open_eval [OF h, of "k * PAGE_SIZE"]) (simp_all add: tot)
  have "length f = HEADER_SIZE + k * PAGE_SIZE" if "open_verdict blake3 (k * PAGE_SIZE) v f = None"
    using that by (simp add: open_verdict_def Let_def tot split: if_splits)
  then show "\<exists>r w'. mmap_open blake3 (k * PAGE_SIZE) v w = Some (r, w') \<and> (case open_verdict blake3 (k * PAGE_SIZE) v f of
      Some e \<Rightarrow> r = Inl e | None \<Rightarrow> \<exists>p. r = Inr p \<and> mmap_ok k v p w' \<and> mmap_content p w' = drop HEADER_SIZE f)"
    using r by (auto simp: mmap_ok_def mmap_content_def handle_def split: option.split)
next
  fix blake3 :: "u8 list \<Rightarrow> u8 list" and now k v p w assume a: "hash_ok blake3" "stamps_ok now" "mmap_ok k v p w"
  then have len: "length (d_bytes w) = HEADER_SIZE + k * PAGE_SIZE" "handle w (d_bytes w) (d_cursor w)"
    and h32: "\<And>bs. length (blake3 bs) = 32" by (auto simp: mmap_ok_def handle_def hash_ok_def)
  obtain w' where "mmap_flush blake3 now p w = Some (Inr (), w')" "handle w' (saved blake3 now (mf_user_version p) (drop HEADER_SIZE (d_bytes w))) (d_cursor w)"
    by (rule mmap_flush_eval [OF len(2,1) h32 a(2)])
  then show "\<exists>w' c. mmap_flush blake3 now p w = Some (Inr (), w') \<and> handle w' (saved blake3 now v (mmap_content p w)) c
      \<and> mmap_ok k v p w' \<and> mmap_content p w' = mmap_content p w"
    using a(3) len(1) saved_parts(2,4) [OF h32 a(2)] by (auto simp: mmap_ok_def mmap_content_def handle_def)
qed (auto simp: mmap_ok_def mmap_content_def)

text \<open>Memory backed by a file.\<close>

definition file_backed_content :: "file_backed \<Rightarrow> disk \<Rightarrow> u8 list" where
  "file_backed_content fb w = memory_as_slice (fb_memory fb)"

definition file_backed_ok :: "nat \<Rightarrow> u64 \<Rightarrow> file_backed \<Rightarrow> disk \<Rightarrow> bool" where
  "file_backed_ok k v fb w \<longleftrightarrow> fb_file_data fb = (HEADER_SIZE, HEADER_SIZE + k * PAGE_SIZE) \<and> fb_user_version fb = v
     \<and> length (memory_as_slice (fb_memory fb)) = k * PAGE_SIZE
     \<and> honest w \<and> d_exists w \<and> length (d_bytes w) = HEADER_SIZE + k * PAGE_SIZE"

interpretation file_backed_pool: datapool file_backed_create file_backed_open file_backed_flush file_backed_content file_backed_ok
proof unfold_locales
  fix k :: nat and v :: u64 and w assume k: "sized k" and w: "honest w" "\<not> d_exists w"
  have tot: "pages_for (k * PAGE_SIZE) * PAGE_SIZE = HEADER_SIZE + k * PAGE_SIZE" using k by (simp add: sized_def pages_for_pages)
  obtain w' c' where "file_backed_create (k * PAGE_SIZE) v w = Some (Inr \<lparr>fb_memory = \<lparr>mem_mmap = replicate (k * PAGE_SIZE) 0, mem_size = k * PAGE_SIZE\<rparr>,
      fb_header = replicate HEADER_SIZE 0, fb_file_data = (HEADER_SIZE, pages_for (k * PAGE_SIZE) * PAGE_SIZE), fb_user_version = v\<rparr>, w')"
    "handle w' (replicate (pages_for (k * PAGE_SIZE) * PAGE_SIZE) 0) c'" by (rule file_backed_create_eval [OF w])
  then show "\<exists>p w'. file_backed_create (k * PAGE_SIZE) v w = Some (Inr p, w') \<and> file_backed_ok k v p w' \<and> file_backed_content p w' = replicate (k * PAGE_SIZE) 0"
    by (auto simp: tot file_backed_ok_def file_backed_content_def handle_def memory_as_slice_def)
next
  fix k :: nat and v :: u64 and w f c and blake3 :: "u8 list \<Rightarrow> u8 list" assume k: "sized k" and h: "handle w f c"
  have tot: "pages_for (k * PAGE_SIZE) * PAGE_SIZE = HEADER_SIZE + k * PAGE_SIZE" and k': "HEADER_SIZE + k * PAGE_SIZE < 2 ^ 53"
    using k by (simp_all add: sized_def pages_for_pages)
  obtain w' c' where r: "handle w' f c'" "file_backed_open blake3 (k * PAGE_SIZE) v w = Some (as_result (open_verdict blake3 (k * PAGE_SIZE) v f)
       \<lparr>fb_memory = \<lparr>mem_mmap = drop HEADER_SIZE f, mem_size = k * PAGE_SIZE\<rparr>,
         fb_header = header_bytes (zero_checksum (header_of_bytes (take HEADER_SIZE f))),
         fb_file_data = (HEADER_SIZE, HEADER_SIZE + k * PAGE_SIZE), fb_user_version = v\<rparr>, w')"
    by (rule file_backed_open_eval [OF h k'])
  have "length f = HEADER_SIZE + k * PAGE_SIZE" if "open_verdict blake3 (k * PAGE_SIZE) v f = None"
    using that by (simp add: open_verdict_def Let_def tot split: if_splits)
  then show "\<exists>r w'. file_backed_open blake3 (k * PAGE_SIZE) v w = Some (r, w') \<and> (case open_verdict blake3 (k * PAGE_SIZE) v f of
      Some e \<Rightarrow> r = Inl e | None \<Rightarrow> \<exists>p. r = Inr p \<and> file_backed_ok k v p w' \<and> file_backed_content p w' = drop HEADER_SIZE f)"
    using r by (auto simp: file_backed_ok_def file_backed_content_def memory_as_slice_def handle_def split: option.split)
next
  fix blake3 :: "u8 list \<Rightarrow> u8 list" and now k v p w assume a: "hash_ok blake3" "stamps_ok now" "file_backed_ok k v p w"
  then have len: "length (d_bytes w) = HEADER_SIZE + k * PAGE_SIZE" "handle w (d_bytes w) (d_cursor w)"
    and h32: "\<And>bs. length (blake3 bs) = 32"
    and p: "fb_file_data p = (HEADER_SIZE, HEADER_SIZE + k * PAGE_SIZE)" "length (memory_as_slice (fb_memory p)) = k * PAGE_SIZE" "fb_user_version p = v"
    by (auto simp: file_backed_ok_def handle_def hash_ok_def)
  obtain w' c' where "file_backed_flush blake3 now p w = Some (Inr (), w')"
    "handle w' (saved blake3 now (fb_user_version p) (memory_as_slice (fb_memory p))) c'"
    by (rule file_backed_flush_eval [OF len(2,1) h32 a(2) p(1,2)])
  then show "\<exists>w' c. file_backed_flush blake3 now p w = Some (Inr (), w') \<and> handle w' (saved blake3 now v (file_backed_content p w)) c
      \<and> file_backed_ok k v p w' \<and> file_backed_content p w' = file_backed_content p w"
    using p saved_parts(4) [OF h32 a(2)] by (auto simp: file_backed_ok_def file_backed_content_def handle_def)
qed (simp add: file_backed_ok_def file_backed_content_def)

text \<open>Every pair of kinds.\<close>

interpretation mmap_mmap: pool_transfer mmap_create mmap_open mmap_flush mmap_content mmap_ok
  mmap_create mmap_open mmap_flush mmap_content mmap_ok ..

interpretation mmap_backed: pool_transfer mmap_create mmap_open mmap_flush mmap_content mmap_ok
  file_backed_create file_backed_open file_backed_flush file_backed_content file_backed_ok ..

interpretation backed_mmap: pool_transfer file_backed_create file_backed_open file_backed_flush file_backed_content file_backed_ok
  mmap_create mmap_open mmap_flush mmap_content mmap_ok ..

interpretation backed_backed: pool_transfer file_backed_create file_backed_open file_backed_flush file_backed_content file_backed_ok
  file_backed_create file_backed_open file_backed_flush file_backed_content file_backed_ok ..

section \<open>Sizes that are not whole pages\<close>

lemma write_pages_panics:
  assumes "handle w f (HEADER_SIZE + q * PAGE_SIZE)" and "q \<le> k" and "k * PAGE_SIZE \<le> length m" and "length m < Suc k * PAGE_SIZE"
    and "length f = HEADER_SIZE + Suc k * PAGE_SIZE"
  shows "write_pages [q..<Suc k] m hashed w = None"
  using assms
proof (induction "k - q" arbitrary: w f q hashed)
  case 0
  then have k: "k = q" "[q..<Suc k] = [q]" by simp_all
  have "load_bytes m (q * PAGE_SIZE) PAGE_SIZE = None" using 0 k by (simp add: load_bytes_def)
  then show ?case unfolding k(2) by (simp add: io_bind_def io_access_def)
next
  case (Suc d)
  then have q: "q < k" "q < Suc k" "d = k - Suc q" by auto
  have fit: "Suc q * PAGE_SIZE \<le> k * PAGE_SIZE" using q(1) by (intro mult_le_mono1) simp
  let ?bs = "take PAGE_SIZE (drop (q * PAGE_SIZE) m)" and ?p = "HEADER_SIZE + q * PAGE_SIZE"
  let ?f = "take ?p f @ ?bs @ drop (?p + PAGE_SIZE) f"
  have ld: "load_bytes m (q * PAGE_SIZE) PAGE_SIZE = Some ?bs" using fit Suc.prems(3) by (simp add: load_bytes_def add.commute)
  have bs: "length ?bs = PAGE_SIZE" and pf: "?p + PAGE_SIZE \<le> length f" using fit q(1) Suc.prems(3,5) by simp_all
  have "wp (write_page ?p ?bs) (\<lambda>r w'. r = Inr () \<and> handle w' ?f (?p + PAGE_SIZE)) w"
    by (rule write_page_wp [OF Suc.prems(1) bs pf]) simp
  then obtain w' where w': "write_page ?p ?bs w = Some (Inr (), w')" "handle w' ?f (?p + PAGE_SIZE)" by (rule wp_obtain)
  have "write_pages [Suc q..<Suc k] m (hashed @ ?bs) w' = None"
  proof (rule Suc.hyps(1) [OF q(3)])
    show "handle w' ?f (HEADER_SIZE + Suc q * PAGE_SIZE)" using w'(2) by (simp add: ac_simps)
    show "length ?f = HEADER_SIZE + Suc k * PAGE_SIZE" using bs pf Suc.prems(5) by simp
  qed (use q Suc.prems in simp_all)
  then show ?case unfolding upt_from [OF q(2)] write_pages.simps by (simp add: io_bind_def io_access_def ld w'(1))
qed

lemma rounded_up:
  assumes "n mod PAGE_SIZE \<noteq> 0"
  shows "(HEADER_SIZE + n + (PAGE_SIZE - 1)) div PAGE_SIZE = Suc (Suc (n div PAGE_SIZE))"
proof -
  define q r where "q = n div 4096" and "r = n mod 4096"
  have n: "n = q * 4096 + r" "r < 4096" "r \<noteq> 0" using assms by (simp_all add: q_def r_def PAGE_SIZE_def)
  have "4096 + n + 4095 = (r - 1) + Suc (Suc q) * 4096" using n by simp
  then have "(4096 + n + 4095) div 4096 = Suc (Suc q) + (r - 1) div 4096" by (simp only: div_mult_self1)
  then show ?thesis using n(2) by (simp add: HEADER_SIZE_def PAGE_SIZE_def q_def)
qed

lemma pages_rounded:
  assumes "HEADER_SIZE + n < 2 ^ 53" and "n mod PAGE_SIZE \<noteq> 0"
  shows "pages_for n * PAGE_SIZE = HEADER_SIZE + Suc (n div PAGE_SIZE) * PAGE_SIZE"
    and "n div PAGE_SIZE * PAGE_SIZE \<le> n" and "n < Suc (n div PAGE_SIZE) * PAGE_SIZE"
proof -
  have "(HEADER_SIZE + n + (PAGE_SIZE - 1)) div PAGE_SIZE = Suc (Suc (n div PAGE_SIZE))"
    using assms(2) by (rule rounded_up)
  then show "pages_for n * PAGE_SIZE = HEADER_SIZE + Suc (n div PAGE_SIZE) * PAGE_SIZE"
    using pages_for_eq [OF assms(1)] by (simp add: HEADER_SIZE_def PAGE_SIZE_def)
  show "n div PAGE_SIZE * PAGE_SIZE \<le> n" by simp
  show "n < Suc (n div PAGE_SIZE) * PAGE_SIZE" by (simp add: PAGE_SIZE_def dividend_less_div_times)
qed

section \<open>Properties\<close>

text \<open>
  C27. Opening. For a pool of whole pages both kinds of pool give the same verdict on every file, whatever it holds: the file
  is refused for its size, its magic, its format version, the user version or its checksum, the first that does not fit,
  and otherwise the pool holds exactly the data behind the header. The answers of the system may cut reads short any
  number of times.
\<close>

theorem pools_open_alike:
  assumes "sized k" and "honest w" and "d_exists w"
  shows "(\<exists>w'. mmap_open blake3 (k * PAGE_SIZE) v w =
      Some (as_result (open_verdict blake3 (k * PAGE_SIZE) v (d_bytes w)) \<lparr>mf_data = (HEADER_SIZE, HEADER_SIZE + k * PAGE_SIZE), mf_user_version = v\<rparr>, w')
        \<and> d_bytes w' = d_bytes w)
    \<and> (\<exists>fb w'. file_backed_open blake3 (k * PAGE_SIZE) v w = Some (as_result (open_verdict blake3 (k * PAGE_SIZE) v (d_bytes w)) fb, w')
        \<and> d_bytes w' = d_bytes w \<and> memory_as_slice (fb_memory fb) = take (k * PAGE_SIZE) (drop HEADER_SIZE (d_bytes w))
        \<and> fb_file_data fb = (HEADER_SIZE, HEADER_SIZE + k * PAGE_SIZE))"
proof -
  have h: "handle w (d_bytes w) (d_cursor w)" using assms(2,3) by (simp add: handle_def)
  have k: "HEADER_SIZE + k * PAGE_SIZE < 2 ^ 53" "HEADER_SIZE + k * PAGE_SIZE \<le> pages_for (k * PAGE_SIZE) * PAGE_SIZE"
    using assms(1) by (simp_all add: sized_def pages_for_pages)
  show ?thesis
    by (rule mmap_open_eval [OF h k(2), of blake3 v], rule file_backed_open_eval [OF h k(1), of blake3 v])
      (auto simp: handle_def memory_as_slice_def)
qed

text \<open>
  C26. Restarting. A pool of whole pages that is flushed, by either kind of pool, can be opened again by either kind, at any
  later time and with any number of reads and writes cut short: it holds the data it held at the flush and is again such a
  pool, and another user version is refused. Every new pool is such a pool.
\<close>

theorem pools_restart:
  assumes "hash_ok blake3" and "sized k" and "stamps_ok now"
  shows "(mmap_ok k v mf w \<longrightarrow>
        reopens (mmap_flush blake3) mmap_content (mmap_open blake3 (k * PAGE_SIZE)) mmap_content (mmap_ok k) v now mf w
      \<and> reopens (mmap_flush blake3) mmap_content (file_backed_open blake3 (k * PAGE_SIZE)) file_backed_content (file_backed_ok k) v now mf w)
    \<and> (file_backed_ok k v fb w \<longrightarrow>
        reopens (file_backed_flush blake3) file_backed_content (mmap_open blake3 (k * PAGE_SIZE)) mmap_content (mmap_ok k) v now fb w
      \<and> reopens (file_backed_flush blake3) file_backed_content (file_backed_open blake3 (k * PAGE_SIZE)) file_backed_content (file_backed_ok k) v now fb w)
    \<and> (honest u \<and> \<not> d_exists u \<longrightarrow>
        (\<exists>mf u'. mmap_create (k * PAGE_SIZE) v u = Some (Inr mf, u') \<and> mmap_ok k v mf u')
      \<and> (\<exists>fb u'. file_backed_create (k * PAGE_SIZE) v u = Some (Inr fb, u') \<and> file_backed_ok k v fb u'))"
  using mmap_mmap.transfer [OF assms] mmap_backed.transfer [OF assms] backed_mmap.transfer [OF assms] backed_backed.transfer [OF assms]
    mmap_pool.creates [OF assms(2)] file_backed_pool.creates [OF assms(2)] by blast

text \<open>
  C28. Sizes that are not whole pages. A mapped file of such a size can be created and flushed but not opened again: the
  flush hashes the whole last page and the open only the part of it asked for, so unless the hash function confuses the
  two the open reports a checksum mismatch. A pool backed by a file panics in its first flush, after writing the whole
  pages: it takes the last page from memory that ends before.
\<close>

theorem unaligned_pool_lost:
  assumes "HEADER_SIZE + n < 2 ^ 53" and "n mod PAGE_SIZE \<noteq> 0" and "honest w" and "\<not> d_exists w" and "hash_ok blake3" and "stamps_ok now"
    and "blake3 (header_bytes (stamped_header now v) @ replicate (Suc (n div PAGE_SIZE) * PAGE_SIZE) 0)
       \<noteq> blake3 (header_bytes (stamped_header now v) @ replicate n 0)"
  shows "(\<exists>mf w1 w2 w3. mmap_create n v w = Some (Inr mf, w1) \<and> mmap_flush blake3 now mf w1 = Some (Inr (), w2)
      \<and> mmap_open blake3 n v w2 = Some (Inl (OtherError ''checksum mismatch''), w3))
    \<and> (\<exists>fb w1. file_backed_create n v w = Some (Inr fb, w1) \<and> file_backed_flush blake3 now fb w1 = None)"
proof
  let ?k = "n div PAGE_SIZE" and ?z = "replicate (pages_for n * PAGE_SIZE) 0 :: u8 list"
  note r = pages_rounded [OF assms(1,2)]
  have h32: "\<And>bs. length (blake3 bs) = 32" using assms(5) by (simp add: hash_ok_def)
  have le: "HEADER_SIZE + n \<le> pages_for n * PAGE_SIZE" and len: "length ?z = HEADER_SIZE + Suc ?k * PAGE_SIZE" using r by simp_all
  obtain w1 where w1: "mmap_create n v w = Some (Inr \<lparr>mf_data = (HEADER_SIZE, pages_for n * PAGE_SIZE), mf_user_version = v\<rparr>, w1)" "handle w1 ?z 0"
    by (rule mmap_create_eval [OF assms(3,4)])
  let ?mf = "\<lparr>mf_data = (HEADER_SIZE, pages_for n * PAGE_SIZE), mf_user_version = v\<rparr>" and ?c = "replicate (Suc ?k * PAGE_SIZE) 0 :: u8 list"
  obtain w2 where w2: "mmap_flush blake3 now ?mf w1 = Some (Inr (), w2)" "handle w2 (saved blake3 now (mf_user_version ?mf) (drop HEADER_SIZE ?z)) 0"
    by (rule mmap_flush_eval [OF w1(2) len h32 assms(6)])
  have "drop HEADER_SIZE ?z = ?c" using r(1) by simp
  with w2(2) have s: "handle w2 (saved blake3 now v ?c) 0" by simp
  have "take n ?c = replicate n 0" using r(3) by (simp add: min_def)
  then have v: "open_verdict blake3 n v (saved blake3 now v ?c) = Some (OtherError ''checksum mismatch'')"
    using open_verdict_saved [where content = ?c and n = n and v' = v and v = v, OF h32 assms(6)] r(1) assms(7) by simp
  obtain w3 where "mmap_open blake3 n v w2 = Some (as_result (open_verdict blake3 n v (saved blake3 now v ?c))
      \<lparr>mf_data = (HEADER_SIZE, HEADER_SIZE + n), mf_user_version = v\<rparr>, w3)" by (rule mmap_open_eval [OF s le])
  then have "mmap_open blake3 n v w2 = Some (Inl (OtherError ''checksum mismatch''), w3)" unfolding v by simp
  then show "\<exists>mf w1 w2 w3. mmap_create n v w = Some (Inr mf, w1) \<and> mmap_flush blake3 now mf w1 = Some (Inr (), w2)
      \<and> mmap_open blake3 n v w2 = Some (Inl (OtherError ''checksum mismatch''), w3)" using w1(1) w2(1) by blast
  obtain w1' c' where fb: "file_backed_create n v w = Some (Inr \<lparr>fb_memory = \<lparr>mem_mmap = replicate n 0, mem_size = n\<rparr>,
      fb_header = replicate HEADER_SIZE 0, fb_file_data = (HEADER_SIZE, pages_for n * PAGE_SIZE), fb_user_version = v\<rparr>, w1')"
    "handle w1' ?z c'" by (rule file_backed_create_eval [OF assms(3,4)])
  define u where "u = (tick w1')\<lparr>d_cursor := HEADER_SIZE\<rparr>"
  have u: "handle u ?z (HEADER_SIZE + 0 * PAGE_SIZE)" using fb(2) by (simp add: handle_def u_def)
  have pages: "(pages_for n * PAGE_SIZE - HEADER_SIZE) div PAGE_SIZE = Suc ?k" using r(1) by (simp add: PAGE_SIZE_def)
  have "write_pages [0..<Suc ?k] (replicate n 0) hashed u = None" for hashed
    by (rule write_pages_panics [OF u le0 _ _ len]) (use r in simp_all)
  moreover have "file_seek HEADER_SIZE w1' = Some (Inr (), u)" using fb(2) by (simp add: file_seek_def os_call_honest handle_def u_def)
  ultimately have "file_backed_flush blake3 now \<lparr>fb_memory = \<lparr>mem_mmap = replicate n 0, mem_size = n\<rparr>,
      fb_header = replicate HEADER_SIZE 0, fb_file_data = (HEADER_SIZE, pages_for n * PAGE_SIZE), fb_user_version = v\<rparr> w1' = None"
    by (simp add: file_backed_flush_def Let_def io_bind_def pages memory_as_slice_def del: upt_Suc)
  then show "\<exists>fb w1. file_backed_create n v w = Some (Inr fb, w1) \<and> file_backed_flush blake3 now fb w1 = None" using fb(1) by blast
qed

section \<open>Concrete pools\<close>

definition demo_hash :: "u8 list \<Rightarrow> u8 list" where
  "demo_hash bs = replicate 32 (of_nat (length bs div 4096))"

definition demo_stamps :: stamps where
  "demo_stamps = \<lparr>time_monotonic_s = replicate 4 1, time_unix_s = replicate 4 2, time_monotonic_ns = replicate 8 3, time_unix_ns = replicate 8 4\<rparr>"

definition demo_disk :: disk where
  "demo_disk = \<lparr>d_exists = False, d_bytes = [], d_cursor = 0, d_answers = [Moves 0, Moves 7, Moves 100]\<rparr>"

lemma demo_pool_facts:
  "hash_ok demo_hash" "stamps_ok demo_stamps" "honest demo_disk" "\<not> d_exists demo_disk" "sized 2"
  by (simp_all add: hash_ok_def demo_hash_def stamps_ok_def demo_stamps_def honest_def demo_disk_def sized_def HEADER_SIZE_def PAGE_SIZE_def)

theorem pools_open_alike_witness:
  "\<exists>w'. mmap_open demo_hash (2 * PAGE_SIZE) 0 (demo_disk\<lparr>d_exists := True\<rparr>) = Some (Inl (OtherError ''filesize mismatch''), w')"
proof -
  have "pages_for (2 * PAGE_SIZE) * PAGE_SIZE = HEADER_SIZE + 2 * PAGE_SIZE" using demo_pool_facts(5) by (intro pages_for_pages) (simp add: sized_def)
  then have "open_verdict demo_hash (2 * PAGE_SIZE) 0 [] = Some (OtherError ''filesize mismatch'')" by (simp add: open_verdict_def HEADER_SIZE_def)
  moreover have "d_bytes demo_disk = []" by (simp add: demo_disk_def)
  ultimately show ?thesis using pools_open_alike [OF demo_pool_facts(5), of "demo_disk\<lparr>d_exists := True\<rparr>" demo_hash 0] demo_pool_facts(3) by auto
qed

theorem pools_restart_witness:
  "\<exists>mf u'. mmap_create (2 * PAGE_SIZE) 5 demo_disk = Some (Inr mf, u')
     \<and> reopens (mmap_flush demo_hash) mmap_content (file_backed_open demo_hash (2 * PAGE_SIZE)) file_backed_content (file_backed_ok 2) 5 demo_stamps mf u'"
  using pools_restart [OF demo_pool_facts(1,5,2)] demo_pool_facts(3,4) by blast

theorem unaligned_pool_lost_witness:
  "\<exists>mf w1 w2 w3. mmap_create 5000 0 demo_disk = Some (Inr mf, w1) \<and> mmap_flush demo_hash demo_stamps mf w1 = Some (Inr (), w2)
     \<and> mmap_open demo_hash 5000 0 w2 = Some (Inl (OtherError ''checksum mismatch''), w3)"
proof -
  have "length (header_bytes (stamped_header demo_stamps 0)) = HEADER_SIZE"
    by (intro length_header_bytes stamped_header_ok demo_pool_facts(2))
  then have "demo_hash (header_bytes (stamped_header demo_stamps 0) @ replicate (Suc (5000 div PAGE_SIZE) * PAGE_SIZE) 0)
      \<noteq> demo_hash (header_bytes (stamped_header demo_stamps 0) @ replicate 5000 0)"
    by (simp add: demo_hash_def HEADER_SIZE_def PAGE_SIZE_def)
  then show ?thesis using unaligned_pool_lost [OF _ _ demo_pool_facts(3,4,1,2), of 5000 0]
    by (simp add: HEADER_SIZE_def PAGE_SIZE_def)
qed

end
