(* ===== verification/Spec2Isabelle.thy ===== *)
theory Spec2Isabelle
  imports CuckooSpec CasToken TtlIndex GhostQueue HashtableSpec PinSafety SeqLock ChainReserve SegcacheOps CacheSpec TagScan DataPools
begin

text \<open>
  \<^bold>\<open>A verification development of \<^verbatim>\<open>cache-rs\<close>.\<close>

  The repository holds cache engines and the item formats they share. \<^verbatim>\<open>crates/keyvalue\<close> has the values and the two
  packed item formats, \<^verbatim>\<open>crates/cuckoo\<close> a fixed-size cuckoo cache over the compact format, and \<^verbatim>\<open>crates/segcache\<close> a
  segment-structured cache: a lock-free multi-choice hashtable maps keys to locations, a location names a segment, an
  incarnation of it and an offset in it, segments are chained in TTL buckets, filled by appending and reclaimed whole,
  by expiry or by an eviction policy, while readers, writers and removers pin them.
  \<^verbatim>\<open>crates/datatier\<close> has the pools of memory, mapped files and memory backed by a file.

  \<^bold>\<open>Conventions.\<close> Machine integers are words, and arithmetic that may leave their range is written out. Raw pointers and
  slices are offsets into a byte list, and an access that leaves it is \<^const>\<open>None\<close>, as are the panics of the source; errors
  the source returns are values of a sum type. A loop that may not end is a partial function whose value is then
  \<^const>\<open>None\<close> (\<open>iterate\<close>), so that the theorems which state a result state that the loop ends; no fuel is used. Debug assertions
  are not part of the model. Cargo features that change the code (\<^verbatim>\<open>integrity\<close>) are arguments. What is outside the repository
  is an argument too: the hash functions, the checksum function, the clock and the answers of the operating system. An
  operation of the composed cache reads the clock once. Operations on shared words are given as those of one thread first,
  every atomic access written out; where the interleaving matters there is a step relation over the accesses.

  \<^bold>\<open>Theories, in the order of the parts.\<close>

  \<^item> \<open>Prelude\<close>: word and byte-memory lemmas, loops, the codec interface \<open>packed_codec\<close> and the interface \<open>invariant_system\<close> of a
    transition system with an inductive invariant. Both are interpreted on the model's own definitions.

  \<^item> \<open>KeyValue\<close> (\<^verbatim>\<open>keyvalue/src/value.rs, lib.rs, numeric.rs\<close>): values and the recognition of decimal strings, which accepts
    exactly the canonical renderings of 64-bit integers.

  \<^item> \<open>TinyItem\<close> (\<^verbatim>\<open>keyvalue/src/tiny.rs\<close>): the compact item; what \<^verbatim>\<open>define\<close> writes is read back, except for the empty byte
    value.

  \<^item> \<open>RawItem\<close>, \<open>RawItemProps\<close> (\<^verbatim>\<open>keyvalue/src/item\<close>): the segment item with its flags, optional data, aligned numeric slot,
    version and checksum; the round trip of \<^verbatim>\<open>define\<close>, the layout and its bounds, and in-place arithmetic.

  \<^item> \<open>SeqLock\<close>: the version word of a numeric item as a seqlock, a step relation over any number of writers, gates, readers and
    checkers, and its linearizability. The version wraps after \<open>2 ^ 63\<close> updates; fewer are assumed.

  \<^item> \<open>Cuckoo\<close>, \<open>CuckooSlots\<close>, \<open>CuckooDisplace\<close>, \<open>CuckooProps\<close>, \<open>CuckooSpec\<close> (\<^verbatim>\<open>cuckoo/src\<close>): the cuckoo cache on its byte array, with
    builder, items, errors and metrics. The displacement search recurses on its depth, which the source bounds, so it is
    structural; it is shown to free a slot without losing an item, or to change nothing. The cache refines a map that may forget,
    and its gauges are exact, both for displacement depths up to four (the first), items the compact format can represent and a computed
    expiry other than zero; an insertion costs at most one candidate. Theorems on an expired copy, a zero expiry and \<^verbatim>\<open>clear\<close> show where
    the code departs from that (see the findings in the manifest).

  \<^item> \<open>Location\<close>, \<open>Bucket\<close>, \<open>CasToken\<close>, \<open>Rand\<close> (\<^verbatim>\<open>segcache/src/hashtable/location.rs, mod.rs, bucket.rs, cas.rs, rand.rs\<close>): the packed
    words (location, slot, token) as codecs, the frequency counter, and the generator, which does not repeat a draw.

  \<^item> \<open>Hashtable\<close>, \<open>HashtableProps\<close>, \<open>HashtableOps\<close>, \<open>HashtableSpec\<close> (\<^verbatim>\<open>segcache/src/hashtable/table.rs, traits.rs\<close>): the multi-choice
    table by one thread, with the portable tag scan. The client's view of the segments is the locale \<open>key_verifier\<close>, interpreted
    on the segment verifier. The table refines a partial map from keys to locations for every hash function; the mask-driven scan is
    the plain scan; each operation changes exactly one entry. \<^verbatim>\<open>sort_unstable_by_key\<close> over at most eight candidates is
    modelled by a stable sort. \<open>TagScan\<close>: the AVX2 and NEON scans compute the mask of the portable one.

  \<^item> \<open>TtlIndex\<close> (\<^verbatim>\<open>segcache/src/ttl_buckets/ttl_buckets.rs\<close>): the bucket of a TTL, with the exact shortfall of its tier.

  \<^item> \<open>GhostQueue\<close> (\<^verbatim>\<open>segcache/src/eviction/ghost.rs\<close>): the ghost queue of S3-FIFO, its bound on members, the effect of adding and removing, and the growth of its
    queue.

  \<^item> \<open>SegState\<close>, \<open>SegHeader\<close> (\<^verbatim>\<open>segcache/src/segments/state.rs, header.rs\<close>): the packed metadata word, the header, its transitions, pins,
    space reservation and counters.

  \<^item> \<open>PinProtocol\<close>, \<open>PinInvariant\<close>, \<open>PinSafety\<close> (\<^verbatim>\<open>header.rs, guard.rs, writer_pin.rs, remover_pin.rs\<close> and the drain, recycle and condemn
    paths of \<^verbatim>\<open>segments.rs\<close>): the life of one segment as a step relation over a multiset of program points, one step per atomic
    access to a field the protocol reads, in sequentially consistent order (the stores to the pool and the write statistics are joined
    with the access beside them). The counters are 32 bits wide and fewer threads than they can count are assumed
    (\<open>room\<close>). In every interleaving pins and ownership exclude each other as intended, and a free segment is queued exactly
    once. Two flags restrict the executions. Without \<open>splicing\<close> no neighbour patches the links of a
    condemned segment, on which the source's comments disagree: a condemned segment is never stranded exactly in these executions. With \<open>fresh\<close> no release stalls
    between its look at the reader count and its load of the state: a pinned reader is safe in these executions, and an
    execution with such a stall, in which a segment is freed under a pin, is exhibited. The free queue is a count of the id's occurrences, since one segment is followed.

  \<^item> \<open>SegStore\<close>, \<open>SegView\<close> (\<^verbatim>\<open>segments.rs, builder.rs, free_queue.rs, segment.rs\<close>): the store of segments as one record
    (headers, item memory, free and spare queues, pool count) with building, resolution and pinning of a location, allocation,
    unlinking, recycling, condemning, and the drain that ends an incarnation item by item.

  \<^item> \<open>TtlChain\<close>, \<open>ChainProps\<close>, \<open>ChainReserve\<close>, \<open>ChainUnlink\<close> (\<^verbatim>\<open>ttl_buckets/ttl_bucket.rs\<close>): the chain of a TTL bucket, its extension by
    election and its drain. The chain is a doubly linked list through the headers; a reservation is shown to return with
    the exact store it leaves, and an unlink to keep the chain.

  \<^item> \<open>Float64\<close>, \<open>Evictor\<close>, \<open>SegMove\<close>, \<open>TtlTable\<close>, \<open>SegEvict\<close>, \<open>EvictPasses\<close> (\<^verbatim>\<open>eviction/mod.rs, policy.rs, segment.rs, segments.rs, ttl_buckets.rs\<close>): the
    ranking of segments, the copying, pruning and promotion of items, the passes of every eviction policy, and the table of
    buckets. Binary64 results are rounded to 53 bits; subnormal numbers and overflow, which the code's values do not reach,
    are left out.

  \<^item> \<open>Segcache\<close>, \<open>SegcacheOps\<close> (\<^verbatim>\<open>segcache.rs, builder.rs, error.rs\<close>): the cache as the record of its hashtable, segments, TTL
    buckets and eviction state, and every operation of its interface with its retry loops: \<^verbatim>\<open>get\<close>, \<^verbatim>\<open>insert\<close>, \<^verbatim>\<open>cas\<close>, \<^verbatim>\<open>delete\<close>,
    \<^verbatim>\<open>wrapping_add\<close>, \<^verbatim>\<open>saturating_sub\<close>, \<^verbatim>\<open>try_into_numeric\<close>, \<^verbatim>\<open>expire\<close>, \<^verbatim>\<open>clear\<close>.

  \<^item> \<open>SegCells\<close>, \<open>SegStream\<close>, \<open>CacheMap\<close>, \<open>CacheInv\<close>: the invariant of the composed cache. A ghost state lists the items of each
    segment in order and the bucket of each chain; the invariant ties it to the bytes of the segments, their counters, the
    links, the free queues and the entries of the hashtable. The content of the cache, a map from keys to a segment and an
    item, is read off the ghost state.

  \<^item> \<open>CacheGet\<close>, \<open>CacheNew\<close>, \<open>CacheDrain\<close>, \<open>CacheExpire\<close>, \<open>CacheEvict\<close>, \<open>CacheWrite\<close>, \<open>CacheRemove\<close>, \<open>CacheUpdate\<close>, \<open>CacheReserve\<close>, \<open>CacheInsert\<close>: one
    operation or pass each: that it returns, keeps the invariant, and what becomes of the content.

  \<^item> \<open>CacheSpec\<close>: the end-to-end theorems over the interface, and the refinement of an abstract store, through the
    interface \<open>op_simulation\<close>. The store has the item and segment of each key and the stamp (time and TTL) of each segment; lookups, deletions and
    arithmetic are exact on it, an expiry drops whole segments past their expiry, and an insertion drops whole segments only when none
    is free, boundedly many of them before their expiry. Keys, values and optional data are those the item format can represent, and
    sizes that pass the size check but fit no segment beside its magic are left out, as \<open>ChainReserve\<close> shows what happens there. They hold for the policies that drop whole segments (None, Random, RandomFifo, Fifo, Cte, Util);
    for Merge and S3-FIFO the passes are modelled and the theorems on lookup, deletion (S3-FIFO), arithmetic, expiry and clearing hold, those
    on insertion do not cover them.

  \<^item> \<open>DataTier\<close>, \<open>DataTierProps\<close>, \<open>DataPools\<close> (\<^verbatim>\<open>datatier/src/lib.rs\<close>): the pools over a file whose calls may fail or move part of the
    data; weakest preconditions of the calls; the locale \<open>datapool\<close>, interpreted on both kinds of pool, and the restart of
    one from the file of the other. Sizes below \<open>2 ^ 53\<close> are assumed, up to which the page count in floating point is exact.

  \<^bold>\<open>Not modelled.\<close> Memory mapping and prefetching in the segment heap, the synchronisation and clock shims for model checkers,
  metrics that count events only, \<^verbatim>\<open>Debug\<close> output and debug scans, fault injection hooks, memory orderings weaker than sequential
  consistency, benchmarks, examples, tests and fuzz targets. Concurrency is covered for the two protocols that readers and
  writers share (\<open>PinSafety\<close>, \<open>SeqLock\<close>), not for the composed cache, whose operations are run by one thread. No invariant is
  stated for the passes that move items (Merge, S3-FIFO). \<^verbatim>\<open>cas\<close> and \<^verbatim>\<open>try_into_numeric\<close> are modelled without a theorem on the
  whole cache.
\<close>

end
